(* ===== verification/Prelude.thy ===== *)
theory Prelude
  imports Main "HOL-Library.Word" "HOL-Library.Multiset"
begin

text \<open>
  Shared vocabulary of the development: the result type of code that may fail an
  assertion or panic, a total-correctness predicate with its rules, and generic lemmas
  on functions, lists and sorted association lists that several components use.
\<close>

unbundle bit_operations_syntax

named_theorems step_rules \<open>rewrite rules that run a checked computation\<close>

section \<open>Machine integers\<close>

type_synonym u32 = "32 word"
type_synonym u64 = "64 word"

section \<open>Results of code that may fail\<close>

text \<open>
  \<open>log.h\<close> gives the sources two ways to stop: \<open>assert\<close>/\<open>assert_msg\<close> and \<open>panic\<close>.
  Both end the simulation, so both are values of an error type; \<open>Undefined\<close> is for what C++
  leaves undefined (an access out of the bounds of an array, a division by zero). The
  string names the check.
\<close>

datatype zerr = AssertFail string | Panicked string | Undefined string

type_synonym 'a res = "zerr + 'a"

definition bindR :: "'a res \<Rightarrow> ('a \<Rightarrow> 'b res) \<Rightarrow> 'b res" where
  "bindR r f = (case r of Inl e \<Rightarrow> Inl e | Inr x \<Rightarrow> f x)"

definition require :: "bool \<Rightarrow> zerr \<Rightarrow> 'a res \<Rightarrow> 'a res" where
  "require b e r = (if b then r else Inl e)"

definition succeeds :: "'a res \<Rightarrow> ('a \<Rightarrow> bool) \<Rightarrow> bool" where
  "succeeds r Q = (case r of Inl e \<Rightarrow> False | Inr x \<Rightarrow> Q x)"

lemma bindR_Inl [simp, step_rules]: "bindR (Inl e) f = Inl e"
  by (simp add: bindR_def)

lemma bindR_Inr [simp, step_rules]: "bindR (Inr x) f = f x"
  by (simp add: bindR_def)

lemma require_True [simp, step_rules]: "require True e r = r"
  by (simp add: require_def)

lemma require_False [simp, step_rules]: "require False e r = Inl e"
  by (simp add: require_def)

lemma bindR_eq_Inr_iff: "bindR r f = Inr y \<longleftrightarrow> (\<exists>x. r = Inr x \<and> f x = Inr y)"
  by (auto simp: bindR_def split: sum.splits)

lemma require_eq_Inr_iff: "require b e r = Inr y \<longleftrightarrow> b \<and> r = Inr y"
  by (auto simp: require_def)

lemma succeeds_Inr [simp]: "succeeds (Inr x) Q = Q x"
  by (simp add: succeeds_def)

lemma succeeds_Inl [simp]: "succeeds (Inl e) Q = False"
  by (simp add: succeeds_def)

lemma succeeds_bindR [simp]: "succeeds (bindR r f) Q = succeeds r (\<lambda>x. succeeds (f x) Q)"
  by (cases r) simp_all

lemma succeeds_require [simp]: "succeeds (require b e r) Q = (b \<and> succeeds r Q)"
  by (simp add: require_def)

lemma succeeds_mono: "succeeds r P \<Longrightarrow> (\<And>x. P x \<Longrightarrow> Q x) \<Longrightarrow> succeeds r Q"
  by (cases r) simp_all

lemma succeeds_mono_eq:
  "succeeds r P \<Longrightarrow> (\<And>x. r = Inr x \<Longrightarrow> P x \<Longrightarrow> Q x) \<Longrightarrow> succeeds r Q"
  by (cases r) simp_all

lemma succeeds_iff: "succeeds r Q \<longleftrightarrow> (\<exists>x. r = Inr x \<and> Q x)"
  by (cases r) simp_all

lemma succeedsD: "succeeds r Q \<Longrightarrow> r = Inr x \<Longrightarrow> Q x"
  by simp

section \<open>Lists updated by index\<close>

lemma nth_upd: "xs[i := v] ! j = (if j = i \<and> i < length xs then v else xs ! j)"
  by (cases "i < length xs") (auto simp: nth_list_update list_update_beyond)

lemma find_append: "find P (xs @ ys) = (case find P xs of Some x \<Rightarrow> Some x | None \<Rightarrow> find P ys)"
  by (induction xs) auto

lemma dropWhile_replicate:
  "0 < k \<Longrightarrow> dropWhile P (replicate k x @ ys) = (if P x then dropWhile P ys else replicate k x @ ys)"
proof -
  have "P x \<Longrightarrow> dropWhile P (replicate k x @ ys) = dropWhile P ys" by (induction k) auto
  then show "0 < k \<Longrightarrow> ?thesis" by (cases k) auto
qed

lemma option_ext: "(\<And>i. x = Some i \<longleftrightarrow> y = Some i) \<Longrightarrow> x = y"
  by (cases x; cases y) auto

section \<open>Multiples\<close>

lemma dvd_less_add:
  assumes "d dvd x" "d dvd l" "x < l" shows "x + d \<le> (l :: nat)"
proof -
  from assms(1,2) obtain a b where "x = d * a" "l = d * b" by (elim dvdE)
  with assms(3) have "Suc a \<le> b" by auto
  then have "d * Suc a \<le> d * b" by (rule mult_le_mono2)
  with \<open>x = d * a\<close> \<open>l = d * b\<close> show ?thesis by simp
qed

lemma dvd_less_imp_le: "d dvd x \<Longrightarrow> d dvd l \<Longrightarrow> x < l + d \<Longrightarrow> x \<le> (l :: nat)"
  using dvd_less_add [of d l x] by (cases "x \<le> l") auto

end
