(* ===== verification/Multimap.thy ===== *)
theory Multimap
  imports Prelude
begin

text \<open>
  \<open>std::multimap\<close> (through \<open>g_multimap\<close>), as far as the sources use it: a list of key-value
  pairs sorted by key, where \<open>insert\<close> places a new pair after those with an equal key,
  iteration goes from the smallest key, and \<open>find\<close> returns the first pair of a key, as the
  library's lower-bound search does.
\<close>

type_synonym ('k, 'v) multimap = "('k \<times> 'v) list"

fun mm_insert :: "'k::linorder \<Rightarrow> 'v \<Rightarrow> ('k, 'v) multimap \<Rightarrow> ('k, 'v) multimap" where
  "mm_insert k v [] = [(k, v)]"
| "mm_insert k v ((k', v') # xs) =
     (if k' \<le> k then (k', v') # mm_insert k v xs else (k, v) # (k', v') # xs)"

definition mm_find :: "'k \<Rightarrow> ('k, 'v) multimap \<Rightarrow> nat option" where
  "mm_find k m = find (\<lambda>i. fst (m ! i) = k) [0..<length m]"

definition mm_erase :: "nat \<Rightarrow> ('k, 'v) multimap \<Rightarrow> ('k, 'v) multimap" where
  "mm_erase i m = take i m @ drop (Suc i) m"

definition mm_count :: "'k \<Rightarrow> ('k, 'v) multimap \<Rightarrow> nat" where
  "mm_count k m = length (filter (\<lambda>p. fst p = k) m)"

definition mm_sorted :: "('k::linorder, 'v) multimap \<Rightarrow> bool" where
  "mm_sorted m \<longleftrightarrow> sorted (map fst m)"

lemma mset_mm_insert [simp]: "mset (mm_insert k v m) = add_mset (k, v) (mset m)"
  by (induction k v m rule: mm_insert.induct) auto

lemma set_mm_insert [simp]: "set (mm_insert k v m) = insert (k, v) (set m)"
  by (induction k v m rule: mm_insert.induct) auto

lemma length_mm_insert [simp]: "length (mm_insert k v m) = Suc (length m)"
  by (induction k v m rule: mm_insert.induct) auto

lemma sorted_mm_insert: "mm_sorted m \<Longrightarrow> mm_sorted (mm_insert k v m)"
  unfolding mm_sorted_def by (induction k v m rule: mm_insert.induct) auto

lemma mset_mm_erase: "i < length m \<Longrightarrow> mset m = add_mset (m ! i) (mset (mm_erase i m))"
  by (metis (no_types) id_take_nth_drop mm_erase_def mset.simps(2) mset_append
      union_mset_add_mset_right)

lemma sorted_mm_erase:
  assumes "mm_sorted m"
  shows "mm_sorted (mm_erase i m)"
proof -
  have "sorted (map fst (take i m) @ map fst (drop i m))"
    using assms by (simp add: mm_sorted_def flip: map_append)
  moreover have "set (drop (Suc i) m) \<subseteq> set (drop i m)"
    by (rule set_drop_subset_set_drop) simp
  moreover have "sorted (map fst (drop (Suc i) m))"
    using assms by (simp add: mm_sorted_def sorted_wrt_drop flip: drop_map)
  ultimately show ?thesis
    unfolding mm_sorted_def mm_erase_def map_append sorted_append by auto
qed

lemma mm_find_Some:
  assumes "mm_find k m = Some i"
  shows "i < length m \<and> fst (m ! i) = k"
  using assms unfolding mm_find_def by (auto simp: find_Some_iff)

lemma mm_find_None: "mm_find k m = None \<longleftrightarrow> k \<notin> fst ` set m"
  unfolding mm_find_def find_None_iff by (force simp: in_set_conv_nth)

lemma mm_count_pos: "0 < mm_count k m \<longleftrightarrow> k \<in> fst ` set m"
  unfolding mm_count_def by (force simp: filter_empty_conv)

lemma mm_count_insert: "mm_count (k :: 'k :: linorder) (mm_insert k' (v :: 'v) m) = (if k = k' then 1 else 0) + mm_count k m"
proof -
  have "mm_count k x = size (filter_mset (\<lambda>p. fst p = k) (mset x))" for x :: "('k, 'v) multimap"
    by (simp add: mm_count_def flip: mset_filter)
  then show ?thesis by simp
qed

end
