(* ===== verification/Prio_Queue.thy ===== *)
theory Prio_Queue
  imports Multimap
begin

text \<open>
  The calendar queue of \<open>prio_queue.h\<close> that holds each contention domain's events: \<open>B\<close>
  blocks of 64 one-cycle slots around the current block, a bit mask of the populated slots
  per block, and a multimap for events too far ahead. The abstract queue is the multiset
  of (cycle, event) pairs.
\<close>

section \<open>Blocks\<close>

text \<open>
  Each slot is the head of an intrusive list linked by \<open>next\<close>; here it is that list. The
  assertion that an event to enqueue is in no other list (\<open>!obj->next\<close>) has no counterpart.
\<close>

record 'a PQBlock =
  slots :: "nat \<Rightarrow> 'a list"
  occ :: u64

definition ctz :: "u64 \<Rightarrow> nat" where
  "ctz w = length (takeWhile (\<lambda>i. \<not> bit w i) [0..<64])"

definition empty_block :: "'a PQBlock" where
  "empty_block = \<lparr>slots = (\<lambda>_. []), occ = 0\<rparr>"

definition block_dequeue :: "'a PQBlock \<Rightarrow> ('a \<times> nat \<times> 'a PQBlock) res" where
  "block_dequeue b =
     require (occ b \<noteq> 0) (AssertFail ''occ'')
       (let pos = ctz (occ b)
        in case slots b pos of
             [] \<Rightarrow> Inl (AssertFail ''res'')
           | x # rest \<Rightarrow>
               Inr (x, pos,
                 b\<lparr>slots := (slots b)(pos := rest),
                   occ := (if rest = [] then occ b XOR push_bit pos 1 else occ b)\<rparr>))"

definition block_enqueue :: "'a \<Rightarrow> nat \<Rightarrow> 'a PQBlock \<Rightarrow> 'a PQBlock" where
  "block_enqueue x pos b =
     b\<lparr>occ := occ b OR push_bit pos 1, slots := (slots b)(pos := x # slots b pos)\<rparr>"

section \<open>The queue\<close>

record 'a PrioQueue =
  blocks :: "nat \<Rightarrow> 'a PQBlock"
  feMap :: "(nat, 'a) multimap"
  curBlock :: nat
  elems :: nat

definition pq_new :: "'a PrioQueue" where
  "pq_new = \<lparr>blocks = (\<lambda>_. empty_block), feMap = [], curBlock = 0, elems = 0\<rparr>"

definition put_near :: "nat \<Rightarrow> 'a \<Rightarrow> nat \<Rightarrow> 'a PrioQueue \<Rightarrow> 'a PrioQueue" where
  "put_near B x c q =
     (let i = (c div 64) mod B
      in q\<lparr>blocks := (blocks q)(i := block_enqueue x (c mod 64) (blocks q i))\<rparr>)"

definition pq_enqueue :: "nat \<Rightarrow> 'a \<Rightarrow> nat \<Rightarrow> 'a PrioQueue \<Rightarrow> 'a PrioQueue res" where
  "pq_enqueue B x c q =
     (let absBlock = c div 64
      in require (absBlock \<ge> curBlock q) (AssertFail ''absBlock >= curBlock'')
           (let q1 = (if absBlock < curBlock q + B then put_near B x c q
                      else q\<lparr>feMap := mm_insert c x (feMap q)\<rparr>)
            in Inr (q1\<lparr>elems := elems q + 1\<rparr>)))"

text \<open>The loop that moves far elements into the blocks, and the erase that follows it.\<close>

fun migrate :: "nat \<Rightarrow> nat \<Rightarrow> (nat, 'a) multimap \<Rightarrow> 'a PrioQueue \<Rightarrow> 'a PrioQueue res" where
  "migrate B topCycle [] q = Inr (q\<lparr>feMap := []\<rparr>)"
| "migrate B topCycle ((c, x) # rest) q =
     (if c < topCycle then
        require (c div 64 \<ge> curBlock q) (AssertFail ''absBlock >= curBlock'')
          (require (c div 64 < curBlock q + B) (AssertFail ''absBlock < curBlock + B'')
            (migrate B topCycle rest (put_near B x c q)))
      else Inr (q\<lparr>feMap := (c, x) # rest\<rparr>))"

definition pq_advance :: "nat \<Rightarrow> 'a PrioQueue \<Rightarrow> 'a PrioQueue res" where
  "pq_advance B q =
     (let q1 = q\<lparr>curBlock := curBlock q + 1\<rparr>
      in if curBlock q1 mod (B div 2) = 0 \<and> feMap q1 \<noteq> []
         then migrate B ((curBlock q1 + B) * 64) (feMap q1) q1
         else Inr q1)"

text \<open>The search loop of \<open>dequeue\<close>; \<open>None\<close> means that it does not stop.\<close>

partial_function (option) pq_seek :: "nat \<Rightarrow> 'a PrioQueue \<Rightarrow> 'a PrioQueue res option" where
  "pq_seek B q =
     (if occ (blocks q (curBlock q mod B)) = 0 then
        (case pq_advance B q of Inl e \<Rightarrow> Some (Inl e) | Inr q1 \<Rightarrow> pq_seek B q1)
      else Some (Inr q))"

definition pq_dequeue :: "nat \<Rightarrow> 'a PrioQueue \<Rightarrow> ('a \<times> nat \<times> 'a PrioQueue) res option" where
  "pq_dequeue B q =
     (if elems q = 0 then Some (Inl (AssertFail ''elems''))
      else (case pq_seek B q of
              None \<Rightarrow> None
            | Some r \<Rightarrow>
                Some (bindR r (\<lambda>q1.
                  let i = curBlock q1 mod B
                  in bindR (block_dequeue (blocks q1 i)) (\<lambda>(x, offset, b).
                       Inr (x, curBlock q1 * 64 + offset,
                         q1\<lparr>blocks := (blocks q1)(i := b), elems := elems q1 - 1\<rparr>))))))"

text \<open>\<open>firstCycle\<close>; reading \<open>feMap.begin()\<close> of an empty map is an error of its own.\<close>

definition pq_firstCycle :: "nat \<Rightarrow> 'a PrioQueue \<Rightarrow> nat res" where
  "pq_firstCycle B q =
     require (elems q \<noteq> 0) (AssertFail ''elems'')
       (let occ_at = (\<lambda>i. occ (blocks q ((curBlock q + i) mod B)))
        in case find (\<lambda>i. occ_at i \<noteq> 0) [0..<B div 2] of
             Some i \<Rightarrow> Inr ((curBlock q + i) * 64 + ctz (occ_at i))
           | None \<Rightarrow>
               (case find (\<lambda>i. occ_at i \<noteq> 0) [B div 2..<B] of
                  Some i \<Rightarrow>
                    (let c = (curBlock q + i) * 64 + ctz (occ_at i)
                     in Inr (if feMap q = [] then c else min c (fst (hd (feMap q)))))
                | None \<Rightarrow>
                    (case feMap q of [] \<Rightarrow> Inl (AssertFail ''feMap.begin()'')
                     | (c, x) # _ \<Rightarrow> Inr c)))"

section \<open>Block lemmas\<close>

definition block_wf :: "'a PQBlock \<Rightarrow> bool" where
  "block_wf b \<longleftrightarrow> (\<forall>p<64. bit (occ b) p \<longleftrightarrow> slots b p \<noteq> [])"

definition block_mset :: "nat \<Rightarrow> 'a PQBlock \<Rightarrow> (nat \<times> 'a) multiset" where
  "block_mset n b = (\<Sum>p<64. image_mset (Pair (n * 64 + p)) (mset (slots b p)))"

lemma takeWhile_upt_first:
  assumes "k < n" "P k"
  defines "m \<equiv> length (takeWhile (\<lambda>i. \<not> P i) [0..<n])"
  shows "m < n \<and> P m \<and> (\<forall>j<m. \<not> P j)"
proof -
  have lt: "m < n"
  proof (rule ccontr)
    assume "\<not> m < n"
    then have "m = length [0..<n]"
      using length_takeWhile_le [of "\<lambda>i. \<not> P i" "[0..<n]"] by (simp add: m_def)
    then have "takeWhile (\<lambda>i. \<not> P i) [0..<n] = [0..<n]"
      unfolding m_def by (metis takeWhile_eq_take take_all_iff order_refl)
    then show False using assms(1,2) by (auto simp: takeWhile_eq_all_conv)
  qed
  moreover have "P m"
    using lt nth_length_takeWhile [of "\<lambda>i. \<not> P i" "[0..<n]"] by (simp add: m_def)
  moreover have "\<not> P j" if "j < m" for j
    using that set_takeWhileD [of j "\<lambda>i. \<not> P i" "[0..<n]"] lt
    by (metis (no_types, lifting) m_def nth_mem takeWhile_nth nth_upt add_0 less_trans)
  ultimately show ?thesis by blast
qed

lemma ctz_first:
  assumes "w \<noteq> (0::u64)"
  shows "ctz w < 64" and "bit w (ctz w)" and "\<And>j. j < ctz w \<Longrightarrow> \<not> bit w j"
proof -
  obtain k where k: "bit w k" using assms by (auto simp: bit_eq_iff)
  then have "k < 64" by (auto dest: bit_imp_le_length)
  from takeWhile_upt_first [of k 64 "bit w", OF this k]
  show "ctz w < 64" and "bit w (ctz w)" and "\<And>j. j < ctz w \<Longrightarrow> \<not> bit w j"
    by (auto simp: ctz_def)
qed

lemma occ_zero_iff: "block_wf b \<Longrightarrow> occ b = 0 \<longleftrightarrow> (\<forall>p<64. slots b p = [])"
  by (auto simp: block_wf_def bit_eq_iff dest: bit_imp_le_length)

lemma block_wf_empty [simp]: "block_wf empty_block"
  by (simp add: block_wf_def empty_block_def)

lemma block_mset_empty [simp]: "block_mset n empty_block = {#}"
  by (simp add: block_mset_def empty_block_def)

lemma bit_push_one: "bit (2 ^ pos :: u64) p \<longleftrightarrow> p = pos \<and> p < 64"
  by (auto simp: bit_simps)

lemma block_wf_enqueue:
  "block_wf b \<Longrightarrow> block_wf (block_enqueue x pos b)"
  by (auto simp: block_wf_def block_enqueue_def bit_or_iff bit_push_one)

lemma sum_mset_upd:
  fixes f g :: "nat \<Rightarrow> 'b multiset"
  assumes "k \<in> A" "finite A" "\<And>i. i \<in> A \<Longrightarrow> i \<noteq> k \<Longrightarrow> f i = g i"
  shows "(\<Sum>i\<in>A. f i) + g k = (\<Sum>i\<in>A. g i) + f k"
proof -
  have "(\<Sum>i\<in>A. f i) = f k + (\<Sum>i\<in>A - {k}. f i)" "(\<Sum>i\<in>A. g i) = g k + (\<Sum>i\<in>A - {k}. g i)"
    using assms(1,2) by (simp_all add: sum.remove)
  moreover have "(\<Sum>i\<in>A - {k}. f i) = (\<Sum>i\<in>A - {k}. g i)"
    by (rule sum.cong) (use assms(3) in auto)
  ultimately show ?thesis by (simp add: ac_simps)
qed

lemma block_mset_enqueue:
  assumes "pos < 64"
  shows "block_mset n (block_enqueue x pos b) = add_mset (n * 64 + pos, x) (block_mset n b)"
  using sum_mset_upd [of pos "{..<64}"
    "\<lambda>p. image_mset (Pair (n * 64 + p)) (mset (slots (block_enqueue x pos b) p))"
    "\<lambda>p. image_mset (Pair (n * 64 + p)) (mset (slots b p))"] assms
  by (simp add: block_mset_def block_enqueue_def)

lemma block_mset_zero: "block_wf b \<Longrightarrow> occ b = 0 \<Longrightarrow> block_mset n b = {#}"
  by (simp add: occ_zero_iff block_mset_def)

lemma block_mset_range:
  "(c, x) \<in># block_mset n b \<Longrightarrow> c div 64 = n"
  by (auto simp: block_mset_def set_mset_sum)

lemma block_dequeue_ok:
  assumes "block_wf b" "occ b \<noteq> 0"
  shows "succeeds (block_dequeue b) (\<lambda>(x, pos, b'). pos = ctz (occ b) \<and> pos < 64 \<and>
           block_wf b' \<and> block_mset n b = add_mset (n * 64 + pos, x) (block_mset n b') \<and>
           (\<forall>c y. (c, y) \<in># block_mset n b \<longrightarrow> n * 64 + pos \<le> c))"
proof -
  let ?p = "ctz (occ b)"
  note first = ctz_first [OF assms(2)]
  then obtain x rest where x: "slots b ?p = x # rest"
    using assms(1) by (auto simp: block_wf_def neq_Nil_conv)
  let ?b' = "b\<lparr>slots := (slots b)(?p := rest),
               occ := (if rest = [] then occ b XOR push_bit ?p 1 else occ b)\<rparr>"
  have wf: "block_wf ?b'"
    using assms(1) first(1,2) x by (auto simp: block_wf_def bit_xor_iff bit_push_one)
  have ms: "block_mset n b = add_mset (n * 64 + ?p, x) (block_mset n ?b')"
    using sum_mset_upd [of ?p "{..<64}"
      "\<lambda>p. image_mset (Pair (n * 64 + p)) (mset (slots b p))"
      "\<lambda>p. image_mset (Pair (n * 64 + p)) (mset (slots ?b' p))"] first(1) x
    by (simp add: block_mset_def)
  have low: "n * 64 + ?p \<le> c" if mem: "(c, y) \<in># block_mset n b" for c y
  proof -
    from mem obtain p where p: "p < 64" "c = n * 64 + p" "y \<in> set (slots b p)"
      by (auto simp: block_mset_def set_mset_sum)
    then have "bit (occ b) p" using assms(1) by (auto simp: block_wf_def)
    then have "\<not> p < ?p" using first(3) by blast
    with p show ?thesis by simp
  qed
  have eq: "block_dequeue b = Inr (x, ?p, ?b')"
    using assms(2) x by (simp add: block_dequeue_def Let_def)
  show ?thesis
    unfolding eq succeeds_Inr prod.case using wf ms low first(1) by blast
qed

section \<open>The queue as a multiset\<close>

definition pq_near :: "nat \<Rightarrow> 'a PrioQueue \<Rightarrow> (nat \<times> 'a) multiset" where
  "pq_near B q = (\<Sum>n\<in>{curBlock q..<curBlock q + B}. block_mset n (blocks q (n mod B)))"

definition pq_abs :: "nat \<Rightarrow> 'a PrioQueue \<Rightarrow> (nat \<times> 'a) multiset" where
  "pq_abs B q = pq_near B q + mset (feMap q)"

text \<open>
  The far elements lie at least \<open>B\<close> blocks after the last block number divisible by \<open>B/2\<close>:
  that is where the last migration took place.
\<close>

definition pq_base :: "nat \<Rightarrow> nat \<Rightarrow> nat" where
  "pq_base B cb = cb - cb mod (B div 2)"

definition pq_inv :: "nat \<Rightarrow> 'a PrioQueue \<Rightarrow> bool" where
  "pq_inv B q \<longleftrightarrow>
     (\<forall>j<B. block_wf (blocks q j)) \<and> mm_sorted (feMap q) \<and>
     (\<forall>(c, x) \<in> set (feMap q). pq_base B (curBlock q) + B \<le> c div 64) \<and>
     elems q = size (pq_abs B q)"

definition B_ok :: "nat \<Rightarrow> bool" where
  "B_ok B \<longleftrightarrow> even B \<and> 2 \<le> B"

lemma mod_window_inj:
  assumes "n \<in> {cb..<cb + B}" "m \<in> {cb..<cb + B}" "n mod B = m mod (B::nat)"
  shows "n = m"
proof -
  have aux: "a = b" if "a \<le> b" "b < a + B" "a mod B = b mod B" for a b :: nat
  proof -
    from that(1,3) have "B dvd b - a" by (metis mod_eq_dvd_iff_nat)
    moreover have "b - a < B" using that(1,2) by linarith
    ultimately have "b - a = 0" by (meson dvd_imp_le not_less gr_zeroI)
    with that(1) show ?thesis by simp
  qed
  show ?thesis
    using assms aux [of n m] aux [of m n] by (cases "n \<le> m") auto
qed

lemma pq_near_upd:
  assumes "n \<in> {curBlock q..<curBlock q + B}"
  shows "pq_near B (q\<lparr>blocks := (blocks q)(n mod B := b)\<rparr>) + block_mset n (blocks q (n mod B))
           = pq_near B q + block_mset n b"
proof -
  have "m mod B \<noteq> n mod B" if "m \<in> {curBlock q..<curBlock q + B}" "m \<noteq> n" for m
    using mod_window_inj [OF that(1) assms] that(2) by blast
  then show ?thesis
    using sum_mset_upd [of n "{curBlock q..<curBlock q + B}"
      "\<lambda>m. block_mset m (((blocks q)(n mod B := b)) (m mod B))"
      "\<lambda>m. block_mset m (blocks q (m mod B))"] assms
    by (simp add: pq_near_def)
qed

lemma pq_near_cong:
  "curBlock q' = curBlock q \<Longrightarrow> blocks q' = blocks q \<Longrightarrow> pq_near B q' = pq_near B q"
  by (simp add: pq_near_def)

lemma put_near_simps [simp]:
  "curBlock (put_near B x c q) = curBlock q" "feMap (put_near B x c q) = feMap q"
  "elems (put_near B x c q) = elems q"
  by (simp_all add: put_near_def Let_def)

lemma pq_near_put:
  assumes "curBlock q \<le> c div 64" "c div 64 < curBlock q + B"
  shows "pq_near B (put_near B x c q) = add_mset (c, x) (pq_near B q)"
  using pq_near_upd [of "c div 64" q B "block_enqueue x (c mod 64) (blocks q (c div 64 mod B))"]
    assms
  by (simp add: put_near_def Let_def block_mset_enqueue)

lemma put_near_wf:
  "\<forall>j<B. block_wf (blocks q j) \<Longrightarrow> \<forall>j<B. block_wf (blocks (put_near B x c q) j)"
  by (auto simp: put_near_def Let_def block_wf_enqueue)

lemma pq_near_range: "(c, x) \<in># pq_near B q \<Longrightarrow> curBlock q \<le> c div 64 \<and> c div 64 < curBlock q + B"
  by (auto simp: pq_near_def set_mset_sum dest!: block_mset_range)

lemma pq_base_bounds:
  assumes "B_ok B"
  shows "cb < pq_base B cb + B div 2" and "pq_base B cb \<le> cb"
proof -
  have "cb mod (B div 2) < B div 2" using assms by (auto simp: B_ok_def intro: mod_less_divisor)
  moreover have "cb mod (B div 2) \<le> cb" by (rule mod_less_eq_dividend)
  ultimately show "cb < pq_base B cb + B div 2" and "pq_base B cb \<le> cb"
    by (simp_all add: pq_base_def)
qed

lemma pq_base_Suc:
  assumes "B_ok B"
  shows "pq_base B (Suc cb) = (if Suc cb mod (B div 2) = 0 then Suc cb else pq_base B cb)"
  by (auto simp: pq_base_def mod_Suc)

lemma pq_abs_block_ge:
  assumes "B_ok B" "pq_inv B q" "(c, x) \<in># pq_abs B q"
  shows "curBlock q \<le> c div 64"
proof (cases "(c, x) \<in># pq_near B q")
  case True
  then show ?thesis by (auto dest: pq_near_range)
next
  case False
  with assms(3) have "(c, x) \<in> set (feMap q)" by (simp add: pq_abs_def)
  with assms(2) have "pq_base B (curBlock q) + B \<le> c div 64" by (auto simp: pq_inv_def)
  with pq_base_bounds(1) [OF assms(1), of "curBlock q"] show ?thesis by linarith
qed

section \<open>Enqueue\<close>

lemma pq_enqueue_ok:
  assumes B: "B_ok B" and inv: "pq_inv B q" and c: "curBlock q \<le> c div 64"
  shows "succeeds (pq_enqueue B x c q) (\<lambda>q'. pq_inv B q' \<and>
           pq_abs B q' = add_mset (c, x) (pq_abs B q) \<and> curBlock q' = curBlock q)"
proof (cases "c div 64 < curBlock q + B")
  case True
  have "pq_near B (put_near B x c q\<lparr>elems := elems q + 1\<rparr>) = add_mset (c, x) (pq_near B q)"
    using pq_near_put [OF c True, of x] by (simp add: pq_near_def)
  then show ?thesis
    using inv c True put_near_wf [of B q]
    by (simp add: pq_enqueue_def Let_def pq_inv_def pq_abs_def)
next
  case False
  let ?q = "q\<lparr>feMap := mm_insert c x (feMap q), elems := Suc (elems q)\<rparr>"
  have "pq_near B ?q = pq_near B q" by (rule pq_near_cong) simp_all
  moreover have "pq_base B (curBlock q) + B \<le> c div 64"
    using False pq_base_bounds(2) [OF B, of "curBlock q"] by linarith
  ultimately show ?thesis
    using inv c False
    by (simp add: pq_enqueue_def Let_def pq_inv_def pq_abs_def sorted_mm_insert)
qed

section \<open>Dequeue\<close>

lemma pq_near_skip:
  assumes "B_ok B" "block_wf (blocks q (curBlock q mod B))" "occ (blocks q (curBlock q mod B)) = 0"
  shows "pq_near B (q\<lparr>curBlock := Suc (curBlock q)\<rparr>) = pq_near B q"
proof -
  let ?f = "\<lambda>n. block_mset n (blocks q (n mod B))"
  have B: "0 < B" using assms(1) by (simp add: B_ok_def)
  then have A: "{curBlock q..<curBlock q + B} = insert (curBlock q) {Suc (curBlock q)..<curBlock q + B}"
    "{Suc (curBlock q)..<Suc (curBlock q) + B} = insert (curBlock q + B) {Suc (curBlock q)..<curBlock q + B}"
    by auto
  have z: "?f (curBlock q) = {#}" "?f (curBlock q + B) = {#}"
    using block_mset_zero [OF assms(2,3)] by simp_all
  have "(\<Sum>n\<in>{curBlock q..<curBlock q + B}. ?f n) = (\<Sum>n\<in>{Suc (curBlock q)..<curBlock q + B}. ?f n)"
    unfolding A(1) using z(1) by simp
  moreover have "(\<Sum>n\<in>{Suc (curBlock q)..<Suc (curBlock q) + B}. ?f n)
      = (\<Sum>n\<in>{Suc (curBlock q)..<curBlock q + B}. ?f n)"
    unfolding A(2) using z(2) by simp
  ultimately show ?thesis by (simp add: pq_near_def)
qed

lemma migrate_ok:
  assumes "mm_sorted fs" "\<forall>(c, x) \<in> set fs. curBlock q \<le> c div 64"
    "\<forall>j<B. block_wf (blocks q j)"
  shows "succeeds (migrate B ((curBlock q + B) * 64) fs q) (\<lambda>q'.
           curBlock q' = curBlock q \<and> elems q' = elems q \<and> mm_sorted (feMap q') \<and>
           (\<forall>j<B. block_wf (blocks q' j)) \<and>
           (\<forall>(c, x) \<in> set (feMap q'). curBlock q + B \<le> c div 64) \<and>
           pq_abs B q' = pq_near B q + mset fs)"
  using assms
proof (induction fs arbitrary: q)
  case Nil
  then show ?case by (simp add: pq_abs_def pq_near_def)
next
  case (Cons f fs)
  obtain c x where f: "f = (c, x)" by (cases f)
  have sorted: "mm_sorted fs" using Cons.prems(1) by (simp add: mm_sorted_def)
  show ?case
  proof (cases "c < (curBlock q + B) * 64")
    case True
    then have c: "curBlock q \<le> c div 64" "c div 64 < curBlock q + B"
      using Cons.prems(2) f by auto
    have "succeeds (migrate B ((curBlock (put_near B x c q) + B) * 64) fs (put_near B x c q))
        (\<lambda>q'. curBlock q' = curBlock (put_near B x c q) \<and> elems q' = elems (put_near B x c q) \<and>
           mm_sorted (feMap q') \<and> (\<forall>j<B. block_wf (blocks q' j)) \<and>
           (\<forall>(c', x') \<in> set (feMap q'). curBlock (put_near B x c q) + B \<le> c' div 64) \<and>
           pq_abs B q' = pq_near B (put_near B x c q) + mset fs)"
      by (rule Cons.IH) (use sorted Cons.prems(2) put_near_wf [OF Cons.prems(3)] in auto)
    then show ?thesis
      using True c f by (auto simp: pq_near_put elim: succeeds_mono)
  next
    case False
    have "curBlock q + B \<le> c' div 64" if "(c', x') \<in> set (f # fs)" for c' x'
    proof -
      have "c \<le> c'" using that Cons.prems(1) f by (auto simp: mm_sorted_def)
      with False show ?thesis by (auto simp: less_eq_div_iff_mult_less_eq)
    qed
    then show ?thesis
      using False f Cons.prems by (auto simp: pq_abs_def pq_near_def)
  qed
qed

lemma pq_advance_ok:
  assumes B: "B_ok B" and inv: "pq_inv B q" and z: "occ (blocks q (curBlock q mod B)) = 0"
  shows "succeeds (pq_advance B q) (\<lambda>q'. pq_inv B q' \<and> pq_abs B q' = pq_abs B q \<and>
           curBlock q' = Suc (curBlock q))"
proof -
  let ?q = "q\<lparr>curBlock := Suc (curBlock q)\<rparr>"
  have wf: "\<forall>j<B. block_wf (blocks q j)" and srt: "mm_sorted (feMap q)" and
    far: "\<forall>(c, x) \<in> set (feMap q). pq_base B (curBlock q) + B \<le> c div 64" and
    el: "elems q = size (pq_abs B q)"
    using inv by (simp_all add: pq_inv_def)
  have "block_wf (blocks q (curBlock q mod B))" using wf B by (simp add: B_ok_def)
  from pq_near_skip [OF B this z] have near: "pq_near B ?q = pq_near B q" .
  have ge: "Suc (curBlock q) \<le> c div 64" if "(c, x) \<in> set (feMap q)" for c x
    using far that pq_base_bounds(1) [OF B, of "curBlock q"] B by (fastforce simp: B_ok_def)
  show ?thesis
  proof (cases "Suc (curBlock q) mod (B div 2) = 0 \<and> feMap q \<noteq> []")
    case True
    have "succeeds (migrate B ((curBlock ?q + B) * 64) (feMap q) ?q) (\<lambda>q'.
           curBlock q' = curBlock ?q \<and> elems q' = elems ?q \<and> mm_sorted (feMap q') \<and>
           (\<forall>j<B. block_wf (blocks q' j)) \<and>
           (\<forall>(c, x) \<in> set (feMap q'). curBlock ?q + B \<le> c div 64) \<and>
           pq_abs B q' = pq_near B ?q + mset (feMap q))"
      by (rule migrate_ok) (use srt ge wf in auto)
    moreover have "pq_near B ?q + mset (feMap q) = pq_abs B q" by (simp add: near pq_abs_def)
    ultimately show ?thesis
      using True el pq_base_Suc [OF B, of "curBlock q"]
      by (auto simp: pq_advance_def Let_def pq_inv_def elim!: succeeds_mono)
  next
    case False
    then have "pq_base B (Suc (curBlock q)) = pq_base B (curBlock q) \<or> feMap q = []"
      using pq_base_Suc [OF B, of "curBlock q"] by auto
    then show ?thesis
      using False near el wf srt far
      by (auto simp: pq_advance_def Let_def pq_inv_def pq_abs_def)
  qed
qed

lemma pq_cur_occ:
  assumes "B_ok B" "pq_inv B q" "(c, x) \<in># pq_abs B q" "c div 64 = curBlock q"
  shows "occ (blocks q (curBlock q mod B)) \<noteq> 0"
proof -
  have "(c, x) \<notin> set (feMap q)"
    using assms pq_base_bounds(1) [of B "curBlock q"] by (fastforce simp: pq_inv_def B_ok_def)
  with assms(3) have "(c, x) \<in># pq_near B q" by (simp add: pq_abs_def)
  then obtain n where "(c, x) \<in># block_mset n (blocks q (n mod B))"
    by (auto simp: pq_near_def set_mset_sum)
  moreover from this have "n = curBlock q" using assms(4) by (auto dest: block_mset_range)
  moreover have "block_wf (blocks q (curBlock q mod B))"
    using assms(1,2) by (simp add: pq_inv_def B_ok_def)
  ultimately show ?thesis using block_mset_zero by force
qed

lemma pq_seek_ok:
  assumes "B_ok B" "pq_inv B q" "(c, x) \<in># pq_abs B q"
  shows "\<exists>q'. pq_seek B q = Some (Inr q') \<and> pq_inv B q' \<and> pq_abs B q' = pq_abs B q \<and>
           occ (blocks q' (curBlock q' mod B)) \<noteq> 0 \<and> curBlock q \<le> curBlock q'"
  using assms(2,3)
proof (induction "c div 64 - curBlock q" arbitrary: q rule: less_induct)
  case less
  show ?case
  proof (cases "occ (blocks q (curBlock q mod B)) = 0")
    case False
    then show ?thesis using less.prems by (auto simp: pq_seek.simps)
  next
    case True
    from pq_advance_ok [OF assms(1) less.prems(1) True]
    obtain q1 where q1: "pq_advance B q = Inr q1" "pq_inv B q1" "pq_abs B q1 = pq_abs B q"
      "curBlock q1 = Suc (curBlock q)"
      by (auto simp: succeeds_iff)
    have "c div 64 \<noteq> curBlock q" using pq_cur_occ [OF assms(1) less.prems] True by blast
    moreover have "curBlock q \<le> c div 64" by (rule pq_abs_block_ge [OF assms(1) less.prems])
    ultimately have "c div 64 - curBlock q1 < c div 64 - curBlock q" using q1(4) by linarith
    from less.hyps [OF this q1(2)] less.prems(2) q1(3)
    obtain q' where "pq_seek B q1 = Some (Inr q')" "pq_inv B q'" "pq_abs B q' = pq_abs B q"
       "occ (blocks q' (curBlock q' mod B)) \<noteq> 0" "curBlock q1 \<le> curBlock q'"
      by auto
    then show ?thesis using True q1(1,4) by (auto simp: pq_seek.simps [of B q])
  qed
qed

lemma pq_dequeue_ok:
  assumes B: "B_ok B" and inv: "pq_inv B q" and ne: "pq_abs B q \<noteq> {#}"
  shows "\<exists>x c q'. pq_dequeue B q = Some (Inr (x, c, q')) \<and> pq_inv B q' \<and>
           pq_abs B q = add_mset (c, x) (pq_abs B q') \<and>
           (\<forall>c' x'. (c', x') \<in># pq_abs B q \<longrightarrow> c \<le> c') \<and> curBlock q' = c div 64"
proof -
  from ne obtain c0 x0 where "(c0, x0) \<in># pq_abs B q" by (metis multiset_nonemptyE surj_pair)
  from pq_seek_ok [OF B inv this] obtain q1 where
    q1: "pq_seek B q = Some (Inr q1)" "pq_inv B q1" "pq_abs B q1 = pq_abs B q"
        "occ (blocks q1 (curBlock q1 mod B)) \<noteq> 0"
    by blast
  let ?n = "curBlock q1"
  let ?b = "blocks q1 (?n mod B)"
  have win: "?n \<in> {?n..<?n + B}" using B by (simp add: B_ok_def)
  have wf: "block_wf ?b" using q1(2) B by (simp add: pq_inv_def B_ok_def)
  from block_dequeue_ok [OF wf q1(4), of ?n] obtain x pos b' where
    b': "block_dequeue ?b = Inr (x, pos, b')" "pos < 64" "block_wf b'"
        "block_mset ?n ?b = add_mset (?n * 64 + pos, x) (block_mset ?n b')"
        "\<forall>c y. (c, y) \<in># block_mset ?n ?b \<longrightarrow> ?n * 64 + pos \<le> c"
    unfolding succeeds_iff split_paired_Ex prod.case by blast
  let ?q = "q1\<lparr>blocks := (blocks q1)(?n mod B := b'), elems := elems q1 - 1\<rparr>"
  have near: "pq_near B q1 = add_mset (?n * 64 + pos, x) (pq_near B ?q)"
    using pq_near_upd [OF win, of b'] b'(4) by (simp add: pq_near_def)
  then have abs: "pq_abs B q1 = add_mset (?n * 64 + pos, x) (pq_abs B ?q)"
    by (simp add: pq_abs_def)
  have inv': "pq_inv B ?q"
    using q1(2) abs b'(3) by (auto simp: pq_inv_def)
  have low: "?n * 64 + pos \<le> c'" if "(c', x') \<in># pq_abs B q" for c' x'
  proof (cases "c' div 64 = ?n")
    case True
    have "(c', x') \<notin> set (feMap q1)"
      using True q1(2) pq_base_bounds(1) [OF B, of ?n] B by (fastforce simp: pq_inv_def B_ok_def)
    moreover have "(c', x') \<in># pq_abs B q1" using that q1(3) by simp
    ultimately obtain m where "(c', x') \<in># block_mset m (blocks q1 (m mod B))"
      by (auto simp: pq_abs_def pq_near_def set_mset_sum)
    moreover from this True have "m = ?n" by (auto dest: block_mset_range)
    ultimately show ?thesis using b'(5) by blast
  next
    case False
    have "?n \<le> c' div 64" by (rule pq_abs_block_ge [OF B q1(2)]) (use that q1(3) in simp)
    with False b'(2) show ?thesis by linarith
  qed
  have "elems q \<noteq> 0" using inv ne by (simp add: pq_inv_def)
  then have "pq_dequeue B q = Some (Inr (x, ?n * 64 + pos, ?q))"
    using q1(1) b'(1) by (simp add: pq_dequeue_def Let_def)
  moreover have "curBlock ?q = (?n * 64 + pos) div 64" using b'(2) by simp
  ultimately show ?thesis using inv' abs low q1(3) by metis
qed

section \<open>First cycle\<close>

lemma find_upt_Some:
  "find P [a..<b] = Some i \<longleftrightarrow> a \<le> i \<and> i < b \<and> P i \<and> (\<forall>j. a \<le> j \<and> j < i \<longrightarrow> \<not> P j)"
proof (induction "b - a" arbitrary: a)
  case 0
  then show ?case by simp
next
  case (Suc k)
  then have up: "[a..<b] = a # [Suc a..<b]" by (simp add: upt_conv_Cons)
  have IH: "find P [Suc a..<b] = Some i \<longleftrightarrow>
      Suc a \<le> i \<and> i < b \<and> P i \<and> (\<forall>j. Suc a \<le> j \<and> j < i \<longrightarrow> \<not> P j)"
    using Suc by simp
  show ?case
  proof (cases "P a")
    case True
    then show ?thesis using Suc.hyps(2) by (auto simp: up intro: le_antisym)
  next
    case False
    then have "find P [a..<b] = find P [Suc a..<b]" by (simp add: up)
    moreover have "(Suc a \<le> i \<and> i < b \<and> P i \<and> (\<forall>j. Suc a \<le> j \<and> j < i \<longrightarrow> \<not> P j)) \<longleftrightarrow>
        (a \<le> i \<and> i < b \<and> P i \<and> (\<forall>j. a \<le> j \<and> j < i \<longrightarrow> \<not> P j))"
      using False unfolding Suc_le_eq by (auto simp: le_less)
    ultimately show ?thesis using IH by simp
  qed
qed

lemma find_upt_None: "find P [a..<b] = None \<longleftrightarrow> (\<forall>j. a \<le> j \<and> j < b \<longrightarrow> \<not> P j)"
  by (auto simp: find_None_iff)

lemma pq_near_first:
  assumes inv: "pq_inv B q" and i: "i < B"
    and occ: "occ (blocks q ((curBlock q + i) mod B)) \<noteq> 0"
    and before: "\<And>j. j < i \<Longrightarrow> occ (blocks q ((curBlock q + j) mod B)) = 0"
  defines "c \<equiv> (curBlock q + i) * 64 + ctz (occ (blocks q ((curBlock q + i) mod B)))"
  shows "\<exists>x. (c, x) \<in># pq_near B q" and "\<And>c' x'. (c', x') \<in># pq_near B q \<Longrightarrow> c \<le> c'"
proof -
  let ?n = "curBlock q + i"
  let ?b = "blocks q (?n mod B)"
  have wf: "block_wf (blocks q (m mod B))" for m using inv i by (simp add: pq_inv_def)
  have dq: "\<exists>x. (c, x) \<in># block_mset ?n ?b"
    "\<And>c' y. (c', y) \<in># block_mset ?n ?b \<Longrightarrow> c \<le> c'"
    using block_dequeue_ok [OF wf [of ?n] occ, of ?n]
    unfolding succeeds_iff split_paired_Ex prod.case c_def by auto
  show "\<exists>x. (c, x) \<in># pq_near B q"
    using dq(1) i by (fastforce simp: pq_near_def set_mset_sum)
  fix c' x' assume "(c', x') \<in># pq_near B q"
  then obtain m where m: "curBlock q \<le> m" "m < curBlock q + B"
    "(c', x') \<in># block_mset m (blocks q (m mod B))"
    by (auto simp: pq_near_def set_mset_sum)
  show "c \<le> c'"
  proof (cases "m - curBlock q" i rule: linorder_cases)
    case less
    then have "occ (blocks q (m mod B)) = 0" using before [OF less] m(1) by simp
    then show ?thesis using block_mset_zero [OF wf] m(3) by (metis empty_iff set_mset_empty)
  next
    case equal
    then have "m = ?n" using m(1) by simp
    with m(3) dq(2) show ?thesis by simp
  next
    case greater
    then have "?n < c' div 64" using m(1) block_mset_range [OF m(3)] by simp
    moreover have "c div 64 = ?n" using ctz_first(1) [OF occ] by (simp add: c_def)
    ultimately show ?thesis by (metis div_le_mono leD le_cases)
  qed
qed

lemma far_min:
  assumes "mm_sorted fs" "fs \<noteq> []"
  shows "\<exists>x. (fst (hd fs), x) \<in> set fs" and "\<And>c x. (c, x) \<in> set fs \<Longrightarrow> fst (hd fs) \<le> c"
  using assms by (cases fs; force simp: mm_sorted_def)+

lemma pq_firstCycle_ok:
  assumes B: "B_ok B" and inv: "pq_inv B q" and ne: "pq_abs B q \<noteq> {#}"
  shows "succeeds (pq_firstCycle B q) (\<lambda>c. (\<exists>x. (c, x) \<in># pq_abs B q) \<and>
           (\<forall>c' x'. (c', x') \<in># pq_abs B q \<longrightarrow> c \<le> c'))"
proof -
  let ?o = "\<lambda>i. occ (blocks q ((curBlock q + i) mod B))"
  have el: "elems q \<noteq> 0" using inv ne by (simp add: pq_inv_def)
  have srt: "mm_sorted (feMap q)" using inv by (simp add: pq_inv_def)
  have far: "(pq_base B (curBlock q) + B) * 64 \<le> c" if "(c, x) \<in> set (feMap q)" for c x
    using inv that by (auto simp: pq_inv_def less_eq_div_iff_mult_less_eq)
  have bd: "curBlock q < pq_base B (curBlock q) + B div 2" by (rule pq_base_bounds(1) [OF B])
  have mem: "(c, x) \<in># pq_abs B q \<longleftrightarrow> (c, x) \<in># pq_near B q \<or> (c, x) \<in> set (feMap q)" for c x
    by (simp add: pq_abs_def)
  show ?thesis
  proof (cases "find (\<lambda>i. ?o i \<noteq> 0) [0..<B div 2]")
    case (Some i)
    then have i: "i < B div 2" "?o i \<noteq> 0" "\<And>j. j < i \<Longrightarrow> ?o j = 0"
      unfolding find_upt_Some by auto
    have "i < B" using i(1) by linarith
    note near = pq_near_first [OF inv this i(2,3)]
    have "(curBlock q + i) * 64 + ctz (?o i) \<le> c" if "(c, x) \<in> set (feMap q)" for c x
      using far [OF that] bd i(1) B ctz_first(1) [OF i(2)] by (auto simp: B_ok_def)
    then show ?thesis
      using el Some near by (auto simp: pq_firstCycle_def Let_def mem)
  next
    case None
    then have low: "\<And>j. j < B div 2 \<Longrightarrow> ?o j = 0" unfolding find_upt_None by auto
    show ?thesis
    proof (cases "find (\<lambda>i. ?o i \<noteq> 0) [B div 2..<B]")
      case (Some i)
      then have i: "i < B" "?o i \<noteq> 0" and hi: "\<And>j. B div 2 \<le> j \<Longrightarrow> j < i \<Longrightarrow> ?o j = 0"
        unfolding find_upt_Some by auto
      have "?o j = 0" if "j < i" for j
        using low [of j] hi [of j] that by (cases "j < B div 2") auto
      note near = pq_near_first [OF inv i this]
      show ?thesis
        using el \<open>find _ [0..<B div 2] = None\<close> Some near far_min [OF srt]
        by (fastforce simp: pq_firstCycle_def Let_def mem min_def)
    next
      case None': None
      then have "?o j = 0" if "j < B" for j
        using low that unfolding find_upt_None by (metis not_le)
      then have "block_mset n (blocks q (n mod B)) = {#}" if "n \<in> {curBlock q..<curBlock q + B}" for n
        using that inv B by (auto simp: pq_inv_def B_ok_def le_iff_add intro!: block_mset_zero)
      then have "pq_near B q = {#}" by (simp add: pq_near_def)
      with ne have "feMap q \<noteq> []" by (auto simp: pq_abs_def)
      then show ?thesis
        using el None None' far_min [OF srt] \<open>pq_near B q = {#}\<close>
        by (cases "feMap q") (fastforce simp: pq_firstCycle_def Let_def mem)+
    qed
  qed
qed

lemma pq_new_ok: "pq_inv B pq_new \<and> pq_abs B pq_new = {#}"
  by (simp add: pq_inv_def pq_abs_def pq_near_def pq_new_def mm_sorted_def)

section \<open>The interface\<close>

text \<open>
  What the contention simulator relies on: a queue of (cycle, event) pairs that accepts
  events from cycle \<open>low q\<close> on and gives them back in the order of their cycles.
\<close>

locale event_queue =
  fixes enq :: "'a \<Rightarrow> nat \<Rightarrow> 'q \<Rightarrow> 'q res"
    and deq :: "'q \<Rightarrow> ('a \<times> nat \<times> 'q) res option"
    and first_cycle :: "'q \<Rightarrow> nat res"
    and q_size :: "'q \<Rightarrow> nat"
    and q_inv :: "'q \<Rightarrow> bool"
    and q_mset :: "'q \<Rightarrow> (nat \<times> 'a) multiset"
    and low :: "'q \<Rightarrow> nat"
  assumes enq_ok: "q_inv q \<Longrightarrow> low q \<le> c \<Longrightarrow>
      succeeds (enq x c q) (\<lambda>q'. q_inv q' \<and> q_mset q' = add_mset (c, x) (q_mset q) \<and> low q' = low q)"
    and deq_ok: "q_inv q \<Longrightarrow> q_mset q \<noteq> {#} \<Longrightarrow>
      \<exists>x c q'. deq q = Some (Inr (x, c, q')) \<and> q_inv q' \<and> q_mset q = add_mset (c, x) (q_mset q') \<and>
        (\<forall>c' x'. (c', x') \<in># q_mset q \<longrightarrow> c \<le> c') \<and> low q' \<le> c"
    and first_ok: "q_inv q \<Longrightarrow> q_mset q \<noteq> {#} \<Longrightarrow>
      succeeds (first_cycle q) (\<lambda>c. (\<exists>x. (c, x) \<in># q_mset q) \<and>
        (\<forall>c' x'. (c', x') \<in># q_mset q \<longrightarrow> c \<le> c'))"
    and size_ok: "q_inv q \<Longrightarrow> q_size q = size (q_mset q)"
begin

lemma first_deq:
  assumes "q_inv q" "q_mset q \<noteq> {#}"
  shows "\<exists>x c q'. first_cycle q = Inr c \<and> deq q = Some (Inr (x, c, q')) \<and> q_inv q' \<and>
           q_mset q = add_mset (c, x) (q_mset q') \<and> low q' \<le> c \<and>
           (\<forall>c' x'. (c', x') \<in># q_mset q' \<longrightarrow> c \<le> c')"
proof -
  from deq_ok [OF assms] obtain x c q' where
    d: "deq q = Some (Inr (x, c, q'))" "q_inv q'" "q_mset q = add_mset (c, x) (q_mset q')"
       "\<forall>c' x'. (c', x') \<in># q_mset q \<longrightarrow> c \<le> c'" "low q' \<le> c"
    by blast
  from first_ok [OF assms] obtain f where
    f: "first_cycle q = Inr f" "\<exists>x. (f, x) \<in># q_mset q" "\<forall>c' x'. (c', x') \<in># q_mset q \<longrightarrow> f \<le> c'"
    by (auto simp: succeeds_iff)
  have "f = c" using d(3,4) f(2,3) by (metis le_antisym union_single_eq_member)
  with d f(1) show ?thesis by auto
qed

lemma empty_iff: "q_inv q \<Longrightarrow> q_size q = 0 \<longleftrightarrow> q_mset q = {#}"
  by (simp add: size_ok)

end

text \<open>
  \<open>PrioQueue\<close> provides it, with \<open>B\<close> blocks for any even \<open>B\<close> from 2 on. The simulator uses
  \<open>PQ_BLOCKS\<close> of them.
\<close>

definition PQ_BLOCKS :: nat where
  "PQ_BLOCKS = 1024"

lemma PQ_BLOCKS_ok: "B_ok PQ_BLOCKS"
  by (simp add: PQ_BLOCKS_def B_ok_def)

interpretation pq: event_queue "pq_enqueue PQ_BLOCKS" "pq_dequeue PQ_BLOCKS"
  "pq_firstCycle PQ_BLOCKS" elems "pq_inv PQ_BLOCKS" "pq_abs PQ_BLOCKS" "\<lambda>q. curBlock q * 64"
proof (unfold_locales, goal_cases)
  case (1 q c x)
  then have "curBlock q \<le> c div 64" by (simp add: less_eq_div_iff_mult_less_eq)
  from pq_enqueue_ok [OF PQ_BLOCKS_ok 1(1) this] show ?case by (rule succeeds_mono) simp
next
  case (2 q)
  from pq_dequeue_ok [OF PQ_BLOCKS_ok this] show ?case by (metis div_times_less_eq_dividend)
next
  case (3 q)
  then show ?case by (rule pq_firstCycle_ok [OF PQ_BLOCKS_ok])
next
  case (4 q)
  then show ?case by (simp add: pq_inv_def)
qed

section \<open>Properties\<close>

fun pq_enqueue_all :: "(nat \<times> 'a) list \<Rightarrow> 'a PrioQueue \<Rightarrow> 'a PrioQueue res" where
  "pq_enqueue_all [] q = Inr q"
| "pq_enqueue_all ((c, x) # evs) q = bindR (pq_enqueue PQ_BLOCKS x c q) (pq_enqueue_all evs)"

fun pq_drain :: "nat \<Rightarrow> 'a PrioQueue \<Rightarrow> (nat \<times> 'a) list res option" where
  "pq_drain 0 q = Some (Inr [])"
| "pq_drain (Suc n) q =
     (case pq_dequeue PQ_BLOCKS q of
        None \<Rightarrow> None
      | Some (Inl e) \<Rightarrow> Some (Inl e)
      | Some (Inr (x, c, q')) \<Rightarrow>
          (case pq_drain n q' of
             None \<Rightarrow> None
           | Some r \<Rightarrow> Some (bindR r (\<lambda>out. Inr ((c, x) # out)))))"

lemma pq_enqueue_all_ok:
  assumes "pq_inv PQ_BLOCKS q" "curBlock q = 0"
  shows "succeeds (pq_enqueue_all evs q)
           (\<lambda>q'. pq_inv PQ_BLOCKS q' \<and> pq_abs PQ_BLOCKS q' = pq_abs PQ_BLOCKS q + mset evs)"
  using assms
proof (induction evs arbitrary: q)
  case Nil
  then show ?case by simp
next
  case (Cons p evs)
  obtain c x where p: "p = (c, x)" by (cases p)
  from pq_enqueue_ok [OF PQ_BLOCKS_ok Cons.prems(1), of c x] Cons.prems(2)
  obtain q1 where "pq_enqueue PQ_BLOCKS x c q = Inr q1" "pq_inv PQ_BLOCKS q1"
    "pq_abs PQ_BLOCKS q1 = add_mset (c, x) (pq_abs PQ_BLOCKS q)" "curBlock q1 = 0"
    by (auto simp: succeeds_iff)
  with Cons.IH [of q1] p show ?case by simp
qed

lemma pq_enqueue_all_new:
  "\<exists>q. pq_enqueue_all evs pq_new = Inr q \<and> pq_inv PQ_BLOCKS q \<and> pq_abs PQ_BLOCKS q = mset evs"
proof -
  have new: "pq_inv PQ_BLOCKS pq_new" "pq_abs PQ_BLOCKS pq_new = {#}" "curBlock pq_new = 0"
    using pq_new_ok [of PQ_BLOCKS] by (auto simp: pq_new_def)
  from pq_enqueue_all_ok [OF new(1,3), of evs] new(2) show ?thesis
    unfolding succeeds_iff by auto
qed

lemma pq_drain_ok:
  assumes "pq_inv PQ_BLOCKS q" "size (pq_abs PQ_BLOCKS q) = n"
  shows "\<exists>out. pq_drain n q = Some (Inr out) \<and> sorted (map fst out) \<and> mset out = pq_abs PQ_BLOCKS q"
  using assms
proof (induction n arbitrary: q)
  case 0
  then show ?case by simp
next
  case (Suc n)
  then have "pq_abs PQ_BLOCKS q \<noteq> {#}" by auto
  from pq.deq_ok [OF Suc.prems(1) this] obtain x c q' where
    q': "pq_dequeue PQ_BLOCKS q = Some (Inr (x, c, q'))" "pq_inv PQ_BLOCKS q'"
        "pq_abs PQ_BLOCKS q = add_mset (c, x) (pq_abs PQ_BLOCKS q')"
        "\<forall>c' x'. (c', x') \<in># pq_abs PQ_BLOCKS q \<longrightarrow> c \<le> c'"
    by blast
  with Suc.prems(2) have "size (pq_abs PQ_BLOCKS q') = n" by simp
  from Suc.IH [OF q'(2) this] obtain out where
    out: "pq_drain n q' = Some (Inr out)" "sorted (map fst out)" "mset out = pq_abs PQ_BLOCKS q'"
    by blast
  have "c \<le> c'" if "(c', x') \<in> set out" for c' x'
    using that q'(3,4) out(3) by (metis set_mset_mset insertCI set_mset_add_mset_insert)
  with q' out show ?case by auto
qed

text \<open>
  C4: enqueuing any events into a new \<open>PrioQueue\<close> and dequeuing as many succeeds (no
  assertion fails and every search loop stops), and gives the same events back in the order
  of their cycles, whatever mix of near and far events they are.
\<close>

theorem prio_queue_sorts:
  "\<exists>q out. pq_enqueue_all evs pq_new = Inr q \<and> pq_drain (length evs) q = Some (Inr out) \<and>
     sorted (map fst out) \<and> mset out = mset evs"
proof -
  from pq_enqueue_all_new [of evs]
  obtain q where q: "pq_enqueue_all evs pq_new = Inr q" "pq_inv PQ_BLOCKS q"
    "pq_abs PQ_BLOCKS q = mset evs"
    by blast
  with pq_drain_ok [OF q(2), of "length evs"] show ?thesis by auto
qed

text \<open>
  \<open>firstCycle\<close> agrees with \<open>dequeue\<close>: on a non-empty queue that satisfies the invariant
  it is the cycle of the event that \<open>dequeue\<close> returns, no other event is earlier, and the
  invariant holds afterwards.
\<close>

theorem prio_queue_first_is_dequeued:
  assumes "pq_inv PQ_BLOCKS q" "pq_abs PQ_BLOCKS q \<noteq> {#}"
  shows "\<exists>x c q'. pq_firstCycle PQ_BLOCKS q = Inr c \<and> pq_dequeue PQ_BLOCKS q = Some (Inr (x, c, q')) \<and>
           pq_inv PQ_BLOCKS q' \<and> pq_abs PQ_BLOCKS q = add_mset (c, x) (pq_abs PQ_BLOCKS q') \<and>
           (\<forall>(c', x') \<in># pq_abs PQ_BLOCKS q'. c \<le> c')"
  using pq.first_deq [OF assms] by (metis (mono_tags, lifting) case_prodI2)

theorem prio_queue_first_is_dequeued_witness:
  "\<exists>q x c q'. pq_abs PQ_BLOCKS q = {#(70, ''a''), (90000, ''b'')#} \<and>
     pq_firstCycle PQ_BLOCKS q = Inr c \<and> pq_dequeue PQ_BLOCKS q = Some (Inr (x, c, q'))"
proof -
  from pq_enqueue_all_new [of "[(70, ''a''), (90000, ''b'')]"]
  obtain q where q: "pq_inv PQ_BLOCKS q" "pq_abs PQ_BLOCKS q = {#(70, ''a''), (90000, ''b'')#}"
    by auto
  then have "pq_abs PQ_BLOCKS q \<noteq> {#}" by simp
  from prio_queue_first_is_dequeued [OF q(1) this] q(2) show ?thesis by blast
qed

end
