(* ===== verification/Contention_Sim.thy ===== *)
theory Contention_Sim
  imports Prio_Queue
begin

text \<open>
  The event loop of the weave phase (\<open>contention_sim.cpp\<close>) for a simulation thread that
  owns one domain: dequeue the earliest event, run it, advance the domain's clock. What an
  event does when it runs is the argument \<open>run\<close>: it maps an event, the cycle and the rest
  of the simulated state to the events it enqueues and the new state.
\<close>

section \<open>The domain\<close>

record 'a DomainData =
  dpq :: "'a PrioQueue"
  curCycle :: nat

definition cs_enqueue :: "nat \<Rightarrow> 'a \<Rightarrow> nat \<Rightarrow> 'a DomainData \<Rightarrow> 'a DomainData res" where
  "cs_enqueue lastLimit ev c d =
     require (lastLimit \<le> c) (AssertFail ''Enqueued event before last limit!'')
       (require (curCycle d \<le> c) (AssertFail ''Queued event goes back in time'')
         (bindR (pq_enqueue PQ_BLOCKS ev c (dpq d)) (\<lambda>q. Inr (d\<lparr>dpq := q\<rparr>))))"

fun cs_enqueue_all :: "nat \<Rightarrow> ('a \<times> nat) list \<Rightarrow> 'a DomainData \<Rightarrow> 'a DomainData res" where
  "cs_enqueue_all lastLimit [] d = Inr d"
| "cs_enqueue_all lastLimit ((ev, c) # evs) d =
     bindR (cs_enqueue lastLimit ev c d) (cs_enqueue_all lastLimit evs)"

definition phase_body ::
  "nat \<Rightarrow> nat \<Rightarrow> ('a \<Rightarrow> nat \<Rightarrow> 's \<Rightarrow> ('a \<times> nat) list \<times> 's) \<Rightarrow> 'a DomainData \<Rightarrow> 's
     \<Rightarrow> ('a DomainData \<times> 's) res option" where
  "phase_body lastLimit limit run d s =
     (case pq_dequeue PQ_BLOCKS (dpq d) of
        None \<Rightarrow> None
      | Some r \<Rightarrow> Some (bindR r (\<lambda>(te, cycle, q).
          require (curCycle d \<le> cycle) (AssertFail ''cycle >= domCycle'')
            (case run te cycle s of (evs, s') \<Rightarrow>
               bindR (cs_enqueue_all lastLimit evs (d\<lparr>dpq := q, curCycle := cycle\<rparr>)) (\<lambda>d1.
                 bindR (if elems (dpq d1) \<noteq> 0 then pq_firstCycle PQ_BLOCKS (dpq d1) else Inr limit)
                   (\<lambda>newCycle.
                     require (cycle \<le> newCycle) (AssertFail ''newCycle >= domCycle'')
                       (Inr (d1\<lparr>curCycle := newCycle\<rparr>, s'))))))))"

partial_function (option) simulatePhaseThread ::
  "nat \<Rightarrow> nat \<Rightarrow> ('a \<Rightarrow> nat \<Rightarrow> 's \<Rightarrow> ('a \<times> nat) list \<times> 's) \<Rightarrow> 'a DomainData \<Rightarrow> 's
     \<Rightarrow> ('a DomainData \<times> 's) res option" where
  "simulatePhaseThread lastLimit limit run d s =
     (if elems (dpq d) = 0 then Some (Inr (d\<lparr>curCycle := limit\<rparr>, s))
      else case pq_firstCycle PQ_BLOCKS (dpq d) of
             Inl e \<Rightarrow> Some (Inl e)
           | Inr fc \<Rightarrow>
               if fc < limit then
                 (case phase_body lastLimit limit run d s of
                    None \<Rightarrow> None
                  | Some (Inl e) \<Rightarrow> Some (Inl e)
                  | Some (Inr p) \<Rightarrow> simulatePhaseThread lastLimit limit run (fst p) (snd p))
               else Some (Inr (d\<lparr>curCycle := limit\<rparr>, s)))"

section \<open>Invariant\<close>

definition dom_inv :: "nat \<Rightarrow> 'a DomainData \<Rightarrow> bool" where
  "dom_inv lastLimit d \<longleftrightarrow>
     pq_inv PQ_BLOCKS (dpq d) \<and> curBlock (dpq d) * 64 \<le> curCycle d \<and> lastLimit \<le> curCycle d \<and>
     (\<forall>c x. (c, x) \<in># pq_abs PQ_BLOCKS (dpq d) \<longrightarrow> curCycle d \<le> c)"

text \<open>What an event may do: it enqueues nothing before the cycle it runs at.\<close>

definition causal :: "('a \<Rightarrow> nat \<Rightarrow> 's \<Rightarrow> ('a \<times> nat) list \<times> 's) \<Rightarrow> bool" where
  "causal run \<longleftrightarrow> (\<forall>ev c s. \<forall>(ev', c') \<in> set (fst (run ev c s)). c \<le> c')"

definition strictly_causal :: "('a \<Rightarrow> nat \<Rightarrow> 's \<Rightarrow> ('a \<times> nat) list \<times> 's) \<Rightarrow> bool" where
  "strictly_causal run \<longleftrightarrow> (\<forall>ev c s. \<forall>(ev', c') \<in> set (fst (run ev c s)). c < c')"

lemma strictly_causal_causal: "strictly_causal run \<Longrightarrow> causal run"
  by (fastforce simp: strictly_causal_def causal_def)

lemma cs_enqueue_ok:
  assumes "dom_inv lastLimit d" "curCycle d \<le> c"
  shows "succeeds (cs_enqueue lastLimit ev c d) (\<lambda>d'. dom_inv lastLimit d' \<and>
           curCycle d' = curCycle d \<and>
           pq_abs PQ_BLOCKS (dpq d') = add_mset (c, ev) (pq_abs PQ_BLOCKS (dpq d)))"
proof -
  have "succeeds (pq_enqueue PQ_BLOCKS ev c (dpq d)) (\<lambda>q'. pq_inv PQ_BLOCKS q' \<and>
      pq_abs PQ_BLOCKS q' = add_mset (c, ev) (pq_abs PQ_BLOCKS (dpq d)) \<and>
      curBlock q' * 64 = curBlock (dpq d) * 64)"
    by (rule pq.enq_ok) (use assms in \<open>auto simp: dom_inv_def\<close>)
  then show ?thesis
    using assms by (auto simp: cs_enqueue_def dom_inv_def elim!: succeeds_mono) blast
qed

lemma cs_enqueue_all_ok:
  assumes "dom_inv lastLimit d" "\<forall>(ev, c) \<in> set evs. curCycle d \<le> c"
  shows "succeeds (cs_enqueue_all lastLimit evs d) (\<lambda>d'. dom_inv lastLimit d' \<and>
           curCycle d' = curCycle d \<and>
           pq_abs PQ_BLOCKS (dpq d') = pq_abs PQ_BLOCKS (dpq d) + mset (map (\<lambda>(ev, c). (c, ev)) evs))"
  using assms
proof (induction evs arbitrary: d)
  case Nil
  then show ?case by simp
next
  case (Cons p evs)
  obtain ev c where p: "p = (ev, c)" by (cases p)
  from cs_enqueue_ok [OF Cons.prems(1), of c ev] Cons.prems(2) p
  have "succeeds (cs_enqueue lastLimit ev c d) (\<lambda>d'. dom_inv lastLimit d' \<and>
           curCycle d' = curCycle d \<and>
           pq_abs PQ_BLOCKS (dpq d') = add_mset (c, ev) (pq_abs PQ_BLOCKS (dpq d)))" by simp
  then show ?case
    unfolding p cs_enqueue_all.simps succeeds_bindR
  proof (rule succeeds_mono)
    fix d1
    assume d1: "dom_inv lastLimit d1 \<and> curCycle d1 = curCycle d \<and>
      pq_abs PQ_BLOCKS (dpq d1) = add_mset (c, ev) (pq_abs PQ_BLOCKS (dpq d))"
    with Cons.prems(2) have "\<forall>(ev, c) \<in> set evs. curCycle d1 \<le> c" by auto
    from Cons.IH [OF conjunct1 [OF d1] this] d1
    show "succeeds (cs_enqueue_all lastLimit evs d1) (\<lambda>d'. dom_inv lastLimit d' \<and>
        curCycle d' = curCycle d \<and> pq_abs PQ_BLOCKS (dpq d') =
          pq_abs PQ_BLOCKS (dpq d) + mset (map (\<lambda>(ev, c). (c, ev)) ((ev, c) # evs)))"
      by (auto elim!: succeeds_mono)
  qed
qed

text \<open>One iteration: it dequeues the earliest event, and every assertion holds.\<close>

lemma phase_body_ok:
  assumes run: "causal run" and inv: "dom_inv lastLimit d"
    and ne: "elems (dpq d) \<noteq> 0" and fc: "pq_firstCycle PQ_BLOCKS (dpq d) = Inr fc" and lim: "fc < limit"
  shows "\<exists>te d' s'. phase_body lastLimit limit run d s = Some (Inr (d', s')) \<and>
           dom_inv lastLimit d' \<and> curCycle d \<le> fc \<and> fc \<le> curCycle d' \<and>
           s' = snd (run te fc s) \<and> (fc, te) \<in># pq_abs PQ_BLOCKS (dpq d) \<and>
           pq_abs PQ_BLOCKS (dpq d') =
             pq_abs PQ_BLOCKS (dpq d) - {#(fc, te)#} + mset (map (\<lambda>(ev, c). (c, ev)) (fst (run te fc s)))"
proof -
  have pi: "pq_inv PQ_BLOCKS (dpq d)" using inv by (simp add: dom_inv_def)
  have "pq_abs PQ_BLOCKS (dpq d) \<noteq> {#}" using ne pq.empty_iff [OF pi] by simp
  from pq.first_deq [OF pi this] fc obtain te q where
    q: "pq_dequeue PQ_BLOCKS (dpq d) = Some (Inr (te, fc, q))" "pq_inv PQ_BLOCKS q"
       "pq_abs PQ_BLOCKS (dpq d) = add_mset (fc, te) (pq_abs PQ_BLOCKS q)" "curBlock q * 64 \<le> fc"
       "\<forall>c' x'. (c', x') \<in># pq_abs PQ_BLOCKS q \<longrightarrow> fc \<le> c'"
    by auto
  have cur: "curCycle d \<le> fc" using inv q(3) by (auto simp: dom_inv_def)
  obtain evs s' where r: "run te fc s = (evs, s')" by (cases "run te fc s")
  let ?d = "d\<lparr>dpq := q, curCycle := fc\<rparr>"
  have "dom_inv lastLimit ?d" using q cur inv by (auto simp: dom_inv_def)
  moreover have "\<forall>(ev, c) \<in> set evs. curCycle ?d \<le> c"
    using run r by (auto simp: causal_def split: prod.splits) (metis fst_conv old.prod.case)
  ultimately have "succeeds (cs_enqueue_all lastLimit evs ?d) (\<lambda>d'. dom_inv lastLimit d' \<and>
           curCycle d' = curCycle ?d \<and>
           pq_abs PQ_BLOCKS (dpq d') = pq_abs PQ_BLOCKS (dpq ?d) + mset (map (\<lambda>(ev, c). (c, ev)) evs))"
    by (rule cs_enqueue_all_ok)
  then obtain d1 where d1: "cs_enqueue_all lastLimit evs ?d = Inr d1" "dom_inv lastLimit d1"
    "curCycle d1 = fc"
    "pq_abs PQ_BLOCKS (dpq d1) = pq_abs PQ_BLOCKS q + mset (map (\<lambda>(ev, c). (c, ev)) evs)"
    by (auto simp: succeeds_iff)
  have p1: "pq_inv PQ_BLOCKS (dpq d1)" using d1(2) by (simp add: dom_inv_def)
  have "succeeds (if elems (dpq d1) \<noteq> 0 then pq_firstCycle PQ_BLOCKS (dpq d1) else Inr limit)
     (\<lambda>n. fc \<le> n \<and> (\<forall>c x. (c, x) \<in># pq_abs PQ_BLOCKS (dpq d1) \<longrightarrow> n \<le> c))"
  proof (cases "elems (dpq d1) = 0")
    case True
    then have "pq_abs PQ_BLOCKS (dpq d1) = {#}" using pq.empty_iff [OF p1] by simp
    with True lim show ?thesis by simp
  next
    case False
    then have "pq_abs PQ_BLOCKS (dpq d1) \<noteq> {#}" using pq.empty_iff [OF p1] by simp
    from pq.first_ok [OF p1 this] False d1(2,3) show ?thesis
      by (auto simp: dom_inv_def elim!: succeeds_mono)
  qed
  then obtain n where n: "(if elems (dpq d1) \<noteq> 0 then pq_firstCycle PQ_BLOCKS (dpq d1) else Inr limit)
      = Inr n" "fc \<le> n" "\<forall>c x. (c, x) \<in># pq_abs PQ_BLOCKS (dpq d1) \<longrightarrow> n \<le> c"
    unfolding succeeds_iff by blast
  have "phase_body lastLimit limit run d s = Some (Inr (d1\<lparr>curCycle := n\<rparr>, s'))"
    using q(1) cur r d1(1) n(1,2) by (simp add: phase_body_def)
  moreover have "dom_inv lastLimit (d1\<lparr>curCycle := n\<rparr>)"
    using d1(2,3) n(2,3) by (auto simp: dom_inv_def)
  ultimately show ?thesis
    using cur n(2) r q(3) d1(4) by (intro exI [of _ te]) auto
qed

section \<open>The whole phase\<close>

definition phase_done :: "nat \<Rightarrow> nat \<Rightarrow> 'a DomainData \<Rightarrow> bool" where
  "phase_done lastLimit limit d \<longleftrightarrow>
     curCycle d = limit \<and> pq_inv PQ_BLOCKS (dpq d) \<and>
     (\<forall>c x. (c, x) \<in># pq_abs PQ_BLOCKS (dpq d) \<longrightarrow> limit \<le> c)"

lemma phase_exit:
  assumes "dom_inv lastLimit d"
    and "elems (dpq d) = 0 \<or> (\<exists>fc. pq_firstCycle PQ_BLOCKS (dpq d) = Inr fc \<and> limit \<le> fc)"
  shows "phase_done lastLimit limit (d\<lparr>curCycle := limit\<rparr>)"
proof -
  have pi: "pq_inv PQ_BLOCKS (dpq d)" using assms(1) by (simp add: dom_inv_def)
  have "limit \<le> c" if mem: "(c, x) \<in># pq_abs PQ_BLOCKS (dpq d)" for c x
  proof -
    from mem have ne: "pq_abs PQ_BLOCKS (dpq d) \<noteq> {#}" by auto
    then have "elems (dpq d) \<noteq> 0" using pq.empty_iff [OF pi] by simp
    with assms(2) pq.first_ok [OF pi ne] mem show ?thesis by fastforce
  qed
  then show ?thesis using pi by (simp add: phase_done_def)
qed

text \<open>
  The events left to process, measured by how far they are from the limit: running one
  event replaces its entry by entries of later events, which are smaller.
\<close>

definition phase_measure :: "nat \<Rightarrow> 'a DomainData \<Rightarrow> nat multiset" where
  "phase_measure limit d = image_mset (\<lambda>(c, x). limit - c) (pq_abs PQ_BLOCKS (dpq d))"

lemma phase_measure_decr:
  assumes "(fc, te) \<in># A" "fc < limit" "\<forall>(ev, c) \<in> set evs. fc < c"
  shows "(image_mset (\<lambda>(c, x). limit - c) (A - {#(fc, te)#} + mset (map (\<lambda>(ev, c). (c, ev)) evs)),
          image_mset (\<lambda>(c, x). limit - c) A) \<in> mult less_than"
proof -
  let ?f = "\<lambda>(c, x). limit - c"
  have A: "A = A - {#(fc, te)#} + {#(fc, te)#}" using assms(1) by simp
  have "(image_mset ?f (A - {#(fc, te)#}) + image_mset ?f (mset (map (\<lambda>(ev, c). (c, ev)) evs)),
         image_mset ?f (A - {#(fc, te)#}) + {#limit - fc#}) \<in> mult less_than"
    by (rule one_step_implies_mult) (use assms(2,3) in \<open>auto split: prod.splits\<close>)
  then show ?thesis
    by (subst (2) A) (simp only: image_mset_union image_mset_single prod.case)
qed

lemma simulatePhaseThread_ok:
  assumes "strictly_causal run" "dom_inv lastLimit d"
  shows "\<exists>d' s'. simulatePhaseThread lastLimit limit run d s = Some (Inr (d', s')) \<and>
           phase_done lastLimit limit d'"
  using assms(2)
proof (induction "phase_measure limit d" arbitrary: d s rule: wf_induct_rule [OF wf_mult [OF wf_less_than]])
  case (1 d s)
  note unfold = simulatePhaseThread.simps [of lastLimit limit run d s]
  have pi: "pq_inv PQ_BLOCKS (dpq d)" using 1(2) by (simp add: dom_inv_def)
  show ?case
  proof (cases "elems (dpq d) = 0")
    case True
    with phase_exit [OF 1(2)] show ?thesis by (simp add: unfold)
  next
    case False
    then have "pq_abs PQ_BLOCKS (dpq d) \<noteq> {#}" using pq.empty_iff [OF pi] by simp
    from pq.first_deq [OF pi this] obtain fc where fc: "pq_firstCycle PQ_BLOCKS (dpq d) = Inr fc"
      by blast
    show ?thesis
    proof (cases "fc < limit")
      case False
      with fc phase_exit [OF 1(2), of limit] \<open>elems (dpq d) \<noteq> 0\<close> show ?thesis
        by (simp add: unfold)
    next
      case True
      from phase_body_ok [OF strictly_causal_causal [OF assms(1)] 1(2) \<open>elems (dpq d) \<noteq> 0\<close> fc True]
      obtain te d1 s1 where b: "phase_body lastLimit limit run d s = Some (Inr (d1, s1))"
        "dom_inv lastLimit d1" "(fc, te) \<in># pq_abs PQ_BLOCKS (dpq d)"
        "pq_abs PQ_BLOCKS (dpq d1) =
           pq_abs PQ_BLOCKS (dpq d) - {#(fc, te)#} + mset (map (\<lambda>(ev, c). (c, ev)) (fst (run te fc s)))"
        by blast
      have "\<forall>(ev, c) \<in> set (fst (run te fc s)). fc < c"
        using assms(1) by (auto simp: strictly_causal_def)
      from phase_measure_decr [OF b(3) True this] b(4)
      have "(phase_measure limit d1, phase_measure limit d) \<in> mult less_than"
        by (simp only: phase_measure_def)
      from 1(1) [OF this b(2)] b(1) fc True \<open>elems (dpq d) \<noteq> 0\<close> show ?thesis
        by (simp add: unfold)
    qed
  qed
qed

lemma simulatePhaseThread_safe:
  assumes ret: "simulatePhaseThread lastLimit limit run d s = Some r"
    and run: "causal run" and inv: "dom_inv lastLimit d"
  shows "\<exists>d' s'. r = Inr (d', s') \<and> phase_done lastLimit limit d'"
proof -
  have "causal run \<longrightarrow> dom_inv lastLimit d \<longrightarrow> (\<exists>d' s'. r = Inr (d', s') \<and> phase_done lastLimit limit d')"
  proof (rule simulatePhaseThread.raw_induct [where P = "\<lambda>lastLimit limit run d s r.
      causal run \<longrightarrow> dom_inv lastLimit d \<longrightarrow> (\<exists>d' s'. r = Inr (d', s') \<and> phase_done lastLimit limit d')",
      OF _ ret], intro impI)
    fix f lastLimit limit run d s r
    assume IH: "\<And>lastLimit limit run d s r. f lastLimit limit run d s = Some r \<Longrightarrow> causal run \<longrightarrow>
        dom_inv lastLimit d \<longrightarrow> (\<exists>d' s'. r = Inr (d', s') \<and> phase_done lastLimit limit d')"
      and eq: "(if elems (dpq d) = 0 then Some (Inr (d\<lparr>curCycle := limit\<rparr>, s))
        else case pq_firstCycle PQ_BLOCKS (dpq d) of
             Inl e \<Rightarrow> Some (Inl e)
           | Inr fc \<Rightarrow>
               if fc < limit then
                 (case phase_body lastLimit limit run d s of
                    None \<Rightarrow> None
                  | Some (Inl e) \<Rightarrow> Some (Inl e)
                  | Some (Inr p) \<Rightarrow> f lastLimit limit run (fst p) (snd p))
               else Some (Inr (d\<lparr>curCycle := limit\<rparr>, s))) = Some r"
      and run: "causal run" and inv: "dom_inv lastLimit d"
    have pi: "pq_inv PQ_BLOCKS (dpq d)" using inv by (simp add: dom_inv_def)
    show "\<exists>d' s'. r = Inr (d', s') \<and> phase_done lastLimit limit d'"
    proof (cases "elems (dpq d) = 0")
      case True
      with eq phase_exit [OF inv] show ?thesis by auto
    next
      case False
      then have "pq_abs PQ_BLOCKS (dpq d) \<noteq> {#}" using pq.empty_iff [OF pi] by simp
      from pq.first_deq [OF pi this] obtain fc where fc: "pq_firstCycle PQ_BLOCKS (dpq d) = Inr fc"
        by blast
      show ?thesis
      proof (cases "fc < limit")
        case False
        with eq fc phase_exit [OF inv, of limit] \<open>elems (dpq d) \<noteq> 0\<close> show ?thesis by auto
      next
        case True
        from phase_body_ok [OF run inv \<open>elems (dpq d) \<noteq> 0\<close> fc True]
        obtain d1 s1 where b: "phase_body lastLimit limit run d s = Some (Inr (d1, s1))"
          "dom_inv lastLimit d1" by blast
        with eq fc True \<open>elems (dpq d) \<noteq> 0\<close> have "f lastLimit limit run d1 s1 = Some r" by simp
        from IH [OF this] run b(2) show ?thesis by blast
      qed
    qed
  qed
  with run inv show ?thesis by blast
qed

section \<open>Properties\<close>


text \<open>Events that fork: event \<open>n\<close> schedules \<open>n - 1\<close> twice, one and a hundred thousand cycles later.\<close>

definition fork_run :: "nat \<Rightarrow> nat \<Rightarrow> nat \<Rightarrow> (nat \<times> nat) list \<times> nat" where
  "fork_run ev c s = (if ev = 0 then [] else [(ev - 1, c + 1), (ev - 1, c + 100000)], s + 1)"


text \<open>
  C19: even when events may schedule others at their own cycle (crossings do), a phase that
  returns never fails an assertion and leaves no event before the limit.
\<close>

theorem simulate_phase_safe:
  assumes "causal run" "dom_inv lastLimit d"
    and "simulatePhaseThread lastLimit limit run d s = Some r"
  shows "\<exists>d' s'. r = Inr (d', s') \<and> curCycle d' = limit \<and>
           (\<forall>(c, x) \<in># pq_abs PQ_BLOCKS (dpq d'). limit \<le> c)"
  using simulatePhaseThread_safe [OF assms(3,1,2)] by (fastforce simp: phase_done_def)

theorem simulate_phase_safe_witness:
  "\<exists>d r d' s'. pq_abs PQ_BLOCKS (dpq d) = {#(3, 2)#} \<and>
     simulatePhaseThread 0 50 fork_run d 0 = Some r \<and> r = Inr (d', s') \<and> curCycle d' = 50"
proof -
  let ?d0 = "\<lparr>dpq = pq_new, curCycle = 0\<rparr> :: nat DomainData"
  have "dom_inv 0 ?d0" "pq_abs PQ_BLOCKS (dpq ?d0) = {#}"
    using pq_new_ok [of PQ_BLOCKS] by (auto simp: dom_inv_def pq_new_def)
  with cs_enqueue_ok [of 0 ?d0 3 2] obtain d :: "nat DomainData" where
    d: "dom_inv 0 d" "pq_abs PQ_BLOCKS (dpq d) = {#(3, 2)#}"
    by (auto simp: succeeds_iff)
  have sc: "strictly_causal fork_run" by (auto simp: strictly_causal_def fork_run_def)
  from simulatePhaseThread_ok [OF sc d(1), of 50 0] obtain r where
    "simulatePhaseThread 0 50 fork_run d 0 = Some r" by blast
  from simulate_phase_safe [OF strictly_causal_causal [OF sc] d(1) this] this d(2)
  show ?thesis by blast
qed

end
