(* ===== verification/Memory_Hierarchy.thy ===== *)
theory Memory_Hierarchy
  imports Prelude
begin

text \<open>
  The types of \<open>memory_hierarchy.h\<close> that every memory object shares (access and
  invalidation types, MESI states, requests and their flags) and \<open>SplitAddrMemory\<close>, the
  object that interleaves lines over several memory controllers.
\<close>

section \<open>Requests\<close>

type_synonym addr = u64

datatype AccessType = GETS | GETX | PUTS | PUTX

datatype InvType = INV | INVX | FWD

datatype MESIState = I | S | E | M

definition IsGet :: "AccessType \<Rightarrow> bool" where
  "IsGet t \<longleftrightarrow> t = GETS \<or> t = GETX"

definition IsPut :: "AccessType \<Rightarrow> bool" where
  "IsPut t \<longleftrightarrow> t = PUTS \<or> t = PUTX"

datatype Flag = IFETCH | NOEXCL | NONINCLWB | PUTX_KEEPEXCL | PREFETCH | PREFETCH_NOREC
  | PREFETCH_HINT

fun flag_bit :: "Flag \<Rightarrow> u32" where
  "flag_bit IFETCH = push_bit 1 1"
| "flag_bit NOEXCL = push_bit 2 1"
| "flag_bit NONINCLWB = push_bit 3 1"
| "flag_bit PUTX_KEEPEXCL = push_bit 4 1"
| "flag_bit PREFETCH = push_bit 5 1"
| "flag_bit PREFETCH_NOREC = push_bit 6 1"
| "flag_bit PREFETCH_HINT = push_bit 7 1"

text \<open>
  A request. The pointer \<open>state\<close> to the requester's coherence state is passed beside the
  record, by the components that write through it, and \<open>childLock\<close> is left out.
\<close>

record MemReq =
  lineAddr :: addr
  req_type :: AccessType
  childId :: nat
  cycle :: nat
  initialState :: MESIState
  srcId :: nat
  flags :: u32

text \<open>A request for the concrete runs.\<close>

definition sample_req :: MemReq where
  "sample_req = \<lparr>lineAddr = 77, req_type = GETS, childId = 0, cycle = 7, initialState = I, srcId = 0,
                 flags = 0\<rparr>"

definition set_flag :: "Flag \<Rightarrow> MemReq \<Rightarrow> MemReq" where
  "set_flag f r = r\<lparr>flags := flags r OR flag_bit f\<rparr>"

definition is_flag :: "u32 \<Rightarrow> Flag \<Rightarrow> bool" where
  "is_flag fl f \<longleftrightarrow> fl AND flag_bit f \<noteq> 0"

lemma IsGet_simps [simp]: "IsGet GETS" "IsGet GETX" "\<not> IsGet PUTS" "\<not> IsGet PUTX"
  by (simp_all add: IsGet_def)

lemma IsPut_simps [simp]: "IsPut PUTS" "IsPut PUTX" "\<not> IsPut GETS" "\<not> IsPut GETX"
  by (simp_all add: IsPut_def)

section \<open>SplitAddrMemory\<close>

text \<open>
  \<open>access\<close> sends the request to controller \<open>addr % n\<close> with the line address replaced by
  \<open>addr / n\<close>, and restores the address afterwards. The controllers' own \<open>access\<close> is the
  argument \<open>mem_access\<close>: it takes the controller's index, its state and the request and
  returns the response cycle and the new controller state.
\<close>

definition getTargetFor :: "nat \<Rightarrow> addr \<Rightarrow> nat" where
  "getTargetFor n a = unat (a mod of_nat n)"

definition ctrlAddr :: "nat \<Rightarrow> addr \<Rightarrow> addr" where
  "ctrlAddr n a = a div of_nat n"

definition split_access ::
  "(nat \<Rightarrow> MemReq \<Rightarrow> 'm \<Rightarrow> (nat \<times> MemReq \<times> 'm) res) \<Rightarrow> MemReq \<Rightarrow> 'm list
     \<Rightarrow> (nat \<times> MemReq \<times> 'm list) res" where
  "split_access mem_access req mems =
     (let addr = lineAddr req;
          n = length mems;
          t = getTargetFor n addr;
          req1 = req\<lparr>lineAddr := ctrlAddr n addr\<rparr>
      in bindR (mem_access t req1 (mems ! t))
           (\<lambda>(respCycle, req2, m'). Inr (respCycle, req2\<lparr>lineAddr := addr\<rparr>, mems[t := m'])))"

lemma of_nat_unat_bound: "n < 2 ^ 64 \<Longrightarrow> unat (of_nat n :: u64) = n"
  by (simp add: unat_of_nat take_bit_nat_eq_self)

lemma getTargetFor_unat: "n < 2 ^ 64 \<Longrightarrow> getTargetFor n a = unat a mod n"
  by (simp add: getTargetFor_def unat_mod of_nat_unat_bound)

lemma ctrlAddr_unat: "n < 2 ^ 64 \<Longrightarrow> unat (ctrlAddr n a) = unat a div n"
  by (simp add: ctrlAddr_def unat_div of_nat_unat_bound)

lemma split_addr_recompose:
  assumes "0 < n" "n < 2 ^ 64"
  shows "getTargetFor n a < n" "unat (ctrlAddr n a) * n + getTargetFor n a = unat a"
  using assms by (simp_all add: getTargetFor_unat ctrlAddr_unat mult.commute)

section \<open>Properties\<close>

text \<open>
  C29: \<open>SplitAddrMemory\<close> partitions the lines over its controllers: two lines that go to the
  same controller under the same controller address are the same line, and every line goes
  to an existing controller.
\<close>

theorem split_addr_injective:
  assumes "0 < n" "n < 2 ^ 64"
    and "getTargetFor n a = getTargetFor n b" "ctrlAddr n a = ctrlAddr n b"
  shows "a = b \<and> getTargetFor n a < n"
proof -
  note r = split_addr_recompose(2) [OF assms(1,2)]
  from r [of a] r [of b] assms(3,4) have "unat a = unat b" by simp
  then have "a = b" by (rule unsigned_word_eqI)
  then show ?thesis using split_addr_recompose(1) [OF assms(1,2)] by simp
qed

theorem split_addr_injective_witness:
  "getTargetFor 3 (4294967301 :: u64) = 0 \<and> (4294967301 :: u64) = 4294967301 \<and>
   getTargetFor 3 (4294967301 :: u64) < 3"
  using split_addr_injective [of 3 4294967301 4294967301] by (simp add: getTargetFor_def)

text \<open>
  \<open>SplitAddrMemory::access\<close> gives the target controller the request at the controller's
  own address, returns its response, restores the line address, and leaves every other
  controller as it was.
\<close>

theorem split_access_routes:
  assumes "split_access mem_access req mems = Inr (respCycle, req', mems')"
    and "mems \<noteq> []" "length mems < 2 ^ 64"
  shows "\<exists>t < length mems. \<exists>a. unat a * length mems + t = unat (lineAddr req) \<and>
     (\<exists>req1. mem_access t (req\<lparr>lineAddr := a\<rparr>) (mems ! t) = Inr (respCycle, req1, mems' ! t) \<and>
             req' = req1\<lparr>lineAddr := lineAddr req\<rparr>) \<and>
     length mems' = length mems \<and> (\<forall>j. j \<noteq> t \<longrightarrow> mems' ! j = mems ! j)"
proof -
  let ?n = "length mems"
  let ?t = "getTargetFor ?n (lineAddr req)" and ?a = "ctrlAddr ?n (lineAddr req)"
  have n: "0 < ?n" using assms(2) by simp
  note r = split_addr_recompose [OF n assms(3), of "lineAddr req"]
  from assms(1) obtain req1 m' where
    "mem_access ?t (req\<lparr>lineAddr := ?a\<rparr>) (mems ! ?t) = Inr (respCycle, req1, m')"
    "req' = req1\<lparr>lineAddr := lineAddr req\<rparr>" "mems' = mems[?t := m']"
    by (auto simp: split_access_def Let_def bindR_eq_Inr_iff)
  with r show ?thesis by (intro exI [of _ ?t] exI [of _ ?a]) auto
qed

text \<open>A controller that counts its accesses and answers ten cycles later.\<close>

definition count_access :: "nat \<Rightarrow> MemReq \<Rightarrow> nat \<Rightarrow> (nat \<times> MemReq \<times> nat) res" where
  "count_access t req m = Inr (cycle req + 10, req, m + 1)"

theorem split_access_routes_witness:
  "\<exists>t<2. \<exists>a :: u64. unat a * 2 + t = (7 :: nat) \<and> (\<forall>j. j \<noteq> t \<longrightarrow> [0, 1 :: nat] ! j = [0, 0] ! j)"
proof -
  let ?r = "\<lparr>lineAddr = 7, req_type = GETS, childId = 0, cycle = 5, initialState = I, srcId = 0,
             flags = 0\<rparr> :: MemReq"
  have run: "split_access count_access ?r [0, 0] = Inr (15, ?r, [0, 1])"
    by (simp add: split_access_def count_access_def getTargetFor_def ctrlAddr_def)
  have ne: "[0, 0 :: nat] \<noteq> []" and len: "length [0, 0 :: nat] < 2 ^ 64" by simp_all
  from split_access_routes [OF run ne len] obtain t and a :: u64 where
    "t < length [0, 0 :: nat]" "unat a * length [0, 0 :: nat] + t = unat (lineAddr ?r)"
    "\<forall>j. j \<noteq> t \<longrightarrow> [0, 1] ! j = [0, 0 :: nat] ! j"
    by blast
  then show ?thesis by (intro exI [of _ t] conjI exI [of _ a]) simp_all
qed

end
