(* ===== verification/Repl_Policies.thy ===== *)
theory Repl_Policies
  imports Memory_Hierarchy
begin

text \<open>
  The replacement policies of \<open>repl_policies.h\<close>. A policy is driven by a cache array: \<open>update\<close> on
  a hit, \<open>rank\<close> to choose a victim among candidates, then \<open>replaced\<close> and \<open>update\<close> once the new
  line is written. The locale \<open>repl_policy\<close> states what an array needs of a policy: the
  victim is one of the candidates, no assertion fails, and the protocol can go on.

  Candidates are the list of line ids that \<open>SetAssocCands\<close> and \<open>ZCands\<close> iterate over. Arrays
  are lists; ages and ids are natural numbers, as no operation takes them out of the range
  of their C++ type, and the time stamps of LRU, which are truncated, are reduced explicitly.
\<close>

section \<open>The interface\<close>

text \<open>What a policy asks of the coherence controller.\<close>

record cc_view =
  cc_numSharers :: "nat \<Rightarrow> nat"
  cc_isValid :: "nat \<Rightarrow> bool"

locale repl_policy =
  fixes n :: nat
    and cands_ok :: "nat list \<Rightarrow> bool"
    and inv :: "'r \<Rightarrow> bool"
    and ranked :: "'r \<Rightarrow> bool"
    and update :: "nat \<Rightarrow> MemReq \<Rightarrow> 'r \<Rightarrow> 'r"
    and replaced :: "nat \<Rightarrow> 'r \<Rightarrow> 'r"
    and rank :: "cc_view \<Rightarrow> MemReq \<Rightarrow> nat list \<Rightarrow> 'r \<Rightarrow> (nat \<times> 'r) res"
  assumes update_inv: "inv r \<Longrightarrow> i < n \<Longrightarrow> inv (update i req r)"
    and update_ranked: "ranked r \<Longrightarrow> i < n \<Longrightarrow> ranked (update i req r)"
    and rank_ok: "inv r \<Longrightarrow> cands_ok cands \<Longrightarrow> cands \<noteq> [] \<Longrightarrow> set cands \<subseteq> {..<n} \<Longrightarrow>
      succeeds (rank cc req cands r) (\<lambda>(b, r'). b \<in> set cands \<and> ranked r')"
    and install_inv: "ranked r \<Longrightarrow> i < n \<Longrightarrow> inv (update i req (replaced i r))"
begin

lemma rank_E:
  assumes "inv r" "cands_ok cands" "cands \<noteq> []" "set cands \<subseteq> {..<n}"
  obtains b r' where "rank cc req cands r = Inr (b, r')" "b \<in> set cands" "ranked r'" "b < n"
  using rank_ok [OF assms, of cc req] assms(4)
  unfolding succeeds_iff by blast

end

section \<open>MN4 LLC: QLRU_H11_M1_R0_U0\<close>

record MN4LLC =
  llc_age :: "nat list"

definition llc_new :: "nat \<Rightarrow> MN4LLC" where
  "llc_new numLines = \<lparr>llc_age = replicate numLines 3\<rparr>"

definition llc_update :: "nat \<Rightarrow> MemReq \<Rightarrow> MN4LLC \<Rightarrow> MN4LLC" where
  "llc_update i req p =
     (let a = llc_age p ! i in
      p\<lparr>llc_age := (llc_age p)[i :=
        (if a \<ge> 4 then (if a - 4 < 4 then a - 4 else a)
         else if a = 2 \<or> a = 3 then 1
         else 0)]\<rparr>)"

text \<open>The first loop of \<open>rank\<close>; \<open>best\<close> is the first candidate until one of age 3 is found.\<close>

fun llc_find :: "nat list \<Rightarrow> nat \<Rightarrow> nat list \<Rightarrow> nat \<times> nat list" where
  "llc_find [] best age = (best, age)"
| "llc_find (c # cs) best age =
     (let age1 = (if age ! c > 3 then age[c := age ! c - 4] else age)
      in if age1 ! c = 3 then (c, age1[c := 0]) else llc_find cs best age1)"

text \<open>The second loop: the largest age, and whether no candidate has age 3.\<close>

fun llc_scan :: "nat list \<Rightarrow> nat \<Rightarrow> bool \<Rightarrow> nat list \<Rightarrow> (nat \<times> bool \<times> nat list) res" where
  "llc_scan [] maximumAge updateAge age = Inr (maximumAge, updateAge, age)"
| "llc_scan (c # cs) maximumAge updateAge age =
     (let age1 = (if age ! c > 3 then (if age ! c - 4 < 4 then age[c := age ! c - 4] else age) else age);
          maximumAge1 = max maximumAge (age1 ! c)
      in require (age1 ! c \<le> 3) (AssertFail ''age <= 3'')
           (llc_scan cs maximumAge1 (updateAge \<and> age1 ! c \<noteq> 3) age1))"

fun age_all :: "nat list \<Rightarrow> nat \<Rightarrow> nat list \<Rightarrow> nat list" where
  "age_all [] d age = age"
| "age_all (c # cs) d age = age_all cs d (age[c := age ! c + d])"

definition llc_rank :: "cc_view \<Rightarrow> MemReq \<Rightarrow> nat list \<Rightarrow> MN4LLC \<Rightarrow> (nat \<times> MN4LLC) res" where
  "llc_rank cc req cands p =
     (if cands = [] then Inl (Undefined ''age[-1]'')
      else let (bestCand, age1) = llc_find cands (hd cands) (llc_age p);
               age2 = age1[bestCand := 1]
           in bindR (llc_scan cands 0 True age2) (\<lambda>(maximumAge, updateAge, age3).
                Inr (bestCand,
                  p\<lparr>llc_age := (if updateAge then age_all cands (3 - maximumAge) age3 else age3)\<rparr>)))"

definition llc_replaced :: "nat \<Rightarrow> MN4LLC \<Rightarrow> MN4LLC" where
  "llc_replaced i p = p\<lparr>llc_age := (llc_age p)[i := llc_age p ! i + 4]\<rparr>"

section \<open>MN4 L2: QLRU_H00_M1_R2_U1\<close>

record MN4L2 =
  l2_age :: "nat list"

definition l2_new :: "nat \<Rightarrow> MN4L2" where
  "l2_new numLines = \<lparr>l2_age = replicate numLines 3\<rparr>"

definition l2_update :: "nat \<Rightarrow> MemReq \<Rightarrow> MN4L2 \<Rightarrow> MN4L2" where
  "l2_update i req p =
     p\<lparr>l2_age := (l2_age p)[i := (if l2_age p ! i \<ge> 4 then 1 else 0)]\<rparr>"

text \<open>The first loop keeps the last candidate of age 3 (\<open>None\<close> is -1) and the last candidate.\<close>

fun l2_find :: "nat list \<Rightarrow> nat option \<Rightarrow> nat option \<Rightarrow> nat list \<Rightarrow> nat option \<times> nat option" where
  "l2_find [] bestCand lastCand age = (bestCand, lastCand)"
| "l2_find (c # cs) bestCand lastCand age =
     l2_find cs (if age ! c = 3 then Some c else bestCand) (Some c) age"

fun l2_scan :: "nat list \<Rightarrow> nat \<Rightarrow> bool \<Rightarrow> nat list \<Rightarrow> (nat \<times> bool) res" where
  "l2_scan [] maximumAge updateAge age = Inr (maximumAge, updateAge)"
| "l2_scan (c # cs) maximumAge updateAge age =
     require (age ! c \<le> 3) (AssertFail ''age <= 3'')
       (l2_scan cs (max maximumAge (age ! c)) (updateAge \<and> age ! c \<noteq> 3) age)"

definition l2_rank :: "cc_view \<Rightarrow> MemReq \<Rightarrow> nat list \<Rightarrow> MN4L2 \<Rightarrow> (nat \<times> MN4L2) res" where
  "l2_rank cc req cands p =
     (let (best, lastCand) = l2_find cands None None (l2_age p)
      in case (case best of None \<Rightarrow> lastCand | Some b \<Rightarrow> Some b) of
           None \<Rightarrow> Inl (Undefined ''age[-1]'')
         | Some bestCand \<Rightarrow>
             let age1 = (l2_age p)[bestCand := 0]
             in bindR (l2_scan cands 0 True age1) (\<lambda>(maximumAge, updateAge).
                  Inr (bestCand,
                    p\<lparr>l2_age := (if updateAge then age_all cands (3 - maximumAge) age1 else age1)\<rparr>)))"

definition l2_replaced :: "nat \<Rightarrow> MN4L2 \<Rightarrow> MN4L2" where
  "l2_replaced i p = p\<lparr>l2_age := (l2_age p)[i := 4]\<rparr>"

section \<open>LRU\<close>

record LRU =
  lru_timestamp :: nat
  lru_array :: "nat list"

definition lru_new :: "nat \<Rightarrow> LRU" where
  "lru_new numLines = \<lparr>lru_timestamp = 1, lru_array = replicate numLines 0\<rparr>"

definition lru_update :: "nat \<Rightarrow> MemReq \<Rightarrow> LRU \<Rightarrow> LRU" where
  "lru_update i req p =
     p\<lparr>lru_array := (lru_array p)[i := lru_timestamp p], lru_timestamp := lru_timestamp p + 1\<rparr>"

definition lru_replaced :: "nat \<Rightarrow> LRU \<Rightarrow> LRU" where
  "lru_replaced i p = p\<lparr>lru_array := (lru_array p)[i := 0]\<rparr>"

definition lru_score :: "bool \<Rightarrow> cc_view \<Rightarrow> LRU \<Rightarrow> nat \<Rightarrow> nat" where
  "lru_score sharersAware cc p i =
     ((if sharersAware then cc_numSharers cc i else 0) * lru_timestamp p
       + lru_array p ! i * of_bool (cc_isValid cc i)) mod 2 ^ 64"

text \<open>
  The loop of \<open>rank\<close>: \<open>score\<close> is a 64-bit value, and \<open>uint32_t s\<close> keeps its low 32 bits. The
  initial best score is \<open>2^64 - 1\<close>.
\<close>

fun lru_loop :: "bool \<Rightarrow> cc_view \<Rightarrow> LRU \<Rightarrow> nat list \<Rightarrow> nat \<Rightarrow> nat \<Rightarrow> nat" where
  "lru_loop sa cc p [] bestCand bestScore = bestCand"
| "lru_loop sa cc p (c # cs) bestCand bestScore =
     (let s = lru_score sa cc p c mod 2 ^ 32
      in lru_loop sa cc p cs (if s < bestScore then c else bestCand) (min s bestScore))"

definition lru_rank :: "bool \<Rightarrow> cc_view \<Rightarrow> MemReq \<Rightarrow> nat list \<Rightarrow> LRU \<Rightarrow> (nat \<times> LRU) res" where
  "lru_rank sa cc req cands p = Inr (lru_loop sa cc p cands (2 ^ 32 - 1) (2 ^ 64 - 1), p)"

section \<open>Tree LRU\<close>

text \<open>
  \<open>TreeLRUReplPolicy\<close> extends the sharers-aware LRU. Its \<open>getBestCandidate\<close> halves the range
  of candidates towards the half whose newest line is older, until one is left.
\<close>

record TreeLRU = LRU +
  tl_candArray :: "nat list"
  tl_numCands :: nat
  tl_candIdx :: nat

definition tl_new :: "nat \<Rightarrow> nat \<Rightarrow> TreeLRU res" where
  "tl_new numLines numCands =
     (if numCands AND (numCands - 1) \<noteq> 0 then Inl (Panicked ''Tree LRU needs a power of 2 candidates'')
      else Inr \<lparr>lru_timestamp = 1, lru_array = replicate numLines 0,
                 tl_candArray = replicate numCands 0, tl_numCands = numCands, tl_candIdx = 0\<rparr>)"

definition tl_recordCandidate :: "nat \<Rightarrow> TreeLRU \<Rightarrow> TreeLRU res" where
  "tl_recordCandidate i p =
     require (tl_candIdx p < length (tl_candArray p)) (Undefined ''candArray[candIdx]'')
       (Inr (p\<lparr>tl_candArray := (tl_candArray p)[tl_candIdx p := i], tl_candIdx := tl_candIdx p + 1\<rparr>))"

definition tl_newest :: "TreeLRU \<Rightarrow> nat \<Rightarrow> nat \<Rightarrow> nat" where
  "tl_newest p a b = fold (\<lambda>i t. max t (lru_array p ! (tl_candArray p ! i))) [a..<b] 0"

function tl_search :: "TreeLRU \<Rightarrow> nat \<Rightarrow> nat \<Rightarrow> nat" where
  "tl_search p start stop =
     (if stop - start > 1 then
        (let pivot = start + (stop - start) div 2;
             t1 = tl_newest p start pivot;
             t2 = tl_newest p pivot stop
         in if t1 > t2 then tl_search p pivot stop else tl_search p start pivot)
      else start)"
  by pat_completeness auto
termination
  by (relation "measure (\<lambda>(p, start, stop). stop - start)") auto

definition tl_getBestCandidate :: "TreeLRU \<Rightarrow> nat res" where
  "tl_getBestCandidate p =
     require (tl_candIdx p = tl_numCands p) (AssertFail ''candIdx == numCands'')
       (let i = tl_search p 0 (tl_numCands p)
        in require (i < length (tl_candArray p)) (Undefined ''candArray[start]'')
             (Inr (tl_candArray p ! i)))"

definition tl_replaced :: "nat \<Rightarrow> TreeLRU \<Rightarrow> TreeLRU" where
  "tl_replaced i p = p\<lparr>tl_candIdx := 0, lru_array := (lru_array p)[i := 0]\<rparr>"

text \<open>
  \<open>rankCands\<close> is expanded in \<open>LRUReplPolicy\<close>, where \<open>rank\<close> names that class's own template: a
  tree LRU is ranked by it, and nothing calls \<open>recordCandidate\<close> or \<open>getBestCandidate\<close>.
\<close>

definition tl_rankCands :: "cc_view \<Rightarrow> MemReq \<Rightarrow> nat list \<Rightarrow> TreeLRU \<Rightarrow> (nat \<times> TreeLRU) res" where
  "tl_rankCands cc req cands p =
     bindR (lru_rank True cc req cands (LRU.truncate p)) (\<lambda>(b, _). Inr (b, p))"

section \<open>Legacy policies\<close>

text \<open>
  \<open>LegacyReplPolicy::rank\<close> records the candidates one by one and asks for the best. None of
  the policies below overrides \<open>startReplacement\<close>.
\<close>

fun record_all :: "(nat \<Rightarrow> 'r \<Rightarrow> 'r res) \<Rightarrow> nat list \<Rightarrow> 'r \<Rightarrow> 'r res" where
  "record_all recordCandidate [] p = Inr p"
| "record_all recordCandidate (c # cs) p =
     bindR (recordCandidate c p) (record_all recordCandidate cs)"

definition legacy_rank ::
  "(nat \<Rightarrow> 'r \<Rightarrow> 'r res) \<Rightarrow> ('r \<Rightarrow> (nat \<times> 'r) res) \<Rightarrow> nat list \<Rightarrow> 'r \<Rightarrow> (nat \<times> 'r) res" where
  "legacy_rank recordCandidate getBestCandidate cands p =
     bindR (record_all recordCandidate cands p) getBestCandidate"

subsection \<open>NRU\<close>

record NRU =
  nru_array :: "nat list"
  nru_candArray :: "nat list"
  youngLines :: nat
  nru_candVal :: nat
  nru_candIdx :: nat

definition nru_new :: "nat \<Rightarrow> nat \<Rightarrow> NRU" where
  "nru_new numLines numCands =
     \<lparr>nru_array = replicate numLines 0, nru_candArray = replicate numCands 0, youngLines = 0,
      nru_candVal = 2 ^ 20, nru_candIdx = 0\<rparr>"

definition nru_update :: "nat \<Rightarrow> MemReq \<Rightarrow> NRU \<Rightarrow> NRU" where
  "nru_update i req p =
     (let young = youngLines p + 1 - drop_bit 1 (nru_array p ! i);
          arr = (nru_array p)[i := nru_array p ! i OR 2]
      in if young \<ge> length arr div 2
         then p\<lparr>nru_array := map (drop_bit 1) arr, youngLines := 0\<rparr>
         else p\<lparr>nru_array := arr, youngLines := young\<rparr>)"

definition nru_recordCandidate :: "nat \<Rightarrow> NRU \<Rightarrow> NRU res" where
  "nru_recordCandidate i p =
     (let iVal = nru_array p ! i
      in if iVal < nru_candVal p then
           require (0 < length (nru_candArray p)) (Undefined ''candArray[0]'')
             (Inr (p\<lparr>nru_candVal := iVal, nru_candArray := (nru_candArray p)[0 := i], nru_candIdx := 1\<rparr>))
         else if iVal = nru_candVal p then
           require (nru_candIdx p < length (nru_candArray p)) (Undefined ''candArray[candIdx]'')
             (Inr (p\<lparr>nru_candArray := (nru_candArray p)[nru_candIdx p := i],
                      nru_candIdx := nru_candIdx p + 1\<rparr>))
         else Inr p)"

definition nru_getBestCandidate :: "NRU \<Rightarrow> (nat \<times> NRU) res" where
  "nru_getBestCandidate p =
     require (nru_candIdx p > 0) (AssertFail ''candIdx > 0'')
       (Inr (nru_candArray p ! (youngLines p mod nru_candIdx p), p))"

definition nru_replaced :: "nat \<Rightarrow> NRU \<Rightarrow> NRU" where
  "nru_replaced i p =
     p\<lparr>nru_candVal := 2 ^ 20, nru_candIdx := 0, nru_array := (nru_array p)[i := 0]\<rparr>"

subsection \<open>Random\<close>

text \<open>
  The Mersenne twister is the argument \<open>randInt\<close>: a bound and the generator's state to an
  integer in \<open>[0, bound]\<close> and the next state.
\<close>

record 'g Rand =
  rnd_candArray :: "nat list"
  rnd_numCands :: nat
  rnd :: 'g
  rnd_candIdx :: nat

definition rand_new :: "nat \<Rightarrow> 'g \<Rightarrow> 'g Rand" where
  "rand_new numCands g =
     \<lparr>rnd_candArray = replicate numCands 0, rnd_numCands = numCands, rnd = g, rnd_candIdx = 0\<rparr>"

definition rand_recordCandidate :: "nat \<Rightarrow> 'g Rand \<Rightarrow> 'g Rand res" where
  "rand_recordCandidate i p =
     require (rnd_candIdx p < length (rnd_candArray p)) (Undefined ''candArray[candIdx]'')
       (Inr (p\<lparr>rnd_candArray := (rnd_candArray p)[rnd_candIdx p := i], rnd_candIdx := rnd_candIdx p + 1\<rparr>))"

definition rand_getBestCandidate :: "(nat \<Rightarrow> 'g \<Rightarrow> nat \<times> 'g) \<Rightarrow> 'g Rand \<Rightarrow> (nat \<times> 'g Rand) res" where
  "rand_getBestCandidate randInt p =
     require (rnd_candIdx p = rnd_numCands p) (AssertFail ''candIdx == numCands'')
       (case randInt (rnd_numCands p - 1) (rnd p) of (idx, g) \<Rightarrow>
          Inr (rnd_candArray p ! idx, p\<lparr>rnd := g\<rparr>))"

definition rand_replaced :: "nat \<Rightarrow> 'g Rand \<Rightarrow> 'g Rand" where
  "rand_replaced i p = p\<lparr>rnd_candIdx := 0\<rparr>"

subsection \<open>LFU\<close>

record LFUInfo =
  lfu_ts :: u64
  lfu_acc :: u64

record Rank =
  lfuInfo :: LFUInfo
  rk_sharers :: nat
  rk_valid :: bool

definition rank_reset :: Rank where
  "rank_reset = \<lparr>lfuInfo = \<lparr>lfu_ts = 0, lfu_acc = 0\<rparr>, rk_sharers = 0, rk_valid = False\<rparr>"

definition lessThan :: "Rank \<Rightarrow> Rank \<Rightarrow> u64 \<Rightarrow> bool" where
  "lessThan r other curTs =
     (if \<not> rk_valid r \<and> rk_valid other then True
      else if rk_valid r = rk_valid other then
        (if rk_sharers r = 0 \<and> rk_sharers other > 0 then True
         else if rk_sharers r > 0 \<and> rk_sharers other = 0 then False
         else if lfu_acc (lfuInfo r) = 0 then True
         else if lfu_acc (lfuInfo other) = 0 then False
         else (curTs - lfu_ts (lfuInfo r)) div lfu_acc (lfuInfo r)
              > (curTs - lfu_ts (lfuInfo other)) div lfu_acc (lfuInfo other))
      else False)"

record LFU =
  lfu_timestamp :: u64
  lfu_bestCandidate :: "nat option"
  lfu_array :: "LFUInfo list"
  lfu_bestRank :: Rank

definition lfu_new :: "nat \<Rightarrow> LFU" where
  "lfu_new numLines =
     \<lparr>lfu_timestamp = 1, lfu_bestCandidate = None, lfu_array = replicate numLines \<lparr>lfu_ts = 0, lfu_acc = 0\<rparr>,
      lfu_bestRank = rank_reset\<rparr>"

definition lfu_update :: "nat \<Rightarrow> MemReq \<Rightarrow> LFU \<Rightarrow> LFU" where
  "lfu_update i req p =
     (let e = lfu_array p ! i
      in p\<lparr>lfu_array := (lfu_array p)[i :=
              \<lparr>lfu_ts = (lfu_acc e * lfu_ts e + lfu_timestamp p) div (lfu_acc e + 1), lfu_acc = lfu_acc e + 1\<rparr>],
           lfu_timestamp := lfu_timestamp p + 1000\<rparr>)"

definition lfu_recordCandidate :: "cc_view \<Rightarrow> nat \<Rightarrow> LFU \<Rightarrow> LFU res" where
  "lfu_recordCandidate cc i p =
     (let candRank = \<lparr>lfuInfo = lfu_array p ! i, rk_sharers = cc_numSharers cc i, rk_valid = cc_isValid cc i\<rparr>
      in if lfu_bestCandidate p = None \<or> lessThan candRank (lfu_bestRank p) (lfu_timestamp p)
         then Inr (p\<lparr>lfu_bestRank := candRank, lfu_bestCandidate := Some i\<rparr>)
         else Inr p)"

definition lfu_getBestCandidate :: "LFU \<Rightarrow> (nat \<times> LFU) res" where
  "lfu_getBestCandidate p =
     (case lfu_bestCandidate p of None \<Rightarrow> Inl (AssertFail ''bestCandidate != -1'') | Some b \<Rightarrow> Inr (b, p))"

definition lfu_replaced :: "nat \<Rightarrow> LFU \<Rightarrow> LFU" where
  "lfu_replaced i p =
     p\<lparr>lfu_bestCandidate := None, lfu_bestRank := rank_reset,
       lfu_array := (lfu_array p)[i := (lfu_array p ! i)\<lparr>lfu_acc := 0\<rparr>]\<rparr>"

section \<open>Profiling of access order violations\<close>

text \<open>
  \<open>ProfViolReplPolicy\<close> over LRU, the only policy it is used with. LRU has no \<open>startReplacement\<close>
  to call and its \<open>rank\<close> does not call one, so \<open>replCycle\<close> keeps its initial value.
\<close>

record AccTimes =
  at_read :: nat
  at_write :: nat

record ViolCounters =
  profRAW :: nat
  profWAR :: nat
  profRAR :: nat
  profWAW :: nat
  profNoViolAcc :: nat
  profAAE :: nat
  profNoViolEv :: nat

record ProfViol =
  pv_base :: LRU
  accTimes :: "AccTimes list"
  viol :: ViolCounters
  replCycle :: nat

definition pv_init :: "nat \<Rightarrow> ProfViol" where
  "pv_init numLines =
     \<lparr>pv_base = lru_new numLines, accTimes = replicate numLines \<lparr>at_read = 0, at_write = 0\<rparr>,
      viol = \<lparr>profRAW = 0, profWAR = 0, profRAR = 0, profWAW = 0, profNoViolAcc = 0, profAAE = 0,
               profNoViolEv = 0\<rparr>,
      replCycle = 0\<rparr>"

definition read_viol :: "nat \<Rightarrow> AccTimes \<Rightarrow> bool res" where
  "read_viol c a =
     (if c < min (at_read a) (at_write a) then Inr (at_read a < at_write a)
      else if c < at_read a then Inr True
      else require (c < at_write a) (AssertFail ''cycle < accTimes[id].write'') (Inr False))"

definition count_viol :: "bool \<Rightarrow> bool \<Rightarrow> ViolCounters \<Rightarrow> ViolCounters" where
  "count_viol rd readViol v =
     (if rd then (if readViol then v\<lparr>profRAR := profRAR v + 1\<rparr> else v\<lparr>profRAW := profRAW v + 1\<rparr>)
      else (if readViol then v\<lparr>profWAR := profWAR v + 1\<rparr> else v\<lparr>profWAW := profWAW v + 1\<rparr>))"

definition pv_update :: "nat \<Rightarrow> MemReq \<Rightarrow> ProfViol \<Rightarrow> ProfViol res" where
  "pv_update i req p =
     (let b1 = lru_update i req (pv_base p);
          rd = (req_type req = GETS);
          a = accTimes p ! i;
          a' = (if rd then a\<lparr>at_read := max (at_read a) (cycle req)\<rparr>
                else a\<lparr>at_write := max (at_write a) (cycle req)\<rparr>)
      in require (rd \<or> req_type req = GETX) (AssertFail ''read || type == GETX'')
           (bindR (if cycle req < max (at_read a) (at_write a)
                   then bindR (read_viol (cycle req) a) (\<lambda>rv. Inr (count_viol rd rv (viol p)))
                   else Inr ((viol p)\<lparr>profNoViolAcc := profNoViolAcc (viol p) + 1\<rparr>))
              (\<lambda>v. Inr (p\<lparr>pv_base := lru_update i req b1, accTimes := (accTimes p)[i := a'], viol := v\<rparr>))))"

definition pv_replaced :: "nat \<Rightarrow> ProfViol \<Rightarrow> ProfViol" where
  "pv_replaced i p =
     (let a = accTimes p ! i; v = viol p
      in p\<lparr>pv_base := lru_replaced i (pv_base p),
           viol := (if replCycle p < max (at_read a) (at_write a)
                    then v\<lparr>profAAE := profAAE v + 1\<rparr> else v\<lparr>profNoViolEv := profNoViolEv v + 1\<rparr>),
           accTimes := (accTimes p)[i := \<lparr>at_read = 0, at_write = 0\<rparr>]\<rparr>)"

section \<open>The MN4 policies keep ages within 3\<close>

definition ages_ok :: "nat \<Rightarrow> nat list \<Rightarrow> bool" where
  "ages_ok n age \<longleftrightarrow> length age = n \<and> (\<forall>i<n. age ! i \<le> 3)"

lemma ages_ok_upd [simp]: "ages_ok n age \<Longrightarrow> v \<le> 3 \<Longrightarrow> ages_ok n (age[i := v])"
  by (auto simp: ages_ok_def nth_upd)

lemma ages_ok_new [simp]: "ages_ok n (replicate n 3)"
  by (simp add: ages_ok_def)

lemma age_all_length [simp]: "length (age_all cs d age) = length age"
  by (induction cs d age rule: age_all.induct) auto

lemma age_all_nth:
  "distinct cs \<Longrightarrow> set cs \<subseteq> {..<length age} \<Longrightarrow>
   age_all cs d age ! i = (if i \<in> set cs then age ! i + d else age ! i)"
  by (induction cs d age rule: age_all.induct) (auto simp: nth_list_update)

text \<open>What both policies do once the victim has the new age: age the set until one line has age 3.\<close>

lemma age_all_ok:
  assumes "ages_ok n age" "distinct cs" "set cs \<subseteq> {..<n}" "\<forall>c\<in>set cs. age ! c \<le> m" "m \<le> 3"
  shows "ages_ok n (age_all cs (3 - m) age)"
proof -
  have "age_all cs (3 - m) age ! i \<le> 3" if "i < n" for i
  proof (cases "i \<in> set cs")
    case True
    with assms(4) have "age ! i \<le> m" by blast
    then have "age ! i + (3 - m) \<le> 3" using assms(5) by linarith
    with True assms show ?thesis by (simp add: age_all_nth ages_ok_def)
  next
    case False
    with assms that show ?thesis by (simp add: age_all_nth ages_ok_def)
  qed
  with assms(1) show ?thesis by (simp add: ages_ok_def)
qed

lemma age_all_has_3:
  assumes "length age = n" "distinct cs" "set cs \<subseteq> {..<n}" "c \<in> set cs" "age ! c = m" "m \<le> 3"
  shows "age_all cs (3 - m) age ! c = 3"
  using assms by (simp add: age_all_nth)

definition max_age :: "nat list \<Rightarrow> nat list \<Rightarrow> nat" where
  "max_age cs age = Max ((!) age ` set cs)"

definition settle :: "nat list \<Rightarrow> nat list \<Rightarrow> nat list" where
  "settle cs age = (if \<forall>c\<in>set cs. age ! c \<noteq> 3 then age_all cs (3 - max_age cs age) age else age)"

lemma max_age_ge: "c \<in> set cs \<Longrightarrow> age ! c \<le> max_age cs age"
  by (simp add: max_age_def)

lemma max_age_in: "cs \<noteq> [] \<Longrightarrow> \<exists>c\<in>set cs. age ! c = max_age cs age"
  unfolding max_age_def using Max_in [of "(!) age ` set cs"] by fastforce

lemma max_age_le: "ages_ok n age \<Longrightarrow> set cs \<subseteq> {..<n} \<Longrightarrow> cs \<noteq> [] \<Longrightarrow> max_age cs age \<le> 3"
  using max_age_in [of cs age] by (auto simp: ages_ok_def)

subsection \<open>MN4 LLC\<close>

lemma llc_find_eq:
  "ages_ok n age \<Longrightarrow> set cs \<subseteq> {..<n} \<Longrightarrow>
   llc_find cs best age =
     (case find (\<lambda>c. age ! c = 3) cs of Some c \<Rightarrow> (c, age[c := 0]) | None \<Rightarrow> (best, age))"
  by (induction cs best age rule: llc_find.induct) (auto simp: ages_ok_def Let_def)

lemma llc_scan_eq:
  "ages_ok n age \<Longrightarrow> set cs \<subseteq> {..<n} \<Longrightarrow>
   llc_scan cs m u age =
     Inr (fold (\<lambda>c m. max m (age ! c)) cs m, u \<and> (\<forall>c\<in>set cs. age ! c \<noteq> 3), age)"
  by (induction cs m u age rule: llc_scan.induct) (auto simp: ages_ok_def Let_def)

lemma fold_max: "fold (\<lambda>c m. max m (f c :: nat)) cs m = Max (insert m (f ` set cs))"
proof (induction cs arbitrary: m)
  case (Cons c cs)
  have "Max (insert (max m (f c)) X) = Max (insert m (insert (f c) X))" if "finite X" for X
    using that by (cases "X = {}") (simp_all add: max.assoc)
  with Cons show ?case by simp
qed simp

lemma fold_max_age:
  "fold (\<lambda>c m. max m (age ! c :: nat)) cs m = Max (insert m ((!) age ` set cs))"
  by (rule fold_max)

lemma fold_max_age_0: "cs \<noteq> [] \<Longrightarrow> fold (\<lambda>c m. max m (age ! c :: nat)) cs 0 = max_age cs age"
  by (simp add: fold_max_age max_age_def)

definition llc_victim :: "nat list \<Rightarrow> nat list \<Rightarrow> nat" where
  "llc_victim cs age = (case find (\<lambda>c. age ! c = 3) cs of Some c \<Rightarrow> c | None \<Rightarrow> hd cs)"

lemma llc_victim_in: "cs \<noteq> [] \<Longrightarrow> llc_victim cs age \<in> set cs"
  by (auto simp: llc_victim_def find_Some_iff split: option.splits)

lemma llc_rank_eq:
  assumes "ages_ok n (llc_age p)" "cs \<noteq> []" "set cs \<subseteq> {..<n}"
  shows "llc_rank cc req cs p =
    (let b = llc_victim cs (llc_age p); age = (llc_age p)[b := 1]
     in Inr (b, p\<lparr>llc_age := settle cs age\<rparr>))"
proof -
  let ?b = "llc_victim cs (llc_age p)"
  have "(snd (llc_find cs (hd cs) (llc_age p)))[?b := 1] = (llc_age p)[?b := 1]"
       "fst (llc_find cs (hd cs) (llc_age p)) = ?b"
    unfolding llc_find_eq [OF assms(1,3)] by (auto simp: llc_victim_def split: option.splits)
  moreover have "ages_ok n ((llc_age p)[?b := 1])" using assms(1) by simp
  ultimately show ?thesis
    using assms(2,3)
    by (simp add: llc_rank_def Let_def split_beta llc_scan_eq fold_max_age_0 settle_def)
qed

lemma aged_ok:
  assumes "ages_ok n age" "cs \<noteq> []" "distinct cs" "set cs \<subseteq> {..<n}"
  shows "ages_ok n (settle cs age)" "\<exists>c\<in>set cs. settle cs age ! c = 3"
    "\<And>i. i \<notin> set cs \<Longrightarrow> settle cs age ! i = age ! i"
proof -
  have len: "length age = n" using assms(1) by (simp add: ages_ok_def)
  note le = max_age_le [OF assms(1,4,2)]
  show "ages_ok n (settle cs age)"
    unfolding settle_def using assms(1) age_all_ok [OF assms(1,3,4) _ le] by (auto simp: max_age_ge)
  show "\<exists>c\<in>set cs. settle cs age ! c = 3"
    using max_age_in [OF assms(2), of age] age_all_has_3 [OF len assms(3,4) _ _ le]
    unfolding settle_def by auto
  show "settle cs age ! i = age ! i" if "i \<notin> set cs" for i
    using that len assms(3,4) by (simp add: settle_def age_all_nth)
qed

interpretation llc: repl_policy n distinct "\<lambda>p. ages_ok n (llc_age p)" "\<lambda>p. ages_ok n (llc_age p)"
  llc_update llc_replaced llc_rank
proof
  fix p :: MN4LLC and i req cc cands
  show "ages_ok n (llc_age p) \<Longrightarrow> i < n \<Longrightarrow> ages_ok n (llc_age (llc_update i req p))"
    by (auto simp: llc_update_def Let_def)
  show "ages_ok n (llc_age p) \<Longrightarrow> i < n \<Longrightarrow> ages_ok n (llc_age (llc_update i req (llc_replaced i p)))"
    by (auto simp: llc_update_def llc_replaced_def Let_def ages_ok_def nth_list_update)
  assume a: "ages_ok n (llc_age p)" "distinct cands" "cands \<noteq> []" "set cands \<subseteq> {..<n}"
  then have "ages_ok n ((llc_age p)[llc_victim cands (llc_age p) := 1])" by simp
  from aged_ok(1) [OF this a(3,2,4)] a
  show "succeeds (llc_rank cc req cands p) (\<lambda>(b, r'). b \<in> set cands \<and> ages_ok n (llc_age r'))"
    by (simp add: llc_rank_eq Let_def llc_victim_in)
qed

subsection \<open>MN4 L2\<close>

lemma l2_find_eq:
  "l2_find cs b l age =
     (case find (\<lambda>c. age ! c = 3) (rev cs) of Some c \<Rightarrow> Some c | None \<Rightarrow> b,
      if cs = [] then l else Some (last cs))"
  by (induction cs b l age rule: l2_find.induct)
    (auto simp: find_append split: option.splits)

definition l2_victim :: "nat list \<Rightarrow> nat list \<Rightarrow> nat" where
  "l2_victim cs age = (case find (\<lambda>c. age ! c = 3) (rev cs) of Some c \<Rightarrow> c | None \<Rightarrow> last cs)"

lemma find_in_set: "find P xs = Some x \<Longrightarrow> x \<in> set xs \<and> P x"
  by (auto simp: find_Some_iff)

lemma l2_victim_in: "cs \<noteq> [] \<Longrightarrow> l2_victim cs age \<in> set cs"
  by (auto simp: l2_victim_def dest!: find_in_set split: option.splits)

lemma l2_scan_eq:
  "ages_ok n age \<Longrightarrow> set cs \<subseteq> {..<n} \<Longrightarrow>
   l2_scan cs m u age =
     Inr (fold (\<lambda>c m. max m (age ! c)) cs m, u \<and> (\<forall>c\<in>set cs. age ! c \<noteq> 3))"
  by (induction cs m u age rule: l2_scan.induct) (auto simp: ages_ok_def)

lemma l2_rank_eq:
  assumes "ages_ok n (l2_age p)" "cs \<noteq> []" "set cs \<subseteq> {..<n}"
  shows "l2_rank cc req cs p =
    (let b = l2_victim cs (l2_age p); age = (l2_age p)[b := 0]
     in Inr (b, p\<lparr>l2_age := settle cs age\<rparr>))"
proof -
  let ?b = "l2_victim cs (l2_age p)"
  have b: "(case fst (l2_find cs None None (l2_age p)) of
      None \<Rightarrow> snd (l2_find cs None None (l2_age p)) | Some b \<Rightarrow> Some b) = Some ?b"
    unfolding l2_find_eq l2_victim_def using assms(2) by (simp split: option.splits)
  have "ages_ok n ((l2_age p)[?b := 0])" using assms(1) by simp
  with assms(2,3) b show ?thesis
    by (simp add: l2_rank_def Let_def split_beta l2_scan_eq fold_max_age_0 settle_def)
qed

interpretation l2: repl_policy n distinct "\<lambda>p. ages_ok n (l2_age p)" "\<lambda>p. ages_ok n (l2_age p)"
  l2_update l2_replaced l2_rank
proof
  fix p :: MN4L2 and i req cc cands
  show "ages_ok n (l2_age p) \<Longrightarrow> i < n \<Longrightarrow> ages_ok n (l2_age (l2_update i req p))"
    by (auto simp: l2_update_def)
  show "ages_ok n (l2_age p) \<Longrightarrow> i < n \<Longrightarrow> ages_ok n (l2_age (l2_update i req (l2_replaced i p)))"
    by (auto simp: l2_update_def l2_replaced_def ages_ok_def nth_upd)
  assume a: "ages_ok n (l2_age p)" "distinct cands" "cands \<noteq> []" "set cands \<subseteq> {..<n}"
  then have "ages_ok n ((l2_age p)[l2_victim cands (l2_age p) := 0])" by simp
  from aged_ok(1) [OF this a(3,2,4)] a
  show "succeeds (l2_rank cc req cands p) (\<lambda>(b, r'). b \<in> set cands \<and> ages_ok n (l2_age r'))"
    by (simp add: l2_rank_eq Let_def l2_victim_in)
qed

text \<open>
  After an insertion the new line has age 1 and another candidate has age 3, so the next
  replacement in the set finds a line of age 3.
\<close>

lemma l2_install:
  assumes "ages_ok n (l2_age p)" "distinct cs" "set cs \<subseteq> {..<n}" "2 \<le> length cs"
    and "l2_rank cc req cs p = Inr (b, p1)"
  shows "b = l2_victim cs (l2_age p)"
    "l2_age (l2_update b req (l2_replaced b p1)) ! b = 1"
    "\<exists>c\<in>set cs. c \<noteq> b \<and> l2_age (l2_update b req (l2_replaced b p1)) ! c = 3"
proof -
  have ne: "cs \<noteq> []" using assms(4) by auto
  let ?age = "(l2_age p)[b := 0]"
  from assms(5) l2_rank_eq [OF assms(1) ne assms(3), of cc req]
  show b: "b = l2_victim cs (l2_age p)" by (simp add: Let_def)
  from assms(5) l2_rank_eq [OF assms(1) ne assms(3), of cc req] b
  have p1: "l2_age p1 = settle cs ?age" by (auto simp: Let_def)
  have bin: "b \<in> set cs" "b < n" using b l2_victim_in [OF ne] assms(3) by auto
  have ok: "ages_ok n ?age" using assms(1) by simp
  then have len: "length ?age = n" "?age ! b = 0" using bin by (auto simp: ages_ok_def)
  have "length (settle cs ?age) = n"
    using aged_ok(1) [OF ok ne assms(2,3)] by (simp add: ages_ok_def)
  then show "l2_age (l2_update b req (l2_replaced b p1)) ! b = 1"
    using bin p1 by (simp add: l2_update_def l2_replaced_def)
  from aged_ok(2) [OF ok ne assms(2,3)] obtain c where c: "c \<in> set cs" "settle cs ?age ! c = 3"
    by blast
  have "\<exists>c\<in>set cs. c \<noteq> b \<and> settle cs ?age ! c = 3"
  proof (cases "c = b")
    case False
    with c show ?thesis by blast
  next
    case True
    with c(2) len(2) have all: "settle cs ?age = age_all cs (3 - max_age cs ?age) ?age"
      by (auto simp: settle_def split: if_splits)
    note le = max_age_le [OF ok assms(3) ne]
    from assms(2,4) have "card (set cs) \<ge> 2" by (simp add: distinct_card)
    with bin(1) obtain d where d: "d \<in> set cs" "d \<noteq> b"
      by (metis card_le_Suc0_iff_eq List.finite_set not_less_eq_eq numeral_2_eq_2)
    have "settle cs ?age ! b = ?age ! b + (3 - max_age cs ?age)"
      unfolding all using age_all_nth [OF assms(2), of ?age] len(1) assms(3) bin(1) by simp
    then have "max_age cs ?age = 0" using True c(2) len(2) le by simp
    with max_age_ge [OF d(1), of ?age] have "?age ! d = max_age cs ?age" by simp
    from age_all_has_3 [OF len(1) assms(2,3) d(1) this le] d show ?thesis
      unfolding all by blast
  qed
  then show "\<exists>c\<in>set cs. c \<noteq> b \<and> l2_age (l2_update b req (l2_replaced b p1)) ! c = 3"
    using p1 by (auto simp: l2_update_def l2_replaced_def nth_upd)
qed

section \<open>LRU evicts the least recently used line\<close>

lemma lru_loop_best:
  "(lru_loop sa cc p cs b bs = b \<and> (\<forall>c\<in>set cs. bs \<le> lru_score sa cc p c mod 2 ^ 32)) \<or>
   (lru_loop sa cc p cs b bs \<in> set cs \<and>
    lru_score sa cc p (lru_loop sa cc p cs b bs) mod 2 ^ 32 < bs \<and>
    (\<forall>c\<in>set cs. lru_score sa cc p (lru_loop sa cc p cs b bs) mod 2 ^ 32
                 \<le> lru_score sa cc p c mod 2 ^ 32))"
proof (induction cs arbitrary: b bs)
  case (Cons c cs)
  show ?case
    using Cons.IH [of c "lru_score sa cc p c mod 2 ^ 32"] Cons.IH [of b bs]
    by (cases "lru_score sa cc p c mod 2 ^ 32 < bs") (auto simp: Let_def min_def)
qed simp

lemma lru_rank_min:
  assumes "cs \<noteq> []"
  shows "\<exists>b\<in>set cs. lru_rank sa cc req cs p = Inr (b, p) \<and>
    (\<forall>c\<in>set cs. lru_score sa cc p b mod 2 ^ 32 \<le> lru_score sa cc p c mod 2 ^ 32)"
proof -
  let ?b = "lru_loop sa cc p cs (2 ^ 32 - 1) (2 ^ 64 - 1)"
  have "lru_score sa cc p c mod 2 ^ 32 < 2 ^ 64 - 1" for c
    by (rule order.strict_trans [of _ "2 ^ 32"]) simp_all
  with assms have "\<not> (\<forall>c\<in>set cs. 2 ^ 64 - 1 \<le> lru_score sa cc p c mod 2 ^ 32)"
    using not_le by (metis ex_in_conv set_empty)
  with lru_loop_best [of sa cc p cs "2 ^ 32 - 1" "2 ^ 64 - 1"] show ?thesis
    unfolding lru_rank_def by blast
qed

interpretation lru: repl_policy n "\<lambda>_. True" "\<lambda>p. length (lru_array p) = n" "\<lambda>p. length (lru_array p) = n"
  lru_update lru_replaced "lru_rank sa"
proof
  fix p :: LRU and i req cc and cands :: "nat list"
  show "length (lru_array p) = n \<Longrightarrow> i < n \<Longrightarrow> length (lru_array (lru_update i req p)) = n"
    "length (lru_array p) = n \<Longrightarrow> i < n \<Longrightarrow> length (lru_array (lru_update i req (lru_replaced i p))) = n"
    by (simp_all add: lru_update_def lru_replaced_def)
  assume len: "length (lru_array p) = n" and ne: "cands \<noteq> []"
  from lru_rank_min [OF ne, of sa cc req p] len
  show "succeeds (lru_rank sa cc req cands p) (\<lambda>(b, r'). b \<in> set cands \<and> length (lru_array r') = n)"
    by auto
qed

text \<open>A history of hits on a new policy, and when a line was last used in it.\<close>

definition lru_after :: "nat \<Rightarrow> (nat \<times> MemReq) list \<Rightarrow> LRU" where
  "lru_after n h = fold (\<lambda>(i, req). lru_update i req) h (lru_new n)"

definition last_use :: "(nat \<times> MemReq) list \<Rightarrow> nat \<Rightarrow> nat" where
  "last_use h i = length (dropWhile (\<lambda>(j, req). j \<noteq> i) (rev h))"

lemma lru_after_snoc: "lru_after n (h @ [(i, req)]) = lru_update i req (lru_after n h)"
  by (simp add: lru_after_def)

lemma lru_after_state:
  "lru_timestamp (lru_after n h) = length h + 1 \<and> length (lru_array (lru_after n h)) = n \<and>
   (\<forall>i<n. lru_array (lru_after n h) ! i = last_use h i)"
proof (induction h rule: rev_induct)
  case Nil
  then show ?case by (simp add: lru_after_def lru_new_def last_use_def)
next
  case (snoc x h)
  obtain i req where x: "x = (i, req)" by (cases x)
  from snoc show ?case
    unfolding x lru_after_snoc by (auto simp: lru_update_def nth_upd last_use_def)
qed

lemma last_use_le: "last_use h i \<le> length h"
  using length_dropWhile_le [of _ "rev h"] by (simp add: last_use_def)

lemma less_trans_64: "v < (2 :: nat) ^ 32 \<Longrightarrow> v < 2 ^ 64"
  by (rule less_trans [of _ "2 ^ 32"]) simp_all

lemma lru_score_history:
  assumes "i < n" "cc_numSharers cc i * (length h + 1) + length h < 2 ^ 32"
  shows "lru_score sa cc (lru_after n h) i mod 2 ^ 32 =
    (if sa then cc_numSharers cc i else 0) * (length h + 1) + (if cc_isValid cc i then last_use h i else 0)"
proof -
  let ?v = "(if sa then cc_numSharers cc i else 0) * (length h + 1) + (if cc_isValid cc i then last_use h i else 0)"
  have lt: "?v < 2 ^ 32"
    using assms(2) last_use_le [of h i] by (auto simp del: mult_Suc_right add_Suc_right)
  have "lru_score sa cc (lru_after n h) i = ?v mod 2 ^ 64"
    using lru_after_state [of n h] assms(1) by (auto simp: lru_score_def)
  then show ?thesis using lt by (simp only: mod_less less_trans_64)
qed

text \<open>The order of eviction: first the lines with fewer sharers, then invalid and old lines.\<close>

lemma lru_order:
  assumes "s * (k + 1) + u \<le> s' * (k + 1) + u'" "u \<le> k" "u' \<le> (k :: nat)"
  shows "s < s' \<or> (s = s' \<and> u \<le> u')"
proof (cases "s' < s")
  case True
  then have "(s' + 1) * (k + 1) \<le> s * (k + 1)" by (intro mult_right_mono) auto
  with assms show ?thesis by (simp add: algebra_simps)
next
  case False
  with assms show ?thesis by (cases "s = s'") auto
qed

section \<open>NRU\<close>

definition nru_ok :: "nat \<Rightarrow> nat \<Rightarrow> NRU \<Rightarrow> bool" where
  "nru_ok n K p \<longleftrightarrow> length (nru_array p) = n \<and> (\<forall>i<n. nru_array p ! i \<le> 3) \<and>
     length (nru_candArray p) = K"

definition nru_inv :: "nat \<Rightarrow> nat \<Rightarrow> NRU \<Rightarrow> bool" where
  "nru_inv n K p \<longleftrightarrow> nru_ok n K p \<and> nru_candVal p = 2 ^ 20 \<and> nru_candIdx p = 0"

lemma le3_or2: "x \<le> (3 :: nat) \<Longrightarrow> x OR 2 \<le> 3"
proof -
  assume "x \<le> 3"
  then consider "x = 0" | "x = 1" | "x = 2" | "x = 3" by linarith
  then show ?thesis by cases simp_all
qed

lemma le3_drop: "x \<le> (3 :: nat) \<Longrightarrow> drop_bit 1 x \<le> 3"
  by (simp add: drop_bit_eq_div)

lemma nru_update_ok: "nru_ok n K p \<Longrightarrow> i < n \<Longrightarrow> nru_ok n K (nru_update i req p)"
proof -
  assume a: "nru_ok n K p" "i < n"
  let ?arr = "(nru_array p)[i := nru_array p ! i OR 2]"
  have arr: "length ?arr = n" "\<forall>j<n. ?arr ! j \<le> 3"
    using a by (auto simp: nru_ok_def nth_upd le3_or2)
  then have "\<forall>j<n. map (drop_bit 1) ?arr ! j \<le> 3" by (auto intro: le3_drop simp del: One_nat_def)
  with arr a(1) show ?thesis
    unfolding nru_ok_def nru_update_def Let_def by (auto simp del: One_nat_def)
qed

lemma nru_update_cands [simp]:
  "nru_candVal (nru_update i req p) = nru_candVal p" "nru_candIdx (nru_update i req p) = nru_candIdx p"
  by (simp_all add: nru_update_def Let_def)

text \<open>What \<open>recordCandidate\<close> has collected after the candidates \<open>done\<close>.\<close>

definition nru_cands :: "nat list \<Rightarrow> NRU \<Rightarrow> bool" where
  "nru_cands seen p \<longleftrightarrow> nru_candIdx p \<le> length seen \<and> (seen \<noteq> [] \<longrightarrow> 0 < nru_candIdx p) \<and>
     (seen = [] \<longrightarrow> nru_candVal p = 2 ^ 20) \<and>
     (\<forall>k<nru_candIdx p. nru_candArray p ! k \<in> set seen \<and>
        nru_array p ! (nru_candArray p ! k) = nru_candVal p) \<and>
     (\<forall>c\<in>set seen. nru_candVal p \<le> nru_array p ! c)"

lemma nru_record_ok:
  assumes "nru_ok n K p" "nru_cands seen p" "c < n" "length seen < K"
  shows "succeeds (nru_recordCandidate c p) (\<lambda>p'. nru_ok n K p' \<and> nru_cands (seen @ [c]) p' \<and>
           nru_array p' = nru_array p)"
proof -
  have "nru_array p ! c \<le> 3" using assms(1,3) by (simp add: nru_ok_def)
  then have lt: "seen = [] \<longrightarrow> nru_array p ! c < nru_candVal p"
    using assms(2) by (auto simp: nru_cands_def)
  consider "nru_array p ! c < nru_candVal p" | "nru_array p ! c = nru_candVal p" "seen \<noteq> []"
    | "nru_candVal p < nru_array p ! c" "seen \<noteq> []"
    using lt by linarith
  then show ?thesis
  proof cases
    case 1
    with assms show ?thesis
      by (auto simp: nru_recordCandidate_def nru_ok_def nru_cands_def)
  next
    case 2
    with assms show ?thesis
      by (auto simp: nru_recordCandidate_def nru_ok_def nru_cands_def nth_upd less_Suc_eq)
  next
    case 3
    with assms show ?thesis
      by (auto simp: nru_recordCandidate_def nru_ok_def nru_cands_def)
  qed
qed

lemma nru_record_all_ok:
  assumes "nru_ok n K p" "nru_cands seen p" "set cs \<subseteq> {..<n}" "length seen + length cs \<le> K"
  shows "succeeds (record_all nru_recordCandidate cs p) (\<lambda>p'. nru_ok n K p' \<and>
           nru_cands (seen @ cs) p' \<and> nru_array p' = nru_array p)"
  using assms
proof (induction cs arbitrary: p seen)
  case (Cons c cs)
  from Cons.prems nru_record_ok [of n K p seen c] obtain p1 where
    p1: "nru_recordCandidate c p = Inr p1" "nru_ok n K p1" "nru_cands (seen @ [c]) p1"
      "nru_array p1 = nru_array p"
    by (auto simp: succeeds_iff)
  from Cons.IH [OF p1(2,3)] Cons.prems p1 show ?case by simp
qed simp

lemma nru_rank_ok:
  assumes "nru_inv n K p" "cs \<noteq> []" "set cs \<subseteq> {..<n}" "length cs \<le> K"
  shows "succeeds (legacy_rank nru_recordCandidate nru_getBestCandidate cs p) (\<lambda>(b, p').
    b \<in> set cs \<and> nru_ok n K p' \<and> (\<forall>c\<in>set cs. nru_array p ! b \<le> nru_array p ! c))"
proof -
  from assms(1) have "nru_ok n K p" "nru_cands [] p" by (auto simp: nru_inv_def nru_cands_def)
  from nru_record_all_ok [OF this assms(3)] assms(4) obtain p1 where
    p1: "record_all nru_recordCandidate cs p = Inr p1" "nru_ok n K p1" "nru_cands cs p1"
      "nru_array p1 = nru_array p"
    by (auto simp: succeeds_iff)
  let ?k = "youngLines p1 mod nru_candIdx p1"
  from p1(3) assms(2) have pos: "0 < nru_candIdx p1" by (simp add: nru_cands_def)
  then have "?k < nru_candIdx p1" by simp
  with p1 pos show ?thesis
    by (auto simp: legacy_rank_def nru_getBestCandidate_def nru_cands_def)
qed

interpretation nru: repl_policy n "\<lambda>cs. length cs \<le> K" "nru_inv n K" "nru_ok n K"
  nru_update nru_replaced "\<lambda>cc req. legacy_rank nru_recordCandidate nru_getBestCandidate"
proof
  fix p i req cc cands
  show "nru_inv n K p \<Longrightarrow> i < n \<Longrightarrow> nru_inv n K (nru_update i req p)"
    by (simp add: nru_inv_def nru_update_ok)
  show "nru_ok n K p \<Longrightarrow> i < n \<Longrightarrow> nru_ok n K (nru_update i req p)"
    by (rule nru_update_ok)
  have "nru_ok n K p \<Longrightarrow> nru_ok n K (nru_replaced i p)"
    by (auto simp: nru_ok_def nru_replaced_def nth_upd)
  then show "nru_ok n K p \<Longrightarrow> i < n \<Longrightarrow> nru_inv n K (nru_update i req (nru_replaced i p))"
    by (simp add: nru_inv_def nru_update_ok) (simp add: nru_replaced_def)
  assume "nru_inv n K p" "length cands \<le> K" "cands \<noteq> []" "set cands \<subseteq> {..<n}"
  with nru_rank_ok [of n K p cands]
  show "succeeds (legacy_rank nru_recordCandidate nru_getBestCandidate cands p)
          (\<lambda>(b, r'). b \<in> set cands \<and> nru_ok n K r')"
    by (auto elim!: succeeds_mono)
qed

section \<open>LFU\<close>

lemma lfu_record_all:
  "succeeds (record_all (lfu_recordCandidate cc) cs p) (\<lambda>p'. lfu_array p' = lfu_array p \<and>
     (\<exists>b. lfu_bestCandidate p' = b \<and> (b = lfu_bestCandidate p \<and> (cs \<noteq> [] \<longrightarrow> b \<noteq> None) \<or> b \<in> Some ` set cs)))"
proof (induction cs arbitrary: p)
  case (Cons c cs)
  from Cons.IH [of "p\<lparr>lfu_bestRank := \<lparr>lfuInfo = lfu_array p ! c, rk_sharers = cc_numSharers cc c,
      rk_valid = cc_isValid cc c\<rparr>, lfu_bestCandidate := Some c\<rparr>"] Cons.IH [of p]
  show ?case
    by (auto simp: lfu_recordCandidate_def Let_def elim!: succeeds_mono)
qed simp

definition lfu_inv :: "nat \<Rightarrow> LFU \<Rightarrow> bool" where
  "lfu_inv n p \<longleftrightarrow> length (lfu_array p) = n \<and> lfu_bestCandidate p = None"

interpretation lfu: repl_policy n "\<lambda>_. True" "lfu_inv n" "\<lambda>p. length (lfu_array p) = n"
  lfu_update lfu_replaced "\<lambda>cc req. legacy_rank (lfu_recordCandidate cc) lfu_getBestCandidate"
proof
  fix p i req cc and cands :: "nat list"
  show "lfu_inv n p \<Longrightarrow> i < n \<Longrightarrow> lfu_inv n (lfu_update i req p)"
    "length (lfu_array p) = n \<Longrightarrow> i < n \<Longrightarrow> length (lfu_array (lfu_update i req p)) = n"
    "length (lfu_array p) = n \<Longrightarrow> i < n \<Longrightarrow> lfu_inv n (lfu_update i req (lfu_replaced i p))"
    by (simp_all add: lfu_update_def lfu_inv_def lfu_replaced_def Let_def)
  assume "lfu_inv n p" "cands \<noteq> []"
  with lfu_record_all [of cc cands p]
  show "succeeds (legacy_rank (lfu_recordCandidate cc) lfu_getBestCandidate cands p)
          (\<lambda>(b, r'). b \<in> set cands \<and> length (lfu_array r') = n)"
    by (auto simp: legacy_rank_def lfu_inv_def lfu_getBestCandidate_def elim!: succeeds_mono)
qed

section \<open>Tree LRU\<close>

declare tl_search.simps [simp del]

lemma tl_newest_eq:
  "tl_newest p a b = Max (insert 0 ((\<lambda>i. lru_array p ! (tl_candArray p ! i)) ` {a..<b}))"
  by (simp add: tl_newest_def fold_max)

lemma tl_search_range: "start < stop \<Longrightarrow> start \<le> tl_search p start stop \<and> tl_search p start stop < stop"
proof (induction p start stop rule: tl_search.induct)
  case (1 p start stop)
  show ?case
  proof (cases "stop - start > 1")
    case False
    with 1(3) show ?thesis by (simp add: tl_search.simps)
  next
    case True
    let ?pivot = "start + (stop - start) div 2"
    from True have "start < ?pivot" "?pivot < stop" by linarith+
    with 1(1,2) True show ?thesis
      by (subst (1 2) tl_search.simps) (fastforce simp: Let_def)
  qed
qed

text \<open>The newest line of the range is never chosen, if it is strictly newer than every other.\<close>

lemma tl_search_not_newest:
  assumes "start < stop" "1 < stop - start" "start \<le> k" "k < stop"
    and "\<forall>i. start \<le> i \<and> i < stop \<and> i \<noteq> k \<longrightarrow>
          lru_array p ! (tl_candArray p ! i) < lru_array p ! (tl_candArray p ! k)"
  shows "tl_search p start stop \<noteq> k"
proof -
  let ?f = "\<lambda>i. lru_array p ! (tl_candArray p ! i)"
  let ?pivot = "start + (stop - start) div 2"
  from assms(2) have piv: "start < ?pivot" "?pivot < stop" by linarith+
  show ?thesis
  proof (cases "k < ?pivot")
    case True
    have "tl_newest p ?pivot stop < ?f k"
      using assms(5) True piv assms(3) by (auto simp: tl_newest_eq)
    moreover have "?f k \<le> tl_newest p start ?pivot" using True assms(3) by (simp add: tl_newest_eq)
    ultimately have "tl_search p start stop = tl_search p ?pivot stop"
      using assms(2) by (subst tl_search.simps) (simp add: Let_def)
    with tl_search_range [OF piv(2), of p] True show ?thesis by simp
  next
    case False
    have "?f k \<le> tl_newest p ?pivot stop" using False assms(4) by (simp add: tl_newest_eq)
    moreover have "tl_newest p start ?pivot \<le> ?f k"
      using assms(5) False piv by (auto simp: tl_newest_eq intro: less_imp_le)
    ultimately have "tl_search p start stop = tl_search p start ?pivot"
      using assms(2) by (subst tl_search.simps) (simp add: Let_def)
    with tl_search_range [OF piv(1), of p] False show ?thesis by simp
  qed
qed

section \<open>Violation profiling\<close>

lemma pv_update_replCycle: "pv_update i req p = Inr p' \<Longrightarrow> replCycle p' = replCycle p"
  by (auto simp: pv_update_def Let_def require_eq_Inr_iff bindR_eq_Inr_iff)

lemma pv_replaced_replCycle [simp]: "replCycle (pv_replaced i p) = replCycle p"
  by (simp add: pv_replaced_def Let_def)

lemma pv_update_ok:
  assumes "i < length (accTimes p)" "IsGet (req_type req)"
  shows "\<exists>p'. pv_update i req p = Inr p' \<and> replCycle p' = replCycle p \<and>
    length (accTimes p') = length (accTimes p) \<and>
    cycle req \<le> max (at_read (accTimes p' ! i)) (at_write (accTimes p' ! i)) \<and>
    lru_timestamp (pv_base p') = lru_timestamp (pv_base p) + 2"
proof -
  let ?a = "accTimes p ! i"
  have "\<exists>rv. read_viol (cycle req) ?a = Inr rv" if "cycle req < max (at_read ?a) (at_write ?a)"
    using that by (auto simp: read_viol_def require_def)
  with assms show ?thesis
    by (auto simp: pv_update_def Let_def IsGet_def lru_update_def)
qed

text \<open>The state after any sequence of \<open>update\<close> (\<open>Inl\<close>) and \<open>replaced\<close> (\<open>Inr\<close>) calls.\<close>

fun pv_run :: "(nat \<times> MemReq + nat) list \<Rightarrow> ProfViol \<Rightarrow> ProfViol res" where
  "pv_run [] p = Inr p"
| "pv_run (Inl (i, req) # evs) p = bindR (pv_update i req p) (pv_run evs)"
| "pv_run (Inr i # evs) p = pv_run evs (pv_replaced i p)"

lemma pv_run_replCycle: "pv_run evs p = Inr p' \<Longrightarrow> replCycle p' = replCycle p"
  by (induction evs p rule: pv_run.induct) (auto simp: bindR_eq_Inr_iff pv_update_replCycle)

lemma pv_run_length: "pv_run evs p = Inr p' \<Longrightarrow> length (accTimes p') = length (accTimes p)"
proof (induction evs p rule: pv_run.induct)
  case (2 i req evs p)
  then show ?case
    by (fastforce simp: bindR_eq_Inr_iff pv_update_def Let_def require_eq_Inr_iff)
qed (auto simp: pv_replaced_def Let_def)

section \<open>Properties\<close>

text \<open>
  C30: the MN4 LLC policy on ages within 3 fails no assertion; its victim is the leftmost
  candidate of age 3, or the leftmost one if there is none; it leaves the ages within 3 and
  some candidate of age 3, and touches no line that is not a candidate.
\<close>

theorem llc_rank_correct:
  assumes "ages_ok n (llc_age p)" "cs \<noteq> []" "distinct cs" "set cs \<subseteq> {..<n}"
  shows "\<exists>p'. llc_rank cc req cs p = Inr (llc_victim cs (llc_age p), p') \<and> ages_ok n (llc_age p') \<and>
    (\<exists>c\<in>set cs. llc_age p' ! c = 3) \<and> (\<forall>i. i \<notin> set cs \<longrightarrow> llc_age p' ! i = llc_age p ! i)"
proof -
  let ?b = "llc_victim cs (llc_age p)"
  have "ages_ok n ((llc_age p)[?b := 1])" using assms(1) by simp
  from aged_ok [OF this assms(2-4)] llc_victim_in [OF assms(2)] show ?thesis
    unfolding llc_rank_eq [OF assms(1,2,4)] Let_def by (fastforce simp: nth_upd)
qed

theorem llc_rank_correct_witness:
  "\<exists>p'. llc_rank \<lparr>cc_numSharers = (\<lambda>_. 0), cc_isValid = (\<lambda>_. True)\<rparr> sample_req [0, 1, 2] \<lparr>llc_age = [1, 0, 2]\<rparr>
     = Inr (0, p') \<and> ages_ok 3 (llc_age p')"
proof -
  have "ages_ok 3 (llc_age \<lparr>llc_age = [1, 0, 2]\<rparr>)"
    by (simp add: ages_ok_def less_Suc_eq numeral_3_eq_3)
  from llc_rank_correct [OF this, of "[0, 1, 2]"
      "\<lparr>cc_numSharers = (\<lambda>_. 0), cc_isValid = (\<lambda>_. True)\<rparr>" sample_req]
  show ?thesis by (auto simp: llc_victim_def)
qed

text \<open>
  When the MN4 L2 policy replaces a line of a set of at least two lines, the victim is the
  rightmost candidate of age 3 (or the rightmost one), the new line gets age 1, and another
  line of the set has age 3, so that the next replacement finds one.
\<close>

theorem l2_replacement_correct:
  assumes "ages_ok n (l2_age p)" "distinct cs" "set cs \<subseteq> {..<n}" "2 \<le> length cs"
    and "l2_rank cc req cs p = Inr (b, p1)"
  shows "b = l2_victim cs (l2_age p) \<and>
    (let age = l2_age (l2_update b req (l2_replaced b p1))
     in ages_ok n age \<and> age ! b = 1 \<and> (\<exists>c\<in>set cs. c \<noteq> b \<and> age ! c = 3))"
proof -
  from assms(4) have ne: "cs \<noteq> []" by auto
  from l2.rank_ok [OF assms(1-2) ne assms(3), of cc req] assms(5)
  have "b \<in> set cs" "ages_ok n (l2_age p1)" by auto
  with l2.install_inv [of n p1 b req] assms(3) l2_install [OF assms] show ?thesis
    by (auto simp: Let_def)
qed

theorem l2_replacement_correct_witness:
  "(let b = 1; p1 = \<lparr>l2_age = [3, 1, 3]\<rparr>;
        age = l2_age (l2_update b sample_req (l2_replaced b p1))
    in age ! b = 1 \<and> (\<exists>c\<in>set [0, 1]. c \<noteq> b \<and> age ! c = 3))"
proof -
  have ok: "ages_ok 3 (l2_age \<lparr>l2_age = [2, 3, 3]\<rparr>)"
    by (simp add: ages_ok_def less_Suc_eq numeral_3_eq_3)
  let ?cc = "\<lparr>cc_numSharers = (\<lambda>_. 0), cc_isValid = (\<lambda>_. True)\<rparr>"
  have run: "l2_rank ?cc sample_req [0, 1] \<lparr>l2_age = [2, 3, 3]\<rparr> = Inr (1, \<lparr>l2_age = [3, 1, 3]\<rparr>)"
    by (simp add: l2_rank_def)
  from l2_replacement_correct [OF ok _ _ _ run] show ?thesis
    unfolding Let_def by simp
qed



text \<open>
  C31: the scores of LRU are truncated to 32 bits: after \<open>2^32\<close> accesses there is a history after
  which the policy evicts the line used last and keeps one that was used only before it.
\<close>

theorem lru_truncation_evicts_newest:
  "\<exists>h. lru_rank False \<lparr>cc_numSharers = (\<lambda>_. 0), cc_isValid = (\<lambda>_. True)\<rparr> sample_req [1, 0] (lru_after 2 h)
         = Inr (0, lru_after 2 h) \<and> last_use h 1 < last_use h 0 \<and> last_use h 0 = length h"
proof -
  obtain N :: nat where N: "N = 2 ^ 32 - 1" by blast
  let ?h = "[(1, sample_req)] @ replicate N (0, sample_req)"
  have pos: "0 < N" by (simp add: N)
  have use: "last_use ?h 0 = N + 1" "last_use ?h 1 = 1"
    by (simp_all add: last_use_def dropWhile_replicate [OF pos])
  note st = lru_after_state [of 2 ?h]
  have "lru_array (lru_after 2 ?h) ! 0 = N + 1" "lru_array (lru_after 2 ?h) ! 1 = 1"
    using st use by auto
  moreover have "N + 1 = 2 ^ 32" by (simp add: N)
  ultimately have "lru_loop False \<lparr>cc_numSharers = (\<lambda>_. 0), cc_isValid = (\<lambda>_. True)\<rparr>
      (lru_after 2 ?h) [1, 0] (2 ^ 32 - 1) (2 ^ 64 - 1) = 0"
    by (simp add: lru_score_def)
  then show ?thesis using use pos by (intro exI [of _ ?h]) (simp add: lru_rank_def)
qed

text \<open>
  NRU fails no assertion and stays inside its candidate array; its victim is a candidate
  with the least reference value of all candidates.
\<close>

theorem nru_picks_least_recent_class:
  assumes "nru_inv n K p" "cs \<noteq> []" "set cs \<subseteq> {..<n}" "length cs \<le> K"
  shows "\<exists>b p'. legacy_rank nru_recordCandidate nru_getBestCandidate cs p = Inr (b, p') \<and>
    b \<in> set cs \<and> (\<forall>c\<in>set cs. nru_array p ! b \<le> nru_array p ! c) \<and>
    nru_inv n K (nru_update b req (nru_replaced b p'))"
proof -
  from nru_rank_ok [OF assms] obtain b p' where
    "legacy_rank nru_recordCandidate nru_getBestCandidate cs p = Inr (b, p')" "b \<in> set cs"
    "nru_ok n K p'" "\<forall>c\<in>set cs. nru_array p ! b \<le> nru_array p ! c"
    unfolding succeeds_iff by blast
  with nru.install_inv [of n K p' b req] assms(3) show ?thesis by auto
qed

theorem nru_picks_least_recent_class_witness:
  "\<exists>b p'. legacy_rank nru_recordCandidate nru_getBestCandidate [2, 0]
     (nru_update 2 sample_req (nru_new 8 4)) = Inr (b, p') \<and>
     nru_array (nru_update 2 sample_req (nru_new 8 4)) ! b \<le> nru_array (nru_update 2 sample_req (nru_new 8 4)) ! 0 \<and>
     nru_inv 8 4 (nru_update b sample_req (nru_replaced b p'))"
proof -
  have "nru_inv 8 4 (nru_new 8 4)" by (simp add: nru_inv_def nru_ok_def nru_new_def)
  from nru.update_inv [OF this, of 2 sample_req] have "nru_inv 8 4 (nru_update 2 sample_req (nru_new 8 4))" by simp
  from nru_picks_least_recent_class [OF this, of "[2, 0]" sample_req] show ?thesis by auto
qed

text \<open>
  The search of the tree LRU ends on one of the candidates, and never on the line that was
  used after all the others.
\<close>

theorem tree_search_spares_newest:
  assumes "1 < numCands" "k < numCands"
    and "\<forall>i<numCands. i \<noteq> k \<longrightarrow>
          lru_array p ! (tl_candArray p ! i) < lru_array p ! (tl_candArray p ! k)"
  shows "tl_search p 0 numCands < numCands \<and> tl_search p 0 numCands \<noteq> k"
  using tl_search_not_newest [of 0 numCands k p] tl_search_range [of 0 numCands p] assms by simp

theorem tree_search_spares_newest_witness:
  "tl_search \<lparr>lru_timestamp = 5, lru_array = [4, 1, 2, 3], tl_candArray = [0, 1, 2, 3],
              tl_numCands = 4, tl_candIdx = 4\<rparr> 0 4 \<noteq> 0"
  using tree_search_spares_newest [of 4 0 "\<lparr>lru_timestamp = 5, lru_array = [4, 1, 2, 3],
      tl_candArray = [0, 1, 2, 3], tl_numCands = 4, tl_candIdx = 4\<rparr>"]
  by (auto simp: less_Suc_eq numeral_eq_Suc)

text \<open>
  A tree LRU does not evict what its tree search finds: \<open>rankCands\<close> runs the plain LRU scan
  and gives line 1 for candidates whose tree search gives line 2.
\<close>

theorem tree_lru_ranks_as_plain_lru:
  "\<exists>p q. p = \<lparr>lru_timestamp = 5, lru_array = [4, 1, 2, 3], tl_candArray = [0, 0, 0, 0],
              tl_numCands = 4, tl_candIdx = 0\<rparr> \<and>
     tl_rankCands \<lparr>cc_numSharers = (\<lambda>_. 0), cc_isValid = (\<lambda>_. True)\<rparr> req [0, 1, 2, 3] p = Inr (1, p) \<and>
     record_all tl_recordCandidate [0, 1, 2, 3] p = Inr q \<and> tl_getBestCandidate q = Inr 2"
  by (simp add: tl_rankCands_def lru_rank_def lru_score_def LRU.truncate_def Let_def
      tl_recordCandidate_def tl_getBestCandidate_def tl_search.simps tl_newest_def upt_rec)

text \<open>
  The profiler counts an access after eviction for every line that was accessed at a cycle
  after 0 and is then evicted, whatever the cycle of the eviction: the cycle it compares with
  is never set.
\<close>

theorem profviol_counts_every_eviction:
  assumes "pv_run evs (pv_init n) = Inr p" "i < n" "IsGet (req_type req)" "0 < cycle req"
  shows "\<exists>p'. pv_update i req p = Inr p' \<and>
    profAAE (viol (pv_replaced i p')) = profAAE (viol p') + 1"
proof -
  have "replCycle p = 0" "length (accTimes p) = n"
    using pv_run_replCycle [OF assms(1)] pv_run_length [OF assms(1)] by (simp_all add: pv_init_def)
  with pv_update_ok [of i p req] assms(2-4) show ?thesis
    by (fastforce simp: pv_replaced_def Let_def)
qed

theorem profviol_counts_every_eviction_witness:
  "\<exists>p'. pv_update 0 \<lparr>lineAddr = 5, req_type = GETX, childId = 0, cycle = 7, initialState = I, srcId = 0,
                     flags = 0\<rparr> (pv_init 2) = Inr p' \<and>
     profAAE (viol (pv_replaced 0 p')) = profAAE (viol p') + 1"
  using profviol_counts_every_eviction [of "[]" 2 "pv_init 2" 0 "\<lparr>lineAddr = 5, req_type = GETX,
      childId = 0, cycle = 7, initialState = I, srcId = 0, flags = 0\<rparr>"]
  by simp

end
