(* ===== verification/Hash.thy ===== *)
theory Hash
  imports Memory_Hierarchy
begin

text \<open>
  The hash families of \<open>hash.cpp\<close> that cache arrays and banked caches index lines with: the
  identity, the H3 family and the Sandy Bridge slice hash. The SHA1 family is not modelled: it
  needs an external library, and panics without it.
\<close>

section \<open>Identity\<close>

definition id_hash :: "nat \<Rightarrow> u64 \<Rightarrow> u64" where
  "id_hash fid val = val"

section \<open>Sandy Bridge\<close>

definition h1_bits :: "nat list" where
  "h1_bits = [6,10,12,14,16,17,18,20,22,24,25,26,27,28,30,32,33,35,36]"

definition h2_bits :: "nat list" where
  "h2_bits = [7,11,13,15,17,19,20,21,22,23,24,26,28,29,31,33,34,35,37]"

definition h3_bits :: "nat list" where
  "h3_bits = [8,12,13,16,19,22,23,26,27,30,31,34,35,36,37]"

definition sb_parity :: "nat list \<Rightarrow> u64 \<Rightarrow> u64" where
  "sb_parity bs val = fold (\<lambda>b h. h XOR (drop_bit (b - 6) val AND 1)) bs 0"

definition sb_hash :: "nat \<Rightarrow> u64 \<Rightarrow> u64" where
  "sb_hash fid val =
     (let h1 = sb_parity h1_bits val;
          h2 = sb_parity h2_bits val;
          h3 = sb_parity h3_bits val;
          hash = (h1 OR push_bit 1 h2 OR push_bit 2 h3) AND 7;
          res = val AND 2047
      in res OR push_bit 11 hash)"

section \<open>H3\<close>

record H3Hash =
  numFuncs :: nat
  resShift :: nat
  hMatrix :: "u64 list"

text \<open>
  The constructor fills the matrix from a random generator, the argument \<open>randInt\<close> with state
  \<open>'g\<close>: 64 bits per word, each set when the random integer is even.
\<close>

fun h3_word :: "('g \<Rightarrow> u32 \<times> 'g) \<Rightarrow> nat \<Rightarrow> u64 \<Rightarrow> 'g \<Rightarrow> u64 \<times> 'g" where
  "h3_word randInt 0 val g = (val, g)"
| "h3_word randInt (Suc kk) val g =
     (let (r, g1) = randInt g;
          val1 = push_bit 1 val
      in h3_word randInt kk (if r mod 2 = 0 then val1 + 1 else val1) g1)"

fun h3_fill :: "('g \<Rightarrow> u32 \<times> 'g) \<Rightarrow> nat \<Rightarrow> 'g \<Rightarrow> u64 list \<times> 'g" where
  "h3_fill randInt 0 g = ([], g)"
| "h3_fill randInt (Suc k) g =
     (let (w, g1) = h3_word randInt 64 0 g;
          (ws, g2) = h3_fill randInt k g1
      in (w # ws, g2))"

definition h3_shift :: "nat \<Rightarrow> nat res" where
  "h3_shift outputBits =
     (if outputBits \<le> 8 then Inr 3
      else if outputBits \<le> 16 then Inr 2
      else if outputBits \<le> 32 then Inr 1
      else if outputBits \<le> 64 then Inr 0
      else Inl (Panicked ''more than 64 bits''))"

definition h3_new :: "('g \<Rightarrow> u32 \<times> 'g) \<Rightarrow> nat \<Rightarrow> nat \<Rightarrow> 'g \<Rightarrow> H3Hash res" where
  "h3_new randInt numFunctions outputBits g =
     bindR (h3_shift outputBits) (\<lambda>s.
       Inr \<lparr>numFuncs = numFunctions, resShift = s,
            hMatrix = fst (h3_fill randInt ((64 div 2 ^ s) * numFunctions) g)\<rparr>)"

definition rot64 :: "nat \<Rightarrow> u64 \<Rightarrow> u64" where
  "rot64 k w = push_bit k w OR drop_bit (64 - k) w"

text \<open>One round of the unrolled loop.\<close>

definition h3_round :: "u64 list \<Rightarrow> u64 \<Rightarrow> nat \<Rightarrow> u64 \<Rightarrow> u64" where
  "h3_round mat val base res =
     (let r = (\<lambda>j. val AND mat ! (base + j));
          res1 = res XOR (r 0 XOR rot64 1 (r 1) XOR rot64 2 (r 2) XOR rot64 3 (r 3));
          res2 = res1 XOR (rot64 4 (r 4) XOR rot64 5 (r 5) XOR rot64 6 (r 6) XOR rot64 7 (r 7))
      in rot64 8 res2)"

definition h3_fold :: "nat \<Rightarrow> u64 \<Rightarrow> u64" where
  "h3_fold s res =
     (let f32 = drop_bit 32 res XOR res;
          f16 = drop_bit 16 f32 XOR f32;
          f8 = drop_bit 8 f16 XOR f16
      in if s = 1 then f32 else if s = 2 then f16 else if s = 3 then f8 else res)"

definition h3_hash :: "H3Hash \<Rightarrow> nat \<Rightarrow> u64 \<Rightarrow> u64 res" where
  "h3_hash h fid val =
     require (fid < numFuncs h) (AssertFail ''id >= 0 && id < numFuncs'')
       (let v = drop_bit 11 val;
            maxBits = 64 div 2 ^ resShift h;
            res = fold (\<lambda>x. h3_round (hMatrix h) v (fid * 2 ^ (6 - resShift h) + x))
                    (map ((*) 8) [0..<maxBits div 8]) 0;
            res1 = h3_fold (resShift h) res
        in Inr (push_bit 11 (res1 AND 7) OR (val AND 2047)))"

section \<open>Linearity\<close>

text \<open>Every step of the hashes is linear over exclusive or.\<close>

named_theorems xor_linear \<open>functions that commute with exclusive or\<close>

lemma push_xor [xor_linear]: "push_bit k (a XOR b :: u64) = push_bit k a XOR push_bit k b"
  by (rule bit_eqI) (auto simp: bit_simps)

lemma drop_xor [xor_linear]: "drop_bit k (a XOR b :: u64) = drop_bit k a XOR drop_bit k b"
  by (rule bit_eqI) (auto simp: bit_simps)

lemma and_xor [xor_linear]: "(a XOR b) AND c = (a AND c) XOR (b AND c :: u64)"
  by (rule bit_eqI) (auto simp: bit_simps)

lemma and_xor2 [xor_linear]: "c AND (a XOR b) = (c AND a) XOR (c AND b :: u64)"
  by (rule bit_eqI) (auto simp: bit_simps)

lemma rot_xor [xor_linear]:
  "k \<le> 64 \<Longrightarrow> rot64 k (a XOR b) = rot64 k a XOR rot64 k b"
  unfolding rot64_def by (rule bit_eqI) (auto simp: bit_simps dest: bit_imp_le_length)

lemma h3_round_xor:
  "h3_round mat (a XOR b) base (u XOR v) = h3_round mat a base u XOR h3_round mat b base v"
  unfolding h3_round_def Let_def by (simp add: xor_linear ac_simps)

lemma h3_rounds_xor:
  "fold (\<lambda>x. h3_round mat (a XOR b) (f x)) xs (u XOR v) =
     fold (\<lambda>x. h3_round mat a (f x)) xs u XOR fold (\<lambda>x. h3_round mat b (f x)) xs v"
  by (induction xs arbitrary: u v) (simp_all add: h3_round_xor)

lemma h3_fold_xor: "h3_fold s (a XOR b) = h3_fold s a XOR h3_fold s b"
  unfolding h3_fold_def Let_def by (simp add: xor_linear ac_simps)

lemma sb_parity_xor: "sb_parity bs (a XOR b) = sb_parity bs a XOR sb_parity bs b"
proof -
  have "fold (\<lambda>i h. h XOR (drop_bit (i - 6) (a XOR b) AND 1)) bs (u XOR v) =
    fold (\<lambda>i h. h XOR (drop_bit (i - 6) a AND 1)) bs u XOR
    fold (\<lambda>i h. h XOR (drop_bit (i - 6) b AND 1)) bs v" for u v
  proof (induction bs arbitrary: u v)
    case (Cons i bs)
    have "(u XOR v) XOR (drop_bit (i - 6) (a XOR b) AND 1) =
      (u XOR (drop_bit (i - 6) a AND 1)) XOR (v XOR (drop_bit (i - 6) b AND 1))"
      by (simp add: xor_linear ac_simps)
    with Cons show ?case by simp
  qed simp
  from this [of 0 0] show ?thesis by (simp add: sb_parity_def)
qed

text \<open>Both hashes put three bits above the low eleven bits of the line.\<close>

definition slice_join :: "u64 \<Rightarrow> u64 \<Rightarrow> u64" where
  "slice_join h val = push_bit 11 (h AND 7) OR (val AND 2047)"

lemma mask_consts: "(7 :: u64) = mask 3" "(2047 :: u64) = mask 11"
  by (simp_all add: mask_eq_exp_minus_1)

lemma slice_join_xor: "slice_join (a XOR b) (u XOR v) = slice_join a u XOR slice_join b v"
  unfolding slice_join_def mask_consts by (rule bit_eqI) (auto simp: bit_simps)

lemma slice_join_low: "slice_join h val AND 2047 = val AND 2047"
  unfolding slice_join_def mask_consts by (rule bit_eqI) (auto simp: bit_simps)

lemma slice_join_bound: "slice_join h val < 2 ^ 14"
proof -
  have "slice_join h val = take_bit 14 (slice_join h val)"
    unfolding slice_join_def mask_consts by (rule bit_eqI) (auto simp: bit_simps)
  then have "unat (slice_join h val) = take_bit 14 (unat (slice_join h val))"
    by (metis unsigned_take_bit_eq)
  then have "unat (slice_join h val) < 2 ^ 14"
    by (metis take_bit_nat_less_exp)
  then show ?thesis by (simp add: word_less_nat_alt)
qed

lemma h3_hash_slice:
  "fid < numFuncs h \<Longrightarrow> \<exists>f. (\<forall>a b. f (a XOR b) = f a XOR f b) \<and>
     (\<forall>val. h3_hash h fid val = Inr (slice_join (f val) val))"
proof (intro exI conjI allI)
  let ?f = "\<lambda>val. h3_fold (resShift h) (fold (\<lambda>x. h3_round (hMatrix h) (drop_bit 11 val)
      (fid * 2 ^ (6 - resShift h) + x)) (map ((*) 8) [0..<64 div 2 ^ resShift h div 8]) 0)"
  show "?f (a XOR b) = ?f a XOR ?f b" for a b
    using h3_rounds_xor [of "hMatrix h" "drop_bit 11 a" "drop_bit 11 b"
        "\<lambda>x. fid * 2 ^ (6 - resShift h) + x" "map ((*) 8) [0..<64 div 2 ^ resShift h div 8]" 0 0]
    by (simp only: drop_xor h3_fold_xor xor.right_neutral)
  assume "fid < numFuncs h"
  then show "h3_hash h fid val = Inr (slice_join (?f val) val)" for val
    by (simp add: h3_hash_def slice_join_def Let_def)
qed

lemma sb_hash_slice:
  "\<exists>f. (\<forall>a b. f (a XOR b) = f a XOR f b) \<and> (\<forall>val. sb_hash fid val = slice_join (f val) val)"
proof (intro exI conjI allI)
  let ?f = "\<lambda>val. sb_parity h1_bits val XOR push_bit 1 (sb_parity h2_bits val) XOR
    push_bit 2 (sb_parity h3_bits val)"
  show "?f (a XOR b) = ?f a XOR ?f b" for a b
    by (simp add: sb_parity_xor xor_linear ac_simps)
  have par: "sb_parity bs val AND 1 = sb_parity bs val" for bs val
  proof -
    have "fold (\<lambda>i h. h XOR (drop_bit (i - 6) val AND 1)) bs u AND 1 =
      fold (\<lambda>i h. h XOR (drop_bit (i - 6) val AND 1)) bs (u AND 1)" for u
      by (induction bs arbitrary: u) (simp_all add: and_xor)
    from this [of 0] show ?thesis by (simp add: sb_parity_def)
  qed
  have bit: "sb_parity bs val = 0 \<or> sb_parity bs val = 1" for bs val
  proof -
    have "sb_parity bs val = sb_parity bs val mod 2" using par [of bs val] by (simp only: and_one_eq)
    then show ?thesis unfolding mod2_eq_if by (auto split: if_splits)
  qed
  have "sb_parity h1_bits val OR push_bit 1 (sb_parity h2_bits val) OR
      push_bit 2 (sb_parity h3_bits val) = ?f val" for val
    using bit [of h1_bits val] bit [of h2_bits val] bit [of h3_bits val] by (elim disjE) simp_all
  then show "sb_hash fid val = slice_join (?f val) val" for val
    by (simp only: sb_hash_def slice_join_def Let_def or.commute or.left_commute)
qed

section \<open>Properties\<close>

text \<open>
  An H3 function fails only for an index out of the family. The low eleven bits of the
  line are kept, three bits that are linear in the line over exclusive or go above them, and
  the result is below \<open>2^14\<close>, whatever number of output bits the family was built for.
\<close>

theorem h3_hash_linear_slice:
  assumes "fid < numFuncs h"
  shows "\<exists>hash. (\<forall>val. h3_hash h fid val = Inr (hash val)) \<and>
    (\<forall>a b. hash (a XOR b) = hash a XOR hash b) \<and>
    (\<forall>val. hash val AND 2047 = val AND 2047 \<and> hash val < 2 ^ 14)"
proof -
  from h3_hash_slice [OF assms] obtain f where
    f: "\<forall>a b. f (a XOR b) = f a XOR f b" "\<forall>val. h3_hash h fid val = Inr (slice_join (f val) val)"
    by blast
  show ?thesis
    by (rule exI [of _ "\<lambda>val. slice_join (f val) val"])
      (use f slice_join_xor slice_join_low slice_join_bound in auto)
qed

theorem h3_hash_linear_slice_witness:
  "\<exists>h hash. h3_new (\<lambda>g :: u32. (g, g + 1)) 2 64 0 = Inr h \<and> numFuncs h = 2 \<and>
     h3_hash h 1 (2 ^ 20) = Inr (hash (2 ^ 20 :: u64)) \<and> hash (2 ^ 20) < 2 ^ 14"
proof -
  obtain h where h: "h3_new (\<lambda>g :: u32. (g, g + 1)) 2 64 0 = Inr h" "numFuncs h = 2"
    by (simp add: h3_new_def h3_shift_def)
  with h3_hash_linear_slice [of 1 h] show ?thesis by auto
qed

text \<open>
  The Sandy Bridge hash keeps the low eleven bits of the line and puts above them the
  number of one of eight slices, linear in the line over exclusive or.
\<close>

theorem sb_hash_linear_slice:
  "sb_hash fid (a XOR b) = sb_hash fid a XOR sb_hash fid b \<and>
   sb_hash fid a AND 2047 = a AND 2047 \<and> sb_hash fid a < 2 ^ 14"
proof -
  from sb_hash_slice [of fid] obtain f where
    f: "\<forall>a b. f (a XOR b) = f a XOR f b" "\<forall>val. sb_hash fid val = slice_join (f val) val"
    by blast
  with slice_join_bound [of "f a" a] show ?thesis by (simp add: slice_join_xor slice_join_low)
qed

end
