(* ===== verification/Cache_Arrays.thy ===== *)
theory Cache_Arrays
  imports Repl_Policies Hash
begin

text \<open>
  The set-associative array of \<open>cache_arrays.cpp\<close>. An array maps line addresses to line ids;
  \<open>preinsert\<close> picks a victim and \<open>postinsert\<close> replaces it. The locale \<open>cache_array\<close> states what
  a cache relies on, through the partial map from line addresses to ids. The replacement
  policy and the hash function are arguments; address 0 marks an invalid line.
\<close>

section \<open>Replacement policies as arguments\<close>

record 'r repl_ops =
  rp_update :: "nat \<Rightarrow> MemReq \<Rightarrow> 'r \<Rightarrow> 'r"
  rp_replaced :: "nat \<Rightarrow> 'r \<Rightarrow> 'r"
  rp_rank :: "cc_view \<Rightarrow> MemReq \<Rightarrow> nat list \<Rightarrow> 'r \<Rightarrow> (nat \<times> 'r) res"

definition isPow2 :: "nat \<Rightarrow> bool" where
  "isPow2 v \<longleftrightarrow> v \<noteq> 0 \<and> v AND (v - 1) = 0"

section \<open>Set-associative array\<close>

record 'r SetAssocArray =
  sa_array :: "addr list"
  sa_rp :: 'r
  sa_numLines :: nat
  sa_numSets :: nat
  sa_assoc :: nat
  sa_setMask :: u32

definition sa_new :: "nat \<Rightarrow> nat \<Rightarrow> 'r \<Rightarrow> 'r SetAssocArray res" where
  "sa_new numLines assoc r =
     require (assoc \<noteq> 0) (Undefined ''numLines/assoc'')
       (let numSets = numLines div assoc
        in require (isPow2 numSets) (AssertFail ''must have a power of 2 # sets'')
             (Inr \<lparr>sa_array = replicate numLines 0, sa_rp = r, sa_numLines = numLines,
                    sa_numSets = numSets, sa_assoc = assoc, sa_setMask = of_nat numSets - 1\<rparr>))"

definition set_index :: "(nat \<Rightarrow> u64 \<Rightarrow> u64) \<Rightarrow> nat \<Rightarrow> u32 \<Rightarrow> addr \<Rightarrow> nat" where
  "set_index hash w setMask addr = unat (hash w addr AND ucast setMask)"

definition sa_first :: "(nat \<Rightarrow> u64 \<Rightarrow> u64) \<Rightarrow> 'r SetAssocArray \<Rightarrow> addr \<Rightarrow> nat" where
  "sa_first hash A addr = set_index hash 0 (sa_setMask A) addr * sa_assoc A"

definition sa_lookup ::
  "'r repl_ops \<Rightarrow> (nat \<Rightarrow> u64 \<Rightarrow> u64) \<Rightarrow> addr \<Rightarrow> MemReq \<Rightarrow> bool \<Rightarrow> 'r SetAssocArray
     \<Rightarrow> (nat option \<times> 'r SetAssocArray) res" where
  "sa_lookup rp hash addr req updateReplacement A =
     (let first = sa_first hash A addr
      in case find (\<lambda>i. sa_array A ! i = addr) [first..<first + sa_assoc A] of
           Some i \<Rightarrow> Inr (Some i, if updateReplacement then A\<lparr>sa_rp := rp_update rp i req (sa_rp A)\<rparr> else A)
         | None \<Rightarrow> Inr (None, A))"

definition sa_preinsert ::
  "'r repl_ops \<Rightarrow> (nat \<Rightarrow> u64 \<Rightarrow> u64) \<Rightarrow> cc_view \<Rightarrow> addr \<Rightarrow> MemReq \<Rightarrow> 'r SetAssocArray
     \<Rightarrow> (nat \<times> addr \<times> 'r SetAssocArray) res" where
  "sa_preinsert rp hash cc addr req A =
     (let first = sa_first hash A addr
      in bindR (rp_rank rp cc req [first..<first + sa_assoc A] (sa_rp A))
           (\<lambda>(candidate, r). Inr (candidate, sa_array A ! candidate, A\<lparr>sa_rp := r\<rparr>)))"

definition sa_postinsert ::
  "'r repl_ops \<Rightarrow> addr \<Rightarrow> MemReq \<Rightarrow> nat \<Rightarrow> 'r SetAssocArray \<Rightarrow> 'r SetAssocArray res" where
  "sa_postinsert rp addr req candidate A =
     Inr (A\<lparr>sa_array := (sa_array A)[candidate := addr],
           sa_rp := rp_update rp candidate req (rp_replaced rp candidate (sa_rp A))\<rparr>)"

section \<open>The interface of a cache array\<close>

locale cache_array =
  fixes n :: nat
    and inv :: "'a \<Rightarrow> bool"
    and pending :: "addr \<Rightarrow> nat \<Rightarrow> 'a \<Rightarrow> bool"
    and contents :: "'a \<Rightarrow> addr \<Rightarrow> nat option"
    and lookup :: "addr \<Rightarrow> MemReq \<Rightarrow> bool \<Rightarrow> 'a \<Rightarrow> (nat option \<times> 'a) res"
    and preinsert :: "cc_view \<Rightarrow> addr \<Rightarrow> MemReq \<Rightarrow> 'a \<Rightarrow> (nat \<times> addr \<times> 'a) res option"
    and postinsert :: "addr \<Rightarrow> MemReq \<Rightarrow> nat \<Rightarrow> 'a \<Rightarrow> 'a res"
  assumes contents_range: "inv A \<Longrightarrow> contents A a = Some i \<Longrightarrow> i < n \<and> a \<noteq> 0"
    and contents_inj: "inv A \<Longrightarrow> contents A a = Some i \<Longrightarrow> contents A b = Some i \<Longrightarrow> a = b"
    and lookup_ok: "inv A \<Longrightarrow> a \<noteq> 0 \<Longrightarrow>
      succeeds (lookup a req upd A) (\<lambda>(r, A'). r = contents A a \<and> inv A' \<and> contents A' = contents A)"
    and lookup_pending: "pending b c A \<Longrightarrow> a \<noteq> 0 \<Longrightarrow>
      succeeds (lookup a req upd A) (\<lambda>(r, A'). r = contents A a \<and> pending b c A' \<and> contents A' = contents A)"
    and preinsert_ok: "inv A \<Longrightarrow> a \<noteq> 0 \<Longrightarrow> contents A a = None \<Longrightarrow>
      \<exists>c wb A'. preinsert cc a req A = Some (Inr (c, wb, A')) \<and> c < n \<and> pending a c A' \<and>
        contents A' = contents A \<and> (\<forall>b. contents A b = Some c \<longleftrightarrow> b = wb \<and> wb \<noteq> 0)"
    and postinsert_ok: "pending a c A \<Longrightarrow>
      succeeds (postinsert a req c A) (\<lambda>A'. inv A' \<and>
        (\<forall>b. contents A' b = (if b = a then Some c else if contents A b = Some c then None else contents A b)))"
begin

text \<open>A fill: the line becomes present at the victim's id, and only the victim goes.\<close>

lemma fill_ok:
  assumes "inv A" "a \<noteq> 0" "contents A a = None"
  shows "\<exists>c wb A1 A2. preinsert cc a req A = Some (Inr (c, wb, A1)) \<and> postinsert a req c A1 = Inr A2 \<and>
    inv A2 \<and> c < n \<and> contents A2 a = Some c \<and> (wb \<noteq> 0 \<longrightarrow> contents A wb = Some c) \<and>
    (\<forall>b. b \<noteq> a \<longrightarrow> contents A2 b = (if b = wb then None else contents A b))"
proof -
  from preinsert_ok [OF assms, of cc req] obtain c wb A1 where
    pre: "preinsert cc a req A = Some (Inr (c, wb, A1))" "c < n" "pending a c A1"
      "contents A1 = contents A" "\<forall>b. contents A b = Some c \<longleftrightarrow> b = wb \<and> wb \<noteq> 0"
    by blast
  from postinsert_ok [OF pre(3), of req] obtain A2 where
    post: "postinsert a req c A1 = Inr A2" "inv A2"
      "\<forall>b. contents A2 b = (if b = a then Some c else if contents A1 b = Some c then None else contents A1 b)"
    by (auto simp: succeeds_iff)
  have "contents A 0 = None" using contents_range [OF assms(1), of 0] by (cases "contents A 0") auto
  with pre post show ?thesis by (intro exI [of _ c] exI [of _ wb] exI [of _ A1] exI [of _ A2]) auto
qed

end

section \<open>Arrays of distinct addresses\<close>

definition uniq :: "addr list \<Rightarrow> bool" where
  "uniq arr \<longleftrightarrow> (\<forall>i<length arr. \<forall>j<length arr. arr ! i \<noteq> 0 \<and> arr ! i = arr ! j \<longrightarrow> i = j)"

definition contents_of :: "addr list \<Rightarrow> addr \<Rightarrow> nat option" where
  "contents_of arr a = (if a = 0 then None else find (\<lambda>i. arr ! i = a) [0..<length arr])"

lemma find_upt_None_iff: "find P [a..<b] = None \<longleftrightarrow> (\<forall>i. a \<le> i \<and> i < b \<longrightarrow> \<not> P i)"
  by (auto simp: find_None_iff)

lemma find_upt_SomeD: "find P [a..<b] = Some i \<Longrightarrow> a \<le> i \<and> i < b \<and> P i"
  using find_in_set [of P "[a..<b]" i] by auto

lemma contents_of_Some_iff:
  "uniq arr \<Longrightarrow> contents_of arr a = Some i \<longleftrightarrow> a \<noteq> 0 \<and> i < length arr \<and> arr ! i = a"
proof
  assume u: "uniq arr" and r: "a \<noteq> 0 \<and> i < length arr \<and> arr ! i = a"
  then have "find (\<lambda>i. arr ! i = a) [0..<length arr] \<noteq> None"
    unfolding find_upt_None_iff by auto
  then obtain j where "find (\<lambda>i. arr ! i = a) [0..<length arr] = Some j" by blast
  with find_upt_SomeD [OF this] u r show "contents_of arr a = Some i"
    by (auto simp: contents_of_def uniq_def)
qed (auto simp: contents_of_def split: if_splits dest!: find_upt_SomeD)

lemma contents_of_None_iff:
  "a \<noteq> 0 \<Longrightarrow> contents_of arr a = None \<longleftrightarrow> a \<notin> set arr"
  by (auto simp: contents_of_def find_upt_None_iff in_set_conv_nth)

lemma uniqD: "uniq arr \<Longrightarrow> i < length arr \<Longrightarrow> j < length arr \<Longrightarrow> arr ! i \<noteq> 0 \<Longrightarrow> arr ! i = arr ! j \<Longrightarrow> i = j"
  unfolding uniq_def by blast

lemma uniq_upd:
  assumes "uniq arr" "a \<notin> set arr"
  shows "uniq (arr[i := a])"
  unfolding uniq_def
proof (intro allI impI, elim conjE)
  fix j k
  assume jk: "j < length (arr[i := a])" "k < length (arr[i := a])" "arr[i := a] ! j \<noteq> 0"
    "arr[i := a] ! j = arr[i := a] ! k"
  have "arr ! j \<noteq> a" "arr ! k \<noteq> a" using jk(1,2) assms(2) by (metis length_list_update nth_mem)+
  with jk show "j = k"
    by (cases "j = i"; cases "k = i") (simp_all add: nth_upd uniqD [OF assms(1)])
qed

lemma contents_of_upd:
  assumes "uniq arr" "a \<noteq> 0" "a \<notin> set arr" "c < length arr"
  shows "contents_of (arr[c := a]) b =
    (if b = a then Some c else if contents_of arr b = Some c then None else contents_of arr b)"
proof (rule option_ext)
  fix i
  have "arr ! i \<noteq> a" if "i < length arr" using that assms(3) by (metis nth_mem)
  then show "(contents_of (arr[c := a]) b = Some i) =
    ((if b = a then Some c else if contents_of arr b = Some c then None else contents_of arr b) = Some i)"
    using assms(2,4) contents_of_Some_iff [OF uniq_upd [OF assms(1,3)], of c b i]
      contents_of_Some_iff [OF assms(1), of b i] contents_of_Some_iff [OF assms(1), of b c]
    using uniqD [OF assms(1), of i c]
    by (cases "i = c"; cases "b = a") (auto simp: nth_upd)
qed

section \<open>Set indices\<close>

lemma isPow2_power: "isPow2 v \<Longrightarrow> \<exists>k. v = 2 ^ k"
proof (induction v rule: less_induct)
  case (less v)
  show ?case
  proof (cases "even v")
    case True
    then obtain m where m: "v = 2 * m" by blast
    with less.prems have "m \<noteq> 0" by (auto simp: isPow2_def)
    with m have "v - 1 = 2 * (m - 1) + 1" by simp
    then have "v AND (v - 1) = 2 * (m AND (m - 1))"
      unfolding m by (subst and_rec) simp
    with less.prems m \<open>m \<noteq> 0\<close> have "isPow2 m" by (simp add: isPow2_def)
    with less.IH [of m] m \<open>m \<noteq> 0\<close> obtain k where "m = 2 ^ k" by auto
    with m show ?thesis by (intro exI [of _ "Suc k"]) simp
  next
    case False
    then obtain m where m: "v = 2 * m + 1" by (blast elim: oddE)
    then have "v AND (v - 1) = 2 * (m AND m)" by (subst and_rec) simp
    with less.prems m have "m = 0" by (simp add: isPow2_def)
    with m show ?thesis by (intro exI [of _ 0]) simp
  qed
qed

lemma set_index_less:
  assumes "numSets = 2 ^ k" "k < 32"
  shows "set_index hash w (of_nat numSets - 1) a < numSets"
proof -
  have "(of_nat numSets - 1 :: u32) = mask k" by (simp add: assms(1) mask_eq_exp_minus_1)
  then have "hash w a AND ucast (of_nat numSets - 1 :: u32) = take_bit k (hash w a)"
    using assms(2) by (auto simp: bit_simps intro!: bit_eqI)
  then have "set_index hash w (of_nat numSets - 1) a = take_bit k (unat (hash w a))"
    unfolding set_index_def by (simp add: unsigned_take_bit_eq)
  then show ?thesis by (simp add: assms(1))
qed

section \<open>The set-associative array\<close>

text \<open>
  Every valid line is in its own set, and no line is there twice. \<open>sa_ok\<close> holds also between
  \<open>preinsert\<close> and \<open>postinsert\<close>.
\<close>

definition sa_ok :: "(nat \<Rightarrow> u64 \<Rightarrow> u64) \<Rightarrow> nat \<Rightarrow> 'r SetAssocArray \<Rightarrow> bool" where
  "sa_ok hash n A \<longleftrightarrow> n = sa_numLines A \<and> n < 2 ^ 32 \<and> length (sa_array A) = n \<and> uniq (sa_array A) \<and>
     0 < sa_assoc A \<and> sa_numSets A = n div sa_assoc A \<and>
     (\<exists>k<32. sa_numSets A = 2 ^ k) \<and> sa_setMask A = of_nat (sa_numSets A) - 1 \<and>
     (\<forall>i<n. sa_array A ! i \<noteq> 0 \<longrightarrow>
        sa_first hash A (sa_array A ! i) \<le> i \<and> i < sa_first hash A (sa_array A ! i) + sa_assoc A)"

definition sa_contents :: "'r SetAssocArray \<Rightarrow> addr \<Rightarrow> nat option" where
  "sa_contents A = contents_of (sa_array A)"

lemma sa_set_range:
  assumes "sa_ok hash n A"
  shows "sa_first hash A a + sa_assoc A \<le> n"
proof -
  from assms obtain k where "k < 32" "sa_numSets A = 2 ^ k" by (auto simp: sa_ok_def)
  with set_index_less [of "sa_numSets A" k hash 0 a] assms
  have "set_index hash 0 (sa_setMask A) a + 1 \<le> sa_numSets A" by (simp add: sa_ok_def)
  then have "(set_index hash 0 (sa_setMask A) a + 1) * sa_assoc A \<le> sa_numSets A * sa_assoc A"
    by (rule mult_right_mono) simp
  also have "\<dots> \<le> n" using assms by (simp add: sa_ok_def div_times_less_eq_dividend)
  finally show ?thesis by (simp add: sa_first_def algebra_simps)
qed

lemma sa_first_rp [simp]: "sa_first hash (A\<lparr>sa_rp := r\<rparr>) a = sa_first hash A a"
  "sa_first hash (A\<lparr>sa_array := arr\<rparr>) a = sa_first hash A a"
  by (simp_all add: sa_first_def)

lemma sa_ok_rp [simp]: "sa_ok hash n (A\<lparr>sa_rp := r\<rparr>) = sa_ok hash n A"
  by (simp add: sa_ok_def)

lemma sa_contents_rp [simp]: "sa_contents (A\<lparr>sa_rp := r\<rparr>) = sa_contents A"
  by (simp add: sa_contents_def)

lemma sa_contents_Some_iff:
  "sa_ok hash n A \<Longrightarrow> sa_contents A a = Some i \<longleftrightarrow> a \<noteq> 0 \<and> i < n \<and> sa_array A ! i = a"
  by (simp add: sa_contents_def sa_ok_def contents_of_Some_iff)

lemma sa_find:
  assumes "sa_ok hash n A" "a \<noteq> 0"
  shows "find (\<lambda>i. sa_array A ! i = a) [sa_first hash A a..<sa_first hash A a + sa_assoc A] = sa_contents A a"
proof (rule option_ext)
  fix i
  let ?f = "find (\<lambda>i. sa_array A ! i = a) [sa_first hash A a..<sa_first hash A a + sa_assoc A]"
  note c = sa_contents_Some_iff [OF assms(1)]
  show "(?f = Some i) = (sa_contents A a = Some i)"
  proof
    assume "?f = Some i"
    from find_upt_SomeD [OF this] sa_set_range [OF assms(1), of a] show "sa_contents A a = Some i"
      unfolding c using assms(2) by simp
  next
    assume s: "sa_contents A a = Some i"
    then have i: "i < n" "sa_array A ! i = a" unfolding c by simp_all
    with assms have "sa_first hash A a \<le> i" "i < sa_first hash A a + sa_assoc A"
      by (auto simp: sa_ok_def)
    with i have "?f \<noteq> None" unfolding find_upt_None_iff by blast
    then obtain j where j: "?f = Some j" by blast
    from find_upt_SomeD [OF this] sa_set_range [OF assms(1), of a] have "sa_contents A a = Some j"
      unfolding c using assms(2) by simp
    with s j show "?f = Some i" by simp
  qed
qed

text \<open>What the array needs of the policy, with the candidates of one set.\<close>

definition sa_cands_ok :: "(nat list \<Rightarrow> bool) \<Rightarrow> nat \<Rightarrow> bool" where
  "sa_cands_ok cands_ok assoc \<longleftrightarrow> (\<forall>first. cands_ok [first..<first + assoc])"

lemma sa_lookup_ok:
  assumes "sa_ok hash n A" "a \<noteq> 0"
    and "\<And>i. i < n \<Longrightarrow> P (sa_rp A) \<Longrightarrow> P (rp_update rp i req (sa_rp A))"
  shows "succeeds (sa_lookup rp hash a req upd A) (\<lambda>(r, A'). r = sa_contents A a \<and>
    sa_ok hash n A' \<and> (P (sa_rp A) \<longrightarrow> P (sa_rp A')) \<and> sa_contents A' = sa_contents A \<and>
    sa_assoc A' = sa_assoc A \<and> sa_array A' = sa_array A \<and>
    (\<forall>b. sa_first hash A' b = sa_first hash A b))"
proof (cases "sa_contents A a")
  case None
  with assms show ?thesis by (simp add: sa_lookup_def Let_def sa_find)
next
  case (Some i)
  then have "i < n" using sa_contents_Some_iff [OF assms(1), of a i] by simp
  with Some assms show ?thesis by (simp add: sa_lookup_def Let_def sa_find)
qed

definition sa_inv :: "(nat \<Rightarrow> u64 \<Rightarrow> u64) \<Rightarrow> nat \<Rightarrow> nat \<Rightarrow> ('r \<Rightarrow> bool) \<Rightarrow> 'r SetAssocArray \<Rightarrow> bool" where
  "sa_inv hash n assoc pinv A \<longleftrightarrow> sa_ok hash n A \<and> pinv (sa_rp A) \<and> sa_assoc A = assoc"

definition sa_pending ::
  "(nat \<Rightarrow> u64 \<Rightarrow> u64) \<Rightarrow> nat \<Rightarrow> nat \<Rightarrow> ('r \<Rightarrow> bool) \<Rightarrow> addr \<Rightarrow> nat \<Rightarrow> 'r SetAssocArray \<Rightarrow> bool" where
  "sa_pending hash n assoc ranked a c A \<longleftrightarrow> sa_ok hash n A \<and> ranked (sa_rp A) \<and> sa_assoc A = assoc \<and>
     a \<noteq> 0 \<and> c < n \<and> sa_contents A a = None \<and>
     sa_first hash A a \<le> c \<and> c < sa_first hash A a + sa_assoc A"

lemma sa_postinsert_ok:
  assumes "sa_pending hash n assoc ranked a c A"
    and "pinv (rp_update rp c req (rp_replaced rp c (sa_rp A)))"
  shows "succeeds (sa_postinsert rp a req c A) (\<lambda>A'. sa_inv hash n assoc pinv A' \<and>
    (\<forall>b. sa_contents A' b =
       (if b = a then Some c else if sa_contents A b = Some c then None else sa_contents A b)))"
proof -
  from assms(1) have ok: "sa_ok hash n A" and a: "a \<noteq> 0" "c < n" "sa_contents A a = None"
    "sa_first hash A a \<le> c" "c < sa_first hash A a + sa_assoc A" "sa_assoc A = assoc"
    by (auto simp: sa_pending_def)
  from a have notin: "a \<notin> set (sa_array A)" by (simp add: sa_contents_def contents_of_None_iff)
  from ok have arr: "uniq (sa_array A)" "length (sa_array A) = n" by (auto simp: sa_ok_def)
  let ?A = "A\<lparr>sa_array := (sa_array A)[c := a],
      sa_rp := rp_update rp c req (rp_replaced rp c (sa_rp A))\<rparr>"
  have "sa_ok hash n ?A"
    unfolding sa_ok_def using ok a uniq_upd [OF arr(1) notin, of c]
    by (auto simp: sa_ok_def nth_upd)
  moreover have "sa_contents ?A b =
      (if b = a then Some c else if sa_contents A b = Some c then None else sa_contents A b)" for b
    using contents_of_upd [OF arr(1) a(1) notin, of c b] a(2) arr(2) by (simp add: sa_contents_def)
  ultimately show ?thesis using assms(2) a(6) by (simp add: sa_postinsert_def sa_inv_def)
qed

text \<open>The set-associative array with any policy that keeps the contract is a cache array.\<close>

locale sa_with_policy = repl_policy n cands_ok inv ranked "rp_update rp" "rp_replaced rp" "rp_rank rp"
  for n cands_ok and inv ranked :: "'r \<Rightarrow> bool" and rp :: "'r repl_ops" +
  fixes hash :: "nat \<Rightarrow> u64 \<Rightarrow> u64" and assoc :: nat
  assumes cands: "cands_ok [first..<first + assoc]"
begin

lemma sa_preinsert_ok:
  assumes "sa_inv hash n assoc inv A" "a \<noteq> 0" "sa_contents A a = None"
  shows "\<exists>c A'. sa_preinsert rp hash cc a req A = Inr (c, sa_array A ! c, A') \<and> c < n \<and>
    sa_pending hash n assoc ranked a c A' \<and> sa_contents A' = sa_contents A"
proof -
  from assms(1) have ok: "sa_ok hash n A" "inv (sa_rp A)" "sa_assoc A = assoc" by (auto simp: sa_inv_def)
  let ?cs = "[sa_first hash A a..<sa_first hash A a + assoc]"
  have "0 < assoc" using ok by (auto simp: sa_ok_def)
  then have "?cs \<noteq> []" "set ?cs \<subseteq> {..<n}" using sa_set_range [OF ok(1), of a] ok(3) by auto
  then obtain c r where c: "rp_rank rp cc req ?cs (sa_rp A) = Inr (c, r)" "c \<in> set ?cs" "ranked r" "c < n"
    by (rule rank_E [OF ok(2) cands])
  with ok assms(2,3) show ?thesis
    by (auto simp: sa_preinsert_def Let_def sa_pending_def)
qed

text \<open>The victim comes from the set of the new line.\<close>

lemma sa_victim_set:
  assumes "sa_inv hash n assoc inv A" "sa_preinsert rp hash cc a req A = Inr (c, b, A')" "b \<noteq> 0"
  shows "set_index hash 0 (sa_setMask A) b = set_index hash 0 (sa_setMask A) a"
proof -
  from assms(1) have ok: "sa_ok hash n A" "inv (sa_rp A)" "sa_assoc A = assoc" by (auto simp: sa_inv_def)
  let ?cs = "[sa_first hash A a..<sa_first hash A a + assoc]"
  have "0 < assoc" using ok by (auto simp: sa_ok_def)
  then have "?cs \<noteq> []" "set ?cs \<subseteq> {..<n}" using sa_set_range [OF ok(1), of a] ok(3) by auto
  then obtain c' r where c': "rp_rank rp cc req ?cs (sa_rp A) = Inr (c', r)" "c' \<in> set ?cs" "c' < n"
    by (rule rank_E [OF ok(2) cands])
  then have c: "c = c'" "b = sa_array A ! c" using assms(2) ok(3) by (auto simp: sa_preinsert_def Let_def)
  then have r: "sa_first hash A b \<le> c" "c < sa_first hash A b + assoc" "sa_first hash A a \<le> c" "c < sa_first hash A a + assoc"
    using ok c' assms(3) by (auto simp: sa_ok_def)
  have "c div assoc = set_index hash 0 (sa_setMask A) b"
    by (rule div_nat_eqI) (use r(1,2) ok(3) in \<open>simp_all add: sa_first_def algebra_simps\<close>)
  moreover have "c div assoc = set_index hash 0 (sa_setMask A) a"
    by (rule div_nat_eqI) (use r(3,4) ok(3) in \<open>simp_all add: sa_first_def algebra_simps\<close>)
  ultimately show ?thesis by simp
qed

end

sublocale sa_with_policy \<subseteq> sa: cache_array n "sa_inv hash n assoc inv" "sa_pending hash n assoc ranked"
  sa_contents "sa_lookup rp hash" "\<lambda>cc a req A. Some (sa_preinsert rp hash cc a req A)"
  "sa_postinsert rp"
proof
  fix A a b i c cc req upd
  show "sa_inv hash n assoc inv A \<Longrightarrow> sa_contents A a = Some i \<Longrightarrow> i < n \<and> a \<noteq> 0"
    using sa_contents_Some_iff [of hash n A a i] by (auto simp: sa_inv_def)
  show "sa_inv hash n assoc inv A \<Longrightarrow> sa_contents A a = Some i \<Longrightarrow> sa_contents A b = Some i \<Longrightarrow> a = b"
    using sa_contents_Some_iff [of hash n A a i] sa_contents_Some_iff [of hash n A b i]
    by (auto simp: sa_inv_def)
  show "sa_inv hash n assoc inv A \<Longrightarrow> a \<noteq> 0 \<Longrightarrow>
      succeeds (sa_lookup rp hash a req upd A) (\<lambda>(r, A'). r = sa_contents A a \<and>
        sa_inv hash n assoc inv A' \<and> sa_contents A' = sa_contents A)"
    using sa_lookup_ok [of hash n A a inv rp req upd, OF _ _ update_inv]
    by (auto simp: sa_inv_def elim!: succeeds_mono)
  show "sa_pending hash n assoc ranked b c A \<Longrightarrow> a \<noteq> 0 \<Longrightarrow>
      succeeds (sa_lookup rp hash a req upd A) (\<lambda>(r, A'). r = sa_contents A a \<and>
        sa_pending hash n assoc ranked b c A' \<and> sa_contents A' = sa_contents A)"
    using sa_lookup_ok [of hash n A a ranked rp req upd, OF _ _ update_ranked]
    by (auto simp: sa_pending_def elim!: succeeds_mono)
  show "sa_pending hash n assoc ranked a c A \<Longrightarrow> succeeds (sa_postinsert rp a req c A) (\<lambda>A'.
      sa_inv hash n assoc inv A' \<and> (\<forall>b. sa_contents A' b =
        (if b = a then Some c else if sa_contents A b = Some c then None else sa_contents A b)))"
    by (rule sa_postinsert_ok) (auto simp: sa_pending_def intro: install_inv)
  assume a: "sa_inv hash n assoc inv A" "a \<noteq> 0" "sa_contents A a = None"
  from sa_preinsert_ok [OF this, of cc req] obtain c A' where
    c: "sa_preinsert rp hash cc a req A = Inr (c, sa_array A ! c, A')" "c < n"
      "sa_pending hash n assoc ranked a c A'" "sa_contents A' = sa_contents A"
    by blast
  moreover have "sa_contents A b = Some c \<longleftrightarrow> b = sa_array A ! c \<and> sa_array A ! c \<noteq> 0" for b
    using sa_contents_Some_iff [of hash n A b c] a(1) c(2) by (auto simp: sa_inv_def)
  ultimately show "\<exists>c wb A'. Some (sa_preinsert rp hash cc a req A) = Some (Inr (c, wb, A')) \<and> c < n \<and>
      sa_pending hash n assoc ranked a c A' \<and> sa_contents A' = sa_contents A \<and>
      (\<forall>b. sa_contents A b = Some c \<longleftrightarrow> b = wb \<and> wb \<noteq> 0)"
    by blast
qed

text \<open>The policies of \<open>repl_policies.h\<close> in a set-associative array.\<close>

definition llc_ops :: "MN4LLC repl_ops" where
  "llc_ops = \<lparr>rp_update = llc_update, rp_replaced = llc_replaced, rp_rank = llc_rank\<rparr>"

definition l2_ops :: "MN4L2 repl_ops" where
  "l2_ops = \<lparr>rp_update = l2_update, rp_replaced = l2_replaced, rp_rank = l2_rank\<rparr>"

definition lru_ops :: "bool \<Rightarrow> LRU repl_ops" where
  "lru_ops sharersAware =
     \<lparr>rp_update = lru_update, rp_replaced = lru_replaced, rp_rank = lru_rank sharersAware\<rparr>"

definition nru_ops :: "NRU repl_ops" where
  "nru_ops = \<lparr>rp_update = nru_update, rp_replaced = nru_replaced,
     rp_rank = (\<lambda>cc req. legacy_rank nru_recordCandidate nru_getBestCandidate)\<rparr>"

definition lfu_ops :: "LFU repl_ops" where
  "lfu_ops = \<lparr>rp_update = lfu_update, rp_replaced = lfu_replaced,
     rp_rank = (\<lambda>cc req. legacy_rank (lfu_recordCandidate cc) lfu_getBestCandidate)\<rparr>"

lemmas policy_ops = llc_ops_def l2_ops_def lru_ops_def nru_ops_def lfu_ops_def

interpretation sa_llc: sa_with_policy n distinct "\<lambda>p. ages_ok n (llc_age p)" "\<lambda>p. ages_ok n (llc_age p)"
  llc_ops hash assoc for n hash assoc
  unfolding sa_with_policy_def sa_with_policy_axioms_def
  using llc.repl_policy_axioms by (simp add: policy_ops)

interpretation sa_l2: sa_with_policy n distinct "\<lambda>p. ages_ok n (l2_age p)" "\<lambda>p. ages_ok n (l2_age p)"
  l2_ops hash assoc for n hash assoc
  unfolding sa_with_policy_def sa_with_policy_axioms_def
  using l2.repl_policy_axioms by (simp add: policy_ops)

interpretation sa_lru: sa_with_policy n "\<lambda>_. True" "\<lambda>p. length (lru_array p) = n"
  "\<lambda>p. length (lru_array p) = n" "lru_ops sa" hash assoc for n sa hash assoc
  unfolding sa_with_policy_def sa_with_policy_axioms_def
  using lru.repl_policy_axioms by (simp add: policy_ops)

interpretation sa_nru: sa_with_policy n "\<lambda>cs. length cs \<le> assoc" "nru_inv n assoc" "nru_ok n assoc"
  nru_ops hash assoc for n hash assoc
  unfolding sa_with_policy_def sa_with_policy_axioms_def
  using nru.repl_policy_axioms by (simp add: policy_ops)

interpretation sa_lfu: sa_with_policy n "\<lambda>_. True" "lfu_inv n" "\<lambda>p. length (lfu_array p) = n"
  lfu_ops hash assoc for n hash assoc
  unfolding sa_with_policy_def sa_with_policy_axioms_def
  using lfu.repl_policy_axioms by (simp add: policy_ops)

lemma sa_new_ok:
  assumes "sa_new n assoc r = Inr A" "n < 2 ^ 32" "pinv r"
  shows "sa_inv hash n assoc pinv A" "sa_contents A a = None"
proof -
  let ?m = "n div assoc"
  from assms(1) have A: "A = \<lparr>sa_array = replicate n 0, sa_rp = r, sa_numLines = n, sa_numSets = ?m,
      sa_assoc = assoc, sa_setMask = of_nat ?m - 1\<rparr>" and p: "assoc \<noteq> 0" "isPow2 ?m"
    by (auto simp: sa_new_def Let_def require_eq_Inr_iff)
  from isPow2_power [OF p(2)] obtain k where k: "?m = 2 ^ k" by blast
  have "?m < 2 ^ 32" using assms(2) by (rule le_less_trans [OF div_le_dividend])
  then have "k < 32" unfolding k using power_strict_increasing_iff [of "2 :: nat" k 32] by simp
  then show "sa_inv hash n assoc pinv A"
    using p(1) k assms(2,3) unfolding A sa_inv_def sa_ok_def by (auto simp: uniq_def)
  show "sa_contents A a = None"
    unfolding A sa_contents_def contents_of_def by (auto simp: find_upt_None_iff)
qed

section \<open>Properties\<close>

text \<open>
  C20: a replacement in a set-associative array with the MN4 LLC policy succeeds, puts the line
  at the victim's id, drops the line whose address \<open>preinsert\<close> gave for the writeback, leaves
  every other line where lookups found it, and keeps the invariant (lines are in their own
  sets and none is there twice).
\<close>

theorem set_assoc_replacement_correct:
  assumes "sa_inv hash n assoc (\<lambda>p. ages_ok n (llc_age p)) A" "a \<noteq> 0" "sa_contents A a = None"
  shows "\<exists>c wb A1 A2. sa_preinsert llc_ops hash cc a req A = Inr (c, wb, A1) \<and>
    sa_postinsert llc_ops a req c A1 = Inr A2 \<and>
    sa_inv hash n assoc (\<lambda>p. ages_ok n (llc_age p)) A2 \<and> (wb \<noteq> 0 \<longrightarrow> sa_contents A wb = Some c) \<and>
    (\<forall>b req' upd. b \<noteq> 0 \<longrightarrow> (\<exists>A3. sa_lookup llc_ops hash b req' upd A2 =
       Inr (if b = a then Some c else if b = wb then None else sa_contents A b, A3)))"
proof -
  from sa_llc.sa.fill_ok [OF assms, of cc req] obtain c wb A1 A2 where
    f: "sa_preinsert llc_ops hash cc a req A = Inr (c, wb, A1)"
      "sa_postinsert llc_ops a req c A1 = Inr A2"
      "sa_inv hash n assoc (\<lambda>p. ages_ok n (llc_age p)) A2" "sa_contents A2 a = Some c"
      "wb \<noteq> 0 \<longrightarrow> sa_contents A wb = Some c"
      "\<forall>b. b \<noteq> a \<longrightarrow> sa_contents A2 b = (if b = wb then None else sa_contents A b)"
    by blast
  have "\<exists>A3. sa_lookup llc_ops hash b req' upd A2 =
      Inr (if b = a then Some c else if b = wb then None else sa_contents A b, A3)" if "b \<noteq> 0" for b req' upd
  proof -
    have "sa_contents A2 b = (if b = a then Some c else if b = wb then None else sa_contents A b)"
      using f(4,6) by simp
    then show ?thesis
      using sa_llc.sa.lookup_ok [OF f(3) that, of req' upd] by (auto simp: succeeds_iff)
  qed
  with f(1-3,5) show ?thesis by blast
qed

theorem set_assoc_replacement_correct_witness:
  "\<exists>A c wb A1 A2. sa_new 8 4 (llc_new 8) = Inr A \<and>
    sa_preinsert llc_ops id_hash \<lparr>cc_numSharers = (\<lambda>_. 0), cc_isValid = (\<lambda>_. True)\<rparr> 77 sample_req A
      = Inr (c, wb, A1) \<and>
    sa_postinsert llc_ops 77 sample_req c A1 = Inr A2 \<and>
    (\<exists>A3. sa_lookup llc_ops id_hash 77 sample_req True A2 = Inr (Some c, A3))"
proof -
  obtain A :: "MN4LLC SetAssocArray" where A: "sa_new 8 4 (llc_new 8) = Inr A"
    by (simp add: sa_new_def isPow2_def)
  have "sa_inv id_hash 8 4 (\<lambda>p. ages_ok 8 (llc_age p)) A" "sa_contents A 77 = None"
    using sa_new_ok [OF A, where pinv = "\<lambda>p. ages_ok 8 (llc_age p)"] by (simp_all add: llc_new_def)
  from set_assoc_replacement_correct [OF this(1) _ this(2),
      of "\<lparr>cc_numSharers = (\<lambda>_. 0), cc_isValid = (\<lambda>_. True)\<rparr>" sample_req]
  obtain c wb A1 A2 where f:
    "sa_preinsert llc_ops id_hash \<lparr>cc_numSharers = (\<lambda>_. 0), cc_isValid = (\<lambda>_. True)\<rparr> 77 sample_req A
      = Inr (c, wb, A1)" "sa_postinsert llc_ops 77 sample_req c A1 = Inr A2"
    and l: "\<forall>b req' upd. b \<noteq> 0 \<longrightarrow> (\<exists>A3. sa_lookup llc_ops id_hash b req' upd A2 =
       Inr (if b = 77 then Some c else if b = wb then None else sa_contents A b, A3))"
    by auto
  from l [rule_format, of 77 sample_req True] have
    "\<exists>A3. sa_lookup llc_ops id_hash 77 sample_req True A2 = Inr (Some c, A3)" by simp
  with A f show ?thesis by blast
qed

end
