(* ===== verification/ZCache.thy ===== *)
theory ZCache
  imports Cache_Arrays
begin

text \<open>
  The zcache of \<open>cache_arrays.cpp\<close>: a replacement walks breadth first over the lines that could
  move into the positions of the new line, evicts one of them and moves the lines on the path
  to it. The lemmas show that the moves keep every other line where a lookup finds it.
\<close>

section \<open>Zcache\<close>

record 'r ZArray =
  z_array :: "addr list"
  lookupArray :: "nat list"
  z_rp :: 'r
  z_numLines :: nat
  z_numSets :: nat
  ways :: nat
  cands :: nat
  z_setMask :: u32
  swapArray :: "nat list"
  lastCandIdx :: nat
  statSwaps :: nat

text \<open>
  \<open>swapArray\<close> holds the \<open>swapArrayLen\<close> entries in use; its capacity is checked when it is
  filled.
\<close>

definition z_new :: "nat \<Rightarrow> nat \<Rightarrow> nat \<Rightarrow> 'r \<Rightarrow> 'r ZArray res" where
  "z_new numLines nways ncands r =
     require (nways > 1) (AssertFail ''zcaches need >=2 ways to work'')
       (require (ncands \<ge> nways) (AssertFail ''candidates < ways'')
         (require (numLines mod nways = 0) (AssertFail ''number of lines is not a multiple of ways'')
           (let numSets = numLines div nways
            in require (isPow2 numSets) (AssertFail ''must have a power of 2 # sets'')
                 (Inr \<lparr>z_array = replicate numLines 0, lookupArray = [0..<numLines], z_rp = r,
                        z_numLines = numLines, z_numSets = numSets, ways = nways, cands = ncands,
                        z_setMask = of_nat numSets - 1, swapArray = [], lastCandIdx = 0,
                        statSwaps = 0\<rparr>))))"

definition z_pos :: "(nat \<Rightarrow> u64 \<Rightarrow> u64) \<Rightarrow> 'r ZArray \<Rightarrow> nat \<Rightarrow> addr \<Rightarrow> nat" where
  "z_pos hash A w addr = w * z_numSets A + set_index hash w (z_setMask A) addr"

definition z_line :: "(nat \<Rightarrow> u64 \<Rightarrow> u64) \<Rightarrow> 'r ZArray \<Rightarrow> addr \<Rightarrow> nat \<Rightarrow> nat" where
  "z_line hash A addr w = lookupArray A ! z_pos hash A w addr"

definition z_lookup ::
  "'r repl_ops \<Rightarrow> (nat \<Rightarrow> u64 \<Rightarrow> u64) \<Rightarrow> addr \<Rightarrow> MemReq \<Rightarrow> bool \<Rightarrow> 'r ZArray
     \<Rightarrow> (nat option \<times> 'r ZArray) res" where
  "z_lookup rp hash addr req updateReplacement A =
     (if addr = 0 then Inl (Panicked ''ZArray::lookup called with lineAddr==0'')
      else case find (\<lambda>w. z_array A ! z_line hash A addr w = addr) [0..<ways A] of
             Some w \<Rightarrow>
               (let lineId = z_line hash A addr w
                in Inr (Some lineId,
                     if updateReplacement then A\<lparr>z_rp := rp_update rp lineId req (z_rp A)\<rparr> else A))
           | None \<Rightarrow> Inr (None, A))"

record ZWalkInfo =
  pos :: nat
  lineId :: nat
  parentIdx :: "nat option"

text \<open>The expansion of one fringe entry; the parent index -1 is \<open>None\<close>.\<close>

fun z_expand ::
  "(nat \<Rightarrow> u64 \<Rightarrow> u64) \<Rightarrow> 'r ZArray \<Rightarrow> nat \<Rightarrow> nat \<Rightarrow> nat list \<Rightarrow> ZWalkInfo list \<times> bool
     \<Rightarrow> ZWalkInfo list \<times> bool" where
  "z_expand hash A fringeStart fringeId [] s = s"
| "z_expand hash A fringeStart fringeId (w # ws) (candidates, all_valid) =
     (let p = z_pos hash A w (z_array A ! fringeId);
          l = lookupArray A ! p
      in z_expand hash A fringeStart fringeId ws
           (if l \<noteq> fringeId then candidates @ [\<lparr>pos = p, lineId = l, parentIdx = Some fringeStart\<rparr>]
            else candidates,
            all_valid \<and> z_array A ! l \<noteq> 0))"

text \<open>The breadth-first expansion; entries at or above \<open>numCandidates\<close> are not initialised.\<close>

function z_walk ::
  "(nat \<Rightarrow> u64 \<Rightarrow> u64) \<Rightarrow> 'r ZArray \<Rightarrow> nat \<Rightarrow> ZWalkInfo list \<Rightarrow> bool \<Rightarrow> (ZWalkInfo list \<times> bool) res" where
  "z_walk hash A fringeStart candidates all_valid =
     (if length candidates < cands A \<and> all_valid then
        (if fringeStart < length candidates then
           (let fringeId = lineId (candidates ! fringeStart)
            in if z_array A ! fringeId \<noteq> 0 then
                 (case z_expand hash A fringeStart fringeId [0..<ways A] (candidates, all_valid) of
                    (candidates', all_valid') \<Rightarrow> z_walk hash A (fringeStart + 1) candidates' all_valid')
               else Inl (AssertFail ''fringeAddr''))
         else Inl (Undefined ''candidates[fringeStart]''))
      else Inr (candidates, all_valid))"
  by pat_completeness auto
termination
  by (relation "measure (\<lambda>(hash, A, fringeStart, candidates, all_valid). cands A - fringeStart)") auto

declare z_walk.simps [simp del]

definition z_seeds :: "(nat \<Rightarrow> u64 \<Rightarrow> u64) \<Rightarrow> 'r ZArray \<Rightarrow> addr \<Rightarrow> ZWalkInfo list" where
  "z_seeds hash A addr =
     map (\<lambda>w. \<lparr>pos = z_pos hash A w addr, lineId = z_line hash A addr w, parentIdx = None\<rparr>)
       [0..<ways A]"

text \<open>
  The loop that fills \<open>swapArray\<close> with the positions from a candidate to its seed; it does not
  stop if the parent links do not lead to a seed.
\<close>

partial_function (option) z_path :: "ZWalkInfo list \<Rightarrow> nat \<Rightarrow> nat list \<Rightarrow> nat list option" where
  "z_path candidates idx swaps =
     (let swaps' = swaps @ [pos (candidates ! idx)]
      in case parentIdx (candidates ! idx) of
           None \<Rightarrow> Some swaps'
         | Some p \<Rightarrow> z_path candidates p swaps')"

definition z_preinsert ::
  "'r repl_ops \<Rightarrow> (nat \<Rightarrow> u64 \<Rightarrow> u64) \<Rightarrow> cc_view \<Rightarrow> addr \<Rightarrow> MemReq \<Rightarrow> 'r ZArray
     \<Rightarrow> (nat \<times> addr \<times> 'r ZArray) res option" where
  "z_preinsert rp hash cc addr req A =
     (let seeds = z_seeds hash A addr;
          all_valid = list_all (\<lambda>c. z_array A ! lineId c \<noteq> 0) seeds
      in case z_walk hash A 0 seeds all_valid of
           Inl e \<Rightarrow> Some (Inl e)
         | Inr (walk, all_valid') \<Rightarrow>
             if \<not> (\<not> all_valid' \<or> length walk \<ge> cands A)
             then Some (Inl (AssertFail ''!all_valid || numCandidates >= cands''))
             else let candidates = take (cands A) walk
                  in case rp_rank rp cc req (map lineId candidates) (z_rp A) of
                       Inl e \<Rightarrow> Some (Inl e)
                     | Inr (bestCandidate, r) \<Rightarrow>
                         if \<not> bestCandidate < z_numLines A
                         then Some (Inl (AssertFail ''bestCandidate < numLines''))
                         else case find (\<lambda>ii. lineId (candidates ! ii) = bestCandidate)
                                     [0..<length candidates] of
                                None \<Rightarrow> Some (Inl (AssertFail ''swapArrayLen > 0''))
                              | Some minIdx \<Rightarrow>
                                  (case z_path candidates minIdx [] of
                                     None \<Rightarrow> None
                                   | Some ps \<Rightarrow>
                                       Some (require (length ps \<le> cands A div ways A + 2)
                                         (Undefined ''swapArray[swapIdx]'')
                                         (Inr (bestCandidate, z_array A ! bestCandidate,
                                            A\<lparr>z_rp := r, swapArray := ps, lastCandIdx := minIdx\<rparr>)))))"

fun z_swap :: "nat list \<Rightarrow> nat \<Rightarrow> nat list \<Rightarrow> nat list" where
  "z_swap [] candidate lk = lk"
| "z_swap [p] candidate lk = lk[p := candidate]"
| "z_swap (p # q # ps) candidate lk = z_swap (q # ps) candidate (lk[p := lk ! q])"

definition z_postinsert ::
  "'r repl_ops \<Rightarrow> addr \<Rightarrow> MemReq \<Rightarrow> nat \<Rightarrow> 'r ZArray \<Rightarrow> 'r ZArray res" where
  "z_postinsert rp addr req candidate A =
     (case swapArray A of
        [] \<Rightarrow> Inl (Undefined ''swapArray[0]'')
      | p0 # _ \<Rightarrow>
          require (lookupArray A ! p0 = candidate) (AssertFail ''lookupArray[swapArray[0]] == candidate'')
            (Inr (A\<lparr>lookupArray := z_swap (swapArray A) candidate (lookupArray A),
                   z_rp := rp_update rp candidate req (rp_replaced rp candidate (z_rp A)),
                   z_array := (z_array A)[candidate := addr],
                   statSwaps := statSwaps A + (length (swapArray A) - 1)\<rparr>)))"

section \<open>The invariant\<close>

text \<open>
  \<open>lookupArray\<close> is a permutation of the line ids, and every valid line is at one of the
  positions its address hashes to.
\<close>

definition z_ok :: "(nat \<Rightarrow> u64 \<Rightarrow> u64) \<Rightarrow> nat \<Rightarrow> 'r ZArray \<Rightarrow> bool" where
  "z_ok hash n A \<longleftrightarrow> n = z_numLines A \<and> n < 2 ^ 32 \<and> 1 < ways A \<and> ways A \<le> cands A \<and>
     n = ways A * z_numSets A \<and> (\<exists>k<32. z_numSets A = 2 ^ k) \<and>
     z_setMask A = of_nat (z_numSets A) - 1 \<and>
     length (z_array A) = n \<and> uniq (z_array A) \<and>
     length (lookupArray A) = n \<and> distinct (lookupArray A) \<and> set (lookupArray A) = {..<n} \<and>
     (\<forall>p<n. z_array A ! (lookupArray A ! p) \<noteq> 0 \<longrightarrow>
        (\<exists>w<ways A. p = z_pos hash A w (z_array A ! (lookupArray A ! p))))"

definition z_contents :: "'r ZArray \<Rightarrow> addr \<Rightarrow> nat option" where
  "z_contents A = contents_of (z_array A)"

lemma z_index: "z_ok hash n A \<Longrightarrow> set_index hash w (z_setMask A) a < z_numSets A"
  using set_index_less [of "z_numSets A" _ hash w a] by (auto simp: z_ok_def)

lemma z_pos_less:
  assumes "z_ok hash n A" "w < ways A"
  shows "z_pos hash A w a < n"
proof -
  from assms(2) have "(w + 1) * z_numSets A \<le> ways A * z_numSets A" by (intro mult_right_mono) auto
  with z_index [OF assms(1), of w a] assms(1) show ?thesis
    by (simp add: z_pos_def z_ok_def algebra_simps)
qed

lemma z_pos_inj:
  assumes "z_ok hash n A" "z_pos hash A w a = z_pos hash A v b"
  shows "w = v"
proof -
  have "(w * m + r) div m = w" if "r < m" for w r m :: nat using that by simp
  then have "w = z_pos hash A w a div z_numSets A" "v = z_pos hash A v b div z_numSets A"
    using z_index [OF assms(1)] by (metis z_pos_def)+
  with assms(2) show ?thesis by simp
qed

lemma lk_less: "z_ok hash n A \<Longrightarrow> p < n \<Longrightarrow> lookupArray A ! p < n"
  using nth_mem [of p "lookupArray A"] by (auto simp: z_ok_def)

lemma lk_inj: "z_ok hash n A \<Longrightarrow> p < n \<Longrightarrow> q < n \<Longrightarrow> lookupArray A ! p = lookupArray A ! q \<Longrightarrow> p = q"
  by (auto simp: z_ok_def nth_eq_iff_index_eq)

lemma z_own:
  "z_ok hash n A \<Longrightarrow> p < n \<Longrightarrow> z_array A ! (lookupArray A ! p) \<noteq> 0 \<Longrightarrow>
   \<exists>w<ways A. p = z_pos hash A w (z_array A ! (lookupArray A ! p))"
  by (auto simp: z_ok_def)

lemma z_contents_Some_iff:
  "z_ok hash n A \<Longrightarrow> z_contents A a = Some i \<longleftrightarrow> a \<noteq> 0 \<and> i < n \<and> z_array A ! i = a"
  by (simp add: z_contents_def z_ok_def contents_of_Some_iff)

lemma z_frame [simp]:
  "z_pos hash (A\<lparr>z_rp := r\<rparr>) w a = z_pos hash A w a"
  "z_pos hash (A\<lparr>swapArray := s\<rparr>) w a = z_pos hash A w a"
  "z_pos hash (A\<lparr>lastCandIdx := i\<rparr>) w a = z_pos hash A w a"
  "z_pos hash (A\<lparr>lookupArray := lk\<rparr>) w a = z_pos hash A w a"
  "z_pos hash (A\<lparr>z_array := arr\<rparr>) w a = z_pos hash A w a"
  "z_pos hash (A\<lparr>statSwaps := k\<rparr>) w a = z_pos hash A w a"
  by (simp_all add: z_pos_def)

lemma z_ok_frame [simp]:
  "z_ok hash n (A\<lparr>z_rp := r\<rparr>) = z_ok hash n A"
  "z_ok hash n (A\<lparr>swapArray := s\<rparr>) = z_ok hash n A"
  "z_ok hash n (A\<lparr>lastCandIdx := i\<rparr>) = z_ok hash n A"
  "z_contents (A\<lparr>z_rp := r\<rparr>) = z_contents A"
  "z_contents (A\<lparr>swapArray := s\<rparr>) = z_contents A"
  "z_contents (A\<lparr>lastCandIdx := i\<rparr>) = z_contents A"
  by (simp_all add: z_ok_def z_contents_def)

lemma z_find:
  assumes "z_ok hash n A" "a \<noteq> 0"
  shows "map_option (z_line hash A a) (find (\<lambda>w. z_array A ! z_line hash A a w = a) [0..<ways A])
           = z_contents A a"
proof (rule option_ext)
  fix i
  let ?f = "find (\<lambda>w. z_array A ! z_line hash A a w = a) [0..<ways A]"
  note c = z_contents_Some_iff [OF assms(1)]
  have mem: "z_contents A a = Some (z_line hash A a w)" if "?f = Some w" for w
    using find_upt_SomeD [OF that] lk_less [OF assms(1) z_pos_less [OF assms(1)], of w a] assms(2)
    unfolding c by (simp add: z_line_def)
  show "(map_option (z_line hash A a) ?f = Some i) = (z_contents A a = Some i)"
  proof
    assume s: "z_contents A a = Some i"
    then have i: "i < n" "z_array A ! i = a" unfolding c by simp_all
    from i(1) assms(1) have "i \<in> set (lookupArray A)" by (simp add: z_ok_def)
    then obtain p where p: "p < n" "lookupArray A ! p = i"
      using assms(1) by (auto simp: in_set_conv_nth z_ok_def)
    from z_own [OF assms(1) p(1)] i(2) p(2) assms(2) obtain w where "w < ways A" "p = z_pos hash A w a"
      by auto
    with i p have "?f \<noteq> None" unfolding find_upt_None_iff by (auto simp: z_line_def)
    then obtain v where v: "?f = Some v" by blast
    with mem [OF v] s show "map_option (z_line hash A a) ?f = Some i" by simp
  qed (auto dest: mem)
qed

lemma z_lookup_ok:
  assumes "z_ok hash n A" "a \<noteq> 0"
    and "\<And>i. i < n \<Longrightarrow> P (z_rp A) \<Longrightarrow> P (rp_update rp i req (z_rp A))"
  shows "succeeds (z_lookup rp hash a req upd A) (\<lambda>(r, A'). r = z_contents A a \<and>
    (P (z_rp A) \<longrightarrow> P (z_rp A')) \<and> (\<exists>r. A' = A\<lparr>z_rp := r\<rparr>))"
proof (cases "find (\<lambda>w. z_array A ! z_line hash A a w = a) [0..<ways A]")
  case None
  with z_find [OF assms(1,2)] assms(2) show ?thesis
    by (auto simp: z_lookup_def intro!: exI [of _ "z_rp A"])
next
  case (Some w)
  with z_find [OF assms(1,2)] have c: "z_contents A a = Some (z_line hash A a w)" by simp
  then have "z_line hash A a w < n" using z_contents_Some_iff [OF assms(1)] by simp
  with c Some assms(2,3) show ?thesis
    by (cases upd) (auto simp: z_lookup_def Let_def intro: exI [of _ "z_rp A"])
qed

section \<open>The walk\<close>

lemma z_expand_eq:
  "z_expand hash A fs fid ws (cs, v) =
     (let line = (\<lambda>w. z_line hash A (z_array A ! fid) w)
      in (cs @ map (\<lambda>w. \<lparr>pos = z_pos hash A w (z_array A ! fid), lineId = line w, parentIdx = Some fs\<rparr>)
                 (filter (\<lambda>w. line w \<noteq> fid) ws),
          v \<and> (\<forall>w\<in>set ws. z_array A ! line w \<noteq> 0)))"
  by (induction ws arbitrary: cs v) (auto simp: Let_def z_line_def)

text \<open>
  The entries so far, when the first \<open>fs\<close> of them are expanded. Parents come in order, each
  expanded entry has its children for all ways but its own, and nothing else is there.
\<close>

definition par_key :: "ZWalkInfo \<Rightarrow> nat" where
  "par_key e = (case parentIdx e of None \<Rightarrow> 0 | Some p \<Rightarrow> p + 1)"

abbreviation line_addr :: "'r ZArray \<Rightarrow> ZWalkInfo \<Rightarrow> addr" where
  "line_addr A e \<equiv> z_array A ! lineId e"

definition entry_ok :: "(nat \<Rightarrow> u64 \<Rightarrow> u64) \<Rightarrow> nat \<Rightarrow> 'r ZArray \<Rightarrow> addr \<Rightarrow> nat \<Rightarrow> ZWalkInfo list \<Rightarrow> nat \<Rightarrow> bool" where
  "entry_ok hash n A a fs cs i \<longleftrightarrow>
     pos (cs ! i) < n \<and> lineId (cs ! i) = lookupArray A ! pos (cs ! i) \<and>
     (case parentIdx (cs ! i) of
        None \<Rightarrow> (\<exists>w<ways A. pos (cs ! i) = z_pos hash A w a)
      | Some p \<Rightarrow> p < fs \<and> ways A + p * (ways A - 1) \<le> i \<and> line_addr A (cs ! p) \<noteq> 0 \<and>
          lineId (cs ! i) \<noteq> lineId (cs ! p) \<and>
          (\<exists>w<ways A. pos (cs ! i) = z_pos hash A w (line_addr A (cs ! p))))"

definition walk_ok :: "(nat \<Rightarrow> u64 \<Rightarrow> u64) \<Rightarrow> nat \<Rightarrow> 'r ZArray \<Rightarrow> addr \<Rightarrow> nat \<Rightarrow> ZWalkInfo list \<Rightarrow> bool \<Rightarrow> bool" where
  "walk_ok hash n A a fs cs v \<longleftrightarrow>
     length cs = ways A + fs * (ways A - 1) \<and>
     (\<forall>i<length cs. entry_ok hash n A a fs cs i) \<and>
     (\<forall>i j. i < j \<and> j < length cs \<longrightarrow> par_key (cs ! i) \<le> par_key (cs ! j)) \<and>
     (\<forall>p<fs. \<forall>w<ways A. z_line hash A (line_addr A (cs ! p)) w \<noteq> lineId (cs ! p) \<longrightarrow>
        (\<exists>j<length cs. parentIdx (cs ! j) = Some p \<and> pos (cs ! j) = z_pos hash A w (line_addr A (cs ! p)))) \<and>
     (v \<longrightarrow> (\<forall>i<length cs. line_addr A (cs ! i) \<noteq> 0))"

lemma walk_fs_less: "walk_ok hash n A a fs cs v \<Longrightarrow> 1 < ways A \<Longrightarrow> fs < length cs"
proof -
  assume w: "walk_ok hash n A a fs cs v" and "1 < ways A"
  then have "fs * 1 \<le> fs * (ways A - 1)" by (intro mult_le_mono) auto
  moreover have "length cs = ways A + fs * (ways A - 1)" using w by (simp add: walk_ok_def)
  ultimately show ?thesis using \<open>1 < ways A\<close> by linarith
qed

lemma seeds_ok:
  assumes "z_ok hash n A"
  shows "walk_ok hash n A a 0 (z_seeds hash A a) (list_all (\<lambda>c. line_addr A c \<noteq> 0) (z_seeds hash A a))"
  unfolding walk_ok_def
  using z_pos_less [OF assms]
  by (auto simp: z_seeds_def entry_ok_def par_key_def z_line_def list_all_length)

text \<open>Exactly one way leads an expanded line to itself.\<close>

lemma filter_neq_upt: "w < m \<Longrightarrow> length (filter (\<lambda>v. v \<noteq> w) [0..<m]) = m - 1"
proof -
  assume "w < m"
  have "filter (\<lambda>v. v \<noteq> w) [0..<m] = remove1 w [0..<m]"
    unfolding distinct_remove1_removeAll [OF distinct_upt] removeAll_filter_not_eq
    by (rule filter_cong) auto
  with \<open>w < m\<close> show ?thesis by (simp add: length_remove1)
qed

lemma children_length:
  assumes "z_ok hash n A" "p < n" "fid = lookupArray A ! p" "z_array A ! fid \<noteq> 0"
  shows "length (filter (\<lambda>w. z_line hash A (z_array A ! fid) w \<noteq> fid) [0..<ways A]) = ways A - 1"
proof -
  from z_own [OF assms(1,2)] assms(3,4) obtain v where
    v: "v < ways A" "p = z_pos hash A v (z_array A ! fid)" by auto
  have "z_line hash A (z_array A ! fid) w = fid \<longleftrightarrow> w = v" if "w < ways A" for w
  proof -
    have "z_line hash A (z_array A ! fid) w = fid \<longleftrightarrow> z_pos hash A w (z_array A ! fid) = p"
      using lk_inj [OF assms(1) z_pos_less [OF assms(1) that, of "z_array A ! fid"] assms(2)] assms(3)
      by (auto simp: z_line_def)
    also have "\<dots> \<longleftrightarrow> w = v" using v z_pos_inj [OF assms(1)] by auto
    finally show ?thesis .
  qed
  then have "filter (\<lambda>w. z_line hash A (z_array A ! fid) w \<noteq> fid) [0..<ways A] =
      filter (\<lambda>w. w \<noteq> v) [0..<ways A]"
    by (intro filter_cong) auto
  with filter_neq_upt [OF v(1)] show ?thesis by simp
qed

lemma entry_ok_append:
  "i < length cs \<Longrightarrow> entry_ok hash n A a fs cs i \<Longrightarrow> fs \<le> length cs \<Longrightarrow>
   entry_ok hash n A a (Suc fs) (cs @ ds) i"
  by (auto simp: entry_ok_def nth_append split: option.splits)

lemma walk_step:
  assumes ok: "z_ok hash n A" and w: "walk_ok hash n A a fs cs True"
  defines "fid \<equiv> lineId (cs ! fs)"
  shows "case z_expand hash A fs fid [0..<ways A] (cs, True) of (cs', v') \<Rightarrow>
           walk_ok hash n A a (Suc fs) cs' v'"
proof -
  have ways: "1 < ways A" using ok by (simp add: z_ok_def)
  have fs: "fs < length cs" by (rule walk_fs_less [OF w ways])
  let ?ad = "z_array A ! fid"
  let ?line = "z_line hash A ?ad"
  let ?ws = "filter (\<lambda>w. ?line w \<noteq> fid) [0..<ways A]"
  let ?mk = "\<lambda>w. \<lparr>pos = z_pos hash A w ?ad, lineId = ?line w, parentIdx = Some fs\<rparr>"
  let ?cs = "cs @ map ?mk ?ws"
  have e: "entry_ok hash n A a fs cs i" if "i < length cs" for i
    using w that by (auto simp: walk_ok_def)
  have ad: "?ad \<noteq> 0" using w fs by (auto simp: walk_ok_def fid_def)
  have len: "length ?ws = ways A - 1"
    by (rule children_length [OF ok]) (use e [OF fs] ad in \<open>auto simp: entry_ok_def fid_def\<close>)
  have lcs: "length cs = ways A + fs * (ways A - 1)" using w by (simp add: walk_ok_def)
  have new: "\<exists>v<ways A. ?line v \<noteq> fid \<and> ?cs ! i = ?mk v" if "length cs \<le> i" "i < length ?cs" for i
  proof -
    from that have "?ws ! (i - length cs) \<in> set ?ws" by (intro nth_mem) simp
    with that show ?thesis by (auto simp: nth_append)
  qed
  have "entry_ok hash n A a (Suc fs) ?cs i" if i: "i < length ?cs" for i
  proof (cases "i < length cs")
    case True
    with e fs show ?thesis by (intro entry_ok_append) auto
  next
    case False
    then have "length cs \<le> i" by simp
    from new [OF this i] obtain v where v: "v < ways A" "?line v \<noteq> fid" "?cs ! i = ?mk v" by blast
    with False lcs fs ad z_pos_less [OF ok v(1)] show ?thesis
      by (auto simp: entry_ok_def z_line_def nth_append fid_def)
  qed
  moreover have "par_key (?cs ! i) \<le> par_key (?cs ! j)" if ij: "i < j" "j < length ?cs" for i j
  proof -
    have newkey: "par_key (?cs ! i) = fs + 1" if i: "length cs \<le> i" "i < length ?cs" for i
    proof -
      from new [OF i] obtain v where v: "?cs ! i = ?mk v" by blast
      show ?thesis unfolding v by (simp add: par_key_def)
    qed
    have oldkey: "par_key (cs ! i) \<le> fs + 1" if "i < length cs" for i
      using e [OF that] by (auto simp: par_key_def entry_ok_def split: option.splits)
    have old: "?cs ! i = cs ! i" if "i < length cs" for i using that by (simp add: nth_append)
    consider "j < length cs" | "i < length cs" "length cs \<le> j" | "length cs \<le> i" "length cs \<le> j"
      using ij(1) by linarith
    then show ?thesis
    proof cases
      case 1
      then have "par_key (cs ! i) \<le> par_key (cs ! j)" using ij(1) w by (auto simp: walk_ok_def)
      with 1 ij(1) old show ?thesis by simp
    next
      case 2
      with old oldkey newkey [OF _ ij(2)] show ?thesis by simp
    next
      case 3
      with newkey [of i] newkey [OF _ ij(2)] ij show ?thesis by simp
    qed
  qed
  moreover have "\<exists>j<length ?cs. parentIdx (?cs ! j) = Some p \<and>
      pos (?cs ! j) = z_pos hash A v (line_addr A (?cs ! p))"
    if pv: "p < Suc fs" "v < ways A" "z_line hash A (line_addr A (?cs ! p)) v \<noteq> lineId (?cs ! p)" for p v
  proof (cases "p = fs")
    case False
    with pv(1) fs have p: "p < fs" "?cs ! p = cs ! p" by (auto simp: nth_append)
    have "\<forall>p<fs. \<forall>w<ways A. z_line hash A (line_addr A (cs ! p)) w \<noteq> lineId (cs ! p) \<longrightarrow>
        (\<exists>j<length cs. parentIdx (cs ! j) = Some p \<and> pos (cs ! j) = z_pos hash A w (line_addr A (cs ! p)))"
      using w unfolding walk_ok_def by (elim conjE)
    with p(1) pv(2,3) obtain j where "j < length cs" "parentIdx (cs ! j) = Some p"
      "pos (cs ! j) = z_pos hash A v (line_addr A (cs ! p))"
      unfolding p(2) by blast
    then show ?thesis unfolding p(2) by (intro exI [of _ j]) (simp add: nth_append)
  next
    case True
    then have p: "?cs ! p = cs ! fs" using fs by (simp add: nth_append)
    from pv(2,3) have "v \<in> set ?ws" unfolding p by (simp add: fid_def)
    then obtain k where k: "k < length ?ws" "?ws ! k = v" unfolding in_set_conv_nth by blast
    then show ?thesis
      unfolding p using True by (intro exI [of _ "length cs + k"]) (simp add: nth_append fid_def)
  qed
  moreover have "line_addr A (?cs ! i) \<noteq> 0"
    if i: "i < length ?cs" and all: "\<forall>w\<in>set [0..<ways A]. z_array A ! ?line w \<noteq> 0" for i
  proof (cases "i < length cs")
    case True
    then have "line_addr A (cs ! i) \<noteq> 0" using w by (simp add: walk_ok_def)
    with True show ?thesis by (simp add: nth_append)
  next
    case False
    then have "length cs \<le> i" by simp
    from new [OF this i] obtain v where v: "v < ways A" "?cs ! i = ?mk v" by blast
    with all show ?thesis unfolding v(2) by simp
  qed
  ultimately show ?thesis
    unfolding z_expand_eq Let_def prod.case walk_ok_def using lcs len by auto
qed

lemma walk_result:
  assumes "z_ok hash n A" "walk_ok hash n A a fs cs v"
  shows "\<exists>fs' cs' v'. z_walk hash A fs cs v = Inr (cs', v') \<and> walk_ok hash n A a fs' cs' v' \<and>
    (v' \<longrightarrow> cands A \<le> length cs')"
  using assms
proof (induction hash A fs cs v rule: z_walk.induct)
  case (1 hash A fs cs v)
  show ?case
  proof (cases "length cs < cands A \<and> v")
    case False
    with 1(3) show ?thesis by (subst z_walk.simps) auto
  next
    case True
    have ways: "1 < ways A" using 1(2) by (simp add: z_ok_def)
    have fs: "fs < length cs" by (rule walk_fs_less [OF 1(3) ways])
    have ad: "z_array A ! lineId (cs ! fs) \<noteq> 0" using 1(3) fs True by (simp add: walk_ok_def)
    obtain cs' v' where e: "z_expand hash A fs (lineId (cs ! fs)) [0..<ways A] (cs, v) = (cs', v')"
      by (cases "z_expand hash A fs (lineId (cs ! fs)) [0..<ways A] (cs, v)")
    from walk_step [OF 1(2), of a fs cs] 1(3) True e have "walk_ok hash n A a (Suc fs) cs' v'" by simp
    from 1(1) [OF True fs refl ad e [symmetric] 1(2)] this obtain fs2 cs2 v2 where
      "z_walk hash A (fs + 1) cs' v' = Inr (cs2, v2)" "walk_ok hash n A a fs2 cs2 v2"
      "v2 \<longrightarrow> cands A \<le> length cs2"
      by auto
    moreover have "z_walk hash A fs cs v = z_walk hash A (fs + 1) cs' v'"
      using True fs ad e by (subst z_walk.simps) simp
    ultimately show ?thesis by auto
  qed
qed

section \<open>The path to the victim\<close>

fun chain :: "ZWalkInfo list \<Rightarrow> nat list \<Rightarrow> bool" where
  "chain cs [] = False"
| "chain cs [i] = (parentIdx (cs ! i) = None)"
| "chain cs (i # j # js) = (parentIdx (cs ! i) = Some j \<and> chain cs (j # js))"

lemma z_path_chain:
  "chain cs (i # js) \<Longrightarrow> z_path cs i acc = Some (acc @ map (\<lambda>k. pos (cs ! k)) (i # js))"
  by (induction js arbitrary: i acc) (simp_all add: z_path.simps)

lemma chain_exists:
  assumes "walk_ok hash n A a fs cs v" "1 < ways A" "i < length cs"
  shows "\<exists>js. chain cs (i # js) \<and> length js \<le> i div ways A \<and> sorted_wrt (>) (i # js)"
  using assms(3)
proof (induction i rule: less_induct)
  case (less i)
  from assms(1) less.prems have e: "entry_ok hash n A a fs cs i" by (simp add: walk_ok_def)
  show ?case
  proof (cases "parentIdx (cs ! i)")
    case None
    then show ?thesis by (intro exI [of _ "[]"]) simp
  next
    case (Some p)
    with e have i: "ways A + p * (ways A - 1) \<le> i" by (simp add: entry_ok_def)
    have "p * 1 \<le> p * (ways A - 1)" using assms(2) by (intro mult_le_mono) auto
    with i have p: "ways A + p \<le> i" by linarith
    with assms(2) have "p < i" by linarith
    with less obtain js where js: "chain cs (p # js)" "length js \<le> p div ways A" "sorted_wrt (>) (p # js)"
      by (meson less_trans)
    have "p div ways A + 1 = (p + ways A) div ways A"
      using div_add_self2 [of "ways A" p] assms(2) by linarith
    also have "\<dots> \<le> i div ways A" using p by (intro div_le_mono) simp
    finally show ?thesis
      using js Some \<open>p < i\<close> by (intro exI [of _ "p # js"]) auto
  qed
qed

text \<open>
  The first entry for a line has a parent that is the first entry for its line: another entry
  for the parent's line comes with the same children, and earlier. So the path to the victim
  meets no line twice.
\<close>

definition first_entry :: "ZWalkInfo list \<Rightarrow> nat \<Rightarrow> bool" where
  "first_entry cs i \<longleftrightarrow> (\<forall>j<i. lineId (cs ! j) \<noteq> lineId (cs ! i))"

lemma first_entry_parent:
  assumes ok: "z_ok hash n A" and w: "walk_ok hash n A a fs cs v" and i: "i < length cs"
    and f: "first_entry cs i" and p: "parentIdx (cs ! i) = Some p"
  shows "first_entry cs p"
  unfolding first_entry_def
proof (intro allI impI notI)
  fix q
  assume q: "q < p" "lineId (cs ! q) = lineId (cs ! p)"
  have e: "entry_ok hash n A a fs cs i" if "i < length cs" for i
    using w that by (simp add: walk_ok_def)
  from e [OF i] p obtain u where u: "p < fs" "lineId (cs ! i) \<noteq> lineId (cs ! p)" "u < ways A"
    "pos (cs ! i) = z_pos hash A u (line_addr A (cs ! p))" "lineId (cs ! i) = lookupArray A ! pos (cs ! i)"
    by (auto simp: entry_ok_def)
  then have "z_line hash A (line_addr A (cs ! q)) u \<noteq> lineId (cs ! q)"
    using q(2) by (simp add: z_line_def)
  moreover have "q < fs" using q(1) u(1) by simp
  moreover have "\<forall>p<fs. \<forall>w<ways A. z_line hash A (line_addr A (cs ! p)) w \<noteq> lineId (cs ! p) \<longrightarrow>
      (\<exists>j<length cs. parentIdx (cs ! j) = Some p \<and> pos (cs ! j) = z_pos hash A w (line_addr A (cs ! p)))"
    using w unfolding walk_ok_def by (elim conjE)
  ultimately obtain j where j: "j < length cs" "parentIdx (cs ! j) = Some q"
    "pos (cs ! j) = z_pos hash A u (line_addr A (cs ! q))"
    using u(3) by blast
  have "lineId (cs ! j) = lineId (cs ! i)" using e [OF j(1)] j(3) u(4,5) q(2) by (simp add: entry_ok_def)
  with f have "\<not> j < i" by (auto simp: first_entry_def)
  moreover have "j \<noteq> i" using j(2) p q(1) by auto
  moreover have "par_key (cs ! i) \<le> par_key (cs ! j)" if "i < j"
    using w that j(1) by (simp add: walk_ok_def)
  ultimately have "par_key (cs ! i) \<le> par_key (cs ! j)" by simp
  with j(2) p q(1) show False by (simp add: par_key_def)
qed

lemma chain_first:
  assumes ok: "z_ok hash n A" and w: "walk_ok hash n A a fs cs v"
    and "chain cs is" "set is \<subseteq> {..<length cs}" "first_entry cs (hd is)"
  shows "\<forall>i\<in>set is. first_entry cs i"
  using assms(3-5)
proof (induction "is" rule: induct_list012)
  case (3 i j js)
  from 3(3,4,5) have "i < length cs" "parentIdx (cs ! i) = Some j" "first_entry cs i" by simp_all
  from first_entry_parent [OF ok w this(1,3,2)] 3 show ?case by simp
qed simp_all

lemma first_entry_inj:
  "first_entry cs i \<Longrightarrow> first_entry cs j \<Longrightarrow> lineId (cs ! i) = lineId (cs ! j) \<Longrightarrow> i = j"
  unfolding first_entry_def by (metis linorder_neqE_nat)

section \<open>The moves\<close>

text \<open>What \<open>swapArray\<close> satisfies between \<open>preinsert\<close> and \<open>postinsert\<close>.\<close>

definition swaps_ok :: "(nat \<Rightarrow> u64 \<Rightarrow> u64) \<Rightarrow> nat \<Rightarrow> 'r ZArray \<Rightarrow> addr \<Rightarrow> nat \<Rightarrow> nat list \<Rightarrow> bool" where
  "swaps_ok hash n A a c ps \<longleftrightarrow> ps \<noteq> [] \<and> distinct ps \<and> set ps \<subseteq> {..<n} \<and>
     lookupArray A ! hd ps = c \<and> (\<exists>w<ways A. last ps = z_pos hash A w a) \<and>
     (\<forall>k. Suc k < length ps \<longrightarrow>
        (\<exists>w<ways A. ps ! k = z_pos hash A w (z_array A ! (lookupArray A ! (ps ! Suc k)))))"

lemma chain_nth:
  "chain cs is \<Longrightarrow> Suc k < length is \<Longrightarrow> parentIdx (cs ! (is ! k)) = Some (is ! Suc k)"
proof (induction "is" arbitrary: k rule: induct_list012)
  case (3 i j js)
  then show ?case by (cases k) auto
qed auto

lemma chain_last: "chain cs is \<Longrightarrow> parentIdx (cs ! last is) = None"
  by (induction "is" rule: induct_list012) auto

lemma chain_swaps:
  assumes ok: "z_ok hash n A" and w: "walk_ok hash n A a fs cs v"
    and ch: "chain cs is" "set is \<subseteq> {..<length cs}" "first_entry cs (hd is)" "sorted_wrt (>) is"
  shows "swaps_ok hash n A a (lineId (cs ! hd is)) (map (\<lambda>k. pos (cs ! k)) is)"
proof -
  have e: "entry_ok hash n A a fs cs i" if "i \<in> set is" for i
    using w that ch(2) by (auto simp: walk_ok_def)
  have f: "\<forall>i\<in>set is. first_entry cs i" by (rule chain_first [OF ok w ch(1-3)])
  have ne: "is \<noteq> []" using ch(1) by auto
  have line: "lineId (cs ! i) = lookupArray A ! pos (cs ! i)" "pos (cs ! i) < n" if "i \<in> set is" for i
    using e [OF that] by (simp_all add: entry_ok_def)
  have "inj_on (\<lambda>k. pos (cs ! k)) (set is)"
  proof (rule inj_onI)
    fix i j
    assume "i \<in> set is" "j \<in> set is" "pos (cs ! i) = pos (cs ! j)"
    then show "i = j" using line(1) f first_entry_inj [of cs i j] by simp
  qed
  moreover have "distinct is" using ch(4) by (induction "is") auto
  ultimately have "distinct (map (\<lambda>k. pos (cs ! k)) is)" by (simp add: distinct_map)
  moreover have "\<exists>w<ways A. last (map (\<lambda>k. pos (cs ! k)) is) = z_pos hash A w a"
    using e [of "last is"] chain_last [OF ch(1)] ne by (simp add: last_map entry_ok_def)
  moreover have "\<exists>w<ways A. map (\<lambda>k. pos (cs ! k)) is ! k =
      z_pos hash A w (z_array A ! (lookupArray A ! (map (\<lambda>k. pos (cs ! k)) is ! Suc k)))"
    if k: "Suc k < length is" for k
    using e [of "is ! k"] chain_nth [OF ch(1) k] line(1) [of "is ! Suc k"] k
    by (simp add: entry_ok_def)
  ultimately show ?thesis
    unfolding swaps_ok_def using ne line by (auto simp: hd_map)
qed

text \<open>The moves, along distinct positions.\<close>

lemma z_swap_length [simp]: "length (z_swap ps c lk) = length lk"
  by (induction ps c lk rule: z_swap.induct) auto

lemma z_swap_other: "x \<notin> set ps \<Longrightarrow> z_swap ps c lk ! x = lk ! x"
  by (induction ps c lk rule: z_swap.induct) auto

lemma z_swap_nth:
  "distinct ps \<Longrightarrow> set ps \<subseteq> {..<length lk} \<Longrightarrow> k < length ps \<Longrightarrow>
   z_swap ps c lk ! (ps ! k) = (if Suc k < length ps then lk ! (ps ! Suc k) else c)"
proof (induction ps c lk arbitrary: k rule: z_swap.induct)
  case (3 p q ps c lk)
  show ?case
  proof (cases k)
    case 0
    with 3 show ?thesis by (simp add: z_swap_other)
  next
    case (Suc j)
    with 3 have "z_swap (q # ps) c (lk[p := lk ! q]) ! ((q # ps) ! j) =
        (if Suc j < length (q # ps) then lk[p := lk ! q] ! ((q # ps) ! Suc j) else c)"
      by (intro 3(1)) auto
    moreover have "(q # ps) ! Suc j \<noteq> p" if "Suc j < length (q # ps)"
      using 3(2) that by (metis distinct.simps(2) nth_mem)
    ultimately show ?thesis using Suc by (simp add: nth_upd)
  qed
qed auto

lemma z_swap_mset:
  "ps \<noteq> [] \<Longrightarrow> distinct ps \<Longrightarrow> set ps \<subseteq> {..<length lk} \<Longrightarrow>
   mset (z_swap ps c lk) = add_mset c (mset lk - {#lk ! hd ps#})"
proof (induction ps c lk rule: z_swap.induct)
  case (3 p q ps c lk)
  then have "mset (z_swap (q # ps) c (lk[p := lk ! q])) = add_mset c (mset (lk[p := lk ! q]) - {#lk ! q#})"
    by simp
  with 3(4) show ?case by (simp add: mset_update)
qed (auto simp: mset_update)

lemma z_swap_perm:
  assumes "ps \<noteq> []" "distinct ps" "set ps \<subseteq> {..<length lk}" "lk ! hd ps = c" "distinct lk"
  shows "distinct (z_swap ps c lk) \<and> set (z_swap ps c lk) = set lk"
proof -
  have "hd ps < length lk" using hd_in_set [OF assms(1)] assms(3) by auto
  with z_swap_mset [OF assms(1-3), of c] assms(4) have "mset (z_swap ps c lk) = mset lk"
    using nth_mem [OF \<open>hd ps < length lk\<close>] by (metis insert_DiffM set_mset_mset)
  with assms(5) show ?thesis by (metis mset_eq_imp_distinct_iff mset_eq_setD)
qed

definition z_pending ::
  "(nat \<Rightarrow> u64 \<Rightarrow> u64) \<Rightarrow> nat \<Rightarrow> nat \<Rightarrow> ('r \<Rightarrow> bool) \<Rightarrow> addr \<Rightarrow> nat \<Rightarrow> 'r ZArray \<Rightarrow> bool" where
  "z_pending hash n K ranked a c A \<longleftrightarrow> z_ok hash n A \<and> ranked (z_rp A) \<and> cands A = K \<and> a \<noteq> 0 \<and> c < n \<and>
     z_contents A a = None \<and> swaps_ok hash n A a c (swapArray A)"

definition z_inv :: "(nat \<Rightarrow> u64 \<Rightarrow> u64) \<Rightarrow> nat \<Rightarrow> nat \<Rightarrow> ('r \<Rightarrow> bool) \<Rightarrow> 'r ZArray \<Rightarrow> bool" where
  "z_inv hash n K pinv A \<longleftrightarrow> z_ok hash n A \<and> pinv (z_rp A) \<and> cands A = K"

lemma swaps_ok_frame [simp]:
  "swaps_ok hash n (A\<lparr>z_rp := r\<rparr>) = swaps_ok hash n A"
  "swaps_ok hash n (A\<lparr>swapArray := s\<rparr>) = swaps_ok hash n A"
  "swaps_ok hash n (A\<lparr>lastCandIdx := i\<rparr>) = swaps_ok hash n A"
  by (auto simp: swaps_ok_def fun_eq_iff)

lemma z_postinsert_ok:
  assumes p: "z_pending hash n K ranked a c A"
    and inv: "pinv (rp_update rp c req (rp_replaced rp c (z_rp A)))"
  shows "succeeds (z_postinsert rp a req c A) (\<lambda>A'. z_inv hash n K pinv A' \<and>
    (\<forall>b. z_contents A' b =
       (if b = a then Some c else if z_contents A b = Some c then None else z_contents A b)))"
proof -
  from p have ok: "z_ok hash n A" and a: "a \<noteq> 0" "c < n" "z_contents A a = None" "cands A = K"
    and sw: "swaps_ok hash n A a c (swapArray A)" by (auto simp: z_pending_def)
  let ?ps = "swapArray A" and ?lk = "lookupArray A" and ?arr = "z_array A"
  let ?lk' = "z_swap ?ps c ?lk" and ?arr' = "?arr[c := a]"
  from ok have len: "length ?lk = n" "length ?arr = n" "distinct ?lk" "set ?lk = {..<n}" "uniq ?arr"
    by (auto simp: z_ok_def)
  from sw have ps: "?ps \<noteq> []" "distinct ?ps" "set ?ps \<subseteq> {..<length ?lk}" "?lk ! hd ?ps = c"
    using len(1) by (auto simp: swaps_ok_def)
  from a(1,3) have notin: "a \<notin> set ?arr" by (simp add: z_contents_def contents_of_None_iff)
  let ?A = "A\<lparr>lookupArray := ?lk', z_rp := rp_update rp c req (rp_replaced rp c (z_rp A)),
      z_array := ?arr', statSwaps := statSwaps A + (length ?ps - 1)\<rparr>"
  note perm = z_swap_perm [OF ps len(3)]
  have hd: "hd ?ps < n" using hd_in_set [OF ps(1)] ps(3) len(1) by auto
  have other: "?lk ! x \<noteq> c" if "x < n" "x \<noteq> hd ?ps" for x
    using lk_inj [OF ok that(1) hd] that(2) ps(4) by auto
  have own: "\<exists>w<ways A. x = z_pos hash A w (?arr' ! (?lk' ! x))"
    if x: "x < n" "?arr' ! (?lk' ! x) \<noteq> 0" for x
  proof (cases "x \<in> set ?ps")
    case False
    then have eq: "?lk' ! x = ?lk ! x" by (rule z_swap_other)
    have "x \<noteq> hd ?ps" using False hd_in_set [OF ps(1)] by auto
    from other [OF x(1) this] have "?arr' ! (?lk' ! x) = ?arr ! (?lk ! x)" by (simp add: eq nth_upd)
    with z_own [OF ok x(1)] x(2) show ?thesis by simp
  next
    case True
    then obtain k where k: "k < length ?ps" "?ps ! k = x" by (auto simp: in_set_conv_nth)
    note nth = z_swap_nth [OF ps(2,3) k(1), of c]
    show ?thesis
    proof (cases "Suc k < length ?ps")
      case True
      then have eq: "?lk' ! x = ?lk ! (?ps ! Suc k)" using nth k(2) by simp
      have "?ps ! Suc k \<in> set ?ps" using True by simp
      then have "?ps ! Suc k < n" using ps(3) len(1) by auto
      moreover have "?ps ! Suc k \<noteq> hd ?ps"
        using ps(1,2) True by (simp add: hd_conv_nth nth_eq_iff_index_eq)
      ultimately have "?lk ! (?ps ! Suc k) \<noteq> c" by (rule other)
      then have "?arr' ! (?lk' ! x) = ?arr ! (?lk ! (?ps ! Suc k))" by (simp add: eq nth_upd)
      with sw True k(2) show ?thesis by (auto simp: swaps_ok_def)
    next
      case False
      with k(1) have "length ?ps - 1 = k" by linarith
      with k(2) ps(1) have "x = last ?ps" by (simp add: last_conv_nth)
      moreover have "?arr' ! (?lk' ! x) = a" using nth False k(2) a(2) len(2) by simp
      ultimately show ?thesis using sw by (auto simp: swaps_ok_def)
    qed
  qed
  have "z_ok hash n ?A"
    using ok perm own uniq_upd [OF len(5) notin, of c] by (simp add: z_ok_def)
  moreover have "z_contents ?A b =
      (if b = a then Some c else if z_contents A b = Some c then None else z_contents A b)" for b
    using contents_of_upd [OF len(5) a(1) notin, of c b] a(2) len(2) by (simp add: z_contents_def)
  moreover obtain p0 rest where "?ps = p0 # rest" using ps(1) by (cases ?ps) auto
  ultimately show ?thesis
    using inv ps(4) a(4) by (simp add: z_postinsert_def z_inv_def)
qed

locale z_with_policy = repl_policy n cands_ok inv ranked "rp_update rp" "rp_replaced rp" "rp_rank rp"
  for n cands_ok and inv ranked :: "'r \<Rightarrow> bool" and rp :: "'r repl_ops" +
  fixes hash :: "nat \<Rightarrow> u64 \<Rightarrow> u64" and K :: nat
  assumes cands: "length cs \<le> K \<Longrightarrow> cands_ok cs"
begin

lemma z_preinsert_ok:
  assumes "z_inv hash n K inv A" "a \<noteq> 0" "z_contents A a = None"
  shows "\<exists>c A'. z_preinsert rp hash cc a req A = Some (Inr (c, z_array A ! c, A')) \<and> c < n \<and>
    z_pending hash n K ranked a c A' \<and> z_contents A' = z_contents A"
proof -
  from assms(1) have ok: "z_ok hash n A" and pinv: "inv (z_rp A)" and K: "cands A = K"
    by (auto simp: z_inv_def)
  have ways: "1 < ways A" "ways A \<le> K" using ok K by (auto simp: z_ok_def)
  let ?seeds = "z_seeds hash A a"
  from walk_result [OF ok seeds_ok [OF ok, of a]] obtain fs cs v where
    walk: "z_walk hash A 0 ?seeds (list_all (\<lambda>c. z_array A ! lineId c \<noteq> 0) ?seeds) = Inr (cs, v)"
      "walk_ok hash n A a fs cs v" "v \<longrightarrow> K \<le> length cs"
    unfolding K by blast
  let ?cs = "take K cs"
  have "ways A \<le> length cs" using walk(2) by (simp add: walk_ok_def)
  then have len: "0 < length ?cs" "length ?cs \<le> K" using ways by auto
  have e: "entry_ok hash n A a fs cs i" if "i < length ?cs" for i
    using walk(2) that by (simp add: walk_ok_def)
  have "set (map lineId ?cs) \<subseteq> {..<n}"
  proof
    fix x assume "x \<in> set (map lineId ?cs)"
    then obtain i where i: "i < length ?cs" "x = lineId (cs ! i)" by (auto simp: in_set_conv_nth)
    then show "x \<in> {..<n}" using e [OF i(1)] lk_less [OF ok] by (simp add: entry_ok_def)
  qed
  moreover have "map lineId ?cs \<noteq> []" using len(1) by auto
  moreover have "cands_ok (map lineId ?cs)" using len(2) by (intro cands) simp
  ultimately obtain c r where c: "rp_rank rp cc req (map lineId ?cs) (z_rp A) = Inr (c, r)"
    "c \<in> set (map lineId ?cs)" "ranked r" "c < n"
    using rank_E [OF pinv] by metis
  have "find (\<lambda>ii. lineId (?cs ! ii) = c) [0..<length ?cs] \<noteq> None"
    using c(2) unfolding find_upt_None_iff by (auto simp: in_set_conv_nth) blast
  then obtain m where m: "find (\<lambda>ii. lineId (?cs ! ii) = c) [0..<length ?cs] = Some m" by blast
  then have m1: "m < length ?cs" "lineId (cs ! m) = c" using find_upt_SomeD [OF m] by auto
  have "first_entry cs m"
    using m m1 unfolding first_entry_def find_Some_iff by auto
  from chain_exists [OF walk(2) ways(1), of m] m1(1) obtain js where
    js: "chain cs (m # js)" "length js \<le> m div ways A" "sorted_wrt (>) (m # js)" by auto
  from js(3) m1(1) have sub: "set (m # js) \<subseteq> {..<length ?cs}" by auto
  have ch: "chain ?cs is = chain cs is" if "set is \<subseteq> {..<length ?cs}" for "is"
    using that by (induction "is" rule: induct_list012) auto
  have "map (\<lambda>k. pos (?cs ! k)) (m # js) = map (\<lambda>k. pos (cs ! k)) (m # js)"
    using sub by auto
  with z_path_chain [of ?cs m js "[]"] ch [OF sub] js(1)
  have path: "z_path ?cs m [] = Some (map (\<lambda>k. pos (cs ! k)) (m # js))" by simp
  have "m div ways A \<le> K div ways A" using m1(1) by (intro div_le_mono) simp
  then have short: "length (map (\<lambda>k. pos (cs ! k)) (m # js)) \<le> K div ways A + 2" using js(2) by simp
  have "swaps_ok hash n A a c (map (\<lambda>k. pos (cs ! k)) (m # js))"
  proof -
    have "set (m # js) \<subseteq> {..<length cs}" using sub by auto
    moreover have "first_entry cs (hd (m # js))" using \<open>first_entry cs m\<close> by simp
    ultimately have "swaps_ok hash n A a (lineId (cs ! hd (m # js))) (map (\<lambda>k. pos (cs ! k)) (m # js))"
      by (rule chain_swaps [OF ok walk(2) js(1) _ _ js(3)])
    with m1(2) show ?thesis by simp
  qed
  moreover have "z_preinsert rp hash cc a req A = Some (Inr (c, z_array A ! c,
      A\<lparr>z_rp := r, swapArray := map (\<lambda>k. pos (cs ! k)) (m # js), lastCandIdx := m\<rparr>))"
    unfolding z_preinsert_def Let_def walk(1) K
    using walk(3) c(1,4) m path short ok by (simp add: z_ok_def)
  ultimately show ?thesis
    using ok c(3,4) assms(2,3) K by (intro exI) (auto simp: z_pending_def)
qed

end

sublocale z_with_policy \<subseteq> z: cache_array n "z_inv hash n K inv" "z_pending hash n K ranked"
  z_contents "z_lookup rp hash" "z_preinsert rp hash" "z_postinsert rp"
proof
  fix A a b i c cc req upd
  show "z_inv hash n K inv A \<Longrightarrow> z_contents A a = Some i \<Longrightarrow> i < n \<and> a \<noteq> 0"
    using z_contents_Some_iff [of hash n A a i] by (auto simp: z_inv_def)
  show "z_inv hash n K inv A \<Longrightarrow> z_contents A a = Some i \<Longrightarrow> z_contents A b = Some i \<Longrightarrow> a = b"
    using z_contents_Some_iff [of hash n A a i] z_contents_Some_iff [of hash n A b i]
    by (auto simp: z_inv_def)
  show "z_inv hash n K inv A \<Longrightarrow> a \<noteq> 0 \<Longrightarrow>
      succeeds (z_lookup rp hash a req upd A) (\<lambda>(r, A'). r = z_contents A a \<and>
        z_inv hash n K inv A' \<and> z_contents A' = z_contents A)"
    using z_lookup_ok [of hash n A a inv rp req upd, OF _ _ update_inv]
    by (auto simp: z_inv_def elim!: succeeds_mono)
  show "z_pending hash n K ranked b c A \<Longrightarrow> a \<noteq> 0 \<Longrightarrow>
      succeeds (z_lookup rp hash a req upd A) (\<lambda>(r, A'). r = z_contents A a \<and>
        z_pending hash n K ranked b c A' \<and> z_contents A' = z_contents A)"
    using z_lookup_ok [of hash n A a ranked rp req upd, OF _ _ update_ranked]
    by (auto simp: z_pending_def elim!: succeeds_mono)
  show "z_pending hash n K ranked a c A \<Longrightarrow> succeeds (z_postinsert rp a req c A) (\<lambda>A'.
      z_inv hash n K inv A' \<and> (\<forall>b. z_contents A' b =
        (if b = a then Some c else if z_contents A b = Some c then None else z_contents A b)))"
    by (rule z_postinsert_ok) (auto simp: z_pending_def intro: install_inv)
  assume a: "z_inv hash n K inv A" "a \<noteq> 0" "z_contents A a = None"
  from z_preinsert_ok [OF this, of cc req] obtain c A' where
    c: "z_preinsert rp hash cc a req A = Some (Inr (c, z_array A ! c, A'))" "c < n"
      "z_pending hash n K ranked a c A'" "z_contents A' = z_contents A"
    by blast
  moreover have "z_contents A b = Some c \<longleftrightarrow> b = z_array A ! c \<and> z_array A ! c \<noteq> 0" for b
    using z_contents_Some_iff [of hash n A b c] a(1) c(2) by (auto simp: z_inv_def)
  ultimately show "\<exists>c wb A'. z_preinsert rp hash cc a req A = Some (Inr (c, wb, A')) \<and> c < n \<and>
      z_pending hash n K ranked a c A' \<and> z_contents A' = z_contents A \<and>
      (\<forall>b. z_contents A b = Some c \<longleftrightarrow> b = wb \<and> wb \<noteq> 0)"
    by blast
qed

text \<open>
  The policies of a zcache: the candidates of a walk may repeat a line, which LRU, LFU and NRU
  allow. The MN4 policies, whose aging assumes that no candidate repeats, are not among them.
\<close>

interpretation z_lru: z_with_policy n "\<lambda>_. True" "\<lambda>p. length (lru_array p) = n"
  "\<lambda>p. length (lru_array p) = n" "lru_ops sa" hash K for n sa hash K
  unfolding z_with_policy_def z_with_policy_axioms_def
  using lru.repl_policy_axioms by (simp add: policy_ops)

interpretation z_nru: z_with_policy n "\<lambda>cs. length cs \<le> K" "nru_inv n K" "nru_ok n K"
  nru_ops hash K for n hash K
  unfolding z_with_policy_def z_with_policy_axioms_def
  using nru.repl_policy_axioms by (simp add: policy_ops)

interpretation z_lfu: z_with_policy n "\<lambda>_. True" "lfu_inv n" "\<lambda>p. length (lfu_array p) = n"
  lfu_ops hash K for n hash K
  unfolding z_with_policy_def z_with_policy_axioms_def
  using lfu.repl_policy_axioms by (simp add: policy_ops)

lemma z_new_ok:
  assumes "z_new n nways K r = Inr A" "n < 2 ^ 32" "pinv r"
  shows "z_inv hash n K pinv A" "z_contents A a = None"
proof -
  let ?m = "n div nways"
  from assms(1) have A: "A = \<lparr>z_array = replicate n 0, lookupArray = [0..<n], z_rp = r,
      z_numLines = n, z_numSets = ?m, ways = nways, cands = K, z_setMask = of_nat ?m - 1,
      swapArray = [], lastCandIdx = 0, statSwaps = 0\<rparr>"
    and p: "nways > 1" "nways \<le> K" "n mod nways = 0" "isPow2 ?m"
    by (auto simp: z_new_def Let_def require_eq_Inr_iff)
  from isPow2_power [OF p(4)] obtain k where k: "?m = 2 ^ k" by blast
  have "?m < 2 ^ 32" using assms(2) by (rule le_less_trans [OF div_le_dividend])
  then have "k < 32" unfolding k using power_strict_increasing_iff [of "2 :: nat" k 32] by simp
  moreover have "n = nways * ?m" using p(3) by auto
  ultimately show "z_inv hash n K pinv A"
    using p k assms(2,3) unfolding A z_inv_def z_ok_def by (auto simp: uniq_def)
  show "z_contents A a = None"
    unfolding A z_contents_def contents_of_def by (auto simp: find_upt_None_iff)
qed

section \<open>Properties\<close>

text \<open>
  C17: a zcache replacement loses only its victim. With LRU, inserting an absent line into an
  array that satisfies the invariant succeeds: no assertion fails, no array is accessed out of
  bounds and both loops of \<open>preinsert\<close> end. Afterwards the line is found at the victim's id,
  the line whose address \<open>preinsert\<close> gave for the writeback is not found, every other line is
  found where it was, though it may have moved, and the invariant holds.
\<close>

theorem zcache_replacement_correct:
  assumes "z_inv hash n K (\<lambda>p. length (lru_array p) = n) A" "a \<noteq> 0" "z_contents A a = None"
  shows "\<exists>c wb A1 A2. z_preinsert (lru_ops sa) hash cc a req A = Some (Inr (c, wb, A1)) \<and>
    z_postinsert (lru_ops sa) a req c A1 = Inr A2 \<and>
    z_inv hash n K (\<lambda>p. length (lru_array p) = n) A2 \<and> (wb \<noteq> 0 \<longrightarrow> z_contents A wb = Some c) \<and>
    (\<forall>b req' upd. b \<noteq> 0 \<longrightarrow> (\<exists>A3. z_lookup (lru_ops sa) hash b req' upd A2 =
       Inr (if b = a then Some c else if b = wb then None else z_contents A b, A3)))"
proof -
  from z_lru.z.fill_ok [OF assms, of sa cc req] obtain c wb A1 A2 where
    f: "z_preinsert (lru_ops sa) hash cc a req A = Some (Inr (c, wb, A1))"
      "z_postinsert (lru_ops sa) a req c A1 = Inr A2"
      "z_inv hash n K (\<lambda>p. length (lru_array p) = n) A2" "z_contents A2 a = Some c"
      "wb \<noteq> 0 \<longrightarrow> z_contents A wb = Some c"
      "\<forall>b. b \<noteq> a \<longrightarrow> z_contents A2 b = (if b = wb then None else z_contents A b)"
    by blast
  have "\<exists>A3. z_lookup (lru_ops sa) hash b req' upd A2 =
      Inr (if b = a then Some c else if b = wb then None else z_contents A b, A3)" if "b \<noteq> 0" for b req' upd
  proof -
    have "z_contents A2 b = (if b = a then Some c else if b = wb then None else z_contents A b)"
      using f(4,6) by simp
    then show ?thesis
      using z_lru.z.lookup_ok [OF f(3) that, of sa req' upd] by (auto simp: succeeds_iff)
  qed
  with f(1-3,5) show ?thesis by blast
qed

text \<open>A two-way zcache of eight lines and four candidates, hashed by the Sandy Bridge function.\<close>

theorem zcache_replacement_correct_witness:
  "\<exists>A c wb A1 A2. z_new 8 2 4 (lru_new 8) = Inr A \<and>
    z_preinsert (lru_ops True) sb_hash \<lparr>cc_numSharers = (\<lambda>_. 0), cc_isValid = (\<lambda>_. True)\<rparr> 77 sample_req A
      = Some (Inr (c, wb, A1)) \<and>
    z_postinsert (lru_ops True) 77 sample_req c A1 = Inr A2 \<and>
    (\<exists>A3. z_lookup (lru_ops True) sb_hash 77 sample_req True A2 = Inr (Some c, A3))"
proof -
  obtain A :: "LRU ZArray" where A: "z_new 8 2 4 (lru_new 8) = Inr A"
    by (simp add: z_new_def isPow2_def)
  have "z_inv sb_hash 8 4 (\<lambda>p. length (lru_array p) = 8) A" "z_contents A 77 = None"
    using z_new_ok [OF A, where pinv = "\<lambda>p. length (lru_array p) = 8"] by (simp_all add: lru_new_def)
  from zcache_replacement_correct [OF this(1) _ this(2), of True
      "\<lparr>cc_numSharers = (\<lambda>_. 0), cc_isValid = (\<lambda>_. True)\<rparr>" sample_req]
  obtain c wb A1 A2 where f:
    "z_preinsert (lru_ops True) sb_hash \<lparr>cc_numSharers = (\<lambda>_. 0), cc_isValid = (\<lambda>_. True)\<rparr> 77 sample_req A
      = Some (Inr (c, wb, A1))" "z_postinsert (lru_ops True) 77 sample_req c A1 = Inr A2"
    and l: "\<forall>b req' upd. b \<noteq> 0 \<longrightarrow> (\<exists>A3. z_lookup (lru_ops True) sb_hash b req' upd A2 =
       Inr (if b = 77 then Some c else if b = wb then None else z_contents A b, A3))"
    by auto
  from l [rule_format, of 77 sample_req True] have
    "\<exists>A3. z_lookup (lru_ops True) sb_hash 77 sample_req True A2 = Inr (Some c, A3)" by simp
  with A f show ?thesis by blast
qed

end
