(* ===== verification/Dram_Bank.thy ===== *)
theory Dram_Bank
  imports Prelude
begin

text \<open>
  The base of the DRAMsim3 model: addresses, commands and transactions (\<open>common.h\<close>), and the
  state machine of a bank (\<open>bankstate.cc\<close>). \<open>AbruptExit\<close> ends the process, so it is an
  error. Clock cycles are natural numbers below \<open>2 ^ 64\<close>.
\<close>

section \<open>Addresses, commands, transactions\<close>

record Address =
  channel :: int
  rank :: int
  bankgroup :: int
  bank :: int
  row :: int
  column :: int

definition no_addr :: Address where
  "no_addr = \<lparr>channel = -1, rank = -1, bankgroup = -1, bank = -1, row = -1, column = -1\<rparr>"

datatype CommandType = READ | READ_PRECHARGE | WRITE | WRITE_PRECHARGE | ACTIVATE | PRECHARGE
  | REFRESH_BANK | REFRESH | SREF_ENTER | SREF_EXIT | SIZE

record Command =
  cmd_type :: CommandType
  cmd_addr :: Address
  hex_addr :: u64

definition mk_cmd :: "CommandType \<Rightarrow> Address \<Rightarrow> u64 \<Rightarrow> Command" where
  "mk_cmd t a h = \<lparr>cmd_type = t, cmd_addr = a, hex_addr = h\<rparr>"

text \<open>The default constructor makes the command that is not valid.\<close>

definition no_cmd :: Command where
  "no_cmd = \<lparr>cmd_type = SIZE, cmd_addr = no_addr, hex_addr = 0\<rparr>"

definition IsValid :: "Command \<Rightarrow> bool" where
  "IsValid c \<longleftrightarrow> cmd_type c \<noteq> SIZE"

definition IsRefresh :: "Command \<Rightarrow> bool" where
  "IsRefresh c \<longleftrightarrow> cmd_type c = REFRESH \<or> cmd_type c = REFRESH_BANK"

definition IsRead :: "Command \<Rightarrow> bool" where
  "IsRead c \<longleftrightarrow> cmd_type c = READ \<or> cmd_type c = READ_PRECHARGE"

definition IsWrite :: "Command \<Rightarrow> bool" where
  "IsWrite c \<longleftrightarrow> cmd_type c = WRITE \<or> cmd_type c = WRITE_PRECHARGE"

definition IsReadWrite :: "Command \<Rightarrow> bool" where
  "IsReadWrite c \<longleftrightarrow> IsRead c \<or> IsWrite c"

definition IsRankCMD :: "Command \<Rightarrow> bool" where
  "IsRankCMD c \<longleftrightarrow> cmd_type c = REFRESH \<or> cmd_type c = SREF_ENTER \<or> cmd_type c = SREF_EXIT"

abbreviation cRank :: "Command \<Rightarrow> int" where "cRank c \<equiv> rank (cmd_addr c)"
abbreviation cBankgroup :: "Command \<Rightarrow> int" where "cBankgroup c \<equiv> bankgroup (cmd_addr c)"
abbreviation cBank :: "Command \<Rightarrow> int" where "cBank c \<equiv> bank (cmd_addr c)"
abbreviation cRow :: "Command \<Rightarrow> int" where "cRow c \<equiv> row (cmd_addr c)"
abbreviation cColumn :: "Command \<Rightarrow> int" where "cColumn c \<equiv> column (cmd_addr c)"

lemmas cmd_class_defs = IsValid_def IsRefresh_def IsRead_def IsWrite_def IsReadWrite_def IsRankCMD_def

lemma IsValid_no_cmd [simp]: "\<not> IsValid no_cmd"
  by (simp add: IsValid_def no_cmd_def)

lemma mk_cmd_sel [simp]:
  "cmd_type (mk_cmd t a h) = t" "cmd_addr (mk_cmd t a h) = a" "hex_addr (mk_cmd t a h) = h"
  by (simp_all add: mk_cmd_def)

record Transaction =
  t_addr :: u64
  added_cycle :: nat
  complete_cycle :: nat
  is_write :: bool

definition mk_trans :: "u64 \<Rightarrow> bool \<Rightarrow> Transaction" where
  "mk_trans a w = \<lparr>t_addr = a, added_cycle = 0, complete_cycle = 0, is_write = w\<rparr>"

section \<open>Banks\<close>

datatype State = OPEN | CLOSED | SREF | PD | State_SIZE

record BankState =
  bstate :: State
  cmd_timing :: "CommandType \<Rightarrow> nat"
  open_row :: int
  row_hit_count :: int

definition new_bank :: BankState where
  "new_bank = \<lparr>bstate = CLOSED, cmd_timing = (\<lambda>_. 0), open_row = -1, row_hit_count = 0\<rparr>"

definition AbruptExit :: "string \<Rightarrow> 'a res" where
  "AbruptExit f = Inl (Panicked f)"

definition required_type :: "BankState \<Rightarrow> Command \<Rightarrow> CommandType res" where
  "required_type b cmd =
     (case bstate b of
        CLOSED \<Rightarrow>
          (if cmd_type cmd \<in> {READ, READ_PRECHARGE, WRITE, WRITE_PRECHARGE} then Inr ACTIVATE
           else if cmd_type cmd \<in> {REFRESH, REFRESH_BANK, SREF_ENTER} then Inr (cmd_type cmd)
           else AbruptExit ''bankstate.cc'')
      | OPEN \<Rightarrow>
          (if cmd_type cmd \<in> {READ, READ_PRECHARGE, WRITE, WRITE_PRECHARGE} then
             Inr (if cRow cmd = open_row b then cmd_type cmd else PRECHARGE)
           else if cmd_type cmd \<in> {REFRESH, REFRESH_BANK, SREF_ENTER} then Inr PRECHARGE
           else AbruptExit ''bankstate.cc'')
      | SREF \<Rightarrow>
          (if cmd_type cmd \<in> {READ, READ_PRECHARGE, WRITE, WRITE_PRECHARGE} then Inr SREF_EXIT
           else AbruptExit ''bankstate.cc'')
      | PD \<Rightarrow> AbruptExit ''bankstate.cc''
      | State_SIZE \<Rightarrow> AbruptExit ''bankstate.cc'')"

definition bank_GetReadyCommand :: "BankState \<Rightarrow> Command \<Rightarrow> nat \<Rightarrow> Command res" where
  "bank_GetReadyCommand b cmd clk =
     bindR (required_type b cmd) (\<lambda>t.
       if t \<noteq> SIZE \<and> clk \<ge> cmd_timing b t then Inr (mk_cmd t (cmd_addr cmd) (hex_addr cmd))
       else Inr no_cmd)"

definition bank_UpdateState :: "BankState \<Rightarrow> Command \<Rightarrow> BankState res" where
  "bank_UpdateState b cmd =
     (case bstate b of
        OPEN \<Rightarrow>
          (case cmd_type cmd of
             READ \<Rightarrow> Inr (b\<lparr>row_hit_count := row_hit_count b + 1\<rparr>)
           | WRITE \<Rightarrow> Inr (b\<lparr>row_hit_count := row_hit_count b + 1\<rparr>)
           | READ_PRECHARGE \<Rightarrow> Inr (b\<lparr>bstate := CLOSED, open_row := -1, row_hit_count := 0\<rparr>)
           | WRITE_PRECHARGE \<Rightarrow> Inr (b\<lparr>bstate := CLOSED, open_row := -1, row_hit_count := 0\<rparr>)
           | PRECHARGE \<Rightarrow> Inr (b\<lparr>bstate := CLOSED, open_row := -1, row_hit_count := 0\<rparr>)
           | _ \<Rightarrow> AbruptExit ''bankstate.cc'')
      | CLOSED \<Rightarrow>
          (case cmd_type cmd of
             REFRESH \<Rightarrow> Inr b
           | REFRESH_BANK \<Rightarrow> Inr b
           | ACTIVATE \<Rightarrow> Inr (b\<lparr>bstate := OPEN, open_row := cRow cmd\<rparr>)
           | SREF_ENTER \<Rightarrow> Inr (b\<lparr>bstate := SREF\<rparr>)
           | _ \<Rightarrow> AbruptExit ''bankstate.cc'')
      | SREF \<Rightarrow>
          (case cmd_type cmd of
             SREF_EXIT \<Rightarrow> Inr (b\<lparr>bstate := CLOSED\<rparr>)
           | _ \<Rightarrow> AbruptExit ''bankstate.cc'')
      | _ \<Rightarrow> AbruptExit ''bankstate.cc'')"

definition bank_UpdateTiming :: "CommandType \<Rightarrow> nat \<Rightarrow> BankState \<Rightarrow> BankState" where
  "bank_UpdateTiming t time b = b\<lparr>cmd_timing := (cmd_timing b)(t := max (cmd_timing b t) time)\<rparr>"

definition IsRowOpen :: "BankState \<Rightarrow> bool" where
  "IsRowOpen b \<longleftrightarrow> bstate b = OPEN"

section \<open>Invariant and safety\<close>

text \<open>
  The invariant: only the three states the code gives a meaning, and a row number and hits only
  in an open bank.
\<close>

definition bank_inv :: "BankState \<Rightarrow> bool" where
  "bank_inv b \<longleftrightarrow> bstate b \<in> {OPEN, CLOSED, SREF} \<and>
     (bstate b \<noteq> OPEN \<longrightarrow> open_row b = -1 \<and> row_hit_count b = 0) \<and> 0 \<le> row_hit_count b"

lemma new_bank_inv [simp]: "bank_inv new_bank"
  by (simp add: bank_inv_def new_bank_def)

lemma bank_UpdateTiming_inv [simp]: "bank_inv (bank_UpdateTiming t time b) = bank_inv b"
  by (simp add: bank_inv_def bank_UpdateTiming_def)

lemma bank_UpdateTiming_sel [simp]:
  "bstate (bank_UpdateTiming t time b) = bstate b" "open_row (bank_UpdateTiming t time b) = open_row b"
  "row_hit_count (bank_UpdateTiming t time b) = row_hit_count b"
  by (simp_all add: bank_UpdateTiming_def)

lemma bank_UpdateTiming_ge: "cmd_timing b t' \<le> cmd_timing (bank_UpdateTiming t time b) t'"
  by (simp add: bank_UpdateTiming_def)

lemma bank_UpdateState_inv:
  assumes "bank_inv b" "bank_UpdateState b cmd = Inr b'"
  shows "bank_inv b'"
  using assms by (auto simp: bank_UpdateState_def bank_inv_def AbruptExit_def split: State.splits CommandType.splits)

lemma bank_UpdateState_timing:
  "bank_UpdateState b cmd = Inr b' \<Longrightarrow> cmd_timing b' = cmd_timing b"
  by (auto simp: bank_UpdateState_def AbruptExit_def split: State.splits CommandType.splits)

text \<open>What the ready command can be, and that it may then be executed.\<close>

lemma bank_ready_cases:
  assumes "bank_GetReadyCommand b cmd clk = Inr r" "IsValid r"
  obtains "bstate b = CLOSED" "IsReadWrite cmd" "cmd_type r = ACTIVATE"
  | "bstate b = CLOSED" "cmd_type cmd \<in> {REFRESH, REFRESH_BANK, SREF_ENTER}" "cmd_type r = cmd_type cmd"
  | "bstate b = OPEN" "IsReadWrite cmd" "cRow cmd = open_row b" "cmd_type r = cmd_type cmd"
  | "bstate b = OPEN" "IsReadWrite cmd" "cRow cmd \<noteq> open_row b" "cmd_type r = PRECHARGE"
  | "bstate b = OPEN" "cmd_type cmd \<in> {REFRESH, REFRESH_BANK, SREF_ENTER}" "cmd_type r = PRECHARGE"
  | "bstate b = SREF" "IsReadWrite cmd" "cmd_type r = SREF_EXIT"
proof -
  from assms obtain t where t: "required_type b cmd = Inr t" "cmd_type r = t"
    unfolding bank_GetReadyCommand_def by (auto simp: bindR_eq_Inr_iff split: if_splits)
  then show thesis using that
    unfolding required_type_def IsReadWrite_def IsRead_def IsWrite_def AbruptExit_def
    by (cases "bstate b"; cases "cmd_type cmd"; cases "cRow cmd = open_row b") auto
qed

lemma bank_ready_fields:
  assumes "bank_GetReadyCommand b cmd clk = Inr r" "IsValid r"
  shows "cmd_addr r = cmd_addr cmd" "hex_addr r = hex_addr cmd" "cmd_timing b (cmd_type r) \<le> clk"
  using assms unfolding bank_GetReadyCommand_def by (auto simp: bindR_eq_Inr_iff split: if_splits)

lemma bank_ready_executes:
  assumes "bank_GetReadyCommand b cmd clk = Inr r" "IsValid r"
  shows "succeeds (bank_UpdateState b r) (\<lambda>b'. True)"
  using assms
proof (cases rule: bank_ready_cases)
  case 3
  then show ?thesis
    by (auto simp: bank_UpdateState_def IsReadWrite_def IsRead_def IsWrite_def)
qed (auto simp: bank_UpdateState_def)

lemma bank_ready_defined:
  assumes "bank_inv b" "bstate b \<noteq> SREF" "IsReadWrite cmd \<or> cmd_type cmd \<in> {REFRESH, REFRESH_BANK, SREF_ENTER}"
  shows "succeeds (bank_GetReadyCommand b cmd clk) (\<lambda>r. True)"
  using assms unfolding bank_GetReadyCommand_def required_type_def bank_inv_def cmd_class_defs
  by (cases "bstate b") auto

text \<open>How many commands a read or write needs: the reads and writes of a bank end.\<close>

lemma bank_ready_rw:
  assumes "bank_GetReadyCommand b cmd clk = Inr r" "IsReadWrite r"
  shows "cmd_type r = cmd_type cmd" "bstate b = OPEN" "cRow cmd = open_row b"
proof -
  have v: "IsValid r" using assms(2) by (auto simp: cmd_class_defs)
  from assms(1) v have "cmd_type r = cmd_type cmd \<and> bstate b = OPEN \<and> cRow cmd = open_row b"
    by (cases rule: bank_ready_cases) (use assms(2) in \<open>auto simp: cmd_class_defs\<close>)
  then show "cmd_type r = cmd_type cmd" "bstate b = OPEN" "cRow cmd = open_row b" by auto
qed

end
