(* ===== verification/Dram_Config.thy ===== *)
theory Dram_Config
  imports Dram_Bank
begin

text \<open>
  The configuration of DRAMsim3 (\<open>configuration.cc\<close>): its parameters, how they are read from
  the configuration file, and the mapping of byte addresses to channel, rank, bank group,
  bank, row and column. The file reader (\<open>INIReader\<close>) is an argument that returns the value
  of an option or the default. Power, output and thermal parameters are left out.
\<close>

section \<open>Parameters\<close>

datatype DRAMProtocol = DDR3 | DDR4 | GDDR5 | GDDR5X | GDDR6 | LPDDR | LPDDR3 | LPDDR4 | HBM | HBM2
  | HMC

datatype RefreshPolicy = RANK_LEVEL_SIMULTANEOUS | RANK_LEVEL_STAGGERED | BANK_LEVEL_STAGGERED

datatype QueueStructure = PER_RANK | PER_BANK

record SystemParams =
  channel_size :: int
  channels :: int
  bus_width :: int
  address_mapping :: string
  queue_structure :: string
  row_buf_policy :: string
  refresh_policy :: RefreshPolicy
  cmd_queue_size :: int
  trans_queue_size :: int
  unified_queue :: bool
  enable_self_refresh :: bool
  sref_threshold :: int

record DramStructure =
  protocol :: DRAMProtocol
  ranks :: int
  bankgroups :: int
  banks_per_group :: int
  banks :: int
  rows :: int
  columns :: int
  device_width :: int
  BL :: int
  burst_cycle :: int
  enable_hbm_dual_cmd :: bool

record ColumnTiming =
  AL :: int
  CL :: int
  CWL :: int
  RL :: int
  WL :: int
  tCCD_L :: int
  tCCD_S :: int
  tRTRS :: int
  tRTP :: int
  tWTR_L :: int
  tWTR_S :: int
  tWR :: int
  read_delay :: int
  write_delay :: int

record RowTiming =
  tRP :: int
  tRRD_L :: int
  tRRD_S :: int
  tRAS :: int
  tRCD :: int
  tRFC :: int
  tRC :: int
  tCKESR :: int
  tXS :: int
  tRFCb :: int
  tREFI :: int
  tREFIb :: int
  tFAW :: int
  tPPD :: int
  t32AW :: int
  tRCDRD :: int
  tRCDWR :: int
  ideal_memory_latency :: int

record AddrMap =
  shift_bits :: nat
  ch_pos :: nat
  ra_pos :: nat
  bg_pos :: nat
  ba_pos :: nat
  ro_pos :: nat
  co_pos :: nat
  ch_mask :: u64
  ra_mask :: u64
  bg_mask :: u64
  ba_mask :: u64
  ro_mask :: u64
  co_mask :: u64

record Config =
  sys :: SystemParams
  dram :: DramStructure
  amap :: AddrMap
  colt :: ColumnTiming
  rowt :: RowTiming

definition IsGDDR :: "DramStructure \<Rightarrow> bool" where
  "IsGDDR d \<longleftrightarrow> protocol d = GDDR5 \<or> protocol d = GDDR5X \<or> protocol d = GDDR6"

definition IsHBM :: "DramStructure \<Rightarrow> bool" where
  "IsHBM d \<longleftrightarrow> protocol d = HBM \<or> protocol d = HBM2"

section \<open>Reading the parameters\<close>

text \<open>The reader: integer, Boolean and string options by section and name, with a default.\<close>

record Reader =
  rd_int :: "string \<Rightarrow> string \<Rightarrow> int \<Rightarrow> int"
  rd_bool :: "string \<Rightarrow> string \<Rightarrow> bool \<Rightarrow> bool"
  rd_str :: "string \<Rightarrow> string \<Rightarrow> string \<Rightarrow> string"

definition GetDRAMProtocol :: "string \<Rightarrow> DRAMProtocol res" where
  "GetDRAMProtocol s =
     (case map_of [(''DDR3'', DDR3), (''DDR4'', DDR4), (''GDDR5'', GDDR5), (''GDDR5X'', GDDR5X),
                   (''GDDR6'', GDDR6), (''LPDDR'', LPDDR), (''LPDDR3'', LPDDR3), (''LPDDR4'', LPDDR4),
                   (''HBM'', HBM), (''HBM2'', HBM2), (''HMC'', HMC)] s of
        None \<Rightarrow> AbruptExit ''configuration.cc''
      | Some p \<Rightarrow> Inr p)"

definition InitSystemParams :: "Reader \<Rightarrow> SystemParams res" where
  "InitSystemParams r =
     (let ref_policy = rd_str r ''system'' ''refresh_policy'' ''RANK_LEVEL_STAGGERED'' in
      bindR (if ref_policy = ''RANK_LEVEL_SIMULTANEOUS'' then Inr RANK_LEVEL_SIMULTANEOUS
             else if ref_policy = ''RANK_LEVEL_STAGGERED'' then Inr RANK_LEVEL_STAGGERED
             else if ref_policy = ''BANK_LEVEL_STAGGERED'' then Inr BANK_LEVEL_STAGGERED
             else AbruptExit ''configuration.cc'')
        (\<lambda>policy. Inr
          \<lparr>channel_size = rd_int r ''system'' ''channel_size'' 1024,
           channels = rd_int r ''system'' ''channels'' 1,
           bus_width = rd_int r ''system'' ''bus_width'' 64,
           address_mapping = rd_str r ''system'' ''address_mapping'' ''chrobabgraco'',
           queue_structure = rd_str r ''system'' ''queue_structure'' ''PER_BANK'',
           row_buf_policy = rd_str r ''system'' ''row_buf_policy'' ''OPEN_PAGE'',
           refresh_policy = policy,
           cmd_queue_size = rd_int r ''system'' ''cmd_queue_size'' 16,
           trans_queue_size = rd_int r ''system'' ''trans_queue_size'' 32,
           unified_queue = rd_bool r ''system'' ''unified_queue'' False,
           enable_self_refresh = rd_bool r ''system'' ''enable_self_refresh'' False,
           sref_threshold = rd_int r ''system'' ''sref_threshold'' 1000\<rparr>))"

text \<open>
  \<open>InitDRAMParams\<close>; HMC, which has a memory system of its own, keeps the block size in \<open>BL\<close>.
  C++ division truncates towards zero; the operands here are not negative.
\<close>

definition InitDRAMParams :: "Reader \<Rightarrow> DramStructure res" where
  "InitDRAMParams r =
     bindR (GetDRAMProtocol (rd_str r ''dram_structure'' ''protocol'' ''DDR3'')) (\<lambda>p.
       (let bgs = rd_int r ''dram_structure'' ''bankgroups'' 2;
            bpg = rd_int r ''dram_structure'' ''banks_per_group'' 2;
            bankgroup_enable = rd_bool r ''dram_structure'' ''bankgroup_enable'' True;
            bpg' = (if \<not> bankgroup_enable then bpg * bgs else bpg);
            bgs' = (if \<not> bankgroup_enable then 1 else bgs);
            cols = rd_int r ''dram_structure'' ''columns'' 1024;
            dw = rd_int r ''dram_structure'' ''device_width'' 8;
            bl = rd_int r ''dram_structure'' ''BL'' 8;
            block_size = rd_int r ''hmc'' ''block_size'' 64;
            hbm = (p = HBM \<or> p = HBM2);
            gddr = (p = GDDR5 \<or> p = GDDR5X \<or> p = GDDR6);
            bl1 = (if p = HMC then block_size * 8 div dw else bl);
            burst = (if bl1 = 0 then 0
                     else if p = GDDR5 then bl1 div 4
                     else if p = GDDR5X then bl1 div 8
                     else if p = GDDR6 then bl1 div 16
                     else bl1 div 2);
            bl2 = (if bl1 = 0 then (if \<not> gddr \<and> hbm then 4 else 8) else bl1)
        in Inr \<lparr>protocol = p, ranks = 0, bankgroups = bgs', banks_per_group = bpg', banks = bgs' * bpg',
                rows = rd_int r ''dram_structure'' ''rows'' 65536,
                columns = (if gddr then cols * bl2 else if hbm then cols * 2 else cols),
                device_width = dw, BL = bl2, burst_cycle = burst,
                enable_hbm_dual_cmd = (rd_bool r ''dram_structure'' ''hbm_dual_cmd'' True \<and> hbm)\<rparr>))"

definition CalculateSize :: "SystemParams \<Rightarrow> DramStructure \<Rightarrow> SystemParams \<times> DramStructure" where
  "CalculateSize s d =
     (let devices_per_rank = bus_width s div device_width d;
          page_size = columns d * device_width d div 8;
          megs_per_bank = page_size * (rows d div 1024) div 1024;
          megs_per_rank = megs_per_bank * banks d * devices_per_rank
      in if megs_per_rank > channel_size s then
           (s\<lparr>channel_size := megs_per_rank\<rparr>, d\<lparr>ranks := 1\<rparr>)
         else
           (let n = channel_size s div megs_per_rank
            in (s\<lparr>channel_size := n * megs_per_rank\<rparr>, d\<lparr>ranks := n\<rparr>)))"

definition InitTimingParams :: "Reader \<Rightarrow> DramStructure \<Rightarrow> ColumnTiming \<times> RowTiming" where
  "InitTimingParams r d =
     (let t = rd_int r ''timing'';
          al = t ''AL'' 0; cl = t ''CL'' 12; cwl = t ''CWL'' 12;
          rl = al + cl; wl = al + cwl;
          ras = t ''tRAS'' 24; rp = t ''tRP'' 10
      in (\<lparr>AL = al, CL = cl, CWL = cwl, RL = rl, WL = wl,
           tCCD_L = t ''tCCD_L'' 6, tCCD_S = t ''tCCD_S'' 4, tRTRS = t ''tRTRS'' 2, tRTP = t ''tRTP'' 5,
           tWTR_L = t ''tWTR_L'' 5, tWTR_S = t ''tWTR_S'' 5, tWR = t ''tWR'' 10,
           read_delay = rl + burst_cycle d, write_delay = wl + burst_cycle d\<rparr>,
          \<lparr>tRP = rp, tRRD_L = t ''tRRD_L'' 4, tRRD_S = t ''tRRD_S'' 4, tRAS = ras, tRCD = t ''tRCD'' 10,
           tRFC = t ''tRFC'' 74, tRC = ras + rp, tCKESR = t ''tCKESR'' 12, tXS = t ''tXS'' 432,
           tRFCb = t ''tRFCb'' 20, tREFI = t ''tREFI'' 7800, tREFIb = t ''tREFIb'' 1950,
           tFAW = t ''tFAW'' 50, tPPD = t ''tPPD'' 0, t32AW = t ''t32AW'' 330,
           tRCDRD = t ''tRCDRD'' 24, tRCDWR = t ''tRCDWR'' 20,
           ideal_memory_latency = t ''ideal_memory_latency'' 10\<rparr>))"

section \<open>The address mapping\<close>

text \<open>\<open>LogBase2\<close> of \<open>common.cc\<close>.\<close>

function LogBase2 :: "int \<Rightarrow> nat" where
  "LogBase2 p = (if p > 1 then Suc (LogBase2 (p div 2)) else 0)"
  by pat_completeness auto
termination by (relation "measure nat") auto

declare LogBase2.simps [simp del]

text \<open>
  The widths of the six fields, and the two-character tokens of the mapping string. A column
  field narrower than a burst would have a negative width: \<open>SetAddressMapping\<close> rules it out.
\<close>

definition field_widths :: "SystemParams \<Rightarrow> DramStructure \<Rightarrow> (string \<times> nat) list" where
  "field_widths s d =
     [(''ch'', LogBase2 (channels s)), (''ra'', LogBase2 (ranks d)), (''bg'', LogBase2 (bankgroups d)),
      (''ba'', LogBase2 (banks_per_group d)), (''ro'', LogBase2 (rows d)),
      (''co'', LogBase2 (columns d) - LogBase2 (BL d))]"

fun tokens :: "string \<Rightarrow> string list" where
  "tokens (a # b # cs) = [a, b] # tokens cs"
| "tokens [a] = [[a]]"
| "tokens [] = []"

text \<open>
  The loop that takes the tokens from the back and gives each the next position; a token that
  comes twice keeps the last position.
\<close>

fun field_positions ::
  "(string \<times> nat) list \<Rightarrow> string list \<Rightarrow> nat \<Rightarrow> (string \<rightharpoonup> nat) \<Rightarrow> (string \<rightharpoonup> nat) res" where
  "field_positions ws [] pos fp = Inr fp"
| "field_positions ws (token # ts) pos fp =
     (case map_of ws token of
        None \<Rightarrow> AbruptExit ''configuration.cc''
      | Some w \<Rightarrow> field_positions ws ts (pos + w) (fp(token \<mapsto> pos)))"

text \<open>\<open>std::map::at\<close> throws when the field has no position.\<close>

definition map_at :: "(string \<rightharpoonup> nat) \<Rightarrow> string \<Rightarrow> nat res" where
  "map_at m k = (case m k of None \<Rightarrow> Inl (Panicked ''std::out_of_range'') | Some v \<Rightarrow> Inr v)"

definition field_mask :: "nat \<Rightarrow> u64" where
  "field_mask w = push_bit w 1 - 1"

definition SetAddressMapping :: "SystemParams \<Rightarrow> DramStructure \<Rightarrow> AddrMap res" where
  "SetAddressMapping s d =
     (let request_size_bytes = bus_width s div 8 * BL d;
          ws = field_widths s d;
          m = (\<lambda>f. field_mask (the (map_of ws f)))
      in require (length (address_mapping s) = 12) (Panicked ''configuration.cc'')
        (require (LogBase2 (BL d) \<le> LogBase2 (columns d) \<and> list_all (\<lambda>f. snd f \<le> 30) ws)
          (Undefined ''1 << width'')
        (bindR (field_positions ws (rev (tokens (address_mapping s))) 0 (\<lambda>_. None)) (\<lambda>fp.
          bindR (map_at fp ''ch'') (\<lambda>ch. bindR (map_at fp ''ra'') (\<lambda>ra. bindR (map_at fp ''bg'') (\<lambda>bg.
          bindR (map_at fp ''ba'') (\<lambda>ba. bindR (map_at fp ''ro'') (\<lambda>ro. bindR (map_at fp ''co'') (\<lambda>co.
            Inr \<lparr>shift_bits = LogBase2 request_size_bytes,
                 ch_pos = ch, ra_pos = ra, bg_pos = bg, ba_pos = ba, ro_pos = ro, co_pos = co,
                 ch_mask = m ''ch'', ra_mask = m ''ra'', bg_mask = m ''bg'', ba_mask = m ''ba'',
                 ro_mask = m ''ro'', co_mask = m ''co''\<rparr>))))))))))"

text \<open>A 64-bit value stored in an \<open>int\<close>.\<close>

definition to_int :: "u64 \<Rightarrow> int" where
  "to_int w = sint (ucast w :: u32)"

text \<open>
  The idiom of the mapping: bit \<open>k\<close> of \<open>v\<close> is replaced by its exclusive or with \<open>b\<close>.
\<close>

definition xor_bit :: "nat \<Rightarrow> int \<Rightarrow> int \<Rightarrow> int" where
  "xor_bit k v b = (v AND NOT (push_bit k 1)) OR push_bit k ((drop_bit k v AND 1) XOR b)"

definition AddressMapping :: "AddrMap \<Rightarrow> u64 \<Rightarrow> Address" where
  "AddressMapping m hex =
     (let h = drop_bit (shift_bits m) hex;
          ch = to_int (drop_bit (ch_pos m) h AND ch_mask m);
          rk = to_int (drop_bit (ra_pos m) h AND ra_mask m);
          bg = to_int (drop_bit (bg_pos m) h AND bg_mask m);
          ba = to_int (drop_bit (ba_pos m) h AND ba_mask m);
          ro = to_int (drop_bit (ro_pos m) h AND ro_mask m);
          co = to_int (drop_bit (co_pos m) h AND co_mask m);
          bg1 = xor_bit 0 bg (drop_bit 1 co AND 1);
          bg2 = xor_bit 1 bg1 (ro AND 1);
          ba1 = xor_bit 0 ba (drop_bit 1 ro AND 1);
          ba2 = xor_bit 1 ba1 (drop_bit 2 ro AND 1);
          rk1 = xor_bit 0 rk (drop_bit 3 ro AND 1)
      in \<lparr>channel = ch, rank = rk1, bankgroup = bg2, bank = ba2, row = ro, column = co\<rparr>)"

text \<open>\<open>BaseDRAMSystem::GetChannel\<close>.\<close>

definition GetChannel :: "AddrMap \<Rightarrow> u64 \<Rightarrow> int" where
  "GetChannel m hex = to_int (drop_bit (ch_pos m) (drop_bit (shift_bits m) hex) AND ch_mask m)"

section \<open>Facts on the mapping\<close>

lemma GetChannel_mapping: "GetChannel m a = channel (AddressMapping m a)"
  by (simp add: GetChannel_def AddressMapping_def Let_def)

lemma xor_bit_xor:
  assumes "b \<in> {0, 1}"
  shows "xor_bit k v b = v XOR push_bit k b"
proof (rule bit_eqI)
  fix n
  note bits = xor_bit_def bit_or_iff bit_and_iff bit_not_iff bit_xor_iff bit_push_bit_iff bit_drop_bit_eq
    bit_1_iff bit_0_eq bit_exp_iff
  consider "n < k" | "n = k" | "n > k" by linarith
  then show "bit (xor_bit k v b) n \<longleftrightarrow> bit (v XOR push_bit k b) n"
    by cases (use assms in \<open>auto simp: bits\<close>)
qed

lemma and_1_bit: "(x :: int) AND 1 \<in> {0, 1}"
  by (auto simp: and_one_eq mod_2_eq_odd)

text \<open>A field: \<open>w\<close> bits of \<open>h\<close> from position \<open>p\<close>.\<close>

definition field_of :: "nat \<Rightarrow> nat \<Rightarrow> u64 \<Rightarrow> int" where
  "field_of p w h = to_int (drop_bit p h AND field_mask w)"

lemma field_mask_eq: "field_mask w = mask w"
  unfolding field_mask_def mask_eq_exp_minus_1 push_bit_of_1 ..

lemma field_of_uint:
  assumes "w \<le> 30"
  shows "field_of p w h = uint h div 2 ^ p mod 2 ^ w" "0 \<le> field_of p w h" "field_of p w h < 2 ^ w"
proof -
  define f where "f = drop_bit p h AND field_mask w"
  have f: "uint f = uint h div 2 ^ p mod 2 ^ w"
  proof -
    have "uint f = take_bit w (drop_bit p (uint h))"
      unfolding f_def field_mask_eq take_bit_eq_mask [symmetric]
      by (rule bit_eqI) (auto simp: bit_uint_iff bit_take_bit_iff bit_drop_bit_eq dest: bit_imp_le_length)
    then show ?thesis by (simp only: take_bit_eq_mod drop_bit_eq_div)
  qed
  have "uint f < 2 ^ w" unfolding f by simp
  moreover have "(2 :: int) ^ w \<le> 2 ^ 30" using assms by (intro power_increasing) auto
  ultimately have lt: "uint f < 2 ^ 31" by simp
  have "to_int f = uint f"
    unfolding to_int_def using lt signed_take_bit_int_eq_self [of 31 "uint f"] uint_ge_0 [of f]
    by (simp add: sint_uint unsigned_ucast_eq take_bit_int_eq_self)
  then show "field_of p w h = uint h div 2 ^ p mod 2 ^ w" "0 \<le> field_of p w h" "field_of p w h < 2 ^ w"
    using f \<open>uint f < 2 ^ w\<close> by (simp_all add: field_of_def f_def)
qed

lemma xor_low_range:
  assumes "0 \<le> v" "v < 2 ^ w" "b \<in> {0, 1}" "k < w"
  shows "0 \<le> xor_bit k v b" "xor_bit k v b < 2 ^ w"
proof -
  from assms(3,4) have "0 \<le> push_bit k b" "push_bit k b < 2 ^ w"
    by (auto simp: push_bit_eq_mult power_strict_increasing)
  with assms(1,2) show "0 \<le> xor_bit k v b" "xor_bit k v b < 2 ^ w"
    unfolding xor_bit_xor [OF assms(3)] by (auto intro: XOR_upper)
qed

lemma xor_bit_inj: "b \<in> {0, 1} \<Longrightarrow> xor_bit k v b = xor_bit k v' b \<Longrightarrow> v = v'"
  unfolding xor_bit_xor by (metis xor.assoc xor_self_eq xor.right_neutral)

lemma LogBase2_le: "1 \<le> p \<Longrightarrow> 2 ^ LogBase2 p \<le> p"
proof (induction p rule: LogBase2.induct)
  case (1 p)
  show ?case
  proof (cases "p > 1")
    case True
    then have "2 ^ LogBase2 (p div 2) \<le> p div 2" by (intro 1) auto
    then show ?thesis using True by (subst LogBase2.simps) simp
  qed (use 1 in \<open>simp add: LogBase2.simps\<close>)
qed

text \<open>Positions are given from the last token on, so the fields do not overlap.\<close>

lemma field_positions_other:
  "field_positions ws ts pos fp0 = Inr fp \<Longrightarrow> t \<notin> set ts \<Longrightarrow> fp t = fp0 t"
  by (induction ws ts pos fp0 rule: field_positions.induct) (auto simp: AbruptExit_def split: option.splits)

lemma field_positions_dom:
  "field_positions ws ts pos fp0 = Inr fp \<Longrightarrow> dom fp = dom fp0 \<union> set ts"
  by (induction ws ts pos fp0 rule: field_positions.induct) (auto simp: AbruptExit_def split: option.splits)

definition total_width :: "(string \<times> nat) list \<Rightarrow> string list \<Rightarrow> nat" where
  "total_width ws ts = sum_list (map (\<lambda>t. the (map_of ws t)) ts)"

lemma fields_agree:
  assumes "field_positions ws ts pos fp0 = Inr fp" "distinct ts"
    and "\<And>t. t \<in> set ts \<Longrightarrow>
      (h :: int) div 2 ^ the (fp t) mod 2 ^ the (map_of ws t) = h' div 2 ^ the (fp t) mod 2 ^ the (map_of ws t)"
  shows "h div 2 ^ pos mod 2 ^ total_width ws ts = h' div 2 ^ pos mod 2 ^ total_width ws ts"
  using assms
proof (induction ws ts pos fp0 rule: field_positions.induct)
  case (2 ws token ts pos fp0)
  then obtain w where w: "map_of ws token = Some w" by (auto simp: AbruptExit_def split: option.splits)
  with 2 have f: "field_positions ws ts (pos + w) (fp0(token \<mapsto> pos)) = Inr fp" by simp
  from field_positions_other [OF f] 2(3) have p: "fp token = Some pos" by simp
  let ?W = "total_width ws ts"
  have lo: "h div 2 ^ pos mod 2 ^ w = h' div 2 ^ pos mod 2 ^ w" using 2(4) [of token] p w by simp
  have hi: "h div 2 ^ (pos + w) mod 2 ^ ?W = h' div 2 ^ (pos + w) mod 2 ^ ?W"
    using 2(1) [OF w f] 2(3,4) by simp
  have split: "x div 2 ^ pos mod 2 ^ (w + ?W) =
      2 ^ w * (x div 2 ^ (pos + w) mod 2 ^ ?W) + x div 2 ^ pos mod 2 ^ w" for x :: int
    by (simp add: power_add zmod_zmult2_eq zdiv_zmult2_eq)
  have "total_width ws (token # ts) = w + ?W" using w by (simp add: total_width_def)
  then show ?case using lo hi by (simp only: split)
qed (simp add: total_width_def)

lemma length_tokens: "length (tokens s) = (length s + 1) div 2"
  by (induction s rule: tokens.induct) auto

lemma SetAddressMapping_facts:
  assumes "SetAddressMapping s d = Inr m"
  defines "ws \<equiv> field_widths s d" and "ts \<equiv> rev (tokens (address_mapping s))"
  obtains fp where "field_positions ws ts 0 (\<lambda>_. None) = Inr fp" "distinct ts"
    "set ts = {''ch'', ''ra'', ''bg'', ''ba'', ''ro'', ''co''}"
    "list_all (\<lambda>f. snd f \<le> 30) ws"
    "ch_pos m = the (fp ''ch'')" "ra_pos m = the (fp ''ra'')" "bg_pos m = the (fp ''bg'')"
    "ba_pos m = the (fp ''ba'')" "ro_pos m = the (fp ''ro'')" "co_pos m = the (fp ''co'')"
    "ch_mask m = field_mask (LogBase2 (channels s))" "ra_mask m = field_mask (LogBase2 (ranks d))"
    "bg_mask m = field_mask (LogBase2 (bankgroups d))" "ba_mask m = field_mask (LogBase2 (banks_per_group d))"
    "ro_mask m = field_mask (LogBase2 (rows d))"
    "co_mask m = field_mask (LogBase2 (columns d) - LogBase2 (BL d))"
proof -
  from assms(1) obtain fp where fp: "field_positions ws ts 0 (\<lambda>_. None) = Inr fp"
    and len: "length (address_mapping s) = 12" and w: "list_all (\<lambda>f. snd f \<le> 30) ws"
    and some: "\<And>k. k \<in> {''ch'', ''ra'', ''bg'', ''ba'', ''ro'', ''co''} \<Longrightarrow> fp k \<noteq> None"
    and m: "ch_pos m = the (fp ''ch'')" "ra_pos m = the (fp ''ra'')" "bg_pos m = the (fp ''bg'')"
    "ba_pos m = the (fp ''ba'')" "ro_pos m = the (fp ''ro'')" "co_pos m = the (fp ''co'')"
    "ch_mask m = field_mask (the (map_of ws ''ch''))" "ra_mask m = field_mask (the (map_of ws ''ra''))"
    "bg_mask m = field_mask (the (map_of ws ''bg''))" "ba_mask m = field_mask (the (map_of ws ''ba''))"
    "ro_mask m = field_mask (the (map_of ws ''ro''))" "co_mask m = field_mask (the (map_of ws ''co''))"
    unfolding SetAddressMapping_def Let_def ws_def [symmetric] ts_def [symmetric]
    by (fastforce simp: require_eq_Inr_iff bindR_eq_Inr_iff map_at_def split: option.splits)
  have "{''ch'', ''ra'', ''bg'', ''ba'', ''ro'', ''co''} \<subseteq> dom fp" using some by blast
  moreover have d: "dom fp = set ts" using field_positions_dom [OF fp] by simp
  ultimately have sub: "{''ch'', ''ra'', ''bg'', ''ba'', ''ro'', ''co''} \<subseteq> set ts" by simp
  have l: "length ts = 6" using len by (simp add: ts_def length_tokens)
  have c: "card {''ch'', ''ra'', ''bg'', ''ba'', ''ro'', ''co''} = 6" by simp
  from card_mono [OF _ sub] c card_length [of ts] l have card: "card (set ts) = 6" by simp
  then have "distinct ts" using l by (simp add: card_distinct)
  moreover have "set ts = {''ch'', ''ra'', ''bg'', ''ba'', ''ro'', ''co''}"
    using card_subset_eq [OF _ sub] c card by simp
  ultimately show thesis
    using that fp w m by (simp add: ws_def field_widths_def)
qed

text \<open>The decoded fields in terms of the plain ones.\<close>

definition plain_fields :: "SystemParams \<Rightarrow> DramStructure \<Rightarrow> AddrMap \<Rightarrow> u64 \<Rightarrow> Address" where
  "plain_fields s d m a =
     (let h = drop_bit (shift_bits m) a in
      \<lparr>channel = field_of (ch_pos m) (LogBase2 (channels s)) h,
       rank = field_of (ra_pos m) (LogBase2 (ranks d)) h,
       bankgroup = field_of (bg_pos m) (LogBase2 (bankgroups d)) h,
       bank = field_of (ba_pos m) (LogBase2 (banks_per_group d)) h,
       row = field_of (ro_pos m) (LogBase2 (rows d)) h,
       column = field_of (co_pos m) (LogBase2 (columns d) - LogBase2 (BL d)) h\<rparr>)"

lemma AddressMapping_fields:
  assumes "SetAddressMapping s d = Inr m"
  shows "AddressMapping m a =
    (let f = plain_fields s d m a in
       \<lparr>channel = channel f, rank = xor_bit 0 (rank f) (drop_bit 3 (row f) AND 1),
        bankgroup = xor_bit 1 (xor_bit 0 (bankgroup f) (drop_bit 1 (column f) AND 1)) (row f AND 1),
        bank = xor_bit 1 (xor_bit 0 (bank f) (drop_bit 1 (row f) AND 1)) (drop_bit 2 (row f) AND 1),
        row = row f, column = column f\<rparr>)"
  by (rule SetAddressMapping_facts [OF assms])
    (simp add: AddressMapping_def Let_def field_of_def plain_fields_def)

lemma plain_fields_eq:
  assumes "SetAddressMapping s d = Inr m" "AddressMapping m a = AddressMapping m b"
  shows "plain_fields s d m a = plain_fields s d m b"
proof -
  let ?f = "plain_fields s d m a" and ?g = "plain_fields s d m b"
  note e = assms(2) [unfolded AddressMapping_fields [OF assms(1)] Let_def]
  note inj = xor_bit_inj [OF and_1_bit]
  from e have c: "channel ?f = channel ?g" "row ?f = row ?g" "column ?f = column ?g" by simp_all
  from e have "rank ?f = rank ?g" by (auto simp: c dest: inj)
  moreover from e have "bankgroup ?f = bankgroup ?g" by (auto simp: c dest!: inj)
  moreover from e have "bank ?f = bank ?g" by (auto simp: c dest!: inj)
  ultimately show ?thesis using c by (intro Address.equality) auto
qed

lemma mapped_in_range:
  assumes "SetAddressMapping s d = Inr m" "1 \<le> channels s"
    and "1 \<le> LogBase2 (ranks d)" "2 \<le> LogBase2 (bankgroups d)" "2 \<le> LogBase2 (banks_per_group d)"
  shows "0 \<le> channel (AddressMapping m a)" "channel (AddressMapping m a) < channels s"
    "0 \<le> rank (AddressMapping m a)" "rank (AddressMapping m a) < ranks d"
    "0 \<le> bankgroup (AddressMapping m a)" "bankgroup (AddressMapping m a) < bankgroups d"
    "0 \<le> bank (AddressMapping m a)" "bank (AddressMapping m a) < banks_per_group d"
proof -
  note f = AddressMapping_fields [OF assms(1)] plain_fields_def Let_def
  obtain ws: "LogBase2 (channels s) \<le> 30" "LogBase2 (ranks d) \<le> 30" "LogBase2 (bankgroups d) \<le> 30"
    "LogBase2 (banks_per_group d) \<le> 30"
    by (rule SetAddressMapping_facts [OF assms(1)]) (auto simp: field_widths_def)
  have pos: "1 \<le> p" if "1 \<le> LogBase2 p" for p using that by (subst (asm) LogBase2.simps) (auto split: if_splits)
  note r = field_of_uint(2,3)
  have le: "2 ^ LogBase2 (channels s) \<le> channels s" "2 ^ LogBase2 (ranks d) \<le> ranks d"
    "2 ^ LogBase2 (bankgroups d) \<le> bankgroups d" "2 ^ LogBase2 (banks_per_group d) \<le> banks_per_group d"
    using assms pos by (auto intro!: LogBase2_le)
  note x = xor_low_range [OF _ _ and_1_bit]
  show "0 \<le> channel (AddressMapping m a)" "channel (AddressMapping m a) < channels s"
    using r [OF ws(1)] less_le_trans [OF r(2) [OF ws(1)] le(1)] by (simp_all add: f)
  show "0 \<le> rank (AddressMapping m a)" "rank (AddressMapping m a) < ranks d"
    using x(1) [OF r [OF ws(2)]] less_le_trans [OF x(2) [OF r [OF ws(2)]] le(2)] assms(3) by (simp_all add: f)
  show "0 \<le> bankgroup (AddressMapping m a)" "bankgroup (AddressMapping m a) < bankgroups d"
    using x(1) [OF x [OF r [OF ws(3)]]] less_le_trans [OF x(2) [OF x [OF r [OF ws(3)]]] le(3)] assms(4)
    by (simp_all add: f)
  show "0 \<le> bank (AddressMapping m a)" "bank (AddressMapping m a) < banks_per_group d"
    using x(1) [OF x [OF r [OF ws(4)]]] less_le_trans [OF x(2) [OF x [OF r [OF ws(4)]]] le(4)] assms(5)
    by (simp_all add: f)
qed

text \<open>A DDR4 configuration that ships with the simulator, \<open>DDR4_8Gb_x16_3200.ini\<close>.\<close>

definition ddr4_x16_sys :: SystemParams where
  "ddr4_x16_sys = \<lparr>channel_size = 8192, channels = 1, bus_width = 64, address_mapping = ''rochrababgco'',
     queue_structure = ''PER_BANK'', row_buf_policy = ''OPEN_PAGE'', refresh_policy = RANK_LEVEL_STAGGERED,
     cmd_queue_size = 8, trans_queue_size = 32, unified_queue = False, enable_self_refresh = False,
     sref_threshold = 1000\<rparr>"

definition ddr4_x16_dram :: DramStructure where
  "ddr4_x16_dram = \<lparr>protocol = DDR4, ranks = 2, bankgroups = 2, banks_per_group = 4, banks = 8,
     rows = 65536, columns = 1024, device_width = 16, BL = 8, burst_cycle = 4, enable_hbm_dual_cmd = False\<rparr>"

text \<open>A configuration with four groups of four banks, as x8 devices have.\<close>

definition ddr4_x8_dram :: DramStructure where
  "ddr4_x8_dram = ddr4_x16_dram\<lparr>bankgroups := 4, banks := 16, device_width := 8\<rparr>"

lemma ddr4_x8_map: "SetAddressMapping ddr4_x16_sys ddr4_x8_dram =
   Inr \<lparr>shift_bits = 6, ch_pos = 12, ra_pos = 11, bg_pos = 7, ba_pos = 9, ro_pos = 12, co_pos = 0,
    ch_mask = 0, ra_mask = 1, bg_mask = 3, ba_mask = 3, ro_mask = 65535, co_mask = 127\<rparr>"
  by code_simp

lemma ddr4_x16_map: "SetAddressMapping ddr4_x16_sys ddr4_x16_dram =
   Inr \<lparr>shift_bits = 6, ch_pos = 11, ra_pos = 10, bg_pos = 7, ba_pos = 8, ro_pos = 11, co_pos = 0,
    ch_mask = 0, ra_mask = 1, bg_mask = 1, ba_mask = 3, ro_mask = 65535, co_mask = 127\<rparr>"
  by code_simp

section \<open>Properties\<close>

text \<open>
  C21: the address mapping of any configuration that is accepted, whatever the order of the
  fields, loses nothing: two addresses with the same channel, rank, bank group, bank, row and
  column agree on all the bits above the request size that the fields cover, in spite of the
  exclusive ors.
\<close>

theorem address_mapping_injective:
  assumes "SetAddressMapping s d = Inr m" "AddressMapping m a = AddressMapping m b"
  shows "uint (drop_bit (shift_bits m) a) mod 2 ^ total_width (field_widths s d) (rev (tokens (address_mapping s)))
       = uint (drop_bit (shift_bits m) b) mod 2 ^ total_width (field_widths s d) (rev (tokens (address_mapping s)))"
proof -
  let ?ha = "drop_bit (shift_bits m) a" and ?hb = "drop_bit (shift_bits m) b"
  let ?ws = "field_widths s d" and ?ts = "rev (tokens (address_mapping s))"
  obtain fp where fp: "field_positions ?ws ?ts 0 (\<lambda>_. None) = Inr fp" "distinct ?ts"
    "set ?ts = {''ch'', ''ra'', ''bg'', ''ba'', ''ro'', ''co''}" "list_all (\<lambda>f. snd f \<le> 30) ?ws"
    "ch_pos m = the (fp ''ch'')" "ra_pos m = the (fp ''ra'')" "bg_pos m = the (fp ''bg'')"
    "ba_pos m = the (fp ''ba'')" "ro_pos m = the (fp ''ro'')" "co_pos m = the (fp ''co'')"
    by (rule SetAddressMapping_facts [OF assms(1)]) blast
  note eq = plain_fields_eq [OF assms, unfolded plain_fields_def Let_def]
  have le: "the (map_of ?ws t) \<le> 30" if "t \<in> set ?ts" for t
    using that fp(3,4) by (auto simp: field_widths_def)
  have f: "field_of (the (fp t)) (the (map_of ?ws t)) ?ha = field_of (the (fp t)) (the (map_of ?ws t)) ?hb"
    if "t \<in> set ?ts" for t
    using that eq fp(3) by (auto simp: field_widths_def fp(5-10))
  have "uint ?ha div 2 ^ 0 mod 2 ^ total_width ?ws ?ts = uint ?hb div 2 ^ 0 mod 2 ^ total_width ?ws ?ts"
    by (rule fields_agree [OF fp(1,2)]) (use f field_of_uint(1) [OF le] in metis)
  then show ?thesis by simp
qed

theorem address_mapping_injective_witness:
  "\<exists>m. SetAddressMapping ddr4_x16_sys ddr4_x8_dram = Inr m \<and>
     uint (drop_bit (shift_bits m) (305419896 :: u64)) mod
       2 ^ total_width (field_widths ddr4_x16_sys ddr4_x8_dram) (rev (tokens (address_mapping ddr4_x16_sys)))
     = uint (drop_bit (shift_bits m) (305419896 + 2 ^ 40 :: u64)) mod
       2 ^ total_width (field_widths ddr4_x16_sys ddr4_x8_dram) (rev (tokens (address_mapping ddr4_x16_sys)))"
proof -
  let ?m = "\<lparr>shift_bits = 6, ch_pos = 12, ra_pos = 11, bg_pos = 7, ba_pos = 9, ro_pos = 12, co_pos = 0,
    ch_mask = 0, ra_mask = 1, bg_mask = 3, ba_mask = 3, ro_mask = 65535, co_mask = 127\<rparr>"
  have m: "SetAddressMapping ddr4_x16_sys ddr4_x8_dram = Inr ?m" by (fact ddr4_x8_map)
  have e: "AddressMapping ?m 305419896 = AddressMapping ?m (305419896 + 2 ^ 40)" by code_simp
  show ?thesis using m address_mapping_injective [OF m e] by blast
qed

text \<open>
  With at least two ranks, four bank groups and four banks in a group, as the exclusive
  ors suppose, every address is mapped to a channel, rank, bank group and bank that exist.
\<close>

theorem address_mapping_in_range:
  assumes "SetAddressMapping s d = Inr m" "1 \<le> channels s"
    and "1 \<le> LogBase2 (ranks d)" "2 \<le> LogBase2 (bankgroups d)" "2 \<le> LogBase2 (banks_per_group d)"
  shows "channel (AddressMapping m a) \<in> {0..<channels s} \<and> rank (AddressMapping m a) \<in> {0..<ranks d} \<and>
    bankgroup (AddressMapping m a) \<in> {0..<bankgroups d} \<and> bank (AddressMapping m a) \<in> {0..<banks_per_group d}"
  using mapped_in_range [OF assms] by simp

theorem address_mapping_in_range_witness:
  "\<exists>m. SetAddressMapping ddr4_x16_sys ddr4_x8_dram = Inr m \<and>
     rank (AddressMapping m (2 ^ 20)) \<in> {0..<2} \<and> bankgroup (AddressMapping m (2 ^ 20)) \<in> {0..<4}"
proof -
  have l: "LogBase2 2 = 1" "LogBase2 4 = 2" by code_simp+
  then show ?thesis using address_mapping_in_range [OF ddr4_x8_map, of "2 ^ 20"] ddr4_x8_map
    by (simp add: ddr4_x16_sys_def ddr4_x8_dram_def ddr4_x16_dram_def del: power_Suc)
qed



end
