(* ===== verification/Dram_Channel.thy ===== *)
theory Dram_Channel
  imports Dram_Config
begin

text \<open>
  The timing tables (\<open>timing.cc\<close>) and the state of a channel (\<open>channel_state.cc\<close>): its banks
  with the earliest cycle of every command, the commands waiting for a refresh, and the
  windows that limit activations.
\<close>

section \<open>Timing tables\<close>

type_synonym timing_list = "(CommandType \<times> int) list"

record Timing =
  same_bank :: "CommandType \<Rightarrow> timing_list"
  other_banks_same_bankgroup :: "CommandType \<Rightarrow> timing_list"
  other_bankgroups_same_rank :: "CommandType \<Rightarrow> timing_list"
  other_ranks :: "CommandType \<Rightarrow> timing_list"
  same_rank :: "CommandType \<Rightarrow> timing_list"

text \<open>The local variables of the constructor, under their names.\<close>

record Delays =
  read_to_read_l :: int
  read_to_read_s :: int
  read_to_read_o :: int
  read_to_write :: int
  read_to_write_o :: int
  read_to_precharge :: int
  readp_to_act :: int
  write_to_read_l :: int
  write_to_read_s :: int
  write_to_read_o :: int
  write_to_write_l :: int
  write_to_write_s :: int
  write_to_write_o :: int
  write_to_precharge :: int

record RowDelays =
  precharge_to_activate :: int
  precharge_to_precharge :: int
  read_to_activate :: int
  write_to_activate :: int
  activate_to_activate :: int
  activate_to_activate_l :: int
  activate_to_activate_s :: int
  activate_to_precharge :: int
  activate_to_read :: int
  activate_to_write :: int
  activate_to_refresh :: int
  refresh_to_refresh :: int
  refresh_to_activate :: int
  refresh_to_activate_bank :: int
  self_refresh_entry_to_exit :: int
  self_refresh_exit :: int

definition column_delays :: "Config \<Rightarrow> Delays" where
  "column_delays cfg =
     (let c = colt cfg; b = burst_cycle (dram cfg); one = (bankgroups (dram cfg) = 1) in
      \<lparr>read_to_read_l = (if one then max b (tCCD_S c) else max b (tCCD_L c)),
       read_to_read_s = max b (tCCD_S c),
       read_to_read_o = b + tRTRS c,
       read_to_write = RL c + b - WL c + tRTRS c,
       read_to_write_o = read_delay c + b + tRTRS c - write_delay c,
       read_to_precharge = AL c + tRTP c,
       readp_to_act = AL c + b + tRTP c + tRP (rowt cfg),
       write_to_read_l = (if one then write_delay c + tWTR_S c else write_delay c + tWTR_L c),
       write_to_read_s = write_delay c + tWTR_S c,
       write_to_read_o = write_delay c + b + tRTRS c - read_delay c,
       write_to_write_l = (if one then max b (tCCD_S c) else max b (tCCD_L c)),
       write_to_write_s = max b (tCCD_S c),
       write_to_write_o = b,
       write_to_precharge = WL c + b + tWR c\<rparr>)"

definition row_delays :: "Config \<Rightarrow> RowDelays" where
  "row_delays cfg =
     (let c = colt cfg; r = rowt cfg; v = column_delays cfg; d = dram cfg in
      \<lparr>precharge_to_activate = tRP r,
       precharge_to_precharge = tPPD r,
       read_to_activate = read_to_precharge v + tRP r,
       write_to_activate = write_to_precharge v + tRP r,
       activate_to_activate = tRC r,
       activate_to_activate_l = (if bankgroups d = 1 then tRRD_S r else tRRD_L r),
       activate_to_activate_s = tRRD_S r,
       activate_to_precharge = tRAS r,
       activate_to_read = (if IsGDDR d \<or> IsHBM d then tRCDRD r else tRCD r - AL c),
       activate_to_write = (if IsGDDR d \<or> IsHBM d then tRCDWR r else tRCD r - AL c),
       activate_to_refresh = tRC r,
       refresh_to_refresh = tREFI r,
       refresh_to_activate = tRFC r,
       refresh_to_activate_bank = tRFCb r,
       self_refresh_entry_to_exit = tCKESR r,
       self_refresh_exit = tXS r\<rparr>)"

definition no_timing :: "CommandType \<Rightarrow> timing_list" where
  "no_timing t = []"

definition rw_list :: "int \<Rightarrow> int \<Rightarrow> timing_list" where
  "rw_list r w = [(READ, r), (WRITE, w), (READ_PRECHARGE, r), (WRITE_PRECHARGE, w)]"

definition new_Timing :: "Config \<Rightarrow> Timing" where
  "new_Timing cfg =
     (let v = column_delays cfg; w = row_delays cfg; d = dram cfg;
          ppd = IsGDDR d \<or> protocol d = LPDDR4;
          rd_l = rw_list (read_to_read_l v) (read_to_write v);
          rd_s = rw_list (read_to_read_s v) (read_to_write v);
          rd_o = rw_list (read_to_read_o v) (read_to_write_o v);
          wr_l = rw_list (write_to_read_l v) (write_to_write_l v);
          wr_s = rw_list (write_to_read_s v) (write_to_write_s v);
          wr_o = rw_list (write_to_read_o v) (write_to_write_o v);
          to_act = (\<lambda>t. [(ACTIVATE, t), (REFRESH, t), (REFRESH_BANK, t), (SREF_ENTER, t)])
      in \<lparr>same_bank = no_timing(
            READ := rd_l @ [(PRECHARGE, read_to_precharge v)],
            WRITE := wr_l @ [(PRECHARGE, write_to_precharge v)],
            READ_PRECHARGE := [(ACTIVATE, readp_to_act v), (REFRESH, read_to_activate w),
                               (REFRESH_BANK, read_to_activate w), (SREF_ENTER, read_to_activate w)],
            WRITE_PRECHARGE := to_act (write_to_activate w),
            ACTIVATE := [(ACTIVATE, activate_to_activate w), (READ, activate_to_read w),
                         (WRITE, activate_to_write w), (READ_PRECHARGE, activate_to_read w),
                         (WRITE_PRECHARGE, activate_to_write w), (PRECHARGE, activate_to_precharge w)],
            PRECHARGE := to_act (precharge_to_activate w)),
          other_banks_same_bankgroup = no_timing(
            READ := rd_l, WRITE := wr_l, READ_PRECHARGE := rd_l, WRITE_PRECHARGE := wr_l,
            ACTIVATE := [(ACTIVATE, activate_to_activate_l w), (REFRESH_BANK, activate_to_refresh w)],
            PRECHARGE := (if ppd then [(PRECHARGE, precharge_to_precharge w)] else []),
            REFRESH_BANK := [(ACTIVATE, refresh_to_activate w), (REFRESH_BANK, refresh_to_refresh w)]),
          other_bankgroups_same_rank = no_timing(
            READ := rd_s, WRITE := wr_s, READ_PRECHARGE := rd_s, WRITE_PRECHARGE := wr_s,
            ACTIVATE := [(ACTIVATE, activate_to_activate_s w), (REFRESH_BANK, activate_to_refresh w)],
            PRECHARGE := (if ppd then [(PRECHARGE, precharge_to_precharge w)] else []),
            REFRESH_BANK := [(ACTIVATE, refresh_to_activate w), (REFRESH_BANK, refresh_to_refresh w)]),
          other_ranks = no_timing(
            READ := rd_o, WRITE := wr_o, READ_PRECHARGE := rd_o, WRITE_PRECHARGE := wr_o),
          same_rank = no_timing(
            REFRESH_BANK := to_act (refresh_to_activate_bank w),
            REFRESH := [(ACTIVATE, refresh_to_activate w), (REFRESH, refresh_to_activate w),
                        (SREF_ENTER, refresh_to_activate w)],
            SREF_ENTER := [(SREF_EXIT, self_refresh_entry_to_exit w)],
            SREF_EXIT := to_act (self_refresh_exit w))\<rparr>)"

section \<open>The state of a channel\<close>

text \<open>
  The vectors indexed by rank, or by rank, bank group and bank, are functions; an access out
  of their bounds is an error.
\<close>

record ChannelState =
  rank_idle_cycles :: "int \<Rightarrow> int"
  rank_is_sref :: "int \<Rightarrow> bool"
  bank_states :: "int \<Rightarrow> int \<Rightarrow> int \<Rightarrow> BankState"
  refresh_q :: "Command list"
  four_aw :: "int \<Rightarrow> nat list"
  thirty_two_aw :: "int \<Rightarrow> nat list"

definition new_channel :: ChannelState where
  "new_channel = \<lparr>rank_idle_cycles = (\<lambda>_. 0), rank_is_sref = (\<lambda>_. False),
     bank_states = (\<lambda>_ _ _. new_bank), refresh_q = [], four_aw = (\<lambda>_. []), thirty_two_aw = (\<lambda>_. [])\<rparr>"

definition rank_ok :: "DramStructure \<Rightarrow> int \<Rightarrow> bool" where
  "rank_ok d r \<longleftrightarrow> 0 \<le> r \<and> r < ranks d"

definition bank_ok :: "DramStructure \<Rightarrow> int \<Rightarrow> int \<Rightarrow> int \<Rightarrow> bool" where
  "bank_ok d r g b \<longleftrightarrow> rank_ok d r \<and> 0 \<le> g \<and> g < bankgroups d \<and> 0 \<le> b \<and> b < banks_per_group d"

text \<open>The banks of a rank, in the order of the loops over them.\<close>

definition rank_banks :: "DramStructure \<Rightarrow> (int \<times> int) list" where
  "rank_banks d = List.product [0..bankgroups d - 1] [0..banks_per_group d - 1]"

definition set_bank :: "int \<Rightarrow> int \<Rightarrow> int \<Rightarrow> BankState \<Rightarrow> ChannelState \<Rightarrow> ChannelState" where
  "set_bank r g b s ch = ch\<lparr>bank_states :=
     (\<lambda>r' g' b'. if r' = r \<and> g' = g \<and> b' = b then s else bank_states ch r' g' b')\<rparr>"

definition IsAllBankIdleInRank :: "DramStructure \<Rightarrow> ChannelState \<Rightarrow> int \<Rightarrow> bool" where
  "IsAllBankIdleInRank d ch r = list_all (\<lambda>(j, k). \<not> IsRowOpen (bank_states ch r j k)) (rank_banks d)"

definition OpenRow :: "ChannelState \<Rightarrow> Command \<Rightarrow> int" where
  "OpenRow ch c = open_row (bank_states ch (cRank c) (cBankgroup c) (cBank c))"

definition RowHitCount :: "ChannelState \<Rightarrow> Command \<Rightarrow> int" where
  "RowHitCount ch c = row_hit_count (bank_states ch (cRank c) (cBankgroup c) (cBank c))"

definition IsRWPendingOnRef :: "ChannelState \<Rightarrow> Command \<Rightarrow> bool" where
  "IsRWPendingOnRef ch c \<longleftrightarrow>
     (let b = bank_states ch (cRank c) (cBankgroup c) (cBank c)
      in IsRowOpen b \<and> row_hit_count b = 0 \<and> open_row b = cRow c)"

text \<open>Erases the first element with a property, as the loops with \<open>erase\<close> and \<open>break\<close> do.\<close>

fun erase_first :: "('a \<Rightarrow> bool) \<Rightarrow> 'a list \<Rightarrow> 'a list" where
  "erase_first P [] = []"
| "erase_first P (x # xs) = (if P x then xs else x # erase_first P xs)"

definition BankNeedRefresh :: "int \<Rightarrow> int \<Rightarrow> int \<Rightarrow> bool \<Rightarrow> ChannelState \<Rightarrow> ChannelState" where
  "BankNeedRefresh r g b need ch =
     (if need then
        ch\<lparr>refresh_q := refresh_q ch @
          [mk_cmd REFRESH_BANK \<lparr>channel = -1, rank = r, bankgroup = g, bank = b, row = -1, column = -1\<rparr> (-1)]\<rparr>
      else
        ch\<lparr>refresh_q := erase_first (\<lambda>c. cRank c = r \<and> cBankgroup c = g \<and> cBank c = b) (refresh_q ch)\<rparr>)"

definition RankNeedRefresh :: "int \<Rightarrow> bool \<Rightarrow> ChannelState \<Rightarrow> ChannelState" where
  "RankNeedRefresh r need ch =
     (if need then
        ch\<lparr>refresh_q := refresh_q ch @ [mk_cmd REFRESH (no_addr\<lparr>rank := r\<rparr>) (-1)]\<rparr>
      else ch\<lparr>refresh_q := erase_first (\<lambda>c. cRank c = r) (refresh_q ch)\<rparr>)"

section \<open>Activation windows\<close>

definition IsFAWReady :: "ChannelState \<Rightarrow> int \<Rightarrow> nat \<Rightarrow> bool" where
  "IsFAWReady ch r curr_time =
     (if four_aw ch r \<noteq> [] then \<not> (curr_time < hd (four_aw ch r) \<and> length (four_aw ch r) \<ge> 4) else True)"

definition Is32AWReady :: "ChannelState \<Rightarrow> int \<Rightarrow> nat \<Rightarrow> bool" where
  "Is32AWReady ch r curr_time =
     (if thirty_two_aw ch r \<noteq> []
      then \<not> (curr_time < hd (thirty_two_aw ch r) \<and> length (thirty_two_aw ch r) \<ge> 32) else True)"

definition ActivationWindowOk :: "DramStructure \<Rightarrow> ChannelState \<Rightarrow> int \<Rightarrow> nat \<Rightarrow> bool" where
  "ActivationWindowOk d ch r curr_time =
     (let tfaw_ok = IsFAWReady ch r curr_time in
      if IsGDDR d then (if \<not> tfaw_ok then False else Is32AWReady ch r curr_time) else tfaw_ok)"

text \<open>A cycle plus an \<open>int\<close>, on 64 bits.\<close>

definition add64 :: "nat \<Rightarrow> int \<Rightarrow> nat" where
  "add64 clk d = nat ((int clk + d) mod 2 ^ 64)"

definition push_window :: "nat \<Rightarrow> int \<Rightarrow> nat list \<Rightarrow> nat list" where
  "push_window curr_time t w =
     (if w \<noteq> [] \<and> curr_time \<ge> hd w then tl w else w) @ [add64 curr_time t]"

definition UpdateActivationTimes :: "Config \<Rightarrow> int \<Rightarrow> nat \<Rightarrow> ChannelState \<Rightarrow> ChannelState" where
  "UpdateActivationTimes cfg r curr_time ch =
     (let ch1 = ch\<lparr>four_aw := (four_aw ch)(r := push_window curr_time (tFAW (rowt cfg)) (four_aw ch r))\<rparr>
      in if IsGDDR (dram cfg) then
           ch1\<lparr>thirty_two_aw := (thirty_two_aw ch1)
                 (r := push_window curr_time (t32AW (rowt cfg)) (thirty_two_aw ch1 r))\<rparr>
         else ch1)"

section \<open>Ready commands\<close>

text \<open>
  The loop over the banks of a rank for a rank command: it stops at the first bank that needs
  another command, and otherwise counts the ready banks.
\<close>

fun rank_scan ::
  "ChannelState \<Rightarrow> Command \<Rightarrow> nat \<Rightarrow> (int \<times> int) list \<Rightarrow> int \<Rightarrow> Command
     \<Rightarrow> (Command + int \<times> Command) res" where
  "rank_scan ch cmd clk [] num_ready ready_cmd = Inr (Inr (num_ready, ready_cmd))"
| "rank_scan ch cmd clk ((j, k) # ps) num_ready ready_cmd =
     bindR (bank_GetReadyCommand (bank_states ch (cRank cmd) j k) cmd clk) (\<lambda>r.
       if \<not> IsValid r then rank_scan ch cmd clk ps num_ready r
       else if cmd_type r \<noteq> cmd_type cmd then
         Inr (Inl (r\<lparr>cmd_addr := \<lparr>channel = -1, rank = cRank cmd, bankgroup = j, bank = k,
                                 row = -1, column = -1\<rparr>\<rparr>))
       else rank_scan ch cmd clk ps (num_ready + 1) r)"

definition ch_GetReadyCommand :: "DramStructure \<Rightarrow> ChannelState \<Rightarrow> Command \<Rightarrow> nat \<Rightarrow> Command res" where
  "ch_GetReadyCommand d ch cmd clk =
     (if IsRankCMD cmd then
        require (rank_ok d (cRank cmd)) (Undefined ''bank_states_'')
          (bindR (rank_scan ch cmd clk (rank_banks d) 0 no_cmd) (\<lambda>res.
            case res of
              Inl r \<Rightarrow> Inr r
            | Inr (num_ready, r) \<Rightarrow> Inr (if num_ready = banks d then r else no_cmd)))
      else
        require (bank_ok d (cRank cmd) (cBankgroup cmd) (cBank cmd)) (Undefined ''bank_states_'')
          (bindR (bank_GetReadyCommand (bank_states ch (cRank cmd) (cBankgroup cmd) (cBank cmd)) cmd clk)
            (\<lambda>r.
              if \<not> IsValid r then Inr no_cmd
              else if cmd_type r = ACTIVATE \<and> \<not> ActivationWindowOk d ch (cRank r) clk then Inr no_cmd
              else Inr r)))"

section \<open>Updates\<close>

fun update_rank_states :: "Command \<Rightarrow> (int \<times> int) list \<Rightarrow> ChannelState \<Rightarrow> ChannelState res" where
  "update_rank_states cmd [] ch = Inr ch"
| "update_rank_states cmd ((j, k) # ps) ch =
     bindR (bank_UpdateState (bank_states ch (cRank cmd) j k) cmd) (\<lambda>b.
       update_rank_states cmd ps (set_bank (cRank cmd) j k b ch))"

definition ch_UpdateState :: "DramStructure \<Rightarrow> Command \<Rightarrow> ChannelState \<Rightarrow> ChannelState res" where
  "ch_UpdateState d cmd ch =
     (if IsRankCMD cmd then
        require (rank_ok d (cRank cmd)) (Undefined ''bank_states_'')
          (bindR (update_rank_states cmd (rank_banks d) ch) (\<lambda>ch1.
            Inr (if IsRefresh cmd then RankNeedRefresh (cRank cmd) False ch1
                 else if cmd_type cmd = SREF_ENTER then
                   ch1\<lparr>rank_is_sref := (rank_is_sref ch1)(cRank cmd := True)\<rparr>
                 else if cmd_type cmd = SREF_EXIT then
                   ch1\<lparr>rank_is_sref := (rank_is_sref ch1)(cRank cmd := False)\<rparr>
                 else ch1)))
      else
        require (bank_ok d (cRank cmd) (cBankgroup cmd) (cBank cmd)) (Undefined ''bank_states_'')
          (bindR (bank_UpdateState (bank_states ch (cRank cmd) (cBankgroup cmd) (cBank cmd)) cmd) (\<lambda>b.
            (let ch1 = set_bank (cRank cmd) (cBankgroup cmd) (cBank cmd) b ch
             in Inr (if IsRefresh cmd then BankNeedRefresh (cRank cmd) (cBankgroup cmd) (cBank cmd) False ch1
                     else ch1)))))"

definition apply_timing :: "timing_list \<Rightarrow> nat \<Rightarrow> BankState \<Rightarrow> BankState" where
  "apply_timing l clk b = fold (\<lambda>(t, x) s. bank_UpdateTiming t (add64 clk x) s) l b"

definition update_banks ::
  "timing_list \<Rightarrow> nat \<Rightarrow> (int \<times> int \<times> int) list \<Rightarrow> ChannelState \<Rightarrow> ChannelState" where
  "update_banks l clk ps ch =
     fold (\<lambda>(r, g, b) c. set_bank r g b (apply_timing l clk (bank_states c r g b)) c) ps ch"

definition UpdateSameBankTiming :: "Address \<Rightarrow> timing_list \<Rightarrow> nat \<Rightarrow> ChannelState \<Rightarrow> ChannelState" where
  "UpdateSameBankTiming a l clk ch = update_banks l clk [(rank a, bankgroup a, bank a)] ch"

definition UpdateOtherBanksSameBankgroupTiming ::
  "DramStructure \<Rightarrow> Address \<Rightarrow> timing_list \<Rightarrow> nat \<Rightarrow> ChannelState \<Rightarrow> ChannelState" where
  "UpdateOtherBanksSameBankgroupTiming d a l clk ch =
     update_banks l clk
       [(rank a, bankgroup a, k). k \<leftarrow> [0..banks_per_group d - 1], k \<noteq> bank a] ch"

definition UpdateOtherBankgroupsSameRankTiming ::
  "DramStructure \<Rightarrow> Address \<Rightarrow> timing_list \<Rightarrow> nat \<Rightarrow> ChannelState \<Rightarrow> ChannelState" where
  "UpdateOtherBankgroupsSameRankTiming d a l clk ch =
     update_banks l clk
       [(rank a, j, k). (j, k) \<leftarrow> rank_banks d, j \<noteq> bankgroup a] ch"

definition UpdateOtherRanksTiming ::
  "DramStructure \<Rightarrow> Address \<Rightarrow> timing_list \<Rightarrow> nat \<Rightarrow> ChannelState \<Rightarrow> ChannelState" where
  "UpdateOtherRanksTiming d a l clk ch =
     update_banks l clk
       [(i, j, k). (i, j, k) \<leftarrow> List.product [0..ranks d - 1] (rank_banks d), i \<noteq> rank a] ch"

definition UpdateSameRankTiming ::
  "DramStructure \<Rightarrow> Address \<Rightarrow> timing_list \<Rightarrow> nat \<Rightarrow> ChannelState \<Rightarrow> ChannelState" where
  "UpdateSameRankTiming d a l clk ch =
     update_banks l clk [(rank a, j, k). (j, k) \<leftarrow> rank_banks d] ch"

text \<open>An activation first falls through from its own case.\<close>

definition ch_UpdateTiming ::
  "Config \<Rightarrow> Timing \<Rightarrow> Command \<Rightarrow> nat \<Rightarrow> ChannelState \<Rightarrow> ChannelState res" where
  "ch_UpdateTiming cfg tm cmd clk ch =
     (let d = dram cfg; a = cmd_addr cmd; t = cmd_type cmd in
      if t \<in> {ACTIVATE, READ, READ_PRECHARGE, WRITE, WRITE_PRECHARGE, PRECHARGE, REFRESH_BANK} then
        (let ch0 = (if t = ACTIVATE then UpdateActivationTimes cfg (rank a) clk ch else ch);
             ch1 = UpdateSameBankTiming a (same_bank tm t) clk ch0;
             ch2 = UpdateOtherBanksSameBankgroupTiming d a (other_banks_same_bankgroup tm t) clk ch1;
             ch3 = UpdateOtherBankgroupsSameRankTiming d a (other_bankgroups_same_rank tm t) clk ch2
         in Inr (UpdateOtherRanksTiming d a (other_ranks tm t) clk ch3))
      else if t \<in> {REFRESH, SREF_ENTER, SREF_EXIT} then
        Inr (UpdateSameRankTiming d a (same_rank tm t) clk ch)
      else AbruptExit ''channel_state.cc'')"

definition UpdateTimingAndStates ::
  "Config \<Rightarrow> Timing \<Rightarrow> Command \<Rightarrow> nat \<Rightarrow> ChannelState \<Rightarrow> ChannelState res" where
  "UpdateTimingAndStates cfg tm cmd clk ch =
     bindR (ch_UpdateState (dram cfg) cmd ch) (ch_UpdateTiming cfg tm cmd clk)"

section \<open>Pointwise facts\<close>

lemma rank_banks_set: "(j, k) \<in> set (rank_banks d) \<longleftrightarrow> 0 \<le> j \<and> j < bankgroups d \<and> 0 \<le> k \<and> k < banks_per_group d"
  by (auto simp: rank_banks_def)

lemma distinct_rank_banks: "distinct (rank_banks d)"
  by (simp add: rank_banks_def distinct_product)

lemma set_bank_sel [simp]:
  "bank_states (set_bank r g b s ch) r' g' b' = (if r' = r \<and> g' = g \<and> b' = b then s else bank_states ch r' g' b')"
  "refresh_q (set_bank r g b s ch) = refresh_q ch" "rank_is_sref (set_bank r g b s ch) = rank_is_sref ch"
  "rank_idle_cycles (set_bank r g b s ch) = rank_idle_cycles ch" "four_aw (set_bank r g b s ch) = four_aw ch"
  "thirty_two_aw (set_bank r g b s ch) = thirty_two_aw ch"
  by (simp_all add: set_bank_def)

lemma apply_timing_sel [simp]:
  "bstate (apply_timing l clk b) = bstate b" "open_row (apply_timing l clk b) = open_row b"
  "row_hit_count (apply_timing l clk b) = row_hit_count b" "bank_inv (apply_timing l clk b) = bank_inv b"
  unfolding apply_timing_def by (induction l arbitrary: b) (auto simp: split_beta)

lemma apply_timing_ge: "cmd_timing b t \<le> cmd_timing (apply_timing l clk b) t"
  unfolding apply_timing_def
proof (induction l arbitrary: b)
  case (Cons x l)
  show ?case using Cons [of "bank_UpdateTiming (fst x) (add64 clk (snd x)) b"]
      bank_UpdateTiming_ge [of b t "fst x" "add64 clk (snd x)"]
    by (simp add: split_beta)
qed simp

lemma apply_timing_bound:
  assumes "(t, x) \<in> set l"
  shows "add64 clk x \<le> cmd_timing (apply_timing l clk b) t"
  using assms unfolding apply_timing_def
proof (induction l arbitrary: b)
  case (Cons y l)
  show ?case
  proof (cases "y = (t, x)")
    case True
    have "add64 clk x \<le> cmd_timing (bank_UpdateTiming t (add64 clk x) b) t" by (simp add: bank_UpdateTiming_def)
    also have "\<dots> \<le> cmd_timing (apply_timing l clk (bank_UpdateTiming t (add64 clk x) b)) t" by (rule apply_timing_ge)
    finally show ?thesis using True by (simp add: apply_timing_def)
  qed (use Cons in auto)
qed simp

lemma update_banks_sel [simp]:
  "refresh_q (update_banks l clk ps ch) = refresh_q ch" "rank_is_sref (update_banks l clk ps ch) = rank_is_sref ch"
  "rank_idle_cycles (update_banks l clk ps ch) = rank_idle_cycles ch" "four_aw (update_banks l clk ps ch) = four_aw ch"
  "thirty_two_aw (update_banks l clk ps ch) = thirty_two_aw ch"
  unfolding update_banks_def by (induction ps arbitrary: ch) (auto simp: split_beta)

lemma update_banks_at:
  "distinct ps \<Longrightarrow> bank_states (update_banks l clk ps ch) r g b =
    (if (r, g, b) \<in> set ps then apply_timing l clk (bank_states ch r g b) else bank_states ch r g b)"
  unfolding update_banks_def
proof (induction ps arbitrary: ch)
  case (Cons p ps)
  obtain r' g' b' where "p = (r', g', b')" by (cases p)
  with Cons show ?case by auto
qed simp

text \<open>
  The list of constraints that a command puts on a bank.
\<close>

definition constraints :: "Timing \<Rightarrow> Command \<Rightarrow> int \<Rightarrow> int \<Rightarrow> int \<Rightarrow> timing_list" where
  "constraints tm c r g b =
     (if IsRankCMD c then (if r = cRank c then same_rank tm (cmd_type c) else [])
      else if r \<noteq> cRank c then other_ranks tm (cmd_type c)
      else if g \<noteq> cBankgroup c then other_bankgroups_same_rank tm (cmd_type c)
      else if b \<noteq> cBank c then other_banks_same_bankgroup tm (cmd_type c)
      else same_bank tm (cmd_type c))"

lemma distinct_comp:
  assumes "distinct xs" "inj_on f (set xs)"
  shows "distinct (concat (map (\<lambda>x. if P x then [f x] else []) xs))"
  using assms by (induction xs) (auto simp: inj_on_def)

lemma apply_timing_Nil [simp]: "apply_timing [] clk b = b"
  by (simp add: apply_timing_def)

lemma UpdateActivationTimes_sel [simp]:
  "bank_states (UpdateActivationTimes cfg r t ch) = bank_states ch"
  "refresh_q (UpdateActivationTimes cfg r t ch) = refresh_q ch"
  "rank_is_sref (UpdateActivationTimes cfg r t ch) = rank_is_sref ch"
  "rank_idle_cycles (UpdateActivationTimes cfg r t ch) = rank_idle_cycles ch"
  by (simp_all add: UpdateActivationTimes_def Let_def)

lemma ch_UpdateTiming_at:
  assumes "ch_UpdateTiming cfg tm c clk ch = Inr ch'" "bank_ok (dram cfg) r g b"
  shows "bank_states ch' r g b = apply_timing (constraints tm c r g b) clk (bank_states ch r g b)"
proof -
  let ?d = "dram cfg" and ?a = "cmd_addr c" and ?t = "cmd_type c"
  have b: "0 \<le> r" "r < ranks ?d" "(g, b) \<in> set (rank_banks ?d)" "0 \<le> b" "b < banks_per_group ?d"
    using assms(2) by (auto simp: bank_ok_def rank_ok_def rank_banks_set)
  have dist: "distinct (concat (map (\<lambda>k. if k \<noteq> bank ?a then [(rank ?a, bankgroup ?a, k)] else []) [0..banks_per_group ?d - 1]))"
    "distinct (concat (map (\<lambda>(j, k). if j \<noteq> bankgroup ?a then [(rank ?a, j, k)] else []) (rank_banks ?d)))"
    "distinct (concat (map (\<lambda>(i, j, k). if i \<noteq> rank ?a then [(i, j, k)] else []) (List.product [0..ranks ?d - 1] (rank_banks ?d))))"
    "distinct (map (\<lambda>(j, k). (rank ?a, j, k)) (rank_banks ?d))"
    unfolding split_beta
    by (auto intro!: distinct_comp distinct_product distinct_rank_banks simp: inj_on_def distinct_map)
  show ?thesis
  proof (cases "?t \<in> {ACTIVATE, READ, READ_PRECHARGE, WRITE, WRITE_PRECHARGE, PRECHARGE, REFRESH_BANK}")
    case True
    then have nr: "\<not> IsRankCMD c" by (auto simp: IsRankCMD_def)
    let ?ch0 = "if ?t = ACTIVATE then UpdateActivationTimes cfg (rank ?a) clk ch else ch"
    have c0: "bank_states ?ch0 = bank_states ch" by simp
    from True assms(1) have "ch' = UpdateOtherRanksTiming ?d ?a (other_ranks tm ?t) clk
      (UpdateOtherBankgroupsSameRankTiming ?d ?a (other_bankgroups_same_rank tm ?t) clk
        (UpdateOtherBanksSameBankgroupTiming ?d ?a (other_banks_same_bankgroup tm ?t) clk
          (UpdateSameBankTiming ?a (same_bank tm ?t) clk ?ch0)))"
      unfolding ch_UpdateTiming_def Let_def by (simp only: if_True sum.inject)
    then show ?thesis
      unfolding UpdateOtherRanksTiming_def UpdateOtherBankgroupsSameRankTiming_def
        UpdateOtherBanksSameBankgroupTiming_def UpdateSameBankTiming_def
      using b nr dist by (auto simp: update_banks_at c0 constraints_def)
  next
    case False
    with assms(1) have t: "?t \<in> {REFRESH, SREF_ENTER, SREF_EXIT}"
      and ch': "ch' = UpdateSameRankTiming ?d ?a (same_rank tm ?t) clk ch"
      by (auto simp: ch_UpdateTiming_def Let_def AbruptExit_def split: if_splits)
    then have nr: "IsRankCMD c" by (auto simp: IsRankCMD_def)
    show ?thesis
      unfolding ch' UpdateSameRankTiming_def using b nr dist
      by (auto simp: update_banks_at constraints_def split_beta)
  qed
qed

lemma ch_UpdateTiming_frame:
  assumes "ch_UpdateTiming cfg tm c clk ch = Inr ch'"
  shows "refresh_q ch' = refresh_q ch" "rank_is_sref ch' = rank_is_sref ch"
    "rank_idle_cycles ch' = rank_idle_cycles ch"
    "four_aw ch' = (if cmd_type c = ACTIVATE
       then (four_aw ch)(cRank c := push_window clk (tFAW (rowt cfg)) (four_aw ch (cRank c))) else four_aw ch)"
  using assms unfolding ch_UpdateTiming_def Let_def
  by (auto simp: UpdateOtherRanksTiming_def UpdateOtherBankgroupsSameRankTiming_def AbruptExit_def
      UpdateOtherBanksSameBankgroupTiming_def UpdateSameBankTiming_def UpdateSameRankTiming_def
      UpdateActivationTimes_def Let_def split: if_splits)

lemma ch_UpdateTiming_defined:
  "IsValid c \<Longrightarrow> \<exists>ch'. ch_UpdateTiming cfg tm c clk ch = Inr ch'"
  by (cases "cmd_type c") (auto simp: ch_UpdateTiming_def Let_def IsValid_def)

section \<open>The invariant\<close>

text \<open>
  Every bank is in a state the code gives a meaning, the flag of a rank tells whether its banks
  refresh themselves, and the refresh queue holds refresh commands for ranks and banks that
  exist.
\<close>

definition dram_ok :: "DramStructure \<Rightarrow> bool" where
  "dram_ok d \<longleftrightarrow> 0 < ranks d \<and> 0 < bankgroups d \<and> 0 < banks_per_group d \<and> banks d = bankgroups d * banks_per_group d"

definition refresh_ok :: "DramStructure \<Rightarrow> Command \<Rightarrow> bool" where
  "refresh_ok d c \<longleftrightarrow> (cmd_type c = REFRESH \<and> rank_ok d (cRank c)) \<or>
     (cmd_type c = REFRESH_BANK \<and> bank_ok d (cRank c) (cBankgroup c) (cBank c))"

definition banks_inv :: "DramStructure \<Rightarrow> ChannelState \<Rightarrow> bool" where
  "banks_inv d ch \<longleftrightarrow> (\<forall>r g b. bank_ok d r g b \<longrightarrow> bank_inv (bank_states ch r g b) \<and>
     (bstate (bank_states ch r g b) = SREF \<longleftrightarrow> rank_is_sref ch r))"

definition ch_inv :: "DramStructure \<Rightarrow> ChannelState \<Rightarrow> bool" where
  "ch_inv d ch \<longleftrightarrow> banks_inv d ch \<and> list_all (refresh_ok d) (refresh_q ch)"

lemma new_channel_inv: "ch_inv d new_channel"
  by (simp add: ch_inv_def banks_inv_def new_channel_def new_bank_def bank_inv_def)

lemma banks_invD:
  assumes "banks_inv d ch" "bank_ok d r g b"
  shows "bank_inv (bank_states ch r g b)" "bstate (bank_states ch r g b) = SREF \<longleftrightarrow> rank_is_sref ch r"
  using assms by (auto simp: banks_inv_def)

text \<open>
  A command that may be issued: the bank, or every bank of the rank, is in the state for it and
  its cycle has come; the exit from self-refresh waits for the cycle of one bank only.
\<close>

definition executable :: "ChannelState \<Rightarrow> Command \<Rightarrow> nat \<Rightarrow> int \<Rightarrow> int \<Rightarrow> int \<Rightarrow> bool" where
  "executable ch c clk r g b \<longleftrightarrow> (\<exists>s. bank_UpdateState (bank_states ch r g b) c = Inr s) \<and>
     (cmd_type c \<noteq> SREF_EXIT \<longrightarrow> cmd_timing (bank_states ch r g b) (cmd_type c) \<le> clk)"

definition issuable :: "DramStructure \<Rightarrow> ChannelState \<Rightarrow> Command \<Rightarrow> nat \<Rightarrow> bool" where
  "issuable d ch c clk \<longleftrightarrow> IsValid c \<and>
     (if IsRankCMD c then rank_ok d (cRank c) \<and>
        (\<forall>(j, k)\<in>set (rank_banks d). executable ch c clk (cRank c) j k)
      else bank_ok d (cRank c) (cBankgroup c) (cBank c) \<and>
        executable ch c clk (cRank c) (cBankgroup c) (cBank c) \<and>
        (cmd_type c = ACTIVATE \<longrightarrow> ActivationWindowOk d ch (cRank c) clk))"

text \<open>The commands the code asks to make ready.\<close>

definition request_ok :: "DramStructure \<Rightarrow> ChannelState \<Rightarrow> Command \<Rightarrow> bool" where
  "request_ok d ch c \<longleftrightarrow>
     (IsReadWrite c \<and> bank_ok d (cRank c) (cBankgroup c) (cBank c)) \<or>
     (refresh_ok d c \<and> \<not> rank_is_sref ch (cRank c)) \<or>
     (cmd_type c = SREF_ENTER \<and> rank_ok d (cRank c) \<and> \<not> rank_is_sref ch (cRank c))"

lemma rank_bank_ok: "rank_ok d r \<Longrightarrow> (j, k) \<in> set (rank_banks d) \<Longrightarrow> bank_ok d r j k"
  by (simp add: rank_banks_set bank_ok_def)

lemma length_rank_banks: "dram_ok d \<Longrightarrow> int (length (rank_banks d)) = banks d"
  by (simp add: dram_ok_def rank_banks_def)

lemma bank_executable:
  assumes "bank_GetReadyCommand (bank_states ch r g b) cmd clk = Inr c" "IsValid c"
  shows "executable ch c clk r g b"
  using bank_ready_executes [OF assms] bank_ready_fields(3) [OF assms]
  by (auto simp: executable_def succeeds_iff)

lemma bank_UpdateState_addr:
  "cmd_type c \<noteq> ACTIVATE \<Longrightarrow> cmd_type c' = cmd_type c \<Longrightarrow> bank_UpdateState s c' = bank_UpdateState s c"
  by (cases "bstate s"; cases "cmd_type c") (simp_all add: bank_UpdateState_def)

lemma executable_addr:
  assumes "cmd_type c \<noteq> ACTIVATE" "cmd_type c' = cmd_type c"
  shows "executable ch c' clk r g b = executable ch c clk r g b"
  unfolding executable_def bank_UpdateState_addr [OF assms] assms(2) ..

text \<open>The scan of a rank for a refresh or self-refresh entry.\<close>

lemma rank_scan_ok:
  assumes "banks_inv d ch" "rank_ok d (cRank cmd)" "\<not> rank_is_sref ch (cRank cmd)"
    and "cmd_type cmd \<in> {REFRESH, SREF_ENTER}" "set ps \<subseteq> set (rank_banks d)"
    and "(done = [] \<longrightarrow> r0 = no_cmd) \<and> (n = int (length done) \<longrightarrow> done \<noteq> [] \<longrightarrow> cmd_type r0 = cmd_type cmd \<and> cmd_addr r0 = cmd_addr cmd)"
    and "n \<le> int (length done)" "n = int (length done) \<longrightarrow> (\<forall>(j, k)\<in>set done. executable ch cmd clk (cRank cmd) j k)"
  shows "succeeds (rank_scan ch cmd clk ps n r0) (\<lambda>res. case res of
      Inl r \<Rightarrow> issuable d ch r clk \<and> cmd_type r = PRECHARGE \<and> cRank r = cRank cmd
    | Inr (n', r) \<Rightarrow> n' \<le> int (length (done @ ps)) \<and>
        (n' = int (length (done @ ps)) \<longrightarrow> (\<forall>(j, k)\<in>set (done @ ps). executable ch cmd clk (cRank cmd) j k) \<and>
          (done @ ps \<noteq> [] \<longrightarrow> cmd_type r = cmd_type cmd \<and> cmd_addr r = cmd_addr cmd)))"
  using assms(5-8)
proof (induction ps arbitrary: n r0 "done")
  case (Cons p ps)
  obtain j k where p: "p = (j, k)" by (cases p)
  let ?b = "bank_states ch (cRank cmd) j k"
  have ok: "bank_ok d (cRank cmd) j k" using Cons.prems(1) assms(2) p by (auto intro: rank_bank_ok)
  note inv = banks_invD [OF assms(1) ok]
  have "bstate ?b \<noteq> SREF" using inv(2) assms(3) by simp
  then obtain r where r: "bank_GetReadyCommand ?b cmd clk = Inr r"
    using bank_ready_defined [OF inv(1), of cmd clk] assms(4) by (auto simp: succeeds_iff)
  have ps: "set ps \<subseteq> set (rank_banks d)" using Cons.prems(1) by simp
  have step: "done @ p # ps = (done @ [p]) @ ps" by simp
  show ?case
  proof (cases "IsValid r")
    case False
    then have e: "rank_scan ch cmd clk (p # ps) n r0 = rank_scan ch cmd clk ps n r" using r p by simp
    show ?thesis unfolding step e
      by (rule Cons.IH) (use ps Cons.prems(3) in simp_all)
  next
    case valid: True
    note f = bank_ready_fields [OF r valid]
    show ?thesis
    proof (cases "cmd_type r = cmd_type cmd")
      case True
      then have e: "rank_scan ch cmd clk (p # ps) n r0 = rank_scan ch cmd clk ps (n + 1) r" using r p valid by simp
      have "executable ch r clk (cRank cmd) j k" by (rule bank_executable [OF r valid])
      then have x: "executable ch cmd clk (cRank cmd) j k"
        using executable_addr [OF _ True, of ch clk "cRank cmd" j k] assms(4) by auto
      show ?thesis unfolding step e
        by (rule Cons.IH) (use ps True f x Cons.prems p in \<open>auto split: prod.splits\<close>)
    next
      case False
      from r valid have "cmd_type r = PRECHARGE" "bstate ?b = OPEN"
        by (cases rule: bank_ready_cases; use False assms(4) in \<open>auto simp: cmd_class_defs\<close>)+
      moreover have "executable ch r clk (cRank cmd) j k" by (rule bank_executable [OF r valid])
      ultimately show ?thesis using ok r p valid False
        by (auto simp: issuable_def executable_def bank_UpdateState_def cmd_class_defs)
    qed
  qed
qed simp

text \<open>A command that the code asks for never aborts, and what comes back may be issued.\<close>

lemma GetReadyCommand_ok:
  assumes "dram_ok d" "banks_inv d ch" "request_ok d ch cmd"
  shows "succeeds (ch_GetReadyCommand d ch cmd clk) (\<lambda>r. IsValid r \<longrightarrow> issuable d ch r clk \<and>
    (IsReadWrite r \<longrightarrow> r = cmd) \<and> (IsReadWrite cmd \<or> \<not> rank_is_sref ch (cRank r)) \<and>
    (cmd_type r = SREF_EXIT \<longrightarrow> rank_is_sref ch (cRank r)) \<and>
    (cmd_type r = SREF_ENTER \<longrightarrow> cmd_type cmd = SREF_ENTER))"
proof (cases "IsRankCMD cmd")
  case True
  with assms(3) have t: "cmd_type cmd \<in> {REFRESH, SREF_ENTER}" "rank_ok d (cRank cmd)" "\<not> rank_is_sref ch (cRank cmd)"
    by (auto simp: request_ok_def refresh_ok_def cmd_class_defs)
  from rank_scan_ok [OF assms(2) t(2,3,1), of "rank_banks d" "[]" no_cmd 0 clk, unfolded succeeds_iff append_Nil] obtain res
    where s: "rank_scan ch cmd clk (rank_banks d) 0 no_cmd = Inr res"
      "case res of Inl r \<Rightarrow> issuable d ch r clk \<and> cmd_type r = PRECHARGE \<and> cRank r = cRank cmd
        | Inr (n', r) \<Rightarrow> n' \<le> int (length (rank_banks d)) \<and>
          (n' = int (length (rank_banks d)) \<longrightarrow> (\<forall>(j, k)\<in>set (rank_banks d). executable ch cmd clk (cRank cmd) j k) \<and>
            (rank_banks d \<noteq> [] \<longrightarrow> cmd_type r = cmd_type cmd \<and> cmd_addr r = cmd_addr cmd))"
    by fastforce
  have "(0, 0) \<in> set (rank_banks d)" using assms(1) by (auto simp: dram_ok_def rank_banks_set)
  then have ne: "rank_banks d \<noteq> []" by auto
  show ?thesis
  proof (cases res)
    case (Inl r)
    with s t True show ?thesis by (simp add: ch_GetReadyCommand_def cmd_class_defs)
  next
    case (Inr q)
    obtain n' r where q: "q = (n', r)" by (cases q)
    have len: "int (length (rank_banks d)) = banks d" using assms(1) by (rule length_rank_banks)
    have eq: "ch_GetReadyCommand d ch cmd clk = Inr (if n' = banks d then r else no_cmd)"
      using s(1) True t(2) by (simp add: ch_GetReadyCommand_def Inr q)
    show ?thesis
    proof (cases "n' = banks d")
      case True
      with s(2) ne len have x: "\<forall>(j, k)\<in>set (rank_banks d). executable ch cmd clk (cRank cmd) j k"
        "cmd_type r = cmd_type cmd" "cmd_addr r = cmd_addr cmd" by (auto simp: Inr q)
      have "executable ch r clk (cRank cmd) j k" if "(j, k) \<in> set (rank_banks d)" for j k
        using x(1) that executable_addr [OF _ x(2), of ch clk "cRank cmd" j k] t(1) by auto
      then show ?thesis using x t True
        by (auto simp: eq issuable_def cmd_class_defs)
    qed (simp add: eq)
  qed
next
  case False
  let ?b = "bank_states ch (cRank cmd) (cBankgroup cmd) (cBank cmd)"
  from False assms(3) have ok: "bank_ok d (cRank cmd) (cBankgroup cmd) (cBank cmd)"
    and req: "IsReadWrite cmd \<or> cmd_type cmd = REFRESH_BANK \<and> \<not> rank_is_sref ch (cRank cmd)"
    by (auto simp: request_ok_def refresh_ok_def cmd_class_defs)
  note inv = banks_invD [OF assms(2) ok]
  have "\<exists>r. bank_GetReadyCommand ?b cmd clk = Inr r"
  proof (cases "bstate ?b = SREF")
    case True
    then show ?thesis using req inv by (auto simp: bank_GetReadyCommand_def required_type_def cmd_class_defs)
  next
    case False
    with bank_ready_defined [OF inv(1) False, of cmd clk] req show ?thesis by (auto simp: succeeds_iff)
  qed
  then obtain r where r: "bank_GetReadyCommand ?b cmd clk = Inr r" by blast
  have eq: "ch_GetReadyCommand d ch cmd clk =
    Inr (if \<not> IsValid r then no_cmd else if cmd_type r = ACTIVATE \<and> \<not> ActivationWindowOk d ch (cRank r) clk then no_cmd else r)"
    using False ok r by (simp add: ch_GetReadyCommand_def)
  show ?thesis
  proof (cases "IsValid r")
    case True
    note f = bank_ready_fields [OF r True]
    have x: "executable ch r clk (cRank cmd) (cBankgroup cmd) (cBank cmd)" by (rule bank_executable [OF r True])
    have rw: "IsReadWrite r \<Longrightarrow> r = cmd" using bank_ready_rw [OF r] f by (intro Command.equality) auto
    have nz: "cRank r = cRank cmd" "cBankgroup r = cBankgroup cmd" "cBank r = cBank cmd" using f(1) by simp_all
    show ?thesis
    proof (cases "bstate ?b = SREF")
      case sref: True
      from r True have t: "cmd_type r = SREF_EXIT" "IsReadWrite cmd"
        by (cases rule: bank_ready_cases; use sref in simp)+
      have rs: "rank_is_sref ch (cRank cmd)" using inv(2) sref by simp
      have rk: "rank_ok d (cRank cmd)" using ok by (simp add: bank_ok_def)
      have "executable ch r clk (cRank cmd) j k" if "(j, k) \<in> set (rank_banks d)" for j k
        using banks_invD(2) [OF assms(2) rank_bank_ok [OF rk that]] rs t(1)
        by (auto simp: executable_def bank_UpdateState_def)
      then show ?thesis using t rs rk nz True unfolding eq
        by (auto simp: issuable_def cmd_class_defs)
    next
      case nsref: False
      from r True have t: "cmd_type r \<noteq> SREF_EXIT" "cmd_type r \<noteq> SREF_ENTER" "\<not> IsRankCMD r"
        by (cases rule: bank_ready_cases; use nsref False req in \<open>auto simp: cmd_class_defs\<close>)+
      then show ?thesis using True x rw ok nz inv(2) nsref unfolding eq
        by (auto simp: issuable_def)
    qed
  qed (simp add: eq)
qed

lemma update_rank_states_ok:
  assumes "\<forall>(j, k)\<in>set ps. \<exists>s. bank_UpdateState (bank_states ch (cRank c) j k) c = Inr s" "distinct ps"
  shows "\<exists>ch'. update_rank_states c ps ch = Inr ch' \<and> refresh_q ch' = refresh_q ch \<and>
    rank_is_sref ch' = rank_is_sref ch \<and> rank_idle_cycles ch' = rank_idle_cycles ch \<and> four_aw ch' = four_aw ch \<and>
    (\<forall>r g b. if r = cRank c \<and> (g, b) \<in> set ps
       then bank_UpdateState (bank_states ch r g b) c = Inr (bank_states ch' r g b)
       else bank_states ch' r g b = bank_states ch r g b)"
  using assms
proof (induction ps arbitrary: ch)
  case (Cons p ps)
  obtain j k where p: "p = (j, k)" by (cases p)
  with Cons.prems(1) obtain s where s: "bank_UpdateState (bank_states ch (cRank c) j k) c = Inr s" by auto
  let ?ch = "set_bank (cRank c) j k s ch"
  have "\<forall>(j', k')\<in>set ps. \<exists>s. bank_UpdateState (bank_states ?ch (cRank c) j' k') c = Inr s"
    using Cons.prems p by auto
  from Cons.IH [OF this] Cons.prems(2) obtain ch' where ch': "update_rank_states c ps ?ch = Inr ch'"
    "refresh_q ch' = refresh_q ch" "rank_is_sref ch' = rank_is_sref ch" "rank_idle_cycles ch' = rank_idle_cycles ch"
    "four_aw ch' = four_aw ch"
    "\<forall>r g b. if r = cRank c \<and> (g, b) \<in> set ps
       then bank_UpdateState (bank_states ?ch r g b) c = Inr (bank_states ch' r g b)
       else bank_states ch' r g b = bank_states ?ch r g b"
    by auto
  have "if r = cRank c \<and> (g, b) \<in> set (p # ps)
       then bank_UpdateState (bank_states ch r g b) c = Inr (bank_states ch' r g b)
       else bank_states ch' r g b = bank_states ch r g b" for r g b
    using ch'(6) [rule_format, of r g b] s p Cons.prems(2) by (auto split: if_splits)
  with ch' s p show ?case by simp
qed simp

text \<open>The queue of refreshes shrinks at most.\<close>

lemma in_erase_first: "x \<in> set (erase_first P xs) \<Longrightarrow> x \<in> set xs"
  by (induction xs) (auto split: if_splits)

lemma bank_sref_state:
  assumes "bank_UpdateState b c = Inr b'"
  shows "bstate b' = SREF \<longleftrightarrow> cmd_type c = SREF_ENTER"
  using assms by (auto simp: bank_UpdateState_def AbruptExit_def split: State.splits CommandType.splits)

lemma bank_update_from:
  assumes "bank_UpdateState b c = Inr b'"
  shows "bstate b = SREF \<longleftrightarrow> cmd_type c = SREF_EXIT"
  using assms by (auto simp: bank_UpdateState_def AbruptExit_def split: State.splits CommandType.splits)

lemma ch_UpdateState_ok:
  assumes "dram_ok d" "banks_inv d ch" "issuable d ch c clk"
  shows "\<exists>ch'. ch_UpdateState d c ch = Inr ch' \<and> banks_inv d ch' \<and>
    set (refresh_q ch') \<subseteq> set (refresh_q ch) \<and> rank_idle_cycles ch' = rank_idle_cycles ch \<and>
    four_aw ch' = four_aw ch \<and>
    (\<forall>r g b. bank_ok d r g b \<longrightarrow> cmd_timing (bank_states ch' r g b) = cmd_timing (bank_states ch r g b)) \<and>
    rank_is_sref ch' = (rank_is_sref ch)(cRank c := cmd_type c = SREF_ENTER)"
proof (cases "IsRankCMD c")
  case True
  with assms(3) have rk: "rank_ok d (cRank c)"
    and ex: "\<forall>(j, k)\<in>set (rank_banks d). \<exists>s. bank_UpdateState (bank_states ch (cRank c) j k) c = Inr s"
    by (auto simp: issuable_def executable_def)
  from update_rank_states_ok [OF ex distinct_rank_banks] obtain ch1 where u: "update_rank_states c (rank_banks d) ch = Inr ch1"
    "refresh_q ch1 = refresh_q ch" "rank_is_sref ch1 = rank_is_sref ch" "rank_idle_cycles ch1 = rank_idle_cycles ch"
    "four_aw ch1 = four_aw ch"
    "\<And>r g b. if r = cRank c \<and> (g, b) \<in> set (rank_banks d)
       then bank_UpdateState (bank_states ch r g b) c = Inr (bank_states ch1 r g b)
       else bank_states ch1 r g b = bank_states ch r g b"
    by blast
  have "(0, 0) \<in> set (rank_banks d)" using assms(1) by (auto simp: dram_ok_def rank_banks_set)
  with ex obtain s0 where "bank_UpdateState (bank_states ch (cRank c) 0 0) c = Inr s0" by blast
  with banks_invD(2) [OF assms(2) rank_bank_ok [OF rk \<open>(0, 0) \<in> set (rank_banks d)\<close>]]
  have sr: "rank_is_sref ch (cRank c) \<longleftrightarrow> cmd_type c = SREF_EXIT" using bank_update_from by blast
  define ch' where "ch' = (if IsRefresh c then RankNeedRefresh (cRank c) False ch1
                 else if cmd_type c = SREF_ENTER then ch1\<lparr>rank_is_sref := (rank_is_sref ch1)(cRank c := True)\<rparr>
                 else if cmd_type c = SREF_EXIT then ch1\<lparr>rank_is_sref := (rank_is_sref ch1)(cRank c := False)\<rparr>
                 else ch1)"
  have eq: "ch_UpdateState d c ch = Inr ch'" using True rk u(1) by (simp add: ch_UpdateState_def ch'_def)
  have b': "bank_states ch' = bank_states ch1" "set (refresh_q ch') \<subseteq> set (refresh_q ch)"
    "rank_idle_cycles ch' = rank_idle_cycles ch" "four_aw ch' = four_aw ch"
    using u by (auto simp: ch'_def RankNeedRefresh_def dest: in_erase_first)
  have t: "cmd_type c \<in> {REFRESH, SREF_ENTER, SREF_EXIT}" using True by (auto simp: IsRankCMD_def)
  have s': "rank_is_sref ch' = (rank_is_sref ch)(cRank c := cmd_type c = SREF_ENTER)"
    using t sr u(3) by (auto simp: ch'_def RankNeedRefresh_def IsRefresh_def fun_eq_iff)
  have at: "bank_UpdateState (bank_states ch r g b) c = Inr (bank_states ch' r g b)"
    if "bank_ok d r g b" "r = cRank c" for r g b
    using u(6) [of r g b] that by (auto simp: b' bank_ok_def rank_banks_set)
  have off: "bank_states ch' r g b = bank_states ch r g b" if "r \<noteq> cRank c" for r g b
    using u(6) [of r g b] that by (auto simp: b')
  have inv: "banks_inv d ch'"
    unfolding banks_inv_def
  proof (intro allI impI)
    fix r g b assume ok: "bank_ok d r g b"
    show "bank_inv (bank_states ch' r g b) \<and> (bstate (bank_states ch' r g b) = SREF \<longleftrightarrow> rank_is_sref ch' r)"
    proof (cases "r = cRank c")
      case True
      show ?thesis using bank_UpdateState_inv [OF banks_invD(1) [OF assms(2) ok] at [OF ok True]]
          bank_sref_state [OF at [OF ok True]] True by (simp add: s')
    next
      case False
      then show ?thesis using banks_invD [OF assms(2) ok] off by (simp add: s')
    qed
  qed
  have tm: "cmd_timing (bank_states ch' r g b) = cmd_timing (bank_states ch r g b)" if "bank_ok d r g b" for r g b
    using bank_UpdateState_timing [OF at [OF that]] off [of r g b] by (cases "r = cRank c") auto
  show ?thesis using eq inv b' s' tm by blast
next
  case False
  let ?b = "bank_states ch (cRank c) (cBankgroup c) (cBank c)"
  from False assms(3) obtain s where ok: "bank_ok d (cRank c) (cBankgroup c) (cBank c)"
    and s: "bank_UpdateState ?b c = Inr s"
    by (auto simp: issuable_def executable_def)
  define ch' where "ch' = (let ch1 = set_bank (cRank c) (cBankgroup c) (cBank c) s ch
    in if IsRefresh c then BankNeedRefresh (cRank c) (cBankgroup c) (cBank c) False ch1 else ch1)"
  have eq: "ch_UpdateState d c ch = Inr ch'" using False ok s by (simp add: ch_UpdateState_def ch'_def Let_def)
  have b': "bank_states ch' = bank_states (set_bank (cRank c) (cBankgroup c) (cBank c) s ch)"
    "set (refresh_q ch') \<subseteq> set (refresh_q ch)"
    "rank_idle_cycles ch' = rank_idle_cycles ch" "four_aw ch' = four_aw ch" "rank_is_sref ch' = rank_is_sref ch"
    by (auto simp: ch'_def BankNeedRefresh_def Let_def set_bank_def dest: in_erase_first)
  have "cmd_type c \<noteq> SREF_EXIT" "cmd_type c \<noteq> SREF_ENTER" using False by (auto simp: IsRankCMD_def)
  with bank_update_from [OF s] bank_sref_state [OF s]
  have ns: "bstate ?b \<noteq> SREF" "bstate s \<noteq> SREF" by auto
  then have rs: "\<not> rank_is_sref ch (cRank c)" using banks_invD(2) [OF assms(2) ok] by simp
  have inv: "banks_inv d ch'"
    unfolding banks_inv_def
  proof (intro allI impI)
    fix r g b assume ok': "bank_ok d r g b"
    show "bank_inv (bank_states ch' r g b) \<and> (bstate (bank_states ch' r g b) = SREF \<longleftrightarrow> rank_is_sref ch' r)"
      using banks_invD [OF assms(2) ok'] bank_UpdateState_inv [OF banks_invD(1) [OF assms(2) ok] s] ns rs
      by (auto simp: b')
  qed
  have "rank_is_sref ch' = (rank_is_sref ch)(cRank c := cmd_type c = SREF_ENTER)"
    using rs \<open>cmd_type c \<noteq> SREF_ENTER\<close> by (auto simp: b' fun_eq_iff)
  moreover have "cmd_timing (bank_states ch' r g b) = cmd_timing (bank_states ch r g b)" for r g b
    using bank_UpdateState_timing [OF s] by (simp add: b')
  ultimately show ?thesis using eq inv b' by blast
qed

text \<open>Issuing a command keeps the invariant.\<close>

lemma UpdateTimingAndStates_ok:
  assumes "dram_ok (dram cfg)" "banks_inv (dram cfg) ch" "issuable (dram cfg) ch c clk"
  shows "\<exists>ch'. UpdateTimingAndStates cfg tm c clk ch = Inr ch' \<and> banks_inv (dram cfg) ch' \<and>
    set (refresh_q ch') \<subseteq> set (refresh_q ch) \<and> rank_idle_cycles ch' = rank_idle_cycles ch \<and>
    rank_is_sref ch' = (rank_is_sref ch)(cRank c := cmd_type c = SREF_ENTER) \<and>
    four_aw ch' = (if cmd_type c = ACTIVATE
       then (four_aw ch)(cRank c := push_window clk (tFAW (rowt cfg)) (four_aw ch (cRank c))) else four_aw ch) \<and>
    (\<forall>r g b. bank_ok (dram cfg) r g b \<longrightarrow> (\<exists>s. cmd_timing s = cmd_timing (bank_states ch r g b) \<and>
       bank_states ch' r g b = apply_timing (constraints tm c r g b) clk s))"
proof -
  from ch_UpdateState_ok [OF assms] obtain ch1 where c1: "ch_UpdateState (dram cfg) c ch = Inr ch1" "banks_inv (dram cfg) ch1"
    "set (refresh_q ch1) \<subseteq> set (refresh_q ch)" "rank_idle_cycles ch1 = rank_idle_cycles ch" "four_aw ch1 = four_aw ch"
    "\<And>r g b. bank_ok (dram cfg) r g b \<Longrightarrow> cmd_timing (bank_states ch1 r g b) = cmd_timing (bank_states ch r g b)"
    "rank_is_sref ch1 = (rank_is_sref ch)(cRank c := cmd_type c = SREF_ENTER)" by blast
  have "IsValid c" using assms(3) by (simp add: issuable_def)
  from ch_UpdateTiming_defined [OF this] obtain ch2 where c2: "ch_UpdateTiming cfg tm c clk ch1 = Inr ch2" by blast
  note f = ch_UpdateTiming_frame [OF c2]
  note at = ch_UpdateTiming_at [OF c2]
  have "banks_inv (dram cfg) ch2"
    using c1(2) at f(2) unfolding banks_inv_def by simp
  moreover have "UpdateTimingAndStates cfg tm c clk ch = Inr ch2" using c1(1) c2 by (simp add: UpdateTimingAndStates_def)
  moreover have "\<exists>s. cmd_timing s = cmd_timing (bank_states ch r g b) \<and>
      bank_states ch2 r g b = apply_timing (constraints tm c r g b) clk s" if "bank_ok (dram cfg) r g b" for r g b
    using c1(6) [OF that] at [OF that] by blast
  ultimately show ?thesis using c1(3,4,5,7) f by (intro exI [of _ ch2]) auto
qed

end
