(* ===== verification/Dram_Queue.thy ===== *)
theory Dram_Queue
  imports Dram_Channel
begin

text \<open>
  The command queues of a channel (\<open>command_queue.cc\<close>): one per rank or per bank, from which
  the next command to issue is chosen, and the preparation of refreshes. Statistics are left
  out. An access to a queue that does not exist is an error.
\<close>

section \<open>Queues\<close>

record CommandQueue =
  rank_q_empty :: "int \<Rightarrow> bool"
  q_structure :: QueueStructure
  queues :: "int \<Rightarrow> Command list"
  ref_q_indices :: "int set"
  is_in_ref :: bool
  num_queues :: int
  queue_size :: nat
  queue_idx :: int
  q_clk :: nat

definition new_queue :: "Config \<Rightarrow> CommandQueue res" where
  "new_queue cfg =
     (let mk = (\<lambda>s n. \<lparr>rank_q_empty = (\<lambda>_. True), q_structure = s, queues = (\<lambda>_. []), ref_q_indices = {},
                    is_in_ref = False, num_queues = n, queue_size = nat (cmd_queue_size (sys cfg)),
                    queue_idx = 0, q_clk = 0\<rparr>)
      in if queue_structure (sys cfg) = ''PER_BANK'' then
           Inr (mk PER_BANK (banks (dram cfg) * ranks (dram cfg)))
         else if queue_structure (sys cfg) = ''PER_RANK'' then Inr (mk PER_RANK (ranks (dram cfg)))
         else AbruptExit ''command_queue.cc'')"

definition GetQueueIndex :: "DramStructure \<Rightarrow> CommandQueue \<Rightarrow> int \<Rightarrow> int \<Rightarrow> int \<Rightarrow> int" where
  "GetQueueIndex d q r g b =
     (if q_structure q = PER_RANK then r else r * banks d + g * banks_per_group d + b)"

definition queue_ok :: "CommandQueue \<Rightarrow> int \<Rightarrow> bool" where
  "queue_ok q i \<longleftrightarrow> 0 \<le> i \<and> i < num_queues q"

definition cmd_index :: "DramStructure \<Rightarrow> CommandQueue \<Rightarrow> Command \<Rightarrow> int" where
  "cmd_index d q c = GetQueueIndex d q (cRank c) (cBankgroup c) (cBank c)"

definition WillAcceptCommand :: "DramStructure \<Rightarrow> CommandQueue \<Rightarrow> int \<Rightarrow> int \<Rightarrow> int \<Rightarrow> bool res" where
  "WillAcceptCommand d q r g b =
     (let i = GetQueueIndex d q r g b in
      require (queue_ok q i) (Undefined ''queues_'') (Inr (length (queues q i) < queue_size q)))"

definition QueueEmpty :: "CommandQueue \<Rightarrow> bool" where
  "QueueEmpty q = list_all (\<lambda>i. queues q i = []) [0..num_queues q - 1]"

definition QueueUsage :: "CommandQueue \<Rightarrow> nat" where
  "QueueUsage q = sum_list (map (\<lambda>i. length (queues q i)) [0..num_queues q - 1])"

definition AddCommand :: "DramStructure \<Rightarrow> Command \<Rightarrow> CommandQueue \<Rightarrow> (bool \<times> CommandQueue) res" where
  "AddCommand d c q =
     (let i = cmd_index d q c in
      require (queue_ok q i) (Undefined ''queues_'')
        (if length (queues q i) < queue_size q then
           require (rank_ok d (cRank c)) (Undefined ''rank_q_empty'')
             (Inr (True, q\<lparr>queues := (queues q)(i := queues q i @ [c]),
                          rank_q_empty := (rank_q_empty q)(cRank c := False)\<rparr>))
         else Inr (False, q)))"

text \<open>\<open>GetNextQueue\<close> moves the index on; the queue at it is the next one.\<close>

definition GetNextQueue :: "CommandQueue \<Rightarrow> CommandQueue" where
  "GetNextQueue q =
     (let i = queue_idx q + 1 in q\<lparr>queue_idx := (if i = num_queues q then 0 else i)\<rparr>)"

definition same_bank_cmd :: "Command \<Rightarrow> Command \<Rightarrow> bool" where
  "same_bank_cmd a b \<longleftrightarrow> cRank a = cRank b \<and> cBankgroup a = cBankgroup b \<and> cBank a = cBank b"

text \<open>
  \<open>ArbitratePrecharge\<close> for the command \<open>c\<close>, with the commands before it in the queue and
  itself with those behind it: a precharge must not overtake an earlier command of the bank,
  and waits while hits on the open row are pending, up to four hits.
\<close>

definition ArbitratePrecharge :: "ChannelState \<Rightarrow> Command list \<Rightarrow> Command \<Rightarrow> Command list \<Rightarrow> bool" where
  "ArbitratePrecharge ch before c from =
     (if list_ex (\<lambda>p. same_bank_cmd p c) before then False
      else
        (let row_open = OpenRow ch c;
             pending_row_hits_exist = list_ex (\<lambda>p. cRow p = row_open \<and> same_bank_cmd p c) from;
             rowhit_limit_reached = RowHitCount ch c \<ge> 4
         in \<not> pending_row_hits_exist \<or> rowhit_limit_reached))"

text \<open>The ranks are not compared here, as in the code.\<close>

definition HasRWDependency :: "Command list \<Rightarrow> Command \<Rightarrow> bool" where
  "HasRWDependency before c =
     list_ex (\<lambda>p. IsRead p \<and> cRow p = cRow c \<and> cColumn p = cColumn c \<and> cBank p = cBank c \<and>
               cBankgroup p = cBankgroup c) before"

fun first_ready ::
  "DramStructure \<Rightarrow> ChannelState \<Rightarrow> nat \<Rightarrow> Command list \<Rightarrow> Command list \<Rightarrow> Command res" where
  "first_ready d ch clk before [] = Inr no_cmd"
| "first_ready d ch clk before (c # cs) =
     bindR (ch_GetReadyCommand d ch c clk) (\<lambda>cmd.
       if \<not> IsValid cmd then first_ready d ch clk (before @ [c]) cs
       else if cmd_type cmd = PRECHARGE then
         (if \<not> ArbitratePrecharge ch before c (c # cs) then first_ready d ch clk (before @ [c]) cs
          else Inr cmd)
       else if IsWrite cmd then
         (if HasRWDependency before c then first_ready d ch clk (before @ [c]) cs else Inr cmd)
       else Inr cmd)"

definition GetFirstReadyInQueue :: "DramStructure \<Rightarrow> ChannelState \<Rightarrow> nat \<Rightarrow> Command list \<Rightarrow> Command res" where
  "GetFirstReadyInQueue d ch clk cs = first_ready d ch clk [] cs"

definition EraseRWCommand :: "DramStructure \<Rightarrow> Command \<Rightarrow> CommandQueue \<Rightarrow> CommandQueue res" where
  "EraseRWCommand d c q =
     (let i = cmd_index d q c; P = (\<lambda>x. hex_addr c = hex_addr x \<and> cmd_type c = cmd_type x) in
      require (queue_ok q i) (Undefined ''queues_'')
        (require (list_ex P (queues q i)) (Panicked ''cannot find cmd!'')
          (Inr (q\<lparr>queues := (queues q)(i := erase_first P (queues q i))\<rparr>))))"

text \<open>The loop of \<open>GetCommandToIssue\<close>, with the number of queues still to look at.\<close>

fun command_loop ::
  "DramStructure \<Rightarrow> ChannelState \<Rightarrow> nat \<Rightarrow> CommandQueue \<Rightarrow> (Command \<times> CommandQueue) res" where
  "command_loop d ch 0 q = Inr (no_cmd, q)"
| "command_loop d ch (Suc n) q =
     (let q1 = GetNextQueue q in
      if is_in_ref q1 \<and> queue_idx q1 \<in> ref_q_indices q1 then command_loop d ch n q1
      else
        require (queue_ok q1 (queue_idx q1)) (Undefined ''queues_'')
          (bindR (GetFirstReadyInQueue d ch (q_clk q1) (queues q1 (queue_idx q1))) (\<lambda>cmd.
            if IsValid cmd then
              (if IsReadWrite cmd then bindR (EraseRWCommand d cmd q1) (\<lambda>q2. Inr (cmd, q2))
               else Inr (cmd, q1))
            else command_loop d ch n q1)))"

definition GetCommandToIssue :: "DramStructure \<Rightarrow> ChannelState \<Rightarrow> CommandQueue \<Rightarrow> (Command \<times> CommandQueue) res" where
  "GetCommandToIssue d ch q = command_loop d ch (nat (num_queues q)) q"

definition GetRefQIndices :: "DramStructure \<Rightarrow> Command \<Rightarrow> CommandQueue \<Rightarrow> CommandQueue" where
  "GetRefQIndices d ref q =
     (if cmd_type ref = REFRESH then
        (if q_structure q = PER_BANK then
           q\<lparr>ref_q_indices := ref_q_indices q \<union> {i \<in> set [0..num_queues q - 1]. i div banks d = cRank ref}\<rparr>
         else q\<lparr>ref_q_indices := insert (cRank ref) (ref_q_indices q)\<rparr>)
      else q\<lparr>ref_q_indices := insert (cmd_index d q ref) (ref_q_indices q)\<rparr>)"

text \<open>\<open>FinishRefresh\<close> is called only when a refresh waits; \<open>front\<close> is the first one.\<close>

definition FinishRefresh :: "DramStructure \<Rightarrow> ChannelState \<Rightarrow> CommandQueue \<Rightarrow> (Command \<times> CommandQueue) res" where
  "FinishRefresh d ch q =
     require (refresh_q ch \<noteq> []) (Undefined ''refresh_q_.front()'')
       (let ref = hd (refresh_q ch);
            q1 = (if \<not> is_in_ref q then (GetRefQIndices d ref q)\<lparr>is_in_ref := True\<rparr> else q)
        in bindR (ch_GetReadyCommand d ch ref (q_clk q1)) (\<lambda>cmd.
             Inr (cmd, if IsRefresh cmd then q1\<lparr>ref_q_indices := {}, is_in_ref := False\<rparr> else q1)))"

section \<open>The invariant\<close>

text \<open>
  Every queue holds reads and writes of banks that exist, at the index of their bank, with the
  address the mapping gives. \<open>held\<close> is the multiset of all queued commands.
\<close>

definition queue_cmd_ok :: "AddrMap \<Rightarrow> DramStructure \<Rightarrow> CommandQueue \<Rightarrow> int \<Rightarrow> Command \<Rightarrow> bool" where
  "queue_cmd_ok m d q i c \<longleftrightarrow> IsReadWrite c \<and> cmd_addr c = AddressMapping m (hex_addr c) \<and> bank_ok d (cRank c) (cBankgroup c) (cBank c) \<and> cmd_index d q c = i"

definition queue_inv :: "AddrMap \<Rightarrow> DramStructure \<Rightarrow> CommandQueue \<Rightarrow> bool" where
  "queue_inv m d q \<longleftrightarrow>
     num_queues q = (if q_structure q = PER_BANK then banks d * ranks d else ranks d) \<and>
     0 \<le> queue_idx q \<and> queue_idx q < num_queues q \<and>
     (\<forall>i. queue_ok q i \<longrightarrow> list_all (queue_cmd_ok m d q i) (queues q i) \<and> length (queues q i) \<le> queue_size q)"

definition held :: "CommandQueue \<Rightarrow> Command multiset" where
  "held q = (\<Sum>i\<in>{0..<num_queues q}. mset (queues q i))"

lemma new_queue_inv:
  assumes "dram_ok (dram cfg)" "new_queue cfg = Inr q"
  shows "queue_inv m (dram cfg) q" "held q = {#}"
  using assms by (auto simp: new_queue_def queue_inv_def held_def dram_ok_def AbruptExit_def Let_def
      split: if_splits)

lemma index_in_range:
  assumes "dram_ok d" "bank_ok d r g b" "num_queues q = (if q_structure q = PER_BANK then banks d * ranks d else ranks d)"
  shows "queue_ok q (GetQueueIndex d q r g b)"
proof (cases "q_structure q")
  case PER_RANK
  then show ?thesis using assms by (simp add: queue_ok_def GetQueueIndex_def bank_ok_def rank_ok_def)
next
  case PER_BANK
  have b: "banks d = bankgroups d * banks_per_group d" "0 \<le> r" "r < ranks d" "0 \<le> g" "g < bankgroups d"
    "0 \<le> b" "b < banks_per_group d"
    using assms(1,2) by (auto simp: dram_ok_def bank_ok_def rank_ok_def)
  have "g * banks_per_group d + b < banks d"
  proof -
    have "(g + 1) * banks_per_group d \<le> bankgroups d * banks_per_group d" using b by (intro mult_right_mono) auto
    then show ?thesis using b by (simp add: algebra_simps)
  qed
  moreover have "(r + 1) * banks d \<le> ranks d * banks d"
    using b(1-3) assms(1) by (intro mult_right_mono) (auto simp: dram_ok_def)
  moreover have "0 \<le> r * banks d" "0 \<le> g * banks_per_group d" using b assms(1) by (auto simp: dram_ok_def)
  ultimately show ?thesis using PER_BANK assms(3) b
    by (simp add: queue_ok_def GetQueueIndex_def algebra_simps)
qed

lemma held_update:
  assumes "queue_ok q i"
  shows "held (q\<lparr>queues := (queues q)(i := cs)\<rparr>) + mset (queues q i) = held q + mset cs"
proof -
  have i: "i \<in> {0..<num_queues q}" using assms by (simp add: queue_ok_def)
  have "(\<Sum>j\<in>{0..<num_queues q} - {i}. mset (((queues q)(i := cs)) j)) = (\<Sum>j\<in>{0..<num_queues q} - {i}. mset (queues q j))"
    by (rule sum.cong) auto
  then show ?thesis
    unfolding held_def using sum.remove [OF _ i, of "\<lambda>j. mset (queues q j)"]
      sum.remove [OF _ i, of "\<lambda>j. mset (((queues q)(i := cs)) j)"]
    by (simp add: ac_simps)
qed

lemma in_held: "c \<in># held q \<longleftrightarrow> (\<exists>i. queue_ok q i \<and> c \<in> set (queues q i))"
  by (auto simp: held_def queue_ok_def set_mset_sum)

lemma erase_first_mset:
  assumes "list_ex P xs"
  shows "\<exists>x\<in>set xs. P x \<and> mset xs = add_mset x (mset (erase_first P xs))"
  using assms by (induction xs) auto

lemma length_erase_first: "length (erase_first P xs) \<le> length xs"
  by (induction xs) auto

lemma first_ready_ok:
  assumes "dram_ok d" "banks_inv d ch"
    and "list_all (\<lambda>c. IsReadWrite c \<and> bank_ok d (cRank c) (cBankgroup c) (cBank c)) cs"
  shows "succeeds (first_ready d ch clk before cs) (\<lambda>cmd. IsValid cmd \<longrightarrow> issuable d ch cmd clk \<and>
    (IsReadWrite cmd \<longrightarrow> cmd \<in> set cs) \<and> cmd_type cmd \<noteq> SREF_ENTER \<and>
    (cmd_type cmd = SREF_EXIT \<longrightarrow> rank_is_sref ch (cRank cmd)))"
  using assms(3)
proof (induction cs arbitrary: before)
  case (Cons c cs)
  then have c: "IsReadWrite c" "request_ok d ch c" by (auto simp: request_ok_def)
  from GetReadyCommand_ok [OF assms(1,2) c(2), of clk, unfolded succeeds_iff] obtain cmd where
    g: "ch_GetReadyCommand d ch c clk = Inr cmd"
    "IsValid cmd \<longrightarrow> issuable d ch cmd clk \<and> (IsReadWrite cmd \<longrightarrow> cmd = c) \<and>
      (IsReadWrite c \<or> \<not> rank_is_sref ch (cRank cmd)) \<and> (cmd_type cmd = SREF_EXIT \<longrightarrow> rank_is_sref ch (cRank cmd)) \<and>
      (cmd_type cmd = SREF_ENTER \<longrightarrow> cmd_type c = SREF_ENTER)" by blast
  have ne: "cmd_type c \<noteq> SREF_ENTER" using c(1) by (auto simp: cmd_class_defs)
  have IH: "succeeds (first_ready d ch clk (before @ [c]) cs) (\<lambda>cmd. IsValid cmd \<longrightarrow> issuable d ch cmd clk \<and>
    (IsReadWrite cmd \<longrightarrow> cmd \<in> set (c # cs)) \<and> cmd_type cmd \<noteq> SREF_ENTER \<and>
    (cmd_type cmd = SREF_EXIT \<longrightarrow> rank_is_sref ch (cRank cmd)))"
    using Cons.IH [of "before @ [c]"] Cons.prems by (auto elim!: succeeds_mono)
  show ?case using g ne IH by simp
qed simp

lemma queue_cmd_ok_cong: "q_structure q' = q_structure q \<Longrightarrow> queue_cmd_ok m d q' = queue_cmd_ok m d q"
  by (simp add: fun_eq_iff queue_cmd_ok_def cmd_index_def GetQueueIndex_def)

text \<open>One queue changed, keeping to its commands and its size.\<close>

lemma queue_inv_set:
  assumes "queue_inv m d q" "queue_ok q i" "list_all (queue_cmd_ok m d q i) cs" "length cs \<le> queue_size q"
  shows "queue_inv m d (q\<lparr>queues := (queues q)(i := cs)\<rparr>)"
  using assms queue_cmd_ok_cong [of "q\<lparr>queues := (queues q)(i := cs)\<rparr>" q m d]
  by (simp add: queue_inv_def queue_ok_def)

lemma EraseRWCommand_ok:
  assumes "queue_inv m d q" "queue_ok q i" "c \<in> set (queues q i)"
  shows "succeeds (EraseRWCommand d c q) (\<lambda>q'. queue_inv m d q' \<and> held q = add_mset c (held q') \<and>
    q' = q\<lparr>queues := queues q'\<rparr>)"
proof -
  let ?P = "\<lambda>x. hex_addr c = hex_addr x \<and> cmd_type c = cmd_type x"
  from assms(1,2) have all: "list_all (queue_cmd_ok m d q i) (queues q i)" "length (queues q i) \<le> queue_size q"
    by (auto simp: queue_inv_def)
  with assms(3) have c: "queue_cmd_ok m d q i c" by (auto simp: list_all_iff)
  then have i: "cmd_index d q c = i" by (simp add: queue_cmd_ok_def)
  have ex: "list_ex ?P (queues q i)" using assms(3) by (auto simp: list_ex_iff)
  from erase_first_mset [OF ex] obtain x where x: "x \<in> set (queues q i)" "?P x"
    "mset (queues q i) = add_mset x (mset (erase_first ?P (queues q i)))" by blast
  have "x = c" using x(1,2) c all(1) by (intro Command.equality) (auto simp: list_all_iff queue_cmd_ok_def)
  let ?q = "q\<lparr>queues := (queues q)(i := erase_first ?P (queues q i))\<rparr>"
  have "held ?q + mset (queues q i) = held q + mset (erase_first ?P (queues q i))" by (rule held_update [OF assms(2)])
  with x(3) \<open>x = c\<close> have "held q = add_mset c (held ?q)" by simp
  moreover have "queue_inv m d ?q"
    using all length_erase_first [of ?P "queues q i"]
    by (intro queue_inv_set [OF assms(1,2)]) (auto simp: list_all_iff dest: in_erase_first)
  ultimately show ?thesis using assms(2) ex by (simp add: EraseRWCommand_def i)
qed

lemma GetNextQueue_ok:
  assumes "queue_inv m d q"
  shows "queue_inv m d (GetNextQueue q)" "held (GetNextQueue q) = held q"
    "queue_ok (GetNextQueue q) (queue_idx (GetNextQueue q))" "queues (GetNextQueue q) = queues q"
    "q_clk (GetNextQueue q) = q_clk q" "queue_size (GetNextQueue q) = queue_size q"
    "rank_q_empty (GetNextQueue q) = rank_q_empty q"
proof -
  have e: "queues (GetNextQueue q) = queues q" "num_queues (GetNextQueue q) = num_queues q"
    "q_structure (GetNextQueue q) = q_structure q" "queue_size (GetNextQueue q) = queue_size q"
    by (simp_all add: GetNextQueue_def Let_def)
  have "0 \<le> queue_idx q" "queue_idx q < num_queues q" using assms unfolding queue_inv_def by blast+
  then have i: "0 \<le> queue_idx (GetNextQueue q)" "queue_idx (GetNextQueue q) < num_queues q"
    by (simp_all add: GetNextQueue_def Let_def)
  show "queue_inv m d (GetNextQueue q)"
    using assms i e queue_cmd_ok_cong [OF e(3)] by (simp add: queue_inv_def queue_ok_def)
  show "held (GetNextQueue q) = held q" "queue_ok (GetNextQueue q) (queue_idx (GetNextQueue q))"
    using i e by (simp_all add: held_def queue_ok_def)
qed (simp_all add: GetNextQueue_def Let_def)

lemma command_loop_ok:
  assumes "dram_ok d" "banks_inv d ch" "queue_inv m d q"
  shows "succeeds (command_loop d ch n q) (\<lambda>(cmd, q'). queue_inv m d q' \<and> q_clk q' = q_clk q \<and>
    held q = (if IsReadWrite cmd then {#cmd#} else {#}) + held q' \<and>
    (IsValid cmd \<longrightarrow> issuable d ch cmd (q_clk q) \<and> cmd_type cmd \<noteq> SREF_ENTER \<and>
       (cmd_type cmd = SREF_EXIT \<longrightarrow> rank_is_sref ch (cRank cmd))))"
  using assms(3)
proof (induction n arbitrary: q)
  case 0
  then show ?case by (simp add: cmd_class_defs no_cmd_def)
next
  case (Suc n)
  define q1 where "q1 = GetNextQueue q"
  note n = GetNextQueue_ok [OF Suc.prems, folded q1_def]
  let ?i = "queue_idx q1"
  have IH: "succeeds (command_loop d ch n q1) (\<lambda>(cmd, q'). queue_inv m d q' \<and> q_clk q' = q_clk q \<and>
    held q = (if IsReadWrite cmd then {#cmd#} else {#}) + held q' \<and>
    (IsValid cmd \<longrightarrow> issuable d ch cmd (q_clk q) \<and> cmd_type cmd \<noteq> SREF_ENTER \<and>
       (cmd_type cmd = SREF_EXIT \<longrightarrow> rank_is_sref ch (cRank cmd))))"
    using Suc.IH [OF n(1)] by (simp only: n(2,5))
  show ?case
  proof (cases "is_in_ref q1 \<and> ?i \<in> ref_q_indices q1")
    case True
    then show ?thesis using IH by (simp add: Let_def q1_def [symmetric])
  next
    case nref: False
    note step = command_loop.simps(2) Let_def q1_def [symmetric] if_not_P [OF nref]
    have "list_all (queue_cmd_ok m d q1 ?i) (queues q1 ?i)" using n(1,3) by (auto simp: queue_inv_def)
    then have "list_all (\<lambda>c. IsReadWrite c \<and> bank_ok d (cRank c) (cBankgroup c) (cBank c)) (queues q1 ?i)"
      by (auto simp: list_all_iff queue_cmd_ok_def)
    from first_ready_ok [OF assms(1,2) this, of "q_clk q1" "[]"] obtain cmd where
      f: "GetFirstReadyInQueue d ch (q_clk q1) (queues q1 ?i) = Inr cmd"
      "IsValid cmd \<longrightarrow> issuable d ch cmd (q_clk q1) \<and> (IsReadWrite cmd \<longrightarrow> cmd \<in> set (queues q1 ?i)) \<and>
        cmd_type cmd \<noteq> SREF_ENTER \<and> (cmd_type cmd = SREF_EXIT \<longrightarrow> rank_is_sref ch (cRank cmd))"
      unfolding succeeds_iff GetFirstReadyInQueue_def by blast
    show ?thesis
    proof (cases "IsValid cmd")
      case False
      then show ?thesis unfolding step using IH f(1) n(3) by simp
    next
      case valid: True
      show ?thesis
      proof (cases "IsReadWrite cmd")
        case rw: True
        with valid f(2) have "cmd \<in> set (queues q1 ?i)" by blast
        from EraseRWCommand_ok [OF n(1,3) this] obtain q2 where e: "EraseRWCommand d cmd q1 = Inr q2"
          "queue_inv m d q2" "held q1 = add_mset cmd (held q2)" "q2 = q1\<lparr>queues := queues q2\<rparr>"
          by (auto simp: succeeds_iff)
        have "q_clk q2 = q_clk q1" by (subst e(4)) simp
        then show ?thesis unfolding step using f n valid rw e(1-3) by simp
      next
        case nrw: False
        then show ?thesis unfolding step using f n valid by simp
      qed
    qed
  qed
qed

lemma GetRefQIndices_frame [simp]:
  "queues (GetRefQIndices d r q) = queues q" "num_queues (GetRefQIndices d r q) = num_queues q"
  "q_structure (GetRefQIndices d r q) = q_structure q" "queue_idx (GetRefQIndices d r q) = queue_idx q"
  "queue_size (GetRefQIndices d r q) = queue_size q" "q_clk (GetRefQIndices d r q) = q_clk q"
  "rank_q_empty (GetRefQIndices d r q) = rank_q_empty q"
  by (simp_all add: GetRefQIndices_def)

lemma queue_inv_cong:
  assumes "queues q' = queues q" "num_queues q' = num_queues q" "q_structure q' = q_structure q"
    "queue_idx q' = queue_idx q" "queue_size q' = queue_size q"
  shows "queue_inv m d q' = queue_inv m d q" "held q' = held q"
  using assms queue_cmd_ok_cong [OF assms(3)] by (simp_all add: queue_inv_def held_def queue_ok_def)

lemma FinishRefresh_ok:
  assumes "dram_ok d" "ch_inv d ch" "queue_inv m d q" "refresh_q ch \<noteq> []" "\<forall>r. \<not> rank_is_sref ch r"
  shows "succeeds (FinishRefresh d ch q) (\<lambda>(cmd, q'). queue_inv m d q' \<and> q_clk q' = q_clk q \<and> held q' = held q \<and>
    (IsValid cmd \<longrightarrow> issuable d ch cmd (q_clk q) \<and> \<not> IsReadWrite cmd \<and> cmd_type cmd \<noteq> SREF_ENTER \<and>
       cmd_type cmd \<noteq> SREF_EXIT))"
proof -
  let ?ref = "hd (refresh_q ch)"
  define q1 where "q1 = (if \<not> is_in_ref q then (GetRefQIndices d ?ref q)\<lparr>is_in_ref := True\<rparr> else q)"
  have ref: "refresh_ok d ?ref" using assms(2,4) by (simp add: ch_inv_def list_all_iff)
  then have rq: "request_ok d ch ?ref" using assms(5) by (simp add: request_ok_def)
  have b: "banks_inv d ch" using assms(2) by (simp add: ch_inv_def)
  from GetReadyCommand_ok [OF assms(1) b rq, of "q_clk q1"] obtain cmd where
    g: "ch_GetReadyCommand d ch ?ref (q_clk q1) = Inr cmd"
    "IsValid cmd \<longrightarrow> issuable d ch cmd (q_clk q1) \<and> (IsReadWrite cmd \<longrightarrow> cmd = ?ref) \<and>
       (cmd_type cmd = SREF_EXIT \<longrightarrow> rank_is_sref ch (cRank cmd)) \<and> (cmd_type cmd = SREF_ENTER \<longrightarrow> cmd_type ?ref = SREF_ENTER)"
    unfolding succeeds_iff by blast
  have nrw: "\<not> IsReadWrite ?ref" "cmd_type ?ref \<noteq> SREF_ENTER" using ref by (auto simp: refresh_ok_def cmd_class_defs)
  have q1: "queue_inv m d q1" "held q1 = held q" "q_clk q1 = q_clk q"
    using assms(3) queue_inv_cong [of q1 q] by (auto simp: q1_def)
  let ?q2 = "if IsRefresh cmd then q1\<lparr>ref_q_indices := {}, is_in_ref := False\<rparr> else q1"
  have "queue_inv m d ?q2" "held ?q2 = held q1" "q_clk ?q2 = q_clk q1"
    using q1(1) queue_inv_cong [of ?q2 q1] by auto
  moreover have "IsValid cmd \<longrightarrow> issuable d ch cmd (q_clk q) \<and> \<not> IsReadWrite cmd \<and> cmd_type cmd \<noteq> SREF_ENTER \<and>
       cmd_type cmd \<noteq> SREF_EXIT"
    using g(2) nrw assms(5) q1(3) by auto
  moreover have "FinishRefresh d ch q = Inr (cmd, ?q2)"
    using g(1) assms(4) unfolding FinishRefresh_def q1_def [symmetric] Let_def by simp
  ultimately show ?thesis using q1 by simp
qed

lemma AddCommand_ok:
  assumes "dram_ok d" "queue_inv m d q" "IsReadWrite c" "cmd_addr c = AddressMapping m (hex_addr c)"
    and "bank_ok d (cRank c) (cBankgroup c) (cBank c)"
    and "WillAcceptCommand d q (cRank c) (cBankgroup c) (cBank c) = Inr True"
  shows "succeeds (AddCommand d c q) (\<lambda>(ok, q'). ok \<and> queue_inv m d q' \<and> held q' = add_mset c (held q) \<and> q_clk q' = q_clk q)"
proof -
  let ?i = "cmd_index d q c"
  let ?q = "q\<lparr>queues := (queues q)(?i := queues q ?i @ [c]), rank_q_empty := (rank_q_empty q)(cRank c := False)\<rparr>"
  have i: "queue_ok q ?i" using index_in_range [OF assms(1,5)] assms(2) by (simp add: queue_inv_def cmd_index_def)
  have room: "length (queues q ?i) < queue_size q"
    using assms(6) by (auto simp: WillAcceptCommand_def cmd_index_def Let_def require_eq_Inr_iff)
  have rk: "rank_ok d (cRank c)" using assms(5) by (simp add: bank_ok_def)
  have "held ?q + mset (queues q ?i) = held q + mset (queues q ?i @ [c])"
    using held_update [OF i, of "queues q ?i @ [c]"] by (simp add: held_def)
  then have "held ?q = add_mset c (held q)" by simp
  moreover have "queue_inv m d ?q"
  proof -
    have "list_all (queue_cmd_ok m d q ?i) (queues q ?i @ [c])"
      using assms(2-5) i by (auto simp: queue_inv_def queue_cmd_ok_def)
    from queue_inv_set [OF assms(2) i this] room show ?thesis
      using queue_inv_cong(1) [of ?q "q\<lparr>queues := (queues q)(?i := queues q ?i @ [c])\<rparr>"] by simp
  qed
  ultimately show ?thesis using i room rk by (simp add: AddCommand_def Let_def)
qed

lemma WillAcceptCommand_defined:
  assumes "dram_ok d" "queue_inv m d q" "bank_ok d r g b"
  shows "\<exists>a. WillAcceptCommand d q r g b = Inr a"
  using index_in_range [OF assms(1,3)] assms(2) by (simp add: WillAcceptCommand_def queue_inv_def Let_def)

end
