(* ===== verification/Dram_Timing.thy ===== *)
theory Dram_Timing
  imports Dram_Channel
begin

text \<open>
  What a channel guarantees for any sequence of commands asked of it: nothing aborts, and the
  commands that are issued respect the timing tables and the four-activation window.
\<close>

section \<open>Sequences of requests\<close>

text \<open>
  One request: the command queue asks for the command that is ready, and the controller issues
  it if there is one.
\<close>

definition issue ::
  "Config \<Rightarrow> Timing \<Rightarrow> Command \<Rightarrow> nat \<Rightarrow> ChannelState \<Rightarrow> ((Command \<times> nat) list \<times> ChannelState) res" where
  "issue cfg tm cmd clk ch =
     bindR (ch_GetReadyCommand (dram cfg) ch cmd clk) (\<lambda>c.
       if IsValid c then bindR (UpdateTimingAndStates cfg tm c clk ch) (\<lambda>ch'. Inr ([(c, clk)], ch'))
       else Inr ([], ch))"

fun issue_all ::
  "Config \<Rightarrow> Timing \<Rightarrow> (Command \<times> nat) list \<Rightarrow> ChannelState \<Rightarrow> ((Command \<times> nat) list \<times> ChannelState) res" where
  "issue_all cfg tm [] ch = Inr ([], ch)"
| "issue_all cfg tm ((cmd, clk) # rs) ch =
     bindR (issue cfg tm cmd clk ch) (\<lambda>(l, ch').
       bindR (issue_all cfg tm rs ch') (\<lambda>(ls, ch''). Inr (l @ ls, ch'')))"

text \<open>Reads, writes and refreshes of banks and ranks that exist; no self-refresh.\<close>

definition plain_request :: "DramStructure \<Rightarrow> Command \<Rightarrow> bool" where
  "plain_request d c \<longleftrightarrow> (IsReadWrite c \<and> bank_ok d (cRank c) (cBankgroup c) (cBank c)) \<or> refresh_ok d c"

definition touches :: "Command \<Rightarrow> int \<Rightarrow> int \<Rightarrow> int \<Rightarrow> bool" where
  "touches c r g b \<longleftrightarrow> r = cRank c \<and> (IsRankCMD c \<or> (g = cBankgroup c \<and> b = cBank c))"

definition in_time :: "Config \<Rightarrow> Timing \<Rightarrow> Command \<times> nat \<Rightarrow> Command \<times> nat \<Rightarrow> bool" where
  "in_time cfg tm p q \<longleftrightarrow>
     (\<forall>r g b t x. bank_ok (dram cfg) r g b \<longrightarrow> touches (fst q) r g b \<longrightarrow>
        (t, x) \<in> set (constraints tm (fst p) r g b) \<longrightarrow> t = cmd_type (fst q) \<longrightarrow>
        add64 (snd p) x \<le> snd q)"

text \<open>The invariant that ties the issued commands to the timing of the banks.\<close>

definition bound_by :: "Config \<Rightarrow> Timing \<Rightarrow> ChannelState \<Rightarrow> Command \<times> nat \<Rightarrow> bool" where
  "bound_by cfg tm ch p \<longleftrightarrow>
     (\<forall>r g b t x. bank_ok (dram cfg) r g b \<longrightarrow> (t, x) \<in> set (constraints tm (fst p) r g b) \<longrightarrow>
        add64 (snd p) x \<le> cmd_timing (bank_states ch r g b) t)"

text \<open>The activations of a rank, and what the window remembers of them.\<close>

definition acts :: "int \<Rightarrow> (Command \<times> nat) list \<Rightarrow> nat list" where
  "acts r log = map snd (filter (\<lambda>p. cmd_type (fst p) = ACTIVATE \<and> cRank (fst p) = r) log)"

definition window_inv :: "Config \<Rightarrow> int \<Rightarrow> ChannelState \<Rightarrow> nat \<Rightarrow> nat list \<Rightarrow> bool" where
  "window_inv cfg r ch now ts \<longleftrightarrow>
     (\<exists>k\<le>length ts. four_aw ch r = map (\<lambda>t. add64 t (tFAW (rowt cfg))) (drop k ts) \<and> length ts \<le> k + 4 \<and>
        (\<forall>i<k. add64 (ts ! i) (tFAW (rowt cfg)) \<le> now))"

definition window_ok :: "Config \<Rightarrow> nat list \<Rightarrow> bool" where
  "window_ok cfg ts \<longleftrightarrow> (\<forall>i. i + 4 < length ts \<longrightarrow> add64 (ts ! i) (tFAW (rowt cfg)) \<le> ts ! (i + 4))"

lemma window_inv_later: "window_inv cfg r ch now ts \<Longrightarrow> now \<le> now' \<Longrightarrow> window_inv cfg r ch now' ts"
  unfolding window_inv_def by (meson le_trans)

lemma window_step:
  assumes "window_inv cfg r ch now ts" "window_ok cfg ts" "now \<le> clk"
    and "ActivationWindowOk (dram cfg) ch r clk"
    and "four_aw ch' r = push_window clk (tFAW (rowt cfg)) (four_aw ch r)"
  shows "window_inv cfg r ch' clk (ts @ [clk]) \<and> window_ok cfg (ts @ [clk])"
proof -
  let ?f = "\<lambda>t. add64 t (tFAW (rowt cfg))"
  from assms(1) obtain k where k: "k \<le> length ts" "four_aw ch r = map ?f (drop k ts)" "length ts \<le> k + 4"
    "\<forall>i<k. ?f (ts ! i) \<le> now" unfolding window_inv_def by blast
  have faw: "IsFAWReady ch r clk" using assms(4) by (simp add: ActivationWindowOk_def Let_def split: if_splits)
  have hd: "four_aw ch r \<noteq> [] \<Longrightarrow> hd (four_aw ch r) = ?f (ts ! k)" "four_aw ch r \<noteq> [] \<longleftrightarrow> k < length ts"
    "tl (four_aw ch r) = map ?f (drop (Suc k) ts)"
    using k(1,2) by (auto simp: hd_map hd_drop_conv_nth drop_Suc tl_drop map_tl [symmetric])
  have full: "?f (ts ! k) \<le> clk" if "length ts = k + 4"
  proof -
    have "four_aw ch r \<noteq> []" "length (four_aw ch r) = 4" using that k(2) by auto
    with faw hd(1) show ?thesis by (simp add: IsFAWReady_def)
  qed
  have "window_inv cfg r ch' clk (ts @ [clk])"
  proof (cases "k < length ts \<and> ?f (ts ! k) \<le> clk")
    case True
    then have "four_aw ch' r = map ?f (drop (Suc k) (ts @ [clk]))"
      using assms(5) hd by (simp add: push_window_def)
    moreover have "\<forall>i<Suc k. ?f ((ts @ [clk]) ! i) \<le> clk"
      using k(1,4) assms(3) True by (auto simp: nth_append less_Suc_eq intro: le_trans)
    ultimately show ?thesis unfolding window_inv_def using True k(3) by (intro exI [of _ "Suc k"]) auto
  next
    case False
    then have w: "four_aw ch' r = map ?f (drop k (ts @ [clk]))"
      using assms(5) hd(1,2) k(1,2) by (auto simp: push_window_def)
    have "length ts \<noteq> k + 4" using False full by auto
    then have "length ts < k + 4" using k(3) by simp
    moreover have "\<forall>i<k. ?f ((ts @ [clk]) ! i) \<le> clk"
      using k(1,4) assms(3) by (auto simp: nth_append intro: le_trans)
    ultimately show ?thesis unfolding window_inv_def using w k(1) by (intro exI [of _ k]) auto
  qed
  moreover have "window_ok cfg (ts @ [clk])"
    unfolding window_ok_def
  proof (intro allI impI)
    fix i assume i: "i + 4 < length (ts @ [clk])"
    show "?f ((ts @ [clk]) ! i) \<le> (ts @ [clk]) ! (i + 4)"
    proof (cases "i + 4 < length ts")
      case True
      then show ?thesis using assms(2) by (simp add: window_ok_def nth_append)
    next
      case False
      then have "i + 4 = length ts" using i by simp
      moreover have "?f (ts ! i) \<le> clk"
      proof (cases "i < k")
        case True
        then show ?thesis using k(4) assms(3) by (blast intro: le_trans)
      next
        case False
        then have "i = k" using \<open>i + 4 = length ts\<close> k(3) by simp
        then show ?thesis using full \<open>i + 4 = length ts\<close> by simp
      qed
      ultimately show ?thesis by (simp add: nth_append)
    qed
  qed
  ultimately show ?thesis by blast
qed

definition run_inv :: "Config \<Rightarrow> Timing \<Rightarrow> ChannelState \<Rightarrow> nat \<Rightarrow> (Command \<times> nat) list \<Rightarrow> bool" where
  "run_inv cfg tm ch now log \<longleftrightarrow> banks_inv (dram cfg) ch \<and> (\<forall>r. \<not> rank_is_sref ch r) \<and>
     list_all (bound_by cfg tm ch) log \<and> sorted_wrt (in_time cfg tm) log \<and>
     (\<forall>r. window_inv cfg r ch now (acts r log) \<and> window_ok cfg (acts r log))"

lemma run_inv_new: "run_inv cfg tm new_channel now []"
  using new_channel_inv [of "dram cfg"]
  by (simp add: run_inv_def ch_inv_def new_channel_def acts_def window_inv_def window_ok_def)

lemma issue_ok:
  assumes d: "dram_ok (dram cfg)" and inv: "run_inv cfg tm ch now log"
    and req: "plain_request (dram cfg) cmd" and "now \<le> clk"
  shows "succeeds (issue cfg tm cmd clk ch) (\<lambda>(l, ch'). run_inv cfg tm ch' clk (log @ l))"
proof -
  let ?d = "dram cfg"
  from inv have b: "banks_inv ?d ch" and ns: "\<And>r. \<not> rank_is_sref ch r" by (auto simp: run_inv_def)
  have rq: "request_ok ?d ch cmd" using req ns by (auto simp: plain_request_def request_ok_def)
  from GetReadyCommand_ok [OF d b rq, of clk, unfolded succeeds_iff] obtain c where
    c: "ch_GetReadyCommand ?d ch cmd clk = Inr c"
    "IsValid c \<longrightarrow> issuable ?d ch c clk \<and> (IsReadWrite c \<longrightarrow> c = cmd) \<and>
      (IsReadWrite cmd \<or> \<not> rank_is_sref ch (cRank c)) \<and> (cmd_type c = SREF_EXIT \<longrightarrow> rank_is_sref ch (cRank c)) \<and>
      (cmd_type c = SREF_ENTER \<longrightarrow> cmd_type cmd = SREF_ENTER)"
    by blast
  show ?thesis
  proof (cases "IsValid c")
    case False
    have "run_inv cfg tm ch clk log" using inv assms(4) window_inv_later unfolding run_inv_def by blast
    then show ?thesis using False c(1) by (simp add: issue_def)
  next
    case True
    with c(2) ns have iss: "issuable ?d ch c clk" and nx: "cmd_type c \<noteq> SREF_EXIT" by auto
    have ne: "cmd_type c \<noteq> SREF_ENTER"
      using c(2) True req by (auto simp: plain_request_def refresh_ok_def cmd_class_defs)
    from UpdateTimingAndStates_ok [OF d b iss, of tm] obtain ch' where u: "UpdateTimingAndStates cfg tm c clk ch = Inr ch'"
      "banks_inv ?d ch'" "rank_is_sref ch' = (rank_is_sref ch)(cRank c := cmd_type c = SREF_ENTER)"
      "four_aw ch' = (if cmd_type c = ACTIVATE
         then (four_aw ch)(cRank c := push_window clk (tFAW (rowt cfg)) (four_aw ch (cRank c))) else four_aw ch)"
      "\<And>r g b. bank_ok ?d r g b \<Longrightarrow> \<exists>s. cmd_timing s = cmd_timing (bank_states ch r g b) \<and>
         bank_states ch' r g b = apply_timing (constraints tm c r g b) clk s"
      by blast
    have ge: "cmd_timing (bank_states ch r g b) t \<le> cmd_timing (bank_states ch' r g b) t" if "bank_ok ?d r g b" for r g b t
      using u(5) [OF that] apply_timing_ge by metis
    have old: "bound_by cfg tm ch' p" if "bound_by cfg tm ch p" for p
      using that ge unfolding bound_by_def by (meson le_trans)
    have new: "bound_by cfg tm ch' (c, clk)"
      unfolding bound_by_def using u(5) apply_timing_bound by (metis fst_conv snd_conv)
    have ready: "cmd_timing (bank_states ch r g b) (cmd_type c) \<le> clk" if "bank_ok ?d r g b" "touches c r g b" for r g b
      using iss that nx by (auto simp: issuable_def touches_def executable_def bank_ok_def rank_banks_set split: if_splits)
    have resp: "in_time cfg tm p (c, clk)" if "bound_by cfg tm ch p" for p
      using that ready unfolding in_time_def bound_by_def by (metis fst_conv snd_conv le_trans)
    have win: "window_inv cfg r ch' clk (acts r (log @ [(c, clk)])) \<and> window_ok cfg (acts r (log @ [(c, clk)]))" for r
    proof (cases "cmd_type c = ACTIVATE \<and> r = cRank c")
      case True
      then have "ActivationWindowOk ?d ch r clk" using iss by (auto simp: issuable_def IsRankCMD_def)
      from window_step [OF _ _ assms(4) this, where ch' = ch'] True u(4) inv show ?thesis
        by (auto simp: run_inv_def acts_def)
    next
      case False
      then have "acts r (log @ [(c, clk)]) = acts r log" "four_aw ch' r = four_aw ch r" using u(4) by (auto simp: acts_def)
      then show ?thesis using inv window_inv_later [OF _ assms(4)] by (auto simp: run_inv_def window_inv_def)
    qed
    have "\<forall>r. \<not> rank_is_sref ch' r" using u(3) ns ne by simp
    then have "run_inv cfg tm ch' clk (log @ [(c, clk)])"
      using inv u(2) old new resp win
      by (simp add: run_inv_def list_all_iff sorted_wrt_append)
    then show ?thesis using True c(1) u(1) by (simp add: issue_def)
  qed
qed

lemma issue_all_ok:
  assumes "dram_ok (dram cfg)" "run_inv cfg tm ch now log"
    and "list_all (\<lambda>r. plain_request (dram cfg) (fst r)) rs" "sorted (now # map snd rs)"
  shows "succeeds (issue_all cfg tm rs ch) (\<lambda>(l, ch'). \<exists>now'. run_inv cfg tm ch' now' (log @ l))"
  using assms(2-4)
proof (induction rs arbitrary: ch now log)
  case (Cons r rs)
  obtain cmd clk where r: "r = (cmd, clk)" by (cases r)
  with Cons.prems have le: "now \<le> clk" and rest: "list_all (\<lambda>r. plain_request (dram cfg) (fst r)) rs" "sorted (clk # map snd rs)"
    and req: "plain_request (dram cfg) cmd"
    by auto
  from issue_ok [OF assms(1) Cons.prems(1) req le] obtain l ch1 where i: "issue cfg tm cmd clk ch = Inr (l, ch1)"
    "run_inv cfg tm ch1 clk (log @ l)" by (auto simp: succeeds_iff)
  from Cons.IH [OF i(2) rest] obtain ls ch2 now2 where "issue_all cfg tm rs ch1 = Inr (ls, ch2)"
    "run_inv cfg tm ch2 now2 ((log @ l) @ ls)" by (auto simp: succeeds_iff)
  then show ?case using i(1) r by auto
qed auto

text \<open>What the tables say for the commands of one bank.\<close>

definition row_timing :: "Config \<Rightarrow> CommandType \<Rightarrow> CommandType \<Rightarrow> int option" where
  "row_timing cfg a b =
     (let v = column_delays cfg; w = row_delays cfg in
      if a = ACTIVATE \<and> b = ACTIVATE then Some (tRC (rowt cfg))
      else if a = ACTIVATE \<and> b = PRECHARGE then Some (tRAS (rowt cfg))
      else if a = ACTIVATE \<and> b = READ then Some (activate_to_read w)
      else if a = ACTIVATE \<and> b = WRITE then Some (activate_to_write w)
      else if a = PRECHARGE \<and> b = ACTIVATE then Some (tRP (rowt cfg))
      else if a = PRECHARGE \<and> b = REFRESH then Some (tRP (rowt cfg))
      else if a = READ \<and> b = PRECHARGE then Some (AL (colt cfg) + tRTP (colt cfg))
      else if a = WRITE \<and> b = PRECHARGE then Some (WL (colt cfg) + burst_cycle (dram cfg) + tWR (colt cfg))
      else if a = REFRESH \<and> b = ACTIVATE then Some (tRFC (rowt cfg))
      else None)"

lemma row_timing_constraint:
  assumes "row_timing cfg (cmd_type c) t = Some x" "touches c r g b"
  shows "(t, x) \<in> set (constraints (new_Timing cfg) c r g b)"
proof -
  have "cmd_type c \<in> {ACTIVATE, PRECHARGE, READ, WRITE, REFRESH}"
    using assms(1) by (auto simp: row_timing_def Let_def split: if_splits)
  then have c: "constraints (new_Timing cfg) c r g b =
      (if cmd_type c = REFRESH then same_rank (new_Timing cfg) REFRESH else same_bank (new_Timing cfg) (cmd_type c))"
    using assms(2) by (auto simp: constraints_def touches_def IsRankCMD_def)
  show ?thesis
    using assms(1) unfolding c
    by (auto simp: row_timing_def new_Timing_def column_delays_def row_delays_def Let_def split: if_splits)
qed

text \<open>Requests for a concrete run, on a configuration with the timing of the defaults.\<close>

definition ddr4_reader :: Reader where
  "ddr4_reader = \<lparr>rd_int = (\<lambda>_ _ v. v), rd_bool = (\<lambda>_ _ v. v), rd_str = (\<lambda>_ _ v. v)\<rparr>"

definition ddr4_cfg :: Config where
  "ddr4_cfg = \<lparr>sys = ddr4_x16_sys, dram = ddr4_x8_dram,
     amap = \<lparr>shift_bits = 6, ch_pos = 12, ra_pos = 11, bg_pos = 7, ba_pos = 9, ro_pos = 12, co_pos = 0,
       ch_mask = 0, ra_mask = 1, bg_mask = 3, ba_mask = 3, ro_mask = 65535, co_mask = 127\<rparr>,
     colt = fst (InitTimingParams ddr4_reader ddr4_x8_dram), rowt = snd (InitTimingParams ddr4_reader ddr4_x8_dram)\<rparr>"

definition read_cmd :: "int \<Rightarrow> Command" where
  "read_cmd ro = mk_cmd READ \<lparr>channel = 0, rank = 0, bankgroup = 1, bank = 2, row = ro, column = 5\<rparr> 64"

lemma ddr4_dram_ok: "dram_ok (dram ddr4_cfg)"
  by (simp add: dram_ok_def ddr4_cfg_def ddr4_x8_dram_def ddr4_x16_dram_def)

lemma read_cmd_plain: "plain_request (dram ddr4_cfg) (read_cmd ro)"
  by (simp add: plain_request_def read_cmd_def IsReadWrite_def IsRead_def bank_ok_def rank_ok_def ddr4_cfg_def
      ddr4_x8_dram_def ddr4_x16_dram_def)

definition act_cmd :: Command where
  "act_cmd = mk_cmd ACTIVATE (cmd_addr (read_cmd 7)) 64"

lemma act_cmd_sel: "cRank act_cmd = 0" "cBankgroup act_cmd = 1" "cBank act_cmd = 2" "cmd_type act_cmd = ACTIVATE"
    "cRow act_cmd = 7" "\<not> IsRankCMD act_cmd" "\<not> IsRefresh act_cmd" "IsValid act_cmd"
  by (simp_all add: act_cmd_def read_cmd_def IsRankCMD_def IsRefresh_def IsValid_def)

lemma read_cmd_sel: "cRank (read_cmd r) = 0" "cBankgroup (read_cmd r) = 1" "cBank (read_cmd r) = 2"
    "cmd_type (read_cmd r) = READ"
  by (simp_all add: read_cmd_def)

text \<open>Two reads of a row, ten cycles apart: the first activates it.\<close>

lemma ddr4_two_reads:
  "\<exists>ch. issue_all ddr4_cfg (new_Timing ddr4_cfg) [(read_cmd 7, 5), (read_cmd 7, 15)] new_channel
     = Inr ([(act_cmd, 5), (read_cmd 7, 15)], ch)"
proof -
  let ?r = "[(read_cmd 7, 5), (read_cmd 7, 15 :: nat)]" and ?d = "dram ddr4_cfg"
  let ?b = "new_bank\<lparr>bstate := OPEN, open_row := 7\<rparr>"
  let ?ch1 = "set_bank 0 1 2 ?b new_channel"
  have ok: "bank_ok ?d 0 1 2"
    by (simp add: bank_ok_def rank_ok_def ddr4_cfg_def ddr4_x8_dram_def ddr4_x16_dram_def)
  have g1: "ch_GetReadyCommand ?d new_channel (read_cmd 7) 5 = Inr act_cmd"
    using ok by (simp add: ch_GetReadyCommand_def read_cmd_def IsRankCMD_def new_channel_def new_bank_def
        bank_GetReadyCommand_def required_type_def act_cmd_def IsValid_def ActivationWindowOk_def IsFAWReady_def
        Is32AWReady_def Let_def)
  have u1: "ch_UpdateState ?d act_cmd new_channel = Inr ?ch1"
    using ok by (simp add: ch_UpdateState_def act_cmd_sel new_channel_def new_bank_def bank_UpdateState_def Let_def)
  from ch_UpdateTiming_defined [OF act_cmd_sel(8), of ddr4_cfg "new_Timing ddr4_cfg" 5 ?ch1]
  obtain ch2 where u2: "ch_UpdateTiming ddr4_cfg (new_Timing ddr4_cfg) act_cmd 5 ?ch1 = Inr ch2" by blast
  have "bank_states ch2 0 1 2 = apply_timing (constraints (new_Timing ddr4_cfg) act_cmd 0 1 2) 5 ?b"
    using ch_UpdateTiming_at [OF u2 ok] by simp
  also have "constraints (new_Timing ddr4_cfg) act_cmd 0 1 2 =
      [(ACTIVATE, 34), (READ, 10), (WRITE, 10), (READ_PRECHARGE, 10), (WRITE_PRECHARGE, 10), (PRECHARGE, 24)]"
    by (simp add: constraints_def act_cmd_sel new_Timing_def row_delays_def Let_def ddr4_cfg_def InitTimingParams_def
        ddr4_reader_def IsGDDR_def IsHBM_def ddr4_x8_dram_def ddr4_x16_dram_def)
  finally have b2: "bstate (bank_states ch2 0 1 2) = OPEN" "open_row (bank_states ch2 0 1 2) = 7"
    "cmd_timing (bank_states ch2 0 1 2) READ = 15"
    by (simp_all add: apply_timing_def bank_UpdateTiming_def add64_def new_bank_def)
  have g2: "ch_GetReadyCommand ?d ch2 (read_cmd 7) 15 = Inr (read_cmd 7)"
    using ok b2 by (simp add: ch_GetReadyCommand_def read_cmd_def IsRankCMD_def bank_GetReadyCommand_def
        required_type_def IsValid_def)
  have v: "IsValid (read_cmd 7)" by (simp add: read_cmd_def IsValid_def)
  have "\<exists>s. ch_UpdateState ?d (read_cmd 7) ch2 = Inr s"
    using ok b2(1) by (simp add: ch_UpdateState_def read_cmd_def IsRankCMD_def IsRefresh_def bank_UpdateState_def Let_def)
  then obtain ch3 ch4 where u3: "ch_UpdateState ?d (read_cmd 7) ch2 = Inr ch3"
    "ch_UpdateTiming ddr4_cfg (new_Timing ddr4_cfg) (read_cmd 7) 15 ch3 = Inr ch4"
    using ch_UpdateTiming_defined [OF v] by metis
  show ?thesis
    using g1 u1 u2 g2 u3 v act_cmd_sel(8) by (simp add: issue_def UpdateTimingAndStates_def)
qed

section \<open>Properties\<close>

text \<open>
  C15: for any reads, writes and refreshes of banks that exist, in any order and at cycles that
  do not decrease, the bank state machines of a channel never abort, and every command that is
  issued respects the delay that every earlier one put on each bank it touches, in all five
  tables: same bank, same bank group, same rank, other ranks and whole rank.
\<close>

theorem issued_commands_respect_timing:
  assumes "dram_ok (dram cfg)" "list_all (\<lambda>r. plain_request (dram cfg) (fst r)) rs" "sorted (map snd rs)"
  shows "succeeds (issue_all cfg tm rs new_channel) (\<lambda>(log, ch).
    \<forall>i j r g b t x. i < j \<longrightarrow> j < length log \<longrightarrow> bank_ok (dram cfg) r g b \<longrightarrow> touches (fst (log ! j)) r g b \<longrightarrow>
      (t, x) \<in> set (constraints tm (fst (log ! i)) r g b) \<longrightarrow> t = cmd_type (fst (log ! j)) \<longrightarrow>
      add64 (snd (log ! i)) x \<le> snd (log ! j))"
proof -
  have "sorted (0 # map snd rs)" using assms(3) by simp
  from issue_all_ok [OF assms(1) run_inv_new assms(2) this, of tm] show ?thesis
    by (rule succeeds_mono) (auto simp: run_inv_def sorted_wrt_iff_nth_less in_time_def)
qed

theorem issued_commands_respect_timing_witness:
  "succeeds (issue_all ddr4_cfg (new_Timing ddr4_cfg) [(read_cmd 7, 5), (read_cmd 7, 15), (read_cmd 9, 20)] new_channel)
    (\<lambda>(log, ch). True)"
  by (rule succeeds_mono [OF issued_commands_respect_timing [OF ddr4_dram_ok]])
    (simp_all add: read_cmd_plain)

text \<open>
  C35: in terms of the configuration: between two commands that touch the same bank there are at
  least tRC cycles from an activation to the next, tRAS and tRP around a precharge, the
  column delays from an activation to a read or write, the recovery times before a precharge,
  and tRFC after a refresh, as long as the clock does not wrap.
\<close>

theorem row_timing_respected:
  assumes "dram_ok (dram cfg)" "list_all (\<lambda>r. plain_request (dram cfg) (fst r)) rs" "sorted (map snd rs)"
    and "issue_all cfg (new_Timing cfg) rs new_channel = Inr (log, ch)"
    and "i < j" "j < length log" "bank_ok (dram cfg) r g b"
    and "touches (fst (log ! i)) r g b" "touches (fst (log ! j)) r g b"
    and "row_timing cfg (cmd_type (fst (log ! i))) (cmd_type (fst (log ! j))) = Some x"
    and "0 \<le> int (snd (log ! i)) + x" "int (snd (log ! i)) + x < 2 ^ 64"
  shows "int (snd (log ! i)) + x \<le> int (snd (log ! j))"
proof -
  have "sorted (0 # map snd rs)" using assms(3) by simp
  from issue_all_ok [OF assms(1) run_inv_new assms(2) this, of "new_Timing cfg"] assms(4)
  have "sorted_wrt (in_time cfg (new_Timing cfg)) log" by (auto simp: run_inv_def)
  then have "in_time cfg (new_Timing cfg) (log ! i) (log ! j)"
    using assms(5,6) by (simp add: sorted_wrt_iff_nth_less)
  then have "add64 (snd (log ! i)) x \<le> snd (log ! j)"
    using row_timing_constraint [OF assms(10,8)] assms(7,9) unfolding in_time_def by blast
  then show ?thesis using assms(11,12) by (simp add: add64_def)
qed

theorem row_timing_respected_witness:
  "\<exists>log ch. issue_all ddr4_cfg (new_Timing ddr4_cfg) [(read_cmd 7, 5), (read_cmd 7, 15)] new_channel = Inr (log, ch) \<and>
     length log = 2 \<and> 5 + 10 \<le> snd (log ! 1)"
proof -
  have x: "row_timing ddr4_cfg ACTIVATE READ = Some 10"
    by (simp add: row_timing_def row_delays_def Let_def ddr4_cfg_def InitTimingParams_def
        ddr4_reader_def IsGDDR_def IsHBM_def ddr4_x8_dram_def ddr4_x16_dram_def)
  from ddr4_two_reads obtain log ch where l: "issue_all ddr4_cfg (new_Timing ddr4_cfg) [(read_cmd 7, 5), (read_cmd 7, 15)] new_channel = Inr (log, ch)"
    "log = [(act_cmd, 5), (read_cmd 7, 15)]" by blast
  have ok: "bank_ok (dram ddr4_cfg) 0 1 2"
    by (simp add: bank_ok_def rank_ok_def ddr4_cfg_def ddr4_x8_dram_def ddr4_x16_dram_def)
  have "int 5 + 10 \<le> int (snd (log ! 1))"
    using row_timing_respected [OF ddr4_dram_ok _ _ l(1), of 0 1 0 1 2 10] x
    by (simp add: read_cmd_plain l(2) touches_def act_cmd_sel read_cmd_sel ok)
  then show ?thesis using l by auto
qed

text \<open>
  C25: the four-activation window: of any five activations of a rank that follow each other, the
  last comes at least tFAW cycles after the first.
\<close>

theorem four_activation_window:
  assumes "dram_ok (dram cfg)" "list_all (\<lambda>r. plain_request (dram cfg) (fst r)) rs" "sorted (map snd rs)"
  shows "succeeds (issue_all cfg tm rs new_channel) (\<lambda>(log, ch).
    \<forall>r i. i + 4 < length (acts r log) \<longrightarrow> add64 (acts r log ! i) (tFAW (rowt cfg)) \<le> acts r log ! (i + 4))"
proof -
  have "sorted (0 # map snd rs)" using assms(3) by simp
  from issue_all_ok [OF assms(1) run_inv_new assms(2) this, of tm] show ?thesis
    by (rule succeeds_mono) (auto simp: run_inv_def window_ok_def)
qed

theorem four_activation_window_witness:
  "succeeds (issue_all ddr4_cfg (new_Timing ddr4_cfg) [(read_cmd 7, 5), (read_cmd 7, 15)] new_channel)
    (\<lambda>(log, ch). \<forall>i. i + 4 < length (acts 0 log) \<longrightarrow> add64 (acts 0 log ! i) 50 \<le> acts 0 log ! (i + 4))"
proof -
  have t: "tFAW (rowt ddr4_cfg) = 50" by (simp add: ddr4_cfg_def InitTimingParams_def Let_def ddr4_reader_def)
  show ?thesis
    by (rule succeeds_mono [OF four_activation_window [OF ddr4_dram_ok]])
      (auto simp: read_cmd_plain t)
qed

text \<open>
  A refresh of one bank leaves the timing of that bank as it was: its tRFCb is in the table
  of the whole rank, which is only read for commands to a rank. The bank can be activated in
  the next cycle.
\<close>

theorem bank_refresh_delays_nothing:
  assumes "cmd_type c = REFRESH_BANK"
  shows "constraints (new_Timing cfg) c (cRank c) (cBankgroup c) (cBank c) = [] \<and>
    (ACTIVATE, tRFCb (rowt cfg)) \<in> set (same_rank (new_Timing cfg) REFRESH_BANK)"
  using assms by (simp add: constraints_def IsRankCMD_def new_Timing_def no_timing_def Let_def row_delays_def)

theorem bank_refresh_delays_nothing_witness:
  "constraints (new_Timing ddr4_cfg) (mk_cmd REFRESH_BANK no_addr 0) (-1) (-1) (-1) = []"
  using bank_refresh_delays_nothing [of "mk_cmd REFRESH_BANK no_addr 0" ddr4_cfg]
  by (simp add: no_addr_def)

text \<open>
  C37: waking a rank up from self-refresh aborts the process: whatever the state of the banks,
  the ready command of \<open>SREF_EXIT\<close>, which \<open>Controller::ClockTick\<close> asks for, is an exit.
\<close>

theorem self_refresh_exit_aborts:
  assumes "dram_ok d" "rank_ok d (cRank c)" "cmd_type c = SREF_EXIT"
  shows "ch_GetReadyCommand d ch c clk = Inl (Panicked ''bankstate.cc'')"
proof -
  have "(0, 0) \<in> set (rank_banks d)" using assms(1) by (auto simp: dram_ok_def rank_banks_set)
  then obtain p ps where "rank_banks d = p # ps" by (cases "rank_banks d") auto
  moreover have "required_type b c = Inl (Panicked ''bankstate.cc'')" for b
    using assms(3) by (simp add: required_type_def AbruptExit_def split: State.splits)
  ultimately show ?thesis using assms(2,3)
    by (cases p) (simp add: ch_GetReadyCommand_def IsRankCMD_def bank_GetReadyCommand_def)
qed

theorem self_refresh_exit_aborts_witness:
  "ch_GetReadyCommand (dram ddr4_cfg) new_channel (mk_cmd SREF_EXIT (no_addr\<lparr>rank := 1\<rparr>) (-1)) 100
     = Inl (Panicked ''bankstate.cc'')"
  by (rule self_refresh_exit_aborts [OF ddr4_dram_ok])
    (simp_all add: rank_ok_def ddr4_cfg_def ddr4_x8_dram_def ddr4_x16_dram_def)

end
