(* ===== verification/Dram_Refresh.thy ===== *)
theory Dram_Refresh
  imports Dram_Timing
begin

text \<open>
  The refresh generator of a channel (\<open>refresh.cc\<close>): at every interval it puts a refresh of the
  next rank, or of the next bank, into the channel's refresh queue.
\<close>

section \<open>State and operations\<close>

record Refresh =
  rf_clk :: nat
  refresh_interval :: int
  next_rank :: int
  next_bg :: int
  next_bank :: int

definition new_refresh :: "Config \<Rightarrow> Refresh res" where
  "new_refresh cfg =
     (let mk = (\<lambda>i. \<lparr>rf_clk = 0, refresh_interval = i, next_rank = 0, next_bg = 0, next_bank = 0\<rparr>) in
      case refresh_policy (sys cfg) of
        RANK_LEVEL_SIMULTANEOUS \<Rightarrow> Inr (mk (tREFI (rowt cfg)))
      | BANK_LEVEL_STAGGERED \<Rightarrow> Inr (mk (tREFIb (rowt cfg)))
      | RANK_LEVEL_STAGGERED \<Rightarrow>
          require (ranks (dram cfg) \<noteq> 0) (Undefined ''tREFI / ranks'')
            (Inr (mk (tREFI (rowt cfg) div ranks (dram cfg)))))"

text \<open>The simultaneous policy never asks for the next rank; the code aborts if it did.\<close>

definition IterateNext :: "Config \<Rightarrow> Refresh \<Rightarrow> Refresh res" where
  "IterateNext cfg r =
     (let d = dram cfg in
      case refresh_policy (sys cfg) of
        RANK_LEVEL_STAGGERED \<Rightarrow> Inr (r\<lparr>next_rank := (next_rank r + 1) mod ranks d\<rparr>)
      | BANK_LEVEL_STAGGERED \<Rightarrow>
          (let r1 = r\<lparr>next_bg := (next_bg r + 1) mod bankgroups d\<rparr> in
           if next_bg r1 = 0 then
             (let r2 = r1\<lparr>next_bank := (next_bank r1 + 1) mod banks_per_group d\<rparr> in
              if next_bank r2 = 0 then Inr (r2\<lparr>next_rank := (next_rank r2 + 1) mod ranks d\<rparr>) else Inr r2)
           else Inr r1)
      | RANK_LEVEL_SIMULTANEOUS \<Rightarrow> AbruptExit ''refresh.cc'')"

definition InsertRefresh :: "Config \<Rightarrow> Refresh \<times> ChannelState \<Rightarrow> (Refresh \<times> ChannelState) res" where
  "InsertRefresh cfg = (\<lambda>(r, ch).
     case refresh_policy (sys cfg) of
       RANK_LEVEL_SIMULTANEOUS \<Rightarrow>
         (case find (\<lambda>i. \<not> rank_is_sref ch i) [0..ranks (dram cfg) - 1] of
            None \<Rightarrow> Inr (r, ch)
          | Some i \<Rightarrow> Inr (r, RankNeedRefresh i True ch))
     | RANK_LEVEL_STAGGERED \<Rightarrow>
         require (rank_ok (dram cfg) (next_rank r)) (Undefined ''rank_is_sref_'')
           (let ch1 = (if \<not> rank_is_sref ch (next_rank r) then RankNeedRefresh (next_rank r) True ch else ch)
            in bindR (IterateNext cfg r) (\<lambda>r1. Inr (r1, ch1)))
     | BANK_LEVEL_STAGGERED \<Rightarrow>
         require (rank_ok (dram cfg) (next_rank r)) (Undefined ''rank_is_sref_'')
           (let ch1 = (if \<not> rank_is_sref ch (next_rank r)
                       then BankNeedRefresh (next_rank r) (next_bg r) (next_bank r) True ch else ch)
            in bindR (IterateNext cfg r) (\<lambda>r1. Inr (r1, ch1))))"

text \<open>The interval is an \<open>int\<close> and is converted to 64 bits without sign for the remainder.\<close>

definition refresh_ClockTick :: "Config \<Rightarrow> Refresh \<times> ChannelState \<Rightarrow> (Refresh \<times> ChannelState) res" where
  "refresh_ClockTick cfg = (\<lambda>(r, ch).
     require (refresh_interval r \<noteq> 0) (Undefined ''clk_ % refresh_interval_'')
       (bindR (if int (rf_clk r) mod (refresh_interval r mod 2 ^ 64) = 0 \<and> rf_clk r > 0
               then InsertRefresh cfg (r, ch) else Inr (r, ch))
         (\<lambda>(r1, ch1). Inr (r1\<lparr>rf_clk := rf_clk r1 + 1\<rparr>, ch1))))"

section \<open>The invariant\<close>

definition refresh_inv :: "Config \<Rightarrow> Refresh \<Rightarrow> bool" where
  "refresh_inv cfg r \<longleftrightarrow> 0 < refresh_interval r \<and>
     bank_ok (dram cfg) (next_rank r) (next_bg r) (next_bank r)"

lemma new_refresh_inv:
  assumes "dram_ok (dram cfg)" "new_refresh cfg = Inr r" "0 < refresh_interval r"
  shows "refresh_inv cfg r"
  using assms by (auto simp: new_refresh_def refresh_inv_def bank_ok_def rank_ok_def dram_ok_def Let_def
      require_eq_Inr_iff split: RefreshPolicy.splits)

lemma IterateNext_ok:
  assumes "dram_ok (dram cfg)" "refresh_inv cfg r" "refresh_policy (sys cfg) \<noteq> RANK_LEVEL_SIMULTANEOUS"
  shows "succeeds (IterateNext cfg r) (\<lambda>r'. refresh_inv cfg r' \<and> rf_clk r' = rf_clk r \<and>
    refresh_interval r' = refresh_interval r)"
  using assms
  by (cases "refresh_policy (sys cfg)")
     (auto simp: IterateNext_def refresh_inv_def bank_ok_def rank_ok_def dram_ok_def Let_def)

lemma RankNeedRefresh_add:
  assumes "ch_inv d ch" "rank_ok d r"
  shows "ch_inv d (RankNeedRefresh r True ch)"
  using assms by (auto simp: ch_inv_def banks_inv_def RankNeedRefresh_def refresh_ok_def)

lemma BankNeedRefresh_add:
  assumes "ch_inv d ch" "bank_ok d r g b"
  shows "ch_inv d (BankNeedRefresh r g b True ch)"
  using assms by (auto simp: ch_inv_def banks_inv_def BankNeedRefresh_def refresh_ok_def)

lemma NeedRefresh_frame [simp]:
  "rank_is_sref (RankNeedRefresh r x ch) = rank_is_sref ch"
  "rank_is_sref (BankNeedRefresh r g b x ch) = rank_is_sref ch"
  "bank_states (RankNeedRefresh r x ch) = bank_states ch"
  "bank_states (BankNeedRefresh r g b x ch) = bank_states ch"
  "rank_idle_cycles (RankNeedRefresh r x ch) = rank_idle_cycles ch"
  "rank_idle_cycles (BankNeedRefresh r g b x ch) = rank_idle_cycles ch"
  by (simp_all add: RankNeedRefresh_def BankNeedRefresh_def)

lemma InsertRefresh_ok:
  assumes "dram_ok (dram cfg)" "refresh_inv cfg r" "ch_inv (dram cfg) ch"
  shows "succeeds (InsertRefresh cfg (r, ch)) (\<lambda>(r', ch'). refresh_inv cfg r' \<and> ch_inv (dram cfg) ch' \<and>
    rank_is_sref ch' = rank_is_sref ch \<and> bank_states ch' = bank_states ch)"
proof -
  have ok: "rank_ok (dram cfg) (next_rank r)" "bank_ok (dram cfg) (next_rank r) (next_bg r) (next_bank r)"
    using assms(2) by (auto simp: refresh_inv_def bank_ok_def)
  show ?thesis
  proof (cases "refresh_policy (sys cfg)")
    case RANK_LEVEL_SIMULTANEOUS
    have "rank_ok (dram cfg) i" if "find (\<lambda>i. \<not> rank_is_sref ch i) [0..ranks (dram cfg) - 1] = Some i" for i
      using that by (auto simp: find_Some_iff rank_ok_def)
    then show ?thesis using RANK_LEVEL_SIMULTANEOUS assms(2,3)
      by (auto simp: InsertRefresh_def intro: RankNeedRefresh_add split: option.splits)
  next
    case RANK_LEVEL_STAGGERED
    then show ?thesis using IterateNext_ok [OF assms(1,2)] assms(3) ok
      by (auto simp: InsertRefresh_def Let_def succeeds_iff intro: RankNeedRefresh_add)
  next
    case BANK_LEVEL_STAGGERED
    then show ?thesis using IterateNext_ok [OF assms(1,2)] assms(3) ok
      by (auto simp: InsertRefresh_def Let_def succeeds_iff intro: BankNeedRefresh_add)
  qed
qed

lemma refresh_ClockTick_ok:
  assumes "dram_ok (dram cfg)" "refresh_inv cfg r" "ch_inv (dram cfg) ch"
  shows "succeeds (refresh_ClockTick cfg (r, ch)) (\<lambda>(r', ch'). refresh_inv cfg r' \<and> ch_inv (dram cfg) ch' \<and>
    rank_is_sref ch' = rank_is_sref ch \<and> bank_states ch' = bank_states ch)"
proof -
  have "refresh_interval r \<noteq> 0" using assms(2) by (simp add: refresh_inv_def)
  then show ?thesis using InsertRefresh_ok [OF assms] assms(2,3)
    by (auto simp: refresh_ClockTick_def succeeds_iff refresh_inv_def)
qed

section \<open>The order of the refreshes\<close>

primrec refresh_ticks :: "Config \<Rightarrow> nat \<Rightarrow> Refresh \<times> ChannelState \<Rightarrow> (Refresh \<times> ChannelState) res" where
  "refresh_ticks cfg 0 s = Inr s"
| "refresh_ticks cfg (Suc n) s = bindR (refresh_ticks cfg n s) (refresh_ClockTick cfg)"

text \<open>The \<open>i\<close>-th refresh, counted from zero.\<close>

definition refresh_target :: "Config \<Rightarrow> nat \<Rightarrow> Command" where
  "refresh_target cfg i =
     (let d = dram cfg; k = int i in
      case refresh_policy (sys cfg) of
        RANK_LEVEL_SIMULTANEOUS \<Rightarrow> mk_cmd REFRESH (no_addr\<lparr>rank := 0\<rparr>) (-1)
      | RANK_LEVEL_STAGGERED \<Rightarrow> mk_cmd REFRESH (no_addr\<lparr>rank := k mod ranks d\<rparr>) (-1)
      | BANK_LEVEL_STAGGERED \<Rightarrow> mk_cmd REFRESH_BANK
          \<lparr>channel = -1, rank = k div bankgroups d div banks_per_group d mod ranks d, bankgroup = k mod bankgroups d,
           bank = k div bankgroups d mod banks_per_group d, row = -1, column = -1\<rparr> (-1))"

definition refresh_at :: "Config \<Rightarrow> nat \<Rightarrow> Refresh \<Rightarrow> bool" where
  "refresh_at cfg i r \<longleftrightarrow>
     (let d = dram cfg; k = int i in
      case refresh_policy (sys cfg) of
        RANK_LEVEL_SIMULTANEOUS \<Rightarrow> True
      | RANK_LEVEL_STAGGERED \<Rightarrow> next_rank r = k mod ranks d
      | BANK_LEVEL_STAGGERED \<Rightarrow> next_rank r = k div bankgroups d div banks_per_group d mod ranks d \<and>
          next_bg r = k mod bankgroups d \<and> next_bank r = k div bankgroups d mod banks_per_group d)"

lemma refresh_at_clk [simp]: "refresh_at cfg i (r\<lparr>rf_clk := n\<rparr>) = refresh_at cfg i r"
  by (simp add: refresh_at_def Let_def split: RefreshPolicy.splits)

lemma mod_Suc_zero:
  fixes k m :: int
  assumes "0 < m"
  shows "(k mod m + 1) mod m = (k + 1) mod m"
    and "(k + 1) mod m = 0 \<Longrightarrow> (k + 1) div m = k div m + 1"
    and "(k + 1) mod m \<noteq> 0 \<Longrightarrow> (k + 1) div m = k div m"
proof -
  show "(k mod m + 1) mod m = (k + 1) mod m" by (simp add: mod_simps)
  have e: "(k + 1) div m = k div m + (k mod m + 1) div m"
  proof -
    have "k + 1 = (k mod m + 1) + k div m * m" by simp
    then have "(k + 1) div m = ((k mod m + 1) + k div m * m) div m" by (rule arg_cong)
    also have "\<dots> = k div m + (k mod m + 1) div m" using assms by (subst div_mult_self1) simp_all
    finally show ?thesis .
  qed
  have b: "0 \<le> k mod m" "k mod m < m" using assms by simp_all
  have i: "(k + 1) mod m = (k mod m + 1) mod m" by (simp add: mod_simps)
  show "(k + 1) mod m = 0 \<Longrightarrow> (k + 1) div m = k div m + 1"
    using e b i by (cases "k mod m + 1 = m") auto
  show "(k + 1) mod m \<noteq> 0 \<Longrightarrow> (k + 1) div m = k div m"
    using e b i by (cases "k mod m + 1 = m") auto
qed

lemma InsertRefresh_at:
  assumes "dram_ok (dram cfg)" "refresh_inv cfg r" "refresh_at cfg i r" "\<forall>k. \<not> rank_is_sref ch k"
  shows "succeeds (InsertRefresh cfg (r, ch)) (\<lambda>(r', ch'). refresh_at cfg (Suc i) r' \<and>
    rf_clk r' = rf_clk r \<and> refresh_interval r' = refresh_interval r \<and>
    ch' = ch\<lparr>refresh_q := refresh_q ch @ [refresh_target cfg i]\<rparr>)"
proof -
  let ?d = "dram cfg"
  have ok: "rank_ok ?d (next_rank r)" using assms(2) by (simp add: refresh_inv_def bank_ok_def)
  have pos: "0 < ranks ?d" "0 < bankgroups ?d" "0 < banks_per_group ?d" using assms(1) by (auto simp: dram_ok_def)
  show ?thesis
  proof (cases "refresh_policy (sys cfg)")
    case RANK_LEVEL_SIMULTANEOUS
    have "[0..ranks ?d - 1] = 0 # [1..ranks ?d - 1]" using pos(1) by (simp add: upto_rec1)
    then show ?thesis using RANK_LEVEL_SIMULTANEOUS assms(4)
      by (simp add: InsertRefresh_def refresh_at_def refresh_target_def RankNeedRefresh_def Let_def)
  next
    case RANK_LEVEL_STAGGERED
    then show ?thesis using assms(3,4) ok mod_Suc_zero(1) [OF pos(1), of "int i"]
      by (simp add: InsertRefresh_def IterateNext_def refresh_at_def refresh_target_def RankNeedRefresh_def Let_def
          add.commute)
  next
    case BANK_LEVEL_STAGGERED
    let ?k = "int i" and ?g = "bankgroups ?d" and ?b = "banks_per_group ?d"
    note m = mod_Suc_zero [OF pos(2), of ?k] mod_Suc_zero [OF pos(3), of "?k div ?g"]
      mod_Suc_zero(1) [OF pos(1), of "?k div ?g div ?b"]
    show ?thesis
    proof (cases "(?k + 1) mod ?g = 0")
      case False
      then show ?thesis using BANK_LEVEL_STAGGERED assms(3,4) ok m
        by (simp add: InsertRefresh_def IterateNext_def refresh_at_def refresh_target_def BankNeedRefresh_def Let_def
            add.commute)
    next
      case True
      then show ?thesis using BANK_LEVEL_STAGGERED assms(3,4) ok m
        by (cases "(?k div ?g + 1) mod ?b = 0")
          (simp_all add: InsertRefresh_def IterateNext_def refresh_at_def refresh_target_def BankNeedRefresh_def Let_def
            add.commute)
    qed
  qed
qed

lemma refresh_ticks_at:
  fixes N :: nat
  assumes "dram_ok (dram cfg)" "refresh_inv cfg r0" "refresh_at cfg 0 r0" "rf_clk r0 = 0"
    and "refresh_interval r0 < 2 ^ 64" "ch0 = new_channel"
  shows "succeeds (refresh_ticks cfg N (r0, ch0)) (\<lambda>(r, ch).
    rf_clk r = N \<and> refresh_interval r = refresh_interval r0 \<and> refresh_inv cfg r \<and> ch_inv (dram cfg) ch \<and>
    refresh_at cfg ((N - 1) div nat (refresh_interval r0)) r \<and>
    ch = new_channel\<lparr>refresh_q := map (refresh_target cfg) [0..<(N - 1) div nat (refresh_interval r0)]\<rparr>)"
proof (induction N)
  case 0
  then show ?case using assms new_channel_inv by (simp add: new_channel_def)
next
  case (Suc N)
  let ?I = "refresh_interval r0" and ?m = "(N - 1) div nat (refresh_interval r0)"
  from Suc obtain r ch where r: "refresh_ticks cfg N (r0, ch0) = Inr (r, ch)" "rf_clk r = N"
    "refresh_interval r = ?I" "refresh_inv cfg r" "ch_inv (dram cfg) ch" "refresh_at cfg ?m r"
    "ch = new_channel\<lparr>refresh_q := map (refresh_target cfg) [0..<?m]\<rparr>"
    by (auto simp: succeeds_iff)
  have I: "0 < ?I" "?I mod 2 ^ 64 = ?I" using assms(2,5) by (simp_all add: refresh_inv_def)
  have sref: "\<forall>k. \<not> rank_is_sref ch k" by (simp add: r(7) new_channel_def)
  from refresh_ClockTick_ok [OF assms(1) r(4,5)] obtain r' ch' where
    t: "refresh_ClockTick cfg (r, ch) = Inr (r', ch')" "refresh_inv cfg r'" "ch_inv (dram cfg) ch'"
    by (auto simp: succeeds_iff)
  have hit: "int N mod ?I = 0 \<longleftrightarrow> N mod nat ?I = 0"
  proof -
    have "int (N mod nat ?I) = int N mod ?I" using I(1) by (simp add: zmod_int)
    then show ?thesis using of_nat_eq_0_iff [where 'a = int, of "N mod nat ?I"] by simp
  qed
  show ?case
  proof (cases "N mod nat ?I = 0 \<and> N > 0")
    case False
    then have "r' = r\<lparr>rf_clk := N + 1\<rparr>" "ch' = ch"
      using t(1) r(2,3) I hit by (auto simp: refresh_ClockTick_def)
    moreover have "N div nat ?I = ?m" using False by (cases N) (auto simp: div_Suc split: if_splits)
    ultimately show ?thesis using r t by simp
  next
    case True
    from InsertRefresh_at [OF assms(1) r(4,6) sref] obtain r1 where
      i: "InsertRefresh cfg (r, ch) = Inr (r1, ch\<lparr>refresh_q := refresh_q ch @ [refresh_target cfg ?m]\<rparr>)"
        "refresh_at cfg (Suc ?m) r1" "rf_clk r1 = N" "refresh_interval r1 = ?I"
      using r(2,3) by (auto simp: succeeds_iff)
    have e: "r' = r1\<lparr>rf_clk := N + 1\<rparr>" "ch' = ch\<lparr>refresh_q := refresh_q ch @ [refresh_target cfg ?m]\<rparr>"
      using t(1) r(2,3) I hit True i by (simp_all add: refresh_ClockTick_def)
    have "N div nat ?I = Suc ?m" using True by (cases N) (auto simp: div_Suc)
    then show ?thesis using r t i e by simp
  qed
qed

section \<open>Properties\<close>

text \<open>
  C24: when refreshes are due, and of what: on a channel without self-refresh, \<open>N\<close> cycles of the
  generator queue one refresh for every interval passed, of the ranks in turn under the staggered
  rank policy, of the banks in turn - bank groups first, then banks, then ranks - under the bank
  policy, and of rank 0 alone under the policy named simultaneous.
\<close>

theorem refresh_schedule:
  assumes "dram_ok (dram cfg)" "new_refresh cfg = Inr r0" "0 < refresh_interval r0" "refresh_interval r0 < 2 ^ 31"
  shows "\<exists>r ch. refresh_ticks cfg N (r0, new_channel) = Inr (r, ch) \<and>
    refresh_q ch = map (refresh_target cfg) [0..<(N - 1) div nat (refresh_interval r0)]"
proof -
  have "refresh_at cfg 0 r0" "rf_clk r0 = 0" using assms(1,2)
    by (auto simp: new_refresh_def refresh_at_def dram_ok_def Let_def require_eq_Inr_iff split: RefreshPolicy.splits)
  from refresh_ticks_at [OF assms(1) new_refresh_inv [OF assms(1-3)] this _ refl, of N] assms(4)
  show ?thesis by (auto simp: succeeds_iff)
qed

theorem refresh_schedule_witness:
  "\<exists>r0 r ch. new_refresh ddr4_cfg = Inr r0 \<and> refresh_ticks ddr4_cfg 7801 (r0, new_channel) = Inr (r, ch) \<and>
    refresh_q ch = [mk_cmd REFRESH (no_addr\<lparr>rank := 0\<rparr>) (-1), mk_cmd REFRESH (no_addr\<lparr>rank := 1\<rparr>) (-1)]"
proof -
  have d: "refresh_policy (sys ddr4_cfg) = RANK_LEVEL_STAGGERED" "ranks (dram ddr4_cfg) = 2" "tREFI (rowt ddr4_cfg) = 7800"
    by (simp_all add: ddr4_cfg_def ddr4_x16_sys_def ddr4_x8_dram_def ddr4_x16_dram_def InitTimingParams_def
        ddr4_reader_def Let_def)
  let ?r0 = "\<lparr>rf_clk = 0, refresh_interval = 3900, next_rank = 0, next_bg = 0, next_bank = 0\<rparr>"
  have r: "new_refresh ddr4_cfg = Inr ?r0" by (simp add: new_refresh_def d)
  have "[0..<2] = [0, 1 :: nat]" by (simp add: upt_rec)
  then show ?thesis using refresh_schedule [OF ddr4_dram_ok r, of 7801] r
    by (simp add: refresh_target_def d Let_def)
qed

end
