(* ===== verification/Dram_Controller.thy ===== *)
theory Dram_Controller
  imports Dram_Queue Dram_Refresh Multimap
begin

text \<open>
  The controller of a channel (\<open>controller.cc\<close>): transaction queues, pending transactions,
  scheduling into the command queues, and the issue of commands. Counters and histograms of
  \<open>simple_stats.h\<close> are kept by name; energy figures, printing and traces are left out.
\<close>

section \<open>Statistics\<close>

record SimpleStats =
  epoch_counters :: "string \<Rightarrow> nat"
  epoch_vec_counters :: "string \<Rightarrow> int \<Rightarrow> nat"
  epoch_histo_counts :: "string \<Rightarrow> int \<Rightarrow> nat"

definition no_stats :: SimpleStats where
  "no_stats = \<lparr>epoch_counters = (\<lambda>_. 0), epoch_vec_counters = (\<lambda>_ _. 0), epoch_histo_counts = (\<lambda>_ _. 0)\<rparr>"

definition Increment :: "string \<Rightarrow> SimpleStats \<Rightarrow> SimpleStats" where
  "Increment n s = s\<lparr>epoch_counters := (epoch_counters s)(n := epoch_counters s n + 1)\<rparr>"

definition IncrementVec :: "string \<Rightarrow> int \<Rightarrow> SimpleStats \<Rightarrow> SimpleStats" where
  "IncrementVec n i s = s\<lparr>epoch_vec_counters :=
     (epoch_vec_counters s)(n := (epoch_vec_counters s n)(i := epoch_vec_counters s n i + 1))\<rparr>"

definition AddValue :: "string \<Rightarrow> int \<Rightarrow> SimpleStats \<Rightarrow> SimpleStats" where
  "AddValue n v s = s\<lparr>epoch_histo_counts :=
     (epoch_histo_counts s)(n := (epoch_histo_counts s n)(v := epoch_histo_counts s n v + 1))\<rparr>"

text \<open>A difference of 64-bit cycles passed as an \<open>int\<close>.\<close>

definition as_int :: "int \<Rightarrow> int" where
  "as_int x = sint (word_of_int x :: u32)"

section \<open>State\<close>

record Controller =
  ctl_clk :: nat
  simple_stats :: SimpleStats
  channel_state :: ChannelState
  cmd_queue :: CommandQueue
  refresh_ctl :: Refresh
  unified_q :: "Transaction list"
  read_queue :: "Transaction list"
  write_buffer :: "Transaction list"
  pending_rd_q :: "(u64, Transaction) multimap"
  pending_wr_q :: "(u64, Transaction) multimap"
  return_queue :: "Transaction list"
  last_trans_clk :: nat
  write_draining :: int

text \<open>
  The capacity of a queue is what its constructor reserves; queues never grow past it, because
  transactions are added only when there is room.
\<close>

definition capacity :: "Config \<Rightarrow> nat" where
  "capacity cfg = nat (trans_queue_size (sys cfg))"

definition new_Controller :: "Config \<Rightarrow> Controller res" where
  "new_Controller cfg =
     require (0 \<le> trans_queue_size (sys cfg)) (Undefined ''reserve'')
       (bindR (new_queue cfg) (\<lambda>q. bindR (new_refresh cfg) (\<lambda>r. Inr
         \<lparr>ctl_clk = 0, simple_stats = no_stats, channel_state = new_channel, cmd_queue = q, refresh_ctl = r,
          unified_q = [], read_queue = [], write_buffer = [], pending_rd_q = [], pending_wr_q = [],
          return_queue = [], last_trans_clk = 0, write_draining = 0\<rparr>)))"

section \<open>Transactions in and out\<close>

text \<open>The first transaction that is complete, or none; the pair \<open>(-1, -1)\<close> of the code is \<open>None\<close>.\<close>

definition ReturnDoneTrans :: "nat \<Rightarrow> Controller \<Rightarrow> (u64 \<times> bool) option \<times> Controller" where
  "ReturnDoneTrans clk c =
     (case find (\<lambda>t. clk \<ge> complete_cycle t) (return_queue c) of
        None \<Rightarrow> (None, c)
      | Some t \<Rightarrow>
          (let st = (if is_write t then Increment ''num_writes_done'' (simple_stats c)
                     else AddValue ''read_latency'' (as_int (int (ctl_clk c) - int (added_cycle t)))
                            (Increment ''num_reads_done'' (simple_stats c)))
           in (Some (t_addr t, is_write t),
               c\<lparr>return_queue := erase_first (\<lambda>t. clk \<ge> complete_cycle t) (return_queue c),
                 simple_stats := st\<rparr>)))"

definition ctl_WillAcceptTransaction :: "Config \<Rightarrow> bool \<Rightarrow> Controller \<Rightarrow> bool" where
  "ctl_WillAcceptTransaction cfg w c =
     (if unified_queue (sys cfg) then length (unified_q c) < capacity cfg
      else if \<not> w then length (read_queue c) < capacity cfg
      else length (write_buffer c) < capacity cfg)"

text \<open>\<open>AddTransaction\<close> always returns true.\<close>

definition ctl_AddTransaction :: "Config \<Rightarrow> Transaction \<Rightarrow> Controller \<Rightarrow> Controller" where
  "ctl_AddTransaction cfg tr c0 =
     (let t = tr\<lparr>added_cycle := ctl_clk c0\<rparr>;
          done = t\<lparr>complete_cycle := add64 (ctl_clk c0) 1\<rparr>;
          c = c0\<lparr>simple_stats := AddValue ''interarrival_latency''
                     (as_int (int (ctl_clk c0) - int (last_trans_clk c0))) (simple_stats c0),
                 last_trans_clk := ctl_clk c0\<rparr>
      in if is_write t then
           (let c1 = (if mm_count (t_addr t) (pending_wr_q c) = 0 then
                        (let c2 = c\<lparr>pending_wr_q := mm_insert (t_addr t) t (pending_wr_q c)\<rparr> in
                         if unified_queue (sys cfg) then c2\<lparr>unified_q := unified_q c2 @ [t]\<rparr>
                         else c2\<lparr>write_buffer := write_buffer c2 @ [t]\<rparr>)
                      else c)
            in c1\<lparr>return_queue := return_queue c1 @ [done]\<rparr>)
         else if mm_count (t_addr t) (pending_wr_q c) > 0 then
           c\<lparr>return_queue := return_queue c @ [done]\<rparr>
         else
           (let c1 = c\<lparr>pending_rd_q := mm_insert (t_addr t) t (pending_rd_q c)\<rparr> in
            if mm_count (t_addr t) (pending_rd_q c1) = 1 then
              (if unified_queue (sys cfg) then c1\<lparr>unified_q := unified_q c1 @ [t]\<rparr>
               else c1\<lparr>read_queue := read_queue c1 @ [t]\<rparr>)
            else c1))"

section \<open>Scheduling\<close>

definition TransToCommand :: "Config \<Rightarrow> Transaction \<Rightarrow> Command" where
  "TransToCommand cfg t =
     mk_cmd (if row_buf_policy (sys cfg) \<noteq> ''CLOSE_PAGE'' then (if is_write t then WRITE else READ)
             else (if is_write t then WRITE_PRECHARGE else READ_PRECHARGE))
       (AddressMapping (amap cfg) (t_addr t)) (t_addr t)"

text \<open>
  The loop of \<open>ScheduleTransaction\<close> over the chosen queue; \<open>put\<close> stores the queue back, with the
  scheduled transaction erased.
\<close>

fun schedule_loop ::
  "Config \<Rightarrow> (Transaction list \<Rightarrow> Controller \<Rightarrow> Controller) \<Rightarrow> Transaction list \<Rightarrow> Transaction list
     \<Rightarrow> Controller \<Rightarrow> Controller res" where
  "schedule_loop cfg put before [] c = Inr c"
| "schedule_loop cfg put before (t # ts) c =
     (let cmd = TransToCommand cfg t; dep = (\<not> unified_queue (sys cfg) \<and> IsWrite cmd) in
      bindR (WillAcceptCommand (dram cfg) (cmd_queue c) (cRank cmd) (cBankgroup cmd) (cBank cmd)) (\<lambda>ok.
        if ok then
          (if dep \<and> mm_count (t_addr t) (pending_rd_q c) > 0 then Inr (c\<lparr>write_draining := 0\<rparr>)
           else
             (let c1 = (if dep then c\<lparr>write_draining := write_draining c - 1\<rparr> else c) in
              bindR (AddCommand (dram cfg) cmd (cmd_queue c1)) (\<lambda>(added, q).
                Inr (put (before @ ts) (c1\<lparr>cmd_queue := q\<rparr>)))))
        else schedule_loop cfg put (before @ [t]) ts c))"

definition start_draining :: "Config \<Rightarrow> Controller \<Rightarrow> Controller" where
  "start_draining cfg c =
     (if write_draining c = 0 \<and> \<not> unified_queue (sys cfg) \<and>
         (length (write_buffer c) \<ge> capacity cfg \<or> (length (write_buffer c) > 8 \<and> QueueEmpty (cmd_queue c)))
      then c\<lparr>write_draining := int (length (write_buffer c))\<rparr> else c)"

definition ScheduleTransaction :: "Config \<Rightarrow> Controller \<Rightarrow> Controller res" where
  "ScheduleTransaction cfg c0 =
     (let c = start_draining cfg c0 in
      if unified_queue (sys cfg) then schedule_loop cfg (\<lambda>ts c. c\<lparr>unified_q := ts\<rparr>) [] (unified_q c) c
      else if write_draining c > 0 then schedule_loop cfg (\<lambda>ts c. c\<lparr>write_buffer := ts\<rparr>) [] (write_buffer c) c
      else schedule_loop cfg (\<lambda>ts c. c\<lparr>read_queue := ts\<rparr>) [] (read_queue c) c)"

section \<open>Issuing commands\<close>

definition UpdateCommandStats :: "Config \<Rightarrow> Command \<Rightarrow> Controller \<Rightarrow> Controller res" where
  "UpdateCommandStats cfg cmd c =
     (let st = simple_stats c;
          hit = (\<lambda>n m. require (bank_ok (dram cfg) (cRank cmd) (cBankgroup cmd) (cBank cmd)) (Undefined ''bank_states_'')
                  (Inr (c\<lparr>simple_stats := (if RowHitCount (channel_state c) cmd \<noteq> 0 then Increment m (Increment n st)
                                          else Increment n st)\<rparr>)));
          one = (\<lambda>n. Inr (c\<lparr>simple_stats := Increment n st\<rparr>))
      in case cmd_type cmd of
           READ \<Rightarrow> hit ''num_read_cmds'' ''num_read_row_hits''
         | READ_PRECHARGE \<Rightarrow> hit ''num_read_cmds'' ''num_read_row_hits''
         | WRITE \<Rightarrow> hit ''num_write_cmds'' ''num_write_row_hits''
         | WRITE_PRECHARGE \<Rightarrow> hit ''num_write_cmds'' ''num_write_row_hits''
         | ACTIVATE \<Rightarrow> one ''num_act_cmds''
         | PRECHARGE \<Rightarrow> one ''num_pre_cmds''
         | REFRESH \<Rightarrow> one ''num_ref_cmds''
         | REFRESH_BANK \<Rightarrow> one ''num_refb_cmds''
         | SREF_ENTER \<Rightarrow> one ''num_srefe_cmds''
         | SREF_EXIT \<Rightarrow> one ''num_srefx_cmds''
         | SIZE \<Rightarrow> AbruptExit ''controller.cc'')"

text \<open>The loop that returns all pending reads of an address.\<close>

primrec return_reads :: "nat \<Rightarrow> u64 \<Rightarrow> nat \<Rightarrow> Controller \<Rightarrow> Controller res" where
  "return_reads done h 0 c = Inr c"
| "return_reads done h (Suc n) c =
     (case mm_find h (pending_rd_q c) of
        None \<Rightarrow> Inl (Undefined ''pending_rd_q_.end()'')
      | Some i \<Rightarrow> return_reads done h n
          (c\<lparr>return_queue := return_queue c @ [(snd (pending_rd_q c ! i))\<lparr>complete_cycle := done\<rparr>],
             pending_rd_q := mm_erase i (pending_rd_q c)\<rparr>))"

text \<open>The reads and writes of \<open>IssueCommand\<close>; \<open>exit(1)\<close> ends the process.\<close>

definition complete_trans :: "Config \<Rightarrow> Command \<Rightarrow> Controller \<Rightarrow> Controller res" where
  "complete_trans cfg cmd c =
     (if IsRead cmd then
        (let n = mm_count (hex_addr cmd) (pending_rd_q c) in
         require (n \<noteq> 0) (Panicked ''not in read queue!'')
           (return_reads (add64 (ctl_clk c) (read_delay (colt cfg))) (hex_addr cmd) n c))
      else if IsWrite cmd then
        (case mm_find (hex_addr cmd) (pending_wr_q c) of
           None \<Rightarrow> Inl (Panicked ''not in write queue!'')
         | Some i \<Rightarrow>
             Inr (c\<lparr>simple_stats := AddValue ''write_latency''
                        (as_int (int (ctl_clk c) - int (added_cycle (snd (pending_wr_q c ! i))) + write_delay (colt cfg)))
                        (simple_stats c),
                    pending_wr_q := mm_erase i (pending_wr_q c)\<rparr>))
      else Inr c)"

definition IssueCommand :: "Config \<Rightarrow> Timing \<Rightarrow> Command \<Rightarrow> Controller \<Rightarrow> Controller res" where
  "IssueCommand cfg tm cmd c =
     bindR (complete_trans cfg cmd c) (\<lambda>c1.
       bindR (UpdateCommandStats cfg cmd c1) (\<lambda>c2.
         bindR (UpdateTimingAndStates cfg tm cmd (ctl_clk c2) (channel_state c2)) (\<lambda>ch.
           Inr (c2\<lparr>channel_state := ch\<rparr>))))"

section \<open>A clock cycle\<close>

text \<open>The command of the cycle: what the first refresh needs, or else one from the queues.\<close>

definition next_command :: "Config \<Rightarrow> Controller \<Rightarrow> (Command \<times> Controller) res" where
  "next_command cfg c =
     bindR (if refresh_q (channel_state c) \<noteq> [] then
              bindR (FinishRefresh (dram cfg) (channel_state c) (cmd_queue c)) (\<lambda>(cmd, q). Inr (cmd, c\<lparr>cmd_queue := q\<rparr>))
            else Inr (no_cmd, c)) (\<lambda>(cmd, c1).
       if \<not> IsValid cmd then
         bindR (GetCommandToIssue (dram cfg) (channel_state c1) (cmd_queue c1)) (\<lambda>(cmd, q). Inr (cmd, c1\<lparr>cmd_queue := q\<rparr>))
       else Inr (cmd, c1))"

text \<open>The second command of a cycle, for HBM; the queue has given it up even when it is not issued.\<close>

definition dual_command :: "Config \<Rightarrow> Timing \<Rightarrow> Command \<Rightarrow> Controller \<Rightarrow> Controller res" where
  "dual_command cfg tm cmd c =
     (if enable_hbm_dual_cmd (dram cfg) then
        bindR (GetCommandToIssue (dram cfg) (channel_state c) (cmd_queue c)) (\<lambda>(second_cmd, q).
          let c1 = c\<lparr>cmd_queue := q\<rparr> in
          if IsValid second_cmd \<and> IsReadWrite second_cmd \<noteq> IsReadWrite cmd then
            bindR (IssueCommand cfg tm second_cmd c1) (\<lambda>c2.
              Inr (c2\<lparr>simple_stats := Increment ''hbm_dual_cmds'' (simple_stats c2)\<rparr>))
          else Inr c1)
      else Inr c)"

definition idle_rank :: "Config \<Rightarrow> int \<Rightarrow> Controller \<Rightarrow> Controller" where
  "idle_rank cfg i c =
     (let ch = channel_state c in
      if rank_is_sref ch i then c\<lparr>simple_stats := IncrementVec ''sref_cycles'' i (simple_stats c)\<rparr>
      else if IsAllBankIdleInRank (dram cfg) ch i then
        c\<lparr>simple_stats := IncrementVec ''all_bank_idle_cycles'' i (simple_stats c),
          channel_state := ch\<lparr>rank_idle_cycles := (rank_idle_cycles ch)(i := rank_idle_cycles ch i + 1)\<rparr>\<rparr>
      else
        c\<lparr>simple_stats := IncrementVec ''rank_active_cycles'' i (simple_stats c),
          channel_state := ch\<lparr>rank_idle_cycles := (rank_idle_cycles ch)(i := 0)\<rparr>\<rparr>)"

text \<open>The loop that moves one rank into or out of self-refresh.\<close>

fun self_refresh_loop :: "Config \<Rightarrow> Timing \<Rightarrow> int list \<Rightarrow> Controller \<Rightarrow> Controller res" where
  "self_refresh_loop cfg tm [] c = Inr c"
| "self_refresh_loop cfg tm (i # is) c =
     (let ch = channel_state c;
          want = (if rank_is_sref ch i then (if \<not> rank_q_empty (cmd_queue c) i then Some SREF_EXIT else None)
                  else if rank_q_empty (cmd_queue c) i \<and> rank_idle_cycles ch i \<ge> sref_threshold (sys cfg)
                       then Some SREF_ENTER else None)
      in case want of
           None \<Rightarrow> self_refresh_loop cfg tm is c
         | Some t \<Rightarrow>
             bindR (ch_GetReadyCommand (dram cfg) ch (mk_cmd t (no_addr\<lparr>rank := i\<rparr>) (-1)) (ctl_clk c)) (\<lambda>cmd.
               if IsValid cmd then IssueCommand cfg tm cmd c else self_refresh_loop cfg tm is c))"

text \<open>Everything of a cycle before the transactions are scheduled.\<close>

definition command_phase :: "Config \<Rightarrow> Timing \<Rightarrow> Controller \<Rightarrow> Controller res" where
  "command_phase cfg tm c0 =
     bindR (refresh_ClockTick cfg (refresh_ctl c0, channel_state c0)) (\<lambda>(r, ch).
       bindR (next_command cfg (c0\<lparr>refresh_ctl := r, channel_state := ch\<rparr>)) (\<lambda>(cmd, c).
         bindR (if IsValid cmd then bindR (IssueCommand cfg tm cmd c) (dual_command cfg tm cmd) else Inr c) (\<lambda>c1.
           let c2 = fold (idle_rank cfg) [0..ranks (dram cfg) - 1] c1 in
           if enable_self_refresh (sys cfg) \<and> \<not> IsValid cmd
           then self_refresh_loop cfg tm [0..ranks (dram cfg) - 1] c2 else Inr c2)))"

definition ctl_ClockTick :: "Config \<Rightarrow> Timing \<Rightarrow> Controller \<Rightarrow> Controller res" where
  "ctl_ClockTick cfg tm c0 =
     bindR (command_phase cfg tm c0) (\<lambda>c1.
       bindR (ScheduleTransaction cfg c1) (\<lambda>c.
         Inr (c\<lparr>ctl_clk := ctl_clk c + 1,
                cmd_queue := (cmd_queue c)\<lparr>q_clk := q_clk (cmd_queue c) + 1\<rparr>,
                simple_stats := Increment ''num_cycles'' (simple_stats c)\<rparr>)))"

end
