(* ===== verification/Dram_Conservation.thy ===== *)
theory Dram_Conservation
  imports Dram_Controller
begin

text \<open>
  The controller of a channel neither loses nor invents transactions, and never ends the
  process: the accounting invariant that ties the pending transactions to what waits in the
  transaction and command queues, and its preservation by every operation, without self-refresh
  and dual commands.
\<close>

section \<open>The invariant\<close>

definition cmds :: "bool \<Rightarrow> Command multiset \<Rightarrow> u64 multiset" where
  "cmds w C = image_mset hex_addr (filter_mset (\<lambda>c. if w then IsWrite c else IsRead c) C)"

definition queued :: "Controller \<Rightarrow> Transaction multiset" where
  "queued c = mset (unified_q c) + mset (read_queue c) + mset (write_buffer c)"

definition addrs :: "bool \<Rightarrow> Transaction multiset \<Rightarrow> u64 multiset" where
  "addrs w T = image_mset t_addr (filter_mset (\<lambda>t. is_write t = w) T)"

text \<open>
  With the commands \<open>X\<close> in hand: every address with pending reads has one read in the queues, every
  pending write has one, and nothing else is queued.
\<close>

definition acct :: "Controller \<Rightarrow> Command multiset \<Rightarrow> bool" where
  "acct c X \<longleftrightarrow>
     addrs False (queued c) + cmds False (held (cmd_queue c) + X) = mset_set (fst ` set (pending_rd_q c)) \<and>
     addrs True (queued c) + cmds True (held (cmd_queue c) + X) = mset (map fst (pending_wr_q c)) \<and>
     distinct (map fst (pending_wr_q c)) \<and>
     (\<forall>p\<in>set (pending_rd_q c). t_addr (snd p) = fst p)"

text \<open>What the controller still owes a callback.\<close>

definition owed :: "Controller \<Rightarrow> u64 multiset" where
  "owed c = mset (map fst (pending_rd_q c)) + mset (map t_addr (return_queue c))"

definition mapped_ok :: "Config \<Rightarrow> bool" where
  "mapped_ok cfg \<longleftrightarrow> (\<forall>a. let A = AddressMapping (amap cfg) a in bank_ok (dram cfg) (rank A) (bankgroup A) (bank A))"

definition plain_cfg :: "Config \<Rightarrow> bool" where
  "plain_cfg cfg \<longleftrightarrow> dram_ok (dram cfg) \<and> mapped_ok cfg \<and> \<not> enable_hbm_dual_cmd (dram cfg) \<and>
     \<not> enable_self_refresh (sys cfg)"

definition parts_ok :: "Config \<Rightarrow> Controller \<Rightarrow> bool" where
  "parts_ok cfg c \<longleftrightarrow> ch_inv (dram cfg) (channel_state c) \<and> (\<forall>r. \<not> rank_is_sref (channel_state c) r) \<and>
     queue_inv (amap cfg) (dram cfg) (cmd_queue c) \<and> q_clk (cmd_queue c) = ctl_clk c \<and>
     refresh_inv cfg (refresh_ctl c)"

definition ctl_inv :: "Config \<Rightarrow> Controller \<Rightarrow> bool" where
  "ctl_inv cfg c \<longleftrightarrow> parts_ok cfg c \<and> acct c {#}"

lemma cmds_simps [simp]:
  "cmds w (A + B) = cmds w A + cmds w B" "cmds w {#} = {#}"
  "cmds w (add_mset c A) = (if (if w then IsWrite c else IsRead c) then add_mset (hex_addr c) (cmds w A) else cmds w A)"
  by (simp_all add: cmds_def)

lemma addrs_simps [simp]:
  "addrs w (A + B) = addrs w A + addrs w B" "addrs w {#} = {#}"
  "addrs w (add_mset t A) = (if is_write t = w then add_mset (t_addr t) (addrs w A) else addrs w A)"
  by (simp_all add: addrs_def)

lemma acct_cong:
  assumes "queued c' = queued c" "held (cmd_queue c') + X' = held (cmd_queue c) + X"
    "pending_rd_q c' = pending_rd_q c" "pending_wr_q c' = pending_wr_q c"
  shows "acct c' X' = acct c X"
  using assms by (simp only: acct_def)

lemma owed_cong:
  "pending_rd_q c' = pending_rd_q c \<Longrightarrow> return_queue c' = return_queue c \<Longrightarrow> owed c' = owed c"
  by (simp add: owed_def)

text \<open>A command that is neither a read nor a write counts for nothing.\<close>

lemma acct_other: "\<not> IsReadWrite cmd \<Longrightarrow> acct c {#cmd#} = acct c {#}"
  by (simp add: acct_def IsReadWrite_def)

lemma new_Controller_ok:
  assumes "dram_ok (dram cfg)" "new_Controller cfg = Inr c" "0 < refresh_interval (refresh_ctl c)"
  shows "ctl_inv cfg c" "owed c = {#}"
proof -
  from assms(2) obtain q r where q: "new_queue cfg = Inr q" and r: "new_refresh cfg = Inr r"
    and c: "c = \<lparr>ctl_clk = 0, simple_stats = no_stats, channel_state = new_channel, cmd_queue = q, refresh_ctl = r,
          unified_q = [], read_queue = [], write_buffer = [], pending_rd_q = [], pending_wr_q = [],
          return_queue = [], last_trans_clk = 0, write_draining = 0\<rparr>"
    by (auto simp: new_Controller_def require_eq_Inr_iff bindR_eq_Inr_iff)
  have "q_clk q = 0" using q by (auto simp: new_queue_def Let_def AbruptExit_def split: if_splits)
  moreover have "refresh_inv cfg r" using new_refresh_inv [OF assms(1) r] assms(3) by (simp add: c)
  ultimately show "ctl_inv cfg c" "owed c = {#}"
    using new_queue_inv [OF assms(1) q] new_channel_inv
    by (simp_all add: c ctl_inv_def parts_ok_def acct_def owed_def queued_def new_channel_def)
qed

section \<open>Completing transactions\<close>

lemma mset_map_erase:
  "i < length m \<Longrightarrow> mset (map f m) = add_mset (f (m ! i)) (mset (map f (mm_erase i m)))"
  using arg_cong [OF mset_mm_erase [of i m], of "image_mset f"] by simp

lemma mm_count_mset: "mm_count k m = size (filter_mset (\<lambda>p. fst p = k) (mset m))"
  by (simp add: mm_count_def flip: mset_filter)

lemma return_reads_ok:
  assumes "mm_count h (pending_rd_q c) = n" "\<forall>p\<in>set (pending_rd_q c). t_addr (snd p) = fst p"
  shows "succeeds (return_reads done h n c) (\<lambda>c'.
    c' = c\<lparr>return_queue := return_queue c', pending_rd_q := pending_rd_q c'\<rparr> \<and>
    set (pending_rd_q c') = {p \<in> set (pending_rd_q c). fst p \<noteq> h} \<and> owed c' = owed c)"
  using assms
proof (induction n arbitrary: c)
  case 0
  then have "h \<notin> fst ` set (pending_rd_q c)" using mm_count_pos [of h "pending_rd_q c"] by simp
  then show ?case by auto
next
  case (Suc n)
  let ?rd = "pending_rd_q c"
  have "h \<in> fst ` set ?rd" using Suc.prems(1) mm_count_pos [of h ?rd] by simp
  then obtain i where i: "mm_find h ?rd = Some i" using mm_find_None [of h ?rd] by (cases "mm_find h ?rd") auto
  from mm_find_Some [OF i] have len: "i < length ?rd" and key: "fst (?rd ! i) = h" by auto
  let ?c = "c\<lparr>return_queue := return_queue c @ [(snd (?rd ! i))\<lparr>complete_cycle := done\<rparr>],
              pending_rd_q := mm_erase i ?rd\<rparr>"
  have m: "mset ?rd = add_mset (?rd ! i) (mset (mm_erase i ?rd))" by (rule mset_mm_erase [OF len])
  then have s: "set ?rd = insert (?rd ! i) (set (mm_erase i ?rd))" by (metis set_mset_add_mset_insert set_mset_mset)
  have n: "mm_count h (pending_rd_q ?c) = n" using Suc.prems(1) m key by (simp add: mm_count_mset)
  have k: "\<forall>p\<in>set (pending_rd_q ?c). t_addr (snd p) = fst p" using Suc.prems(2) s by simp
  have o: "owed ?c = owed c"
    using mset_map_erase [OF len, of fst] Suc.prems(2) nth_mem [OF len] key by (simp add: owed_def)
  have e: "{p \<in> set (mm_erase i ?rd). fst p \<noteq> h} = {p \<in> set ?rd. fst p \<noteq> h}" using s key by auto
  show ?case using Suc.IH [OF n k] i o e by (auto elim!: succeeds_mono simp: succeeds_iff)
qed

lemma complete_trans_ok:
  assumes "acct c {#cmd#}"
  shows "succeeds (complete_trans cfg cmd c) (\<lambda>c'. acct c' {#} \<and> owed c' = owed c \<and>
    channel_state c' = channel_state c \<and> cmd_queue c' = cmd_queue c \<and> refresh_ctl c' = refresh_ctl c \<and>
    ctl_clk c' = ctl_clk c)"
proof -
  let ?h = "hex_addr cmd" and ?rd = "pending_rd_q c" and ?wr = "pending_wr_q c"
  consider (rd) "IsRead cmd" "\<not> IsWrite cmd" | (wr) "IsWrite cmd" "\<not> IsRead cmd" | (no) "\<not> IsRead cmd" "\<not> IsWrite cmd"
    by (cases "cmd_type cmd") (simp_all add: IsRead_def IsWrite_def)
  then show ?thesis
  proof cases
    case rd
    with assms have a: "add_mset ?h (addrs False (queued c) + cmds False (held (cmd_queue c))) = mset_set (fst ` set ?rd)"
      and k: "\<forall>p\<in>set ?rd. t_addr (snd p) = fst p" by (simp_all add: acct_def)
    have h: "?h \<in> fst ` set ?rd" using arg_cong [OF a, of set_mset] by auto
    then have n: "mm_count ?h ?rd \<noteq> 0" using mm_count_pos [of ?h ?rd] by simp
    have a': "addrs False (queued c) + cmds False (held (cmd_queue c)) = mset_set (fst ` set ?rd - {?h})"
      using a h by (simp add: mset_set.remove [of "fst ` set ?rd" ?h])
    from return_reads_ok [OF refl k] show ?thesis
      unfolding complete_trans_def Let_def if_P [OF rd(1)] succeeds_require
    proof (intro conjI, goal_cases)
      case 2
      then show ?case
      proof (rule succeeds_mono)
        fix c' assume c': "c' = c\<lparr>return_queue := return_queue c', pending_rd_q := pending_rd_q c'\<rparr> \<and>
          set (pending_rd_q c') = {p \<in> set ?rd. fst p \<noteq> ?h} \<and> owed c' = owed c"
        then obtain R P where c'': "c' = c\<lparr>return_queue := R, pending_rd_q := P\<rparr>" by blast
        have s: "set (pending_rd_q c') = {p \<in> set ?rd. fst p \<noteq> ?h}" and o: "owed c' = owed c" using c' by blast+
        have "fst ` set (pending_rd_q c') = fst ` set ?rd - {?h}" unfolding s by auto
        moreover have "\<forall>p\<in>set (pending_rd_q c'). t_addr (snd p) = fst p" unfolding s using k by simp
        ultimately have "acct c' {#}" using assms a' rd unfolding acct_def by (simp add: c'' queued_def)
        then show "acct c' {#} \<and> owed c' = owed c \<and> channel_state c' = channel_state c \<and>
          cmd_queue c' = cmd_queue c \<and> refresh_ctl c' = refresh_ctl c \<and> ctl_clk c' = ctl_clk c"
          using o by (simp add: c'')
      qed
    qed (use n in simp_all)
  next
    case wr
    with assms have a: "add_mset ?h (addrs True (queued c) + cmds True (held (cmd_queue c))) = mset (map fst ?wr)"
      and d: "distinct (map fst ?wr)" by (simp_all add: acct_def)
    have "?h \<in> fst ` set ?wr" using arg_cong [OF a, of set_mset] by auto
    then obtain i where i: "mm_find ?h ?wr = Some i" using mm_find_None [of ?h ?wr] by (cases "mm_find ?h ?wr") auto
    from mm_find_Some [OF i] have len: "i < length ?wr" and key: "fst (?wr ! i) = ?h" by auto
    have a': "addrs True (queued c) + cmds True (held (cmd_queue c)) = mset (map fst (mm_erase i ?wr))"
      using a mset_map_erase [OF len, of fst] key by simp
    have "distinct (map fst (mm_erase i ?wr))"
      using d mset_map_erase [OF len, of fst] by (metis distinct.simps(2) mset.simps(2) mset_eq_imp_distinct_iff)
    then show ?thesis using assms a' wr i by (simp add: complete_trans_def acct_def owed_def queued_def)
  next
    case no
    then show ?thesis using assms by (simp add: complete_trans_def acct_def)
  qed
qed

section \<open>Issuing commands\<close>

lemma UpdateCommandStats_ok:
  assumes "issuable (dram cfg) ch cmd clk"
  shows "\<exists>s. UpdateCommandStats cfg cmd c = Inr (c\<lparr>simple_stats := s\<rparr>)"
proof -
  have "cmd_type cmd \<noteq> SIZE" using assms by (simp add: issuable_def IsValid_def)
  moreover have "bank_ok (dram cfg) (cRank cmd) (cBankgroup cmd) (cBank cmd)"
    if "cmd_type cmd \<in> {READ, READ_PRECHARGE, WRITE, WRITE_PRECHARGE}"
    using that assms by (auto simp: issuable_def IsRankCMD_def)
  ultimately show ?thesis by (cases "cmd_type cmd") (auto simp: UpdateCommandStats_def Let_def)
qed

lemma IssueCommand_ok:
  assumes "dram_ok (dram cfg)" "parts_ok cfg c" "acct c {#cmd#}"
    and "issuable (dram cfg) (channel_state c) cmd (ctl_clk c)" "cmd_type cmd \<noteq> SREF_ENTER"
  shows "succeeds (IssueCommand cfg tm cmd c) (\<lambda>c'. ctl_inv cfg c' \<and> owed c' = owed c)"
proof -
  from complete_trans_ok [OF assms(3), of cfg] obtain c1 where c1: "complete_trans cfg cmd c = Inr c1"
    "acct c1 {#}" "owed c1 = owed c" "channel_state c1 = channel_state c" "cmd_queue c1 = cmd_queue c"
    "refresh_ctl c1 = refresh_ctl c" "ctl_clk c1 = ctl_clk c"
    by (auto simp: succeeds_iff)
  from UpdateCommandStats_ok [OF assms(4), of c1] obtain s where
    s: "UpdateCommandStats cfg cmd c1 = Inr (c1\<lparr>simple_stats := s\<rparr>)" by blast
  have b: "banks_inv (dram cfg) (channel_state c)" and nos: "\<forall>r. \<not> rank_is_sref (channel_state c) r"
    and rq: "list_all (refresh_ok (dram cfg)) (refresh_q (channel_state c))"
    using assms(2) by (simp_all add: parts_ok_def ch_inv_def)
  from UpdateTimingAndStates_ok [OF assms(1) b assms(4), of tm] obtain ch where
    ch: "UpdateTimingAndStates cfg tm cmd (ctl_clk c) (channel_state c) = Inr ch" "banks_inv (dram cfg) ch"
      "set (refresh_q ch) \<subseteq> set (refresh_q (channel_state c))"
      "rank_is_sref ch = (rank_is_sref (channel_state c))(cRank cmd := cmd_type cmd = SREF_ENTER)"
    by blast
  have chi: "ch_inv (dram cfg) ch" using ch(2,3) rq by (auto simp: ch_inv_def list_all_iff)
  have nos': "\<forall>r. \<not> rank_is_sref ch r" using ch(4) nos assms(5) by simp
  let ?c = "c1\<lparr>simple_stats := s, channel_state := ch\<rparr>"
  have "parts_ok cfg ?c" using assms(2) chi nos' c1(4-7) by (simp add: parts_ok_def)
  moreover have "acct ?c {#} = acct c1 {#}" by (rule acct_cong) (simp_all add: queued_def)
  moreover have "owed ?c = owed c1" by (rule owed_cong) simp_all
  moreover have "IssueCommand cfg tm cmd c = Inr ?c" using c1 s ch(1) by (simp add: IssueCommand_def)
  ultimately show ?thesis using c1(2,3) by (simp add: ctl_inv_def)
qed

lemma next_command_ok:
  assumes "dram_ok (dram cfg)" "ctl_inv cfg c"
  shows "succeeds (next_command cfg c) (\<lambda>(cmd, c'). parts_ok cfg c' \<and> acct c' {#cmd#} \<and> owed c' = owed c \<and>
    (IsValid cmd \<longrightarrow> issuable (dram cfg) (channel_state c') cmd (ctl_clk c') \<and> cmd_type cmd \<noteq> SREF_ENTER))"
proof -
  let ?d = "dram cfg" and ?ch = "channel_state c" and ?q = "cmd_queue c"
  from assms(2) have p: "parts_ok cfg c" and a: "acct c {#}" by (auto simp: ctl_inv_def)
  from p have ch: "ch_inv ?d ?ch" "banks_inv ?d ?ch" "\<forall>r. \<not> rank_is_sref ?ch r" and q: "queue_inv (amap cfg) ?d ?q"
    and clk: "q_clk ?q = ctl_clk c" by (auto simp: parts_ok_def ch_inv_def)
  define first where "first = (if refresh_q ?ch \<noteq> [] then
      bindR (FinishRefresh ?d ?ch ?q) (\<lambda>(cmd, q). Inr (cmd, c\<lparr>cmd_queue := q\<rparr>)) else Inr (no_cmd, c))"
  have "\<exists>cmd q. first = Inr (cmd, c\<lparr>cmd_queue := q\<rparr>) \<and> queue_inv (amap cfg) ?d q \<and> q_clk q = ctl_clk c \<and>
      held q = held ?q \<and> (IsValid cmd \<longrightarrow> issuable ?d ?ch cmd (ctl_clk c) \<and> \<not> IsReadWrite cmd \<and> cmd_type cmd \<noteq> SREF_ENTER)"
  proof (cases "refresh_q ?ch = []")
    case True
    then show ?thesis using q clk by (intro exI [of _ no_cmd] exI [of _ ?q]) (simp add: first_def)
  next
    case False
    from FinishRefresh_ok [OF assms(1) ch(1) q False ch(3)] show ?thesis
      using False clk by (auto simp: first_def succeeds_iff)
  qed
  then obtain cmd0 q0 where f: "first = Inr (cmd0, c\<lparr>cmd_queue := q0\<rparr>)" "queue_inv (amap cfg) ?d q0"
    "q_clk q0 = ctl_clk c" "held q0 = held ?q"
    "IsValid cmd0 \<longrightarrow> issuable ?d ?ch cmd0 (ctl_clk c) \<and> \<not> IsReadWrite cmd0 \<and> cmd_type cmd0 \<noteq> SREF_ENTER"
    by blast
  show ?thesis
  proof (cases "IsValid cmd0")
    case True
    have "acct (c\<lparr>cmd_queue := q0\<rparr>) {#cmd0#}"
      using a f(4,5) True by (simp add: acct_def queued_def IsReadWrite_def)
    moreover have "parts_ok cfg (c\<lparr>cmd_queue := q0\<rparr>)" using p f(2,3) by (simp add: parts_ok_def)
    ultimately show ?thesis using True f(1,5)
      unfolding next_command_def first_def [symmetric] by (simp add: owed_def)
  next
    case False
    have "succeeds (GetCommandToIssue ?d ?ch q0) (\<lambda>(cmd, q'). queue_inv (amap cfg) ?d q' \<and> q_clk q' = q_clk q0 \<and>
      held q0 = (if IsReadWrite cmd then {#cmd#} else {#}) + held q' \<and>
      (IsValid cmd \<longrightarrow> issuable ?d ?ch cmd (q_clk q0) \<and> cmd_type cmd \<noteq> SREF_ENTER \<and>
       (cmd_type cmd = SREF_EXIT \<longrightarrow> rank_is_sref ?ch (cRank cmd))))"
      unfolding GetCommandToIssue_def by (rule command_loop_ok [OF assms(1) ch(2) f(2)])
    then obtain cmd q' where g: "GetCommandToIssue ?d ?ch q0 = Inr (cmd, q')" "queue_inv (amap cfg) ?d q'"
      "q_clk q' = q_clk q0" "held q0 = (if IsReadWrite cmd then {#cmd#} else {#}) + held q'"
      "IsValid cmd \<longrightarrow> issuable ?d ?ch cmd (q_clk q0) \<and> cmd_type cmd \<noteq> SREF_ENTER"
      by (auto simp: succeeds_iff)
    let ?c = "c\<lparr>cmd_queue := q'\<rparr>"
    have "acct ?c {#cmd#}"
    proof (cases "IsReadWrite cmd")
      case True
      then have "held q' + {#cmd#} = held ?q + {#}" using g(4) f(4) by simp
      then show ?thesis using a acct_cong [of ?c c "{#cmd#}" "{#}"] by (simp add: queued_def)
    next
      case False
      then show ?thesis using a g(4) f(4) acct_cong [of ?c c "{#}" "{#}"] by (simp add: acct_other queued_def)
    qed
    moreover have "parts_ok cfg ?c" using p g(2,3) f(3) by (simp add: parts_ok_def)
    ultimately show ?thesis using False f(1,3) g(1,5)
      unfolding next_command_def first_def [symmetric] by (simp add: owed_def)
  qed
qed


section \<open>A cycle\<close>

lemma idle_rank_ok:
  assumes "ctl_inv cfg c"
  shows "ctl_inv cfg (idle_rank cfg i c)" "owed (idle_rank cfg i c) = owed c"
proof -
  obtain s ch where e: "idle_rank cfg i c = c\<lparr>simple_stats := s, channel_state := ch\<rparr>"
    and ch: "bank_states ch = bank_states (channel_state c)" "rank_is_sref ch = rank_is_sref (channel_state c)"
      "refresh_q ch = refresh_q (channel_state c)"
    by (rule that [of "channel_state (idle_rank cfg i c)" "simple_stats (idle_rank cfg i c)"])
       (simp_all add: idle_rank_def Let_def)
  have "ch_inv (dram cfg) ch = ch_inv (dram cfg) (channel_state c)"
    using ch by (simp add: ch_inv_def banks_inv_def)
  then have "parts_ok cfg (c\<lparr>simple_stats := s, channel_state := ch\<rparr>)" using assms ch(2) by (simp add: ctl_inv_def parts_ok_def)
  then show "ctl_inv cfg (idle_rank cfg i c)" "owed (idle_rank cfg i c) = owed c"
    using assms unfolding e by (simp_all add: ctl_inv_def acct_def queued_def owed_def)
qed

lemma idle_ranks_ok:
  "ctl_inv cfg c \<Longrightarrow> ctl_inv cfg (fold (idle_rank cfg) is c) \<and> owed (fold (idle_rank cfg) is c) = owed c"
  by (induction "is" arbitrary: c) (simp_all add: idle_rank_ok)

lemma command_phase_ok:
  assumes "plain_cfg cfg" "ctl_inv cfg c"
  shows "succeeds (command_phase cfg tm c) (\<lambda>c'. ctl_inv cfg c' \<and> owed c' = owed c)"
proof -
  have d: "dram_ok (dram cfg)" and plain: "\<not> enable_hbm_dual_cmd (dram cfg)" "\<not> enable_self_refresh (sys cfg)"
    using assms(1) by (auto simp: plain_cfg_def)
  from assms(2) have p: "parts_ok cfg c" by (simp add: ctl_inv_def)
  then have "refresh_inv cfg (refresh_ctl c)" "ch_inv (dram cfg) (channel_state c)" by (simp_all add: parts_ok_def)
  from refresh_ClockTick_ok [OF d this] obtain r ch where
    r: "refresh_ClockTick cfg (refresh_ctl c, channel_state c) = Inr (r, ch)" "refresh_inv cfg r"
      "ch_inv (dram cfg) ch" "rank_is_sref ch = rank_is_sref (channel_state c)"
    by (auto simp: succeeds_iff)
  let ?c = "c\<lparr>refresh_ctl := r, channel_state := ch\<rparr>"
  have i: "ctl_inv cfg ?c" "owed ?c = owed c"
    using assms(2) r(2-4) by (simp_all add: ctl_inv_def parts_ok_def acct_def queued_def owed_def)
  from next_command_ok [OF d i(1)] obtain cmd c1 where n: "next_command cfg ?c = Inr (cmd, c1)"
    "parts_ok cfg c1" "acct c1 {#cmd#}" "owed c1 = owed c"
    "IsValid cmd \<longrightarrow> issuable (dram cfg) (channel_state c1) cmd (ctl_clk c1) \<and> cmd_type cmd \<noteq> SREF_ENTER"
    using i(2) by (auto simp: succeeds_iff)
  have "\<exists>c2. (if IsValid cmd then bindR (IssueCommand cfg tm cmd c1) (dual_command cfg tm cmd) else Inr c1) = Inr c2 \<and>
    ctl_inv cfg c2 \<and> owed c2 = owed c"
  proof (cases "IsValid cmd")
    case True
    from IssueCommand_ok [OF d n(2,3)] n(5) True obtain c2 where
      "IssueCommand cfg tm cmd c1 = Inr c2" "ctl_inv cfg c2" "owed c2 = owed c1"
      by (auto simp: succeeds_iff)
    then show ?thesis using True n(4) plain(1) by (simp add: dual_command_def)
  next
    case False
    then have "\<not> IsReadWrite cmd" by (auto simp: cmd_class_defs)
    then show ?thesis using False n(2-4) by (simp add: ctl_inv_def acct_other)
  qed
  then obtain c2 where c2: "(if IsValid cmd then bindR (IssueCommand cfg tm cmd c1) (dual_command cfg tm cmd) else Inr c1) = Inr c2"
    "ctl_inv cfg c2" "owed c2 = owed c" by blast
  show ?thesis using r(1) n(1) c2 idle_ranks_ok [OF c2(2)] plain(2)
    by (simp add: command_phase_def Let_def)
qed

text \<open>Everything of a controller beside its transaction queues.\<close>

definition beside :: "Controller \<Rightarrow> Controller" where
  "beside c = c\<lparr>unified_q := [], read_queue := [], write_buffer := [], write_draining := 0\<rparr>"

lemma beside_eq:
  assumes "beside c = beside c'"
  shows "ctl_clk c = ctl_clk c'" "channel_state c = channel_state c'" "cmd_queue c = cmd_queue c'"
    "refresh_ctl c = refresh_ctl c'" "pending_rd_q c = pending_rd_q c'" "pending_wr_q c = pending_wr_q c'"
    "return_queue c = return_queue c'"
  using assms by (cases c; cases c'; simp add: beside_def)+

text \<open>
  The loop of the scheduler, for each of the three queues: what it takes out of the queue it puts
  into a command queue.
\<close>

lemma TransToCommand_sel:
  "IsReadWrite (TransToCommand cfg t)" "hex_addr (TransToCommand cfg t) = t_addr t"
  "IsWrite (TransToCommand cfg t) = is_write t" "IsRead (TransToCommand cfg t) = (\<not> is_write t)"
  "cmd_addr (TransToCommand cfg t) = AddressMapping (amap cfg) (t_addr t)"
  by (auto simp: TransToCommand_def cmd_class_defs)

lemma schedule_loop_ok:
  assumes cfg: "plain_cfg cfg" and c: "ctl_inv cfg c"
    and get: "queued c = mset (before @ ts) + R"
    and put: "\<And>xs c'. beside (put xs c') = beside c'"
    and put_q: "\<And>xs q n. queued (put xs (c\<lparr>write_draining := n, cmd_queue := q\<rparr>)) = mset xs + R"
  shows "succeeds (schedule_loop cfg put before ts c) (\<lambda>c'. ctl_inv cfg c' \<and> owed c' = owed c)"
  using get
proof (induction ts arbitrary: before)
  case Nil
  then show ?case using c by simp
next
  case (Cons t ts)
  let ?d = "dram cfg" and ?cmd = "TransToCommand cfg t" and ?q = "cmd_queue c"
  have d: "dram_ok ?d" and m: "bank_ok ?d (cRank ?cmd) (cBankgroup ?cmd) (cBank ?cmd)"
    using cfg by (auto simp: plain_cfg_def mapped_ok_def TransToCommand_sel Let_def)
  from c have p: "parts_ok cfg c" and a: "acct c {#}" by (auto simp: ctl_inv_def)
  from p have q: "queue_inv (amap cfg) ?d ?q" by (simp add: parts_ok_def)
  from WillAcceptCommand_defined [OF d q m] obtain ok where
    w: "WillAcceptCommand ?d ?q (cRank ?cmd) (cBankgroup ?cmd) (cBank ?cmd) = Inr ok" by blast
  note step = schedule_loop.simps(2) Let_def w bindR_Inr
  show ?case
  proof (cases ok)
    case False
    then show ?thesis unfolding step using Cons.IH [of "before @ [t]"] Cons.prems by simp
  next
    case True
    show ?thesis
    proof (cases "(\<not> unified_queue (sys cfg) \<and> IsWrite ?cmd) \<and> mm_count (t_addr t) (pending_rd_q c) > 0")
      case dep: True
      have "ctl_inv cfg (c\<lparr>write_draining := 0\<rparr>)" "owed (c\<lparr>write_draining := 0\<rparr>) = owed c"
        using c by (simp_all add: ctl_inv_def parts_ok_def acct_def queued_def owed_def)
      then show ?thesis unfolding step if_P [OF dep] using True by simp
    next
      case nodep: False
      obtain n where n: "(if \<not> unified_queue (sys cfg) \<and> IsWrite ?cmd then c\<lparr>write_draining := write_draining c - 1\<rparr> else c)
        = c\<lparr>write_draining := n\<rparr>" by (metis (full_types) Controller.surjective Controller.update_convs(13))
      have addr: "cmd_addr ?cmd = AddressMapping (amap cfg) (hex_addr ?cmd)" by (simp add: TransToCommand_sel)
      from AddCommand_ok [OF d q TransToCommand_sel(1) addr m] w True obtain q' where
        q': "AddCommand ?d ?cmd ?q = Inr (True, q')" "queue_inv (amap cfg) ?d q'"
          "held q' = add_mset ?cmd (held ?q)" "q_clk q' = q_clk ?q"
        by (auto simp: succeeds_iff)
      let ?c = "put (before @ ts) (c\<lparr>write_draining := n, cmd_queue := q'\<rparr>)"
      note f = beside_eq [OF put [of "before @ ts" "c\<lparr>write_draining := n, cmd_queue := q'\<rparr>"], simplified]
      have "queued c = add_mset t (queued ?c)" using Cons.prems by (simp add: put_q)
      then have "acct ?c {#}" using a f q'(3)
        by (cases "is_write t") (simp_all add: acct_def TransToCommand_sel)
      moreover have "parts_ok cfg ?c" using p q'(2,4) f by (simp add: parts_ok_def)
      moreover have "owed ?c = owed c" using f by (simp add: owed_def)
      ultimately show ?thesis unfolding step if_not_P [OF nodep] n using True q'(1) by (simp add: ctl_inv_def)
    qed
  qed
qed

lemma start_draining_frame: "\<exists>n. start_draining cfg c = c\<lparr>write_draining := n\<rparr>"
  unfolding start_draining_def by (metis (full_types) Controller.surjective Controller.update_convs(13))

lemma ScheduleTransaction_ok:
  assumes "plain_cfg cfg" "ctl_inv cfg c"
  shows "succeeds (ScheduleTransaction cfg c) (\<lambda>c'. ctl_inv cfg c' \<and> owed c' = owed c)"
proof -
  obtain n where n: "start_draining cfg c = c\<lparr>write_draining := n\<rparr>" using start_draining_frame by blast
  let ?c = "c\<lparr>write_draining := n\<rparr>"
  have i: "ctl_inv cfg ?c" "owed ?c = owed c"
    using assms(2) by (simp_all add: ctl_inv_def parts_ok_def acct_def queued_def owed_def)
  note loop = schedule_loop_ok [OF assms(1) i(1), where before = "[]", unfolded i(2)]
  have "succeeds (schedule_loop cfg (\<lambda>ts c. c\<lparr>unified_q := ts\<rparr>) [] (unified_q ?c) ?c) (\<lambda>c'. ctl_inv cfg c' \<and> owed c' = owed c)"
    by (rule loop [where R = "mset (read_queue c) + mset (write_buffer c)"]) (simp_all add: queued_def beside_def)
  moreover have "succeeds (schedule_loop cfg (\<lambda>ts c. c\<lparr>write_buffer := ts\<rparr>) [] (write_buffer ?c) ?c) (\<lambda>c'. ctl_inv cfg c' \<and> owed c' = owed c)"
    by (rule loop [where R = "mset (unified_q c) + mset (read_queue c)"]) (simp_all add: queued_def beside_def)
  moreover have "succeeds (schedule_loop cfg (\<lambda>ts c. c\<lparr>read_queue := ts\<rparr>) [] (read_queue ?c) ?c) (\<lambda>c'. ctl_inv cfg c' \<and> owed c' = owed c)"
    by (rule loop [where R = "mset (unified_q c) + mset (write_buffer c)"]) (simp_all add: queued_def beside_def)
  ultimately show ?thesis by (simp add: ScheduleTransaction_def n Let_def)
qed

lemma ctl_ClockTick_ok:
  assumes "plain_cfg cfg" "ctl_inv cfg c"
  shows "succeeds (ctl_ClockTick cfg tm c) (\<lambda>c'. ctl_inv cfg c' \<and> owed c' = owed c)"
proof -
  from command_phase_ok [OF assms] obtain c1 where c1: "command_phase cfg tm c = Inr c1" "ctl_inv cfg c1"
    "owed c1 = owed c" by (auto simp: succeeds_iff)
  from ScheduleTransaction_ok [OF assms(1) c1(2)] obtain c2 where c2: "ScheduleTransaction cfg c1 = Inr c2"
    "ctl_inv cfg c2" "owed c2 = owed c1" by (auto simp: succeeds_iff)
  let ?q = "(cmd_queue c2)\<lparr>q_clk := q_clk (cmd_queue c2) + 1\<rparr>"
  have "queue_inv m d ?q = queue_inv m d (cmd_queue c2)" "held ?q = held (cmd_queue c2)" for m d
    by (rule queue_inv_cong; simp)+
  then show ?thesis using c1 c2
    by (simp add: ctl_ClockTick_def ctl_inv_def parts_ok_def acct_def queued_def owed_def)
qed

section \<open>Transactions in and out\<close>

text \<open>Adding a transaction makes the controller owe one callback for its address.\<close>

lemma ctl_AddTransaction_ok:
  assumes "ctl_inv cfg c"
  shows "ctl_inv cfg (ctl_AddTransaction cfg tr c)"
    and "owed (ctl_AddTransaction cfg tr c) = add_mset (t_addr tr) (owed c)"
proof -
  let ?c' = "ctl_AddTransaction cfg tr c" and ?a = "t_addr tr"
  have p: "parts_ok cfg ?c'" using assms
    by (simp add: ctl_AddTransaction_def Let_def ctl_inv_def parts_ok_def)
  from assms have a: "acct c {#}" by (simp add: ctl_inv_def)
  note defs = ctl_AddTransaction_def Let_def acct_def queued_def owed_def
  note cnt = mm_count_pos [of ?a "pending_wr_q c"] mm_count_insert [of ?a ?a] mm_count_pos [of ?a "pending_rd_q c"]
  consider (merged) "is_write tr" "mm_count ?a (pending_wr_q c) \<noteq> 0" | (wr) "is_write tr" "mm_count ?a (pending_wr_q c) = 0"
    | (fwd) "\<not> is_write tr" "mm_count ?a (pending_wr_q c) > 0"
    | (rd) "\<not> is_write tr" "mm_count ?a (pending_wr_q c) = 0" "mm_count ?a (pending_rd_q c) = 0"
    | (again) "\<not> is_write tr" "mm_count ?a (pending_wr_q c) = 0" "mm_count ?a (pending_rd_q c) \<noteq> 0" by blast
  then have "acct ?c' {#} \<and> owed ?c' = add_mset ?a (owed c)"
  proof cases
    case merged
    then show ?thesis using a by (simp add: defs)
  next
    case wr
    then have "?a \<notin> fst ` set (pending_wr_q c)" using cnt(1) by simp
    then show ?thesis using a wr
      by (simp add: defs mset_eq_imp_distinct_iff [of "map fst (mm_insert ?a t m)" "?a # map fst m" for t m])
  next
    case fwd
    then show ?thesis using a by (simp add: defs)
  next
    case rd
    then have "?a \<notin> fst ` set (pending_rd_q c)" using cnt(3) by simp
    then show ?thesis using a rd by (simp add: defs mm_count_insert)
  next
    case again
    then have "insert ?a (fst ` set (pending_rd_q c)) = fst ` set (pending_rd_q c)" using cnt(3) by auto
    then show ?thesis using a again by (simp add: defs mm_count_insert)
  qed
  with p show "ctl_inv cfg ?c'" "owed ?c' = add_mset ?a (owed c)" by (simp_all add: ctl_inv_def)
qed

lemma erase_first_find:
  "find P xs = Some x \<Longrightarrow> mset xs = add_mset x (mset (erase_first P xs))"
  by (induction xs) (auto split: if_splits)

lemma find_None_erase: "find P xs = None \<Longrightarrow> erase_first P xs = xs"
  by (induction xs) (auto split: if_splits)

lemma ReturnDoneTrans_ok:
  assumes "ctl_inv cfg c" "ReturnDoneTrans clk c = (r, c')"
  shows "ctl_inv cfg c'"
    and "case r of None \<Rightarrow> c' = c
         | Some (a, w) \<Rightarrow> owed c = add_mset a (owed c') \<and> length (return_queue c) = Suc (length (return_queue c'))"
proof -
  show "ctl_inv cfg c'" using assms
    by (auto simp: ReturnDoneTrans_def Let_def ctl_inv_def parts_ok_def acct_def queued_def split: option.splits)
  show "case r of None \<Rightarrow> c' = c
         | Some (a, w) \<Rightarrow> owed c = add_mset a (owed c') \<and> length (return_queue c) = Suc (length (return_queue c'))"
  proof (cases "find (\<lambda>t. clk \<ge> complete_cycle t) (return_queue c)")
    case None
    then show ?thesis using assms(2) by (auto simp: ReturnDoneTrans_def)
  next
    case (Some t)
    from erase_first_find [OF Some] have m: "mset (return_queue c) =
      add_mset t (mset (erase_first (\<lambda>t. clk \<ge> complete_cycle t) (return_queue c)))" .
    then have "length (return_queue c) = Suc (length (erase_first (\<lambda>t. clk \<ge> complete_cycle t) (return_queue c)))"
      by (metis size_add_mset size_mset)
    with m show ?thesis using assms(2) Some by (auto simp: ReturnDoneTrans_def Let_def owed_def)
  qed
qed

end
