(* ===== verification/Bound_Latency.thy ===== *)
theory Bound_Latency
  imports Memory_Hierarchy
begin

text \<open>
  The latency estimators of \<open>bound_mem_latency.h\<close>: during the bound phase a memory controller
  answers every access with the estimate of the core's estimator, which learns the latencies
  that the detailed simulation gives. All arithmetic is on 32-bit words, as in the code. The
  two strategies that compute with floating point numbers are left out.
\<close>

section \<open>The strategies\<close>

record MaxStrategy =
  max_prev_weave_lat :: u32
  max_lat :: u32

record AverageStrategy =
  avg_sum :: u32
  avg_count :: u32
  avg_prev_weave_lat :: u32

datatype Strategy = Fixed | LastSeen u32 | MaxLat MaxStrategy | Average AverageStrategy

record MemLatencyEstimator =
  initial_latency :: u32
  strategy :: Strategy

definition max_reset :: "MaxStrategy \<Rightarrow> MaxStrategy" where
  "max_reset s = s\<lparr>max_prev_weave_lat := max_lat s, max_lat := 0\<rparr>"

definition max_get :: "u32 \<Rightarrow> MaxStrategy \<Rightarrow> u32" where
  "max_get initial s = (if max_prev_weave_lat s = 0 then initial else max_prev_weave_lat s)"

definition max_update :: "u32 \<Rightarrow> MaxStrategy \<Rightarrow> MaxStrategy" where
  "max_update latency s = (if max_lat s < latency then s\<lparr>max_lat := latency\<rparr> else s)"

definition avg_reset :: "AverageStrategy \<Rightarrow> AverageStrategy" where
  "avg_reset s =
     \<lparr>avg_sum = 0, avg_count = 0,
      avg_prev_weave_lat = (if avg_count s \<noteq> 0 then avg_sum s div avg_count s else avg_prev_weave_lat s)\<rparr>"

definition avg_get :: "u32 \<Rightarrow> AverageStrategy \<Rightarrow> u32" where
  "avg_get initial s = (if avg_prev_weave_lat s \<noteq> 0 then avg_prev_weave_lat s else initial)"

definition avg_update :: "u32 \<Rightarrow> AverageStrategy \<Rightarrow> AverageStrategy" where
  "avg_update latency s = s\<lparr>avg_sum := avg_sum s + latency, avg_count := avg_count s + 1\<rparr>"

section \<open>Estimators\<close>

definition est_reset :: "MemLatencyEstimator \<Rightarrow> MemLatencyEstimator" where
  "est_reset e = e\<lparr>strategy :=
     (case strategy e of
        Fixed \<Rightarrow> Fixed
      | LastSeen l \<Rightarrow> LastSeen l
      | MaxLat s \<Rightarrow> MaxLat (max_reset s)
      | Average s \<Rightarrow> Average (avg_reset s))\<rparr>"

definition getMemLatency :: "MemLatencyEstimator \<Rightarrow> u32" where
  "getMemLatency e =
     (let initial = initial_latency e in
      case strategy e of
        Fixed \<Rightarrow> if initial \<noteq> 0 then initial else 0
      | LastSeen l \<Rightarrow> if l \<noteq> 0 then l else initial
      | MaxLat s \<Rightarrow> max_get initial s
      | Average s \<Rightarrow> avg_get initial s)"

definition updateModel :: "u32 \<Rightarrow> MemLatencyEstimator \<Rightarrow> MemLatencyEstimator" where
  "updateModel latency e = e\<lparr>strategy :=
     (case strategy e of
        Fixed \<Rightarrow> Fixed
      | LastSeen l \<Rightarrow> LastSeen latency
      | MaxLat s \<Rightarrow> MaxLat (max_update latency s)
      | Average s \<Rightarrow> Average (avg_update latency s))\<rparr>"

text \<open>
  \<open>createEstimator\<close>; \<open>None\<close> stands for the windowed and the moving average. A name that is not
  known gives the fixed strategy.
\<close>

definition createEstimator :: "string \<Rightarrow> u32 \<Rightarrow> MemLatencyEstimator option" where
  "createEstimator type initial =
     (let mk = (\<lambda>s. \<lparr>initial_latency = initial, strategy = s\<rparr>) in
      if type = ''avg'' then Some (mk (Average \<lparr>avg_sum = 0, avg_count = 0, avg_prev_weave_lat = 0\<rparr>))
      else if type = ''wavg'' \<or> type = ''windowed'' then None
      else if type = ''mavg'' \<or> type = ''ema'' then None
      else if type = ''lst'' then Some (mk (LastSeen 0))
      else if type = ''fix'' then Some (mk Fixed)
      else if type = ''max'' then Some (mk (MaxLat \<lparr>max_prev_weave_lat = 0, max_lat = 0\<rparr>))
      else Some (mk Fixed))"

section \<open>Phases\<close>

text \<open>
  What a controller does with an estimator: the updates of a weave phase, then the reset by
  the first access of the next bound phase. The contract says which phases it may see and
  what it publishes after them.
\<close>

definition est_phase :: "u32 list \<Rightarrow> MemLatencyEstimator \<Rightarrow> MemLatencyEstimator" where
  "est_phase lats e = est_reset (fold updateModel lats e)"

definition est_phases :: "u32 list list \<Rightarrow> MemLatencyEstimator \<Rightarrow> MemLatencyEstimator" where
  "est_phases phases e = fold est_phase phases e"

locale estimator =
  fixes new :: "u32 \<Rightarrow> MemLatencyEstimator"
    and phase_ok :: "u32 list \<Rightarrow> bool"
    and known :: "u32 list list \<Rightarrow> MemLatencyEstimator \<Rightarrow> bool"
    and publish :: "u32 list list \<Rightarrow> u32"
  assumes new_known: "known [] (new initial)"
    and phase_known: "known phases e \<Longrightarrow> phase_ok lats \<Longrightarrow> known (phases @ [lats]) (est_phase lats e)"
    and known_get: "known phases e \<Longrightarrow>
      getMemLatency e = (if publish phases \<noteq> 0 then publish phases else initial_latency e)"
    and new_initial: "initial_latency (new initial) = initial"
    and publish_range: "list_all phase_ok phases \<Longrightarrow> publish phases \<noteq> 0 \<Longrightarrow>
      \<exists>lats\<in>set phases. (\<exists>l\<in>set lats. l \<le> publish phases) \<and> (\<exists>l\<in>set lats. publish phases \<le> l)"
begin

lemma fold_update_initial: "initial_latency (fold updateModel lats e) = initial_latency e"
  by (induction lats arbitrary: e) (simp_all add: updateModel_def)

lemma est_phases_initial: "initial_latency (est_phases phases e) = initial_latency e"
  unfolding est_phases_def
  by (induction phases arbitrary: e) (simp_all add: est_phase_def est_reset_def fold_update_initial)

lemma phases_known: "list_all phase_ok phases \<Longrightarrow> known phases (est_phases phases (new initial))"
  unfolding est_phases_def
  by (induction phases rule: rev_induct) (simp_all add: new_known phase_known)

lemma estimate:
  assumes "list_all phase_ok phases"
  shows "getMemLatency (est_phases phases (new initial))
           = (if publish phases \<noteq> 0 then publish phases else initial)"
  using known_get [OF phases_known [OF assms, of initial]] by (simp add: est_phases_initial new_initial)

text \<open>An estimate is the initial latency, or within the latencies of one observed phase.\<close>

lemma estimate_bounds:
  assumes "list_all phase_ok phases"
  shows "getMemLatency (est_phases phases (new initial)) = initial \<or>
    (\<exists>lats\<in>set phases. (\<exists>l\<in>set lats. l \<le> getMemLatency (est_phases phases (new initial))) \<and>
       (\<exists>l\<in>set lats. getMemLatency (est_phases phases (new initial)) \<le> l))"
  using publish_range [OF assms] by (simp add: estimate [OF assms])

end

definition new_est :: "Strategy \<Rightarrow> u32 \<Rightarrow> MemLatencyEstimator" where
  "new_est s initial = \<lparr>initial_latency = initial, strategy = s\<rparr>"

subsection \<open>Fixed and last seen\<close>

lemma fold_update_fixed: "strategy e = Fixed \<Longrightarrow> fold updateModel lats e = e"
proof (induction lats)
  case (Cons l lats)
  then have "updateModel l e = e" by (cases e) (simp add: updateModel_def)
  with Cons show ?case by simp
qed simp

interpretation est_fixed: estimator "new_est Fixed" "\<lambda>_. True" "\<lambda>_ e. strategy e = Fixed" "\<lambda>_. 0"
  by unfold_locales (auto simp: new_est_def est_phase_def fold_update_fixed est_reset_def
      getMemLatency_def Let_def)

definition last_seen :: "u32 list list \<Rightarrow> u32" where
  "last_seen phases = (if concat phases = [] then 0 else last (concat phases))"

lemma fold_update_last:
  "strategy e = LastSeen l \<Longrightarrow>
   strategy (fold updateModel lats e) = LastSeen (if lats = [] then l else last lats)"
  by (induction lats arbitrary: e l) (auto simp: updateModel_def)

lemma last_seen_snoc: "last_seen (phases @ [lats]) = (if lats = [] then last_seen phases else last lats)"
  by (simp add: last_seen_def)

lemma last_seen_in: "last_seen phases \<noteq> 0 \<Longrightarrow> \<exists>lats\<in>set phases. last_seen phases \<in> set lats"
  using last_in_set [of "concat phases"] by (auto simp: last_seen_def split: if_splits)

interpretation est_last: estimator "new_est (LastSeen 0)" "\<lambda>_. True"
  "\<lambda>phases e. strategy e = LastSeen (last_seen phases)" last_seen
proof (unfold_locales, goal_cases)
  case (5 phases)
  with last_seen_in [of phases] show ?case by fastforce
qed (auto simp: new_est_def est_phase_def fold_update_last est_reset_def getMemLatency_def last_seen_snoc,
  simp add: last_seen_def)

subsection \<open>Maximum\<close>

definition last_max :: "u32 list list \<Rightarrow> u32" where
  "last_max phases = (if phases = [] then 0 else fold max (last phases) 0)"

lemma fold_max_le: "(x :: u32) \<le> fold max xs x"
  by (induction xs arbitrary: x) (simp, metis fold_simps(2) max.cobounded2 order_trans)

lemma fold_max_ge: "l \<in> set xs \<Longrightarrow> l \<le> fold max xs (x :: u32)"
proof (induction xs arbitrary: x)
  case (Cons y ys)
  have "max y x \<le> fold max ys (max y x)" by (rule fold_max_le)
  with Cons show ?case by auto
qed simp

lemma fold_max_in: "fold max xs (x :: u32) = x \<or> fold max xs x \<in> set xs"
proof (induction xs arbitrary: x)
  case (Cons y ys)
  from Cons [of "max y x"] show ?case by (auto simp: max_def split: if_splits)
qed simp

lemma fold_update_max:
  "strategy e = MaxLat s \<Longrightarrow>
   strategy (fold updateModel lats e) = MaxLat (s\<lparr>max_lat := fold max lats (max_lat s)\<rparr>)"
proof (induction lats arbitrary: e s)
  case (Cons l lats)
  have "strategy (updateModel l e) = MaxLat (s\<lparr>max_lat := max l (max_lat s)\<rparr>)"
    using Cons.prems by (auto simp: updateModel_def max_update_def max_def)
  from Cons.IH [OF this] show ?case by simp
qed simp

interpretation est_max: estimator "new_est (MaxLat \<lparr>max_prev_weave_lat = 0, max_lat = 0\<rparr>)" "\<lambda>_. True"
  "\<lambda>phases e. strategy e = MaxLat \<lparr>max_prev_weave_lat = last_max phases, max_lat = 0\<rparr>" last_max
proof (unfold_locales, goal_cases)
  case (5 phases)
  then have ph: "phases \<noteq> []" "last_max phases = fold max (last phases) 0"
    by (auto simp: last_max_def split: if_splits)
  with 5 fold_max_in [of "last phases" 0] have "last_max phases \<in> set (last phases)" by simp
  with ph(1) show ?case by (intro bexI [of _ "last phases"]) auto
qed (auto simp: new_est_def est_phase_def fold_update_max est_reset_def max_reset_def getMemLatency_def
    max_get_def last_max_def Let_def)

subsection \<open>Average\<close>

definition lat_sum :: "u32 list \<Rightarrow> nat" where
  "lat_sum lats = sum_list (map unat lats)"

definition lat_avg :: "u32 list \<Rightarrow> u32" where
  "lat_avg lats = of_nat (lat_sum lats div length lats)"

definition avg_phase_ok :: "u32 list \<Rightarrow> bool" where
  "avg_phase_ok lats \<longleftrightarrow> lat_sum lats < 2 ^ 32 \<and> length lats < 2 ^ 32"

definition last_avg :: "u32 list list \<Rightarrow> u32" where
  "last_avg phases =
     (let ps = filter (\<lambda>lats. lats \<noteq> []) phases in if ps = [] then 0 else lat_avg (last ps))"

lemma last_avg_snoc: "last_avg (phases @ [lats]) = (if lats = [] then last_avg phases else lat_avg lats)"
  by (simp add: last_avg_def Let_def)

lemma fold_update_avg:
  "strategy e = Average s \<Longrightarrow>
   strategy (fold updateModel lats e) =
     Average (s\<lparr>avg_sum := avg_sum s + of_nat (lat_sum lats), avg_count := avg_count s + of_nat (length lats)\<rparr>)"
proof (induction lats arbitrary: e s)
  case (Cons l lats)
  have "strategy (updateModel l e) = Average (avg_update l s)"
    using Cons.prems by (simp add: updateModel_def)
  from Cons.IH [OF this] show ?case by (simp add: avg_update_def lat_sum_def ac_simps)
qed (simp add: lat_sum_def)

lemma unat_of_nat32: "k < 2 ^ 32 \<Longrightarrow> unat (of_nat k :: u32) = k"
  by (simp add: unat_of_nat take_bit_nat_eq_self)

lemma avg_word:
  assumes "avg_phase_ok lats"
  shows "(of_nat (lat_sum lats) :: u32) div of_nat (length lats) = lat_avg lats"
proof -
  have "lat_sum lats div length lats < 2 ^ 32"
    using assms by (auto simp: avg_phase_ok_def intro: le_less_trans [OF div_le_dividend])
  then have "unat ((of_nat (lat_sum lats) :: u32) div of_nat (length lats)) = unat (lat_avg lats)"
    using assms by (simp add: unat_div unat_of_nat32 avg_phase_ok_def lat_avg_def del: of_nat_eq_of_nat_power_cancel_iff)
  then show ?thesis by (rule unsigned_word_eqI)
qed

lemma sum_list_ge: "\<forall>l\<in>set xs. a \<le> unat l \<Longrightarrow> length xs * a \<le> lat_sum xs"
  by (induction xs) (auto simp: lat_sum_def)

lemma sum_list_le: "\<forall>l\<in>set xs. unat l \<le> a \<Longrightarrow> lat_sum xs \<le> length xs * a"
  by (induction xs) (auto simp: lat_sum_def)

lemma lat_avg_range:
  assumes "avg_phase_ok lats" "lats \<noteq> []"
  shows "\<exists>l\<in>set lats. l \<le> lat_avg lats" "\<exists>l\<in>set lats. lat_avg lats \<le> l"
proof -
  let ?k = "length lats" and ?a = "lat_sum lats div length lats"
  have k: "0 < ?k" using assms(2) by simp
  have a: "unat (lat_avg lats) = ?a"
    using assms(1) by (auto simp: lat_avg_def avg_phase_ok_def intro!: unat_of_nat32 le_less_trans [OF div_le_dividend])
  have dm: "?k * ?a \<le> lat_sum lats" "lat_sum lats < ?k * (?a + 1)"
    using k dividend_less_div_times [of ?k "lat_sum lats"] by (simp_all add: algebra_simps)
  show "\<exists>l\<in>set lats. l \<le> lat_avg lats"
  proof (rule ccontr)
    assume "\<not> ?thesis"
    then have "\<forall>l\<in>set lats. ?a + 1 \<le> unat l" by (auto simp: word_le_nat_alt a not_le)
    with sum_list_ge [of lats "?a + 1"] dm show False by linarith
  qed
  show "\<exists>l\<in>set lats. lat_avg lats \<le> l"
  proof (rule ccontr)
    assume "\<not> ?thesis"
    then have lt: "\<forall>l\<in>set lats. unat l < ?a" by (auto simp: word_le_nat_alt a not_le)
    with assms(2) have "0 < ?a" by (metis gr0I less_nat_zero_code list.set_intros(1) neq_Nil_conv)
    moreover from lt \<open>0 < ?a\<close> have "\<forall>l\<in>set lats. unat l \<le> ?a - 1" by auto
    from sum_list_le [OF this] have "lat_sum lats \<le> ?k * (?a - 1)" .
    moreover have "?k * (?a - 1) < ?k * ?a" using k \<open>0 < ?a\<close> by simp
    ultimately show False using dm(1) by linarith
  qed
qed

lemma last_avg_in: "last_avg phases \<noteq> 0 \<Longrightarrow> \<exists>lats\<in>set phases. lats \<noteq> [] \<and> last_avg phases = lat_avg lats"
proof (induction phases rule: rev_induct)
  case (snoc lats phases)
  then show ?case by (auto simp: last_avg_snoc split: if_splits)
qed (simp add: last_avg_def)

interpretation est_avg: estimator
  "new_est (Average \<lparr>avg_sum = 0, avg_count = 0, avg_prev_weave_lat = 0\<rparr>)" avg_phase_ok
  "\<lambda>phases e. strategy e = Average \<lparr>avg_sum = 0, avg_count = 0, avg_prev_weave_lat = last_avg phases\<rparr>"
  last_avg
proof (unfold_locales, goal_cases)
  case (2 phases e lats)
  have "of_nat (length lats) = (0 :: u32) \<longleftrightarrow> lats = []"
    using 2(2) unat_of_nat32 [of "length lats"] by (auto simp: avg_phase_ok_def)
  with 2 show ?case
    by (simp add: est_phase_def est_reset_def fold_update_avg avg_reset_def last_avg_snoc avg_word)
next
  case (5 phases)
  from last_avg_in [OF 5(2)] obtain lats where l: "lats \<in> set phases" "lats \<noteq> []"
    "last_avg phases = lat_avg lats" by blast
  with 5(1) have "avg_phase_ok lats" by (simp add: list_all_iff)
  from lat_avg_range [OF this l(2)] l show ?case by auto
qed (auto simp: new_est_def getMemLatency_def avg_get_def last_avg_def Let_def)

lemma createEstimator_eq:
  "createEstimator ''fix'' initial = Some (new_est Fixed initial)"
  "createEstimator ''lst'' initial = Some (new_est (LastSeen 0) initial)"
  "createEstimator ''max'' initial = Some (new_est (MaxLat \<lparr>max_prev_weave_lat = 0, max_lat = 0\<rparr>) initial)"
  "createEstimator ''avg'' initial =
     Some (new_est (Average \<lparr>avg_sum = 0, avg_count = 0, avg_prev_weave_lat = 0\<rparr>) initial)"
  by (simp_all add: createEstimator_def new_est_def Let_def)

section \<open>Properties\<close>





text \<open>
  The 32-bit sum of the average strategy overflows: a phase of 8589935 requests of 500
  cycles each publishes the initial latency.
\<close>

theorem average_overflows:
  "\<exists>lats. set lats = {500} \<and> length lats = 8589935 \<and>
     map_option (\<lambda>e. getMemLatency (est_phases [lats] e)) (createEstimator ''avg'' initial) = Some initial"
proof -
  obtain k :: nat where k: "k = 8589935" by blast
  let ?l = "replicate k (500 :: u32)"
  have "lat_sum ?l = k * 500" by (simp add: lat_sum_def sum_list_replicate)
  then have sum: "(of_nat (lat_sum ?l) :: u32) = 204" by (simp add: k)
  have "strategy (fold updateModel ?l (new_est (Average \<lparr>avg_sum = 0, avg_count = 0, avg_prev_weave_lat = 0\<rparr>) initial))
      = Average \<lparr>avg_sum = 204, avg_count = 8589935, avg_prev_weave_lat = 0\<rparr>"
    using fold_update_avg [of "new_est (Average \<lparr>avg_sum = 0, avg_count = 0, avg_prev_weave_lat = 0\<rparr>) initial"
        "\<lparr>avg_sum = 0, avg_count = 0, avg_prev_weave_lat = 0\<rparr>" ?l] sum k
    by (simp add: new_est_def)
  moreover have "initial_latency (fold updateModel ?l e) = initial_latency e" for e
    by (rule est_avg.fold_update_initial)
  moreover have "(204 :: u32) div 8589935 = 0" by simp
  ultimately have "getMemLatency (est_phases [?l]
      (new_est (Average \<lparr>avg_sum = 0, avg_count = 0, avg_prev_weave_lat = 0\<rparr>) initial)) = initial"
    by (simp add: est_phases_def est_phase_def est_reset_def avg_reset_def getMemLatency_def avg_get_def
        new_est_def)
  then show ?thesis using k by (intro exI [of _ ?l]) (simp add: createEstimator_eq)
qed

end
