(* ===== verification/Core_Tracker.thy ===== *)
theory Core_Tracker
  imports Prelude
begin

text \<open>
  \<open>MemCoreTracker\<close> of \<open>mem_core_tracker.h\<close>: per-core latency and queueing statistics of a memory
  controller, kept for the configured cores only. The registration of the statistics is left
  out. Counters are natural numbers.
\<close>

section \<open>The tracker\<close>

record Entry =
  coreId :: nat
  seenIssue :: bool
  lastIssueCycle :: nat
  totalReadLatency :: nat
  totalMemReadLatency :: nat
  readCount :: nat
  avgReadLatencyValue :: nat
  avgMemReadLatencyValue :: nat
  totalWriteLatency :: nat
  writeCount :: nat
  avgWriteLatencyValue :: nat
  totalQueueTime :: nat
  queueCount :: nat
  avgQueueTimeValue :: nat
  totalReadQueueTime :: nat
  readQueueCount :: nat
  avgReadQueueTimeValue :: nat
  totalWriteQueueTime :: nat
  writeQueueCount :: nat
  avgWriteQueueTimeValue :: nat
  maxQueueTimeValue :: nat
  totalInterval :: nat
  intervalCount :: nat
  avgIntervalValue :: nat

definition new_entry :: "nat \<Rightarrow> Entry" where
  "new_entry c =
     \<lparr>coreId = c, seenIssue = False, lastIssueCycle = 0, totalReadLatency = 0, totalMemReadLatency = 0,
      readCount = 0, avgReadLatencyValue = 0, avgMemReadLatencyValue = 0, totalWriteLatency = 0,
      writeCount = 0, avgWriteLatencyValue = 0, totalQueueTime = 0, queueCount = 0,
      avgQueueTimeValue = 0, totalReadQueueTime = 0, readQueueCount = 0, avgReadQueueTimeValue = 0,
      totalWriteQueueTime = 0, writeQueueCount = 0, avgWriteQueueTimeValue = 0, maxQueueTimeValue = 0,
      totalInterval = 0, intervalCount = 0, avgIntervalValue = 0\<rparr>"

record MemCoreTracker =
  enabled :: bool
  entries :: "Entry list"
  index :: "nat \<Rightarrow> nat option"

definition new_tracker :: MemCoreTracker where
  "new_tracker = \<lparr>enabled = False, entries = [], index = (\<lambda>_. None)\<rparr>"

definition getEntry :: "nat \<Rightarrow> MemCoreTracker \<Rightarrow> nat option" where
  "getEntry c t = (if \<not> enabled t then None else index t c)"

text \<open>\<open>configure\<close>: cores out of range and duplicates only give a warning.\<close>

fun configure_loop :: "nat list \<Rightarrow> nat \<Rightarrow> MemCoreTracker \<Rightarrow> MemCoreTracker" where
  "configure_loop [] maxCores t = t"
| "configure_loop (c # cs) maxCores t =
     (if c \<ge> maxCores then configure_loop cs maxCores t
      else if index t c \<noteq> None then configure_loop cs maxCores t
      else configure_loop cs maxCores
             (t\<lparr>index := (index t)(c \<mapsto> length (entries t)), entries := entries t @ [new_entry c]\<rparr>))"

definition configure :: "nat list \<Rightarrow> nat \<Rightarrow> MemCoreTracker \<Rightarrow> MemCoreTracker" where
  "configure cores maxCores t =
     (let t1 = configure_loop cores maxCores \<lparr>enabled = False, entries = [], index = (\<lambda>_. None)\<rparr>
      in t1\<lparr>enabled := length (entries t1) > 0\<rparr>)"

definition avg_of :: "nat \<Rightarrow> nat \<Rightarrow> nat" where
  "avg_of t n = (if n \<noteq> 0 then t div n else 0)"

definition queue_stats :: "nat \<Rightarrow> bool \<Rightarrow> Entry \<Rightarrow> Entry" where
  "queue_stats queueCycles isWrite e =
     (let e1 = e\<lparr>totalQueueTime := totalQueueTime e + queueCycles, queueCount := queueCount e + 1\<rparr>;
          e2 = e1\<lparr>avgQueueTimeValue := avg_of (totalQueueTime e1) (queueCount e1),
                  maxQueueTimeValue := (if queueCycles > maxQueueTimeValue e1 then queueCycles
                                        else maxQueueTimeValue e1)\<rparr>
      in if isWrite then
           (let e3 = e2\<lparr>totalWriteQueueTime := totalWriteQueueTime e2 + queueCycles,
                        writeQueueCount := writeQueueCount e2 + 1\<rparr>
            in e3\<lparr>avgWriteQueueTimeValue := avg_of (totalWriteQueueTime e3) (writeQueueCount e3)\<rparr>)
         else
           (let e3 = e2\<lparr>totalReadQueueTime := totalReadQueueTime e2 + queueCycles,
                        readQueueCount := readQueueCount e2 + 1\<rparr>
            in e3\<lparr>avgReadQueueTimeValue := avg_of (totalReadQueueTime e3) (readQueueCount e3)\<rparr>))"

definition interval_stats :: "nat \<Rightarrow> Entry \<Rightarrow> Entry" where
  "interval_stats issueCycle e =
     (if seenIssue e then
        (if issueCycle \<ge> lastIssueCycle e then
           (let e1 = e\<lparr>totalInterval := totalInterval e + (issueCycle - lastIssueCycle e),
                       intervalCount := intervalCount e + 1\<rparr>
            in e1\<lparr>avgIntervalValue := avg_of (totalInterval e1) (intervalCount e1)\<rparr>)
         else e)
      else e\<lparr>seenIssue := True\<rparr>)"

definition entry_issue :: "nat \<Rightarrow> nat \<Rightarrow> bool \<Rightarrow> Entry \<Rightarrow> Entry" where
  "entry_issue issueCycle enqueueCycle isWrite e =
     (let e1 = (if issueCycle > enqueueCycle then queue_stats (issueCycle - enqueueCycle) isWrite e else e);
          e2 = interval_stats issueCycle e1
      in e2\<lparr>lastIssueCycle := issueCycle\<rparr>)"

definition recordIssue :: "nat \<Rightarrow> nat \<Rightarrow> nat \<Rightarrow> bool \<Rightarrow> MemCoreTracker \<Rightarrow> MemCoreTracker" where
  "recordIssue c issueCycle enqueueCycle isWrite t =
     (case getEntry c t of
        None \<Rightarrow> t
      | Some i \<Rightarrow> t\<lparr>entries := (entries t)[i := entry_issue issueCycle enqueueCycle isWrite (entries t ! i)]\<rparr>)"

definition entry_complete :: "nat \<Rightarrow> nat \<Rightarrow> bool \<Rightarrow> Entry \<Rightarrow> Entry" where
  "entry_complete latency mem_only isWrite e =
     (if isWrite then
        (let e1 = e\<lparr>totalWriteLatency := totalWriteLatency e + latency, writeCount := writeCount e + 1\<rparr>
         in e1\<lparr>avgWriteLatencyValue := avg_of (totalWriteLatency e1) (writeCount e1)\<rparr>)
      else
        (let e1 = e\<lparr>totalReadLatency := totalReadLatency e + latency,
                    totalMemReadLatency := totalMemReadLatency e + mem_only, readCount := readCount e + 1\<rparr>
         in e1\<lparr>avgReadLatencyValue := avg_of (totalReadLatency e1) (readCount e1),
               avgMemReadLatencyValue := avg_of (totalMemReadLatency e1) (readCount e1)\<rparr>))"

definition recordComplete :: "nat \<Rightarrow> nat \<Rightarrow> nat \<Rightarrow> bool \<Rightarrow> MemCoreTracker \<Rightarrow> MemCoreTracker" where
  "recordComplete c latency mem_only isWrite t =
     (case getEntry c t of
        None \<Rightarrow> t
      | Some i \<Rightarrow> t\<lparr>entries := (entries t)[i := entry_complete latency mem_only isWrite (entries t ! i)]\<rparr>)"

section \<open>Runs\<close>

datatype TrackOp =
  Issue nat nat nat bool
| Complete nat nat nat bool

fun track_op :: "TrackOp \<Rightarrow> MemCoreTracker \<Rightarrow> MemCoreTracker" where
  "track_op (Issue c issue enq w) t = recordIssue c issue enq w t"
| "track_op (Complete c lat mlat w) t = recordComplete c lat mlat w t"

fun op_core :: "TrackOp \<Rightarrow> nat" where
  "op_core (Issue c issue enq w) = c"
| "op_core (Complete c lat mlat w) = c"

fun entry_op :: "TrackOp \<Rightarrow> Entry \<Rightarrow> Entry" where
  "entry_op (Issue c issue enq w) e = entry_issue issue enq w e"
| "entry_op (Complete c lat mlat w) e = entry_complete lat mlat w e"

definition tracker_ok :: "MemCoreTracker \<Rightarrow> bool" where
  "tracker_ok t \<longleftrightarrow> (\<forall>c i. index t c = Some i \<longrightarrow> i < length (entries t) \<and> coreId (entries t ! i) = c) \<and>
     (\<forall>i<length (entries t). index t (coreId (entries t ! i)) = Some i)"

lemma entry_op_coreId [simp]: "coreId (entry_op x e) = coreId e"
  by (cases x) (simp_all add: entry_issue_def queue_stats_def interval_stats_def entry_complete_def Let_def)

lemma configure_loop_ok:
  "tracker_ok t \<Longrightarrow> tracker_ok (configure_loop cs maxCores t) \<and>
   dom (index (configure_loop cs maxCores t)) = dom (index t) \<union> (set cs \<inter> {..<maxCores}) \<and>
   (\<forall>e\<in>set (entries (configure_loop cs maxCores t)). e \<in> set (entries t) \<or> (\<exists>c. e = new_entry c))"
proof (induction cs maxCores t rule: configure_loop.induct)
  case (2 c cs maxCores t)
  let ?t = "t\<lparr>index := (index t)(c \<mapsto> length (entries t)), entries := entries t @ [new_entry c]\<rparr>"
  have "tracker_ok ?t" if "index t c = None"
    using 2(4) that unfolding tracker_ok_def
    by (auto simp: nth_append new_entry_def less_Suc_eq)
  note IH = 2(1,2,3)
  consider "c \<ge> maxCores" | "c < maxCores" "index t c \<noteq> None" | "c < maxCores" "index t c = None"
    by linarith
  then show ?case
  proof cases
    case 1
    with IH(1) 2(4) show ?thesis by auto
  next
    case 2
    with IH(2) \<open>tracker_ok t\<close> show ?thesis by auto
  next
    case 3
    then have eq: "configure_loop (c # cs) maxCores t = configure_loop cs maxCores ?t" by simp
    have d: "dom (index ?t) = insert c (dom (index t))" by (auto simp: dom_def)
    have s: "set (entries ?t) = insert (new_entry c) (set (entries t))" by simp
    have "\<not> maxCores \<le> c" "\<not> index t c \<noteq> None" "tracker_ok ?t"
      using 3 \<open>index t c = None \<Longrightarrow> tracker_ok ?t\<close> by auto
    note I = IH(3) [OF this, unfolded d s]
    show ?thesis unfolding eq
    proof (intro conjI)
      show "tracker_ok (configure_loop cs maxCores ?t)" using I by (elim conjE)
      have "insert c (dom (index t)) \<union> set cs \<inter> {..<maxCores} = dom (index t) \<union> set (c # cs) \<inter> {..<maxCores}"
        using 3(1) by auto
      with I show "dom (index (configure_loop cs maxCores ?t)) = dom (index t) \<union> set (c # cs) \<inter> {..<maxCores}"
        by (elim conjE) (rule trans)
      show "\<forall>e\<in>set (entries (configure_loop cs maxCores ?t)). e \<in> set (entries t) \<or> (\<exists>c. e = new_entry c)"
        using I by (elim conjE) blast
    qed
  qed
qed auto

lemma tracker_ok_new: "tracker_ok \<lparr>enabled = b, entries = [], index = (\<lambda>_. None)\<rparr>"
  by (simp add: tracker_ok_def)

lemma track_op_entry:
  assumes "tracker_ok t" "enabled t" "index t c = Some i"
  shows "tracker_ok (track_op x t)" "enabled (track_op x t)" "index (track_op x t) = index t"
    "entries (track_op x t) ! i = (if op_core x = c then entry_op x (entries t ! i) else entries t ! i)"
proof -
  have eq: "track_op x t = (case index t (op_core x) of None \<Rightarrow> t
      | Some j \<Rightarrow> t\<lparr>entries := (entries t)[j := entry_op x (entries t ! j)]\<rparr>)"
    using assms(2)
    by (cases x) (simp_all add: recordIssue_def recordComplete_def getEntry_def split: option.splits)
  show "tracker_ok (track_op x t)" "enabled (track_op x t)" "index (track_op x t) = index t"
    using assms(1,2) unfolding eq tracker_ok_def by (auto simp: nth_upd split: option.splits)
  have i: "i < length (entries t)" "coreId (entries t ! i) = c" using assms(1,3) by (auto simp: tracker_ok_def)
  show "entries (track_op x t) ! i = (if op_core x = c then entry_op x (entries t ! i) else entries t ! i)"
  proof (cases "index t (op_core x)")
    case None
    with assms(3) show ?thesis by (auto simp: eq)
  next
    case (Some j)
    then have "coreId (entries t ! j) = op_core x" using assms(1) by (auto simp: tracker_ok_def)
    with Some i assms(3) show ?thesis by (auto simp: eq nth_upd)
  qed
qed

lemma track_ops_entry:
  assumes "tracker_ok t" "enabled t" "index t c = Some i"
  shows "entries (fold track_op ops t) ! i = fold entry_op (filter (\<lambda>x. op_core x = c) ops) (entries t ! i)"
  using assms
proof (induction ops arbitrary: t)
  case (Cons x ops)
  note s = track_op_entry [OF Cons.prems, of x]
  from Cons.IH [OF s(1,2)] s(3,4) Cons.prems(3) show ?case by simp
qed simp

section \<open>What an entry holds\<close>

text \<open>The latencies completed and the queueing times issued, for reads or writes.\<close>

fun comp_lats :: "bool \<Rightarrow> TrackOp list \<Rightarrow> (nat \<times> nat) list" where
  "comp_lats w [] = []"
| "comp_lats w (Complete c lat mlat w' # xs) =
     (if w' = w then (lat, mlat) # comp_lats w xs else comp_lats w xs)"
| "comp_lats w (Issue c issue enq w' # xs) = comp_lats w xs"

fun queue_times :: "TrackOp list \<Rightarrow> (nat \<times> bool) list" where
  "queue_times [] = []"
| "queue_times (Complete c lat mlat w # xs) = queue_times xs"
| "queue_times (Issue c issue enq w # xs) =
     (if issue > enq then (issue - enq, w) # queue_times xs else queue_times xs)"

lemma comp_lats_snoc: "comp_lats w (xs @ ys) = comp_lats w xs @ comp_lats w ys"
  by (induction w xs rule: comp_lats.induct) auto

lemma queue_times_snoc: "queue_times (xs @ ys) = queue_times xs @ queue_times ys"
  by (induction xs rule: queue_times.induct) auto

definition lat_stats :: "Entry \<Rightarrow> TrackOp list \<Rightarrow> bool" where
  "lat_stats e ops \<longleftrightarrow>
     (let rd = comp_lats False ops; wr = comp_lats True ops
      in readCount e = length rd \<and> totalReadLatency e = sum_list (map fst rd) \<and>
         totalMemReadLatency e = sum_list (map snd rd) \<and>
         writeCount e = length wr \<and> totalWriteLatency e = sum_list (map fst wr) \<and>
         avgReadLatencyValue e = avg_of (sum_list (map fst rd)) (length rd) \<and>
         avgMemReadLatencyValue e = avg_of (sum_list (map snd rd)) (length rd) \<and>
         avgWriteLatencyValue e = avg_of (sum_list (map fst wr)) (length wr))"

definition wait_stats :: "Entry \<Rightarrow> TrackOp list \<Rightarrow> bool" where
  "wait_stats e ops \<longleftrightarrow>
     (let q = map fst (queue_times ops);
          r = map fst (filter (\<lambda>p. \<not> snd p) (queue_times ops));
          w = map fst (filter snd (queue_times ops))
      in totalQueueTime e = sum_list q \<and> queueCount e = length q \<and>
         avgQueueTimeValue e = avg_of (sum_list q) (length q) \<and>
         maxQueueTimeValue e = fold max q 0 \<and>
         totalReadQueueTime e = sum_list r \<and> readQueueCount e = length r \<and>
         avgReadQueueTimeValue e = avg_of (sum_list r) (length r) \<and>
         totalWriteQueueTime e = sum_list w \<and> writeQueueCount e = length w \<and>
         avgWriteQueueTimeValue e = avg_of (sum_list w) (length w))"

lemma entry_lat_stats: "lat_stats (fold entry_op ops (new_entry c)) ops"
proof (induction ops rule: rev_induct)
  case Nil
  then show ?case by (simp add: lat_stats_def new_entry_def avg_of_def)
next
  case (snoc x ops)
  then show ?case
    by (cases x) (auto simp: lat_stats_def comp_lats_snoc entry_issue_def queue_stats_def
        interval_stats_def entry_complete_def Let_def)
qed

lemma entry_wait_stats: "wait_stats (fold entry_op ops (new_entry c)) ops"
proof (induction ops rule: rev_induct)
  case Nil
  then show ?case by (simp add: wait_stats_def new_entry_def avg_of_def)
next
  case (snoc x ops)
  then show ?case
    by (cases x) (auto simp: wait_stats_def queue_times_snoc entry_issue_def queue_stats_def
        interval_stats_def entry_complete_def Let_def max_def)
qed

section \<open>Properties\<close>



end
