(* ===== verification/Mem_Ctrl.thy ===== *)
theory Mem_Ctrl
  imports Multimap Memory_Hierarchy Bound_Latency Core_Tracker
begin

text \<open>
  What the controllers that attach a detailed DRAM simulator share
  (\<open>dramsim3_mem_ctrl.cpp\<close>, \<open>ramulator_mem_ctrl.cpp\<close>, \<open>ramulator2_mem_ctrl.cpp\<close>): access events,
  timing records, the state of a controller, the two clocks, and the contract of the
  simulator behind it.
\<close>

section \<open>Access events\<close>

datatype EventState = EV_INVALID | EV_NONE | EV_QUEUED | EV_RUNNING | EV_HELD | EV_DONE

text \<open>
  An access event with the fields of its base class that the controllers use. The containers
  of a controller hold the events themselves in place of pointers to them: between \<open>enqueue\<close>
  and \<open>done\<close> only the controller changes an event, and it is in one container at a time.
  Only the events of Ramulator 2 have the mark \<open>ae_prefetch\<close>.
\<close>

record AccEvent =
  ae_write :: bool
  ae_prefetch :: bool
  ae_addr :: addr
  ae_coreid :: nat
  minStartCycle :: nat
  boundLatency :: u32
  sCycle :: nat
  issueCycle :: nat
  dramIssueCycle :: nat
  ev_state :: EventState

text \<open>Subtraction of cycles, as \<open>uint64_t\<close> does it.\<close>

definition sub64 :: "nat \<Rightarrow> nat \<Rightarrow> nat" where
  "sub64 a b = (if b \<le> a then a - b else a + 2 ^ 64 - b)"

lemma sub64_le [simp]: "b \<le> a \<Longrightarrow> sub64 a b = a - b"
  by (simp add: sub64_def)

record TimingRecord =
  tr_addr :: addr
  tr_reqCycle :: nat
  tr_respCycle :: nat
  tr_type :: AccessType
  tr_event :: AccEvent

section \<open>The state of a controller\<close>

record MemStats =
  profReads :: nat
  profWrites :: nat
  profIssuedReads :: nat
  profIssuedWrites :: nat
  profTotalAbsError :: nat
  profTotalAbsErrorCounter :: nat
  profTotalRdLat :: nat
  profTotalRdLatBound :: nat
  profTotalWrLat :: nat
  profTotalSkewLat :: nat
  reissuedAccesses :: nat
  queueNotFull :: nat

definition zero_stats :: MemStats where
  "zero_stats = \<lparr>profReads = 0, profWrites = 0, profIssuedReads = 0, profIssuedWrites = 0,
     profTotalAbsError = 0, profTotalAbsErrorCounter = 0, profTotalRdLat = 0, profTotalRdLatBound = 0,
     profTotalWrLat = 0, profTotalSkewLat = 0, reissuedAccesses = 0, queueNotFull = 0\<rparr>"

text \<open>
  The clocks of a controller: picoseconds of the processor and of the memory, and the cycles
  of both.
\<close>

record MemClock =
  cpuPsPerClk :: nat
  dramPsPerClk :: nat
  cpuPs :: nat
  dramPs :: nat
  curCycle :: nat
  dramCycle :: nat

text \<open>
  The state. \<open>wrapper\<close> is the attached simulator; \<open>completions\<close> lists the calls of
  \<open>done\<close>, the events handed back to the contention simulation with their cycles.
\<close>

record 'b MemCtrl =
  estimators :: "MemLatencyEstimator list"
  wrapper :: 'b
  inflightRequests :: "(addr, AccEvent) multimap"
  notQueuedRequests :: "AccEvent list"
  clock :: MemClock
  is_bound_phase :: bool
  mstats :: MemStats
  lstFinished :: nat
  coreTracker :: MemCoreTracker
  completions :: "(AccEvent \<times> nat) list"

section \<open>The two clocks\<close>

text \<open>
  The part of \<open>tick\<close> that decides whether the memory is clocked: the processor advances, the
  memory follows when it is behind, and both counters restart when they meet.
\<close>

definition cpu_step :: "MemClock \<Rightarrow> MemClock" where
  "cpu_step k = k\<lparr>cpuPs := cpuPs k + cpuPsPerClk k, curCycle := curCycle k + 1\<rparr>"

definition mem_behind :: "MemClock \<Rightarrow> bool" where
  "mem_behind k \<longleftrightarrow> cpuPs k > dramPs k"

definition dram_step :: "MemClock \<Rightarrow> MemClock" where
  "dram_step k = k\<lparr>dramPs := dramPs k + dramPsPerClk k, dramCycle := dramCycle k + 1\<rparr>"

definition clock_reset :: "MemClock \<Rightarrow> MemClock" where
  "clock_reset k = (if cpuPs k = dramPs k then k\<lparr>cpuPs := 0, dramPs := 0\<rparr> else k)"

definition clock_tick :: "MemClock \<Rightarrow> MemClock" where
  "clock_tick k = (let k1 = cpu_step k in clock_reset (if mem_behind k1 then dram_step k1 else k1))"

definition new_clock :: "nat \<Rightarrow> nat \<Rightarrow> MemClock" where
  "new_clock c d = \<lparr>cpuPsPerClk = c, dramPsPerClk = d, cpuPs = 0, dramPs = 0, curCycle = 0, dramCycle = 0\<rparr>"

text \<open>
  What the counters mean: with the time \<open>t\<close> that the resets have removed from both, the
  processor has run \<open>curCycle\<close> cycles and the memory \<open>dramCycle\<close>, and the memory is never
  behind and less than one of its cycles ahead.
\<close>

definition clock_ok :: "MemClock \<Rightarrow> bool" where
  "clock_ok k \<longleftrightarrow> cpuPsPerClk k < dramPsPerClk k \<and> cpuPs k \<le> dramPs k \<and>
     (cpuPs k < dramPs k \<or> cpuPs k = 0) \<and> dramPs k < cpuPs k + dramPsPerClk k \<and>
     cpuPsPerClk k dvd cpuPs k \<and> dramPsPerClk k dvd dramPs k \<and>
     (\<exists>t. curCycle k * cpuPsPerClk k = t + cpuPs k \<and> dramCycle k * dramPsPerClk k = t + dramPs k)"

lemma clock_ok_new: "c < d \<Longrightarrow> clock_ok (new_clock c d)"
  by (simp add: clock_ok_def new_clock_def)

lemma clock_tick_frame [simp]:
  "curCycle (clock_tick k) = Suc (curCycle k)" "cpuPsPerClk (clock_tick k) = cpuPsPerClk k"
  "dramPsPerClk (clock_tick k) = dramPsPerClk k"
  by (simp_all add: clock_tick_def Let_def clock_reset_def cpu_step_def dram_step_def)

lemma clock_tick_ok:
  assumes "clock_ok k"
  shows "clock_ok (clock_tick k)"
proof -
  let ?c = "cpuPsPerClk k" and ?d = "dramPsPerClk k"
  from assms obtain t where t: "?c < ?d" "cpuPs k \<le> dramPs k" "dramPs k < cpuPs k + ?d"
    "?c dvd cpuPs k" "?d dvd dramPs k"
    "curCycle k * ?c = t + cpuPs k" "dramCycle k * ?d = t + dramPs k"
    unfolding clock_ok_def by blast
  define k1 where "k1 = (let k1 = cpu_step k in if mem_behind k1 then dram_step k1 else k1)"
  have k1: "cpuPs k1 = cpuPs k + ?c" "curCycle k1 = Suc (curCycle k)" "cpuPsPerClk k1 = ?c"
    "dramPsPerClk k1 = ?d"
    "dramPs k1 = (if cpuPs k + ?c > dramPs k then dramPs k + ?d else dramPs k)"
    "dramCycle k1 = (if cpuPs k + ?c > dramPs k then Suc (dramCycle k) else dramCycle k)"
    by (simp_all add: k1_def Let_def cpu_step_def dram_step_def mem_behind_def)
  have r: "cpuPs k1 \<le> dramPs k1" "dramPs k1 < cpuPs k1 + ?d" "?c dvd cpuPs k1" "?d dvd dramPs k1"
    "curCycle k1 * ?c = t + cpuPs k1" "dramCycle k1 * ?d = t + dramPs k1"
    using t by (simp_all add: k1)
  have ct: "clock_tick k = clock_reset k1" by (simp add: clock_tick_def k1_def Let_def)
  show ?thesis
  proof (cases "cpuPs k1 = dramPs k1")
    case True
    with r t(1) show ?thesis unfolding ct clock_ok_def clock_reset_def by (auto simp: k1(3,4))
  next
    case False
    with r t(1) show ?thesis unfolding ct clock_ok_def clock_reset_def
      by (auto simp: k1(3,4) intro: exI [of _ t])
  qed
qed

text \<open>The memory runs \<open>ceil (n c / d)\<close> cycles in \<open>n\<close> processor cycles.\<close>

lemma clock_ratio:
  assumes "clock_ok k"
  shows "dramCycle k = (curCycle k * cpuPsPerClk k + dramPsPerClk k - 1) div dramPsPerClk k"
proof -
  let ?c = "cpuPsPerClk k" and ?d = "dramPsPerClk k"
  from assms obtain t where t: "?c < ?d" "cpuPs k \<le> dramPs k" "dramPs k < cpuPs k + ?d"
    "curCycle k * ?c = t + cpuPs k" "dramCycle k * ?d = t + dramPs k"
    unfolding clock_ok_def by blast
  have "(curCycle k * ?c + ?d - 1) div ?d = dramCycle k"
  proof (rule div_nat_eqI)
    show "?d * dramCycle k \<le> curCycle k * ?c + ?d - 1" using t by (simp add: mult.commute [of ?d])
    show "curCycle k * ?c + ?d - 1 < ?d * Suc (dramCycle k)"
      using t by (simp add: mult.commute [of ?d])
  qed
  then show ?thesis by simp
qed

text \<open>The counters stay below the least common multiple of the two periods.\<close>

lemma clock_bounded:
  assumes "clock_ok k" "0 < cpuPsPerClk k" "cpuPs k < lcm (cpuPsPerClk k) (dramPsPerClk k)"
  shows "cpuPs (clock_tick k) < lcm (cpuPsPerClk k) (dramPsPerClk k)"
    and "dramPs k \<le> lcm (cpuPsPerClk k) (dramPsPerClk k)"
proof -
  let ?c = "cpuPsPerClk k" and ?d = "dramPsPerClk k"
  let ?l = "lcm ?c ?d"
  from assms(1) have t: "?c < ?d" "cpuPs k \<le> dramPs k" "dramPs k < cpuPs k + ?d"
    "?c dvd cpuPs k" "?d dvd dramPs k"
    unfolding clock_ok_def by blast+
  have below: "x \<le> ?l" if "?d dvd x" "x < cpuPs k + ?d" for x
    using that assms(3) by (intro dvd_less_imp_le [of ?d]) auto
  from below [OF t(5,3)] show "dramPs k \<le> ?l" .
  have step: "cpuPs k + ?c \<le> ?l" using t(4) assms(3) by (intro dvd_less_add) auto
  show "cpuPs (clock_tick k) < ?l"
  proof (cases "cpuPs k + ?c = ?l")
    case False
    with step assms(2,3) show ?thesis
      by (auto simp: clock_tick_def Let_def clock_reset_def cpu_step_def dram_step_def mem_behind_def)
  next
    case True
    have "dramPs (if mem_behind (cpu_step k) then dram_step (cpu_step k) else cpu_step k) = ?l"
    proof (cases "dramPs k < ?l")
      case True
      with t(5) have "dramPs k + ?d \<le> ?l" by (intro dvd_less_add) auto
      moreover have "?l \<le> dramPs k + ?d" using \<open>cpuPs k + ?c = ?l\<close> t(1,2) by simp
      ultimately show ?thesis
        using True \<open>cpuPs k + ?c = ?l\<close> by (simp add: mem_behind_def cpu_step_def dram_step_def)
    next
      case False
      with below [OF t(5,3)] have "dramPs k = ?l" by simp
      then show ?thesis
        using \<open>cpuPs k + ?c = ?l\<close> by (simp add: mem_behind_def cpu_step_def dram_step_def)
    qed
    moreover have "cpuPs (if mem_behind (cpu_step k) then dram_step (cpu_step k) else cpu_step k) = ?l"
      using True by (simp add: cpu_step_def dram_step_def)
    ultimately have "cpuPs (clock_tick k) = 0"
      by (simp add: clock_tick_def Let_def clock_reset_def)
    then show ?thesis using assms(3) by simp
  qed
qed

section \<open>The attached simulator\<close>

text \<open>
  The calls a controller makes on \<open>dramsim3::MemorySystem\<close>. A clock tick may call the
  controller back once for every transaction it completes; the callbacks do not call the
  simulator, so a tick returns the list of their addresses, in order.
\<close>

record 'b backend_ops =
  WillAcceptTransaction :: "addr \<Rightarrow> bool \<Rightarrow> 'b \<Rightarrow> bool"
  AddTransaction :: "addr \<Rightarrow> bool \<Rightarrow> 'b \<Rightarrow> 'b res"
  ClockTick :: "'b \<Rightarrow> (addr list \<times> 'b) res"

text \<open>
  What a controller relies on: a transaction that the simulator would accept can be added and
  is then pending under its address, and a tick calls back for pending transactions only and
  once for each. Nothing is promised on when it does.
\<close>

locale dram_backend =
  fixes be :: "'b backend_ops"
    and binv :: "'b \<Rightarrow> bool"
    and pend :: "'b \<Rightarrow> addr multiset"
  assumes add_ok: "binv b \<Longrightarrow> WillAcceptTransaction be a w b \<Longrightarrow>
      succeeds (AddTransaction be a w b) (\<lambda>b'. binv b' \<and> pend b' = add_mset a (pend b))"
    and tick_ok: "binv b \<Longrightarrow>
      succeeds (ClockTick be b) (\<lambda>(cbs, b'). binv b' \<and> pend b = mset cbs + pend b')"

text \<open>
  A host of the simulator: it sends the transactions that are accepted, and clocks. The result is
  what was sent, what was called back, and the simulator.
\<close>

datatype HostOp = Send addr bool | Clock

fun host_run :: "'b backend_ops \<Rightarrow> HostOp list \<Rightarrow> 'b \<Rightarrow> (addr list \<times> addr list \<times> 'b) res" where
  "host_run be [] b = Inr ([], [], b)"
| "host_run be (Send a w # xs) b =
     (if WillAcceptTransaction be a w b then
        bindR (AddTransaction be a w b) (\<lambda>b1. bindR (host_run be xs b1) (\<lambda>(sent, called, b2). Inr (a # sent, called, b2)))
      else host_run be xs b)"
| "host_run be (Clock # xs) b =
     bindR (ClockTick be b) (\<lambda>(cbs, b1). bindR (host_run be xs b1) (\<lambda>(sent, called, b2). Inr (sent, cbs @ called, b2)))"

context dram_backend
begin

lemma host_run_ok:
  "binv b \<Longrightarrow> succeeds (host_run be xs b) (\<lambda>(sent, called, b').
    binv b' \<and> mset sent + pend b = mset called + pend b')"
proof (induction xs arbitrary: b)
  case (Cons x xs)
  show ?case
  proof (cases x)
    case (Send a w)
    show ?thesis
    proof (cases "WillAcceptTransaction be a w b")
      case True
      from add_ok [OF Cons.prems True] obtain b1 where "AddTransaction be a w b = Inr b1" "binv b1"
        "pend b1 = add_mset a (pend b)" by (auto simp: succeeds_iff)
      moreover from Cons.IH [OF this(2)] obtain sent called b2 where "host_run be xs b1 = Inr (sent, called, b2)"
        "binv b2" "mset sent + pend b1 = mset called + pend b2" by (auto simp: succeeds_iff)
      ultimately show ?thesis using True Send by simp
    next
      case False
      with Cons.IH [OF Cons.prems] Send show ?thesis by simp
    qed
  next
    case Clock
    from tick_ok [OF Cons.prems] obtain cbs b1 where t: "ClockTick be b = Inr (cbs, b1)" "binv b1"
      "pend b = mset cbs + pend b1" by (auto simp: succeeds_iff)
    from Cons.IH [OF t(2)] obtain sent called b2 where r: "host_run be xs b1 = Inr (sent, called, b2)" "binv b2"
      "mset sent + pend b1 = mset called + pend b2" by (auto simp: succeeds_iff)
    have "mset sent + pend b = mset (cbs @ called) + pend b2"
      using r(3) by (simp add: t(3) add.left_commute)
    then show ?thesis using Clock t(1) r(1,2) by simp
  qed
qed simp

end

section \<open>Accesses\<close>

text \<open>The state that an access grants to the child, through the pointer in the request.\<close>

definition granted_state :: "MemReq \<Rightarrow> MESIState" where
  "granted_state req =
     (case req_type req of
        PUTS \<Rightarrow> I
      | PUTX \<Rightarrow> I
      | GETS \<Rightarrow> (if is_flag (flags req) NOEXCL then S else E)
      | GETX \<Rightarrow> M)"

text \<open>The first access after a weave phase starts a bound phase.\<close>

definition start_bound_phase :: "'b MemCtrl \<Rightarrow> 'b MemCtrl" where
  "start_bound_phase m =
     (if \<not> is_bound_phase m then m\<lparr>is_bound_phase := True, estimators := map est_reset (estimators m)\<rparr>
      else m)"

text \<open>
  The rest of an access: the response cycle, and the record for the weave phase when the
  requester's core has an event recorder. What the constructor of the event leaves
  uninitialised is zero here; \<open>simulate\<close> and the issue of the request write it first.
\<close>

definition record_access ::
  "nat \<Rightarrow> bool \<Rightarrow> MemReq \<Rightarrow> 'b MemCtrl \<Rightarrow> (nat \<times> TimingRecord option) res" where
  "record_access lineBits hasRec req m =
     (let respCycle = cycle req in
      if req_type req \<noteq> PUTS \<and> hasRec then
        require (srcId req < length (estimators m)) (Undefined ''estimators'')
          (let a = push_bit lineBits (lineAddr req);
               lat = getMemLatency (estimators m ! srcId req);
               ev = \<lparr>ae_write = (req_type req = PUTX),
                     ae_prefetch = (is_flag (flags req) PREFETCH \<or> is_flag (flags req) PREFETCH_HINT), ae_addr = a, ae_coreid = srcId req,
                     minStartCycle = sub64 (cycle req) 1, boundLatency = lat, sCycle = 0,
                     issueCycle = 0, dramIssueCycle = 0, ev_state = EV_NONE\<rparr>;
               tr = \<lparr>tr_addr = a, tr_reqCycle = sub64 (cycle req) 1, tr_respCycle = respCycle,
                     tr_type = req_type req, tr_event = ev\<rparr>
           in Inr (respCycle + unat lat, Some tr))
      else Inr (respCycle, None))"

text \<open>
  The delay that \<open>OOOCoreRecorder::processAccessRecord\<close> puts between the end of the access in
  the weave phase and the core's response event.
\<close>

definition downDelay :: "nat \<Rightarrow> TimingRecord \<Rightarrow> nat res" where
  "downDelay respCycle tr =
     require (respCycle \<ge> tr_respCycle tr) (AssertFail ''respCycle >= tr.respCycle'')
       (Inr (unat (of_nat (respCycle - tr_respCycle tr) :: u32)))"

end
