(* ===== verification/Dramsim3_Ctrl.thy ===== *)
theory Dramsim3_Ctrl
  imports Mem_Ctrl
begin

text \<open>
  \<open>DRAMsim3Memory\<close> (\<open>dramsim3_mem_ctrl.cpp\<close>): the memory controller object that answers the
  bound phase with an estimate and feeds the accesses to DRAMsim3 in the weave phase. The
  attached simulator is the argument \<open>be\<close>. Dumping a trace to a file is left out.
\<close>

section \<open>Bound phase\<close>

definition DRAMsim3_new ::
  "MemLatencyEstimator list \<Rightarrow> nat list \<Rightarrow> nat \<Rightarrow> nat \<Rightarrow> nat \<Rightarrow> 'b \<Rightarrow> 'b MemCtrl res" where
  "DRAMsim3_new ests trackedCores numCores cpuPsClk dramPsClk b =
     require (cpuPsClk < dramPsClk) (AssertFail ''cpuPsPerClk < dramPsPerClk'')
       (Inr \<lparr>estimators = ests, wrapper = b, inflightRequests = [], notQueuedRequests = [],
             clock = new_clock cpuPsClk dramPsClk, is_bound_phase = False, mstats = zero_stats,
             lstFinished = 0, coreTracker = configure trackedCores numCores new_tracker,
             completions = []\<rparr>)"

definition count_issued :: "AccessType \<Rightarrow> MemStats \<Rightarrow> MemStats" where
  "count_issued t s =
     (if t = GETS \<or> t = GETX then s\<lparr>profIssuedReads := profIssuedReads s + 1\<rparr>
      else if t = PUTX then s\<lparr>profIssuedWrites := profIssuedWrites s + 1\<rparr>
      else s)"

definition dramsim3_access ::
  "nat \<Rightarrow> bool \<Rightarrow> MemReq \<Rightarrow> 'b MemCtrl
     \<Rightarrow> (nat \<times> MESIState \<times> TimingRecord option \<times> 'b MemCtrl) res" where
  "dramsim3_access lineBits hasRec req m =
     (let m1 = start_bound_phase m;
          m2 = m1\<lparr>mstats := count_issued (req_type req) (mstats m1)\<rparr>
      in bindR (record_access lineBits hasRec req m2)
           (\<lambda>(respCycle, tr). Inr (respCycle, granted_state req, tr, m2)))"

section \<open>Weave phase\<close>

text \<open>What \<open>enqueue\<close> and \<open>pushInFlights\<close> both do to hand an event to the simulator.\<close>

definition issue_event ::
  "'b backend_ops \<Rightarrow> AccEvent \<Rightarrow> 'b MemCtrl \<Rightarrow> (AccEvent \<times> 'b MemCtrl) res" where
  "issue_event be e m =
     bindR (AddTransaction be (ae_addr e) (ae_write e) (wrapper m)) (\<lambda>b.
       (let k = clock m;
            e1 = e\<lparr>dramIssueCycle := dramCycle k, issueCycle := curCycle k\<rparr>
        in Inr (e1, m\<lparr>wrapper := b,
             coreTracker := recordIssue (ae_coreid e1) (issueCycle e1) (sCycle e1) (ae_write e1)
                              (coreTracker m)\<rparr>)))"

definition dramsim3_enqueue :: "'b backend_ops \<Rightarrow> AccEvent \<Rightarrow> 'b MemCtrl \<Rightarrow> 'b MemCtrl res" where
  "dramsim3_enqueue be e m =
     (let m0 = (if is_bound_phase m then m\<lparr>is_bound_phase := False\<rparr> else m) in
      if WillAcceptTransaction be (ae_addr e) (ae_write e) (wrapper m0) then
        bindR (issue_event be e m0) (\<lambda>(e1, m1).
          (let m2 = m1\<lparr>mstats := (mstats m1)\<lparr>queueNotFull :=
                  queueNotFull (mstats m1) + sub64 (curCycle (clock m1)) (lstFinished m1)\<rparr>\<rparr>
           in require (ev_state e1 = EV_RUNNING) (AssertFail ''hold'')
                (Inr (m2\<lparr>inflightRequests :=
                   mm_insert (ae_addr e1) (e1\<lparr>ev_state := EV_HELD\<rparr>) (inflightRequests m2)\<rparr>))))
      else
        require (ev_state e = EV_RUNNING) (AssertFail ''hold'')
          (Inr (m0\<lparr>mstats := (mstats m0)\<lparr>reissuedAccesses := reissuedAccesses (mstats m0) + 1\<rparr>,
                   notQueuedRequests := notQueuedRequests m0 @ [e\<lparr>ev_state := EV_HELD\<rparr>]\<rparr>)))"

text \<open>\<open>DRAMsim3AccEvent::simulate\<close>, which the contention simulation calls on a running event.\<close>

definition dramsim3_simulate ::
  "'b backend_ops \<Rightarrow> nat \<Rightarrow> AccEvent \<Rightarrow> 'b MemCtrl \<Rightarrow> 'b MemCtrl res" where
  "dramsim3_simulate be startCycle e m = dramsim3_enqueue be (e\<lparr>sCycle := startCycle\<rparr>) m"

text \<open>
  The error of the estimate in percent. The code multiplies on 64 bits, stores the product in
  an \<open>int32_t\<close>, and divides that by the 64-bit latency, so it is sign-extended first; the
  quotient is stored in the \<open>int32_t\<close> again and sign-extended once more for the counter.
\<close>

definition abs_err64 :: "nat \<Rightarrow> u32 \<Rightarrow> u64" where
  "abs_err64 lat bound =
     (let l = of_nat lat :: u64;
          b = ucast bound :: u64;
          p = 100 * (if l > b then l - b else b - l);
          e = ucast p :: u32;
          q = (scast e :: u64) div l
      in scast (ucast q :: u32))"

definition count_complete :: "bool \<Rightarrow> nat \<Rightarrow> u32 \<Rightarrow> MemStats \<Rightarrow> MemStats" where
  "count_complete isWrite lat bound s =
     (if isWrite then
        s\<lparr>profWrites := profWrites s + 1, profTotalWrLat := profTotalWrLat s + lat\<rparr>
      else
        s\<lparr>profReads := profReads s + 1,
          profTotalRdLat := profTotalRdLat s + lat,
          profTotalRdLatBound := profTotalRdLatBound s + unat bound,
          profTotalAbsError := profTotalAbsError s + unat (abs_err64 lat bound),
          profTotalAbsErrorCounter := profTotalAbsErrorCounter s + 1\<rparr>)"

definition learn :: "nat \<Rightarrow> u32 \<Rightarrow> MemLatencyEstimator list \<Rightarrow> MemLatencyEstimator list" where
  "learn c lat ests = ests[c := updateModel lat (ests ! c)]"

definition onReadComplete :: "addr \<Rightarrow> 'b MemCtrl \<Rightarrow> 'b MemCtrl res" where
  "onReadComplete a m =
     (case mm_find a (inflightRequests m) of
        None \<Rightarrow> Inl (AssertFail ''it != inflightRequests.end()'')
      | Some i \<Rightarrow>
         (let e = snd (inflightRequests m ! i);
              cur = curCycle (clock m);
              lat = sub64 (cur + 1) (sCycle e)
          in require (ae_write e \<or> (of_nat lat :: u64) \<noteq> 0) (Undefined ''absErr /= lat'')
            (require (ae_write e \<or> ae_coreid e < length (estimators m)) (Undefined ''estimators'')
              (require (ev_state e = EV_HELD) (AssertFail ''release'')
                (Inr (m\<lparr>lstFinished := cur,
                        mstats := count_complete (ae_write e) lat (boundLatency e) (mstats m),
                        estimators := (if ae_write e then estimators m
                                       else learn (ae_coreid e) (of_nat lat) (estimators m)),
                        coreTracker := recordComplete (ae_coreid e) lat
                          (sub64 (cur + 1) (issueCycle e)) (ae_write e) (coreTracker m),
                        completions := completions m @ [(e\<lparr>ev_state := EV_DONE\<rparr>, cur + 1)],
                        inflightRequests := mm_erase i (inflightRequests m)\<rparr>))))))"

text \<open>The callbacks of one tick of the simulator; \<open>onWriteComplete\<close> does the same as
  \<open>onReadComplete\<close>.\<close>

fun run_callbacks :: "addr list \<Rightarrow> 'b MemCtrl \<Rightarrow> 'b MemCtrl res" where
  "run_callbacks [] m = Inr m"
| "run_callbacks (a # as) m = bindR (onReadComplete a m) (run_callbacks as)"

text \<open>
  \<open>pushInFlights\<close>: the loop over the waiting events, with the number of tries so far. It
  returns the events that keep waiting.
\<close>

fun push_loop ::
  "'b backend_ops \<Rightarrow> nat \<Rightarrow> AccEvent list \<Rightarrow> 'b MemCtrl \<Rightarrow> (AccEvent list \<times> 'b MemCtrl) res" where
  "push_loop be tries [] m = Inr ([], m)"
| "push_loop be tries (e # es) m =
     (if tries = 8 then Inr (e # es, m)
      else if sCycle e > curCycle (clock m) \<or>
              \<not> WillAcceptTransaction be (ae_addr e) (ae_write e) (wrapper m) then
        bindR (push_loop be (tries + 1) es m) (\<lambda>(r, m'). Inr (e # r, m'))
      else
        (let m1 = (if \<not> ae_write e then m\<lparr>mstats := (mstats m)\<lparr>profTotalSkewLat :=
                      profTotalSkewLat (mstats m) + sub64 (curCycle (clock m)) (sCycle e)\<rparr>\<rparr> else m)
         in bindR (issue_event be e m1) (\<lambda>(e1, m2).
              push_loop be (tries + 1) es
                (m2\<lparr>inflightRequests := mm_insert (ae_addr e1) e1 (inflightRequests m2)\<rparr>))))"

definition pushInFlights :: "'b backend_ops \<Rightarrow> 'b MemCtrl \<Rightarrow> 'b MemCtrl res" where
  "pushInFlights be m =
     bindR (push_loop be 0 (notQueuedRequests m) m) (\<lambda>(r, m'). Inr (m'\<lparr>notQueuedRequests := r\<rparr>))"

text \<open>\<open>tick\<close> returns the cycles to its next call; only the process 0 drives the simulator.\<close>

definition dramsim3_tick :: "'b backend_ops \<Rightarrow> nat \<Rightarrow> 'b MemCtrl \<Rightarrow> (nat \<times> 'b MemCtrl) res" where
  "dramsim3_tick be procIdx m =
     (if procIdx \<noteq> 0 then Inr (1, m)
      else bindR (pushInFlights be m) (\<lambda>m1.
        (let m2 = m1\<lparr>clock := cpu_step (clock m1)\<rparr> in
         bindR (if mem_behind (clock m2) then
                  bindR (ClockTick be (wrapper m2)) (\<lambda>(cbs, b).
                    bindR (run_callbacks cbs (m2\<lparr>wrapper := b\<rparr>)) (\<lambda>m3.
                      Inr (m3\<lparr>clock := dram_step (clock m3)\<rparr>)))
                else Inr m2)
           (\<lambda>m4. Inr (1, m4\<lparr>clock := clock_reset (clock m4)\<rparr>)))))"

section \<open>Histories\<close>

datatype CtrlOp =
  Access MemReq bool
| Simulate AccEvent nat
| Tick

fun ctrl_op :: "'b backend_ops \<Rightarrow> nat \<Rightarrow> CtrlOp \<Rightarrow> 'b MemCtrl \<Rightarrow> 'b MemCtrl res" where
  "ctrl_op be lineBits (Access req hasRec) m =
     bindR (dramsim3_access lineBits hasRec req m) (\<lambda>(resp, st, tr, m'). Inr m')"
| "ctrl_op be lineBits (Simulate e startCycle) m = dramsim3_simulate be startCycle e m"
| "ctrl_op be lineBits Tick m = bindR (dramsim3_tick be 0 m) (\<lambda>(d, m'). Inr m')"

fun ctrl_run :: "'b backend_ops \<Rightarrow> nat \<Rightarrow> CtrlOp list \<Rightarrow> 'b MemCtrl \<Rightarrow> 'b MemCtrl res" where
  "ctrl_run be lineBits [] m = Inr m"
| "ctrl_run be lineBits (x # xs) m = bindR (ctrl_op be lineBits x m) (ctrl_run be lineBits xs)"

text \<open>
  The histories that the rest of the program produces: the sources of requests are cores, the
  contention simulation runs an event that it has just set to running, of a core, and at a
  cycle that the controller's clock has reached, since the controller ticks in every cycle.
\<close>

fun ops_ok :: "nat \<Rightarrow> nat \<Rightarrow> CtrlOp list \<Rightarrow> bool" where
  "ops_ok n now [] = True"
| "ops_ok n now (Access req hasRec # xs) = (srcId req < n \<and> ops_ok n now xs)"
| "ops_ok n now (Simulate e c # xs) =
     (ae_coreid e < n \<and> ev_state e = EV_RUNNING \<and> c \<le> now \<and> ops_ok n now xs)"
| "ops_ok n now (Tick # xs) = (now + 2 < 2 ^ 64 \<and> ops_ok n (now + 1) xs)"

section \<open>The invariant\<close>

definition waiting_ok :: "nat \<Rightarrow> nat \<Rightarrow> AccEvent \<Rightarrow> bool" where
  "waiting_ok n now e \<longleftrightarrow> ev_state e = EV_HELD \<and> ae_coreid e < n \<and> sCycle e \<le> now"

definition flying_ok :: "nat \<Rightarrow> nat \<Rightarrow> addr \<times> AccEvent \<Rightarrow> bool" where
  "flying_ok n now p \<longleftrightarrow> ae_addr (snd p) = fst p \<and> waiting_ok n now (snd p) \<and>
     sCycle (snd p) \<le> issueCycle (snd p) \<and> issueCycle (snd p) \<le> now"

definition done_ok :: "nat \<Rightarrow> AccEvent \<times> nat \<Rightarrow> bool" where
  "done_ok now p \<longleftrightarrow> ev_state (fst p) = EV_DONE \<and> sCycle (fst p) \<le> issueCycle (fst p) \<and>
     issueCycle (fst p) < snd p \<and> snd p \<le> now + 1"

definition reads_of :: "(AccEvent \<times> nat) list \<Rightarrow> (AccEvent \<times> nat) list" where
  "reads_of cs = filter (\<lambda>p. \<not> ae_write (fst p)) cs"

definition writes_of :: "(AccEvent \<times> nat) list \<Rightarrow> (AccEvent \<times> nat) list" where
  "writes_of cs = filter (\<lambda>p. ae_write (fst p)) cs"

definition total_lat :: "(AccEvent \<times> nat) list \<Rightarrow> nat" where
  "total_lat cs = sum_list (map (\<lambda>p. snd p - sCycle (fst p)) cs)"

definition stats_ok :: "(AccEvent \<times> nat) list \<Rightarrow> MemStats \<Rightarrow> bool" where
  "stats_ok cs s \<longleftrightarrow> profReads s = length (reads_of cs) \<and> profWrites s = length (writes_of cs) \<and>
     profTotalRdLat s = total_lat (reads_of cs) \<and> profTotalWrLat s = total_lat (writes_of cs) \<and>
     profTotalRdLatBound s = sum_list (map (\<lambda>p. unat (boundLatency (fst p))) (reads_of cs)) \<and>
     profTotalAbsErrorCounter s = profReads s"

text \<open>What identifies an event: all that is fixed when the contention simulation runs it.\<close>

definition ev_key :: "AccEvent \<Rightarrow> bool \<times> addr \<times> nat \<times> nat \<times> u32 \<times> nat" where
  "ev_key e = (ae_write e, ae_addr e, ae_coreid e, minStartCycle e, boundLatency e, sCycle e)"

definition flying_keys :: "'b MemCtrl \<Rightarrow> (bool \<times> addr \<times> nat \<times> nat \<times> u32 \<times> nat) multiset" where
  "flying_keys m = mset (map (ev_key \<circ> fst) (completions m)) + mset (map (ev_key \<circ> snd) (inflightRequests m))"

definition all_keys :: "'b MemCtrl \<Rightarrow> (bool \<times> addr \<times> nat \<times> nat \<times> u32 \<times> nat) multiset" where
  "all_keys m = flying_keys m + mset (map ev_key (notQueuedRequests m))"

fun op_keys :: "CtrlOp list \<Rightarrow> (bool \<times> addr \<times> nat \<times> nat \<times> u32 \<times> nat) multiset" where
  "op_keys [] = {#}"
| "op_keys (Simulate e c # xs) = add_mset (ev_key (e\<lparr>sCycle := c\<rparr>)) (op_keys xs)"
| "op_keys (Access req hasRec # xs) = op_keys xs"
| "op_keys (Tick # xs) = op_keys xs"

fun ticks :: "CtrlOp list \<Rightarrow> nat" where
  "ticks [] = 0"
| "ticks (Tick # xs) = Suc (ticks xs)"
| "ticks (Simulate e c # xs) = ticks xs"
| "ticks (Access req hasRec # xs) = ticks xs"

lemma waiting_ok_mono: "waiting_ok n now e \<Longrightarrow> now \<le> now' \<Longrightarrow> waiting_ok n now' e"
  by (simp add: waiting_ok_def)

lemma flying_ok_mono: "flying_ok n now p \<Longrightarrow> now \<le> now' \<Longrightarrow> flying_ok n now' p"
  by (auto simp: flying_ok_def waiting_ok_def)

lemma done_ok_mono: "done_ok now p \<Longrightarrow> now \<le> now' \<Longrightarrow> done_ok now' p"
  by (auto simp: done_ok_def)

lemma ev_key_upd [simp]:
  "ev_key (e\<lparr>ev_state := s\<rparr>) = ev_key e" "ev_key (e\<lparr>issueCycle := i\<rparr>) = ev_key e"
  "ev_key (e\<lparr>dramIssueCycle := d\<rparr>) = ev_key e"
  by (simp_all add: ev_key_def)

text \<open>
  The part of the invariant that needs neither the clocks nor the waiting events, at a given
  cycle.
\<close>

definition core_inv :: "('b \<Rightarrow> bool) \<Rightarrow> ('b \<Rightarrow> addr multiset) \<Rightarrow> nat \<Rightarrow> nat \<Rightarrow> 'b MemCtrl \<Rightarrow> bool" where
  "core_inv binv pend n now m \<longleftrightarrow> binv (wrapper m) \<and>
     pend (wrapper m) = mset (map fst (inflightRequests m)) \<and>
     list_all (flying_ok n now) (inflightRequests m) \<and> list_all (done_ok now) (completions m) \<and>
     stats_ok (completions m) (mstats m) \<and> length (estimators m) = n"

definition ctrl_inv :: "('b \<Rightarrow> bool) \<Rightarrow> ('b \<Rightarrow> addr multiset) \<Rightarrow> nat \<Rightarrow> 'b MemCtrl \<Rightarrow> bool" where
  "ctrl_inv binv pend n m \<longleftrightarrow> core_inv binv pend n (curCycle (clock m)) m \<and>
     list_all (waiting_ok n (curCycle (clock m))) (notQueuedRequests m) \<and> clock_ok (clock m)"

lemma core_inv_later:
  "core_inv binv pend n now m \<Longrightarrow> now \<le> now' \<Longrightarrow> core_inv binv pend n now' m"
  unfolding core_inv_def by (auto simp: list_all_iff intro: flying_ok_mono done_ok_mono)

lemma list_all_mm_insert [simp]: "list_all P (mm_insert k v xs) \<longleftrightarrow> P (k, v) \<and> list_all P xs"
  by (auto simp: list_all_iff)

lemma mset_map_mm_insert [simp]: "mset (map f (mm_insert k v xs)) = add_mset (f (k, v)) (mset (map f xs))"
  by (metis image_mset_add_mset mset_map mset_mm_insert)

text \<open>An event that goes in flight.\<close>

lemma core_inv_insert:
  assumes "core_inv binv pend n now m" "flying_ok n now (ae_addr e, e)"
    and "binv b" "pend b = add_mset (ae_addr e) (pend (wrapper m))"
  shows "core_inv binv pend n now
    (m\<lparr>wrapper := b, coreTracker := t, inflightRequests := mm_insert (ae_addr e) e (inflightRequests m)\<rparr>)"
  using assms by (simp add: core_inv_def)

lemma stats_ok_skew [simp]:
  "stats_ok cs (s\<lparr>profTotalSkewLat := x\<rparr>) = stats_ok cs s"
  "stats_ok cs (s\<lparr>queueNotFull := x\<rparr>) = stats_ok cs s"
  "stats_ok cs (s\<lparr>reissuedAccesses := x\<rparr>) = stats_ok cs s"
  "stats_ok cs (count_issued t s) = stats_ok cs s"
  by (simp_all add: stats_ok_def count_issued_def)

context dram_backend
begin

lemma issue_event_ok:
  assumes "binv (wrapper m)" "WillAcceptTransaction be (ae_addr e) (ae_write e) (wrapper m)"
  shows "succeeds (issue_event be e m) (\<lambda>(e1, m1).
    e1 = e\<lparr>dramIssueCycle := dramCycle (clock m), issueCycle := curCycle (clock m)\<rparr> \<and>
    (\<exists>b t. m1 = m\<lparr>wrapper := b, coreTracker := t\<rparr> \<and> binv b \<and>
       pend b = add_mset (ae_addr e) (pend (wrapper m))))"
  using add_ok [OF assms] unfolding issue_event_def
  by (auto simp: Let_def succeeds_iff bindR_eq_Inr_iff)

lemma push_loop_ok:
  assumes "core_inv binv pend n (curCycle (clock m)) m"
    and "list_all (waiting_ok n (curCycle (clock m))) es"
  shows "succeeds (push_loop be tries es m) (\<lambda>(r, m'). core_inv binv pend n (curCycle (clock m)) m' \<and>
    list_all (waiting_ok n (curCycle (clock m))) r \<and> clock m' = clock m \<and>
    flying_keys m' + mset (map ev_key r) = flying_keys m + mset (map ev_key es))"
  using assms
proof (induction es arbitrary: tries m)
  case (Cons e es)
  let ?now = "curCycle (clock m)"
  from Cons.prems(2) have e: "waiting_ok n ?now e" and es: "list_all (waiting_ok n ?now) es" by simp_all
  consider "tries = 8" | "tries \<noteq> 8" "sCycle e > ?now \<or> \<not> WillAcceptTransaction be (ae_addr e) (ae_write e) (wrapper m)"
    | "tries \<noteq> 8" "\<not> (sCycle e > ?now \<or> \<not> WillAcceptTransaction be (ae_addr e) (ae_write e) (wrapper m))"
    by blast
  then show ?case
  proof cases
    case 1
    with Cons.prems show ?thesis by simp
  next
    case 2
    with Cons.IH [OF Cons.prems(1) es, of "tries + 1"] e show ?thesis
      by (auto elim!: succeeds_mono)
  next
    case 3
    define m1 where "m1 = (if \<not> ae_write e then m\<lparr>mstats := (mstats m)\<lparr>profTotalSkewLat :=
      profTotalSkewLat (mstats m) + sub64 ?now (sCycle e)\<rparr>\<rparr> else m)"
    have m1: "core_inv binv pend n ?now m1" "clock m1 = clock m" "wrapper m1 = wrapper m"
      "flying_keys m1 = flying_keys m"
      using Cons.prems(1) by (simp_all add: m1_def core_inv_def flying_keys_def)
    have "binv (wrapper m1)" "WillAcceptTransaction be (ae_addr e) (ae_write e) (wrapper m1)"
      using m1 3 by (simp_all add: core_inv_def)
    from issue_event_ok [OF this] obtain e1 m2 b t where i: "issue_event be e m1 = Inr (e1, m2)"
      "e1 = e\<lparr>dramIssueCycle := dramCycle (clock m), issueCycle := ?now\<rparr>"
      "m2 = m1\<lparr>wrapper := b, coreTracker := t\<rparr>" "binv b" "pend b = add_mset (ae_addr e) (pend (wrapper m1))"
      by (auto simp: succeeds_iff m1(2))
    define m3 where "m3 = m2\<lparr>inflightRequests := mm_insert (ae_addr e1) e1 (inflightRequests m2)\<rparr>"
    have f: "flying_ok n ?now (ae_addr e1, e1)" using e by (simp add: flying_ok_def i(2) waiting_ok_def)
    have "m3 = m1\<lparr>wrapper := b, coreTracker := t, inflightRequests := mm_insert (ae_addr e1) e1 (inflightRequests m1)\<rparr>"
      by (simp add: m3_def i(3))
    with core_inv_insert [OF m1(1) f i(4)] i(2,5) have inv3: "core_inv binv pend n ?now m3" by simp
    have c3: "clock m3 = clock m" by (simp add: m3_def i(3) m1(2))
    have "flying_keys m3 = add_mset (ev_key e) (flying_keys m1)"
      by (simp add: m3_def i(2,3) flying_keys_def)
    then have k3: "flying_keys m3 = add_mset (ev_key e) (flying_keys m)" by (simp only: m1(4))
    have eq: "push_loop be tries (e # es) m = push_loop be (tries + 1) es m3"
      using 3 i(1) by (simp add: m1_def [symmetric] m3_def)
    from Cons.IH [of m3 "tries + 1"] inv3 es c3 k3 show ?thesis
      unfolding eq by (auto elim!: succeeds_mono)
  qed
qed simp

lemma pushInFlights_ok:
  assumes "ctrl_inv binv pend n m"
  shows "succeeds (pushInFlights be m) (\<lambda>m'. ctrl_inv binv pend n m' \<and> all_keys m' = all_keys m \<and>
    clock m' = clock m)"
  using push_loop_ok [of n m "notQueuedRequests m" 0] assms unfolding pushInFlights_def
  by (auto simp: ctrl_inv_def all_keys_def core_inv_def flying_keys_def elim!: succeeds_mono)

lemma enqueue_ok:
  assumes "ctrl_inv binv pend n m" "ev_state e = EV_RUNNING" "ae_coreid e < n"
    and "sCycle e \<le> curCycle (clock m)"
  shows "succeeds (dramsim3_enqueue be e m) (\<lambda>m'. ctrl_inv binv pend n m' \<and>
    all_keys m' = add_mset (ev_key e) (all_keys m) \<and> clock m' = clock m)"
proof -
  let ?now = "curCycle (clock m)"
  define m0 where "m0 = (if is_bound_phase m then m\<lparr>is_bound_phase := False\<rparr> else m)"
  have m0: "core_inv binv pend n ?now m0" "list_all (waiting_ok n ?now) (notQueuedRequests m0)"
    "clock_ok (clock m0)" "clock m0 = clock m" "wrapper m0 = wrapper m" "flying_keys m0 = flying_keys m"
    "notQueuedRequests m0 = notQueuedRequests m"
    using assms(1) by (auto simp: m0_def ctrl_inv_def core_inv_def flying_keys_def)
  show ?thesis
  proof (cases "WillAcceptTransaction be (ae_addr e) (ae_write e) (wrapper m0)")
    case True
    have "binv (wrapper m0)" using m0(1) by (simp add: core_inv_def)
    from issue_event_ok [OF this True] obtain e1 m1 b t where i: "issue_event be e m0 = Inr (e1, m1)"
      "e1 = e\<lparr>dramIssueCycle := dramCycle (clock m), issueCycle := ?now\<rparr>"
      "m1 = m0\<lparr>wrapper := b, coreTracker := t\<rparr>" "binv b" "pend b = add_mset (ae_addr e) (pend (wrapper m0))"
      by (auto simp: succeeds_iff m0(4))
    let ?e = "e1\<lparr>ev_state := EV_HELD\<rparr>"
    define m2 where "m2 = m1\<lparr>mstats := (mstats m1)\<lparr>queueNotFull :=
      queueNotFull (mstats m1) + sub64 (curCycle (clock m1)) (lstFinished m1)\<rparr>,
      inflightRequests := mm_insert (ae_addr e1) ?e (inflightRequests m1)\<rparr>"
    have f: "flying_ok n ?now (ae_addr e, ?e)" using assms(2-4) by (simp add: flying_ok_def i(2) waiting_ok_def)
    have inv2: "core_inv binv pend n ?now m2" using m0(1) f i(4,5)
      by (simp add: m2_def i(2,3) core_inv_def)
    have "flying_keys m2 = add_mset (ev_key e) (flying_keys m0)"
      by (simp add: m2_def i(2,3) flying_keys_def)
    then have k: "all_keys m2 = add_mset (ev_key e) (all_keys m)"
      by (simp add: all_keys_def m0(6) m2_def i(3) m0(7))
    have "dramsim3_enqueue be e m = Inr m2"
      using True i(1) assms(2) unfolding dramsim3_enqueue_def m0_def [symmetric] Let_def
      by (simp add: m2_def i(2))
    with inv2 k m0 show ?thesis by (simp add: ctrl_inv_def m2_def i(3))
  next
    case False
    have "waiting_ok n ?now (e\<lparr>ev_state := EV_HELD\<rparr>)" using assms(3,4) by (simp add: waiting_ok_def)
    moreover have "flying_keys (m0\<lparr>mstats := s, notQueuedRequests := q\<rparr>) = flying_keys m0" for s q
      by (simp add: flying_keys_def)
    ultimately show ?thesis
      using False assms(2) m0 unfolding dramsim3_enqueue_def m0_def [symmetric] Let_def
      by (simp add: ctrl_inv_def core_inv_def all_keys_def)
  qed
qed

lemma onReadComplete_ok:
  assumes "list_all (flying_ok n (curCycle (clock m))) (inflightRequests m)"
    and "a \<in> set (map fst (inflightRequests m))"
    and "list_all (done_ok (curCycle (clock m))) (completions m)" "stats_ok (completions m) (mstats m)"
    and "length (estimators m) = n" "curCycle (clock m) + 1 < 2 ^ 64"
  shows "succeeds (onReadComplete a m) (\<lambda>m'.
    list_all (flying_ok n (curCycle (clock m))) (inflightRequests m') \<and>
    list_all (done_ok (curCycle (clock m))) (completions m') \<and> stats_ok (completions m') (mstats m') \<and>
    length (estimators m') = n \<and> clock m' = clock m \<and> wrapper m' = wrapper m \<and>
    notQueuedRequests m' = notQueuedRequests m \<and>
    mset (map fst (inflightRequests m)) = add_mset a (mset (map fst (inflightRequests m'))) \<and>
    flying_keys m' = flying_keys m)"
proof -
  let ?now = "curCycle (clock m)" and ?q = "inflightRequests m"
  from assms(2) obtain i where f: "mm_find a ?q = Some i"
    using mm_find_None [of a ?q] by (cases "mm_find a ?q") auto
  from mm_find_Some [OF f] have i: "i < length ?q" "fst (?q ! i) = a" by auto
  define e where "e = snd (?q ! i)"
  from i assms(1) have e: "flying_ok n ?now (a, e)" by (auto simp: list_all_length e_def)
  then have e': "ev_state e = EV_HELD" "ae_coreid e < n" "sCycle e \<le> ?now" "sCycle e \<le> issueCycle e"
    "issueCycle e \<le> ?now" by (auto simp: flying_ok_def waiting_ok_def)
  obtain l where l: "l = ?now + 1 - sCycle e" "sub64 (?now + 1) (sCycle e) = l" using e'(3) by simp
  then have "0 < l" "l < 2 ^ 64" using assms(6) e'(3) by auto
  then have lat: "(of_nat l :: u64) \<noteq> 0" by (simp add: word_of_nat_eq_0_iff nat_dvd_not_less)
  define m' where "m' = m\<lparr>lstFinished := ?now,
      mstats := count_complete (ae_write e) l (boundLatency e) (mstats m),
      estimators := (if ae_write e then estimators m
                     else learn (ae_coreid e) (of_nat l) (estimators m)),
      coreTracker := recordComplete (ae_coreid e) l
        (sub64 (?now + 1) (issueCycle e)) (ae_write e) (coreTracker m),
      completions := completions m @ [(e\<lparr>ev_state := EV_DONE\<rparr>, ?now + 1)],
      inflightRequests := mm_erase i ?q\<rparr>"
  have eq: "onReadComplete a m = Inr m'"
    using lat e'(1,2) assms(5) unfolding onReadComplete_def f
    by (simp add: e_def [symmetric] Let_def m'_def l(2) [unfolded Suc_eq_plus1 [symmetric]])
  have q: "mset ?q = add_mset (a, e) (mset (mm_erase i ?q))"
  proof -
    have "?q ! i = (a, e)" using i(2) unfolding e_def by (metis surjective_pairing)
    with mset_mm_erase [OF i(1)] show ?thesis by simp
  qed
  then have sub: "set (mm_erase i ?q) \<subseteq> set ?q" by (metis set_mset_add_mset_insert set_mset_mset subset_insertI)
  have "mset (map fst ?q) = add_mset a (mset (map fst (mm_erase i ?q)))"
    "mset (map (ev_key \<circ> snd) ?q) = add_mset (ev_key e) (mset (map (ev_key \<circ> snd) (mm_erase i ?q)))"
    using q by (simp_all only: mset_map image_mset_add_mset fst_conv snd_conv comp_apply)
  moreover have "stats_ok (completions m') (mstats m')"
    using assms(4) by (auto simp: m'_def stats_ok_def count_complete_def reads_of_def writes_of_def
        total_lat_def l(1))
  moreover have "done_ok ?now (e\<lparr>ev_state := EV_DONE\<rparr>, ?now + 1)" using e' by (simp add: done_ok_def)
  ultimately show ?thesis
    using assms(1,3,5) sub unfolding eq
    by (auto simp: m'_def flying_keys_def list_all_iff learn_def)
qed

lemma run_callbacks_ok:
  assumes "list_all (flying_ok n (curCycle (clock m))) (inflightRequests m)"
    and "mset as \<subseteq># mset (map fst (inflightRequests m))"
    and "list_all (done_ok (curCycle (clock m))) (completions m)" "stats_ok (completions m) (mstats m)"
    and "length (estimators m) = n" "curCycle (clock m) + 1 < 2 ^ 64"
  shows "succeeds (run_callbacks as m) (\<lambda>m'.
    list_all (flying_ok n (curCycle (clock m))) (inflightRequests m') \<and>
    list_all (done_ok (curCycle (clock m))) (completions m') \<and> stats_ok (completions m') (mstats m') \<and>
    length (estimators m') = n \<and> clock m' = clock m \<and> wrapper m' = wrapper m \<and>
    notQueuedRequests m' = notQueuedRequests m \<and>
    mset (map fst (inflightRequests m)) = mset as + mset (map fst (inflightRequests m')) \<and>
    flying_keys m' = flying_keys m)"
  using assms
proof (induction as arbitrary: m)
  case (Cons a as)
  then have "a \<in> set (map fst (inflightRequests m))"
    by (metis insert_subset_eq_iff mset.simps(2) set_mset_mset)
  from onReadComplete_ok [OF Cons.prems(1) this Cons.prems(3-6)] obtain m1 where
    m1: "onReadComplete a m = Inr m1" "list_all (flying_ok n (curCycle (clock m))) (inflightRequests m1)"
    "list_all (done_ok (curCycle (clock m))) (completions m1)" "stats_ok (completions m1) (mstats m1)"
    "length (estimators m1) = n" "clock m1 = clock m" "wrapper m1 = wrapper m"
    "notQueuedRequests m1 = notQueuedRequests m" "flying_keys m1 = flying_keys m"
    "mset (map fst (inflightRequests m)) = add_mset a (mset (map fst (inflightRequests m1)))"
    unfolding succeeds_iff by blast
  then have sub: "mset as \<subseteq># mset (map fst (inflightRequests m1))" using Cons.prems(2) by simp
  have "succeeds (run_callbacks as m1) (\<lambda>m'.
    list_all (flying_ok n (curCycle (clock m1))) (inflightRequests m') \<and>
    list_all (done_ok (curCycle (clock m1))) (completions m') \<and> stats_ok (completions m') (mstats m') \<and>
    length (estimators m') = n \<and> clock m' = clock m1 \<and> wrapper m' = wrapper m1 \<and>
    notQueuedRequests m' = notQueuedRequests m1 \<and>
    mset (map fst (inflightRequests m1)) = mset as + mset (map fst (inflightRequests m')) \<and>
    flying_keys m' = flying_keys m1)"
    by (rule Cons.IH) (use m1 sub Cons.prems(6) in \<open>simp_all\<close>)
  then show ?case unfolding run_callbacks.simps m1(1) bindR_Inr
    by (rule succeeds_mono) (simp add: m1(6-9) m1(10) [unfolded mset_map])
qed simp

lemma all_keys_clock [simp]: "all_keys (m\<lparr>clock := k\<rparr>) = all_keys m"
  by (simp add: all_keys_def flying_keys_def)

lemma ctrl_tick_ok:
  assumes "ctrl_inv binv pend n m" "curCycle (clock m) + 2 < 2 ^ 64"
  shows "succeeds (dramsim3_tick be 0 m) (\<lambda>(d, m'). d = 1 \<and> ctrl_inv binv pend n m' \<and>
    all_keys m' = all_keys m \<and> clock m' = clock_tick (clock m))"
proof -
  let ?k = "cpu_step (clock m)" and ?now = "Suc (curCycle (clock m))"
  from pushInFlights_ok [OF assms(1)] obtain m1 where m1: "pushInFlights be m = Inr m1"
    "ctrl_inv binv pend n m1" "all_keys m1 = all_keys m" "clock m1 = clock m"
    by (auto simp: succeeds_iff)
  have k: "curCycle ?k = ?now" by (simp add: cpu_step_def)
  have frame: "curCycle (dram_step c) = curCycle c" "curCycle (clock_reset c) = curCycle c" for c
    by (simp_all add: dram_step_def clock_reset_def)
  define m2 where "m2 = m1\<lparr>clock := ?k\<rparr>"
  have wait: "list_all (waiting_ok n ?now) (notQueuedRequests m1)" and ck: "clock_ok (clock m)"
    and ci: "core_inv binv pend n ?now m1"
    using m1(2,4) core_inv_later [of binv pend n "curCycle (clock m)" m1 ?now]
    by (auto simp: ctrl_inv_def list_all_iff intro: waiting_ok_mono)
  from ci have b: "binv (wrapper m2)" and p: "pend (wrapper m2) = mset (map fst (inflightRequests m2))"
    by (simp_all add: core_inv_def m2_def)
  show ?thesis
  proof (cases "mem_behind ?k")
    case False
    have "dramsim3_tick be 0 m = Inr (1, m1\<lparr>clock := clock_tick (clock m)\<rparr>)"
      using False m1(1,4) by (simp add: dramsim3_tick_def Let_def clock_tick_def m2_def)
    moreover have "core_inv binv pend n ?now (m1\<lparr>clock := clock_tick (clock m)\<rparr>)"
      using ci by (simp add: core_inv_def)
    ultimately show ?thesis
      using wait clock_tick_ok [OF ck] m1(3) by (simp add: ctrl_inv_def)
  next
    case True
    from tick_ok [OF b] obtain cbs b' where t: "ClockTick be (wrapper m2) = Inr (cbs, b')" "binv b'"
      "pend (wrapper m2) = mset cbs + pend b'" by (auto simp: succeeds_iff)
    let ?m = "m2\<lparr>wrapper := b'\<rparr>"
    have "list_all (flying_ok n (curCycle (clock ?m))) (inflightRequests ?m)"
      "mset cbs \<subseteq># mset (map fst (inflightRequests ?m))"
      "list_all (done_ok (curCycle (clock ?m))) (completions ?m)" "stats_ok (completions ?m) (mstats ?m)"
      "length (estimators ?m) = n" "curCycle (clock ?m) + 1 < 2 ^ 64"
      using ci t(3) p assms(2) by (simp_all add: core_inv_def m2_def k)
    from run_callbacks_ok [OF this] obtain m3 where m3: "run_callbacks cbs ?m = Inr m3"
      "list_all (flying_ok n ?now) (inflightRequests m3)" "list_all (done_ok ?now) (completions m3)"
      "stats_ok (completions m3) (mstats m3)" "length (estimators m3) = n" "clock m3 = ?k"
      "wrapper m3 = b'" "notQueuedRequests m3 = notQueuedRequests m1"
      "mset (map fst (inflightRequests ?m)) = mset cbs + mset (map fst (inflightRequests m3))"
      "flying_keys m3 = flying_keys ?m"
      unfolding succeeds_iff by (auto simp: m2_def k)
    have "mset cbs + pend b' = mset cbs + mset (map fst (inflightRequests m3))"
      using m3(9) p t(3) by simp
    then have p3: "pend b' = mset (map fst (inflightRequests m3))" by simp
    let ?r = "m3\<lparr>clock := clock_tick (clock m)\<rparr>"
    have "dramsim3_tick be 0 m = Inr (1, ?r)"
      using True m1(1,4) t(1) m3(1,6) by (simp add: dramsim3_tick_def Let_def clock_tick_def m2_def)
    moreover have "core_inv binv pend n ?now ?r"
      using m3 t(2) p3 by (simp add: core_inv_def)
    moreover have "all_keys ?r = all_keys m"
      using m3(8,10) m1(3) by (simp add: all_keys_def flying_keys_def m2_def)
    ultimately show ?thesis
      using wait m3(8) clock_tick_ok [OF ck] by (simp add: ctrl_inv_def)
  qed
qed

lemma access_ok:
  assumes "ctrl_inv binv pend n m" "srcId req < n"
  shows "succeeds (dramsim3_access lineBits hasRec req m) (\<lambda>(resp, st, tr, m').
    ctrl_inv binv pend n m' \<and> all_keys m' = all_keys m \<and> clock m' = clock m)"
  using assms unfolding dramsim3_access_def
  by (simp add: Let_def record_access_def start_bound_phase_def ctrl_inv_def core_inv_def
      all_keys_def flying_keys_def)

lemma run_ok:
  assumes "ctrl_inv binv pend n m" "ops_ok n (curCycle (clock m)) xs"
  shows "succeeds (ctrl_run be lineBits xs m) (\<lambda>m'. ctrl_inv binv pend n m' \<and>
    all_keys m' = all_keys m + op_keys xs \<and> curCycle (clock m') = curCycle (clock m) + ticks xs \<and>
    cpuPsPerClk (clock m') = cpuPsPerClk (clock m) \<and> dramPsPerClk (clock m') = dramPsPerClk (clock m))"
  using assms
proof (induction xs arbitrary: m)
  case (Cons x xs)
  show ?case
  proof (cases x)
    case (Access req hasRec)
    with Cons.prems access_ok [of n m req lineBits hasRec] show ?thesis
      by (auto elim!: succeeds_mono intro!: Cons.IH [THEN succeeds_mono])
  next
    case (Simulate e c)
    then have "succeeds (dramsim3_simulate be c e m) (\<lambda>m'. ctrl_inv binv pend n m' \<and>
      all_keys m' = add_mset (ev_key (e\<lparr>sCycle := c\<rparr>)) (all_keys m) \<and> clock m' = clock m)"
      unfolding dramsim3_simulate_def using Cons.prems by (intro enqueue_ok) auto
    then show ?thesis using Cons.prems unfolding Simulate ctrl_run.simps ctrl_op.simps succeeds_bindR
      by (elim succeeds_mono) (auto intro!: Cons.IH [THEN succeeds_mono])
  next
    case Tick
    then have "curCycle (clock m) + 2 < 2 ^ 64" using Cons.prems(2) by simp
    from ctrl_tick_ok [OF Cons.prems(1) this] show ?thesis
      using Cons.prems(2) unfolding Tick ctrl_run.simps ctrl_op.simps succeeds_bindR
      by (elim succeeds_mono) (auto intro!: Cons.IH [THEN succeeds_mono])
  qed
qed simp

lemma new_inv:
  assumes "c < d" "binv b" "pend b = {#}" "DRAMsim3_new ests trackedCores n c d b = Inr m"
    and "length ests = n"
  shows "ctrl_inv binv pend n m" "all_keys m = {#}" "clock m = new_clock c d"
  using assms clock_ok_new [OF assms(1)]
  by (auto simp: DRAMsim3_new_def ctrl_inv_def core_inv_def stats_ok_def zero_stats_def reads_of_def
      writes_of_def total_lat_def all_keys_def flying_keys_def)

end

end
