(* ===== verification/Dram_System.thy ===== *)
theory Dram_System
  imports Dram_Conservation Dramsim3_Ctrl
begin

text \<open>
  The memory systems of DRAMsim3 (\<open>dram_system.cc\<close>): one controller per channel
  (\<open>JedecDRAMSystem\<close>), and the ideal memory with a fixed latency (\<open>IdealDRAMSystem\<close>). Both
  provide the contract that the memory controller of the simulator relies on. Printing of
  epochs and address traces are left out.
\<close>

section \<open>The JEDEC system\<close>

record DramSystem =
  ds_clk :: nat
  last_req_clk :: nat
  ctrls :: "Controller list"

primrec new_ctrls :: "Config \<Rightarrow> nat \<Rightarrow> Controller list res" where
  "new_ctrls cfg 0 = Inr []"
| "new_ctrls cfg (Suc n) = bindR (new_Controller cfg) (\<lambda>c. bindR (new_ctrls cfg n) (\<lambda>cs. Inr (c # cs)))"

definition new_Jedec :: "Config \<Rightarrow> DramSystem res" where
  "new_Jedec cfg =
     (if protocol (dram cfg) = HMC then AbruptExit ''dram_system.cc''
      else bindR (new_ctrls cfg (nat (channels (sys cfg)))) (\<lambda>cs.
             Inr \<lparr>ds_clk = 0, last_req_clk = 0, ctrls = cs\<rparr>))"

definition jedec_WillAccept :: "Config \<Rightarrow> u64 \<Rightarrow> bool \<Rightarrow> DramSystem \<Rightarrow> bool" where
  "jedec_WillAccept cfg a w s = ctl_WillAcceptTransaction cfg w (ctrls s ! nat (GetChannel (amap cfg) a))"

definition jedec_AddTransaction :: "Config \<Rightarrow> u64 \<Rightarrow> bool \<Rightarrow> DramSystem \<Rightarrow> DramSystem res" where
  "jedec_AddTransaction cfg a w s =
     (let i = GetChannel (amap cfg) a in
      require (0 \<le> i \<and> nat i < length (ctrls s)) (Undefined ''ctrls_'')
        (let c = ctrls s ! nat i in
         require (ctl_WillAcceptTransaction cfg w c) (AssertFail ''ok'')
           (Inr (s\<lparr>ctrls := (ctrls s)[nat i := ctl_AddTransaction cfg (mk_trans a w) c],
                   last_req_clk := ds_clk s\<rparr>))))"

lemma erase_first_shorter: "find P xs = Some x \<Longrightarrow> length (erase_first P xs) < length xs"
  by (induction xs) (simp_all split: if_splits)

lemma ReturnDoneTrans_shorter:
  "ReturnDoneTrans clk c = (Some r, c') \<Longrightarrow> length (return_queue c') < length (return_queue c)"
  by (cases "find (\<lambda>t. clk \<ge> complete_cycle t) (return_queue c)")
     (auto simp: ReturnDoneTrans_def Let_def dest: erase_first_shorter)

text \<open>The transactions of a controller that are done at a cycle: one after the other.\<close>

function drain :: "nat \<Rightarrow> Controller \<Rightarrow> u64 list \<times> Controller" where
  "drain clk c =
     (case ReturnDoneTrans clk c of
        (None, c') \<Rightarrow> ([], c')
      | (Some (a, w), c') \<Rightarrow> (let (as, c'') = drain clk c' in (a # as, c'')))"
  by pat_completeness auto

termination drain
proof (relation "measure (\<lambda>(clk, c). length (return_queue c))", goal_cases)
  case (2 clk c x1 c' x2 a w)
  then show ?case using ReturnDoneTrans_shorter [of clk c "(a, w)" c'] by simp
qed simp

declare drain.simps [simp del]

primrec drain_all :: "nat \<Rightarrow> Controller list \<Rightarrow> u64 list \<times> Controller list" where
  "drain_all clk [] = ([], [])"
| "drain_all clk (c # cs) =
     (let (as, c') = drain clk c; (bs, cs') = drain_all clk cs in (as @ bs, c' # cs'))"

primrec tick_all :: "Config \<Rightarrow> Timing \<Rightarrow> Controller list \<Rightarrow> Controller list res" where
  "tick_all cfg tm [] = Inr []"
| "tick_all cfg tm (c # cs) =
     bindR (ctl_ClockTick cfg tm c) (\<lambda>c'. bindR (tick_all cfg tm cs) (\<lambda>cs'. Inr (c' # cs')))"

text \<open>The timing tables are built from the configuration when the system is constructed.\<close>

definition jedec_ClockTick :: "Config \<Rightarrow> DramSystem \<Rightarrow> (u64 list \<times> DramSystem) res" where
  "jedec_ClockTick cfg s =
     (let (as, cs) = drain_all (ds_clk s) (ctrls s) in
      bindR (tick_all cfg (new_Timing cfg) cs) (\<lambda>cs'. Inr (as, s\<lparr>ctrls := cs', ds_clk := ds_clk s + 1\<rparr>)))"

definition jedec_ops :: "Config \<Rightarrow> DramSystem backend_ops" where
  "jedec_ops cfg = \<lparr>WillAcceptTransaction = jedec_WillAccept cfg, AddTransaction = jedec_AddTransaction cfg,
     ClockTick = jedec_ClockTick cfg\<rparr>"

section \<open>The ideal system\<close>

record IdealSystem =
  id_clk :: nat
  infinite_buffer_q :: "Transaction list"

definition ideal_AddTransaction :: "u64 \<Rightarrow> bool \<Rightarrow> IdealSystem \<Rightarrow> IdealSystem res" where
  "ideal_AddTransaction a w s =
     Inr (s\<lparr>infinite_buffer_q := infinite_buffer_q s @ [(mk_trans a w)\<lparr>added_cycle := id_clk s\<rparr>]\<rparr>)"

text \<open>
  The loop of \<open>ClockTick\<close>: an expired transaction is called back and erased, and then the iterator
  is advanced once more, so that the transaction behind it is passed over in this cycle.
\<close>

fun ideal_scan :: "int \<Rightarrow> nat \<Rightarrow> Transaction list \<Rightarrow> u64 list \<times> Transaction list" where
  "ideal_scan lat clk [] = ([], [])"
| "ideal_scan lat clk (t # ts) =
     (if int (sub64 clk (added_cycle t)) \<ge> lat mod 2 ^ 64 then
        (case ts of
           [] \<Rightarrow> ([t_addr t], [])
         | u # us \<Rightarrow> (let (as, rest) = ideal_scan lat clk us in (t_addr t # as, u # rest)))
      else (let (as, rest) = ideal_scan lat clk ts in (as, t # rest)))"

definition ideal_ClockTick :: "Config \<Rightarrow> IdealSystem \<Rightarrow> (u64 list \<times> IdealSystem) res" where
  "ideal_ClockTick cfg s =
     (let (as, q) = ideal_scan (ideal_memory_latency (rowt cfg)) (id_clk s) (infinite_buffer_q s)
      in Inr (as, s\<lparr>infinite_buffer_q := q, id_clk := id_clk s + 1\<rparr>))"

definition ideal_ops :: "Config \<Rightarrow> IdealSystem backend_ops" where
  "ideal_ops cfg = \<lparr>WillAcceptTransaction = (\<lambda>_ _ _. True), AddTransaction = ideal_AddTransaction,
     ClockTick = ideal_ClockTick cfg\<rparr>"

section \<open>Both provide the contract of a simulator\<close>

definition jedec_inv :: "Config \<Rightarrow> DramSystem \<Rightarrow> bool" where
  "jedec_inv cfg s \<longleftrightarrow> plain_cfg cfg \<and>
     (\<forall>a. 0 \<le> GetChannel (amap cfg) a \<and> nat (GetChannel (amap cfg) a) < length (ctrls s)) \<and>
     list_all (ctl_inv cfg) (ctrls s)"

definition owed_all :: "Controller list \<Rightarrow> u64 multiset" where
  "owed_all cs = sum_list (map owed cs)"

lemma owed_all_simps [simp]: "owed_all [] = {#}" "owed_all (c # cs) = owed c + owed_all cs"
  by (simp_all add: owed_all_def)

lemma owed_all_update:
  "i < length cs \<Longrightarrow> owed_all (cs[i := c]) + owed (cs ! i) = owed_all cs + owed c"
proof (induction cs arbitrary: i)
  case (Cons x cs)
  show ?case
  proof (cases i)
    case 0
    then show ?thesis by (simp add: ac_simps)
  next
    case (Suc j)
    then show ?thesis using Cons.IH [of j] Cons.prems by (simp add: add.assoc)
  qed
qed simp

lemma drain_ok:
  "ctl_inv cfg c \<Longrightarrow> drain clk c = (as, c') \<Longrightarrow> ctl_inv cfg c' \<and> owed c = mset as + owed c'"
proof (induction "length (return_queue c)" arbitrary: c as rule: less_induct)
  case less
  obtain r c1 where r: "ReturnDoneTrans clk c = (r, c1)" by force
  note o = ReturnDoneTrans_ok [OF less.prems(1) r]
  show ?case
  proof (cases r)
    case None
    then show ?thesis using o r less.prems(2) by (simp add: drain.simps [of clk c])
  next
    case (Some p)
    obtain a w where p: "p = (a, w)" by force
    obtain bs where bs: "drain clk c1 = (bs, c')" "as = a # bs"
      using less.prems(2) r Some p by (auto simp: drain.simps [of clk c] Let_def split: prod.splits)
    have "length (return_queue c1) < length (return_queue c)" using ReturnDoneTrans_shorter r Some by blast
    from less.hyps [OF this o(1) bs(1)] o(2) show ?thesis using Some p bs(2) by simp
  qed
qed

lemma drain_all_ok:
  "list_all (ctl_inv cfg) cs \<Longrightarrow> drain_all clk cs = (as, cs') \<Longrightarrow>
   list_all (ctl_inv cfg) cs' \<and> length cs' = length cs \<and> owed_all cs = mset as + owed_all cs'"
proof (induction cs arbitrary: as cs')
  case (Cons c cs)
  then obtain xs c1 ys cs1 where d: "drain clk c = (xs, c1)" "drain_all clk cs = (ys, cs1)"
    "as = xs @ ys" "cs' = c1 # cs1"
    by (auto simp: Let_def split: prod.splits)
  then show ?case using Cons drain_ok [OF _ d(1), of cfg] Cons.IH [OF _ d(2)] by (simp add: ac_simps)
qed simp

lemma tick_all_ok:
  assumes "plain_cfg cfg"
  shows "list_all (ctl_inv cfg) cs \<Longrightarrow>
    succeeds (tick_all cfg tm cs) (\<lambda>cs'. list_all (ctl_inv cfg) cs' \<and> length cs' = length cs \<and> owed_all cs' = owed_all cs)"
proof (induction cs)
  case (Cons c cs)
  then show ?case using ctl_ClockTick_ok [OF assms, of c tm] by (auto simp: succeeds_iff)
qed simp

interpretation jedec: dram_backend "jedec_ops cfg" "jedec_inv cfg" "\<lambda>s. owed_all (ctrls s)" for cfg
proof (unfold_locales, goal_cases)
  case (1 b a w)
  let ?i = "nat (GetChannel (amap cfg) a)" and ?c = "ctrls b ! nat (GetChannel (amap cfg) a)"
  from 1 have i: "0 \<le> GetChannel (amap cfg) a" "?i < length (ctrls b)" and c: "ctl_inv cfg ?c"
    by (auto simp: jedec_inv_def list_all_length)
  note add = ctl_AddTransaction_ok [OF c, of "mk_trans a w"]
  have "owed_all ((ctrls b)[?i := ctl_AddTransaction cfg (mk_trans a w) ?c]) = add_mset a (owed_all (ctrls b))"
    using owed_all_update [OF i(2), of "ctl_AddTransaction cfg (mk_trans a w) ?c"] add(2)
    by (simp add: mk_trans_def)
  moreover have "list_all (ctl_inv cfg) ((ctrls b)[?i := ctl_AddTransaction cfg (mk_trans a w) ?c])"
    using 1(1) add(1) by (auto simp: jedec_inv_def list_all_length nth_upd)
  ultimately show ?case using 1 i
    by (simp add: jedec_ops_def jedec_AddTransaction_def jedec_WillAccept_def jedec_inv_def Let_def)
next
  case (2 b)
  then have p: "plain_cfg cfg" "list_all (ctl_inv cfg) (ctrls b)" by (simp_all add: jedec_inv_def)
  obtain as cs where d: "drain_all (ds_clk b) (ctrls b) = (as, cs)" by force
  note dr = drain_all_ok [OF p(2) d]
  then have "list_all (ctl_inv cfg) cs" by simp
  from tick_all_ok [OF p(1) this, of "new_Timing cfg"] dr 2 d show ?case
    by (auto simp: jedec_ops_def jedec_ClockTick_def jedec_inv_def succeeds_iff)
qed

lemma ideal_scan_mset:
  "ideal_scan lat clk ts = (as, rest) \<Longrightarrow> mset (map t_addr ts) = mset as + mset (map t_addr rest)"
  by (induction lat clk ts arbitrary: as rest rule: ideal_scan.induct)
     (auto simp: Let_def split: if_splits list.splits prod.splits)

interpretation ideal: dram_backend "ideal_ops cfg" "\<lambda>_. True" "\<lambda>s. mset (map t_addr (infinite_buffer_q s))" for cfg
proof (unfold_locales, goal_cases)
  case (1 b a w)
  then show ?case by (simp add: ideal_ops_def ideal_AddTransaction_def mk_trans_def)
next
  case (2 b)
  obtain as q where s: "ideal_scan (ideal_memory_latency (rowt cfg)) (id_clk b) (infinite_buffer_q b) = (as, q)" by force
  then show ?case using ideal_scan_mset [OF s] by (simp add: ideal_ops_def ideal_ClockTick_def)
qed

end
