(* ===== verification/Dram_Liveness.thy ===== *)
theory Dram_Liveness
  imports Dram_Conservation Dram_Timing
begin

text \<open>
  Progress of a controller. The dependency of a write on an earlier read of its address stops
  the drain of the write buffer, but the drain starts again in the next cycle, before the read
  is scheduled, as long as the buffer is long and nothing else is queued: the controller then
  never schedules anything again.
\<close>

section \<open>A run of cycles\<close>

primrec ctl_ticks :: "Config \<Rightarrow> Timing \<Rightarrow> nat \<Rightarrow> Controller \<Rightarrow> Controller res" where
  "ctl_ticks cfg tm 0 c = Inr c"
| "ctl_ticks cfg tm (Suc n) c = bindR (ctl_ClockTick cfg tm c) (ctl_ticks cfg tm n)"

text \<open>The transactions that a controller holds, in all its queues.\<close>

definition trans_of :: "Controller \<Rightarrow> Transaction list \<times> Transaction list \<times> Transaction list \<times>
    (u64, Transaction) multimap \<times> (u64, Transaction) multimap \<times> Transaction list \<times> int" where
  "trans_of c = (unified_q c, read_queue c, write_buffer c, pending_rd_q c, pending_wr_q c, return_queue c,
     write_draining c)"

section \<open>Cycles with empty command queues\<close>

definition empty_queues :: "CommandQueue \<Rightarrow> bool" where
  "empty_queues q \<longleftrightarrow> (\<forall>i. queue_ok q i \<longrightarrow> queues q i = [])"

lemma QueueEmpty_iff: "QueueEmpty q \<longleftrightarrow> empty_queues q"
  by (auto simp: QueueEmpty_def empty_queues_def list_all_iff queue_ok_def)

lemma GetNextQueue_empty:
  "empty_queues q \<Longrightarrow> empty_queues (GetNextQueue q)"
  by (simp add: empty_queues_def GetNextQueue_def Let_def queue_ok_def)

lemma command_loop_empty:
  "queue_inv m d q \<Longrightarrow> empty_queues q \<Longrightarrow>
    succeeds (command_loop d ch n q) (\<lambda>(cmd, q'). cmd = no_cmd \<and> empty_queues q' \<and> queue_size q' = queue_size q)"
proof (induction n arbitrary: q)
  case (Suc n)
  define q1 where "q1 = GetNextQueue q"
  note g = GetNextQueue_ok [OF Suc.prems(1), folded q1_def]
  have e: "empty_queues q1" using GetNextQueue_empty Suc.prems(2) by (simp add: q1_def)
  then have "queues q1 (queue_idx q1) = []" using g(3) by (simp add: empty_queues_def)
  then show ?case using Suc.IH [OF g(1) e] g(3,6)
    by (simp add: Let_def q1_def [symmetric] GetFirstReadyInQueue_def)
qed simp

lemma FinishRefresh_empty:
  "FinishRefresh d ch q = Inr (cmd, q') \<Longrightarrow> empty_queues q \<Longrightarrow> empty_queues q' \<and> queue_size q' = queue_size q"
  by (auto simp: FinishRefresh_def empty_queues_def queue_ok_def Let_def require_eq_Inr_iff bindR_eq_Inr_iff
      split: if_splits)

lemma IssueCommand_frame:
  assumes "\<not> IsReadWrite cmd" "IssueCommand cfg tm cmd c = Inr c'"
  shows "trans_of c' = trans_of c" "cmd_queue c' = cmd_queue c"
proof -
  have "complete_trans cfg cmd c = Inr c" using assms(1) by (simp add: complete_trans_def IsReadWrite_def)
  with assms(2) obtain c2 ch where c2: "UpdateCommandStats cfg cmd c = Inr c2" "c' = c2\<lparr>channel_state := ch\<rparr>"
    by (auto simp: IssueCommand_def bindR_eq_Inr_iff)
  from c2(1) obtain s where "c2 = c\<lparr>simple_stats := s\<rparr>"
    by (auto simp: UpdateCommandStats_def Let_def require_eq_Inr_iff AbruptExit_def split: CommandType.splits)
  then show "trans_of c' = trans_of c" "cmd_queue c' = cmd_queue c" using c2(2) by (simp_all add: trans_of_def)
qed

lemma idle_ranks_frame:
  "trans_of (fold (idle_rank cfg) is c) = trans_of c \<and> cmd_queue (fold (idle_rank cfg) is c) = cmd_queue c"
  by (induction "is" arbitrary: c) (auto simp: idle_rank_def Let_def trans_of_def)

lemma next_command_empty:
  assumes "ctl_inv cfg c" "empty_queues (cmd_queue c)" "next_command cfg c = Inr (cmd, c')" "dram_ok (dram cfg)"
  shows "\<not> IsReadWrite cmd" "trans_of c' = trans_of c" "empty_queues (cmd_queue c')"
    "queue_size (cmd_queue c') = queue_size (cmd_queue c)"
proof -
  let ?d = "dram cfg" and ?ch = "channel_state c" and ?q = "cmd_queue c"
  from next_command_ok [OF assms(4,1)] assms(3) have "acct c' {#cmd#}" and p: "parts_ok cfg c'" by simp_all
  have q: "queue_inv (amap cfg) ?d ?q" using assms(1) by (simp add: ctl_inv_def parts_ok_def)
  have loop: "cmd2 = no_cmd \<and> empty_queues q2 \<and> queue_size q2 = queue_size q1"
    if "GetCommandToIssue ?d ch q1 = Inr (cmd2, q2)" "queue_inv (amap cfg) ?d q1" "empty_queues q1" for ch q1 cmd2 q2
    using command_loop_empty [OF that(2,3), of ch "nat (num_queues q1)"] that(1) by (simp add: GetCommandToIssue_def)
  have "\<not> IsReadWrite cmd \<and> trans_of c' = trans_of c \<and> empty_queues (cmd_queue c') \<and>
    queue_size (cmd_queue c') = queue_size ?q"
  proof (cases "refresh_q ?ch = []")
    case True
    with assms(3) obtain q' where "GetCommandToIssue ?d ?ch ?q = Inr (cmd, q')" "c' = c\<lparr>cmd_queue := q'\<rparr>"
      by (auto simp: next_command_def bindR_eq_Inr_iff)
    with loop [OF this(1) q assms(2)] show ?thesis by (simp add: trans_of_def cmd_class_defs no_cmd_def)
  next
    case False
    from assms(1) have ch: "ch_inv ?d ?ch" "\<forall>r. \<not> rank_is_sref ?ch r" by (simp_all add: ctl_inv_def parts_ok_def)
    from FinishRefresh_ok [OF assms(4) ch(1) q False ch(2)] obtain cmd0 q0 where
      f: "FinishRefresh ?d ?ch ?q = Inr (cmd0, q0)" "queue_inv (amap cfg) ?d q0" "IsValid cmd0 \<longrightarrow> \<not> IsReadWrite cmd0"
      by (auto simp: succeeds_iff)
    note e = FinishRefresh_empty [OF f(1) assms(2)]
    show ?thesis
    proof (cases "IsValid cmd0")
      case True
      then show ?thesis using assms(3) False f e by (auto simp: next_command_def trans_of_def)
    next
      case nv: False
      with assms(3) False f(1) obtain q' where "GetCommandToIssue ?d ?ch q0 = Inr (cmd, q')" "c' = c\<lparr>cmd_queue := q'\<rparr>"
        by (auto simp: next_command_def bindR_eq_Inr_iff)
      with loop [OF this(1) f(2)] e show ?thesis by (simp add: trans_of_def cmd_class_defs no_cmd_def)
    qed
  qed
  then show "\<not> IsReadWrite cmd" "trans_of c' = trans_of c" "empty_queues (cmd_queue c')"
    "queue_size (cmd_queue c') = queue_size (cmd_queue c)" by blast+
qed

section \<open>The stuck states\<close>

definition stuck :: "Config \<Rightarrow> Controller \<Rightarrow> bool" where
  "stuck cfg c \<longleftrightarrow> ctl_inv cfg c \<and> \<not> unified_queue (sys cfg) \<and> write_draining c = 0 \<and>
     empty_queues (cmd_queue c) \<and> 0 < queue_size (cmd_queue c) \<and> 8 < length (write_buffer c) \<and>
     is_write (hd (write_buffer c)) \<and> 0 < mm_count (t_addr (hd (write_buffer c))) (pending_rd_q c)"

lemma command_phase_stuck:
  assumes "plain_cfg cfg" "stuck cfg c"
  shows "succeeds (command_phase cfg tm c) (\<lambda>c'. stuck cfg c' \<and> trans_of c' = trans_of c)"
proof -
  have d: "dram_ok (dram cfg)" and plain: "\<not> enable_hbm_dual_cmd (dram cfg)" "\<not> enable_self_refresh (sys cfg)"
    using assms(1) by (auto simp: plain_cfg_def)
  have ci: "ctl_inv cfg c" and ce: "empty_queues (cmd_queue c)" using assms(2) by (auto simp: stuck_def)
  from command_phase_ok [OF assms(1) ci, of tm] obtain c' where c': "command_phase cfg tm c = Inr c'" "ctl_inv cfg c'"
    by (auto simp: succeeds_iff)
  from c'(1) plain(2) obtain r ch cmd c1 c2 where ph: "refresh_ClockTick cfg (refresh_ctl c, channel_state c) = Inr (r, ch)"
    "next_command cfg (c\<lparr>refresh_ctl := r, channel_state := ch\<rparr>) = Inr (cmd, c1)"
    "(if IsValid cmd then bindR (IssueCommand cfg tm cmd c1) (dual_command cfg tm cmd) else Inr c1) = Inr c2"
    "c' = fold (idle_rank cfg) [0..ranks (dram cfg) - 1] c2"
    by (auto simp: command_phase_def Let_def bindR_eq_Inr_iff)
  let ?c = "c\<lparr>refresh_ctl := r, channel_state := ch\<rparr>"
  have "refresh_inv cfg (refresh_ctl c)" "ch_inv (dram cfg) (channel_state c)" using ci by (simp_all add: ctl_inv_def parts_ok_def)
  from refresh_ClockTick_ok [OF d this] ph(1) have "ctl_inv cfg ?c"
    using ci by (simp add: ctl_inv_def parts_ok_def acct_def queued_def)
  note n = next_command_empty [OF this _ ph(2) d, simplified, OF ce]
  have "trans_of c2 = trans_of c1 \<and> cmd_queue c2 = cmd_queue c1"
    using ph(3) plain(1) IssueCommand_frame [OF n(1), of cfg tm c1 c2]
    by (auto simp: dual_command_def bindR_eq_Inr_iff split: if_splits)
  then have t: "trans_of c' = trans_of c" and q: "cmd_queue c' = cmd_queue c1"
    using n(2) ph(4) idle_ranks_frame [of cfg "[0..ranks (dram cfg) - 1]" c2] by (simp_all add: trans_of_def)
  have "stuck cfg c'" using assms(2) c'(2) t q n(3,4) by (simp add: stuck_def trans_of_def)
  then show ?thesis using c'(1) t by simp
qed

lemma WillAcceptCommand_empty:
  assumes "queue_inv m d q" "dram_ok d" "bank_ok d r g b" "empty_queues q" "0 < queue_size q"
  shows "WillAcceptCommand d q r g b = Inr True"
  using index_in_range [OF assms(2,3)] assms(1,4,5)
  by (simp add: WillAcceptCommand_def Let_def empty_queues_def queue_inv_def)

lemma ScheduleTransaction_stuck:
  assumes "plain_cfg cfg" "stuck cfg c"
  shows "ScheduleTransaction cfg c = Inr c"
proof -
  from assms(2) obtain w ws where w: "write_buffer c = w # ws" by (cases "write_buffer c") (auto simp: stuck_def)
  let ?cmd = "TransToCommand cfg w" and ?c = "c\<lparr>write_draining := int (length (write_buffer c))\<rparr>"
  have m: "bank_ok (dram cfg) (cRank ?cmd) (cBankgroup ?cmd) (cBank ?cmd)" and d: "dram_ok (dram cfg)"
    using assms(1) by (auto simp: plain_cfg_def mapped_ok_def TransToCommand_sel Let_def)
  from assms(2) have i: "ctl_inv cfg c" and s: "\<not> unified_queue (sys cfg)" "write_draining c = 0"
    "empty_queues (cmd_queue c)" "0 < queue_size (cmd_queue c)" "8 < length (write_buffer c)" "is_write w"
    "0 < mm_count (t_addr w) (pending_rd_q c)" by (auto simp: stuck_def w)
  have q: "queue_inv (amap cfg) (dram cfg) (cmd_queue c)" using i by (simp add: ctl_inv_def parts_ok_def)
  note acc = WillAcceptCommand_empty [OF q d m s(3,4)]
  have "start_draining cfg c = ?c" using s by (simp add: start_draining_def QueueEmpty_iff)
  moreover have "c\<lparr>write_draining := 0\<rparr> = c" using s(2) by (cases c) simp
  ultimately show ?thesis using acc s by (simp add: ScheduleTransaction_def Let_def w TransToCommand_sel)
qed

lemma ctl_ClockTick_stuck:
  assumes "plain_cfg cfg" "stuck cfg c"
  shows "succeeds (ctl_ClockTick cfg tm c) (\<lambda>c'. stuck cfg c' \<and> trans_of c' = trans_of c)"
proof -
  from command_phase_stuck [OF assms, of tm] obtain c1 where c1: "command_phase cfg tm c = Inr c1" "stuck cfg c1"
    "trans_of c1 = trans_of c" by (auto simp: succeeds_iff)
  note s = ScheduleTransaction_stuck [OF assms(1) c1(2)]
  from assms(2) have "ctl_inv cfg c" by (simp add: stuck_def)
  from ctl_ClockTick_ok [OF assms(1) this, of tm] show ?thesis
    using c1 s by (auto simp: ctl_ClockTick_def stuck_def trans_of_def empty_queues_def queue_ok_def)
qed

lemma ctl_ticks_stuck:
  assumes "plain_cfg cfg"
  shows "stuck cfg c \<Longrightarrow> succeeds (ctl_ticks cfg tm n c) (\<lambda>c'. trans_of c' = trans_of c)"
proof (induction n arbitrary: c)
  case (Suc n)
  from ctl_ClockTick_stuck [OF assms Suc.prems, of tm] show ?case
    unfolding ctl_ticks.simps succeeds_bindR by (rule succeeds_mono) (auto intro: succeeds_mono [OF Suc.IH])
qed simp

section \<open>How to get there\<close>

text \<open>Transactions added one after the other, each when the controller accepts it.\<close>

fun add_accepted :: "Config \<Rightarrow> Transaction list \<Rightarrow> Controller \<Rightarrow> Controller res" where
  "add_accepted cfg [] c = Inr c"
| "add_accepted cfg (t # ts) c =
     require (ctl_WillAcceptTransaction cfg (is_write t) c) (AssertFail ''ok'')
       (add_accepted cfg ts (ctl_AddTransaction cfg t c))"

definition write_trans :: "nat \<Rightarrow> u64 \<Rightarrow> Transaction" where
  "write_trans clk a = (mk_trans a True)\<lparr>added_cycle := clk\<rparr>"

lemma add_writes:
  assumes "\<not> unified_queue (sys cfg)" "distinct as" "set as \<inter> fst ` set (pending_wr_q c) = {}"
    and "length (write_buffer c) + length as \<le> capacity cfg"
  shows "succeeds (add_accepted cfg (map (\<lambda>a. mk_trans a True) as) c) (\<lambda>c'.
    write_buffer c' = write_buffer c @ map (write_trans (ctl_clk c)) as \<and> pending_rd_q c' = pending_rd_q c \<and>
    cmd_queue c' = cmd_queue c \<and> write_draining c' = write_draining c \<and> read_queue c' = read_queue c \<and>
    (\<forall>t\<in>set (return_queue c'). t \<in> set (return_queue c) \<or> is_write t) \<and> (ctl_inv cfg c \<longrightarrow> ctl_inv cfg c'))"
  using assms(2-4)
proof (induction as arbitrary: c)
  case (Cons a as)
  let ?c = "ctl_AddTransaction cfg (mk_trans a True) c"
  have c: "mm_count a (pending_wr_q c) = 0" using Cons.prems(2) mm_count_pos [of a "pending_wr_q c"] by auto
  have f: "write_buffer ?c = write_buffer c @ [write_trans (ctl_clk c) a]" "pending_rd_q ?c = pending_rd_q c"
    "cmd_queue ?c = cmd_queue c" "write_draining ?c = write_draining c" "read_queue ?c = read_queue c"
    "fst ` set (pending_wr_q ?c) = insert a (fst ` set (pending_wr_q c))" "ctl_clk ?c = ctl_clk c"
    "\<forall>t\<in>set (return_queue ?c). t \<in> set (return_queue c) \<or> is_write t"
    using c assms(1) by (simp_all add: ctl_AddTransaction_def Let_def write_trans_def mk_trans_def)
  have acc: "ctl_WillAcceptTransaction cfg True c" using assms(1) Cons.prems(3) by (simp add: ctl_WillAcceptTransaction_def)
  have IH: "succeeds (add_accepted cfg (map (\<lambda>a. mk_trans a True) as) ?c) (\<lambda>c'.
    write_buffer c' = write_buffer ?c @ map (write_trans (ctl_clk ?c)) as \<and> pending_rd_q c' = pending_rd_q ?c \<and>
    cmd_queue c' = cmd_queue ?c \<and> write_draining c' = write_draining ?c \<and> read_queue c' = read_queue ?c \<and>
    (\<forall>t\<in>set (return_queue c'). t \<in> set (return_queue ?c) \<or> is_write t) \<and> (ctl_inv cfg ?c \<longrightarrow> ctl_inv cfg c'))"
    using Cons.prems f(1,6) by (intro Cons.IH) auto
  have acc': "ctl_WillAcceptTransaction cfg (is_write (mk_trans a True)) c" using acc by (simp add: mk_trans_def)
  show ?case unfolding list.map add_accepted.simps succeeds_require
  proof (rule conjI [OF acc'], rule succeeds_mono [OF IH], goal_cases)
    case (1 c')
    then show ?case using f(1-5,7,8) ctl_AddTransaction_ok(1) [of cfg c "mk_trans a True"] by fastforce
  qed
qed simp

lemma deadlock_state:
  assumes "plain_cfg cfg" "\<not> unified_queue (sys cfg)" "ctl_inv cfg c0" "empty_queues (cmd_queue c0)"
    and "0 < queue_size (cmd_queue c0)" "read_queue c0 = []" "write_buffer c0 = []" "pending_rd_q c0 = []"
    and "pending_wr_q c0 = []" "return_queue c0 = []" "write_draining c0 = 0"
    and "distinct (a # as)" "8 \<le> length as" "length as < capacity cfg"
  shows "succeeds (add_accepted cfg (mk_trans a False # map (\<lambda>x. mk_trans x True) (a # as)) c0) (\<lambda>c.
    stuck cfg c \<and> (\<exists>t. read_queue c = [t] \<and> t_addr t = a \<and> pending_rd_q c = [(a, t)]) \<and>
    (\<forall>t\<in>set (return_queue c). is_write t))"
proof -
  let ?c = "ctl_AddTransaction cfg (mk_trans a False) c0"
  let ?t = "(mk_trans a False)\<lparr>added_cycle := ctl_clk c0\<rparr>"
  have acc: "ctl_WillAcceptTransaction cfg (is_write (mk_trans a False)) c0"
    using assms(2,6,14) by (simp add: ctl_WillAcceptTransaction_def mk_trans_def)
  have f: "pending_rd_q ?c = [(a, ?t)]" "read_queue ?c = [?t]" "write_buffer ?c = []" "pending_wr_q ?c = []"
    "return_queue ?c = []" "cmd_queue ?c = cmd_queue c0" "write_draining ?c = 0"
    using assms by (simp_all add: ctl_AddTransaction_def mk_trans_def mm_count_def Let_def)
  have i: "ctl_inv cfg ?c" by (rule ctl_AddTransaction_ok(1) [OF assms(3)])
  have "length (write_buffer ?c) + length (a # as) \<le> capacity cfg" "set (a # as) \<inter> fst ` set (pending_wr_q ?c) = {}"
    using assms(14) f(3,4) by simp_all
  note w = add_writes [OF assms(2,12) this(2,1)]
  show ?thesis unfolding add_accepted.simps(2) [of cfg "mk_trans a False"] succeeds_require
  proof (rule conjI [OF acc], rule succeeds_mono [OF w], goal_cases)
    case (1 c)
    then have h: "write_buffer c = write_trans (ctl_clk ?c) a # map (write_trans (ctl_clk ?c)) as" using f(3) by simp
    have "stuck cfg c" using 1 h f(1,6,7) i assms(2,4,5,13)
      by (simp add: stuck_def write_trans_def mk_trans_def mm_count_def)
    then show ?case using 1 f(1,2,5) by (auto simp: mk_trans_def)
  qed
qed

lemma ddr4_plain: "plain_cfg ddr4_cfg"
proof -
  have m: "SetAddressMapping (sys ddr4_cfg) (dram ddr4_cfg) = Inr (amap ddr4_cfg)"
    using ddr4_x8_map by (simp add: ddr4_cfg_def)
  have l: "1 \<le> channels (sys ddr4_cfg)" "1 \<le> LogBase2 (ranks (dram ddr4_cfg))"
    "2 \<le> LogBase2 (bankgroups (dram ddr4_cfg))" "2 \<le> LogBase2 (banks_per_group (dram ddr4_cfg))"
    by (simp_all add: ddr4_cfg_def ddr4_x16_sys_def ddr4_x8_dram_def ddr4_x16_dram_def LogBase2.simps)
  show ?thesis using mapped_in_range [OF m l] ddr4_dram_ok
    by (simp add: plain_cfg_def mapped_ok_def bank_ok_def rank_ok_def Let_def ddr4_cfg_def ddr4_x8_dram_def
        ddr4_x16_dram_def ddr4_x16_sys_def)
qed

lemma ddr4_controller:
  "\<exists>c. new_Controller ddr4_cfg = Inr c \<and> 0 < refresh_interval (refresh_ctl c)"
  by (simp add: new_Controller_def new_queue_def new_refresh_def Let_def ddr4_cfg_def ddr4_x16_sys_def ddr4_x8_dram_def
      ddr4_x16_dram_def InitTimingParams_def ddr4_reader_def)

section \<open>Properties\<close>

text \<open>
  C23: the drain of the write buffer can deadlock a controller with separate queues. A fresh
  controller that accepts, in one cycle, a read, a write of the same address and at least
  eight writes of other addresses never serves the read: whatever the number of cycles, none
  aborts, the read stays pending and nothing is scheduled.
\<close>

theorem write_drain_deadlock:
  assumes "plain_cfg cfg" "\<not> unified_queue (sys cfg)" "0 < cmd_queue_size (sys cfg)"
    and "new_Controller cfg = Inr c0" "0 < refresh_interval (refresh_ctl c0)"
    and "distinct (a # as)" "8 \<le> length as" "length as < capacity cfg"
  shows "\<exists>c t. add_accepted cfg (mk_trans a False # map (\<lambda>x. mk_trans x True) (a # as)) c0 = Inr c \<and>
    pending_rd_q c = [(a, t)] \<and>
    (\<forall>n. \<exists>c'. ctl_ticks cfg (new_Timing cfg) n c = Inr c' \<and> pending_rd_q c' = [(a, t)] \<and>
       read_queue c' = [t] \<and> write_buffer c' = write_buffer c \<and> (\<forall>r\<in>set (return_queue c'). is_write r))"
proof -
  from assms(4) obtain q r where q: "new_queue cfg = Inr q" and r: "new_refresh cfg = Inr r"
    and c: "c0 = \<lparr>ctl_clk = 0, simple_stats = no_stats, channel_state = new_channel, cmd_queue = q, refresh_ctl = r,
          unified_q = [], read_queue = [], write_buffer = [], pending_rd_q = [], pending_wr_q = [],
          return_queue = [], last_trans_clk = 0, write_draining = 0\<rparr>"
    by (auto simp: new_Controller_def require_eq_Inr_iff bindR_eq_Inr_iff)
  have qe: "empty_queues q" "0 < queue_size q" using q assms(3)
    by (auto simp: new_queue_def Let_def AbruptExit_def empty_queues_def split: if_splits)
  have "ctl_inv cfg c0" using new_Controller_ok(1) [OF _ assms(4,5)] assms(1) by (simp add: plain_cfg_def)
  then have "succeeds (add_accepted cfg (mk_trans a False # map (\<lambda>x. mk_trans x True) (a # as)) c0) (\<lambda>c.
    stuck cfg c \<and> (\<exists>t. read_queue c = [t] \<and> t_addr t = a \<and> pending_rd_q c = [(a, t)]) \<and>
    (\<forall>t\<in>set (return_queue c). is_write t))"
    using assms(1,2,6-8) qe by (intro deadlock_state) (simp_all add: c)
  then obtain c t where s: "add_accepted cfg (mk_trans a False # map (\<lambda>x. mk_trans x True) (a # as)) c0 = Inr c"
    "stuck cfg c" "read_queue c = [t]" "pending_rd_q c = [(a, t)]" "\<forall>t\<in>set (return_queue c). is_write t"
    unfolding succeeds_iff by blast
  show ?thesis
  proof (rule exI [of _ c], rule exI [of _ t], intro conjI allI)
    fix n
    from ctl_ticks_stuck [OF assms(1) s(2), of "new_Timing cfg" n] s(3-5)
    show "\<exists>c'. ctl_ticks cfg (new_Timing cfg) n c = Inr c' \<and> pending_rd_q c' = [(a, t)] \<and>
       read_queue c' = [t] \<and> write_buffer c' = write_buffer c \<and> (\<forall>r\<in>set (return_queue c'). is_write r)"
      by (auto simp: succeeds_iff trans_of_def)
  qed (use s in simp_all)
qed

theorem write_drain_deadlock_witness:
  "\<exists>c0 c t. new_Controller ddr4_cfg = Inr c0 \<and>
    add_accepted ddr4_cfg (mk_trans 0 False # map (\<lambda>x. mk_trans x True) [0, 64, 128, 192, 256, 320, 384, 448, 512]) c0 = Inr c \<and>
    pending_rd_q c = [(0, t)] \<and>
    (\<forall>n. \<exists>c'. ctl_ticks ddr4_cfg (new_Timing ddr4_cfg) n c = Inr c' \<and> pending_rd_q c' = [(0, t)] \<and>
       read_queue c' = [t] \<and> write_buffer c' = write_buffer c \<and> (\<forall>r\<in>set (return_queue c'). is_write r))"
proof -
  from ddr4_controller obtain c0 where c0: "new_Controller ddr4_cfg = Inr c0" "0 < refresh_interval (refresh_ctl c0)" by blast
  show ?thesis
    using write_drain_deadlock [OF ddr4_plain _ _ c0, of 0 "[64, 128, 192, 256, 320, 384, 448, 512]"] c0(1)
    by (simp add: ddr4_cfg_def ddr4_x16_sys_def capacity_def)
qed

end
