(* ===== verification/Dram_Host.thy ===== *)
theory Dram_Host
  imports Dram_System Dram_Liveness
begin

text \<open>
  The memory controller of the simulator attached to DRAMsim3, end to end: the contract of the
  attached simulator is discharged by the models of its two memory systems, and the properties of
  the controller hold for every history of accesses, simulated events and ticks.
\<close>

section \<open>Configurations\<close>

definition refresh_period :: "Config \<Rightarrow> int" where
  "refresh_period cfg =
     (case refresh_policy (sys cfg) of
        RANK_LEVEL_SIMULTANEOUS \<Rightarrow> tREFI (rowt cfg)
      | BANK_LEVEL_STAGGERED \<Rightarrow> tREFIb (rowt cfg)
      | RANK_LEVEL_STAGGERED \<Rightarrow> tREFI (rowt cfg) div ranks (dram cfg))"

text \<open>
  A configuration within what the code supports: the mapping is the one it computes, with enough
  ranks, groups and banks for its exclusive ors; no dual commands and no self-refresh.
\<close>

definition sound_cfg :: "Config \<Rightarrow> bool" where
  "sound_cfg cfg \<longleftrightarrow> SetAddressMapping (sys cfg) (dram cfg) = Inr (amap cfg) \<and> 1 \<le> channels (sys cfg) \<and>
     1 \<le> LogBase2 (ranks (dram cfg)) \<and> 2 \<le> LogBase2 (bankgroups (dram cfg)) \<and>
     2 \<le> LogBase2 (banks_per_group (dram cfg)) \<and> dram_ok (dram cfg) \<and>
     \<not> enable_hbm_dual_cmd (dram cfg) \<and> \<not> enable_self_refresh (sys cfg) \<and> 0 < refresh_period cfg"

lemma sound_plain: "sound_cfg cfg \<Longrightarrow> plain_cfg cfg"
  using mapped_in_range [of "sys cfg" "dram cfg" "amap cfg"]
  by (simp add: sound_cfg_def plain_cfg_def mapped_ok_def bank_ok_def rank_ok_def Let_def)

lemma new_refresh_interval: "new_refresh cfg = Inr r \<Longrightarrow> refresh_interval r = refresh_period cfg"
  by (auto simp: new_refresh_def refresh_period_def Let_def require_eq_Inr_iff split: RefreshPolicy.splits)

lemma new_ctrls_ok:
  assumes "sound_cfg cfg"
  shows "new_ctrls cfg n = Inr cs \<Longrightarrow> length cs = n \<and> list_all (ctl_inv cfg) cs \<and> owed_all cs = {#}"
proof (induction n arbitrary: cs)
  case (Suc n)
  then obtain c cs1 where c: "new_Controller cfg = Inr c" "new_ctrls cfg n = Inr cs1" "cs = c # cs1"
    by (auto simp: bindR_eq_Inr_iff)
  then obtain r where "new_refresh cfg = Inr r" "refresh_ctl c = r"
    by (auto simp: new_Controller_def require_eq_Inr_iff bindR_eq_Inr_iff)
  with new_refresh_interval [of cfg r] assms have "0 < refresh_interval (refresh_ctl c)" by (simp add: sound_cfg_def)
  with new_Controller_ok [OF _ c(1)] assms c(3) Suc.IH [OF c(2)] show ?case by (simp add: sound_cfg_def)
qed simp

lemma new_Jedec_ok:
  assumes "sound_cfg cfg" "new_Jedec cfg = Inr s"
  shows "jedec_inv cfg s" "owed_all (ctrls s) = {#}"
proof -
  from assms(2) have c: "new_ctrls cfg (nat (channels (sys cfg))) = Inr (ctrls s)"
    by (auto simp: new_Jedec_def AbruptExit_def bindR_eq_Inr_iff split: if_splits)
  note n = new_ctrls_ok [OF assms(1) c]
  then show "owed_all (ctrls s) = {#}" by simp
  have "0 \<le> GetChannel (amap cfg) a \<and> GetChannel (amap cfg) a < channels (sys cfg)" for a
    using mapped_in_range(1,2) [of "sys cfg" "dram cfg" "amap cfg" a] assms(1)
    by (simp add: GetChannel_mapping sound_cfg_def)
  moreover have "0 < channels (sys cfg)" using assms(1) by (simp add: sound_cfg_def)
  ultimately show "jedec_inv cfg s" using n sound_plain [OF assms(1)] by (simp add: jedec_inv_def zless_nat_conj)
qed

section \<open>A concrete system\<close>

lemma ddr4_sound: "sound_cfg ddr4_cfg"
proof -
  have m: "SetAddressMapping (sys ddr4_cfg) (dram ddr4_cfg) = Inr (amap ddr4_cfg)"
    using ddr4_x8_map by (simp add: ddr4_cfg_def)
  show ?thesis unfolding sound_cfg_def using m ddr4_dram_ok
    by (simp add: ddr4_cfg_def ddr4_x16_sys_def ddr4_x8_dram_def ddr4_x16_dram_def LogBase2.simps
        refresh_period_def InitTimingParams_def ddr4_reader_def Let_def)
qed

lemma ddr4_Jedec: "\<exists>s. new_Jedec ddr4_cfg = Inr s"
proof -
  have "channels (sys ddr4_cfg) = 1" "protocol (dram ddr4_cfg) \<noteq> HMC"
    by (simp_all add: ddr4_cfg_def ddr4_x16_sys_def ddr4_x8_dram_def ddr4_x16_dram_def)
  then show ?thesis using ddr4_controller by (auto simp: new_Jedec_def)
qed

text \<open>A history: a read and a write are simulated in one cycle, and three cycles pass.\<close>

definition sample_ev :: "bool \<Rightarrow> addr \<Rightarrow> AccEvent" where
  "sample_ev w a = \<lparr>ae_write = w, ae_prefetch = False, ae_addr = a, ae_coreid = 0, minStartCycle = 0, boundLatency = 40, sCycle = 0,
     issueCycle = 0, dramIssueCycle = 0, ev_state = EV_RUNNING\<rparr>"

definition sample_ops :: "CtrlOp list" where
  "sample_ops = [Access sample_req True, Simulate (sample_ev False 64) 0, Simulate (sample_ev True 4096) 0,
     Tick, Tick, Tick]"

definition sample_ests :: "MemLatencyEstimator list" where
  "sample_ests = [\<lparr>initial_latency = 40, strategy = Fixed\<rparr>]"

lemma sample_ops_ok: "ops_ok 1 0 sample_ops"
  by (simp add: sample_ops_def sample_ev_def sample_req_def)

section \<open>The ideal memory\<close>

lemma ideal_scan_bounds: "length (snd (ideal_scan lat clk ts)) \<le> length ts \<and> set (snd (ideal_scan lat clk ts)) \<subseteq> set ts"
proof (induction lat clk ts rule: ideal_scan.induct)
  case (2 lat clk t ts)
  show ?case
  proof (cases "int (sub64 clk (added_cycle t)) \<ge> lat mod 2 ^ 64")
    case True
    show ?thesis
    proof (cases ts)
      case (Cons u us)
      with 2(1) [OF True Cons] True show ?thesis by (auto simp: case_prod_unfold Let_def)
    qed (use True in simp)
  next
    case False
    with 2(2) show ?thesis by (auto simp: case_prod_unfold Let_def)
  qed
qed simp

lemma ideal_scan_expired:
  assumes "\<forall>t\<in>set ts. int (sub64 clk (added_cycle t)) \<ge> lat mod 2 ^ 64" "ts \<noteq> []"
  shows "length (snd (ideal_scan lat clk ts)) < length ts"
proof (cases ts)
  case (Cons t us)
  then show ?thesis using assms(1) ideal_scan_bounds [of lat clk "tl us"]
    by (cases us) (auto simp: case_prod_unfold Let_def)
qed (use assms in simp)

fun every_second :: "'a list \<Rightarrow> 'a list" where
  "every_second [] = []"
| "every_second [x] = [x]"
| "every_second (x # y # ys) = x # every_second ys"

lemma ideal_scan_halves:
  assumes "\<forall>t\<in>set ts. int (sub64 clk (added_cycle t)) \<ge> lat mod 2 ^ 64"
  shows "ideal_scan lat clk ts = (map t_addr (every_second ts), every_second (tl ts))"
  using assms
proof (induction ts rule: every_second.induct)
  case (3 x y ys)
  then show ?case by (cases ys) (simp_all add: Let_def)
qed simp_all

primrec ideal_ticks :: "Config \<Rightarrow> nat \<Rightarrow> IdealSystem \<Rightarrow> (u64 list \<times> IdealSystem) res" where
  "ideal_ticks cfg 0 s = Inr ([], s)"
| "ideal_ticks cfg (Suc n) s =
     bindR (ideal_ClockTick cfg s) (\<lambda>(as, s1). bindR (ideal_ticks cfg n s1) (\<lambda>(bs, s2). Inr (as @ bs, s2)))"

definition all_expired :: "int \<Rightarrow> nat \<Rightarrow> Transaction list \<Rightarrow> bool" where
  "all_expired lat clk ts \<longleftrightarrow> (\<forall>t\<in>set ts. added_cycle t \<le> clk \<and> lat \<le> int (clk - added_cycle t))"

lemma ideal_ticks_ok:
  assumes "0 \<le> ideal_memory_latency (rowt cfg)" "ideal_memory_latency (rowt cfg) < 2 ^ 31"
  shows "succeeds (ideal_ticks cfg n s) (\<lambda>(as, s'). id_clk s' = id_clk s + n \<and>
    set (infinite_buffer_q s') \<subseteq> set (infinite_buffer_q s) \<and>
    length (infinite_buffer_q s') \<le> length (infinite_buffer_q s) \<and>
    mset (map t_addr (infinite_buffer_q s)) = mset as + mset (map t_addr (infinite_buffer_q s')) \<and>
    (all_expired (ideal_memory_latency (rowt cfg)) (id_clk s) (infinite_buffer_q s) \<longrightarrow>
       length (infinite_buffer_q s') \<le> length (infinite_buffer_q s) - n))"
proof (induction n arbitrary: s)
  case (Suc n)
  let ?l = "ideal_memory_latency (rowt cfg)" and ?q = "infinite_buffer_q s"
  obtain as q where sc: "ideal_scan ?l (id_clk s) ?q = (as, q)" by force
  let ?s1 = "s\<lparr>infinite_buffer_q := q, id_clk := id_clk s + 1\<rparr>"
  from ideal_scan_bounds [of ?l "id_clk s" ?q] sc have b: "length q \<le> length ?q" "set q \<subseteq> set ?q" by simp_all
  have m: "mset (map t_addr ?q) = mset as + mset (map t_addr q)" by (rule ideal_scan_mset [OF sc])
  from Suc.IH [of ?s1] obtain bs s2 where r: "ideal_ticks cfg n ?s1 = Inr (bs, s2)" "id_clk s2 = id_clk s + 1 + n"
    "set (infinite_buffer_q s2) \<subseteq> set q" "length (infinite_buffer_q s2) \<le> length q"
    "mset (map t_addr q) = mset bs + mset (map t_addr (infinite_buffer_q s2))"
    "all_expired ?l (id_clk s + 1) q \<longrightarrow> length (infinite_buffer_q s2) \<le> length q - n"
    by (auto simp: succeeds_iff)
  have less: "length (infinite_buffer_q s2) \<le> length ?q - Suc n" if e: "all_expired ?l (id_clk s) ?q"
  proof -
    have "\<forall>t\<in>set ?q. int (sub64 (id_clk s) (added_cycle t)) \<ge> ?l mod 2 ^ 64"
      using e assms by (auto simp: all_expired_def)
    from ideal_scan_expired [OF this] sc have "?q = [] \<or> length q < length ?q" by auto
    moreover have "all_expired ?l (id_clk s + 1) q" using e b(2) by (fastforce simp: all_expired_def)
    ultimately show ?thesis using r(6) b(1) by auto
  qed
  have "ideal_ticks cfg (Suc n) s = Inr (as @ bs, s2)" using sc r(1) by (simp add: ideal_ClockTick_def)
  then show ?case using r(2-4) b m less r(5) by (simp add: ac_simps)
qed simp

lemma ideal_ticks_add:
  "ideal_ticks cfg (m + n) s =
   bindR (ideal_ticks cfg m s) (\<lambda>(as, s1). bindR (ideal_ticks cfg n s1) (\<lambda>(bs, s2). Inr (as @ bs, s2)))"
proof (induction m arbitrary: s)
  case 0
  then show ?case by (cases "ideal_ticks cfg n s") auto
next
  case (Suc m)
  show ?case
  proof (cases "ideal_ClockTick cfg s")
    case (Inr p)
    obtain as s1 where p: "p = (as, s1)" by force
    show ?thesis using Suc.IH [of s1] Inr p
      by (cases "ideal_ticks cfg m s1") (auto simp: bindR_def split: sum.splits)
  qed simp
qed

section \<open>Properties\<close>

text \<open>
  C2: DRAMsim3 attached to the simulator, end to end: under a sound configuration, every history of
  accesses, simulated events and ticks runs without an assertion, a panic or an exit of either part;
  afterwards every simulated event is exactly once among the completed, in-flight and waiting ones,
  completed events carry ordered cycles, the statistics are those of the completed events, and the
  events in flight are exactly what the channels of DRAMsim3 still owe.
\<close>

theorem attached_memory_conserves:
  assumes "sound_cfg cfg" "new_Jedec cfg = Inr s" "c < d"
    and "DRAMsim3_new ests cores n c d s = Inr m" "length ests = n" "ops_ok n 0 xs"
  shows "\<exists>m'. ctrl_run (jedec_ops cfg) lineBits xs m = Inr m' \<and>
    mset (map (ev_key \<circ> fst) (completions m')) + mset (map (ev_key \<circ> snd) (inflightRequests m')) +
      mset (map ev_key (notQueuedRequests m')) = op_keys xs \<and>
    (\<forall>p\<in>set (completions m'). ev_state (fst p) = EV_DONE \<and> sCycle (fst p) \<le> issueCycle (fst p) \<and>
       issueCycle (fst p) < snd p \<and> snd p \<le> ticks xs + 1) \<and>
    stats_ok (completions m') (mstats m') \<and>
    mset (map fst (inflightRequests m')) = owed_all (ctrls (wrapper m'))"
proof -
  note j = new_Jedec_ok [OF assms(1,2)]
  note i = jedec.new_inv [OF assms(3) j assms(4,5)]
  have "ops_ok n (curCycle (clock m)) xs" using i(3) assms(6) by (simp add: new_clock_def)
  from jedec.run_ok [OF i(1) this, of lineBits] i show ?thesis
    by (auto simp: succeeds_iff ctrl_inv_def core_inv_def all_keys_def flying_keys_def new_clock_def
        list_all_iff done_ok_def)
qed

theorem attached_memory_conserves_witness:
  "\<exists>s m m'. new_Jedec ddr4_cfg = Inr s \<and> DRAMsim3_new sample_ests [] 1 500 1000 s = Inr m \<and>
    ctrl_run (jedec_ops ddr4_cfg) 6 sample_ops m = Inr m' \<and>
    mset (map (ev_key \<circ> fst) (completions m')) + mset (map (ev_key \<circ> snd) (inflightRequests m')) +
      mset (map ev_key (notQueuedRequests m')) = {#(False, 64, 0, 0, 40, 0), (True, 4096, 0, 0, 40, 0)#}"
proof -
  from ddr4_Jedec obtain s where s: "new_Jedec ddr4_cfg = Inr s" by blast
  obtain m where m: "DRAMsim3_new sample_ests [] 1 500 1000 s = Inr m" by (simp add: DRAMsim3_new_def)
  show ?thesis
    using attached_memory_conserves [OF ddr4_sound s _ m _ sample_ops_ok, of 6] s m
    by (auto simp: sample_ests_def sample_ops_def sample_ev_def ev_key_def)
qed





text \<open>
  C27: the ideal memory serves everything: with a latency \<open>l\<close> and \<open>k\<close> transactions buffered, after
  \<open>l + k\<close> cycles without new ones every one of them has been called back exactly once and the
  buffer is empty.
\<close>

theorem ideal_serves_all:
  assumes "0 \<le> ideal_memory_latency (rowt cfg)" "ideal_memory_latency (rowt cfg) < 2 ^ 31"
    and "\<forall>t\<in>set (infinite_buffer_q s). added_cycle t \<le> id_clk s"
  shows "\<exists>as s'. ideal_ticks cfg (nat (ideal_memory_latency (rowt cfg)) + length (infinite_buffer_q s)) s = Inr (as, s') \<and>
    infinite_buffer_q s' = [] \<and> mset as = mset (map t_addr (infinite_buffer_q s))"
proof -
  let ?l = "ideal_memory_latency (rowt cfg)" and ?k = "length (infinite_buffer_q s)"
  from ideal_ticks_ok [OF assms(1,2), of "nat ?l" s] obtain as s1 where
    a: "ideal_ticks cfg (nat ?l) s = Inr (as, s1)" "id_clk s1 = id_clk s + nat ?l"
      "set (infinite_buffer_q s1) \<subseteq> set (infinite_buffer_q s)" "length (infinite_buffer_q s1) \<le> ?k"
      "mset (map t_addr (infinite_buffer_q s)) = mset as + mset (map t_addr (infinite_buffer_q s1))"
    by (auto simp: succeeds_iff)
  have e: "all_expired ?l (id_clk s1) (infinite_buffer_q s1)"
    using a(2,3) assms(1,3) by (fastforce simp: all_expired_def)
  from ideal_ticks_ok [OF assms(1,2), of ?k s1] obtain bs s2 where
    b: "ideal_ticks cfg ?k s1 = Inr (bs, s2)" "length (infinite_buffer_q s2) \<le> length (infinite_buffer_q s1) - ?k"
      "mset (map t_addr (infinite_buffer_q s1)) = mset bs + mset (map t_addr (infinite_buffer_q s2))"
    using e by (auto simp: succeeds_iff)
  have "infinite_buffer_q s2 = []" using b(2) a(4) by simp
  then show ?thesis using a(1,5) b(1,3) by (simp add: ideal_ticks_add)
qed

definition two_buffered :: IdealSystem where
  "two_buffered = \<lparr>id_clk = 7, infinite_buffer_q = [mk_trans 64 False, mk_trans 128 True]\<rparr>"

theorem ideal_serves_all_witness:
  "\<exists>as s'. ideal_ticks ddr4_cfg 12 two_buffered = Inr (as, s') \<and> infinite_buffer_q s' = [] \<and> mset as = {#64, 128#}"
proof -
  have "ideal_memory_latency (rowt ddr4_cfg) = 10"
    by (simp add: ddr4_cfg_def InitTimingParams_def ddr4_reader_def Let_def)
  then show ?thesis using ideal_serves_all [of ddr4_cfg two_buffered] by (simp add: two_buffered_def mk_trans_def)
qed

text \<open>
  Of the transactions whose latency is over, the ideal memory calls back only every second one in
  a cycle, and leaves the others for the next: after an erasure its iterator is advanced twice.
\<close>

theorem ideal_passes_over:
  assumes "\<forall>t\<in>set (infinite_buffer_q s). int (sub64 (id_clk s) (added_cycle t)) \<ge> ideal_memory_latency (rowt cfg) mod 2 ^ 64"
  shows "ideal_ClockTick cfg s = Inr (map t_addr (every_second (infinite_buffer_q s)),
    s\<lparr>infinite_buffer_q := every_second (tl (infinite_buffer_q s)), id_clk := id_clk s + 1\<rparr>)"
  using ideal_scan_halves [OF assms] by (simp add: ideal_ClockTick_def)

definition ideal_cfg :: Config where
  "ideal_cfg = ddr4_cfg\<lparr>rowt := (rowt ddr4_cfg)\<lparr>ideal_memory_latency := 5\<rparr>\<rparr>"

theorem ideal_passes_over_witness:
  "ideal_ClockTick ideal_cfg two_buffered = Inr ([64], \<lparr>id_clk = 8, infinite_buffer_q = [mk_trans 128 True]\<rparr>)"
  using ideal_passes_over [of two_buffered ideal_cfg] by (simp add: ideal_cfg_def two_buffered_def mk_trans_def)

text \<open>
  C38: a bound phase access other than a clean write-back answers the cycle of the request plus the
  latency estimate of its core, grants the state of its type, and leaves a record for the weave
  phase whose event holds the line's byte address and that estimate. The record's response cycle
  is the one before the estimate is added, so the delay that the core puts behind the completed
  memory event is the whole estimate again.
\<close>

theorem access_answers_estimate:
  assumes "srcId req < length (estimators m)" "req_type req \<noteq> PUTS"
  shows "let est = (if is_bound_phase m then estimators m else map est_reset (estimators m)) ! srcId req;
             lat = unat (getMemLatency est)
         in \<exists>tr m'. dramsim3_access lineBits True req m = Inr (cycle req + lat, granted_state req, Some tr, m') \<and>
              is_bound_phase m' \<and> tr_respCycle tr = cycle req \<and> tr_type tr = req_type req \<and>
              ae_addr (tr_event tr) = push_bit lineBits (lineAddr req) \<and>
              ae_write (tr_event tr) = (req_type req = PUTX) \<and> unat (boundLatency (tr_event tr)) = lat \<and>
              downDelay (cycle req + lat) tr = Inr lat"
  using assms
  by (cases "is_bound_phase m")
     (simp_all add: dramsim3_access_def record_access_def start_bound_phase_def Let_def downDelay_def)

theorem access_answers_estimate_witness:
  "\<exists>m tr m'. DRAMsim3_new sample_ests [] 1 476 625 two_buffered = Inr m \<and>
     dramsim3_access 6 True sample_req m = Inr (47, E, Some tr, m') \<and> downDelay 47 tr = Inr 40"
proof -
  obtain m where m: "DRAMsim3_new sample_ests [] 1 476 625 two_buffered = Inr m" by (simp add: DRAMsim3_new_def)
  then have e: "estimators m = sample_ests" "\<not> is_bound_phase m" by (auto simp: DRAMsim3_new_def require_eq_Inr_iff)
  have lat: "unat (getMemLatency (est_reset (sample_ests ! 0))) = 40"
    by (simp add: sample_ests_def getMemLatency_def est_reset_def)
  have "srcId sample_req < length (estimators m)" "req_type sample_req \<noteq> PUTS" by (simp_all add: e sample_ests_def sample_req_def)
  from access_answers_estimate [OF this, of 6] show ?thesis using m e lat
    by (auto simp: sample_req_def sample_ests_def granted_state_def Let_def is_flag_def)
qed

end
