(* ===== verification/Timing_Events.thy ===== *)
theory Timing_Events
  imports Mem_Ctrl
begin

text \<open>
  The events of the weave phase (\<open>timing_event.h\<close>, \<open>timing_event.cpp\<close>) and the slot that
  passes them from a memory access to its core (\<open>event_recorder.h\<close>). Events form a graph: an
  event runs when all its parents are done. Events live in a list and a pointer to an event
  is its index there. Domain crossings are left out: the graph is that of a simulation with
  one domain.
\<close>

section \<open>Events\<close>

text \<open>
  The class of an event decides what happens when its parents are done: a \<open>DelayEvent\<close> is done
  itself after its delay, every other event is handed to the contention simulation.
\<close>

datatype EvKind = DelayEv | QueuedEv

record TimingEvent =
  te_kind :: EvKind
  te_state :: EventState
  te_cycle :: nat
  te_minStart :: nat
  te_blocks :: "nat list list"
  te_domain :: int
  te_numParents :: nat
  te_preDelay :: nat
  te_postDelay :: nat

text \<open>
  The events, those handed to the contention simulation with their cycles, in order, and a log
  of the events that are done with the cycles at which they were (the log is not in the code: a
  done event is freed there).
\<close>

record Weave =
  events :: "TimingEvent list"
  queued :: "(nat \<times> nat) list"
  finished :: "(nat \<times> nat) list"

definition new_event :: "EvKind \<Rightarrow> nat \<Rightarrow> nat \<Rightarrow> int \<Rightarrow> TimingEvent" where
  "new_event k pre post d =
     \<lparr>te_kind = k, te_state = EV_NONE, te_cycle = 0, te_minStart = 2 ^ 64 - 1, te_blocks = [],
      te_domain = d, te_numParents = 0, te_preDelay = pre mod 2 ^ 32, te_postDelay = post mod 2 ^ 32\<rparr>"

definition new_DelayEvent :: "nat \<Rightarrow> TimingEvent" where
  "new_DelayEvent delay = new_event DelayEv delay 0 (-1)"

definition alloc :: "TimingEvent \<Rightarrow> Weave \<Rightarrow> nat \<times> Weave" where
  "alloc e w = (length (events w), w\<lparr>events := events w @ [e]\<rparr>)"

text \<open>An event writes to itself through its index.\<close>

definition upd_event :: "nat \<Rightarrow> (TimingEvent \<Rightarrow> TimingEvent) \<Rightarrow> Weave \<Rightarrow> Weave" where
  "upd_event i f w = w\<lparr>events := (events w)[i := f (events w ! i)]\<rparr>"

definition setMinStartCycle :: "nat \<Rightarrow> nat \<Rightarrow> Weave \<Rightarrow> Weave" where
  "setMinStartCycle i c = upd_event i (te_minStart_update (\<lambda>_. c))"

section \<open>Children\<close>

text \<open>
  The children are kept in blocks of three, the newest block first, and visited block by block.
  A single child is stored in the event itself, which is the block with one child here.
\<close>

definition visit :: "TimingEvent \<Rightarrow> nat list" where
  "visit e = concat (te_blocks e)"

lemma visit_upd [simp]:
  "visit (te_state_update f e) = visit e" "visit (te_cycle_update f' e) = visit e"
  "visit (te_numParents_update f' e) = visit e" "visit (te_domain_update g e) = visit e"
  "visit (te_minStart_update f' e) = visit e"
  by (simp_all add: visit_def)

definition numChildren :: "TimingEvent \<Rightarrow> nat" where
  "numChildren e = length (visit e)"

definition push_child :: "nat \<Rightarrow> TimingEvent \<Rightarrow> TimingEvent" where
  "push_child c e =
     (if numChildren e mod 3 = 0 then e\<lparr>te_blocks := [c] # te_blocks e\<rparr>
      else e\<lparr>te_blocks := (hd (te_blocks e) @ [c]) # tl (te_blocks e)\<rparr>)"

text \<open>Run a step for every element of a list, in order.\<close>

fun eachR :: "('a \<Rightarrow> 's \<Rightarrow> 's res) \<Rightarrow> 'a list \<Rightarrow> 's \<Rightarrow> 's res" where
  "eachR f [] s = Inr s"
| "eachR f (x # xs) s = bindR (f x s) (eachR f xs)"

text \<open>The recursion of \<open>propagateDomain\<close> goes as deep as the fuel.\<close>

primrec propagateDomain :: "nat \<Rightarrow> int \<Rightarrow> nat \<Rightarrow> Weave \<Rightarrow> Weave res" where
  "propagateDomain 0 d i w = Inl (Undefined ''stack'')"
| "propagateDomain (Suc k) d i w =
     require (te_domain (events w ! i) = - 1) (AssertFail ''domain == -1'')
       (eachR (\<lambda>c w. if te_domain (events w ! c) = - 1 then propagateDomain k d c w else Inr w)
          (visit (events w ! i)) (upd_event i (te_domain_update (\<lambda>_. d)) w))"

definition addChild :: "nat \<Rightarrow> nat \<Rightarrow> Weave \<Rightarrow> (nat \<times> Weave) res" where
  "addChild p c w =
     require (te_state (events w ! p) \<in> {EV_NONE, EV_QUEUED}) (AssertFail ''adding child in invalid state'')
       (require (te_state (events w ! c) = EV_NONE) (AssertFail ''childEv->state == EV_NONE'')
         (let w1 = upd_event p (push_child c) w;
              d = te_domain (events w1 ! p)
          in bindR (if d \<noteq> - 1 \<and> te_domain (events w1 ! c) = - 1
                    then propagateDomain (Suc (length (events w1))) d c w1 else Inr w1) (\<lambda>w2.
               Inr (c, upd_event c (te_numParents_update Suc) w2))))"

section \<open>The life of an event\<close>

text \<open>\<open>queue\<close> hands over an event without parents; the cycle is stored with it.\<close>

definition te_queue :: "nat \<Rightarrow> nat \<Rightarrow> Weave \<Rightarrow> Weave res" where
  "te_queue i c w =
     require (te_state (events w ! i) = EV_NONE \<and> te_numParents (events w ! i) = 0)
       (AssertFail ''state == EV_NONE && numParents == 0'')
       (Inr ((upd_event i (te_state_update (\<lambda>_. EV_QUEUED)) w)\<lparr>queued := queued w @ [(i, c)]\<rparr>))"

definition te_requeue :: "nat \<Rightarrow> nat \<Rightarrow> Weave \<Rightarrow> Weave res" where
  "te_requeue i c w =
     require (te_numParents (events w ! i) = 0) (AssertFail ''numParents == 0'')
       (require (te_state (events w ! i) \<in> {EV_RUNNING, EV_HELD}) (AssertFail ''state == EV_RUNNING || state == EV_HELD'')
         (Inr ((upd_event i (te_state_update (\<lambda>_. EV_QUEUED)) w)\<lparr>queued := queued w @ [(i, c)]\<rparr>)))"

definition te_hold :: "nat \<Rightarrow> Weave \<Rightarrow> Weave res" where
  "te_hold i w = require (te_state (events w ! i) = EV_RUNNING) (AssertFail ''called hold()'')
     (Inr (upd_event i (te_state_update (\<lambda>_. EV_HELD)) w))"

definition te_release :: "nat \<Rightarrow> Weave \<Rightarrow> Weave res" where
  "te_release i w = require (te_state (events w ! i) = EV_HELD) (AssertFail ''state should be EV_HELD'')
     (Inr (upd_event i (te_state_update (\<lambda>_. EV_RUNNING)) w))"

text \<open>
  \<open>parentDone\<close>: one parent is done, at \<open>startCycle\<close>. The argument \<open>fin\<close> is the method \<open>done\<close> of
  the event; only a \<open>DelayEvent\<close> calls it. Its version of the method does not check the count, which
  wraps below zero.
\<close>

definition parentDone :: "(nat \<Rightarrow> nat \<Rightarrow> Weave \<Rightarrow> Weave res) \<Rightarrow> nat \<Rightarrow> nat \<Rightarrow> Weave \<Rightarrow> Weave res" where
  "parentDone fin i startCycle w =
     (let e = events w ! i; c = max (te_cycle e) startCycle; n = te_numParents e
      in case te_kind e of
           QueuedEv \<Rightarrow>
             require (0 < n) (AssertFail ''numParents'')
               (let w1 = upd_event i (\<lambda>e. e\<lparr>te_cycle := c, te_numParents := n - 1\<rparr>) w in
                if n = 1 then
                  require (te_state e = EV_NONE) (AssertFail ''state == EV_NONE'')
                    (Inr ((upd_event i (te_state_update (\<lambda>_. EV_QUEUED)) w1)
                            \<lparr>queued := queued w1 @ [(i, c + te_preDelay e)]\<rparr>))
                else Inr w1)
         | DelayEv \<Rightarrow>
             (let n1 = (if n = 0 then 2 ^ 32 - 1 else n - 1);
                  w1 = upd_event i (\<lambda>e. e\<lparr>te_cycle := c, te_numParents := n1\<rparr>) w
              in if n1 = 0 then fin i (c + te_preDelay e) (upd_event i (te_state_update (\<lambda>_. EV_RUNNING)) w1)
                 else Inr w1))"

text \<open>
  \<open>done\<close> wakes the children, in the order of the visit; the calls nest through the
  \<open>DelayEvent\<close>s on the way, as deep as the fuel.
\<close>

primrec ev_done :: "nat \<Rightarrow> nat \<Rightarrow> nat \<Rightarrow> Weave \<Rightarrow> Weave res" where
  "ev_done 0 i doneCycle w = Inl (Undefined ''stack'')"
| "ev_done (Suc k) i doneCycle w =
     require (te_state (events w ! i) = EV_RUNNING) (AssertFail ''state == EV_RUNNING'')
       (eachR (\<lambda>c. parentDone (ev_done k) c (doneCycle + te_postDelay (events w ! i))) (visit (events w ! i))
          ((upd_event i (te_state_update (\<lambda>_. EV_DONE)) w)\<lparr>finished := finished w @ [(i, doneCycle)]\<rparr>))"

text \<open>
  \<open>run\<close>: what the contention simulation does with the event it dequeues. An event that comes up
  before the cycle it asked for goes back to the queue; \<open>simulate\<close> is the event's own method.
\<close>

definition te_run :: "(nat \<Rightarrow> nat \<Rightarrow> Weave \<Rightarrow> Weave res) \<Rightarrow> nat \<Rightarrow> nat \<Rightarrow> Weave \<Rightarrow> Weave res" where
  "te_run simulate i startCycle w =
     require (te_state (events w ! i) \<in> {EV_NONE, EV_QUEUED}) (AssertFail ''run: state'')
       (let w1 = upd_event i (te_state_update (\<lambda>_. EV_RUNNING)) w in
        if startCycle < te_minStart (events w ! i) then te_requeue i (te_minStart (events w ! i)) w1
        else simulate i startCycle w1)"

section \<open>The recorder\<close>

text \<open>
  The record that an access leaves for its core; \<open>startEvent\<close> is null when there is none.
\<close>

record Recorded =
  rc_addr :: addr
  rc_reqCycle :: nat
  rc_respCycle :: nat
  rc_type :: AccessType
  rc_startEvent :: "nat option"
  rc_endEvent :: "nat option"

definition rc_valid :: "Recorded \<Rightarrow> bool" where
  "rc_valid r \<longleftrightarrow> rc_startEvent r \<noteq> None"

definition rc_clear :: "Recorded \<Rightarrow> Recorded" where
  "rc_clear r = r\<lparr>rc_startEvent := None\<rparr>"

text \<open>An event recorder is its slot \<open>tr\<close>; the allocator and the crossings are left out.\<close>

definition pushRecord :: "Recorded \<Rightarrow> Recorded \<Rightarrow> Recorded res" where
  "pushRecord r tr = require (\<not> rc_valid tr) (AssertFail ''!tr.isValid()'')
     (require (rc_valid r) (AssertFail ''tr.isValid()'') (Inr r))"

definition popRecord :: "Recorded \<Rightarrow> Recorded \<times> Recorded" where
  "popRecord tr = (tr, rc_clear tr)"

section \<open>The invariant of the graph\<close>

text \<open>
  \<open>contrib w c\<close> are the cycles that the finished parents of \<open>c\<close> bring, and \<open>live_edges w c\<close> counts
  the edges into \<open>c\<close> from events that are not done. Between the end of an event and the calls of
  its children, \<open>pend\<close> holds the notifications on the way.
\<close>

definition contrib :: "Weave \<Rightarrow> nat \<Rightarrow> nat set" where
  "contrib w c = {f + te_postDelay (events w ! p) | p f. (p, f) \<in> set (finished w) \<and> c \<in> set (visit (events w ! p))}"

definition live_edges :: "Weave \<Rightarrow> nat \<Rightarrow> nat" where
  "live_edges w c = (\<Sum>p<length (events w). if te_state (events w ! p) = EV_DONE then 0
                                          else count (mset (visit (events w ! p))) c)"

definition wv_inv :: "(nat \<times> nat) multiset \<Rightarrow> Weave \<Rightarrow> bool" where
  "wv_inv pend w \<longleftrightarrow>
     (\<forall>p<length (events w). set (visit (events w ! p)) \<subseteq> {..<length (events w)}) \<and>
     (\<forall>c<length (events w). te_numParents (events w ! c) =
        live_edges w c + count (image_mset fst pend) c) \<and>
     (\<forall>c<length (events w). 0 < te_numParents (events w ! c) \<longrightarrow> te_state (events w ! c) = EV_NONE) \<and>
     distinct (map fst (finished w)) \<and>
     fst ` set (finished w) = {p. p < length (events w) \<and> te_state (events w ! p) = EV_DONE} \<and>
     (\<forall>(c, t)\<in>#pend. c < length (events w) \<and> t \<in> contrib w c) \<and>
     (\<forall>c<length (events w). \<forall>t\<in>contrib w c. t \<le> te_cycle (events w ! c) \<or> (c, t) \<in># pend) \<and>
     (\<forall>c<length (events w). te_cycle (events w ! c) \<in> insert 0 (contrib w c))"

definition static :: "TimingEvent \<Rightarrow> EvKind \<times> nat list list \<times> nat \<times> nat \<times> nat \<times> int" where
  "static e = (te_kind e, te_blocks e, te_preDelay e, te_postDelay e, te_minStart e, te_domain e)"

definition same_graph :: "Weave \<Rightarrow> Weave \<Rightarrow> bool" where
  "same_graph w w' \<longleftrightarrow> length (events w') = length (events w) \<and>
     (\<forall>i<length (events w). static (events w' ! i) = static (events w ! i))"

lemma same_graphD:
  assumes "same_graph w w'"
  shows "length (events w') = length (events w)"
    and "i < length (events w) \<Longrightarrow> visit (events w' ! i) = visit (events w ! i)"
    and "i < length (events w) \<Longrightarrow> te_kind (events w' ! i) = te_kind (events w ! i)"
    and "i < length (events w) \<Longrightarrow> te_preDelay (events w' ! i) = te_preDelay (events w ! i)"
    and "i < length (events w) \<Longrightarrow> te_postDelay (events w' ! i) = te_postDelay (events w ! i)"
  using assms by (auto simp: same_graph_def static_def visit_def)

lemma same_graph_refl [simp]: "same_graph w w"
  by (simp add: same_graph_def)

lemma same_graph_trans: "same_graph u v \<Longrightarrow> same_graph v w \<Longrightarrow> same_graph u w"
  by (simp add: same_graph_def)

lemma length_upd_event [simp]: "length (events (upd_event i f w)) = length (events w)"
  by (simp add: upd_event_def)

lemma nth_upd_event: "i < length (events w) \<Longrightarrow>
    events (upd_event i f w) ! j = (if j = i then f (events w ! i) else events w ! j)"
  by (simp add: upd_event_def nth_upd)

lemma upd_event_rest [simp]: "queued (upd_event i f w) = queued w" "finished (upd_event i f w) = finished w"
  by (simp_all add: upd_event_def)

lemma same_graph_upd: "i < length (events w) \<Longrightarrow> static (f (events w ! i)) = static (events w ! i) \<Longrightarrow>
    same_graph w (upd_event i f w)"
  by (simp add: same_graph_def nth_upd_event)

lemma contrib_same:
  assumes "same_graph w w'" "finished w' = finished w" "fst ` set (finished w) \<subseteq> {..<length (events w)}"
  shows "contrib w' c = contrib w c"
proof -
  have "(p, f) \<in> set (finished w) \<Longrightarrow> p < length (events w)" for p f using assms(3) by force
  then show ?thesis
    using same_graphD(2,5) [OF assms(1)] unfolding contrib_def assms(2) by (intro Collect_cong) metis
qed

text \<open>The end of an event.\<close>

definition finish :: "nat \<Rightarrow> nat \<Rightarrow> Weave \<Rightarrow> Weave" where
  "finish i t w = (upd_event i (te_state_update (\<lambda>_. EV_DONE)) w)\<lparr>finished := finished w @ [(i, t)]\<rparr>"

lemma finish_simps:
  assumes "i < length (events w)"
  shows "same_graph w (finish i t w)" "length (events (finish i t w)) = length (events w)"
    and "queued (finish i t w) = queued w" "finished (finish i t w) = finished w @ [(i, t)]"
    and "events (finish i t w) ! j = (if j = i then (events w ! i)\<lparr>te_state := EV_DONE\<rparr> else events w ! j)"
  using assms by (auto simp: finish_def same_graph_def nth_upd_event static_def)

lemma live_edges_finish:
  assumes "i < length (events w)" "te_state (events w ! i) \<noteq> EV_DONE"
  shows "live_edges w c = live_edges (finish i t w) c + count (mset (visit (events w ! i))) c"
proof -
  let ?g = "\<lambda>w p. if te_state (events w ! p) = EV_DONE then 0 else count (mset (visit (events w ! p))) c"
  let ?n = "length (events w)"
  have s: "sum (?g w) {..<?n} = ?g w i + sum (?g w) ({..<?n} - {i})"
    "sum (?g (finish i t w)) {..<?n} = ?g (finish i t w) i + sum (?g (finish i t w)) ({..<?n} - {i})"
    using assms(1) by (simp_all add: sum.remove)
  have "sum (?g (finish i t w)) ({..<?n} - {i}) = sum (?g w) ({..<?n} - {i})"
    by (rule sum.cong) (simp_all add: finish_simps [OF assms(1)])
  with s show ?thesis using assms by (simp add: live_edges_def finish_simps)
qed

lemma contrib_finish:
  assumes "i < length (events w)" "wv_inv pend w"
  shows "contrib (finish i t w) c = contrib w c \<union> (if c \<in> set (visit (events w ! i)) then {t + te_postDelay (events w ! i)} else {})"
proof -
  have v: "visit (events (finish i t w) ! p) = visit (events w ! p)"
    "te_postDelay (events (finish i t w) ! p) = te_postDelay (events w ! p)" for p
    by (simp_all add: finish_simps [OF assms(1)] visit_def)
  show ?thesis by (auto simp: contrib_def v finish_simps(4) [OF assms(1)])
qed

definition notices :: "nat \<Rightarrow> nat list \<Rightarrow> (nat \<times> nat) multiset" where
  "notices t cs = image_mset (\<lambda>c. (c, t)) (mset cs)"

lemma notices_simps [simp]: "notices t [] = {#}" "notices t (c # cs) = add_mset (c, t) (notices t cs)"
  by (simp_all add: notices_def)

lemma fst_notices [simp]: "image_mset fst (notices t cs) = mset cs"
  by (simp add: notices_def image_mset.compositionality comp_def)

lemma in_notices [simp]: "d \<in># notices t cs \<longleftrightarrow> fst d \<in> set cs \<and> snd d = t"
  by (cases d) (auto simp: notices_def)

lemma wv_inv_queued [simp]: "wv_inv pend (w\<lparr>queued := qs\<rparr>) = wv_inv pend w"
  by (simp add: wv_inv_def live_edges_def contrib_def cong: if_cong)

lemma same_graph_queued [simp]: "same_graph w (w'\<lparr>queued := qs\<rparr>) = same_graph w w'"
  by (simp add: same_graph_def)

lemma wv_invD:
  assumes "wv_inv pend w"
  shows "p < length (events w) \<Longrightarrow> set (visit (events w ! p)) \<subseteq> {..<length (events w)}"
    and "c < length (events w) \<Longrightarrow> te_numParents (events w ! c) = live_edges w c + count (image_mset fst pend) c"
    and "c < length (events w) \<Longrightarrow> 0 < te_numParents (events w ! c) \<Longrightarrow> te_state (events w ! c) = EV_NONE"
    and "distinct (map fst (finished w))"
    and "fst ` set (finished w) = {p. p < length (events w) \<and> te_state (events w ! p) = EV_DONE}"
    and "(c, t) \<in># pend \<Longrightarrow> c < length (events w) \<and> t \<in> contrib w c"
    and "c < length (events w) \<Longrightarrow> t \<in> contrib w c \<Longrightarrow> t \<le> te_cycle (events w ! c) \<or> (c, t) \<in># pend"
    and "c < length (events w) \<Longrightarrow> te_cycle (events w ! c) \<in> insert 0 (contrib w c)"
  using assms by (simp_all add: wv_inv_def) auto

lemma finish_inv:
  assumes inv: "wv_inv pend w" and i: "i < length (events w)" and st: "te_state (events w ! i) = EV_RUNNING"
  shows "wv_inv (notices (t + te_postDelay (events w ! i)) (visit (events w ! i)) + pend) (finish i t w)"
proof -
  note f = finish_simps(2-5) [OF i] and d = wv_invD [OF inv]
  have v: "visit (events (finish i t w) ! p) = visit (events w ! p)" for p by (simp add: f visit_def)
  have n: "te_numParents (events (finish i t w) ! p) = te_numParents (events w ! p)"
    "te_cycle (events (finish i t w) ! p) = te_cycle (events w ! p)" for p by (simp_all add: f)
  have le: "live_edges w c = live_edges (finish i t w) c + count (mset (visit (events w ! i))) c" for c
    using live_edges_finish [OF i] st by simp
  have cb: "contrib (finish i t w) c =
    contrib w c \<union> (if c \<in> set (visit (events w ! i)) then {t + te_postDelay (events w ! i)} else {})" for c
    by (rule contrib_finish [OF i inv])
  show ?thesis
    unfolding wv_inv_def
  proof (intro conjI)
    show "\<forall>p<length (events (finish i t w)). set (visit (events (finish i t w) ! p)) \<subseteq> {..<length (events (finish i t w))}"
      using d(1) by (simp add: v f)
    show "\<forall>c<length (events (finish i t w)). te_numParents (events (finish i t w) ! c) = live_edges (finish i t w) c +
        count (image_mset fst (notices (t + te_postDelay (events w ! i)) (visit (events w ! i)) + pend)) c"
      using d(2) by (simp add: n f(1) le)
    show "\<forall>c<length (events (finish i t w)). 0 < te_numParents (events (finish i t w) ! c) \<longrightarrow>
        te_state (events (finish i t w) ! c) = EV_NONE"
      using d(3) d(3) [OF i] st by (auto simp: f)
    show "distinct (map fst (finished (finish i t w)))"
      using d(4,5) st i by (force simp: f)
    show "fst ` set (finished (finish i t w)) = {p. p < length (events (finish i t w)) \<and> te_state (events (finish i t w) ! p) = EV_DONE}"
      using d(5) i by (auto simp: f)
    show "\<forall>(c, t')\<in>#notices (t + te_postDelay (events w ! i)) (visit (events w ! i)) + pend.
        c < length (events (finish i t w)) \<and> t' \<in> contrib (finish i t w) c"
      using d(6) d(1) [OF i] by (auto simp: f(1) cb)
    show "\<forall>c<length (events (finish i t w)). \<forall>t'\<in>contrib (finish i t w) c. t' \<le> te_cycle (events (finish i t w) ! c) \<or>
        (c, t') \<in># notices (t + te_postDelay (events w ! i)) (visit (events w ! i)) + pend"
      using d(7) by (auto simp: f(1) n cb split: if_splits)
    show "\<forall>c<length (events (finish i t w)). te_cycle (events (finish i t w) ! c) \<in> insert 0 (contrib (finish i t w) c)"
    proof (intro allI impI)
      fix c assume "c < length (events (finish i t w))"
      with d(8) [of c] show "te_cycle (events (finish i t w) ! c) \<in> insert 0 (contrib (finish i t w) c)"
        by (auto simp: f(1) n cb)
    qed
  qed
qed

text \<open>One notification arrives.\<close>

definition receive :: "nat \<Rightarrow> nat \<Rightarrow> Weave \<Rightarrow> Weave" where
  "receive c t w = upd_event c (\<lambda>e. e\<lparr>te_cycle := max (te_cycle e) t, te_numParents := te_numParents e - 1\<rparr>) w"

lemma receive_simps:
  assumes "c < length (events w)"
  shows "same_graph w (receive c t w)" "length (events (receive c t w)) = length (events w)"
    and "queued (receive c t w) = queued w" "finished (receive c t w) = finished w"
    and "events (receive c t w) ! j = (if j = c then (events w ! c)\<lparr>te_cycle := max (te_cycle (events w ! c)) t,
           te_numParents := te_numParents (events w ! c) - 1\<rparr> else events w ! j)"
  using assms by (auto simp: receive_def nth_upd_event intro!: same_graph_upd) (simp add: static_def)

lemma live_edges_cong:
  assumes "same_graph w w'" "\<And>p. p < length (events w) \<Longrightarrow> te_state (events w' ! p) = EV_DONE \<longleftrightarrow> te_state (events w ! p) = EV_DONE"
  shows "live_edges w' c = live_edges w c"
  unfolding live_edges_def same_graphD(1) [OF assms(1)]
  by (rule sum.cong) (simp_all add: assms(2) same_graphD(2) [OF assms(1)])

lemma finished_range: "wv_inv pend w \<Longrightarrow> fst ` set (finished w) \<subseteq> {..<length (events w)}"
  by (auto simp: wv_invD(5))

lemma finished_zero:
  assumes "wv_inv pend w" "(x, f) \<in> set (finished w)"
  shows "x < length (events w)" "te_numParents (events w ! x) = 0"
proof -
  have "x \<in> fst ` set (finished w)" using assms(2) by force
  then have x: "x < length (events w)" "te_state (events w ! x) = EV_DONE" using wv_invD(5) [OF assms(1)] by auto
  then show "x < length (events w)" "te_numParents (events w ! x) = 0"
    using wv_invD(3) [OF assms(1), of x] by auto
qed

lemma receive_inv:
  assumes inv: "wv_inv (add_mset (c, t) pend) w"
  shows "wv_inv pend (receive c t w)" "0 < te_numParents (events w ! c)" "te_state (events w ! c) = EV_NONE"
    "c < length (events w)"
proof -
  note d = wv_invD [OF inv]
  from d(6) [of c t] have c: "c < length (events w)" and tc: "t \<in> contrib w c" by auto
  show "c < length (events w)" by fact
  show pos: "0 < te_numParents (events w ! c)" using d(2) [OF c] by simp
  show "te_state (events w ! c) = EV_NONE" using d(3) [OF c pos] .
  note r = receive_simps [OF c, of t]
  have v: "visit (events (receive c t w) ! p) = visit (events w ! p)" for p by (simp add: r visit_def)
  have s: "te_state (events (receive c t w) ! p) = te_state (events w ! p)" for p by (simp add: r)
  have le: "live_edges (receive c t w) x = live_edges w x" for x
    by (rule live_edges_cong [OF r(1)]) (simp add: s)
  have cb: "contrib (receive c t w) x = contrib w x" for x
    by (rule contrib_same [OF r(1,4) finished_range [OF inv]])
  show "wv_inv pend (receive c t w)"
    unfolding wv_inv_def
  proof (intro conjI)
    show "\<forall>x<length (events (receive c t w)). te_numParents (events (receive c t w) ! x) =
        live_edges (receive c t w) x + count (image_mset fst pend) x"
      using d(2) by (auto simp: r(2,5) le)
    show "\<forall>x<length (events (receive c t w)). \<forall>t'\<in>contrib (receive c t w) x.
        t' \<le> te_cycle (events (receive c t w) ! x) \<or> (x, t') \<in># pend"
      using d(7) by (fastforce simp: r(2,5) cb)
    show "\<forall>x<length (events (receive c t w)). te_cycle (events (receive c t w) ! x) \<in> insert 0 (contrib (receive c t w) x)"
      using d(8) tc d(8) [OF c] by (auto simp: r(2,5) cb max_def)
    show "\<forall>x<length (events (receive c t w)). 0 < te_numParents (events (receive c t w) ! x) \<longrightarrow>
        te_state (events (receive c t w) ! x) = EV_NONE"
      using d(3) by (auto simp: r(2,5))
    show "\<forall>(x, t')\<in>#pend. x < length (events (receive c t w)) \<and> t' \<in> contrib (receive c t w) x"
      using d(6) by (force simp: r(2) cb)
  qed (use d(1,4,5) in \<open>auto simp: r(2,4) v s cb\<close>)
qed

text \<open>A state change that does not end the event.\<close>

lemma state_inv:
  assumes inv: "wv_inv pend w" and i: "i < length (events w)" and np: "te_numParents (events w ! i) = 0"
    and st: "te_state (events w ! i) \<noteq> EV_DONE" "s \<noteq> EV_DONE"
  shows "wv_inv pend (upd_event i (te_state_update (\<lambda>_. s)) w)"
proof -
  note d = wv_invD [OF inv]
  let ?w = "upd_event i (te_state_update (\<lambda>_. s)) w"
  have sg: "same_graph w ?w" by (rule same_graph_upd [OF i]) (simp add: static_def)
  note n = nth_upd_event [OF i, of "te_state_update (\<lambda>_. s)"]
  have v: "visit (events ?w ! p) = visit (events w ! p)" for p by (simp add: n visit_def)
  have le: "live_edges ?w x = live_edges w x" for x
    by (rule live_edges_cong [OF sg]) (use st in \<open>simp add: n\<close>)
  have cb: "contrib ?w x = contrib w x" for x
    by (rule contrib_same [OF sg _ finished_range [OF inv]]) simp
  show ?thesis
    unfolding wv_inv_def
  proof (intro conjI)
    show "\<forall>c<length (events ?w). 0 < te_numParents (events ?w ! c) \<longrightarrow> te_state (events ?w ! c) = EV_NONE"
      using d(3) np by (simp add: n)
  qed (use d(1,2,4-8) st in \<open>auto simp: n v le cb\<close>)
qed

section \<open>Waking the children\<close>

text \<open>
  What a step of the weave phase does: the graph stays, the events that wait for nobody are
  left alone (but for those in \<open>D\<close>, which end), and the events that are handed over are exactly those of
  class \<open>QueuedEv\<close> whose last parent has come, none before the cycle \<open>t\<close>. Besides those of \<open>D\<close> only
  delay events end, each at its delay after its last parent.
\<close>

definition ready_end :: "Weave \<Rightarrow> nat \<times> nat \<Rightarrow> bool" where
  "ready_end w q \<longleftrightarrow> te_kind (events w ! fst q) = DelayEv \<and>
     snd q = te_cycle (events w ! fst q) + te_preDelay (events w ! fst q)"

definition ends :: "(nat \<times> nat) set \<Rightarrow> Weave \<Rightarrow> Weave \<Rightarrow> bool" where
  "ends D w w' \<longleftrightarrow> set (finished w) \<union> D \<subseteq> set (finished w') \<and>
     (\<forall>q\<in>set (finished w') - set (finished w). q \<in> D \<or> ready_end w' q)"

lemma ends_refl: "finished w' = finished w \<Longrightarrow> ends {} w w'"
  by (simp add: ends_def)

lemma ends_trans:
  assumes "ends D w w1" "ends {} w1 w2" "\<And>x f. (x, f) \<in> set (finished w1) \<Longrightarrow> events w2 ! x = events w1 ! x"
  shows "ends D w w2"
  unfolding ends_def
proof (intro conjI ballI)
  show "set (finished w) \<union> D \<subseteq> set (finished w2)" using assms(1,2) by (auto simp: ends_def)
  fix q assume q: "q \<in> set (finished w2) - set (finished w)"
  have "ready_end w1 q \<Longrightarrow> q \<in> set (finished w1) \<Longrightarrow> ready_end w2 q"
    using assms(3) [of "fst q" "snd q"] by (cases q) (simp add: ready_end_def)
  with q show "q \<in> D \<or> ready_end w2 q"
    using assms(1,2) by (cases "q \<in> set (finished w1)") (auto simp: ends_def)
qed

definition woken :: "Weave \<Rightarrow> Weave \<Rightarrow> nat \<Rightarrow> bool" where
  "woken w w' x \<longleftrightarrow> x < length (events w) \<and> 0 < te_numParents (events w ! x) \<and> te_numParents (events w' ! x) = 0"

definition fired :: "Weave \<Rightarrow> nat \<times> nat \<Rightarrow> bool" where
  "fired w q \<longleftrightarrow> te_kind (events w ! fst q) = QueuedEv \<and> te_state (events w ! fst q) = EV_QUEUED \<and>
     snd q = te_cycle (events w ! fst q) + te_preDelay (events w ! fst q)"

definition step_ok :: "(nat \<times> nat) set \<Rightarrow> (nat \<times> nat) multiset \<Rightarrow> nat \<Rightarrow> Weave \<Rightarrow> Weave \<Rightarrow> bool" where
  "step_ok D pend t w w' \<longleftrightarrow> wv_inv pend w' \<and> same_graph w w' \<and> ends D w w' \<and>
     (\<forall>x<length (events w). x \<notin> fst ` D \<and> te_numParents (events w ! x) = 0 \<longrightarrow> events w' ! x = events w ! x) \<and>
     (\<forall>x\<in>fst ` D. x < length (events w) \<longrightarrow> te_numParents (events w ! x) = 0 \<and>
        events w' ! x = (events w ! x)\<lparr>te_state := EV_DONE\<rparr>) \<and>
     (\<exists>new. queued w' = queued w @ new \<and> distinct (map fst new) \<and>
        (\<forall>q\<in>set new. woken w w' (fst q) \<and> fired w' q \<and> t \<le> snd q) \<and>
        (\<forall>x. woken w w' x \<longrightarrow> (if te_kind (events w ! x) = QueuedEv then x \<in> fst ` set new
                                else te_state (events w' ! x) = EV_DONE)))"

lemma step_okD:
  assumes "step_ok D pend t w w'"
  shows "wv_inv pend w'" "same_graph w w'" "ends D w w'"
    and "x < length (events w) \<Longrightarrow> x \<notin> fst ` D \<Longrightarrow> te_numParents (events w ! x) = 0 \<Longrightarrow> events w' ! x = events w ! x"
    and "x \<in> fst ` D \<Longrightarrow> x < length (events w) \<Longrightarrow> te_numParents (events w ! x) = 0 \<and>
      events w' ! x = (events w ! x)\<lparr>te_state := EV_DONE\<rparr>"
proof -
  note s = assms [unfolded step_ok_def]
  show "wv_inv pend w'" "same_graph w w'" "ends D w w'" using s by simp_all
  have "\<forall>x<length (events w). x \<notin> fst ` D \<and> te_numParents (events w ! x) = 0 \<longrightarrow> events w' ! x = events w ! x"
    by (rule s [THEN conjunct2, THEN conjunct2, THEN conjunct2, THEN conjunct1])
  then show "x < length (events w) \<Longrightarrow> x \<notin> fst ` D \<Longrightarrow> te_numParents (events w ! x) = 0 \<Longrightarrow> events w' ! x = events w ! x"
    by simp
  have "\<forall>x\<in>fst ` D. x < length (events w) \<longrightarrow> te_numParents (events w ! x) = 0 \<and>
      events w' ! x = (events w ! x)\<lparr>te_state := EV_DONE\<rparr>"
    by (rule s [THEN conjunct2, THEN conjunct2, THEN conjunct2, THEN conjunct2, THEN conjunct1])
  from this [rule_format]
  show "x \<in> fst ` D \<Longrightarrow> x < length (events w) \<Longrightarrow> te_numParents (events w ! x) = 0 \<and>
      events w' ! x = (events w ! x)\<lparr>te_state := EV_DONE\<rparr>" by assumption
qed

lemma step_ok_new:
  assumes "step_ok D pend t w w'"
  obtains new where "queued w' = queued w @ new" "distinct (map fst new)"
    and "\<And>q. q \<in> set new \<Longrightarrow> woken w w' (fst q) \<and> fired w' q \<and> t \<le> snd q"
    and "\<And>x. woken w w' x \<Longrightarrow> if te_kind (events w ! x) = QueuedEv then x \<in> fst ` set new
      else te_state (events w' ! x) = EV_DONE"
proof -
  have "\<exists>new. queued w' = queued w @ new \<and> distinct (map fst new) \<and>
        (\<forall>q\<in>set new. woken w w' (fst q) \<and> fired w' q \<and> t \<le> snd q) \<and>
        (\<forall>x. woken w w' x \<longrightarrow> (if te_kind (events w ! x) = QueuedEv then x \<in> fst ` set new
                                else te_state (events w' ! x) = EV_DONE))"
    using assms unfolding step_ok_def by (elim conjE)
  then obtain new where "queued w' = queued w @ new \<and> distinct (map fst new) \<and>
        (\<forall>q\<in>set new. woken w w' (fst q) \<and> fired w' q \<and> t \<le> snd q) \<and>
        (\<forall>x. woken w w' x \<longrightarrow> (if te_kind (events w ! x) = QueuedEv then x \<in> fst ` set new
                                else te_state (events w' ! x) = EV_DONE))" ..
  then show ?thesis by (intro that [of new]) blast+
qed

lemma not_woken_refl [simp]: "\<not> woken w w x"
  by (auto simp: woken_def)

lemma step_ok_refl: "wv_inv pend w \<Longrightarrow> step_ok {} pend t w w"
  by (simp add: step_ok_def ends_refl)

lemma step_ok_trans:
  assumes a: "step_ok D p1 t w w1" and b: "step_ok {} p2 t w1 w2"
  shows "step_ok D p2 t w w2"
proof -
  note A = step_okD [OF a] and B = step_okD [OF b]
  obtain n1 where n1: "queued w1 = queued w @ n1" "distinct (map fst n1)"
    "\<And>q. q \<in> set n1 \<Longrightarrow> woken w w1 (fst q) \<and> fired w1 q \<and> t \<le> snd q"
    "\<And>x. woken w w1 x \<Longrightarrow> if te_kind (events w ! x) = QueuedEv then x \<in> fst ` set n1 else te_state (events w1 ! x) = EV_DONE"
    by (rule step_ok_new [OF a]) blast
  obtain n2 where n2: "queued w2 = queued w1 @ n2" "distinct (map fst n2)"
    "\<And>q. q \<in> set n2 \<Longrightarrow> woken w1 w2 (fst q) \<and> fired w2 q \<and> t \<le> snd q"
    "\<And>x. woken w1 w2 x \<Longrightarrow> if te_kind (events w1 ! x) = QueuedEv then x \<in> fst ` set n2 else te_state (events w2 ! x) = EV_DONE"
    by (rule step_ok_new [OF b]) blast
  have len: "length (events w1) = length (events w)" by (rule same_graphD(1) [OF A(2)])
  have fin: "(x, f) \<in> set (finished w1) \<Longrightarrow> events w2 ! x = events w1 ! x" for x f
    using finished_zero [OF A(1)] B(4) by blast
  have kind: "x < length (events w) \<Longrightarrow> te_kind (events w1 ! x) = te_kind (events w ! x)" for x
    by (rule same_graphD(3) [OF A(2)])
  have zero: "te_numParents (events w1 ! x) = 0" if "x < length (events w)" "te_numParents (events w ! x) = 0" for x
    using A(4) [of x] A(5) [of x] that by (cases "x \<in> fst ` D") auto
  have w1: "woken w w1 x \<Longrightarrow> events w2 ! x = events w1 ! x \<and> woken w w2 x" for x
    using B(4) [of x] len by (auto simp: woken_def)
  have w2: "woken w1 w2 x \<Longrightarrow> woken w w2 x" for x
    using zero [of x] len by (cases "te_numParents (events w ! x) = 0") (auto simp: woken_def)
  have split: "woken w w2 x \<Longrightarrow> woken w w1 x \<or> woken w1 w2 x" for x
    using len by (auto simp: woken_def)
  have disj: "\<not> (woken w w1 x \<and> woken w1 w2 x)" for x by (auto simp: woken_def)
  show ?thesis
    unfolding step_ok_def
  proof (intro conjI exI [of _ "n1 @ n2"])
    show "same_graph w w2" by (rule same_graph_trans [OF A(2) B(2)])
    show "ends D w w2" by (rule ends_trans [OF A(3) B(3) fin])
    show "\<forall>x<length (events w). x \<notin> fst ` D \<and> te_numParents (events w ! x) = 0 \<longrightarrow> events w2 ! x = events w ! x"
      using A(4) B(4) len by auto
    show "\<forall>x\<in>fst ` D. x < length (events w) \<longrightarrow> te_numParents (events w ! x) = 0 \<and>
        events w2 ! x = (events w ! x)\<lparr>te_state := EV_DONE\<rparr>"
      using A(5) B(4) len by simp
    show "distinct (map fst (n1 @ n2))"
      using n1(2,3) n2(2,3) disj by (fastforce simp: disjoint_iff)
    show "\<forall>q\<in>set (n1 @ n2). woken w w2 (fst q) \<and> fired w2 q \<and> t \<le> snd q"
      using n1(3) n2(3) w1 w2 by (auto simp: fired_def)
    show "\<forall>x. woken w w2 x \<longrightarrow> (if te_kind (events w ! x) = QueuedEv then x \<in> fst ` set (n1 @ n2)
                                else te_state (events w2 ! x) = EV_DONE)"
    proof (intro allI impI)
      fix x assume x: "woken w w2 x"
      then have k: "te_kind (events w1 ! x) = te_kind (events w ! x)" using kind by (simp add: woken_def)
      from split [OF x] show "if te_kind (events w ! x) = QueuedEv then x \<in> fst ` set (n1 @ n2)
                                else te_state (events w2 ! x) = EV_DONE"
        using n1(4) [of x] n2(4) [of x] w1 [of x] k by (auto split: if_splits)
    qed
  qed (use B(1) n1(1) n2(1) in simp_all)
qed

lemma step_ok_later: "step_ok D p t' w w' \<Longrightarrow> t \<le> t' \<Longrightarrow> step_ok D p t w w'"
  by (fastforce simp: step_ok_def)

text \<open>The notified event as part of a step: before, it waited for one parent at least.\<close>

lemma step_ok_receive:
  assumes inv: "wv_inv (add_mset (c, t) pend) w" and more: "te_numParents (events w ! c) \<noteq> 1"
  shows "step_ok {} pend t w (receive c t w)"
proof -
  note r = receive_inv [OF inv] and s = receive_simps [OF receive_inv(4) [OF inv], of t]
  have "\<not> woken w (receive c t w) x" for x using r(2) more by (auto simp: woken_def s)
  then show ?thesis
    using r(1,2) s(1) by (auto simp: step_ok_def s ends_def)
qed

lemma step_ok_wake:
  assumes inv: "wv_inv (add_mset (c, t) pend) w" and last: "te_numParents (events w ! c) = 1"
    and k: "te_kind (events w ! c) = QueuedEv"
  shows "step_ok {} pend t w ((upd_event c (te_state_update (\<lambda>_. EV_QUEUED)) (receive c t w))
    \<lparr>queued := queued w @ [(c, max (te_cycle (events w ! c)) t + te_preDelay (events w ! c))]\<rparr>)"
    (is "step_ok {} pend t w (?w\<lparr>queued := queued w @ [?q]\<rparr>)")
proof -
  note r = receive_inv [OF inv] and s = receive_simps [OF receive_inv(4) [OF inv], of t]
  have c: "c < length (events (receive c t w))" using r(4) s(2) by simp
  have i: "wv_inv pend ?w" by (rule state_inv [OF r(1) c]) (use r(3) last in \<open>simp_all add: s(5)\<close>)
  have n: "events ?w ! j = (if j = c then (events w ! c)\<lparr>te_cycle := max (te_cycle (events w ! c)) t,
      te_numParents := 0, te_state := EV_QUEUED\<rparr> else events w ! j)" for j
    using last by (simp add: nth_upd_event [OF c] s(5))
  have sg: "same_graph w ?w"
    by (rule same_graph_trans [OF s(1)]) (rule same_graph_upd [OF c], simp add: static_def)
  have wk: "woken w (?w\<lparr>queued := queued w @ [?q]\<rparr>) x \<longleftrightarrow> x = c" for x
    using r(4) last by (auto simp: woken_def n)
  have "wv_inv pend (?w\<lparr>queued := queued w @ [?q]\<rparr>)" "same_graph w (?w\<lparr>queued := queued w @ [?q]\<rparr>)"
    using i sg by simp_all
  then show ?thesis
    using r(2) k unfolding step_ok_def
    by (auto simp: n wk fired_def ends_def s(4) intro!: exI [of _ "[?q]"])
qed

text \<open>A delay event at its last notification is done at once.\<close>

lemma step_ok_delay:
  assumes inv: "wv_inv (add_mset (c, t) pend) w" and last: "te_numParents (events w ! c) = 1"
    and k: "te_kind (events w ! c) = DelayEv"
    and w1: "w1 = upd_event c (te_state_update (\<lambda>_. EV_RUNNING)) (receive c t w)"
    and nested: "step_ok {(c, u)} pend t w1 w2" "u = te_cycle (events w1 ! c) + te_preDelay (events w1 ! c)"
  shows "step_ok {} pend t w w2"
proof -
  note r = receive_inv [OF inv] and s = receive_simps [OF receive_inv(4) [OF inv], of t]
  have c: "c < length (events (receive c t w))" using r(4) s(2) by simp
  have n: "events w1 ! j = (if j = c then (events w ! c)\<lparr>te_cycle := max (te_cycle (events w ! c)) t,
      te_numParents := 0, te_state := EV_RUNNING\<rparr> else events w ! j)" for j
    using last by (simp add: w1 nth_upd_event [OF c] s(5))
  have sg: "same_graph w w1" unfolding w1
    by (rule same_graph_trans [OF s(1)]) (rule same_graph_upd [OF c], simp add: static_def)
  have q: "queued w1 = queued w" by (simp add: w1 s)
  note b = step_okD [OF nested(1)]
  have b4: "events w2 ! c = (events w1 ! c)\<lparr>te_state := EV_DONE\<rparr>" using b(5) [of c] c by (simp add: w1)
  obtain new where nw: "queued w2 = queued w1 @ new" "distinct (map fst new)"
    "\<And>q. q \<in> set new \<Longrightarrow> woken w1 w2 (fst q) \<and> fired w2 q \<and> t \<le> snd q"
    "\<And>x. woken w1 w2 x \<Longrightarrow> if te_kind (events w1 ! x) = QueuedEv then x \<in> fst ` set new else te_state (events w2 ! x) = EV_DONE"
    by (rule step_ok_new [OF nested(1)]) blast
  have en: "ends {(c, u)} w1 w2" by (rule b(3))
  have fw: "finished w1 = finished w" by (simp add: w1 s(4))
  have len: "length (events w1) = length (events w)" using sg by (simp add: same_graph_def)
  have wk: "woken w w2 x \<longleftrightarrow> x = c \<or> woken w1 w2 x" for x
    using r(4) last len by (auto simp: woken_def n b4)
  have nc: "\<not> woken w1 w2 c" by (simp add: woken_def n)
  show ?thesis
    unfolding step_ok_def
  proof (intro conjI exI [of _ new])
    show "same_graph w w2" by (rule same_graph_trans [OF sg b(2)])
    have "ready_end w2 (c, u)" using k nested(2) by (simp add: ready_end_def b4 n)
    then show "ends {} w w2" using en by (auto simp: ends_def fw)
    show "\<forall>x<length (events w). x \<notin> fst ` {} \<and> te_numParents (events w ! x) = 0 \<longrightarrow> events w2 ! x = events w ! x"
    proof (intro allI impI)
      fix x assume "x < length (events w)" "x \<notin> fst ` {} \<and> te_numParents (events w ! x) = 0"
      moreover from this have "x \<noteq> c" using last by auto
      ultimately show "events w2 ! x = events w ! x" using b(4) [of x] len by (simp add: n)
    qed
    show "\<forall>q\<in>set new. woken w w2 (fst q) \<and> fired w2 q \<and> t \<le> snd q"
      using nw(3) wk by auto
    show "\<forall>x. woken w w2 x \<longrightarrow> (if te_kind (events w ! x) = QueuedEv then x \<in> fst ` set new
                                else te_state (events w2 ! x) = EV_DONE)"
    proof (intro allI impI)
      fix x assume "woken w w2 x"
      then show "if te_kind (events w ! x) = QueuedEv then x \<in> fst ` set new else te_state (events w2 ! x) = EV_DONE"
        using nw(4) [of x] wk [of x] nc k b4 by (cases "x = c") (simp_all add: n)
    qed
  qed (use b(1) nw(1,2) q in simp_all)
qed

definition ranked :: "(nat \<Rightarrow> nat) \<Rightarrow> Weave \<Rightarrow> bool" where
  "ranked rk w \<longleftrightarrow> (\<forall>p<length (events w). \<forall>c\<in>set (visit (events w ! p)). rk p < rk c)"

lemma ranked_same: "same_graph w w' \<Longrightarrow> ranked rk w' = ranked rk w"
  by (auto simp: ranked_def same_graphD)

lemma parentDone_ok:
  assumes inv: "wv_inv (add_mset (c, t) pend) w"
    and fin: "\<And>t' w1. wv_inv pend w1 \<Longrightarrow> same_graph w w1 \<Longrightarrow> te_state (events w1 ! c) = EV_RUNNING \<Longrightarrow>
      succeeds (fin c t' w1) (\<lambda>w2. step_ok {(c, t')} pend t' w1 w2)"
  shows "succeeds (parentDone fin c t w) (step_ok {} pend t w)"
proof -
  note r = receive_inv [OF inv] and s = receive_simps [OF receive_inv(4) [OF inv], of t]
  let ?w = "receive c t w"
  have c: "c < length (events ?w)" using r(4) s(2) by simp
  have rc: "upd_event c (\<lambda>e. e\<lparr>te_cycle := max (te_cycle (events w ! c)) t, te_numParents := te_numParents (events w ! c) - Suc 0\<rparr>) w = ?w"
    by (simp add: receive_def upd_event_def)
  show ?thesis
  proof (cases "te_numParents (events w ! c) = 1")
    case False
    have "te_numParents (events w ! c) - Suc 0 \<noteq> 0" using False r(2) by simp
    then have "parentDone fin c t w = Inr ?w"
      using False r(2) rc by (cases "te_kind (events w ! c)") (simp_all add: parentDone_def Let_def)
    then show ?thesis using step_ok_receive [OF inv False] by simp
  next
    case True
    show ?thesis
    proof (cases "te_kind (events w ! c)")
      case QueuedEv
      then show ?thesis using step_ok_wake [OF inv True QueuedEv] True r(3) rc s(3)
        by (simp add: parentDone_def Let_def)
    next
      case DelayEv
      let ?w1 = "upd_event c (te_state_update (\<lambda>_. EV_RUNNING)) ?w"
      let ?t = "max (te_cycle (events w ! c)) t + te_preDelay (events w ! c)"
      have "wv_inv pend ?w1" by (rule state_inv [OF r(1) c]) (use r(3) True in \<open>simp_all add: s(5)\<close>)
      moreover have "same_graph w ?w1"
        by (rule same_graph_trans [OF s(1)]) (rule same_graph_upd [OF c], simp add: static_def)
      ultimately have "succeeds (fin c ?t ?w1) (\<lambda>w2. step_ok {(c, ?t)} pend ?t ?w1 w2)"
        by (rule fin) (simp add: nth_upd_event [OF c])
      then have "succeeds (fin c ?t ?w1) (step_ok {} pend t w)"
      proof (rule succeeds_mono)
        fix w2 assume "step_ok {(c, ?t)} pend ?t ?w1 w2"
        then have "step_ok {(c, ?t)} pend t ?w1 w2" by (rule step_ok_later) simp
        then show "step_ok {} pend t w w2"
          by (rule step_ok_delay [OF inv True DelayEv refl]) (simp add: nth_upd_event [OF c] s(5))
      qed
      then show ?thesis using DelayEv True rc by (simp add: parentDone_def Let_def)
    qed
  qed
qed

lemma children_ok:
  assumes fin: "\<And>c t' pend w1. wv_inv pend w1 \<Longrightarrow> same_graph w w1 \<Longrightarrow> c \<in> set cs \<Longrightarrow>
      te_state (events w1 ! c) = EV_RUNNING \<Longrightarrow>
      succeeds (fin c t' w1) (\<lambda>w2. step_ok {(c, t')} pend t' w1 w2)"
    and "wv_inv (notices t cs + pend) w"
  shows "succeeds (eachR (\<lambda>c. parentDone fin c t) cs w) (step_ok {} pend t w)"
  using assms
proof (induction cs arbitrary: w)
  case Nil
  then show ?case by (simp add: step_ok_refl)
next
  case (Cons c cs)
  have inv: "wv_inv (add_mset (c, t) (notices t cs + pend)) w" using Cons.prems(2) by simp
  have "succeeds (parentDone fin c t w) (step_ok {} (notices t cs + pend) t w)"
    by (rule parentDone_ok [OF inv]) (rule Cons.prems(1), simp_all)
  then obtain w1 where w1: "parentDone fin c t w = Inr w1" "step_ok {} (notices t cs + pend) t w w1"
    by (auto simp: succeeds_iff)
  from w1(2) have i1: "wv_inv (notices t cs + pend) w1" and sg: "same_graph w w1" by (simp_all add: step_ok_def)
  have "succeeds (eachR (\<lambda>c. parentDone fin c t) cs w1) (step_ok {} pend t w1)"
    by (rule Cons.IH [OF _ i1]) (rule Cons.prems(1), assumption, erule same_graph_trans [OF sg], simp_all)
  then show ?case
    using w1(1) by (auto elim!: succeeds_mono intro: step_ok_trans [OF w1(2)])
qed

text \<open>The end of an event, with enough fuel for the longest chain of delay events behind it.\<close>

lemma step_ok_finish:
  assumes inv: "wv_inv pend w" and i: "i < length (events w)" and st: "te_state (events w ! i) = EV_RUNNING"
  shows "step_ok {(i, t)} (notices (t + te_postDelay (events w ! i)) (visit (events w ! i)) + pend) t w (finish i t w)"
proof -
  note f = finish_simps [OF i]
  have "te_numParents (events w ! i) = 0"
    using wv_invD(3) [OF inv i] st by auto
  moreover have "\<not> woken w (finish i t w) x" for x by (auto simp: woken_def f(5))
  ultimately show ?thesis using finish_inv [OF inv i st] f(1) by (auto simp: step_ok_def ends_def f(3-5))
qed

lemma ev_done_ok:
  assumes "wv_inv pend w" "ranked rk w" "i < length (events w)" "te_state (events w ! i) = EV_RUNNING"
    and "\<forall>p<length (events w). rk p < K" "K \<le> k + rk i"
  shows "succeeds (ev_done k i t w) (step_ok {(i, t)} pend t w)"
  using assms
proof (induction k arbitrary: pend i t w)
  case 0
  then show ?case by auto
next
  case (Suc k)
  note i = Suc.prems(3) and rk = Suc.prems(2)
  let ?cs = "visit (events w ! i)" and ?t = "t + te_postDelay (events w ! i)"
  have f: "step_ok {(i, t)} (notices ?t ?cs + pend) t w (finish i t w)" by (rule step_ok_finish) fact+
  then have inv: "wv_inv (notices ?t ?cs + pend) (finish i t w)" and sg: "same_graph w (finish i t w)"
    by (simp_all add: step_ok_def)
  have "succeeds (eachR (\<lambda>c. parentDone (ev_done k) c ?t) ?cs (finish i t w)) (step_ok {} pend ?t (finish i t w))"
  proof (rule children_ok [OF _ inv])
    fix c t' pend' w1
    assume a: "wv_inv pend' w1" "same_graph (finish i t w) w1" "c \<in> set ?cs" "te_state (events w1 ! c) = EV_RUNNING"
    from same_graph_trans [OF sg a(2)] have g: "same_graph w w1" .
    have len: "length (events w1) = length (events w)" by (rule same_graphD(1) [OF g])
    have c: "c < length (events w)" using wv_invD(1) [OF Suc.prems(1) i] a(3) by auto
    have "rk i < rk c" using rk i a(3) by (auto simp: ranked_def)
    then show "succeeds (ev_done k c t' w1) (\<lambda>w2. step_ok {(c, t')} pend' t' w1 w2)"
      using Suc.prems(5,6) a(1,4) c len ranked_same [OF g, of rk] rk by (intro Suc.IH) simp_all
  qed
  then have "succeeds (eachR (\<lambda>c. parentDone (ev_done k) c ?t) ?cs (finish i t w))
      (step_ok {(i, t)} pend t w)"
  proof (rule succeeds_mono)
    fix w' assume "step_ok {} pend ?t (finish i t w) w'"
    then have "step_ok {} pend t (finish i t w) w'" by (rule step_ok_later) simp
    then show "step_ok {(i, t)} pend t w w'" by (rule step_ok_trans [OF f])
  qed
  then show ?case using Suc.prems(4) by (simp add: finish_def)
qed

lemma waiting_iff:
  assumes "wv_inv {#} w" "q < length (events w)"
  shows "0 < te_numParents (events w ! q) \<longleftrightarrow>
    (\<exists>p<length (events w). q \<in> set (visit (events w ! p)) \<and> te_state (events w ! p) \<noteq> EV_DONE)"
  using wv_invD(2) [OF assms] by (auto simp: live_edges_def sum_eq_0_iff neq0_conv [symmetric] simp del: neq0_conv)

lemma max_contrib:
  assumes "wv_inv {#} w" "q < length (events w)"
  shows "te_cycle (events w ! q) = Max (insert 0 (contrib w q))"
proof (rule Max_eqI [symmetric])
  have "contrib w q \<subseteq> {0..te_cycle (events w ! q)}" using wv_invD(7) [OF assms] by auto
  then show "finite (insert 0 (contrib w q))" using finite_subset by auto
qed (use wv_invD(7,8) [OF assms] in auto)

section \<open>Building the graph\<close>

lemma mset_visit_push [simp]: "mset (visit (push_child c e)) = add_mset c (mset (visit e))"
proof (cases "te_blocks e")
  case (Cons b bs)
  then show ?thesis by (simp add: push_child_def visit_def)
qed (simp add: push_child_def visit_def numChildren_def)

lemma set_visit_push [simp]: "set (visit (push_child c e)) = insert c (set (visit e))"
  using mset_visit_push [of c e] by (metis set_mset_add_mset_insert set_mset_mset)

lemma push_child_simps [simp]:
  "te_state (push_child c e) = te_state e" "te_numParents (push_child c e) = te_numParents e"
  "te_cycle (push_child c e) = te_cycle e" "te_domain (push_child c e) = te_domain e"
  "te_postDelay (push_child c e) = te_postDelay e" "te_preDelay (push_child c e) = te_preDelay e"
  "te_kind (push_child c e) = te_kind e" "te_minStart (push_child c e) = te_minStart e"
  by (simp_all add: push_child_def)

lemma alloc_inv:
  assumes "wv_inv pend w" and vis: "visit e = []" and e: "te_numParents e = 0" "te_cycle e = 0" "te_state e \<noteq> EV_DONE"
  shows "wv_inv pend (snd (alloc e w))"
proof -
  let ?w = "snd (alloc e w)"
  note iv = wv_invD [OF assms(1)]
  have w: "events ?w = events w @ [e]" "finished ?w = finished w" by (simp_all add: alloc_def)
  have fin: "(p, f) \<in> set (finished w) \<Longrightarrow> p < length (events w)" for p f using finished_range [OF assms(1)] by force
  have n: "p < length (events w) \<Longrightarrow> events ?w ! p = events w ! p" for p by (simp add: w nth_append)
  have last: "events ?w ! length (events w) = e" by (simp add: w)
  have cb: "contrib ?w c = contrib w c" for c
    unfolding contrib_def w(2) using fin n by (intro Collect_cong) metis
  have le: "live_edges ?w c = live_edges w c" for c
    by (simp add: live_edges_def w vis nth_append cong: if_cong)
  have nv: "p < length (events w) \<Longrightarrow> length (events w) \<notin> set (visit (events w ! p))" for p
    using iv(1) [of p] by auto
  have c0: "live_edges w (length (events w)) = 0" "contrib w (length (events w)) = {}"
    using nv fin by (auto simp: live_edges_def count_eq_zero_iff contrib_def)
  have "length (events w) \<notin> fst ` set_mset pend" using iv(6) by fastforce
  then have c1: "count (image_mset fst pend) (length (events w)) = 0" by (simp add: count_eq_zero_iff)
  show ?thesis
    unfolding wv_inv_def w(2) le cb
  proof (intro conjI)
    show "fst ` set (finished w) = {p. p < length (events ?w) \<and> te_state (events ?w ! p) = EV_DONE}"
      using iv(5) by (auto simp: w nth_append e less_Suc_eq)
    show "\<forall>(c, t)\<in>#pend. c < length (events ?w) \<and> t \<in> contrib w c"
      using iv(6) by (auto simp: w less_Suc_eq)
    show "\<forall>p<length (events ?w). set (visit (events ?w ! p)) \<subseteq> {..<length (events ?w)}"
      using iv(1) vis by (fastforce simp: w less_Suc_eq nth_append)
    show "\<forall>c<length (events ?w). te_numParents (events ?w ! c) = live_edges w c + count (image_mset fst pend) c"
      using iv(2) c0(1) c1 n last by (auto simp: w(1) less_Suc_eq e)
    show "\<forall>c<length (events ?w). 0 < te_numParents (events ?w ! c) \<longrightarrow> te_state (events ?w ! c) = EV_NONE"
      using iv(3) n last by (auto simp: w(1) less_Suc_eq e)
    show "\<forall>c<length (events ?w). \<forall>t\<in>contrib w c. t \<le> te_cycle (events ?w ! c) \<or> (c, t) \<in># pend"
      using iv(7) c0(2) n by (auto simp: w(1) less_Suc_eq)
    show "\<forall>c<length (events ?w). te_cycle (events ?w ! c) \<in> insert 0 (contrib w c)"
    proof (intro allI impI)
      fix c assume "c < length (events ?w)"
      then show "te_cycle (events ?w ! c) \<in> insert 0 (contrib w c)"
        using iv(8) [of c] n [of c] last by (cases "c = length (events w)") (auto simp: w(1) e)
    qed
  qed (rule iv(4))
qed

lemma alloc_new_inv: "wv_inv pend w \<Longrightarrow> wv_inv pend (snd (alloc (new_event k pre post d) w))"
  by (rule alloc_inv) (simp_all add: new_event_def visit_def)

lemma set_min_inv:
  assumes "wv_inv pend w" "i < length (events w)"
  shows "wv_inv pend (setMinStartCycle i c w)"
proof -
  let ?w = "setMinStartCycle i c w"
  have n: "events ?w ! j = (if j = i then te_minStart_update (\<lambda>_. c) (events w ! i) else events w ! j)" for j
    using assms(2) by (simp add: setMinStartCycle_def nth_upd_event)
  have x: "visit (events ?w ! j) = visit (events w ! j)" "te_state (events ?w ! j) = te_state (events w ! j)"
    "te_numParents (events ?w ! j) = te_numParents (events w ! j)" "te_cycle (events ?w ! j) = te_cycle (events w ! j)"
    "te_postDelay (events ?w ! j) = te_postDelay (events w ! j)" for j by (auto simp: n)
  have "length (events ?w) = length (events w)" "finished ?w = finished w" by (simp_all add: setMinStartCycle_def)
  then show ?thesis using assms(1) by (simp add: wv_inv_def live_edges_def contrib_def x cong: if_cong)
qed

text \<open>Setting domains changes nothing else.\<close>

definition domains_set :: "int \<Rightarrow> Weave \<Rightarrow> Weave \<Rightarrow> bool" where
  "domains_set d w w' \<longleftrightarrow> length (events w') = length (events w) \<and> queued w' = queued w \<and> finished w' = finished w \<and>
     (\<forall>i<length (events w). events w' ! i = events w ! i \<or>
        te_domain (events w ! i) = - 1 \<and> events w' ! i = (events w ! i)\<lparr>te_domain := d\<rparr>)"

lemma domains_set_refl [simp]: "domains_set d w w"
  by (simp add: domains_set_def)

lemma domains_set_trans: "domains_set d u v \<Longrightarrow> domains_set d v w \<Longrightarrow> domains_set d u w"
  by (fastforce simp: domains_set_def)

lemma domains_setD:
  assumes "domains_set d w w'"
  shows "length (events w') = length (events w)" "queued w' = queued w" "finished w' = finished w"
    and "i < length (events w) \<Longrightarrow> visit (events w' ! i) = visit (events w ! i) \<and>
      te_state (events w' ! i) = te_state (events w ! i) \<and> te_numParents (events w' ! i) = te_numParents (events w ! i) \<and>
      te_cycle (events w' ! i) = te_cycle (events w ! i) \<and> te_postDelay (events w' ! i) = te_postDelay (events w ! i)"
  using assms by (auto simp: domains_set_def)

lemma ranked_domains: "domains_set d w w' \<Longrightarrow> ranked rk w' = ranked rk w"
  by (auto simp: ranked_def domains_setD)

lemma propagateDomain_ok:
  assumes "ranked rk w" "\<forall>p<length (events w). set (visit (events w ! p)) \<subseteq> {..<length (events w)}"
    and "i < length (events w)" "te_domain (events w ! i) = - 1"
    and "\<forall>p<length (events w). rk p < K" "K \<le> k + rk i"
  shows "succeeds (propagateDomain k d i w) (domains_set d w)"
  using assms
proof (induction k arbitrary: i w)
  case 0
  then show ?case by auto
next
  case (Suc k)
  let ?w = "upd_event i (te_domain_update (\<lambda>_. d)) w"
  have w: "domains_set d w ?w" using Suc.prems(3,4) by (auto simp: domains_set_def nth_upd_event)
  have "succeeds (eachR (\<lambda>c w. if te_domain (events w ! c) = - 1 then propagateDomain k d c w else Inr w) cs w1) (domains_set d w)"
    if "domains_set d w w1" "set cs \<subseteq> set (visit (events w ! i))" for cs w1
    using that
  proof (induction cs arbitrary: w1)
    case Nil
    then show ?case by simp
  next
    case (Cons c cs)
    note dd = domains_setD [OF Cons.prems(1)]
    have c: "c < length (events w1)" "rk i < rk c"
      using Cons.prems(2) Suc.prems(1-3) dd(1) by (auto simp: ranked_def)
    have "te_domain (events w1 ! c) = - 1 \<Longrightarrow> succeeds (propagateDomain k d c w1) (domains_set d w1)"
      using Suc.prems(1,2,5,6) c dd ranked_domains [OF Cons.prems(1)] by (intro Suc.IH) auto
    then have "succeeds (if te_domain (events w1 ! c) = - 1 then propagateDomain k d c w1 else Inr w1) (domains_set d w1)"
      by simp
    then obtain w2 where w2: "(if te_domain (events w1 ! c) = - 1 then propagateDomain k d c w1 else Inr w1) = Inr w2"
      "domains_set d w1 w2" by (auto simp: succeeds_iff simp del: if_splits)
    show ?case
      using Cons.IH [OF domains_set_trans [OF Cons.prems(1) w2(2)]] Cons.prems(2) w2(1) by simp
  qed
  from this [OF w, of "visit (events w ! i)"] Suc.prems(4) show ?case by simp
qed

text \<open>
  Linking a child keeps the invariant, whatever domains it inherits on the way, as long as the
  graph stays acyclic.
\<close>

lemma inv_domains:
  assumes "wv_inv pend w" "domains_set d w w'"
  shows "wv_inv pend w'"
proof -
  note dd = domains_setD [OF assms(2)] and fr = finished_range [OF assms(1)]
  have fin: "(p, f) \<in> set (finished w) \<Longrightarrow> p < length (events w)" for p f using fr by force
  have cb: "contrib w' c = contrib w c" for c
    unfolding contrib_def dd(3) using fin dd(4) by (intro Collect_cong) metis
  have le: "live_edges w' c = live_edges w c" for c
    unfolding live_edges_def dd(1) by (rule sum.cong) (simp_all add: dd(4))
  show ?thesis
    using assms(1) unfolding wv_inv_def cb le dd(1,3)
    by (auto simp: dd(4))
qed

lemma link_inv:
  assumes "wv_inv pend w" "p < length (events w)" "c < length (events w)"
    and "te_state (events w ! p) \<noteq> EV_DONE" "te_state (events w ! c) = EV_NONE"
  shows "wv_inv pend (upd_event c (te_numParents_update Suc) (upd_event p (push_child c) w))"
    (is "wv_inv pend ?w")
proof -
  note iv = wv_invD [OF assms(1)]
  have n: "events ?w ! j = (if j = c then te_numParents_update Suc (if c = p then push_child c (events w ! p) else events w ! c)
      else if j = p then push_child c (events w ! p) else events w ! j)" for j
    using assms(2,3) by (simp add: nth_upd_event)
  have st: "te_state (events ?w ! j) = te_state (events w ! j)" "te_cycle (events ?w ! j) = te_cycle (events w ! j)"
    "te_numParents (events ?w ! j) = te_numParents (events w ! j) + (if j = c then 1 else 0)"
    "te_postDelay (events ?w ! j) = te_postDelay (events w ! j)"
    "mset (visit (events ?w ! j)) = mset (visit (events w ! j)) + (if j = p then {#c#} else {#})" for j
    by (auto simp: n)
  have sv: "set (visit (events ?w ! j)) = set (visit (events w ! j)) \<union> (if j = p then {c} else {})" for j
    by (auto simp: n)
  have np: "(p, f) \<notin> set (finished w)" for f using iv(5) assms(4) by force
  have cb: "contrib ?w x = contrib w x" for x
  proof -
    have "(q, f) \<in> set (finished w) \<Longrightarrow> x \<in> set (visit (events ?w ! q)) \<longleftrightarrow> x \<in> set (visit (events w ! q))" for q f
      using np by (auto simp: sv)
    then show ?thesis unfolding contrib_def st upd_event_rest by blast
  qed
  have le: "live_edges ?w x = live_edges w x + (if x = c then 1 else 0)" for x
  proof -
    let ?g = "\<lambda>q. if te_state (events w ! q) = EV_DONE then 0 else count (mset (visit (events w ! q))) x"
    have "live_edges ?w x = (\<Sum>q<length (events w). ?g q + (if q = p \<and> x = c then 1 else 0))"
      unfolding live_edges_def by (rule sum.cong) (use assms(4) in \<open>auto simp: st\<close>)
    also have "\<dots> = live_edges w x + (if x = c then 1 else 0)"
      using assms(2) by (simp add: sum.distrib live_edges_def)
    finally show ?thesis .
  qed
  show ?thesis
    unfolding wv_inv_def cb le
    using iv assms(2,3,5) by (auto simp: st sv split: if_splits)
qed

lemma addChild_ok:
  assumes inv: "wv_inv pend w" and pc: "p < length (events w)" "c < length (events w)" "p \<noteq> c"
    and st: "te_state (events w ! p) \<in> {EV_NONE, EV_QUEUED}" "te_state (events w ! c) = EV_NONE"
    and rk: "ranked rk w" "rk p < rk c" "\<forall>p<length (events w). rk p < length (events w)"
  shows "succeeds (addChild p c w) (\<lambda>(r, w'). r = c \<and> wv_inv pend w' \<and> ranked rk w' \<and>
      length (events w') = length (events w) \<and> queued w' = queued w \<and> finished w' = finished w \<and>
      (\<forall>j<length (events w). mset (visit (events w' ! j)) = mset (visit (events w ! j)) + (if j = p then {#c#} else {#}) \<and>
         te_state (events w' ! j) = te_state (events w ! j)))"
proof -
  let ?w1 = "upd_event p (push_child c) w"
  note iv = wv_invD [OF inv]
  have n: "events ?w1 ! j = (if j = p then push_child c (events w ! p) else events w ! j)" for j
    using pc(1) by (simp add: nth_upd_event)
  have r1: "ranked rk ?w1" using rk(1,2) pc by (auto simp: ranked_def n)
  have v1: "\<forall>q<length (events ?w1). set (visit (events ?w1 ! q)) \<subseteq> {..<length (events ?w1)}"
    using iv(1) pc by (auto simp: n)
  let ?r = "if te_domain (events ?w1 ! p) \<noteq> - 1 \<and> te_domain (events ?w1 ! c) = - 1
    then propagateDomain (Suc (length (events ?w1))) (te_domain (events ?w1 ! p)) c ?w1 else Inr ?w1"
  have "succeeds ?r (domains_set (te_domain (events ?w1 ! p)) ?w1)"
    using propagateDomain_ok [OF r1 v1, of c "length (events w)" "Suc (length (events w))"] pc rk(3) by simp
  then obtain w2 where w2: "?r = Inr w2" "domains_set (te_domain (events ?w1 ! p)) ?w1 w2"
    by (auto simp: succeeds_iff simp del: if_splits)
  let ?w3 = "upd_event c (te_numParents_update Suc) w2"
  have d: "domains_set (te_domain (events ?w1 ! p)) (upd_event c (te_numParents_update Suc) ?w1) ?w3"
    using w2(2) pc by (auto simp: domains_set_def upd_event_def nth_list_update)
  have l: "wv_inv pend (upd_event c (te_numParents_update Suc) ?w1)"
    by (rule link_inv [OF inv pc(1,2)]) (use st in auto)
  have inv3: "wv_inv pend ?w3" by (rule inv_domains [OF l d])
  have rk3: "ranked rk ?w3" unfolding ranked_domains [OF d]
    using r1 pc by (simp add: ranked_def nth_upd_event)
  note d4 = domains_setD [OF d]
  have "addChild p c w = Inr (c, ?w3)" using st w2(1) by (auto simp: addChild_def Let_def)
  then show ?thesis
    using inv3 rk3 d4(1-3) d4(4) pc by (auto simp: nth_upd_event)
qed

text \<open>A parent without a domain, such as a delay event, hands no domain on.\<close>

lemma addChild_no_domain:
  assumes inv: "wv_inv pend w" and pc: "p < length (events w)" "c < length (events w)"
    and st: "te_state (events w ! p) \<in> {EV_NONE, EV_QUEUED}" "te_state (events w ! c) = EV_NONE"
    and d: "te_domain (events w ! p) = - 1"
  shows "succeeds (addChild p c w) (\<lambda>(r, w'). r = c \<and> wv_inv pend w' \<and> length (events w') = length (events w) \<and>
      (\<forall>i<length (events w). te_state (events w' ! i) = te_state (events w ! i) \<and>
         te_domain (events w' ! i) = te_domain (events w ! i)))"
proof -
  let ?w = "upd_event c (te_numParents_update Suc) (upd_event p (push_child c) w)"
  have "addChild p c w = Inr (c, ?w)"
    using st d pc(1) by (auto simp: addChild_def Let_def nth_upd_event)
  moreover have "wv_inv pend ?w" by (rule link_inv [OF inv pc]) (use st in auto)
  ultimately show ?thesis using pc by (auto simp: nth_upd_event)
qed

text \<open>A graph for the concrete run: an access, a delay on one of the ways, and the response.\<close>

definition sample_weave :: Weave where
  "sample_weave = \<lparr>events =
     [(new_event QueuedEv 0 5 0)\<lparr>te_state := EV_RUNNING, te_blocks := [[1, 2]]\<rparr>,
      (new_DelayEvent 3)\<lparr>te_numParents := 1, te_blocks := [[2]]\<rparr>,
      (new_event QueuedEv 2 0 0)\<lparr>te_numParents := 2\<rparr>], queued = [], finished = []\<rparr>"

lemma all_less_Suc_iff: "(\<forall>i<Suc n. P i) \<longleftrightarrow> P n \<and> (\<forall>i<n. P i)"
  by (auto simp: less_Suc_eq)

lemma sample_weave_inv: "wv_inv {#} sample_weave"
  by (simp add: wv_inv_def sample_weave_def new_event_def new_DelayEvent_def visit_def live_edges_def contrib_def
      numeral_3_eq_3 numeral_2_eq_2 lessThan_Suc all_less_Suc_iff)

section \<open>Properties\<close>



end
