(* ===== verification/Coherence.thy ===== *)
theory Coherence
  imports Cache_Arrays Timing_Events
begin

text \<open>
  The coherent cache: the MESI coherence controllers (\<open>coherence_ctrls.h\<close>,
  \<open>coherence_ctrls.cpp\<close>) and the cache that drives them (\<open>cache.cpp\<close>, \<open>cache.h\<close>). Caches call
  each other, so all of them live in one state and a cache is its index there; the calls to
  parents and children are the arguments \<open>up\<close> and \<open>down\<close> of every definition, and the end of
  the theory ties them over a hierarchy. One thread runs; the locks are left out, and so are
  the profiling counters.
\<close>

section \<open>The state of a memory system\<close>

record DirEntry =
  numSharers :: nat
  sharers :: "nat \<Rightarrow> bool"
  exclusive :: bool

definition clear_entry :: "DirEntry \<Rightarrow> DirEntry" where
  "clear_entry e = e\<lparr>exclusive := False, numSharers := 0, sharers := \<lambda>_. False\<rparr>"

definition isEmpty :: "DirEntry \<Rightarrow> bool" where
  "isEmpty e \<longleftrightarrow> numSharers e = 0"

definition isExclusive :: "DirEntry \<Rightarrow> bool" where
  "isExclusive e \<longleftrightarrow> numSharers e = 1 \<and> exclusive e"

text \<open>An entry of a filter cache: the most recently used line of a set.\<close>

record FilterEntry =
  rdAddr :: addr
  wrAddr :: addr
  availCycle :: nat

text \<open>
  A cache: its array, the states of its lines with respect to its parents (the array of
  \<open>MESIBottomCC\<close>), the directory of its children (the array of \<open>MESITopCC\<close>), and the filter of a
  \<open>FilterCache\<close>, which is empty in any other cache.
\<close>

record 'a CacheObj =
  c_array :: 'a
  c_bcc :: "MESIState list"
  c_tcc :: "DirEntry list"
  c_filter :: "FilterEntry list"

text \<open>
  All caches, the state of the memory behind them, the record slot of every core (\<open>None\<close>: the
  core has no event recorder), the events, and the state that a core passes with its
  requests (a local variable of \<open>FilterCache::replace\<close>).
\<close>

record ('a, 'm) MemSys =
  caches :: "'a CacheObj list"
  mem :: 'm
  recorders :: "Recorded option list"
  weave :: Weave
  dummyState :: MESIState

text \<open>The pointer \<open>state\<close> of a request: a line of a cache, or the local variable of the core.\<close>

datatype StatePtr = Line nat nat | Dummy

definition bstate :: "nat \<Rightarrow> nat \<Rightarrow> ('a, 'm) MemSys \<Rightarrow> MESIState" where
  "bstate c l s = c_bcc (caches s ! c) ! l"

definition upd_cache :: "nat \<Rightarrow> ('a CacheObj \<Rightarrow> 'a CacheObj) \<Rightarrow> ('a, 'm) MemSys \<Rightarrow> ('a, 'm) MemSys" where
  "upd_cache c f s = s\<lparr>caches := (caches s)[c := f (caches s ! c)]\<rparr>"

definition set_bstate :: "nat \<Rightarrow> nat \<Rightarrow> MESIState \<Rightarrow> ('a, 'm) MemSys \<Rightarrow> ('a, 'm) MemSys" where
  "set_bstate c l st = upd_cache c (\<lambda>x. x\<lparr>c_bcc := (c_bcc x)[l := st]\<rparr>)"

definition entry :: "nat \<Rightarrow> nat \<Rightarrow> ('a, 'm) MemSys \<Rightarrow> DirEntry" where
  "entry c l s = c_tcc (caches s ! c) ! l"

definition upd_entry :: "nat \<Rightarrow> nat \<Rightarrow> (DirEntry \<Rightarrow> DirEntry) \<Rightarrow> ('a, 'm) MemSys \<Rightarrow> ('a, 'm) MemSys" where
  "upd_entry c l f = upd_cache c (\<lambda>x. x\<lparr>c_tcc := (c_tcc x)[l := f (c_tcc x ! l)]\<rparr>)"

definition set_array :: "nat \<Rightarrow> 'a \<Rightarrow> ('a, 'm) MemSys \<Rightarrow> ('a, 'm) MemSys" where
  "set_array c A = upd_cache c (\<lambda>x. x\<lparr>c_array := A\<rparr>)"

definition upd_filter :: "nat \<Rightarrow> (FilterEntry list \<Rightarrow> FilterEntry list) \<Rightarrow> ('a, 'm) MemSys \<Rightarrow> ('a, 'm) MemSys" where
  "upd_filter c f = upd_cache c (\<lambda>x. x\<lparr>c_filter := f (c_filter x)\<rparr>)"

definition filter_of :: "nat \<Rightarrow> ('a, 'm) MemSys \<Rightarrow> FilterEntry list" where
  "filter_of c s = c_filter (caches s ! c)"

fun get_ptr :: "StatePtr \<Rightarrow> ('a, 'm) MemSys \<Rightarrow> MESIState" where
  "get_ptr (Line c l) s = bstate c l s"
| "get_ptr Dummy s = dummyState s"

fun set_ptr :: "StatePtr \<Rightarrow> MESIState \<Rightarrow> ('a, 'm) MemSys \<Rightarrow> ('a, 'm) MemSys" where
  "set_ptr (Line c l) st s = set_bstate c l st s"
| "set_ptr Dummy st s = s\<lparr>dummyState := st\<rparr>"

section \<open>What a cache is built with\<close>

record 'a array_ops =
  ao_lookup :: "addr \<Rightarrow> MemReq \<Rightarrow> bool \<Rightarrow> 'a \<Rightarrow> (nat option \<times> 'a) res"
  ao_preinsert :: "cc_view \<Rightarrow> addr \<Rightarrow> MemReq \<Rightarrow> 'a \<Rightarrow> (nat \<times> addr \<times> 'a) res option"
  ao_postinsert :: "addr \<Rightarrow> MemReq \<Rightarrow> nat \<Rightarrow> 'a \<Rightarrow> 'a res"

text \<open>
  The parameters of a cache: whether its controller is a \<open>MESITerminalCC\<close>, its latencies, and its
  place in the hierarchy. \<open>parents\<close> are objects that answer accesses, other caches or memories.
  The network is \<open>None\<close> when there is none, else the round trip of every parent (of every memory
  controller, for the last level) and of every child. \<open>filterSets\<close> is 0 for a cache without a
  filter; with one, \<open>filterSrc\<close> and \<open>filterFlags\<close> are what its requests carry, and \<open>procMask\<close> is the high part of the line addresses of the process.
\<close>

datatype Node = CacheNode nat | MemNode

record 'a CacheCfg =
  terminal :: bool
  nonInclusiveHack :: bool
  numLines :: nat
  selfId :: nat
  parents :: "Node list"
  children :: "nat list"
  accLat :: nat
  invLat :: nat
  isLLC :: bool
  numMems :: nat
  rttUp :: "(nat \<Rightarrow> nat) option"
  rttDown :: "(nat \<Rightarrow> nat) option"
  arrayOps :: "'a array_ops"
  filterSets :: nat
  filterSrc :: nat
  filterFlags :: u32
  procMask :: addr

record InvReq =
  i_lineAddr :: addr
  i_type :: InvType
  i_cycle :: nat
  i_srcId :: nat

type_synonym ('a, 'm) up = "Node \<Rightarrow> MemReq \<Rightarrow> StatePtr \<Rightarrow> ('a, 'm) MemSys \<Rightarrow> (nat \<times> ('a, 'm) MemSys) res"
type_synonym ('a, 'm) down =
  "nat \<Rightarrow> InvReq \<Rightarrow> bool \<Rightarrow> ('a, 'm) MemSys \<Rightarrow> (nat \<times> bool \<times> ('a, 'm) MemSys) res"

section \<open>MESIBottomCC\<close>

text \<open>The parent of a line: the four halfwords of its address xored.\<close>

definition getParentId :: "nat \<Rightarrow> addr \<Rightarrow> nat" where
  "getParentId n a =
     unat ((ucast (a AND 0xffff) XOR ucast (drop_bit 16 a AND 0xffff) XOR
            ucast (drop_bit 32 a AND 0xffff) XOR ucast (drop_bit 48 a AND 0xffff)) :: u32) mod n"

definition getNetworkLatency :: "'a CacheCfg \<Rightarrow> addr \<Rightarrow> nat" where
  "getNetworkLatency cfg a =
     (case rttUp cfg of
        None \<Rightarrow> 0
      | Some rtt \<Rightarrow> (if isLLC cfg then rtt (getTargetFor (numMems cfg) a)
                     else rtt (getParentId (length (parents cfg)) a)) mod 2 ^ 32)"

definition parent_of :: "'a CacheCfg \<Rightarrow> addr \<Rightarrow> Node" where
  "parent_of cfg a = parents cfg ! getParentId (length (parents cfg)) a"

definition bcc_processEviction ::
  "'a CacheCfg \<Rightarrow> ('a, 'm) up \<Rightarrow> nat \<Rightarrow> addr \<Rightarrow> nat \<Rightarrow> bool \<Rightarrow> nat \<Rightarrow> nat \<Rightarrow> ('a, 'm) MemSys
     \<Rightarrow> (nat \<times> ('a, 'm) MemSys) res" where
  "bcc_processEviction cfg up c wbLineAddr l lowerLevelWriteback cyc src s =
     bindR (if lowerLevelWriteback then
              require (bstate c l s \<in> {M, E}) (AssertFail ''*state == M || *state == E'')
                (Inr (set_bstate c l M s))
            else Inr s)
       (\<lambda>s1. let put = (\<lambda>t. up (parent_of cfg wbLineAddr)
                  \<lparr>lineAddr = wbLineAddr, req_type = t, childId = selfId cfg, cycle = cyc,
                   initialState = bstate c l s1, srcId = src, flags = 0\<rparr> (Line c l) s1)
            in bindR (case bstate c l s1 of I \<Rightarrow> Inr (cyc, s1) | S \<Rightarrow> put PUTS | E \<Rightarrow> put PUTS | M \<Rightarrow> put PUTX)
                 (\<lambda>(respCycle, s2).
                    require (bstate c l s2 = I) (AssertFail ''Wrong final state on eviction'')
                      (Inr (respCycle, s2))))"

text \<open>A miss: the access to the parent, whose latency is cut to 32 bits.\<close>

definition bcc_miss ::
  "'a CacheCfg \<Rightarrow> ('a, 'm) up \<Rightarrow> nat \<Rightarrow> addr \<Rightarrow> nat \<Rightarrow> AccessType \<Rightarrow> nat \<Rightarrow> nat \<Rightarrow> u32 \<Rightarrow> ('a, 'm) MemSys
     \<Rightarrow> (nat \<times> ('a, 'm) MemSys) res" where
  "bcc_miss cfg up c la l t cyc src fl s =
     bindR (up (parent_of cfg la)
              \<lparr>lineAddr = la, req_type = t, childId = selfId cfg, cycle = cyc,
               initialState = bstate c l s, srcId = src, flags = fl\<rparr> (Line c l) s)
       (\<lambda>(resp, s1).
          let nextLevelLat = nat ((int resp - int cyc) mod 2 ^ 32); netLat = getNetworkLatency cfg la
          in Inr (cyc + (nextLevelLat + netLat) mod 2 ^ 32, s1))"

definition bcc_processAccess ::
  "'a CacheCfg \<Rightarrow> ('a, 'm) up \<Rightarrow> nat \<Rightarrow> addr \<Rightarrow> nat \<Rightarrow> AccessType \<Rightarrow> nat \<Rightarrow> nat \<Rightarrow> u32 \<Rightarrow> ('a, 'm) MemSys
     \<Rightarrow> (nat \<times> ('a, 'm) MemSys) res" where
  "bcc_processAccess cfg up c la l t cyc src fl s =
     (let st = bstate c l s; miss = bcc_miss cfg up c la l t cyc src fl s
      in bindR
          (case t of
             PUTS \<Rightarrow> require (st \<noteq> I) (AssertFail ''*state != I'') (Inr (cyc, s))
           | PUTX \<Rightarrow> require (st \<in> {M, E}) (AssertFail ''*state == M || *state == E'')
                      (Inr (cyc, if st = E then set_bstate c l M s else s))
           | GETS \<Rightarrow>
               (if st = I then
                  bindR miss (\<lambda>(resp, s1).
                    require (is_flag fl PREFETCH_NOREC \<or> is_flag fl PREFETCH \<or> bstate c l s1 \<in> {S, E})
                      (AssertFail ''*state == S || *state == E'') (Inr (resp, s1)))
                else Inr (cyc, s))
           | GETX \<Rightarrow>
               bindR (if st = I \<or> st = S then miss
                      else Inr (cyc, if st = E then set_bstate c l M s else s))
                 (\<lambda>(resp, s1). require (bstate c l s1 = M) (AssertFail ''Wrong final state on GETX'') (Inr (resp, s1))))
          (\<lambda>(resp, s1). require (resp \<ge> cyc) (AssertFail ''respCycle >= cycle'') (Inr (resp, s1))))"

definition bcc_processWritebackOnAccess :: "nat \<Rightarrow> nat \<Rightarrow> ('a, 'm) MemSys \<Rightarrow> ('a, 'm) MemSys res" where
  "bcc_processWritebackOnAccess c l s =
     require (bstate c l s \<in> {M, E}) (AssertFail ''*state == M || *state == E'')
       (Inr (if bstate c l s = E then set_bstate c l M s else s))"

text \<open>\<open>reqWriteback\<close> is pulled up to true, never down.\<close>

definition bcc_processInval :: "nat \<Rightarrow> nat \<Rightarrow> InvType \<Rightarrow> bool \<Rightarrow> ('a, 'm) MemSys \<Rightarrow> (bool \<times> ('a, 'm) MemSys) res" where
  "bcc_processInval c l t wb s =
     (let st = bstate c l s; wb1 = (wb \<or> st = M)
      in require (st \<noteq> I) (AssertFail ''*state != I'')
          (case t of
             INVX \<Rightarrow> require (st \<in> {E, M}) (AssertFail ''Invalid state on INVX'') (Inr (wb1, set_bstate c l S s))
           | INV \<Rightarrow> Inr (wb1, set_bstate c l I s)
           | FWD \<Rightarrow> require (st = S) (AssertFail ''Invalid state on FWD'') (Inr (wb, s))))"

definition bcc_processNonInclusiveWriteback ::
  "'a CacheCfg \<Rightarrow> ('a, 'm) up \<Rightarrow> addr \<Rightarrow> AccessType \<Rightarrow> nat \<Rightarrow> StatePtr \<Rightarrow> nat \<Rightarrow> u32 \<Rightarrow> ('a, 'm) MemSys
     \<Rightarrow> (nat \<times> ('a, 'm) MemSys) res" where
  "bcc_processNonInclusiveWriteback cfg up la t cyc ptr src fl s =
     require (nonInclusiveHack cfg) (Panicked ''this cache should be inclusive'')
       (up (parent_of cfg la)
          \<lparr>lineAddr = la, req_type = t, childId = selfId cfg, cycle = cyc, initialState = get_ptr ptr s,
           srcId = src, flags = fl OR flag_bit NONINCLWB\<rparr> ptr s)"

section \<open>MESITopCC\<close>

text \<open>
  The loop of \<open>sendInvalidates\<close> over the children \<open>k, k + 1, ...\<close>, with the latest cycle and the
  number of invalidations so far.
\<close>

fun inv_loop ::
  "'a CacheCfg \<Rightarrow> ('a, 'm) down \<Rightarrow> nat \<Rightarrow> nat \<Rightarrow> InvReq \<Rightarrow> nat \<Rightarrow> nat list \<Rightarrow> nat \<Rightarrow> nat \<Rightarrow> bool \<Rightarrow> ('a, 'm) MemSys
     \<Rightarrow> (nat \<times> nat \<times> bool \<times> ('a, 'm) MemSys) res" where
  "inv_loop cfg down c l ireq k [] maxCycle sentInvs wb s = Inr (maxCycle, sentInvs, wb, s)"
| "inv_loop cfg down c l ireq k (child # cs) maxCycle sentInvs wb s =
     (if sharers (entry c l s) k then
        bindR (down child ireq wb s) (\<lambda>(resp, wb1, s1).
          let respCycle = resp + (case rttDown cfg of None \<Rightarrow> 0 | Some rtt \<Rightarrow> rtt k);
              s2 = (if i_type ireq = INV then upd_entry c l (\<lambda>e. e\<lparr>sharers := (sharers e)(k := False)\<rparr>) s1 else s1)
          in inv_loop cfg down c l ireq (Suc k) cs (max respCycle maxCycle) (sentInvs + 1) wb1 s2)
      else inv_loop cfg down c l ireq (Suc k) cs maxCycle sentInvs wb s)"

definition tcc_sendInvalidates ::
  "'a CacheCfg \<Rightarrow> ('a, 'm) down \<Rightarrow> nat \<Rightarrow> addr \<Rightarrow> nat \<Rightarrow> InvType \<Rightarrow> bool \<Rightarrow> nat \<Rightarrow> nat \<Rightarrow> ('a, 'm) MemSys
     \<Rightarrow> (nat \<times> bool \<times> ('a, 'm) MemSys) res" where
  "tcc_sendInvalidates cfg down c la l t wb cyc src s =
     (if t = INVX \<and> \<not> isExclusive (entry c l s) then Inr (cyc, wb, s)
      else if isEmpty (entry c l s) then Inr (cyc, wb, s)
      else bindR (inv_loop cfg down c l \<lparr>i_lineAddr = la, i_type = t, i_cycle = cyc, i_srcId = src\<rparr> 0 (children cfg) cyc 0 wb s)
        (\<lambda>(maxCycle, sentInvs, wb1, s1).
           require (sentInvs = numSharers (entry c l s1)) (AssertFail ''sentInvs == e->numSharers'')
             (if t = INV then Inr (maxCycle, wb1, upd_entry c l (numSharers_update (\<lambda>_. 0)) s1)
              else require (exclusive (entry c l s1)) (AssertFail ''e->exclusive'')
                (require (numSharers (entry c l s1) = 1) (AssertFail ''e->numSharers == 1'')
                  (Inr (maxCycle, wb1, upd_entry c l (exclusive_update (\<lambda>_. False)) s1))))))"

definition tcc_processEviction ::
  "'a CacheCfg \<Rightarrow> ('a, 'm) down \<Rightarrow> nat \<Rightarrow> addr \<Rightarrow> nat \<Rightarrow> bool \<Rightarrow> nat \<Rightarrow> nat \<Rightarrow> ('a, 'm) MemSys
     \<Rightarrow> (nat \<times> bool \<times> ('a, 'm) MemSys) res" where
  "tcc_processEviction cfg down c wbLineAddr l wb cyc src s =
     (if nonInclusiveHack cfg then Inr (cyc, wb, upd_entry c l clear_entry s)
      else tcc_sendInvalidates cfg down c wbLineAddr l INV wb cyc src s)"

text \<open>The counter of sharers is a \<open>uint32_t\<close>.\<close>

definition dec32 :: "nat \<Rightarrow> nat" where
  "dec32 n = (if n = 0 then 2 ^ 32 - 1 else n - 1)"

definition drop_sharer :: "nat \<Rightarrow> DirEntry \<Rightarrow> DirEntry" where
  "drop_sharer k e = e\<lparr>sharers := (sharers e)(k := False), numSharers := dec32 (numSharers e)\<rparr>"

definition tcc_processAccess ::
  "'a CacheCfg \<Rightarrow> ('a, 'm) down \<Rightarrow> nat \<Rightarrow> addr \<Rightarrow> nat \<Rightarrow> AccessType \<Rightarrow> nat \<Rightarrow> bool \<Rightarrow> StatePtr \<Rightarrow> bool \<Rightarrow> nat \<Rightarrow> nat \<Rightarrow> u32
     \<Rightarrow> ('a, 'm) MemSys \<Rightarrow> (nat \<times> bool \<times> ('a, 'm) MemSys) res" where
  "tcc_processAccess cfg down c la l t k haveExclusive ptr wb cyc src fl s =
     (let e = entry c l s;
          put = (\<lambda>s. require (sharers (entry c l s) k) (AssertFail ''e->sharers[childId]'')
                      (Inr (cyc, wb, set_ptr ptr I (upd_entry c l (drop_sharer k) s))))
      in case t of
           PUTX \<Rightarrow>
             require (isExclusive e) (AssertFail ''e->isExclusive()'')
               (if is_flag fl PUTX_KEEPEXCL then
                  require (sharers e k) (AssertFail ''e->sharers[childId]'')
                    (require (get_ptr ptr s = M) (AssertFail ''*childState == M'') (Inr (cyc, wb, set_ptr ptr E s)))
                else put s)
         | PUTS \<Rightarrow> put s
         | GETS \<Rightarrow>
             (if isEmpty e \<and> haveExclusive \<and> \<not> is_flag fl NOEXCL then
                Inr (cyc, wb, set_ptr ptr E (upd_entry c l (\<lambda>e.
                  e\<lparr>exclusive := True, sharers := (sharers e)(k := True), numSharers := 1\<rparr>) s))
              else
                require (\<not> sharers e k) (AssertFail ''e->sharers[childId] == false'')
                  (bindR (if isExclusive e then tcc_sendInvalidates cfg down c la l INVX wb cyc src s else Inr (cyc, wb, s))
                    (\<lambda>(resp, wb1, s1).
                       require (\<not> isExclusive (entry c l s1)) (AssertFail ''Cannot have exclusivity here'')
                         (Inr (resp, wb1, set_ptr ptr S (upd_entry c l (\<lambda>e.
                            e\<lparr>sharers := (sharers e)(k := True), numSharers := numSharers e + 1, exclusive := False\<rparr>) s1))))))
         | GETX \<Rightarrow>
             require haveExclusive (AssertFail ''haveExclusive'')
               (bindR (if sharers e k then
                         require (\<not> isExclusive e) (AssertFail ''Spurious GETX'') (Inr (upd_entry c l (drop_sharer k) s))
                       else Inr s)
                 (\<lambda>s1. bindR (tcc_sendInvalidates cfg down c la l INV wb cyc src s1) (\<lambda>(resp, wb1, s2).
                    let s3 = upd_entry c l (\<lambda>e. e\<lparr>sharers := (sharers e)(k := True),
                               numSharers := numSharers e + 1, exclusive := True\<rparr>) s2
                    in require (numSharers (entry c l s3) = 1) (AssertFail ''e->numSharers == 1'')
                         (Inr (resp, wb1, set_ptr ptr M s3))))))"

definition tcc_processInval ::
  "'a CacheCfg \<Rightarrow> ('a, 'm) down \<Rightarrow> nat \<Rightarrow> addr \<Rightarrow> nat \<Rightarrow> InvType \<Rightarrow> bool \<Rightarrow> nat \<Rightarrow> nat \<Rightarrow> ('a, 'm) MemSys
     \<Rightarrow> (nat \<times> bool \<times> ('a, 'm) MemSys) res" where
  "tcc_processInval cfg down c la l t wb cyc src s =
     (if t = FWD then require (\<not> nonInclusiveHack cfg) (AssertFail ''!nonInclusiveHack'') (Inr (cyc, wb, s))
      else tcc_sendInvalidates cfg down c la l t wb cyc src s)"

section \<open>The coherence controllers\<close>

text \<open>Races between a request and an invalidation; the result is whether to skip the access, and the
  access type, which may change.\<close>

definition CheckForMESIRace :: "AccessType \<Rightarrow> MESIState \<Rightarrow> MESIState \<Rightarrow> (bool \<times> AccessType) res" where
  "CheckForMESIRace t st init =
     (if st = init then Inr (False, t)
      else if t = PUTS \<or> t = PUTX then
        (if st = I then Inr (True, t)
         else require (st = S) (AssertFail ''*state == S'') (Inr (False, PUTS)))
      else if t = GETX then
        require (init = S) (AssertFail ''initialState == S'')
          (require (st = I) (AssertFail ''*state == I'') (Inr (False, t)))
      else Inl (Panicked ''Invalid true race happened (?)''))"

definition cc_startAccess :: "'a CacheCfg \<Rightarrow> MemReq \<Rightarrow> MESIState \<Rightarrow> (bool \<times> AccessType) res" where
  "cc_startAccess cfg req st =
     (if terminal cfg then
        require (IsGet (req_type req)) (AssertFail ''(req.type == GETS) || (req.type == GETX)'')
          (CheckForMESIRace (req_type req) st (initialState req))
      else CheckForMESIRace (req_type req) st (initialState req))"

definition cc_shouldAllocate :: "'a CacheCfg \<Rightarrow> MemReq \<Rightarrow> bool res" where
  "cc_shouldAllocate cfg req =
     (if terminal cfg \<or> IsGet (req_type req) then Inr True
      else require (nonInclusiveHack cfg) (Panicked ''We lost inclusion on this line!'') (Inr False))"

definition cc_processEviction ::
  "'a CacheCfg \<Rightarrow> ('a, 'm) up \<Rightarrow> ('a, 'm) down \<Rightarrow> nat \<Rightarrow> MemReq \<Rightarrow> addr \<Rightarrow> nat \<Rightarrow> nat \<Rightarrow> ('a, 'm) MemSys
     \<Rightarrow> (nat \<times> ('a, 'm) MemSys) res" where
  "cc_processEviction cfg up down c triggerReq wbLineAddr l startCycle s =
     (if terminal cfg then bcc_processEviction cfg up c wbLineAddr l False startCycle (srcId triggerReq) s
      else bindR (tcc_processEviction cfg down c wbLineAddr l False startCycle (srcId triggerReq) s)
        (\<lambda>(evCycle, wb, s1). bcc_processEviction cfg up c wbLineAddr l wb evCycle (srcId triggerReq) s1))"

definition clear_flag :: "Flag \<Rightarrow> u32 \<Rightarrow> u32" where
  "clear_flag f fl = fl AND NOT (flag_bit f)"

text \<open>\<open>MESITerminalCC::processAccess\<close> and \<open>MESICC::processAccess\<close>; \<open>None\<close> is the line \<open>-1\<close>.\<close>

definition term_processAccess ::
  "'a CacheCfg \<Rightarrow> ('a, 'm) up \<Rightarrow> nat \<Rightarrow> MemReq \<Rightarrow> nat option \<Rightarrow> nat \<Rightarrow> ('a, 'm) MemSys \<Rightarrow> (nat \<times> ('a, 'm) MemSys) res" where
  "term_processAccess cfg up c req lid startCycle s =
     (case lid of
        None \<Rightarrow> Inl (AssertFail ''lineId != -1'')
      | Some l \<Rightarrow> bcc_processAccess cfg up c (lineAddr req) l (req_type req) startCycle (srcId req) (flags req) s)"

definition mesi_processAccess ::
  "'a CacheCfg \<Rightarrow> ('a, 'm) up \<Rightarrow> ('a, 'm) down \<Rightarrow> nat \<Rightarrow> MemReq \<Rightarrow> StatePtr \<Rightarrow> nat option \<Rightarrow> nat \<Rightarrow> ('a, 'm) MemSys
     \<Rightarrow> (nat \<times> ('a, 'm) MemSys) res" where
  "mesi_processAccess cfg up down c req ptr lid startCycle s =
     (let nonIncl = require (nonInclusiveHack cfg) (AssertFail ''nonInclusiveHack'')
            (require (IsPut (req_type req)) (AssertFail ''(req.type == PUTS) || (req.type == PUTX)'')
              (bcc_processNonInclusiveWriteback cfg up (lineAddr req) (req_type req) startCycle ptr (srcId req) (flags req) s));
          isPrefetch = is_flag (flags req) PREFETCH;
          fl = clear_flag PREFETCH (flags req)
      in case lid of
           None \<Rightarrow> nonIncl
         | Some l \<Rightarrow>
             (if IsPut (req_type req) \<and> bstate c l s = I then nonIncl
              else require (\<not> isPrefetch \<or> req_type req = GETS) (AssertFail ''!isPrefetch || req.type == GETS'')
                (bindR (bcc_processAccess cfg up c (lineAddr req) l (req_type req) startCycle (srcId req) fl s)
                  (\<lambda>(respCycle, s1).
                     if isPrefetch then Inr (respCycle, s1)
                     else bindR (tcc_processAccess cfg down c (lineAddr req) l (req_type req) (childId req)
                                  (bstate c l s1 \<in> {E, M}) ptr False respCycle (srcId req) fl s1)
                       (\<lambda>(resp, wb, s2).
                          if wb then bindR (bcc_processWritebackOnAccess c l s2) (\<lambda>s3. Inr (resp, s3))
                          else Inr (resp, s2))))))"

definition cc_processInv ::
  "'a CacheCfg \<Rightarrow> ('a, 'm) down \<Rightarrow> nat \<Rightarrow> InvReq \<Rightarrow> nat \<Rightarrow> nat \<Rightarrow> bool \<Rightarrow> ('a, 'm) MemSys
     \<Rightarrow> (nat \<times> bool \<times> ('a, 'm) MemSys) res" where
  "cc_processInv cfg down c ireq l startCycle wb s =
     (if terminal cfg then
        bindR (bcc_processInval c l (i_type ireq) wb s) (\<lambda>(wb1, s1). Inr (startCycle, wb1, s1))
      else bindR (tcc_processInval cfg down c (i_lineAddr ireq) l (i_type ireq) wb startCycle (i_srcId ireq) s)
        (\<lambda>(resp, wb1, s1). bindR (bcc_processInval c l (i_type ireq) wb1 s1) (\<lambda>(wb2, s2). Inr (resp, wb2, s2))))"

text \<open>What the replacement policy sees of the controller.\<close>

definition view_of :: "'a CacheCfg \<Rightarrow> nat \<Rightarrow> ('a, 'm) MemSys \<Rightarrow> cc_view" where
  "view_of cfg c s =
     \<lparr>cc_numSharers = (\<lambda>l. if terminal cfg then 0 else numSharers (entry c l s)),
      cc_isValid = (\<lambda>l. bstate c l s \<noteq> I)\<rparr>"

section \<open>Timing records\<close>

definition set_recorder :: "nat \<Rightarrow> Recorded option \<Rightarrow> ('a, 'm) MemSys \<Rightarrow> ('a, 'm) MemSys" where
  "set_recorder src r s = s\<lparr>recorders := (recorders s)[src := r]\<rparr>"

text \<open>The record that an eviction may have left, which is taken out of the slot.\<close>

definition take_record :: "nat \<Rightarrow> ('a, 'm) MemSys \<Rightarrow> Recorded option \<times> ('a, 'm) MemSys" where
  "take_record src s =
     (case recorders s ! src of
        None \<Rightarrow> (None, s)
      | Some r \<Rightarrow> if rc_valid r then (Some r, set_recorder src (Some (rc_clear r)) s) else (None, s))"

definition push_rec :: "nat \<Rightarrow> Recorded \<Rightarrow> ('a, 'm) MemSys \<Rightarrow> ('a, 'm) MemSys res" where
  "push_rec src r s =
     (case recorders s ! src of
        None \<Rightarrow> Inl (Undefined ''evRec'')
      | Some tr \<Rightarrow> bindR (pushRecord r tr) (\<lambda>tr1. Inr (set_recorder src (Some tr1) s)))"

text \<open>A delay event in front of an event, below a common start.\<close>

definition delayed :: "nat \<Rightarrow> nat \<Rightarrow> nat \<Rightarrow> Recorded \<Rightarrow> Weave \<Rightarrow> Weave res" where
  "delayed startEv dEv reqCycle r w =
     bindR (addChild startEv dEv w) (\<lambda>(d, w1).
       bindR (addChild d (the (rc_startEvent r)) w1) (\<lambda>(e, w2). Inr w2))"

definition connect_records :: "nat \<Rightarrow> Recorded \<Rightarrow> Recorded \<Rightarrow> Weave \<Rightarrow> (nat \<times> Weave) res" where
  "connect_records reqCycle wbAcc acc w =
     (let (startEv, w1) = alloc (new_DelayEvent 0) w;
          (dWbEv, w2) = alloc (new_DelayEvent (rc_reqCycle wbAcc - reqCycle)) w1;
          (dAccEv, w3) = alloc (new_DelayEvent (rc_reqCycle acc - reqCycle)) w2;
          w4 = setMinStartCycle dAccEv reqCycle (setMinStartCycle dWbEv reqCycle (setMinStartCycle startEv reqCycle w3))
      in bindR (delayed startEv dWbEv reqCycle wbAcc w4) (\<lambda>w5.
           bindR (delayed startEv dAccEv reqCycle acc w5) (\<lambda>w6. Inr (startEv, w6))))"

text \<open>
  The end of \<open>Cache::access\<close>: when the eviction left a record and the access another, both are
  joined below one start event, so that the core still finds a single record.
\<close>

definition stitch_records :: "MemReq \<Rightarrow> Recorded option \<Rightarrow> ('a, 'm) MemSys \<Rightarrow> ('a, 'm) MemSys res" where
  "stitch_records req wbAcc s =
     (case wbAcc of
        None \<Rightarrow> Inr s
      | Some wb \<Rightarrow>
          (case take_record (srcId req) s of
             (None, s1) \<Rightarrow>
               (let wb1 = wb\<lparr>rc_endEvent := None\<rparr>; e = the (rc_startEvent wb1) in
                if \<not> is_flag (flags req) PREFETCH_NOREC then push_rec (srcId req) wb1 s1
                else if te_domain (events (weave s1) ! e) \<noteq> - 1 then
                  bindR (te_queue e (te_minStart (events (weave s1) ! e)) (weave s1)) (\<lambda>w. Inr (s1\<lparr>weave := w\<rparr>))
                else Inr s1)
           | (Some acc, s1) \<Rightarrow>
               require (rc_reqCycle wb \<ge> cycle req) (AssertFail ''wbAcc.reqCycle >= req.cycle'')
                 (require (rc_reqCycle acc \<ge> cycle req) (AssertFail ''acc.reqCycle >= req.cycle'')
                   (bindR (connect_records (cycle req) wb acc (weave s1)) (\<lambda>(startEv, w).
                      if \<not> is_flag (flags req) PREFETCH_NOREC then
                        push_rec (srcId req) (acc\<lparr>rc_reqCycle := cycle req, rc_startEvent := Some startEv\<rparr>) (s1\<lparr>weave := w\<rparr>)
                      else Inl (Panicked ''did not see that coming!''))))))"

section \<open>Cache\<close>

text \<open>
  Find a line for the request: the line that holds the address, or a victim whose owners give it
  up first. An array that never finds a victim is an array that does not return.
\<close>

definition cache_fill ::
  "'a CacheCfg \<Rightarrow> ('a, 'm) up \<Rightarrow> ('a, 'm) down \<Rightarrow> nat \<Rightarrow> MemReq \<Rightarrow> nat \<Rightarrow> ('a, 'm) MemSys
     \<Rightarrow> (nat \<times> ('a, 'm) MemSys) res" where
  "cache_fill cfg up down c req respCycle s =
     (case ao_preinsert (arrayOps cfg) (view_of cfg c s) (lineAddr req) req (c_array (caches s ! c)) of
        None \<Rightarrow> Inl (Undefined ''preinsert'')
      | Some r \<Rightarrow> bindR r (\<lambda>(l, wbLineAddr, A).
          bindR (cc_processEviction cfg up down c req wbLineAddr l respCycle (set_array c A s)) (\<lambda>(evCycle, s1).
            bindR (ao_postinsert (arrayOps cfg) (lineAddr req) req l (c_array (caches s1 ! c))) (\<lambda>A1.
              Inr (l, set_array c A1 s1)))))"

definition cc_processAccess ::
  "'a CacheCfg \<Rightarrow> ('a, 'm) up \<Rightarrow> ('a, 'm) down \<Rightarrow> nat \<Rightarrow> MemReq \<Rightarrow> StatePtr \<Rightarrow> nat option \<Rightarrow> nat \<Rightarrow> ('a, 'm) MemSys
     \<Rightarrow> (nat \<times> ('a, 'm) MemSys) res" where
  "cc_processAccess cfg up down c req ptr lid startCycle s =
     (if terminal cfg then term_processAccess cfg up c req lid startCycle s
      else mesi_processAccess cfg up down c req ptr lid startCycle s)"

definition cache_access ::
  "'a CacheCfg \<Rightarrow> ('a, 'm) up \<Rightarrow> ('a, 'm) down \<Rightarrow> nat \<Rightarrow> MemReq \<Rightarrow> StatePtr \<Rightarrow> ('a, 'm) MemSys
     \<Rightarrow> (nat \<times> ('a, 'm) MemSys) res" where
  "cache_access cfg up down c req0 ptr s =
     bindR (cc_startAccess cfg req0 (get_ptr ptr s)) (\<lambda>(skipAccess, t).
       let req = req0\<lparr>req_type := t\<rparr> in
       bindR (if skipAccess then Inr (cycle req, s)
              else
                bindR (ao_lookup (arrayOps cfg) (lineAddr req) req (IsGet t) (c_array (caches s ! c))) (\<lambda>(lid, A).
                  let s1 = set_array c A s; respCycle = cycle req + accLat cfg in
                  bindR (case lid of
                           Some l \<Rightarrow> Inr (Some l, s1)
                         | None \<Rightarrow> bindR (cc_shouldAllocate cfg req) (\<lambda>alloc.
                             if alloc then bindR (cache_fill cfg up down c req respCycle s1) (\<lambda>(l, s2). Inr (Some l, s2))
                             else Inr (None, s1)))
                    (\<lambda>(lid1, s2). let (wbAcc, s3) = take_record (srcId req) s2 in
                       bindR (cc_processAccess cfg up down c req ptr lid1 respCycle s3) (\<lambda>(resp, s4).
                         bindR (stitch_records req wbAcc s4) (\<lambda>s5. Inr (resp, s5))))))
         (\<lambda>(resp, s6). require (resp \<ge> cycle req) (AssertFail ''resp < req?'') (Inr (resp, s6))))"

text \<open>The request is a null pointer in the lookup of an invalidation, which does not update the policy.\<close>

definition null_req :: MemReq where
  "null_req = \<lparr>lineAddr = 0, req_type = GETS, childId = 0, cycle = 0, initialState = I, srcId = 0, flags = 0\<rparr>"

definition cache_invalidate ::
  "'a CacheCfg \<Rightarrow> ('a, 'm) down \<Rightarrow> nat \<Rightarrow> InvReq \<Rightarrow> bool \<Rightarrow> ('a, 'm) MemSys \<Rightarrow> (nat \<times> bool \<times> ('a, 'm) MemSys) res" where
  "cache_invalidate cfg down c ireq wb s =
     bindR (ao_lookup (arrayOps cfg) (i_lineAddr ireq) null_req False (c_array (caches s ! c))) (\<lambda>(lid, A).
       case lid of
         None \<Rightarrow> Inl (AssertFail ''Invalidate on non-existing address'')
       | Some l \<Rightarrow> cc_processInv cfg down c ireq l (i_cycle ireq + invLat cfg) wb (set_array c A s))"

text \<open>
  \<open>FilterCache::invalidate\<close>: an invalidation or downgrade of a line empties its filter entry
  before the cache looks at it.
\<close>

definition filter_index :: "'a CacheCfg \<Rightarrow> addr \<Rightarrow> nat" where
  "filter_index cfg a = unat (a AND of_nat (filterSets cfg - 1))"

definition clear_filter :: "FilterEntry \<Rightarrow> FilterEntry" where
  "clear_filter e = e\<lparr>wrAddr := 0, rdAddr := 0, availCycle := 0\<rparr>"

definition drop_filter :: "'a CacheCfg \<Rightarrow> addr \<Rightarrow> FilterEntry list \<Rightarrow> FilterEntry list" where
  "drop_filter cfg a fs =
     (let i = filter_index cfg a; e = fs ! i
      in if rdAddr e OR procMask cfg = a then fs[i := e\<lparr>wrAddr := - 1, rdAddr := - 1\<rparr>] else fs)"

definition obj_invalidate ::
  "'a CacheCfg \<Rightarrow> ('a, 'm) down \<Rightarrow> nat \<Rightarrow> InvReq \<Rightarrow> bool \<Rightarrow> ('a, 'm) MemSys \<Rightarrow> (nat \<times> bool \<times> ('a, 'm) MemSys) res" where
  "obj_invalidate cfg down c ireq wb s =
     cache_invalidate cfg down c ireq wb
       (if filterSets cfg = 0 then s else upd_filter c (drop_filter cfg (i_lineAddr ireq)) s)"

section \<open>The hierarchy\<close>

text \<open>
  A memory: it reads the request, and changes its own state, the record slots and the events. The
  answer holds the state that it grants to the requester.
\<close>

type_synonym 'm mem_obj =
  "MemReq \<Rightarrow> 'm \<Rightarrow> Recorded option list \<Rightarrow> Weave \<Rightarrow> (nat \<times> MESIState \<times> 'm \<times> Recorded option list \<times> Weave) res"

definition mem_access :: "'m mem_obj \<Rightarrow> MemReq \<Rightarrow> StatePtr \<Rightarrow> ('a, 'm) MemSys \<Rightarrow> (nat \<times> ('a, 'm) MemSys) res" where
  "mem_access mo req ptr s =
     bindR (mo req (mem s) (recorders s) (weave s)) (\<lambda>(resp, st, m, rs, w).
       Inr (resp, set_ptr ptr st (s\<lparr>mem := m, recorders := rs, weave := w\<rparr>)))"

text \<open>
  The calls between the caches, over a hierarchy given by the parameters of its caches; the
  fuel bounds its depth.
\<close>

primrec invalidate_at ::
  "nat \<Rightarrow> (nat \<Rightarrow> 'a CacheCfg) \<Rightarrow> nat \<Rightarrow> InvReq \<Rightarrow> bool \<Rightarrow> ('a, 'm) MemSys \<Rightarrow> (nat \<times> bool \<times> ('a, 'm) MemSys) res" where
  "invalidate_at 0 cfg c ireq wb s = Inl (Undefined ''depth'')"
| "invalidate_at (Suc k) cfg c ireq wb s = obj_invalidate (cfg c) (invalidate_at k cfg) c ireq wb s"

primrec access_at ::
  "nat \<Rightarrow> nat \<Rightarrow> (nat \<Rightarrow> 'a CacheCfg) \<Rightarrow> 'm mem_obj \<Rightarrow> nat \<Rightarrow> MemReq \<Rightarrow> StatePtr \<Rightarrow> ('a, 'm) MemSys
     \<Rightarrow> (nat \<times> ('a, 'm) MemSys) res" where
  "access_at 0 h cfg mo c req ptr s = Inl (Undefined ''depth'')"
| "access_at (Suc k) h cfg mo c req ptr s =
     cache_access (cfg c)
       (\<lambda>node. case node of CacheNode p \<Rightarrow> access_at k h cfg mo p | MemNode \<Rightarrow> mem_access mo)
       (invalidate_at h cfg) c req ptr s"

end
