(* ===== verification/Directory.thy ===== *)
theory Directory
  imports Coherence
begin

text \<open>
  The directory entry of one line of a shared cache (the \<open>Entry\<close> of \<open>MESITopCC\<close>): when it agrees
  with the states of the line above and below, and that the updates of the controllers keep it so.
\<close>

section \<open>One line of the shared cache\<close>

text \<open>
  \<open>dir_ok n e q p\<close>: the entry \<open>e\<close> and the state \<open>q\<close> of a line agree with the states \<open>p\<close> that its
  \<open>n\<close> children hold. The sharers are exactly the children with the line, a child with permission
  to write is alone and the line is exclusive above, and the flag says so.
\<close>

definition dir_ok :: "nat \<Rightarrow> DirEntry \<Rightarrow> MESIState \<Rightarrow> (nat \<Rightarrow> MESIState) \<Rightarrow> bool" where
  "dir_ok n e q p \<longleftrightarrow>
     (\<forall>k. sharers e k \<longleftrightarrow> k < n \<and> p k \<noteq> I) \<and> numSharers e = card {k. k < n \<and> p k \<noteq> I} \<and>
     (\<forall>k<n. p k \<noteq> I \<longrightarrow> q \<noteq> I) \<and>
     (\<forall>k<n. p k \<in> {E, M} \<longrightarrow> q \<in> {E, M} \<and> isExclusive e) \<and>
     (isExclusive e \<longrightarrow> (\<forall>k<n. p k \<noteq> I \<longrightarrow> p k \<in> {E, M})) \<and>
     (exclusive e \<longrightarrow> numSharers e \<le> 1)"

lemma card_one_eq:
  assumes "card {k. k < n \<and> P k} = 1" "i < n" "P i" "j < (n :: nat)" "P j"
  shows "i = j"
proof -
  from assms(1) obtain x where x: "{k. k < n \<and> P k} = {x}" by (rule card_1_singletonE)
  have "i \<in> {x}" "j \<in> {x}" unfolding x [symmetric] using assms by simp_all
  then show ?thesis by simp
qed

lemma dir_okD:
  assumes "dir_ok n e q p"
  shows "sharers e k \<longleftrightarrow> k < n \<and> p k \<noteq> I" "numSharers e = card {k. k < n \<and> p k \<noteq> I}"
    "k < n \<Longrightarrow> p k \<noteq> I \<Longrightarrow> q \<noteq> I" "k < n \<Longrightarrow> p k \<in> {E, M} \<Longrightarrow> q \<in> {E, M} \<and> isExclusive e"
    "isExclusive e \<Longrightarrow> k < n \<Longrightarrow> p k \<noteq> I \<Longrightarrow> p k \<in> {E, M}" "exclusive e \<Longrightarrow> numSharers e \<le> 1"
  using assms unfolding dir_ok_def by (simp_all, auto)

lemma dir_ok_cong: "(\<And>k. k < n \<Longrightarrow> p k = p' k) \<Longrightarrow> dir_ok n e q p = dir_ok n e q p'"
  by (simp add: dir_ok_def cong: conj_cong)

lemma dir_ok_single:
  assumes "dir_ok n e q p" "isExclusive e" "i < n" "p i \<noteq> I" "j < n" "p j \<noteq> I"
  shows "i = j"
  using card_one_eq [of n "\<lambda>k. p k \<noteq> I" i j] assms by (simp add: dir_ok_def isExclusive_def)

text \<open>A line has one writer at most, and no reader beside it.\<close>

lemma dir_ok_swmr:
  assumes "dir_ok n e q p" "i < n" "p i \<in> {E, M}" "j < n" "j \<noteq> i"
  shows "p j = I"
  using dir_ok_single [of n e q p i j] assms by (auto simp: dir_ok_def)

lemma card_without:
  assumes "k < n" "P k" shows "card {j. j < n \<and> P j \<and> j \<noteq> k} = card {j. j < n \<and> P j} - 1" "0 < card {j. j < (n :: nat) \<and> P j}"
proof -
  have "{j. j < n \<and> P j \<and> j \<noteq> k} = {j. j < n \<and> P j} - {k}" by auto
  then show "card {j. j < n \<and> P j \<and> j \<noteq> k} = card {j. j < n \<and> P j} - 1" using assms by simp
  show "0 < card {j. j < n \<and> P j}" using assms by (auto simp: card_gt_0_iff)
qed

lemma card_with:
  assumes "k < n" "\<not> P k" shows "card {j. j < n \<and> (j \<noteq> k \<longrightarrow> P j)} = card {j. j < (n :: nat) \<and> P j} + 1"
proof -
  have "{j. j < n \<and> (j \<noteq> k \<longrightarrow> P j)} = insert k {j. j < n \<and> P j}" using assms(1) by auto
  then show ?thesis using assms(2) by simp
qed

lemma card_zero_iff: "card {j. j < (n :: nat) \<and> P j} = 0 \<longleftrightarrow> (\<forall>j<n. \<not> P j)"
  by auto

lemma dir_ok_empty_iff:
  assumes "dir_ok n e q p" shows "isEmpty e \<longleftrightarrow> (\<forall>k<n. p k = I)"
  using assms card_zero_iff [of n "\<lambda>k. p k \<noteq> I"] by (simp add: dir_ok_def isEmpty_def)

lemma dir_ok_free: "dir_ok n e q (\<lambda>_. I) \<longleftrightarrow> (\<forall>k. \<not> sharers e k) \<and> numSharers e = 0"
  by (auto simp: dir_ok_def isExclusive_def)

text \<open>The effect of the operations on one line.\<close>

lemma dir_ok_put:
  assumes d: "dir_ok n e q p" and k: "k < n" "p k \<noteq> I"
  shows "dir_ok n (drop_sharer k e) q (p(k := I))"
proof -
  have c: "{j. j < n \<and> (p(k := I)) j \<noteq> I} = {j. j < n \<and> p j \<noteq> I \<and> j \<noteq> k}" by auto
  note cw = card_without [of k n "\<lambda>j. p j \<noteq> I"]
  have num: "numSharers (drop_sharer k e) = card {j. j < n \<and> (p(k := I)) j \<noteq> I}"
  proof -
    have "numSharers e \<noteq> 0" using cw(2) [OF k] dir_okD(2) [OF d] by linarith
    then show ?thesis unfolding c using cw(1) k dir_okD(2) [OF d] by (auto simp: drop_sharer_def dec32_def)
  qed
  have z: "card {j. j < n \<and> (p(k := I)) j \<noteq> I} = 0" if "exclusive e"
    unfolding c using cw(1) [OF k] dir_okD(2,6) [OF d] that by linarith
  have one: "exclusive e \<Longrightarrow> \<forall>j<n. (p(k := I)) j = I" using z unfolding card_zero_iff by blast
  have ex: "isExclusive (drop_sharer k e) \<Longrightarrow> exclusive e" by (simp add: isExclusive_def drop_sharer_def)
  have alone: "j < n \<Longrightarrow> j \<noteq> k \<Longrightarrow> p j \<in> {E, M} \<Longrightarrow> False" for j
    using dir_ok_swmr [OF d, of j k] k by auto
  show ?thesis
    unfolding dir_ok_def
  proof (intro conjI)
    show "\<forall>j. sharers (drop_sharer k e) j \<longleftrightarrow> j < n \<and> (p(k := I)) j \<noteq> I"
      using d by (auto simp: dir_ok_def drop_sharer_def)
    show "\<forall>j<n. (p(k := I)) j \<noteq> I \<longrightarrow> q \<noteq> I" using d by (auto simp: dir_ok_def)
    show "\<forall>j<n. (p(k := I)) j \<in> {E, M} \<longrightarrow> q \<in> {E, M} \<and> isExclusive (drop_sharer k e)" using alone by auto
    show "isExclusive (drop_sharer k e) \<longrightarrow> (\<forall>j<n. (p(k := I)) j \<noteq> I \<longrightarrow> (p(k := I)) j \<in> {E, M})"
      using one ex by auto
    show "exclusive (drop_sharer k e) \<longrightarrow> numSharers (drop_sharer k e) \<le> 1"
    proof
      assume "exclusive (drop_sharer k e)"
      then have "exclusive e" by (simp add: drop_sharer_def)
      then show "numSharers (drop_sharer k e) \<le> 1" using z num by linarith
    qed
  qed (rule num)
qed

lemma dir_ok_up:
  assumes "dir_ok n e q p" "q \<in> {E, M} \<longrightarrow> q' \<in> {E, M}" "q \<noteq> I \<longrightarrow> q' \<noteq> I"
  shows "dir_ok n e q' p"
  using assms by (auto simp: dir_ok_def)

lemma dir_ok_downgrade:
  assumes d: "dir_ok n e q p" and x: "isExclusive e"
  shows "dir_ok n (e\<lparr>exclusive := False\<rparr>) q (\<lambda>k. if sharers e k then S else p k)"
proof -
  have "{k. k < n \<and> (if sharers e k then S else p k) \<noteq> I} = {k. k < n \<and> p k \<noteq> I}" using d by (auto simp: dir_ok_def)
  then show ?thesis using d by (auto simp: dir_ok_def isExclusive_def)
qed

lemma dir_ok_invalidated:
  "dir_ok n e q p \<Longrightarrow> (\<And>k. sharers e' k = False) \<Longrightarrow> numSharers e' = 0 \<Longrightarrow> dir_ok n e' q' (\<lambda>k. if sharers e k then I else p k)"
  by (auto simp: dir_ok_def isExclusive_def)

lemma dir_ok_give_exclusive:
  assumes d: "dir_ok n e q p" and e: "\<forall>j<n. p j = I" and k: "k < n" and q: "q \<in> {E, M}" "v \<in> {E, M}"
    and e': "e' = e\<lparr>sharers := (sharers e)(k := True), numSharers := 1, exclusive := True\<rparr>"
  shows "dir_ok n e' q (p(k := v))"
proof -
  have c: "{j. j < n \<and> (p(k := v)) j \<noteq> I} = {k}" using e k q(2) by auto
  show ?thesis using d e k q unfolding dir_ok_def e' c by (auto simp: isExclusive_def)
qed

lemma dir_ok_share:
  assumes d: "dir_ok n e q p" and x: "\<not> isExclusive e" and k: "k < n" "p k = I" and q: "q \<noteq> I"
    and e': "e' = e\<lparr>sharers := (sharers e)(k := True), numSharers := numSharers e + 1, exclusive := False\<rparr>"
  shows "dir_ok n e' q (p(k := S))"
proof -
  have c: "{j. j < n \<and> (p(k := S)) j \<noteq> I} = {j. j < n \<and> (j \<noteq> k \<longrightarrow> p j \<noteq> I)}" using k by auto
  have ne: "j < n \<Longrightarrow> p j \<notin> {E, M}" for j using dir_okD(4) [OF d] x by blast
  have num: "numSharers e' = card {j. j < n \<and> (p(k := S)) j \<noteq> I}"
    unfolding c using card_with [of k n "\<lambda>j. p j \<noteq> I"] k dir_okD(2) [OF d] by (simp add: e')
  have sh: "sharers e' j \<longleftrightarrow> j < n \<and> (p(k := S)) j \<noteq> I" for j using dir_okD(1) [OF d] k by (auto simp: e')
  show ?thesis
    unfolding dir_ok_def using num sh ne q by (simp add: e' isExclusive_def)
qed

end
