(* ===== verification/Coherent_System.thy ===== *)
theory Coherent_System
  imports Directory
begin

text \<open>
  A system of first-level caches below one shared inclusive cache, as the locale
  \<open>coherent_system\<close>: what it asks of the arrays and of the memory behind it, the invariant of its
  state, and the operations of the controllers on one line: invalidations, grants, and the requests
  of the shared cache to its memory.
\<close>

section \<open>The system\<close>

text \<open>
  What the system relies on behind the shared cache. A memory answers no earlier than asked, grants
  the state of \<open>granted_state\<close>, and leaves at most a record for the requesting core, whose start
  event is fresh and whose request cycle is the one of the request or the cycle before.
\<close>

definition good_record :: "Weave \<Rightarrow> nat \<Rightarrow> Recorded \<Rightarrow> bool" where
  "good_record w c r \<longleftrightarrow> (\<exists>e. rc_startEvent r = Some e \<and> e < length (events w) \<and>
     te_state (events w ! e) = EV_NONE \<and> c \<le> rc_reqCycle r + 1)"

definition slot_free :: "Recorded option \<Rightarrow> bool" where
  "slot_free t \<longleftrightarrow> (case t of None \<Rightarrow> True | Some r \<Rightarrow> \<not> rc_valid r)"

definition extends :: "Weave \<Rightarrow> Weave \<Rightarrow> bool" where
  "extends w w' \<longleftrightarrow> length (events w) \<le> length (events w') \<and> wv_inv {#} w' \<and>
     (\<forall>i<length (events w). te_state (events w' ! i) = te_state (events w ! i))"

definition slot_step :: "nat \<Rightarrow> nat \<Rightarrow> Recorded option list \<Rightarrow> Weave \<Rightarrow> Recorded option list \<Rightarrow> Weave \<Rightarrow> bool" where
  "slot_step src c rs w rs' w' \<longleftrightarrow> length rs' = length rs \<and> extends w w' \<and>
     (\<forall>i. i \<noteq> src \<longrightarrow> rs' ! i = rs ! i) \<and> (rs ! src = None \<longleftrightarrow> rs' ! src = None) \<and>
     (slot_free (rs' ! src) \<or> (\<exists>r. rs' ! src = Some r \<and> good_record w' c r))"

text \<open>The record of an access and the one of the eviction before it become one record.\<close>

lemma delay_event_simps [simp]:
  "te_state (new_DelayEvent d) = EV_NONE" "te_domain (new_DelayEvent d) = - 1"
  by (simp_all add: new_DelayEvent_def new_event_def)

lemma delayed_ok:
  assumes inv: "wv_inv {#} w" and n: "p < length (events w)" "d < length (events w)"
    and st: "te_state (events w ! p) = EV_NONE" "te_state (events w ! d) = EV_NONE"
    and dom: "te_domain (events w ! p) = - 1" "te_domain (events w ! d) = - 1"
    and r: "rc_startEvent r = Some e" "e < length (events w)" "te_state (events w ! e) = EV_NONE"
  shows "succeeds (delayed p d c r w) (\<lambda>w'. wv_inv {#} w' \<and> length (events w') = length (events w) \<and>
      (\<forall>i<length (events w). te_state (events w' ! i) = te_state (events w ! i) \<and> te_domain (events w' ! i) = te_domain (events w ! i)))"
proof -
  from addChild_no_domain [OF inv n _ st(2) dom(1)] st(1) obtain w1 where w1: "addChild p d w = Inr (d, w1)" "wv_inv {#} w1"
    "length (events w1) = length (events w)"
    "\<And>i. i < length (events w) \<Longrightarrow> te_state (events w1 ! i) = te_state (events w ! i) \<and> te_domain (events w1 ! i) = te_domain (events w ! i)"
    by (auto simp: succeeds_iff)
  have "succeeds (addChild d e w1) (\<lambda>(r, w'). r = e \<and> wv_inv {#} w' \<and> length (events w') = length (events w1) \<and>
      (\<forall>i<length (events w1). te_state (events w' ! i) = te_state (events w1 ! i) \<and>
         te_domain (events w' ! i) = te_domain (events w1 ! i)))"
    by (rule addChild_no_domain [OF w1(2)]) (use n r st dom w1(3,4) in auto)
  then show ?thesis using w1 r(1) by (auto simp: delayed_def succeeds_iff)
qed

lemma connect_ok:
  assumes inv: "wv_inv {#} w" and wb: "good_record w c wb" and acc: "good_record w c' acc"
  shows "succeeds (connect_records cyc wb acc w) (\<lambda>(e, w'). e < length (events w') \<and> te_state (events w' ! e) = EV_NONE \<and> extends w w')"
proof -
  let ?n = "length (events w)"
  define w3 where "w3 = w\<lparr>events := events w @ [new_DelayEvent 0, new_DelayEvent (rc_reqCycle wb - cyc), new_DelayEvent (rc_reqCycle acc - cyc)]\<rparr>"
  define w4 where "w4 = setMinStartCycle (?n + 2) cyc (setMinStartCycle (?n + 1) cyc (setMinStartCycle ?n cyc w3))"
  have a3: "alloc (new_DelayEvent (rc_reqCycle acc - cyc)) (snd (alloc (new_DelayEvent (rc_reqCycle wb - cyc)) (snd (alloc (new_DelayEvent 0) w)))) = (?n + 2, w3)"
    by (simp add: alloc_def w3_def)
  have "wv_inv {#} (snd (?n + 2, w3))"
    unfolding a3 [symmetric] unfolding new_DelayEvent_def by (intro alloc_new_inv inv)
  then have i3: "wv_inv {#} w3" by simp
  have len: "length (events w4) = ?n + 3" by (simp add: w4_def w3_def setMinStartCycle_def)
  have i4: "wv_inv {#} w4" unfolding w4_def
    by (intro set_min_inv i3) (simp_all add: w3_def setMinStartCycle_def)
  have old: "te_state (events w4 ! i) = te_state (events w ! i)" if "i < ?n" for i
    using that by (simp add: w4_def w3_def setMinStartCycle_def upd_event_def nth_upd nth_append)
  have new: "te_state (events w4 ! i) = EV_NONE" "te_domain (events w4 ! i) = - 1" if "i \<in> {?n, ?n + 1, ?n + 2}" for i
    using that by (auto simp: w4_def w3_def setMinStartCycle_def upd_event_def nth_upd nth_append)
  from wb obtain e where e: "rc_startEvent wb = Some e" "e < ?n" "te_state (events w ! e) = EV_NONE" by (auto simp: good_record_def)
  from acc obtain e' where e': "rc_startEvent acc = Some e'" "e' < ?n" "te_state (events w ! e') = EV_NONE" by (auto simp: good_record_def)
  have "succeeds (delayed ?n (?n + 1) cyc wb w4) (\<lambda>w'. wv_inv {#} w' \<and> length (events w') = length (events w4) \<and>
      (\<forall>i<length (events w4). te_state (events w' ! i) = te_state (events w4 ! i) \<and> te_domain (events w' ! i) = te_domain (events w4 ! i)))"
    by (rule delayed_ok [OF i4 _ _ _ _ _ _ e(1)]) (use new old e len in auto)
  then obtain w5 where w5: "delayed ?n (?n + 1) cyc wb w4 = Inr w5" "wv_inv {#} w5" "length (events w5) = ?n + 3"
    "\<And>i. i < ?n + 3 \<Longrightarrow> te_state (events w5 ! i) = te_state (events w4 ! i) \<and> te_domain (events w5 ! i) = te_domain (events w4 ! i)"
    by (auto simp: succeeds_iff len)
  have "succeeds (delayed ?n (?n + 2) cyc acc w5) (\<lambda>w'. wv_inv {#} w' \<and> length (events w') = length (events w5) \<and>
      (\<forall>i<length (events w5). te_state (events w' ! i) = te_state (events w5 ! i) \<and> te_domain (events w' ! i) = te_domain (events w5 ! i)))"
    by (rule delayed_ok [OF w5(2) _ _ _ _ _ _ e'(1)]) (use new old e' w5 in auto)
  then obtain w6 where w6: "delayed ?n (?n + 2) cyc acc w5 = Inr w6" "wv_inv {#} w6" "length (events w6) = ?n + 3"
    "\<And>i. i < ?n + 3 \<Longrightarrow> te_state (events w6 ! i) = te_state (events w5 ! i)"
    by (auto simp: succeeds_iff w5(3))
  have "connect_records cyc wb acc w = Inr (?n, w6)"
    using w5(1) w6(1) by (simp add: connect_records_def alloc_def w4_def w3_def Let_def)
  then show ?thesis using w6 w5(4) old new by (simp add: extends_def)
qed

locale memory_object =
  fixes nsrc :: nat
    and minv :: "'m \<Rightarrow> bool"
    and mo :: "'m mem_obj"
  assumes mem_ok: "minv m \<Longrightarrow> wv_inv {#} w \<Longrightarrow> length rs = nsrc \<Longrightarrow> srcId req < nsrc \<Longrightarrow> slot_free (rs ! srcId req) \<Longrightarrow>
    succeeds (mo req m rs w) (\<lambda>(resp, st, m', rs', w'). cycle req \<le> resp \<and> st = granted_state req \<and> minv m' \<and>
      slot_step (srcId req) (cycle req) rs w rs' w')"

text \<open>
  The parameters of the system: \<open>n\<close> first-level caches \<open>0, ..., n - 1\<close>, each with its own array, and
  the shared cache \<open>n\<close>.
\<close>

locale coherent_system = memory_object nsrc minv mo
  for nsrc and minv :: "'m \<Rightarrow> bool" and mo +
  fixes n :: nat
    and cfg :: "nat \<Rightarrow> 'a CacheCfg"
    and ainv :: "nat \<Rightarrow> 'a \<Rightarrow> bool"
    and apend :: "nat \<Rightarrow> addr \<Rightarrow> nat \<Rightarrow> 'a \<Rightarrow> bool"
    and contents :: "nat \<Rightarrow> 'a \<Rightarrow> addr \<Rightarrow> nat option"
  assumes arrays: "c \<le> n \<Longrightarrow> cache_array (numLines (cfg c)) (ainv c) (apend c) (contents c)
      (ao_lookup (arrayOps (cfg c))) (ao_preinsert (arrayOps (cfg c))) (ao_postinsert (arrayOps (cfg c)))"
    and l1: "c < n \<Longrightarrow> terminal (cfg c) \<and> selfId (cfg c) = c \<and> parents (cfg c) = [CacheNode n]"
    and victim_set: "c < n \<Longrightarrow> ainv c A \<Longrightarrow> a \<noteq> 0 \<Longrightarrow> contents c A a = None \<Longrightarrow>
      ao_preinsert (arrayOps (cfg c)) v a req A = Some (Inr (l, b, A')) \<Longrightarrow> b \<noteq> 0 \<Longrightarrow>
      filter_index (cfg c) b = filter_index (cfg c) a"
    and l2: "\<not> terminal (cfg n)" "\<not> nonInclusiveHack (cfg n)" "children (cfg n) = [0..<n]" "parents (cfg n) = [MemNode]"
begin

abbreviation cont :: "nat \<Rightarrow> ('a, 'm) MemSys \<Rightarrow> addr \<Rightarrow> nat option" where
  "cont c s \<equiv> contents c (c_array (caches s ! c))"

definition pst :: "nat \<Rightarrow> ('a, 'm) MemSys \<Rightarrow> addr \<Rightarrow> MESIState" where
  "pst c s a = (case cont c s a of None \<Rightarrow> I | Some l \<Rightarrow> bstate c l s)"

definition shape :: "('a, 'm) MemSys \<Rightarrow> bool" where
  "shape s \<longleftrightarrow> length (caches s) = Suc n \<and> (\<forall>c\<le>n. length (c_bcc (caches s ! c)) = numLines (cfg c)) \<and>
     length (c_tcc (caches s ! n)) = numLines (cfg n) \<and>
     (\<forall>c\<le>n. \<forall>a l. cont c s a = Some l \<longrightarrow> l < numLines (cfg c) \<and> a \<noteq> 0) \<and>
     (\<forall>c\<le>n. \<forall>a b l. cont c s a = Some l \<longrightarrow> cont c s b = Some l \<longrightarrow> a = b)"

definition free_ok :: "nat \<Rightarrow> ('a, 'm) MemSys \<Rightarrow> bool" where
  "free_ok c s \<longleftrightarrow> (\<forall>l<numLines (cfg c). (\<forall>a. cont c s a \<noteq> Some l) \<longrightarrow> bstate c l s = I)"

text \<open>The directory over all lines: a line without an address has no sharers, an address without a
  line is in no first-level cache.\<close>

definition dirs_ok :: "('a, 'm) MemSys \<Rightarrow> bool" where
  "dirs_ok s \<longleftrightarrow>
     (\<forall>l<numLines (cfg n). (\<forall>a. cont n s a \<noteq> Some l) \<longrightarrow> dir_ok n (entry n l s) I (\<lambda>_. I)) \<and>
     (\<forall>a l. cont n s a = Some l \<longrightarrow> dir_ok n (entry n l s) (bstate n l s) (\<lambda>k. pst k s a)) \<and>
     (\<forall>a. cont n s a = None \<longrightarrow> (\<forall>k<n. pst k s a = I))"

definition coh :: "('a, 'm) MemSys \<Rightarrow> bool" where
  "coh s \<longleftrightarrow> shape s \<and> (\<forall>c\<le>n. free_ok c s) \<and> dirs_ok s"

text \<open>
  What an operation on lines leaves alone: the contents of all arrays (whose own state the
  lookups may advance) and everything but the caches.
\<close>

definition calm :: "('a, 'm) MemSys \<Rightarrow> ('a, 'm) MemSys \<Rightarrow> bool" where
  "calm s s' \<longleftrightarrow> shape s' \<and> mem s' = mem s \<and> recorders s' = recorders s \<and> weave s' = weave s \<and>
     (\<forall>c\<le>n. cont c s' = cont c s \<and> (ainv c (c_array (caches s ! c)) \<longrightarrow> ainv c (c_array (caches s' ! c))) \<and>
       (\<forall>a l. apend c a l (c_array (caches s ! c)) \<longrightarrow> apend c a l (c_array (caches s' ! c)))) \<and>
     (\<forall>k<n. free_ok k s \<longrightarrow> free_ok k s')"

text \<open>
  The filters of the first level: an entry names a line that the cache holds, modified where the
  filter lets stores hit. The entries in \<open>X\<close>, pairs of a cache and an index, are left out.
\<close>

definition fentry_ok :: "nat \<Rightarrow> nat \<Rightarrow> ('a, 'm) MemSys \<Rightarrow> FilterEntry \<Rightarrow> bool" where
  "fentry_ok k i s e \<longleftrightarrow>
     (rdAddr e \<notin> {0, - 1} \<longrightarrow> filter_index (cfg k) (rdAddr e OR procMask (cfg k)) = i \<and> pst k s (rdAddr e OR procMask (cfg k)) \<noteq> I) \<and>
     (wrAddr e \<notin> {0, - 1} \<longrightarrow> wrAddr e = rdAddr e \<and> pst k s (rdAddr e OR procMask (cfg k)) = M)"

definition filters_ok :: "(nat \<times> nat) set \<Rightarrow> ('a, 'm) MemSys \<Rightarrow> bool" where
  "filters_ok X s \<longleftrightarrow> (\<forall>k<n. length (filter_of k s) = filterSets (cfg k) \<and>
     (\<forall>i<filterSets (cfg k). (k, i) \<notin> X \<longrightarrow> fentry_ok k i s (filter_of k s ! i)))"

definition fkeep :: "(nat \<times> nat) set \<Rightarrow> ('a, 'm) MemSys \<Rightarrow> ('a, 'm) MemSys \<Rightarrow> bool" where
  "fkeep Y s s' \<longleftrightarrow> (\<forall>X. Y \<subseteq> X \<longrightarrow> filters_ok X s \<longrightarrow> filters_ok X s')"

definition quiet :: "('a, 'm) MemSys \<Rightarrow> ('a, 'm) MemSys \<Rightarrow> bool" where
  "quiet s s' \<longleftrightarrow> shape s' \<and> mem s' = mem s \<and> recorders s' = recorders s \<and> weave s' = weave s \<and>
     (\<forall>c\<le>n. cont c s' = cont c s \<and> (ainv c (c_array (caches s ! c)) \<longrightarrow> ainv c (c_array (caches s' ! c))) \<and>
       (\<forall>a l. apend c a l (c_array (caches s ! c)) \<longrightarrow> apend c a l (c_array (caches s' ! c)))) \<and>
     (\<forall>k<n. free_ok k s \<longrightarrow> free_ok k s') \<and> fkeep {} s s'"

lemma fkeep_refl [simp]: "fkeep Y s s"
  by (simp add: fkeep_def)

lemma fkeep_trans: "fkeep Y s s1 \<Longrightarrow> fkeep Y s1 s2 \<Longrightarrow> fkeep Y s s2"
  by (simp add: fkeep_def)

lemma fkeep_mono: "fkeep Y s s' \<Longrightarrow> Y \<subseteq> Z \<Longrightarrow> fkeep Z s s'"
  unfolding fkeep_def by (meson order_trans)

lemma quiet_iff: "quiet s s' \<longleftrightarrow> calm s s' \<and> fkeep {} s s'"
  by (simp add: quiet_def calm_def)

lemma quiet_calm: "quiet s s' \<Longrightarrow> calm s s'"
  by (simp add: quiet_iff)

lemma quiet_keep: "quiet s s' \<Longrightarrow> fkeep Y s s'"
  by (auto simp: quiet_iff intro: fkeep_mono)

lemma calm_refl: "shape s \<Longrightarrow> calm s s"
  by (simp add: calm_def)

lemma calm_trans: "calm s s1 \<Longrightarrow> calm s1 s2 \<Longrightarrow> calm s s2"
  by (simp add: calm_def)

lemma calm_shape: "calm s s' \<Longrightarrow> shape s'"
  by (simp add: calm_def)

lemma calm_cont: "calm s s' \<Longrightarrow> c \<le> n \<Longrightarrow> cont c s' = cont c s"
  by (simp add: calm_def)

lemma quiet_refl: "shape s \<Longrightarrow> quiet s s"
  by (simp add: quiet_def)

lemma quiet_trans: "quiet s s1 \<Longrightarrow> quiet s1 s2 \<Longrightarrow> quiet s s2"
  unfolding quiet_iff using fkeep_trans calm_trans by blast

text \<open>Filters depend on their entries and on the states of the lines alone.\<close>

lemma filters_cong:
  assumes "\<And>k. k < n \<Longrightarrow> filter_of k s' = filter_of k s" "\<And>k a. k < n \<Longrightarrow> pst k s' a = pst k s a"
  shows "filters_ok X s' = filters_ok X s" "fkeep Y s s'"
proof -
  have "fentry_ok k i s' e = fentry_ok k i s e" if "k < n" for k i e using that assms(2) by (simp add: fentry_ok_def)
  then show "filters_ok X s' = filters_ok X s" for X using assms(1) by (simp add: filters_ok_def)
  then show "fkeep Y s s'" by (simp add: fkeep_def)
qed

text \<open>
  A line \<open>a\<close> of the cache \<open>k\<close> changes its state: the filters stay right if it gets more
  permission, if its entry is left out, or if its entry is emptied.
\<close>

lemma fkeep_line:
  assumes p: "\<And>j b. j < n \<Longrightarrow> pst j s' b = (if j = k \<and> b = a then v else pst j s b)"
    and f: "\<And>j. j < n \<Longrightarrow> filter_of j s' = filter_of j s"
    and v: "pst k s a = I \<or> v = M \<or> (k, filter_index (cfg k) a) \<in> Y"
  shows "fkeep Y s s'"
  unfolding fkeep_def
proof (intro allI impI)
  fix X assume X: "Y \<subseteq> X" and ok: "filters_ok X s"
  have "fentry_ok j i s' e" if j: "j < n" and o: "fentry_ok j i s e" and x: "(j, i) \<notin> X" for j i e
  proof (cases "j = k \<and> rdAddr e OR procMask (cfg k) = a")
    case True
    show ?thesis
    proof (cases "rdAddr e \<in> {0, - 1}")
      case t: True
      then show ?thesis using o by (auto simp: fentry_ok_def)
    next
      case False
      then have "i = filter_index (cfg k) a" "pst k s a \<noteq> I" using o True by (auto simp: fentry_ok_def)
      then have "v = M" using v X x True by auto
      then show ?thesis using o True j by (auto simp: fentry_ok_def p)
    qed
  next
    case False
    then show ?thesis using o j by (auto simp: fentry_ok_def p)
  qed
  then show "filters_ok X s'" using ok f by (simp add: filters_ok_def)
qed

lemma fkeep_drop:
  assumes p: "\<And>j b. j < n \<Longrightarrow> pst j s' b = (if j = k \<and> b = a then v else pst j s b)"
    and f: "\<And>j. j < n \<Longrightarrow> filter_of j s' =
      (if j = k \<and> filterSets (cfg k) \<noteq> 0 then drop_filter (cfg k) a (filter_of k s) else filter_of j s)"
  shows "fkeep Y s s'"
  unfolding fkeep_def
proof (intro allI impI)
  fix X assume ok: "filters_ok X s"
  let ?i = "filter_index (cfg k) a"
  have len: "length (filter_of j s') = length (filter_of j s)" if "j < n" for j
    using f [OF that] by (simp add: drop_filter_def Let_def)
  have "fentry_ok j i s' (filter_of j s' ! i)" if j: "j < n" "i < filterSets (cfg j)" and x: "(j, i) \<notin> X" for j i
  proof -
    have o: "fentry_ok j i s (filter_of j s ! i)" and l: "length (filter_of j s) = filterSets (cfg j)"
      using ok j x by (auto simp: filters_ok_def)
    show ?thesis
    proof (cases "j = k \<and> i = ?i \<and> rdAddr (filter_of k s ! i) OR procMask (cfg k) = a")
      case True
      then show ?thesis using f [OF j(1)] j(2) l by (auto simp: drop_filter_def Let_def fentry_ok_def)
    next
      case False
      then have e: "filter_of j s' ! i = filter_of j s ! i"
        using f [OF j(1)] by (auto simp: drop_filter_def Let_def nth_upd)
      show ?thesis using o False p [OF j(1)] unfolding e by (auto simp: fentry_ok_def)
    qed
  qed
  then show "filters_ok X s'" using ok len by (simp add: filters_ok_def)
qed

lemma contD: "shape s \<Longrightarrow> c \<le> n \<Longrightarrow> cont c s a = Some l \<Longrightarrow> l < numLines (cfg c) \<and> a \<noteq> 0"
  unfolding shape_def by metis

lemma cont_inj: "shape s \<Longrightarrow> c \<le> n \<Longrightarrow> cont c s a = Some l \<Longrightarrow> cont c s b = Some l \<Longrightarrow> a = b"
  unfolding shape_def by metis

lemma shape_index: "shape s \<Longrightarrow> c \<le> n \<Longrightarrow> c < length (caches s)"
  by (simp add: shape_def)

lemma caches_upd_cache: "c < length (caches s) \<Longrightarrow> caches (upd_cache c f s) ! j = (if j = c then f (caches s ! c) else caches s ! j)"
  by (simp add: upd_cache_def nth_upd)

lemma upd_cache_rest [simp]:
  "mem (upd_cache c f s) = mem s" "recorders (upd_cache c f s) = recorders s" "weave (upd_cache c f s) = weave s"
  "length (caches (upd_cache c f s)) = length (caches s)" "dummyState (upd_cache c f s) = dummyState s"
  by (simp_all add: upd_cache_def)

text \<open>Reads after writes.\<close>

lemma bstate_set:
  "shape s \<Longrightarrow> c \<le> n \<Longrightarrow> l < numLines (cfg c) \<Longrightarrow>
    bstate j i (set_bstate c l v s) = (if j = c \<and> i = l then v else bstate j i s)"
  by (simp add: bstate_def set_bstate_def caches_upd_cache shape_index shape_def)

lemma entry_set [simp]: "entry j i (set_bstate c l v s) = entry j i s"
  by (cases "c < length (caches s)") (auto simp: entry_def set_bstate_def upd_cache_def nth_upd)

lemma entry_upd:
  "shape s \<Longrightarrow> l < numLines (cfg n) \<Longrightarrow> entry n i (upd_entry n l f s) = (if i = l then f (entry n l s) else entry n i s)"
  by (simp add: entry_def upd_entry_def caches_upd_cache shape_index shape_def)

lemma bstate_upd_entry [simp]: "bstate j i (upd_entry c l f s) = bstate j i s"
  by (cases "c < length (caches s)") (auto simp: bstate_def upd_entry_def upd_cache_def nth_upd)

lemma arrays_same [simp]:
  "c_array (caches (set_bstate c l v s) ! j) = c_array (caches s ! j)"
  "c_array (caches (upd_entry c l f s) ! j) = c_array (caches s ! j)"
  by (cases "c < length (caches s)"; simp add: set_bstate_def upd_entry_def upd_cache_def nth_upd)+

lemma filter_same [simp]:
  "filter_of j (set_bstate c l v s) = filter_of j s" "filter_of j (upd_entry c l f s) = filter_of j s"
  "filter_of j (set_array c A s) = filter_of j s"
  by (cases "c < length (caches s)";
      auto simp: filter_of_def set_bstate_def upd_entry_def set_array_def upd_cache_def nth_upd)+

lemma upd_filter_simps [simp]:
  "bstate j i (upd_filter c g s) = bstate j i s" "entry j i (upd_filter c g s) = entry j i s"
  "c_array (caches (upd_filter c g s) ! j) = c_array (caches s ! j)"
  "mem (upd_filter c g s) = mem s" "recorders (upd_filter c g s) = recorders s" "weave (upd_filter c g s) = weave s"
  by (cases "c < length (caches s)";
      auto simp: bstate_def entry_def upd_filter_def upd_cache_def nth_upd)+

lemma upd_filter_shape: "shape s \<Longrightarrow> c \<le> n \<Longrightarrow> shape (upd_filter c g s)"
  by (auto simp: shape_def upd_filter_def upd_cache_def nth_upd)

lemma filter_upd: "shape s \<Longrightarrow> c \<le> n \<Longrightarrow> filter_of j (upd_filter c g s) = (if j = c then g (filter_of c s) else filter_of j s)"
  by (simp add: filter_of_def upd_filter_def caches_upd_cache shape_index)

lemma pst_upd_filter [simp]: "pst j (upd_filter c g s) b = pst j s b"
  by (simp add: pst_def split: option.split)

lemma calm_upd_filter: "shape s \<Longrightarrow> c \<le> n \<Longrightarrow> calm s (upd_filter c g s)"
  by (simp add: calm_def upd_filter_shape free_ok_def)

lemma set_array_simps:
  assumes "shape s" "c \<le> n"
  shows "bstate j i (set_array c A s) = bstate j i s" "entry j i (set_array c A s) = entry j i s"
    "c_array (caches (set_array c A s) ! j) = (if j = c then A else c_array (caches s ! j))"
  using shape_index [OF assms] by (simp_all add: bstate_def entry_def set_array_def caches_upd_cache)

lemma rest_same [simp]:
  "mem (set_bstate c l v s) = mem s" "recorders (set_bstate c l v s) = recorders s" "weave (set_bstate c l v s) = weave s"
  "mem (upd_entry c l f s) = mem s" "recorders (upd_entry c l f s) = recorders s" "weave (upd_entry c l f s) = weave s"
  "mem (set_array c A s) = mem s" "recorders (set_array c A s) = recorders s" "weave (set_array c A s) = weave s"
  by (simp_all add: set_bstate_def upd_entry_def set_array_def)

lemma shape_upd:
  assumes "shape s" "c \<le> n"
  shows "shape (set_bstate c l v s)" "shape (upd_entry c l f s)" "contents c A = cont c s \<Longrightarrow> shape (set_array c A s)"
  using assms by (auto simp: shape_def set_bstate_def upd_entry_def set_array_def upd_cache_def nth_upd)

text \<open>The states of addresses.\<close>

lemma pst_set:
  assumes "shape s" "c \<le> n" "cont c s a = Some l" "j \<le> n"
  shows "pst j (set_bstate c l v s) b = (if j = c \<and> b = a then v else pst j s b)"
proof -
  have l: "l < numLines (cfg c)" using assms by (auto simp: shape_def)
  have inj: "cont c s b = Some l \<Longrightarrow> b = a"
    using assms(1-3) unfolding shape_def by metis
  note bs = bstate_set [OF assms(1,2) l]
  show ?thesis
  proof (cases "cont j s b")
    case None
    then show ?thesis using assms(3) by (auto simp: pst_def)
  next
    case (Some i)
    then have "pst j (set_bstate c l v s) b = (if j = c \<and> i = l then v else bstate j i s)"
      by (simp add: pst_def bs)
    moreover have "j = c \<and> i = l \<longleftrightarrow> j = c \<and> b = a" using Some inj assms(3) by auto
    ultimately show ?thesis using Some by (simp add: pst_def)
  qed
qed

lemma pst_upd_entry [simp]: "pst j (upd_entry c l f s) b = pst j s b"
  by (simp add: pst_def split: option.split)

lemma pst_set_other:
  "shape s \<Longrightarrow> c \<le> n \<Longrightarrow> l < numLines (cfg c) \<Longrightarrow> j \<noteq> c \<Longrightarrow> pst j (set_bstate c l v s) b = pst j s b"
  by (auto simp: pst_def bstate_set split: option.splits)

lemma pst_set_array:
  "shape s \<Longrightarrow> c \<le> n \<Longrightarrow> contents c A = cont c s \<Longrightarrow> pst j (set_array c A s) b = pst j s b"
  by (auto simp: pst_def set_array_simps split: option.split)

lemma pstI: "cont c s a = Some l \<Longrightarrow> pst c s a = bstate c l s"
  by (simp add: pst_def)

lemma pst_Some: "pst c s a \<noteq> I \<Longrightarrow> \<exists>l. cont c s a = Some l \<and> bstate c l s = pst c s a"
  by (auto simp: pst_def split: option.splits)

text \<open>Quiet steps.\<close>

lemma quiet_upd_entry: "shape s \<Longrightarrow> quiet s (upd_entry n l f s)"
  by (simp add: quiet_iff calm_def shape_upd free_ok_def filters_cong(2))

lemma calm_set_l1:
  assumes "shape s" "k < n" "cont k s a = Some l"
  shows "calm s (set_bstate k l v s)"
proof -
  have l: "l < numLines (cfg k)" using assms by (auto simp: shape_def)
  show ?thesis
    using assms l by (auto simp: calm_def shape_upd free_ok_def bstate_set)
qed

lemma quiet_set_l1:
  assumes "shape s" "k < n" "cont k s a = Some l" and v: "pst k s a = I \<or> v = M"
  shows "quiet s (set_bstate k l v s)"
proof -
  have "fkeep {} s (set_bstate k l v s)"
    by (rule fkeep_line [where k = k and a = a and v = v]) (use assms(2) v pst_set [OF assms(1) _ assms(3)] in auto)
  then show ?thesis using calm_set_l1 [OF assms(1-3)] by (simp add: quiet_iff)
qed

lemma quiet_set_l2: "shape s \<Longrightarrow> l < numLines (cfg n) \<Longrightarrow> quiet s (set_bstate n l v s)"
  by (auto simp: quiet_iff calm_def shape_upd free_ok_def bstate_set pst_set_other intro!: filters_cong(2))

lemma quiet_set_array:
  "shape s \<Longrightarrow> c \<le> n \<Longrightarrow> contents c A = cont c s \<Longrightarrow> (ainv c (c_array (caches s ! c)) \<Longrightarrow> ainv c A) \<Longrightarrow>
    (\<And>a l. apend c a l (c_array (caches s ! c)) \<Longrightarrow> apend c a l A) \<Longrightarrow> quiet s (set_array c A s)"
  by (simp add: quiet_iff calm_def shape_upd free_ok_def set_array_simps pst_set_array filters_cong(2))

definition live :: "nat \<Rightarrow> ('a, 'm) MemSys \<Rightarrow> bool" where
  "live c s \<longleftrightarrow> ainv c (c_array (caches s ! c)) \<or> (\<exists>a l. apend c a l (c_array (caches s ! c)))"

lemma quiet_live: "quiet s s' \<Longrightarrow> c \<le> n \<Longrightarrow> live c s \<Longrightarrow> live c s'"
  by (auto simp: quiet_def live_def)

lemma quiet_shape: "quiet s s' \<Longrightarrow> shape s'"
  by (simp add: quiet_def)

lemma quiet_cont: "quiet s s' \<Longrightarrow> c \<le> n \<Longrightarrow> cont c s' = cont c s"
  by (simp add: quiet_def)

lemma lookup_any:
  assumes "c \<le> n" "shape s" "live c s" "a \<noteq> 0"
  shows "succeeds (ao_lookup (arrayOps (cfg c)) a req upd (c_array (caches s ! c)))
    (\<lambda>(r, A). r = cont c s a \<and> contents c A = cont c s \<and> quiet s (set_array c A s))"
proof -
  let ?A = "c_array (caches s ! c)" and ?f = "ao_lookup (arrayOps (cfg c)) a req upd"
  note ok = cache_array.lookup_ok [OF arrays [OF assms(1)] _ assms(4), of ?A req upd]
    and pe = cache_array.lookup_pending [OF arrays [OF assms(1)] _ assms(4), of _ _ ?A req upd]
  from assms(3) have "succeeds (?f ?A) (\<lambda>(r, A). r = cont c s a \<and> contents c A = cont c s)"
    unfolding live_def
  proof (elim disjE exE)
    fix b l assume "apend c b l ?A"
    from pe [OF this] show ?thesis by (rule succeeds_mono) auto
  qed (auto dest!: ok elim!: succeeds_mono)
  then obtain A where A: "?f ?A = Inr (cont c s a, A)" "contents c A = cont c s"
    by (auto simp: succeeds_iff)
  have "ainv c ?A \<Longrightarrow> ainv c A" using ok A by simp
  moreover have "apend c b l ?A \<Longrightarrow> apend c b l A" for b l using pe [of b l] A by simp
  ultimately show ?thesis using A quiet_set_array [OF assms(2,1) A(2)] by simp
qed

section \<open>Invalidations\<close>

definition target :: "InvType \<Rightarrow> MESIState" where
  "target t = (if t = INV then I else S)"

text \<open>What an invalidation does to the first-level cache \<open>k\<close>.\<close>

definition inval_effect ::
  "nat \<Rightarrow> InvReq \<Rightarrow> bool \<Rightarrow> ('a, 'm) MemSys \<Rightarrow> nat \<times> bool \<times> ('a, 'm) MemSys \<Rightarrow> bool" where
  "inval_effect k ireq wb s res \<longleftrightarrow> (case res of (resp, wb', s') \<Rightarrow>
     i_cycle ireq \<le> resp \<and> wb' = (wb \<or> pst k s (i_lineAddr ireq) = M) \<and> quiet s s' \<and>
     (\<forall>j\<le>n. \<forall>b. pst j s' b = (if j = k \<and> b = i_lineAddr ireq then target (i_type ireq) else pst j s b)) \<and>
     (\<forall>l. entry n l s' = entry n l s) \<and> (\<forall>l. bstate n l s' = bstate n l s))"

lemma l1_invalidate:
  assumes "k < n" "shape s" "live k s" and t: "i_type ireq \<in> {INV, INVX}"
    and p: "pst k s (i_lineAddr ireq) \<noteq> I" "i_type ireq = INVX \<Longrightarrow> pst k s (i_lineAddr ireq) \<in> {E, M}"
  shows "succeeds (cache_invalidate (cfg k) dn k ireq wb s) (\<lambda>(resp, wb', s'). i_cycle ireq \<le> resp \<and>
     wb' = (wb \<or> pst k s (i_lineAddr ireq) = M) \<and> calm s s' \<and> (\<forall>j. filter_of j s' = filter_of j s) \<and>
     (\<forall>j\<le>n. \<forall>b. pst j s' b = (if j = k \<and> b = i_lineAddr ireq then target (i_type ireq) else pst j s b)) \<and>
     (\<forall>l. entry n l s' = entry n l s) \<and> (\<forall>l. bstate n l s' = bstate n l s))"
proof -
  let ?a = "i_lineAddr ireq"
  from pst_Some [OF p(1)] obtain l where l: "cont k s ?a = Some l" "bstate k l s = pst k s ?a" by blast
  have kn: "k \<le> n" using assms(1) by simp
  have a0: "?a \<noteq> 0" and ln: "l < numLines (cfg k)" using contD [OF assms(2) kn l(1)] by auto
  from lookup_any [OF kn assms(2,3) a0, of null_req False] obtain A where
    A: "ao_lookup (arrayOps (cfg k)) ?a null_req False (c_array (caches s ! k)) = Inr (Some l, A)" "contents k A = cont k s"
    "quiet s (set_array k A s)"
    using l(1) by (auto simp: succeeds_iff)
  let ?s = "set_array k A s"
  note sa = set_array_simps [OF assms(2) kn, where A = A]
  have sh: "shape ?s" using A(3) by (rule quiet_shape)
  have cl: "cont k ?s ?a = Some l" using l(1) A(2) sa(3) by simp
  have inv: "bcc_processInval k l (i_type ireq) wb ?s = Inr (wb \<or> pst k s ?a = M, set_bstate k l (target (i_type ireq)) ?s)"
    using t p l(2) by (auto simp: bcc_processInval_def sa(1) target_def Let_def)
  have "cache_invalidate (cfg k) dn k ireq wb s =
      Inr (i_cycle ireq + invLat (cfg k), wb \<or> pst k s ?a = M, set_bstate k l (target (i_type ireq)) ?s)"
    using l1 [OF assms(1)] A(1) inv by (simp add: cache_invalidate_def cc_processInv_def)
  moreover have "calm s (set_bstate k l (target (i_type ireq)) ?s)"
    using calm_trans [OF quiet_calm [OF A(3)] calm_set_l1 [OF sh assms(1) cl]] .
  moreover have "bstate n i (set_bstate k l (target (i_type ireq)) ?s) = bstate n i s" for i
    using assms(1) by (simp add: bstate_set [OF sh kn ln] sa(1))
  ultimately show ?thesis
    using pst_set [OF sh kn cl] pst_set_array [OF assms(2) kn A(2)] by (simp add: sa(2))
qed

lemma obj_invalidate_ok:
  assumes "k < n" "shape s" "live k s" "i_type ireq \<in> {INV, INVX}"
    "pst k s (i_lineAddr ireq) \<noteq> I" "i_type ireq = INVX \<Longrightarrow> pst k s (i_lineAddr ireq) \<in> {E, M}"
  shows "succeeds (obj_invalidate (cfg k) dn k ireq wb s) (inval_effect k ireq wb s)"
proof -
  define s1 where "s1 = (if filterSets (cfg k) = 0 then s else upd_filter k (drop_filter (cfg k) (i_lineAddr ireq)) s)"
  have kn: "k \<le> n" using assms(1) by simp
  have s1: "shape s1" "live k s1" "calm s s1" "pst j s1 b = pst j s b" "entry j l s1 = entry j l s" "bstate j l s1 = bstate j l s" for j b l
    using assms(2,3) upd_filter_shape [OF assms(2) kn] calm_upd_filter [OF assms(2) kn] calm_refl by (auto simp: s1_def live_def)
  have fl: "filter_of j s1 = (if j = k \<and> filterSets (cfg k) \<noteq> 0 then drop_filter (cfg k) (i_lineAddr ireq) (filter_of k s) else filter_of j s)" for j
    using filter_upd [OF assms(2) kn] by (simp add: s1_def)
  have run: "obj_invalidate (cfg k) dn k ireq wb s = cache_invalidate (cfg k) dn k ireq wb s1"
    by (simp add: obj_invalidate_def s1_def)
  from l1_invalidate [OF assms(1) s1(1,2) assms(4), unfolded s1(4), OF assms(5,6), of dn wb] obtain resp s' where
    r: "cache_invalidate (cfg k) dn k ireq wb s1 = Inr (resp, wb \<or> pst k s (i_lineAddr ireq) = M, s')" "i_cycle ireq \<le> resp"
    "calm s1 s'" "\<And>j. filter_of j s' = filter_of j s1"
    "\<And>j b. j \<le> n \<Longrightarrow> pst j s' b = (if j = k \<and> b = i_lineAddr ireq then target (i_type ireq) else pst j s b)"
    "\<And>l. entry n l s' = entry n l s" "\<And>l. bstate n l s' = bstate n l s"
    by (auto simp: succeeds_iff s1(4,5,6))
  have "fkeep {} s s'" by (rule fkeep_drop [where k = k and a = "i_lineAddr ireq"]) (use r(4,5) fl in auto)
  then have "quiet s s'" using calm_trans [OF s1(3) r(3)] by (simp add: quiet_iff)
  then show ?thesis unfolding run using r by (simp add: inval_effect_def)
qed

text \<open>The loop over the children: the sharers among them get the target state, and no other.\<close>

definition hit :: "nat \<Rightarrow> nat \<Rightarrow> ('a, 'm) MemSys \<Rightarrow> nat set" where
  "hit l k s = {j. j < n \<and> k \<le> j \<and> sharers (entry n l s) j}"

definition loop_effect ::
  "nat \<Rightarrow> InvReq \<Rightarrow> nat set \<Rightarrow> nat \<Rightarrow> nat \<Rightarrow> bool \<Rightarrow> ('a, 'm) MemSys \<Rightarrow> nat \<times> nat \<times> bool \<times> ('a, 'm) MemSys \<Rightarrow> bool" where
  "loop_effect l ireq H mc sent wb s res \<longleftrightarrow> (case res of (mc', sent', wb', s') \<Rightarrow>
     mc \<le> mc' \<and> sent' = sent + card H \<and> wb' = (wb \<or> (\<exists>j\<in>H. pst j s (i_lineAddr ireq) = M)) \<and> quiet s s' \<and>
     (\<forall>j\<le>n. \<forall>b. pst j s' b = (if b = i_lineAddr ireq \<and> j \<in> H then target (i_type ireq) else pst j s b)) \<and>
     (\<forall>i. bstate n i s' = bstate n i s) \<and>
     (\<forall>i. entry n i s' = (if i = l \<and> i_type ireq = INV
        then (entry n l s)\<lparr>sharers := \<lambda>j. sharers (entry n l s) j \<and> j \<notin> H\<rparr> else entry n i s)))"

lemma loop_effect_trans:
  assumes a: "inval_effect k ireq wb s (resp, wb1, s1)" and k: "k \<notin> H" "H \<subseteq> {..<n}" "k < n" and l: "l < numLines (cfg n)"
    and s2: "s2 = (if i_type ireq = INV then upd_entry n l (\<lambda>e. e\<lparr>sharers := (sharers e)(k := False)\<rparr>) s1 else s1)"
    and b: "loop_effect l ireq H (max r mc) (sent + 1) wb1 s2 res"
  shows "loop_effect l ireq (insert k H) mc sent wb s res"
proof -
  obtain mc' sent' wb' s' where res: "res = (mc', sent', wb', s')" by (cases res) auto
  note e1 = a [unfolded inval_effect_def prod.case] and e2 = b [unfolded loop_effect_def res prod.case]
  have sh1: "shape s1" using e1 by (auto dest: quiet_shape)
  have "quiet s1 s2" by (simp add: s2 quiet_refl [OF sh1] quiet_upd_entry [OF sh1])
  then have q: "quiet s s'" using e1 e2 by (blast intro: quiet_trans)
  have ent2: "entry n i s2 = (if i = l \<and> i_type ireq = INV then (entry n l s)\<lparr>sharers := (sharers (entry n l s))(k := False)\<rparr> else entry n i s)" for i
    using e1 entry_upd [OF sh1 l] by (auto simp: s2)
  have pst2: "pst j s2 c = (if j = k \<and> c = i_lineAddr ireq then target (i_type ireq) else pst j s c)" if "j \<le> n" for j c
    using e1 that by (simp add: s2)
  have old: "pst j s2 c = pst j s c" if "j \<in> H" for j c
  proof -
    have "j < n" "j \<noteq> k" using that k by auto
    then show ?thesis using pst2 [of j c] by simp
  qed
  have fin: "finite H" using k(2) by (rule finite_subset) simp
  show ?thesis
    unfolding loop_effect_def res prod.case
  proof (intro conjI allI impI)
    show "sent' = sent + card (insert k H)" using e2 k fin by simp
    show "wb' = (wb \<or> (\<exists>j\<in>insert k H. pst j s (i_lineAddr ireq) = M))"
      using e1 e2 old by auto
    show "pst j s' c = (if c = i_lineAddr ireq \<and> j \<in> insert k H then target (i_type ireq) else pst j s c)" if "j \<le> n" for j c
      using e2 pst2 [of j c] that by (auto split: if_splits)
    show "entry n i s' = (if i = l \<and> i_type ireq = INV
        then (entry n l s)\<lparr>sharers := \<lambda>j. sharers (entry n l s) j \<and> j \<notin> insert k H\<rparr> else entry n i s)" for i
      using e2 ent2 [of i] ent2 [of l] by (auto simp: fun_eq_iff intro!: arg_cong [where f = "\<lambda>f. sharers_update f _"])
  qed (use e1 e2 q in \<open>auto simp: s2\<close>)
qed

lemma inv_loop_ok:
  assumes down: "\<And>j wb s. j < n \<Longrightarrow> shape s \<Longrightarrow> live j s \<Longrightarrow> pst j s (i_lineAddr ireq) \<noteq> I \<Longrightarrow>
      (i_type ireq = INVX \<Longrightarrow> pst j s (i_lineAddr ireq) \<in> {E, M}) \<Longrightarrow> succeeds (down j ireq wb s) (inval_effect j ireq wb s)"
    and l: "l < numLines (cfg n)"
    and "k \<le> n" "shape s" "\<forall>j<n. live j s"
    and "\<And>j. j \<in> hit l k s \<Longrightarrow>
      pst j s (i_lineAddr ireq) \<noteq> I \<and> (i_type ireq = INVX \<longrightarrow> pst j s (i_lineAddr ireq) \<in> {E, M})"
  shows "succeeds (inv_loop (cfg n) down n l ireq k [k..<n] mc sent wb s) (loop_effect l ireq (hit l k s) mc sent wb s)"
  using assms(3-6)
proof (induction "n - k" arbitrary: k mc sent wb s)
  case 0
  then have k: "k = n" by simp
  moreover have "hit l n s = {}" by (auto simp: hit_def)
  ultimately show ?case using quiet_refl [OF \<open>shape s\<close>] by (simp add: loop_effect_def)
next
  case (Suc d)
  have kn: "k < n" and d: "d = n - Suc k" using Suc.hyps(2) by auto
  have up: "[k..<n] = k # [Suc k..<n]" using kn by (rule upt_conv_Cons)
  show ?case
  proof (cases "sharers (entry n l s) k")
    case False
    have h: "hit l k s = hit l (Suc k) s" using False by (auto simp: hit_def le_less Suc_le_eq)
    have "succeeds (inv_loop (cfg n) down n l ireq (Suc k) [Suc k..<n] mc sent wb s) (loop_effect l ireq (hit l (Suc k) s) mc sent wb s)"
      using Suc.prems kn unfolding h by (intro Suc.hyps(1) [OF d]) auto
    then show ?thesis using False by (simp add: up h)
  next
    case True
    then have kh: "k \<in> hit l k s" using kn by (simp add: hit_def)
    have "succeeds (down k ireq wb s) (inval_effect k ireq wb s)"
      using Suc.prems(2-4) kn kh by (intro down) auto
    then obtain resp wb1 s1 where d1: "down k ireq wb s = Inr (resp, wb1, s1)" "inval_effect k ireq wb s (resp, wb1, s1)"
      by (auto simp: succeeds_iff)
    note e1 = d1(2) [unfolded inval_effect_def prod.case]
    have sh1: "shape s1" using e1 by (auto dest: quiet_shape)
    define s2 where "s2 = (if i_type ireq = INV then upd_entry n l (\<lambda>e. e\<lparr>sharers := (sharers e)(k := False)\<rparr>) s1 else s1)"
    have "quiet s1 s2" by (simp add: s2_def quiet_refl [OF sh1] quiet_upd_entry [OF sh1])
    then have q2: "quiet s s2" using e1 by (blast intro: quiet_trans)
    have sh2: "sharers (entry n l s2) j \<longleftrightarrow> sharers (entry n l s) j" if "j \<noteq> k" for j
      using that e1 entry_upd [OF sh1 l] by (auto simp: s2_def)
    have h2: "hit l (Suc k) s2 = hit l k s - {k}" using sh2 by (auto simp: hit_def le_less Suc_le_eq)
    let ?r = "resp + (case rttDown (cfg n) of None \<Rightarrow> 0 | Some rtt \<Rightarrow> rtt k)"
    have "succeeds (inv_loop (cfg n) down n l ireq (Suc k) [Suc k..<n] (max ?r mc) (sent + 1) wb1 s2)
        (loop_effect l ireq (hit l (Suc k) s2) (max ?r mc) (sent + 1) wb1 s2)"
    proof (rule Suc.hyps(1) [OF d])
      show "Suc k \<le> n" using kn by simp
      show "shape s2" using q2 by (rule quiet_shape)
      show "\<forall>j<n. live j s2" using Suc.prems(3) quiet_live [OF q2] by simp
      fix j assume "j \<in> hit l (Suc k) s2"
      then have j: "j \<in> hit l k s" "j \<noteq> k" "j < n" using h2 by (auto simp: hit_def)
      then have "pst j s2 (i_lineAddr ireq) = pst j s (i_lineAddr ireq)" using e1 by (simp add: s2_def)
      with Suc.prems(4) [OF j(1)] show "pst j s2 (i_lineAddr ireq) \<noteq> I \<and>
        (i_type ireq = INVX \<longrightarrow> pst j s2 (i_lineAddr ireq) \<in> {E, M})" by simp
    qed
    then have "succeeds (inv_loop (cfg n) down n l ireq (Suc k) [Suc k..<n] (max ?r mc) (sent + 1) wb1 s2)
        (loop_effect l ireq (insert k (hit l (Suc k) s2)) mc sent wb s)"
      by (rule succeeds_mono) (rule loop_effect_trans [OF d1(2) _ _ kn l s2_def], auto simp: hit_def)
    moreover have "insert k (hit l (Suc k) s2) = hit l k s" using h2 kh by auto
    ultimately show ?thesis using True d1(1) by (simp add: up Let_def s2_def)
  qed
qed

lemma invalidate_at_ok:
  assumes "j < n" "shape s" "live j s" "i_type ireq \<in> {INV, INVX}" "pst j s (i_lineAddr ireq) \<noteq> I"
    "i_type ireq = INVX \<Longrightarrow> pst j s (i_lineAddr ireq) \<in> {E, M}"
  shows "succeeds (invalidate_at (Suc h) cfg j ireq wb s) (inval_effect j ireq wb s)"
  unfolding invalidate_at.simps by (rule obj_invalidate_ok) (use assms in auto)

text \<open>
  \<open>sendInvalidates\<close> on the line \<open>l\<close> with the address \<open>a\<close>: every sharer gets the target state, the
  answer says whether one of them was dirty, and the entry is emptied or made shared.
\<close>

definition send_effect ::
  "nat \<Rightarrow> addr \<Rightarrow> InvType \<Rightarrow> bool \<Rightarrow> nat \<Rightarrow> ('a, 'm) MemSys \<Rightarrow> nat \<times> bool \<times> ('a, 'm) MemSys \<Rightarrow> bool" where
  "send_effect l a t wb cyc s res \<longleftrightarrow> (case res of (resp, wb', s') \<Rightarrow>
     cyc \<le> resp \<and> wb' = (wb \<or> (\<exists>j<n. sharers (entry n l s) j \<and> pst j s a = M)) \<and> quiet s s' \<and>
     (\<forall>j\<le>n. \<forall>b. pst j s' b = (if b = a \<and> j < n \<and> sharers (entry n l s) j then target t else pst j s b)) \<and>
     (\<forall>i. bstate n i s' = bstate n i s) \<and> (\<forall>i. i \<noteq> l \<longrightarrow> entry n i s' = entry n i s) \<and>
     (if t = INV then (\<forall>j. \<not> sharers (entry n l s') j) \<and> numSharers (entry n l s') = 0
      else entry n l s' = (entry n l s)\<lparr>exclusive := False\<rparr>))"

lemma sendInvalidates_INV:
  assumes l: "l < numLines (cfg n)" and s: "shape s" "\<forall>j<n. live j s"
    and e: "\<And>j. sharers (entry n l s) j \<Longrightarrow> j < n \<and> pst j s a \<noteq> I"
      "numSharers (entry n l s) = card {j. j < n \<and> sharers (entry n l s) j}"
  shows "succeeds (tcc_sendInvalidates (cfg n) (invalidate_at (Suc h) cfg) n a l INV wb cyc src s) (send_effect l a INV wb cyc s)"
proof (cases "isEmpty (entry n l s)")
  case True
  then have "\<not> sharers (entry n l s) j" for j
    using e card_zero_iff [of n "sharers (entry n l s)"] by (auto simp: isEmpty_def)
  then show ?thesis using True quiet_refl [OF s(1)]
    by (auto simp: tcc_sendInvalidates_def send_effect_def isEmpty_def)
next
  case False
  let ?r = "\<lparr>i_lineAddr = a, i_type = INV, i_cycle = cyc, i_srcId = src\<rparr>"
  have "succeeds (inv_loop (cfg n) (invalidate_at (Suc h) cfg) n l ?r 0 [0..<n] cyc 0 wb s) (loop_effect l ?r (hit l 0 s) cyc 0 wb s)"
    by (rule inv_loop_ok [OF invalidate_at_ok l _ s]) (use e in \<open>auto simp: hit_def\<close>)
  then obtain mc sent wb1 s1 where r: "inv_loop (cfg n) (invalidate_at (Suc h) cfg) n l ?r 0 [0..<n] cyc 0 wb s = Inr (mc, sent, wb1, s1)"
    "loop_effect l ?r (hit l 0 s) cyc 0 wb s (mc, sent, wb1, s1)" by (auto simp: succeeds_iff)
  note f = r(2) [unfolded loop_effect_def prod.case]
  have h: "hit l 0 s = {j. j < n \<and> sharers (entry n l s) j}" by (auto simp: hit_def)
  have sh1: "shape s1" using f by (auto dest: quiet_shape)
  have "numSharers (entry n l s1) = sent" using f e(2) by (simp add: h)
  then have run: "tcc_sendInvalidates (cfg n) (invalidate_at (Suc h) cfg) n a l INV wb cyc src s =
      Inr (mc, wb1, upd_entry n l (numSharers_update (\<lambda>_. 0)) s1)"
    using False r(1) l2(3) by (simp add: tcc_sendInvalidates_def)
  have q: "quiet s (upd_entry n l (numSharers_update (\<lambda>_. 0)) s1)"
    using f quiet_upd_entry [OF sh1] by (blast intro: quiet_trans)
  have sh: "\<not> sharers (entry n l (upd_entry n l (numSharers_update (\<lambda>_. 0)) s1)) j" for j
    using f e(1) by (auto simp: entry_upd [OF sh1 l] h)
  show ?thesis
    unfolding run using f q sh by (simp add: send_effect_def entry_upd [OF sh1 l] h)
qed

lemma sendInvalidates_INVX:
  assumes l: "l < numLines (cfg n)" and s: "shape s" "\<forall>j<n. live j s"
    and e: "\<And>j. sharers (entry n l s) j \<Longrightarrow> j < n \<and> pst j s a \<in> {E, M}"
      "numSharers (entry n l s) = card {j. j < n \<and> sharers (entry n l s) j}" "isExclusive (entry n l s)"
  shows "succeeds (tcc_sendInvalidates (cfg n) (invalidate_at (Suc h) cfg) n a l INVX wb cyc src s) (send_effect l a INVX wb cyc s)"
proof -
  let ?r = "\<lparr>i_lineAddr = a, i_type = INVX, i_cycle = cyc, i_srcId = src\<rparr>"
  have ne: "pst j s a \<noteq> I" if "sharers (entry n l s) j" for j using e(1) [OF that] by auto
  have "succeeds (inv_loop (cfg n) (invalidate_at (Suc h) cfg) n l ?r 0 [0..<n] cyc 0 wb s) (loop_effect l ?r (hit l 0 s) cyc 0 wb s)"
    by (rule inv_loop_ok [OF invalidate_at_ok l _ s]) (use e ne in \<open>auto simp: hit_def\<close>)
  then obtain mc sent wb1 s1 where r: "inv_loop (cfg n) (invalidate_at (Suc h) cfg) n l ?r 0 [0..<n] cyc 0 wb s = Inr (mc, sent, wb1, s1)"
    "loop_effect l ?r (hit l 0 s) cyc 0 wb s (mc, sent, wb1, s1)" by (auto simp: succeeds_iff)
  note f = r(2) [unfolded loop_effect_def prod.case]
  have h: "hit l 0 s = {j. j < n \<and> sharers (entry n l s) j}" by (auto simp: hit_def)
  have sh1: "shape s1" using f by (auto dest: quiet_shape)
  have e1: "entry n i s1 = entry n i s" for i using f by simp
  have one: "numSharers (entry n l s) = 1" "exclusive (entry n l s)" using e(3) by (auto simp: isExclusive_def)
  have run: "tcc_sendInvalidates (cfg n) (invalidate_at (Suc h) cfg) n a l INVX wb cyc src s =
      Inr (mc, wb1, upd_entry n l (exclusive_update (\<lambda>_. False)) s1)"
  proof -
    have "sent = 1" using f e(2) one(1) by (simp add: h)
    moreover have "\<not> isEmpty (entry n l s)" using one(1) by (simp add: isEmpty_def)
    ultimately show ?thesis using r(1) l2(3) e(3) one by (simp add: tcc_sendInvalidates_def e1)
  qed
  have q: "quiet s (upd_entry n l (exclusive_update (\<lambda>_. False)) s1)"
    using f quiet_upd_entry [OF sh1] by (blast intro: quiet_trans)
  show ?thesis
    unfolding run using f q by (simp add: send_effect_def entry_upd [OF sh1 l] e1 h)
qed

section \<open>The shared cache\<close>

text \<open>The state of one address and of one line under an update of the directory.\<close>

lemma dirs_okD:
  assumes "dirs_ok s"
  shows "l < numLines (cfg n) \<Longrightarrow> (\<And>a. cont n s a \<noteq> Some l) \<Longrightarrow> dir_ok n (entry n l s) I (\<lambda>_. I)"
    and "cont n s a = Some l \<Longrightarrow> dir_ok n (entry n l s) (bstate n l s) (\<lambda>k. pst k s a)"
    and "cont n s a = None \<Longrightarrow> k < n \<Longrightarrow> pst k s a = I"
  using assms by (auto simp: dirs_ok_def)

text \<open>
  A quiet step that changes one line only: its entry, its state, and what the first level holds of
  its address.
\<close>

lemma coh_step:
  assumes c: "coh s" and q: "calm s s'" and a: "cont n s a = Some l"
    and p: "\<And>k b. k < n \<Longrightarrow> b \<noteq> a \<Longrightarrow> pst k s' b = pst k s b"
    and o: "\<And>i. i \<noteq> l \<Longrightarrow> entry n i s' = entry n i s" "\<And>i. i \<noteq> l \<Longrightarrow> bstate n i s' = bstate n i s"
    and d: "dir_ok n (entry n l s') (bstate n l s') (\<lambda>k. pst k s' a)"
  shows "coh s'"
proof -
  have sh: "shape s" "\<forall>c\<le>n. free_ok c s" "dirs_ok s" using c by (auto simp: coh_def)
  note dd = dirs_okD [OF sh(3)]
  have ct: "cont n s' = cont n s" using calm_cont [OF q] by simp
  have cong: "dir_ok n e q' (\<lambda>k. pst k s' b) = dir_ok n e q' (\<lambda>k. pst k s b)" if "b \<noteq> a" for e q' b
    using p [OF _ that] by (auto simp: dir_ok_def cong: conj_cong)
  have "free_ok n s'"
    unfolding free_ok_def ct
  proof (intro allI impI)
    fix i assume i: "i < numLines (cfg n)" "\<forall>a. cont n s a \<noteq> Some i"
    then have "i \<noteq> l" using a by auto
    with o(2) i sh(2) show "bstate n i s' = I" by (auto simp: free_ok_def)
  qed
  moreover have "free_ok k s'" if "k < n" for k using q sh(2) that by (simp add: calm_def)
  moreover have "dirs_ok s'"
    unfolding dirs_ok_def ct
  proof (intro conjI allI impI)
    fix i assume i: "i < numLines (cfg n)" "\<forall>a. cont n s a \<noteq> Some i"
    then have "i \<noteq> l" using a by auto
    with dd(1) [of i] i o(1) show "dir_ok n (entry n i s') I (\<lambda>_. I)" by simp
  next
    fix b i assume b: "cont n s b = Some i"
    show "dir_ok n (entry n i s') (bstate n i s') (\<lambda>k. pst k s' b)"
    proof (cases "b = a")
      case True
      then show ?thesis using b a d by simp
    next
      case False
      then have "i \<noteq> l" using b a cont_inj [OF sh(1) order_refl, of b i a] by auto
      then show ?thesis using dd(2) [OF b] o cong [OF False] by simp
    qed
  next
    fix b k assume "cont n s b = None" "k < n"
    then show "pst k s' b = I" using dd(3) [of b k] p [of k b] a by (cases "b = a") auto
  qed
  ultimately show ?thesis using calm_shape [OF q] by (auto simp: coh_def le_less)
qed

lemma caches_cong:
  assumes "caches s' = caches s"
  shows "bstate c l s' = bstate c l s" "entry c l s' = entry c l s" "pst c s' a = pst c s a" "shape s' = shape s"
    "free_ok c s' = free_ok c s" "dirs_ok s' = dirs_ok s" "coh s' = coh s" "live c s' = live c s"
proof -
  show 1: "bstate c l s' = bstate c l s" "entry c l s' = entry c l s" for c l
    using assms by (simp_all add: bstate_def entry_def)
  show 2: "pst c s' a = pst c s a" for c a using assms by (simp add: pst_def 1 split: option.split)
  show 3: "shape s' = shape s" using assms by (simp add: shape_def)
  show 4: "free_ok c s' = free_ok c s" for c using assms by (simp add: free_ok_def 1)
  show 5: "dirs_ok s' = dirs_ok s" using assms by (simp add: dirs_ok_def 1 2)
  show "coh s' = coh s" by (simp add: coh_def 3 4 5)
  show "live c s' = live c s" using assms by (simp add: live_def)
qed

lemma cohD: assumes "coh s" shows "shape s" "c \<le> n \<Longrightarrow> free_ok c s" "dirs_ok s"
  using assms by (auto simp: coh_def)

text \<open>The shared cache changes the state of a line, keeping its permissions.\<close>

lemma coh_set_l2:
  assumes c: "coh s" and a: "cont n s a = Some l"
    and v: "bstate n l s \<in> {E, M} \<longrightarrow> v \<in> {E, M}" "bstate n l s \<noteq> I \<longrightarrow> v \<noteq> I"
  shows "coh (set_bstate n l v s)"
proof -
  note sh = cohD(1) [OF c]
  have l: "l < numLines (cfg n)" using contD [OF sh order_refl a] by simp
  note bs = bstate_set [OF sh order_refl l]
  have p: "pst k (set_bstate n l v s) b = pst k s b" if "k < n" for k b
    using pst_set_other [OF sh order_refl l] that by simp
  show ?thesis
  proof (rule coh_step [OF c quiet_calm [OF quiet_set_l2 [OF sh l]] a])
    have "dir_ok n (entry n l s) v (\<lambda>k. pst k s a)" by (rule dir_ok_up [OF dirs_okD(2) [OF cohD(3) [OF c] a] v])
    then show "dir_ok n (entry n l (set_bstate n l v s)) (bstate n l (set_bstate n l v s)) (\<lambda>k. pst k (set_bstate n l v s) a)"
      using p by (auto simp: bs dir_ok_def cong: conj_cong)
  qed (simp_all add: p bs)
qed

text \<open>A lookup of the shared cache, or of another cache, changes no line.\<close>

lemma coh_set_array:
  assumes "coh s" "c \<le> n" "contents c A = cont c s" shows "coh (set_array c A s)"
proof -
  note sh = cohD(1) [OF assms(1)]
  note sa = set_array_simps [OF sh assms(2), where A = A]
  have ct: "cont j (set_array c A s) = cont j s" for j using assms(3) by (simp add: sa)
  have "dirs_ok (set_array c A s)" using cohD(3) [OF assms(1)]
    by (simp only: dirs_ok_def ct sa(1,2) pst_set_array [OF sh assms(2,3)])
  moreover have "free_ok j (set_array c A s)" if "j \<le> n" for j
    using cohD(2) [OF assms(1) that] by (simp only: free_ok_def ct sa(1))
  ultimately show ?thesis using shape_upd(3) [OF sh assms(2,3)] by (simp add: coh_def)
qed

lemma take_record_free [simp]: "slot_free (recorders s ! src) \<Longrightarrow> take_record src s = (None, s)"
  by (auto simp: take_record_def slot_free_def split: option.splits)

lemma stitch_None [simp]: "stitch_records req None s = Inr s"
  by (simp add: stitch_records_def)

lemma no_flag [simp]: "\<not> is_flag 0 f" "clear_flag f 0 = 0"
  by (simp_all add: is_flag_def clear_flag_def)

text \<open>The first level gives a line back: the line leaves its directory entry.\<close>

definition put_of :: "MESIState \<Rightarrow> AccessType" where
  "put_of st = (if st = M then PUTX else PUTS)"

lemma tcc_put:
  assumes c: "coh s" and a: "cont n s a = Some l" and k: "k < n" "cont k s a = Some lk" "bstate k lk s \<noteq> I"
    and t: "t = put_of (bstate k lk s)"
  shows "tcc_processAccess (cfg n) dn n a l t k x (Line k lk) False cyc src 0 s =
      Inr (cyc, False, set_bstate k lk I (upd_entry n l (drop_sharer k) s))"
    and "coh (set_bstate k lk I (upd_entry n l (drop_sharer k) s))"
    and "calm s (set_bstate k lk I (upd_entry n l (drop_sharer k) s))"
    and "fkeep {(k, filter_index (cfg k) a)} s (set_bstate k lk I (upd_entry n l (drop_sharer k) s))"
    and "\<And>j b. j \<le> n \<Longrightarrow> pst j (set_bstate k lk I (upd_entry n l (drop_sharer k) s)) b = (if j = k \<and> b = a then I else pst j s b)"
proof -
  note sh = cohD(1) [OF c] and d = dirs_okD(2) [OF cohD(3) [OF c] a]
  have l: "l < numLines (cfg n)" using contD [OF sh order_refl a] by simp
  have pk: "pst k s a = bstate k lk s" by (rule pstI) fact
  have shk: "sharers (entry n l s) k" using dir_okD(1) [OF d, of k] k pk by simp
  have "t = PUTX \<Longrightarrow> isExclusive (entry n l s)"
    using dir_okD(4) [OF d k(1)] pk t by (auto simp: put_of_def split: if_splits)
  then show "tcc_processAccess (cfg n) dn n a l t k x (Line k lk) False cyc src 0 s =
      Inr (cyc, False, set_bstate k lk I (upd_entry n l (drop_sharer k) s))"
    using shk t by (auto simp: tcc_processAccess_def put_of_def Let_def)
  let ?s1 = "upd_entry n l (drop_sharer k) s"
  have sh1: "shape ?s1" by (rule shape_upd(2) [OF sh order_refl])
  have c1: "cont k ?s1 a = Some lk" using k(2) by simp
  show ps: "pst j (set_bstate k lk I ?s1) b = (if j = k \<and> b = a then I else pst j s b)" if "j \<le> n" for j b
    using pst_set [OF sh1 _ c1 that, of I b] k(1) by simp
  show q: "calm s (set_bstate k lk I ?s1)"
    by (rule calm_trans [OF quiet_calm [OF quiet_upd_entry [OF sh]] calm_set_l1 [OF sh1 k(1) c1]])
  show "fkeep {(k, filter_index (cfg k) a)} s (set_bstate k lk I ?s1)"
    by (rule fkeep_line [where k = k and a = a and v = I]) (simp_all add: ps)
  have lk: "lk < numLines (cfg k)" using contD [OF sh _ k(2)] k(1) by simp
  have bs: "bstate n i (set_bstate k lk I ?s1) = bstate n i s" for i
    using bstate_set [OF sh1 _ lk] k(1) by simp
  show "coh (set_bstate k lk I ?s1)"
  proof (rule coh_step [OF c q a])
    have "(\<lambda>j. if j < n then pst j (set_bstate k lk I ?s1) a else pst j s a) = (\<lambda>j. pst j s a)(k := I)"
      using ps k(1) by (auto simp: fun_eq_iff)
    moreover have "dir_ok n (drop_sharer k (entry n l s)) (bstate n l s) ((\<lambda>j. pst j s a)(k := I))"
      by (rule dir_ok_put [OF d k(1)]) (use k(3) pk in simp)
    ultimately have "dir_ok n (drop_sharer k (entry n l s)) (bstate n l s) (\<lambda>j. if j < n then pst j (set_bstate k lk I ?s1) a else pst j s a)"
      by simp
    then show "dir_ok n (entry n l (set_bstate k lk I ?s1)) (bstate n l (set_bstate k lk I ?s1)) (\<lambda>j. pst j (set_bstate k lk I ?s1) a)"
      by (simp add: entry_upd [OF sh l] bs dir_ok_def cong: conj_cong)
  qed (simp_all add: ps bs entry_upd [OF sh l])
qed

text \<open>The first level asks for a line that the shared cache holds, with the permission it needs.\<close>

lemma coh_grant:
  assumes c: "coh s" and q: "quiet s s1" and a: "cont n s a = Some l" and k: "k < n" "cont k s a = Some lk"
    and o: "\<And>i. i \<noteq> l \<Longrightarrow> entry n i s1 = entry n i s" "\<And>i. bstate n i s1 = bstate n i s"
    and p: "\<And>j b. j < n \<Longrightarrow> b \<noteq> a \<Longrightarrow> pst j s1 b = pst j s b"
    and d: "dir_ok n (f (entry n l s1)) (bstate n l s) ((\<lambda>j. pst j s1 a)(k := v))" and v: "pst k s1 a = I \<or> v = M"
  shows "coh (set_bstate k lk v (upd_entry n l f s1))" "quiet s (set_bstate k lk v (upd_entry n l f s1))"
    "pst k (set_bstate k lk v (upd_entry n l f s1)) a = v" "bstate n i (set_bstate k lk v (upd_entry n l f s1)) = bstate n i s"
proof -
  note sh = cohD(1) [OF c] and sh1 = quiet_shape [OF q]
  have l: "l < numLines (cfg n)" using contD [OF sh order_refl a] by simp
  let ?s = "upd_entry n l f s1"
  have sh2: "shape ?s" by (rule shape_upd(2) [OF sh1 order_refl])
  have c1: "cont k ?s a = Some lk" using k quiet_cont [OF q, of k] by simp
  have lk: "lk < numLines (cfg k)" using contD [OF sh2 _ c1] k(1) by simp
  have ps: "pst j (set_bstate k lk v ?s) b = (if j = k \<and> b = a then v else pst j s1 b)" if "j \<le> n" for j b
    using pst_set [OF sh2 _ c1 that, of v b] k(1) by simp
  show q3: "quiet s (set_bstate k lk v ?s)"
    by (rule quiet_trans [OF quiet_trans [OF q quiet_upd_entry [OF sh1]] quiet_set_l1 [OF sh2 k(1) c1]]) (use v in simp)
  show "pst k (set_bstate k lk v ?s) a = v" using ps [of k a] k(1) by simp
  have bs: "bstate n i (set_bstate k lk v ?s) = bstate n i s" for i
    using bstate_set [OF sh2 _ lk] k(1) o(2) by simp
  then show "bstate n i (set_bstate k lk v ?s) = bstate n i s" .
  show "coh (set_bstate k lk v ?s)"
  proof (rule coh_step [OF c quiet_calm [OF q3] a])
    show "dir_ok n (entry n l (set_bstate k lk v ?s)) (bstate n l (set_bstate k lk v ?s)) (\<lambda>j. pst j (set_bstate k lk v ?s) a)"
      using d by (simp add: entry_upd [OF sh1 l] bs ps dir_ok_def fun_upd_def cong: conj_cong)
  qed (simp_all add: ps bs p o entry_upd [OF sh1 l])
qed

lemma tcc_gets:
  assumes c: "coh s" and a: "cont n s a = Some l" and k: "k < n" "cont k s a = Some lk" "bstate k lk s = I"
    and q: "bstate n l s \<noteq> I" and lv: "\<forall>j<n. live j s"
  shows "succeeds (tcc_processAccess (cfg n) (invalidate_at (Suc h) cfg) n a l GETS k (bstate n l s \<in> {E, M}) (Line k lk) False cyc src fl s)
    (\<lambda>(resp, wb, s'). cyc \<le> resp \<and> coh s' \<and> quiet s s' \<and> pst k s' a \<in> {S, E} \<and> (wb \<longrightarrow> bstate n l s' \<in> {E, M}))"
proof -
  note sh = cohD(1) [OF c] and d = dirs_okD(2) [OF cohD(3) [OF c] a]
  have l: "l < numLines (cfg n)" using contD [OF sh order_refl a] by simp
  have pk: "pst k s a = I" using pstI [OF k(2)] k(3) by simp
  have shk: "\<not> sharers (entry n l s) k" using dir_okD(1) [OF d, of k] pk by simp
  show ?thesis
  proof (cases "isEmpty (entry n l s) \<and> bstate n l s \<in> {E, M} \<and> \<not> is_flag fl NOEXCL")
    case True
    let ?f = "\<lambda>e. e\<lparr>exclusive := True, sharers := (sharers e)(k := True), numSharers := 1\<rparr>"
    have dd: "dir_ok n (?f (entry n l s)) (bstate n l s) ((\<lambda>j. pst j s a)(k := E))"
      by (rule dir_ok_give_exclusive [OF d _ k(1)]) (use True dir_ok_empty_iff [OF d] in auto)
    note g = coh_grant [where f = ?f and v = E, OF c quiet_refl [OF sh] a k(1,2) refl refl refl dd disjI1 [OF pk]]
    show ?thesis using True g(1-3) by (simp add: tcc_processAccess_def Let_def)
  next
    case False
    let ?f = "\<lambda>e. e\<lparr>sharers := (sharers e)(k := True), numSharers := numSharers e + 1, exclusive := False\<rparr>"
    let ?dn = "if isExclusive (entry n l s) then tcc_sendInvalidates (cfg n) (invalidate_at (Suc h) cfg) n a l INVX False cyc src s
        else Inr (cyc, False, s)"
    have "succeeds ?dn (\<lambda>(resp, wb, s1). cyc \<le> resp \<and> quiet s s1 \<and> (wb \<longrightarrow> bstate n l s \<in> {E, M}) \<and>
      \<not> isExclusive (entry n l s1) \<and> (\<forall>i. i \<noteq> l \<longrightarrow> entry n i s1 = entry n i s) \<and> (\<forall>i. bstate n i s1 = bstate n i s) \<and>
      (\<forall>j<n. \<forall>b. b \<noteq> a \<longrightarrow> pst j s1 b = pst j s b) \<and> pst k s1 a = I \<and>
      dir_ok n (entry n l s1) (bstate n l s) (\<lambda>j. pst j s1 a))"
    proof (cases "isExclusive (entry n l s)")
      case True
      have e1: "j < n \<and> pst j s a \<in> {E, M}" if "sharers (entry n l s) j" for j
        using that dir_okD(1) [OF d, of j] dir_okD(5) [OF d True, of j] by auto
      have e2: "numSharers (entry n l s) = card {j. j < n \<and> sharers (entry n l s) j}"
        using dir_okD(1,2) [OF d] by (simp cong: conj_cong)
      have "succeeds (tcc_sendInvalidates (cfg n) (invalidate_at (Suc h) cfg) n a l INVX False cyc src s) (send_effect l a INVX False cyc s)"
        by (rule sendInvalidates_INVX [OF l sh lv e1 e2 True])
      then have "succeeds (tcc_sendInvalidates (cfg n) (invalidate_at (Suc h) cfg) n a l INVX False cyc src s) (\<lambda>(resp, wb, s1). cyc \<le> resp \<and> quiet s s1 \<and> (wb \<longrightarrow> bstate n l s \<in> {E, M}) \<and>
        \<not> isExclusive (entry n l s1) \<and> (\<forall>i. i \<noteq> l \<longrightarrow> entry n i s1 = entry n i s) \<and> (\<forall>i. bstate n i s1 = bstate n i s) \<and>
        (\<forall>j<n. \<forall>b. b \<noteq> a \<longrightarrow> pst j s1 b = pst j s b) \<and> pst k s1 a = I \<and>
        dir_ok n (entry n l s1) (bstate n l s) (\<lambda>j. pst j s1 a))"
      proof (rule succeeds_mono)
        fix x assume x: "send_effect l a INVX False cyc s x"
        obtain resp wb s1 where xx: "x = (resp, wb, s1)" by (cases x) auto
        note f = x [unfolded send_effect_def xx prod.case]
        have "wb \<Longrightarrow> bstate n l s \<in> {E, M}" using f dir_okD(4) [OF d] by auto
        moreover have "dir_ok n ((entry n l s)\<lparr>exclusive := False\<rparr>) (bstate n l s) (\<lambda>j. if sharers (entry n l s) j then S else pst j s a)"
          by (rule dir_ok_downgrade [OF d True])
        then have "dir_ok n (entry n l s1) (bstate n l s) (\<lambda>j. pst j s1 a)"
          using f by (subst dir_ok_cong [where p' = "\<lambda>j. if sharers (entry n l s) j then S else pst j s a"]) (simp_all add: target_def)
        ultimately show "case x of (resp, wb, s1) \<Rightarrow> cyc \<le> resp \<and> quiet s s1 \<and> (wb \<longrightarrow> bstate n l s \<in> {E, M}) \<and>
          \<not> isExclusive (entry n l s1) \<and> (\<forall>i. i \<noteq> l \<longrightarrow> entry n i s1 = entry n i s) \<and> (\<forall>i. bstate n i s1 = bstate n i s) \<and>
          (\<forall>j<n. \<forall>b. b \<noteq> a \<longrightarrow> pst j s1 b = pst j s b) \<and> pst k s1 a = I \<and>
          dir_ok n (entry n l s1) (bstate n l s) (\<lambda>j. pst j s1 a)"
          using f k(1) pk shk by (simp add: xx isExclusive_def)
      qed
      then show ?thesis using True by simp
    next
      case False
      then show ?thesis using quiet_refl [OF sh] d pk by simp
    qed
    then obtain resp wb s1 where r: "?dn = Inr (resp, wb, s1)" "cyc \<le> resp" "quiet s s1" "wb \<Longrightarrow> bstate n l s \<in> {E, M}"
      "\<not> isExclusive (entry n l s1)" "\<And>i. i \<noteq> l \<Longrightarrow> entry n i s1 = entry n i s" "\<And>i. bstate n i s1 = bstate n i s"
      "\<And>j b. j < n \<Longrightarrow> b \<noteq> a \<Longrightarrow> pst j s1 b = pst j s b" "pst k s1 a = I" "dir_ok n (entry n l s1) (bstate n l s) (\<lambda>j. pst j s1 a)"
      unfolding succeeds_iff by auto
    have dd: "dir_ok n (?f (entry n l s1)) (bstate n l s) ((\<lambda>j. pst j s1 a)(k := S))"
      by (rule dir_ok_share [OF r(10,5) k(1) r(9) q refl])
    note g = coh_grant [where f = ?f and v = S, OF c r(3) a k(1,2) r(6,7,8) dd disjI1 [OF r(9)]]
    show ?thesis
      unfolding tcc_processAccess_def Let_def AccessType.case if_not_P [OF False] r(1)
      using shk r(2,4,5) g by simp
  qed
qed

lemma tcc_getx:
  assumes c: "coh s" and a: "cont n s a = Some l" and k: "k < n" "cont k s a = Some lk" "bstate k lk s \<in> {I, S}"
    and q: "bstate n l s = M" and lv: "\<forall>j<n. live j s"
  shows "succeeds (tcc_processAccess (cfg n) (invalidate_at (Suc h) cfg) n a l GETX k True (Line k lk) False cyc src fl s)
    (\<lambda>(resp, wb, s'). cyc \<le> resp \<and> coh s' \<and> quiet s s' \<and> pst k s' a = M \<and> (wb \<longrightarrow> bstate n l s' \<in> {E, M}))"
proof -
  note sh = cohD(1) [OF c] and d = dirs_okD(2) [OF cohD(3) [OF c] a]
  have l: "l < numLines (cfg n)" using contD [OF sh order_refl a] by simp
  have pk: "pst k s a = bstate k lk s" by (rule pstI) fact
  have spur: "sharers (entry n l s) k \<Longrightarrow> \<not> isExclusive (entry n l s)"
    using dir_okD(1) [OF d, of k] dir_okD(5) [OF d _ k(1)] k(3) pk by auto
  define s1 where "s1 = (if sharers (entry n l s) k then upd_entry n l (drop_sharer k) s else s)"
  have sh1: "shape s1" using sh by (simp add: s1_def shape_upd(2))
  have q1: "quiet s s1" by (simp add: s1_def quiet_refl [OF sh] quiet_upd_entry [OF sh])
  have e1: "sharers (entry n l s1) = (sharers (entry n l s))(k := False)"
    by (auto simp: s1_def entry_upd [OF sh l] drop_sharer_def fun_eq_iff)
  have p1: "pst j s1 b = pst j s b" and b1: "bstate j i s1 = bstate j i s" for j b i by (simp_all add: s1_def)
  have num1: "numSharers (entry n l s1) = card {j. j < n \<and> sharers (entry n l s1) j}"
  proof -
    have n0: "numSharers (entry n l s) = card {j. j < n \<and> sharers (entry n l s) j}"
      using dir_okD(1,2) [OF d] by (simp cong: conj_cong)
    show ?thesis
    proof (cases "sharers (entry n l s) k")
      case True
      have "{j. j < n \<and> sharers (entry n l s1) j} = {j. j < n \<and> sharers (entry n l s) j \<and> j \<noteq> k}" unfolding e1 by auto
      moreover have "numSharers (entry n l s) \<noteq> 0" using card_without(2) [of k n "sharers (entry n l s)"] k(1) True n0 by linarith
      moreover have "numSharers (entry n l s1) = dec32 (numSharers (entry n l s))"
        using True by (simp add: s1_def entry_upd [OF sh l] drop_sharer_def)
      ultimately show ?thesis using True n0 card_without(1) [of k n "sharers (entry n l s)"] k(1)
        by (simp only: dec32_def if_False)
    next
      case False
      then show ?thesis using n0 by (simp add: s1_def)
    qed
  qed
  have e1': "j < n \<and> pst j s1 a \<noteq> I" if "sharers (entry n l s1) j" for j
    using that dir_okD(1) [OF d, of j] p1 by (simp add: e1 split: if_splits)
  have "succeeds (tcc_sendInvalidates (cfg n) (invalidate_at (Suc h) cfg) n a l INV False cyc src s1) (send_effect l a INV False cyc s1)"
    by (rule sendInvalidates_INV [OF l sh1 _ e1' num1]) (use lv q1 in \<open>auto intro: quiet_live\<close>)
  then obtain resp wb s2 where r: "tcc_sendInvalidates (cfg n) (invalidate_at (Suc h) cfg) n a l INV False cyc src s1 = Inr (resp, wb, s2)"
    "send_effect l a INV False cyc s1 (resp, wb, s2)" by (auto simp: succeeds_iff)
  note f = r(2) [unfolded send_effect_def prod.case]
  let ?f = "\<lambda>e. e\<lparr>sharers := (sharers e)(k := True), numSharers := numSharers e + 1, exclusive := True\<rparr>"
  have sh2: "shape s2" using f by (auto dest: quiet_shape)
  have q2: "quiet s s2" using f q1 by (blast intro: quiet_trans)
  have o: "\<And>i. i \<noteq> l \<Longrightarrow> entry n i s2 = entry n i s" "\<And>i. bstate n i s2 = bstate n i s"
    using f by (simp_all add: s1_def entry_upd [OF sh l])
  have p2: "pst j s2 b = pst j s b" if "j < n" "b \<noteq> a" for j b using f that p1 by simp
  have gone: "pst j s2 a = I" if "j < n" "j \<noteq> k" for j
    using f that p1 dir_okD(1) [OF d, of j] by (auto simp: e1 target_def)
  have dd: "dir_ok n (?f (entry n l s2)) (bstate n l s) ((\<lambda>j. pst j s2 a)(k := M))"
  proof -
    have "dir_ok n (entry n l s2) (bstate n l s) (\<lambda>_. I)" using f by (simp add: dir_ok_free)
    then have "dir_ok n (?f (entry n l s2)) (bstate n l s) ((\<lambda>_. I)(k := M))"
      by (rule dir_ok_give_exclusive) (use k(1) q f in auto)
    then show ?thesis using gone by (subst dir_ok_cong [where p' = "(\<lambda>_. I)(k := M)"]) auto
  qed
  note g = coh_grant [where f = ?f and v = M, OF c q2 a k(1,2) o p2 dd disjI2 [OF refl]]
  have one: "numSharers (entry n l (upd_entry n l ?f s2)) = 1" using f by (simp add: entry_upd [OF sh2 l])
  have "tcc_processAccess (cfg n) (invalidate_at (Suc h) cfg) n a l GETX k True (Line k lk) False cyc src fl s =
      Inr (resp, wb, set_bstate k lk M (upd_entry n l ?f s2))"
    using spur r(1) one by (auto simp: tcc_processAccess_def Let_def s1_def split: if_splits)
  then show ?thesis using g f q by simp
qed

section \<open>Memory behind the shared cache\<close>

definition env :: "('a, 'm) MemSys \<Rightarrow> bool" where
  "env s \<longleftrightarrow> minv (mem s) \<and> wv_inv {#} (weave s) \<and> length (recorders s) = nsrc"

text \<open>The slot of a core after an access at cycle \<open>c\<close>: free, or with a record of the access.\<close>

definition slot_ok :: "nat \<Rightarrow> nat \<Rightarrow> ('a, 'm) MemSys \<Rightarrow> bool" where
  "slot_ok src c s \<longleftrightarrow> slot_free (recorders s ! src) \<or>
     (\<exists>r. recorders s ! src = Some r \<and> good_record (weave s) c r)"

definition others_same :: "nat \<Rightarrow> ('a, 'm) MemSys \<Rightarrow> ('a, 'm) MemSys \<Rightarrow> bool" where
  "others_same src s s' \<longleftrightarrow> (\<forall>i. i \<noteq> src \<longrightarrow> recorders s' ! i = recorders s ! i) \<and>
     (recorders s ! src = None \<longleftrightarrow> recorders s' ! src = None) \<and> extends (weave s) (weave s')"

lemma extends_trans: "extends u v \<Longrightarrow> extends v w \<Longrightarrow> extends u w"
  by (simp add: extends_def)

lemma others_same_trans: "others_same src u v \<Longrightarrow> others_same src v w \<Longrightarrow> others_same src u w"
  unfolding others_same_def using extends_trans by metis

lemma others_same_refl: "env s \<Longrightarrow> others_same src s s"
  by (simp add: others_same_def env_def extends_def)

lemma set_ptr_rest [simp]: "mem (set_ptr p v s) = mem s" "recorders (set_ptr p v s) = recorders s"
  "weave (set_ptr p v s) = weave s"
  by (cases p; simp)+

lemma mem_access_ok:
  assumes "env s" "srcId req < nsrc" "slot_free (recorders s ! srcId req)"
  shows "succeeds (mem_access mo req (Line c l) s) (\<lambda>(resp, s'). cycle req \<le> resp \<and>
    caches s' = caches (set_bstate c l (granted_state req) s) \<and> env s' \<and> slot_ok (srcId req) (cycle req) s' \<and>
    others_same (srcId req) s s')"
proof -
  from mem_ok [of "mem s" "weave s" "recorders s" req] assms obtain resp st m rs w where
    m: "mo req (mem s) (recorders s) (weave s) = Inr (resp, st, m, rs, w)" "cycle req \<le> resp" "st = granted_state req"
    "minv m" "slot_step (srcId req) (cycle req) (recorders s) (weave s) rs w" by (auto simp: succeeds_iff env_def)
  let ?s = "s\<lparr>mem := m, recorders := rs, weave := w\<rparr>"
  have "caches (set_bstate c l st ?s) = caches (set_bstate c l st s)" by (simp add: set_bstate_def upd_cache_def)
  then show ?thesis
    using m assms(1) by (auto simp: mem_access_def slot_step_def env_def slot_ok_def others_same_def extends_def)
qed

lemma parent_l2: "parent_of (cfg n) a = MemNode"
  using l2(4) by (simp add: parent_of_def getParentId_def)

lemma set_same: "bstate c l s = v \<Longrightarrow> caches (set_bstate c l v s) = caches s"
  by (auto simp: set_bstate_def upd_cache_def bstate_def list_update_id)

lemma set_twice: "shape s \<Longrightarrow> c \<le> n \<Longrightarrow> caches (set_bstate c l v (set_bstate c l u s)) = caches (set_bstate c l v s)"
  by (simp add: set_bstate_def upd_cache_def nth_upd shape_index)

text \<open>The shared cache gives a line up: it is written back when a child had changed it.\<close>

lemma l2_bottom_evict:
  assumes sh: "shape s" and l: "l < numLines (cfg n)" and e: "env s" "src < nsrc" "slot_free (recorders s ! src)"
    and wb: "wb \<longrightarrow> bstate n l s \<in> {E, M}" and up: "up MemNode = mem_access mo"
  shows "succeeds (bcc_processEviction (cfg n) up n b l wb cyc src s) (\<lambda>(resp, s'). cyc \<le> resp \<and>
    caches s' = caches (set_bstate n l I s) \<and> env s' \<and> slot_ok src cyc s' \<and> others_same src s s')"
proof -
  define s1 where "s1 = (if wb then set_bstate n l M s else s)"
  note bs = bstate_set [OF sh order_refl l]
  have s1: "caches (set_bstate n l I s1) = caches (set_bstate n l I s)" "env s1" "slot_free (recorders s1 ! src)" "shape s1"
    "mem s1 = mem s" "recorders s1 = recorders s" "weave s1 = weave s"
    using e sh set_twice [OF sh order_refl, of l I M] shape_upd(1) [OF sh order_refl] by (auto simp: s1_def env_def)
  have bM: "wb \<Longrightarrow> bstate n l s1 = M" by (simp add: s1_def bs)
  have pre: "(if wb then require (bstate n l s \<in> {M, E}) (AssertFail ''*state == M || *state == E'') (Inr (set_bstate n l M s))
      else Inr s) = Inr s1"
    using wb by (auto simp: s1_def require_def)
  let ?put = "\<lambda>t. up (parent_of (cfg n) b) \<lparr>lineAddr = b, req_type = t, childId = selfId (cfg n), cycle = cyc,
                   initialState = bstate n l s1, srcId = src, flags = 0\<rparr> (Line n l) s1"
  have put: "succeeds (?put t) (\<lambda>(resp, s'). cyc \<le> resp \<and> caches s' = caches (set_bstate n l I s) \<and> env s' \<and>
      slot_ok src cyc s' \<and> others_same src s s' \<and> bstate n l s' = I)" if "t \<in> {PUTS, PUTX}" for t
  proof -
    have "succeeds (?put t) (\<lambda>(resp, s'). cyc \<le> resp \<and> caches s' = caches (set_bstate n l I s1) \<and> env s' \<and>
      slot_ok src cyc s' \<and> others_same src s1 s')"
      using mem_access_ok [OF s1(2), of "\<lparr>lineAddr = b, req_type = t, childId = selfId (cfg n), cycle = cyc,
                   initialState = bstate n l s1, srcId = src, flags = 0\<rparr>" n l] e(2) s1(3) that
      by (auto simp: parent_l2 up granted_state_def)
    then show ?thesis
    proof (rule succeeds_mono)
      fix x assume "case x of (resp, s') \<Rightarrow> cyc \<le> resp \<and> caches s' = caches (set_bstate n l I s1) \<and> env s' \<and>
        slot_ok src cyc s' \<and> others_same src s1 s'"
      then show "case x of (resp, s') \<Rightarrow> cyc \<le> resp \<and> caches s' = caches (set_bstate n l I s) \<and> env s' \<and>
        slot_ok src cyc s' \<and> others_same src s s' \<and> bstate n l s' = I"
        using caches_cong(1) [of "snd x" "set_bstate n l I s" n l] bs [of n l I] s1 by (auto simp: others_same_def)
    qed
  qed
  show ?thesis
  proof (cases "bstate n l s1 = I")
    case True
    then have "\<not> wb" using bM by auto
    then have "s1 = s" by (simp add: s1_def)
    with True show ?thesis
      using pre e set_same [of n l s I] others_same_refl [OF e(1)] by (simp add: bcc_processEviction_def slot_ok_def)
  next
    case False
    define t where "t = put_of (bstate n l s1)"
    have "t \<in> {PUTS, PUTX}" by (simp add: t_def put_of_def)
    from put [OF this] obtain resp s' where r: "?put t = Inr (resp, s')" "cyc \<le> resp" "caches s' = caches (set_bstate n l I s)"
      "env s'" "slot_ok src cyc s'" "others_same src s s'" "bstate n l s' = I"
      by (auto simp: succeeds_iff)
    have "(case bstate n l s1 of I \<Rightarrow> Inr (cyc, s1) | S \<Rightarrow> ?put PUTS | E \<Rightarrow> ?put PUTS | M \<Rightarrow> ?put PUTX) = ?put t"
      using False by (cases "bstate n l s1") (simp_all add: t_def put_of_def)
    then have "bcc_processEviction (cfg n) up n b l wb cyc src s = Inr (resp, s')"
      unfolding bcc_processEviction_def pre using r(1,7) by simp
    then show ?thesis using r by simp
  qed
qed

text \<open>The shared cache gets the permission that the request needs.\<close>

lemma l2_bottom_get:
  assumes sh: "shape s" and l: "l < numLines (cfg n)" and e: "env s" "src < nsrc" "slot_free (recorders s ! src)"
    and t: "t \<in> {GETS, GETX}" and up: "up MemNode = mem_access mo"
  shows "succeeds (bcc_processAccess (cfg n) up n a l t cyc src fl s) (\<lambda>(resp, s'). cyc \<le> resp \<and>
    (\<exists>v. caches s' = caches (set_bstate n l v s) \<and> (bstate n l s \<in> {E, M} \<longrightarrow> v \<in> {E, M}) \<and> v \<noteq> I \<and> (t = GETX \<longrightarrow> v = M)) \<and>
    env s' \<and> slot_ok src cyc s' \<and> others_same src s s')"
proof -
  note bs = bstate_set [OF sh order_refl l]
  let ?req = "\<lparr>lineAddr = a, req_type = t, childId = selfId (cfg n), cycle = cyc, initialState = bstate n l s, srcId = src, flags = fl\<rparr>"
  have "succeeds (mem_access mo ?req (Line n l) s) (\<lambda>(resp, s'). cyc \<le> resp \<and>
      caches s' = caches (set_bstate n l (granted_state ?req) s) \<and> env s' \<and> slot_ok src cyc s' \<and> others_same src s s')"
    using mem_access_ok [OF e(1), of ?req n l] e(2,3) by simp
  then obtain resp s' where r: "mem_access mo ?req (Line n l) s = Inr (resp, s')"
      "caches s' = caches (set_bstate n l (granted_state ?req) s)" "env s'" "slot_ok src cyc s'" "others_same src s s'"
    by (auto simp: succeeds_iff)
  have b': "bstate n l s' = granted_state ?req" using caches_cong(1) [OF r(2)] bs by simp
  have miss: "\<exists>d. bcc_miss (cfg n) up n a l t cyc src fl s = Inr (cyc + d, s')"
    using r(1) by (simp add: bcc_miss_def parent_l2 up Let_def)
  then obtain d where miss: "bcc_miss (cfg n) up n a l t cyc src fl s = Inr (cyc + d, s')" by blast
  have hit: "slot_ok src cyc s" "others_same src s s" using e others_same_refl by (simp_all add: slot_ok_def)
  show ?thesis
  proof (cases "t = GETS")
    case True
    show ?thesis
    proof (cases "bstate n l s = I")
      case I: True
      have g: "granted_state ?req \<in> {S, E}" using True by (simp add: granted_state_def)
      then have "bcc_processAccess (cfg n) up n a l t cyc src fl s = Inr (cyc + d, s')"
        using True I miss b' by (simp add: bcc_processAccess_def Let_def)
      then show ?thesis using r g True I by (auto intro!: exI [of _ "granted_state ?req"])
    next
      case False
      then show ?thesis using True e hit set_same [of n l s "bstate n l s"]
        by (simp add: bcc_processAccess_def Let_def) (rule exI [of _ "bstate n l s"], simp)
    qed
  next
    case False
    then have t': "t = GETX" using t by simp
    show ?thesis
    proof (cases "bstate n l s \<in> {I, S}")
      case True
      have g: "granted_state ?req = M" using t' by (simp add: granted_state_def)
      then have "bcc_processAccess (cfg n) up n a l t cyc src fl s = Inr (cyc + d, s')"
        using True t' miss b' by (auto simp: bcc_processAccess_def Let_def)
      then show ?thesis using r g True by (auto intro!: exI [of _ M])
    next
      case False
      then have em: "bstate n l s \<in> {E, M}" by (cases "bstate n l s") auto
      let ?s = "if bstate n l s = E then set_bstate n l M s else s"
      have c: "caches ?s = caches (set_bstate n l M s)" using em set_same [of n l s M] by auto
      have "bstate n l ?s = M" using em bs by auto
      then have "bcc_processAccess (cfg n) up n a l t cyc src fl s = Inr (cyc, ?s)"
        using t' em by (auto simp: bcc_processAccess_def Let_def)
      moreover have "env ?s" "slot_ok src cyc ?s" "others_same src s ?s" using e hit by (auto simp: env_def slot_ok_def others_same_def)
      ultimately show ?thesis using c by (auto intro!: exI [of _ M])
    qed
  qed
qed

end

end
