(* ===== verification/Coherent_Access.thy ===== *)
theory Coherent_Access
  imports Coherent_System
begin

text \<open>
  The accesses of a coherent system: a request of a core down through the first level and the shared
  cache, with the evictions it causes and the timing records it leaves, and back up. No step fails
  an assertion of the controllers, and the invariant holds after it.
\<close>

context coherent_system
begin

section \<open>Fills\<close>

text \<open>An invalid line changes its address: nothing else does.\<close>

lemma install:
  assumes c: "coh s" and m: "m \<le> n" and l: "l < numLines (cfg m)" "bstate m l s = I"
    and a: "cont m s a = None" "a \<noteq> 0"
    and A: "\<And>b. contents m A b = (if b = a then Some l else if cont m s b = Some l then None else cont m s b)"
  shows "coh (set_array m A s)" "\<And>j b. j \<le> n \<Longrightarrow> pst j (set_array m A s) b = pst j s b"
proof -
  note sh = cohD(1) [OF c] and sa = set_array_simps [OF cohD(1) [OF c] m, where A = A]
  let ?s = "set_array m A s"
  show ps: "pst j ?s b = pst j s b" if "j \<le> n" for j b
  proof (cases "j = m")
    case True
    then show ?thesis using a(1) l(2) by (cases "cont m s b") (auto simp: pst_def sa A)
  next
    case False
    then show ?thesis by (simp add: pst_def sa split: option.split)
  qed
  have ct: "cont j ?s = (if j = m then contents m A else cont j s)" for j by (simp add: sa)
  have shs: "shape ?s"
    unfolding shape_def
  proof (intro conjI allI impI)
    fix j b i assume j: "j \<le> n" and i: "cont j ?s b = Some i"
    then have "cont j s b = Some i \<or> j = m \<and> b = a \<and> i = l" by (auto simp: sa A split: if_splits)
    then show "i < numLines (cfg j)" "b \<noteq> 0" using contD [OF sh j, of b i] l(1) a(2) by auto
  next
    fix j b b' i assume "j \<le> n" "cont j ?s b = Some i" "cont j ?s b' = Some i"
    then show "b = b'" using cont_inj [OF sh, of j b i b'] by (auto simp: sa A split: if_splits)
  next
    fix j assume "j \<le> n"
    with sh show "length (c_bcc (caches ?s ! j)) = numLines (cfg j)"
      by (simp add: shape_def set_array_def upd_cache_def nth_upd)
  next
    show "length (c_tcc (caches ?s ! n)) = numLines (cfg n)"
      using sh by (auto simp: shape_def set_array_def upd_cache_def nth_upd)
  qed (use sh in \<open>simp_all add: shape_def set_array_def upd_cache_def nth_upd\<close>)
  moreover have "free_ok j ?s" if j: "j \<le> n" for j
    unfolding free_ok_def ct sa(1)
  proof (intro allI impI)
    fix i assume i: "i < numLines (cfg j)" "\<forall>b. (if j = m then contents m A else cont j s) b \<noteq> Some i"
    show "bstate j i s = I"
    proof (cases "j = m \<and> i = l")
      case True
      then show ?thesis using l(2) by simp
    next
      case False
      have "cont j s b \<noteq> Some i" for b
        using i(2) [rule_format, of b] False a(1) by (auto simp: A split: if_splits)
      then show ?thesis using cohD(2) [OF c j] i(1) by (auto simp: free_ok_def)
    qed
  qed
  moreover have "dirs_ok ?s"
  proof (cases "m = n")
    case False
    then have "cont n ?s = cont n s" by (simp add: sa)
    then show ?thesis using cohD(3) [OF c] ps by (simp add: dirs_ok_def sa(1,2) dir_ok_def cong: conj_cong)
  next
    case True
    note dd = dirs_okD [OF cohD(3) [OF c]]
    have pa: "\<And>k. k < n \<Longrightarrow> pst k s a = I" using dd(3) [of a] a(1) True by simp
    have emp: "dir_ok n (entry n l s) I (\<lambda>_. I)" "\<And>b k. cont n s b = Some l \<Longrightarrow> k < n \<Longrightarrow> pst k s b = I"
    proof -
      show g: "\<And>b k. cont n s b = Some l \<Longrightarrow> k < n \<Longrightarrow> pst k s b = I"
        using dir_okD(3) [OF dd(2)] l(2) True by metis
      show "dir_ok n (entry n l s) I (\<lambda>_. I)"
      proof (cases "\<exists>b. cont n s b = Some l")
        case True
        then obtain b where b: "cont n s b = Some l" by blast
        from dd(2) [OF b] g [OF b] show ?thesis using l(2) \<open>m = n\<close> by (subst (asm) dir_ok_cong [where p' = "\<lambda>_. I"]) auto
      qed (use dd(1) l(1) \<open>m = n\<close> in auto)
    qed
    have cn: "cont n ?s b = (if b = a then Some l else if cont n s b = Some l then None else cont n s b)" for b
      unfolding ct using True A by auto
    show ?thesis
      unfolding dirs_ok_def sa(1,2)
    proof (intro conjI allI impI)
      fix i assume i: "i < numLines (cfg n)" "\<forall>b. cont n ?s b \<noteq> Some i"
      have "cont n s b \<noteq> Some i" for b using i(2) [rule_format, of b] i(2) [rule_format, of a] a(1) [unfolded True]
        by (auto simp: cn split: if_splits)
      then show "dir_ok n (entry n i s) I (\<lambda>_. I)" using dd(1) i(1) by blast
    next
      fix b i assume b: "cont n ?s b = Some i"
      show "dir_ok n (entry n i s) (bstate n i s) (\<lambda>k. pst k ?s b)"
      proof (cases "b = a")
        case t: True
        then have "i = l" using b by (simp add: cn)
        then show ?thesis using emp(1) t l(2) True pa ps by (subst dir_ok_cong [where p' = "\<lambda>_. I"]) auto
      next
        case False
        then have "cont n s b = Some i" using b by (simp add: cn split: if_splits)
        from dd(2) [OF this] ps show ?thesis by (subst dir_ok_cong [where p' = "\<lambda>k. pst k s b"]) auto
      qed
    next
      fix b k assume "cont n ?s b = None" "k < n"
      then show "pst k ?s b = I" using dd(3) [of b k] emp(2) [of b k] ps [of k b] by (auto simp: cn split: if_splits)
    qed
  qed
  ultimately show "coh ?s" by (simp add: coh_def)
qed

text \<open>What an access of the shared cache leaves alone in the first level.\<close>

definition below :: "('a, 'm) MemSys \<Rightarrow> ('a, 'm) MemSys \<Rightarrow> bool" where
  "below s s' \<longleftrightarrow> (\<forall>j<n. cont j s' = cont j s \<and> (ainv j (c_array (caches s ! j)) \<longrightarrow> ainv j (c_array (caches s' ! j))) \<and>
     (\<forall>a l. apend j a l (c_array (caches s ! j)) \<longrightarrow> apend j a l (c_array (caches s' ! j)))) \<and> fkeep {} s s'"

lemma below_trans: "below s s1 \<Longrightarrow> below s1 s2 \<Longrightarrow> below s s2"
  using fkeep_trans by (auto simp: below_def)

lemma below_keep: "below s s' \<Longrightarrow> fkeep Y s s'"
  by (auto simp: below_def intro: fkeep_mono)

lemma quiet_below: "quiet s s' \<Longrightarrow> below s s'"
  by (simp add: quiet_def below_def)

lemma below_live: "below s s' \<Longrightarrow> j < n \<Longrightarrow> live j s \<Longrightarrow> live j s'"
  by (auto simp: below_def live_def)

lemma below_set_array: "shape s \<Longrightarrow> below s (set_array n A s)"
  by (simp add: below_def set_array_simps pst_def filters_cong(2) cong: option.case_cong)

lemma below_caches: "caches s' = caches s2 \<Longrightarrow> below s s2 \<Longrightarrow> below s s'"
  using fkeep_trans [of "{}" s s2 s'] filters_cong(2) [of s' s2 "{}"] caches_cong(3) [of s' s2]
  by (simp add: below_def filter_of_def)

lemma env_quiet: "quiet s s' \<Longrightarrow> env s \<Longrightarrow> env s'"
  by (simp add: quiet_def env_def)

lemma l2_fill:
  assumes c: "coh s" and ai: "ainv n (c_array (caches s ! n))" and lv: "\<forall>j<n. live j s"
    and e: "env s" "srcId req < nsrc" "slot_free (recorders s ! srcId req)"
    and a: "lineAddr req = a" "a \<noteq> 0" "cont n s a = None" and up: "up MemNode = mem_access mo"
  shows "succeeds (cache_fill (cfg n) up (invalidate_at (Suc h) cfg) n req cyc s) (\<lambda>(l, s'). coh s' \<and> cont n s' a = Some l \<and>
    ainv n (c_array (caches s' ! n)) \<and> below s s' \<and> env s' \<and> slot_ok (srcId req) cyc s' \<and> others_same (srcId req) s s' \<and>
    (\<forall>k<n. pst k s' a = I))"
proof -
  note arr = arrays [OF order_refl] and sh = cohD(1) [OF c]
  from cache_array.preinsert_ok [OF arr ai a(2), of "view_of (cfg n) n s" req] a(3) obtain l b A where
    pre: "ao_preinsert (arrayOps (cfg n)) (view_of (cfg n) n s) a req (c_array (caches s ! n)) = Some (Inr (l, b, A))"
    "l < numLines (cfg n)" "apend n a l A" "contents n A = cont n s" "\<forall>x. cont n s x = Some l \<longleftrightarrow> x = b \<and> b \<noteq> 0" by blast
  let ?s1 = "set_array n A s" and ?src = "srcId req"
  have c1: "coh ?s1" by (rule coh_set_array [OF c order_refl pre(4)])
  note sh1 = cohD(1) [OF c1] and sa = set_array_simps [OF sh order_refl, where A = A]
  have ct1: "cont n ?s1 = cont n s" by (simp add: sa pre(4))
  have lv1: "\<forall>j<n. live j ?s1" using lv by (simp add: live_def sa)
  have d1: "(\<forall>j. sharers (entry n l ?s1) j \<longrightarrow> j < n \<and> pst j ?s1 b \<noteq> I) \<and>
      numSharers (entry n l ?s1) = card {j. j < n \<and> sharers (entry n l ?s1) j} \<and>
      ((\<exists>j<n. sharers (entry n l ?s1) j \<and> pst j ?s1 b = M) \<longrightarrow> bstate n l ?s1 \<in> {E, M})"
  proof (cases "b = 0")
    case True
    then have "dir_ok n (entry n l ?s1) I (\<lambda>_. I)"
      using dirs_okD(1) [OF cohD(3) [OF c1] pre(2)] ct1 pre(5) by simp
    then show ?thesis by (simp add: dir_ok_free)
  next
    case False
    then have "cont n ?s1 b = Some l" using ct1 pre(5) by simp
    note d = dirs_okD(2) [OF cohD(3) [OF c1] this]
    show ?thesis using dir_okD(1,2) [OF d] dir_okD(4) [OF d] by (auto cong: conj_cong)
  qed
  have "succeeds (tcc_sendInvalidates (cfg n) (invalidate_at (Suc h) cfg) n b l INV False cyc ?src ?s1) (send_effect l b INV False cyc ?s1)"
    by (rule sendInvalidates_INV [OF pre(2) sh1 lv1]) (use d1 in auto)
  then obtain ev wb s2 where r2: "tcc_sendInvalidates (cfg n) (invalidate_at (Suc h) cfg) n b l INV False cyc ?src ?s1 = Inr (ev, wb, s2)"
    "send_effect l b INV False cyc ?s1 (ev, wb, s2)" by (auto simp: succeeds_iff)
  note f = r2(2) [unfolded send_effect_def prod.case]
  have q2: "quiet ?s1 s2" using f by simp
  have wbq: "wb \<longrightarrow> bstate n l s2 \<in> {E, M}" using f d1 by auto
  have e2: "env s2" "slot_free (recorders s2 ! ?src)" using q2 e by (auto simp: quiet_def env_def)
  note sh2 = quiet_shape [OF q2]
  from l2_bottom_evict [where up = up, OF sh2 pre(2) e2(1) e(2) e2(2) wbq up, of b ev] obtain ev3 s3 where
    r3: "bcc_processEviction (cfg n) up n b l wb ev ?src s2 = Inr (ev3, s3)" "caches s3 = caches (set_bstate n l I s2)"
    "env s3" "slot_ok ?src ev s3" "others_same ?src s2 s3" by (auto simp: succeeds_iff)
  let ?s3 = "set_bstate n l I s2"
  have q3: "quiet ?s1 ?s3" by (rule quiet_trans [OF q2 quiet_set_l2 [OF sh2 pre(2)]])
  note bs3 = bstate_set [OF sh2 order_refl pre(2)]
  have p3: "pst j ?s3 x = (if x = b \<and> sharers (entry n l ?s1) j then I else pst j ?s1 x)" if "j < n" for j x
    using pst_set_other [OF sh2 order_refl pre(2)] f that by (simp add: target_def)
  have c3: "coh ?s3"
  proof (cases "b = 0")
    case True
    have fr: "cont n ?s1 x \<noteq> Some l" for x using ct1 pre(5) True by simp
    have emp: "dir_ok n (entry n l ?s1) I (\<lambda>_. I)" by (rule dirs_okD(1) [OF cohD(3) [OF c1] pre(2) fr])
    have "isEmpty (entry n l ?s1)" using emp by (simp add: dir_ok_free isEmpty_def)
    then have "s2 = ?s1" using r2(1) by (simp add: tcc_sendInvalidates_def)
    moreover have "bstate n l ?s1 = I" using cohD(2) [OF c1 order_refl] pre(2) fr by (simp add: free_ok_def)
    ultimately show ?thesis using caches_cong(7) [OF set_same] c1 by metis
  next
    case False
    then have cb: "cont n ?s1 b = Some l" using ct1 pre(5) by simp
    note d = dirs_okD(2) [OF cohD(3) [OF c1] cb]
    show ?thesis
    proof (rule coh_step [OF c1 quiet_calm [OF q3] cb])
      have gone: "pst k ?s3 b = I" if "k < n" for k using p3 [OF that, of b] dir_okD(1) [OF d, of k] that by auto
      have "dir_ok n (entry n l s2) I (\<lambda>_. I)" using f by (simp add: dir_ok_free)
      then show "dir_ok n (entry n l ?s3) (bstate n l ?s3) (\<lambda>k. pst k ?s3 b)"
        using gone by (subst dir_ok_cong [where p' = "\<lambda>_. I"]) (simp_all add: bs3)
    qed (use p3 f in \<open>simp_all add: bs3\<close>)
  qed
  note cc = caches_cong [OF r3(2)]
  have c4: "coh s3" using c3 by (simp add: cc)
  have arr3: "c_array (caches s3 ! j) = c_array (caches s2 ! j)" for j by (simp add: r3(2))
  have ct3: "cont n s3 = cont n s" using quiet_cont [OF q2 order_refl] ct1 by (simp add: arr3)
  have pe3: "apend n a l (c_array (caches s3 ! n))"
    using q2 pre(3) by (simp add: arr3 quiet_def sa)
  from cache_array.postinsert_ok [OF arr pe3, of req] obtain A1 where
    post: "ao_postinsert (arrayOps (cfg n)) a req l (c_array (caches s3 ! n)) = Inr A1" "ainv n A1"
    "\<And>x. contents n A1 x = (if x = a then Some l else if cont n s3 x = Some l then None else cont n s3 x)"
    by (auto simp: succeeds_iff)
  have b3: "bstate n l s3 = I" by (simp add: cc(1) bs3)
  have cn3: "cont n s3 a = None" using a(3) by (simp add: ct3)
  note ins = install [OF c4 order_refl pre(2) b3 cn3 a(2) post(3)]
  note sa3 = set_array_simps [OF cohD(1) [OF c4] order_refl, where A = A1]
  have run: "cache_fill (cfg n) up (invalidate_at (Suc h) cfg) n req cyc s = Inr (l, set_array n A1 s3)"
    using r2(1) r3(1) post(1) by (simp add: cache_fill_def a(1) pre(1) cc_processEviction_def l2(1,2) tcc_processEviction_def)
  have "below s s3"
    by (rule below_caches [OF r3(2) below_trans [OF below_set_array [OF sh] quiet_below [OF q3]]])
  moreover have "below s3 (set_array n A1 s3)" by (rule below_set_array [OF cohD(1) [OF c4]])
  ultimately have bl: "below s (set_array n A1 s3)" by (rule below_trans)
  have "slot_ok ?src cyc s3" using r3(4) f by (auto simp: slot_ok_def good_record_def intro: order_trans)
  moreover have "others_same ?src s s3" using r3(5) q2 by (simp add: others_same_def quiet_def)
  moreover have "cont n (set_array n A1 s3) a = Some l" by (simp add: sa3 post(3))
  moreover have "pst k (set_array n A1 s3) a = I" if "k < n" for k
    using that ins(2) [of k a] cc(3) [of k a] p3 [of k a] pst_set_array [OF sh order_refl pre(4), of k a]
      dirs_okD(3) [OF cohD(3) [OF c] a(3), of k] by (simp split: if_splits)
  ultimately show ?thesis
    unfolding run using ins(1) bl post(2) r3(3) by (simp add: sa3 env_def slot_ok_def others_same_def)
qed

section \<open>Records\<close>

lemma good_record_weaken: "good_record w c r \<Longrightarrow> c' \<le> c \<Longrightarrow> good_record w c' r"
  by (auto simp: good_record_def)

lemma good_record_extends: "good_record w c r \<Longrightarrow> extends w w' \<Longrightarrow> good_record w' c r"
  by (auto simp: good_record_def extends_def)

lemma good_record_valid: "good_record w c r \<Longrightarrow> rc_valid r"
  by (auto simp: good_record_def rc_valid_def)

lemma good_record_after: "good_record w c r \<Longrightarrow> c' < c \<Longrightarrow> c' \<le> rc_reqCycle r"
  by (auto simp: good_record_def)

lemma slot_ok_weaken: "slot_ok src c s \<Longrightarrow> c' \<le> c \<Longrightarrow> slot_ok src c' s"
  by (auto simp: slot_ok_def intro: good_record_weaken)

text \<open>The record of an eviction is taken out of the slot, which is free for the access.\<close>

lemma take_record_ok:
  assumes "slot_ok src c s" "env s" "src < nsrc"
  obtains "take_record src s = (None, s)" "slot_free (recorders s ! src)"
  | r s' where "take_record src s = (Some r, s')" "good_record (weave s) c r" "caches s' = caches s" "env s'"
      "slot_free (recorders s' ! src)" "others_same src s s'" "recorders s' ! src \<noteq> None" "weave s' = weave s"
proof (cases "slot_free (recorders s ! src)")
  case True
  then show ?thesis using that(1) by simp
next
  case False
  with assms(1) obtain r where r: "recorders s ! src = Some r" "good_record (weave s) c r" by (auto simp: slot_ok_def)
  have "src < length (recorders s)" using assms(2,3) by (simp add: env_def)
  then show ?thesis
    using that(2) [of r "set_recorder src (Some (rc_clear r)) s"] r good_record_valid [OF r(2)] assms(2)
    by (simp add: take_record_def set_recorder_def env_def slot_free_def rc_valid_def rc_clear_def others_same_def extends_def)
qed

lemma stitch_ok:
  assumes e: "env s" "srcId req < nsrc" and f: "\<not> is_flag (flags req) PREFETCH_NOREC"
    and s: "slot_ok (srcId req) c s" "cycle req < c" and wb: "wb \<noteq> None \<Longrightarrow> recorders s ! srcId req \<noteq> None"
      "\<And>r. wb = Some r \<Longrightarrow> good_record (weave s) c r"
  shows "succeeds (stitch_records req wb s) (\<lambda>s'. caches s' = caches s \<and> env s' \<and>
    slot_ok (srcId req) (cycle req) s' \<and> others_same (srcId req) s s')"
proof (cases wb)
  case None
  then show ?thesis using e others_same_refl slot_ok_weaken [OF s(1)] s(2) by simp
next
  case (Some r)
  let ?src = "srcId req"
  have r: "good_record (weave s) c r" "recorders s ! ?src \<noteq> None" using wb Some by auto
  have len: "?src < length (recorders s)" using e by (simp add: env_def)
  note rc = good_record_after [OF r(1) s(2)]
  show ?thesis
    using take_record_ok [OF s(1) e]
  proof cases
    case 1
    let ?r = "r\<lparr>rc_endEvent := None\<rparr>"
    from r(2) 1(2) obtain t where t: "recorders s ! ?src = Some t" "\<not> rc_valid t" by (auto simp: slot_free_def)
    have v: "rc_valid ?r" using good_record_valid [OF r(1)] by (simp add: rc_valid_def)
    have "stitch_records req wb s = Inr (set_recorder ?src (Some ?r) s)"
      using 1(1) f t v by (simp add: stitch_records_def Some push_rec_def pushRecord_def Let_def)
    moreover have "good_record (weave s) (cycle req) ?r" using r(1) rc by (auto simp: good_record_def)
    ultimately show ?thesis
      using e len r(2) by (auto simp: set_recorder_def env_def slot_ok_def others_same_def extends_def)
  next
    case (2 acc s1)
    from connect_ok [OF _ r(1) 2(2), of "cycle req"] e(1) obtain ev w where
      w: "connect_records (cycle req) r acc (weave s1) = Inr (ev, w)" "ev < length (events w)" "te_state (events w ! ev) = EV_NONE"
      "extends (weave s) w" by (auto simp: succeeds_iff env_def 2(8))
    note ac = good_record_after [OF 2(2) s(2)]
    from 2(5,7) obtain t where t: "recorders s1 ! ?src = Some t" "\<not> rc_valid t" by (auto simp: slot_free_def)
    let ?r = "acc\<lparr>rc_reqCycle := cycle req, rc_startEvent := Some ev\<rparr>"
    have "stitch_records req wb s = Inr (set_recorder ?src (Some ?r) (s1\<lparr>weave := w\<rparr>))"
      using 2(1) rc ac w(1) f t by (simp add: stitch_records_def Some push_rec_def pushRecord_def rc_valid_def)
    moreover have "good_record w (cycle req) ?r" using w(2,3) by (simp add: good_record_def)
    moreover have "length (recorders s1) = nsrc" "minv (mem s1)" using 2(4) by (simp_all add: env_def)
    ultimately show ?thesis
      using 2(3,6) e w(4) r(2) len
      by (auto simp: set_recorder_def env_def slot_ok_def others_same_def extends_def)
  qed
qed

section \<open>Accesses of the shared cache\<close>

lemma others_same_quiet: "env s \<Longrightarrow> quiet s s' \<Longrightarrow> others_same src s s'"
  by (auto simp: others_same_def quiet_def env_def extends_def)

lemma slot_ok_free: "slot_free (recorders s ! src) \<Longrightarrow> slot_ok src c s"
  by (simp add: slot_ok_def)

text \<open>A first-level cache gives the line \<open>a\<close> back, which the shared cache holds.\<close>

lemma l2_access_put:
  assumes c: "coh s" and lv: "live n s" and e: "env s" "src < nsrc" "slot_free (recorders s ! src)"
    and k: "k < n" "cont k s a = Some lk" "bstate k lk s = st" "st \<noteq> I"
  shows "succeeds (cache_access (cfg n) up dn n \<lparr>lineAddr = a, req_type = put_of st, childId = k, cycle = cyc,
      initialState = st, srcId = src, flags = 0\<rparr> (Line k lk) s)
    (\<lambda>(resp, s'). cyc \<le> resp \<and> coh s' \<and> calm s s' \<and> fkeep {(k, filter_index (cfg k) a)} s s' \<and>
      (\<forall>j<n. \<forall>b. pst j s' b = (if j = k \<and> b = a then I else pst j s b)))"
proof -
  let ?t = "put_of st"
  let ?req = "\<lparr>lineAddr = a, req_type = ?t, childId = k, cycle = cyc, initialState = st, srcId = src, flags = 0\<rparr>"
  note sh = cohD(1) [OF c] and kn = less_imp_le [OF k(1)]
  have pk: "pst k s a = st" using k(2,3) by (simp add: pst_def)
  have a0: "a \<noteq> 0" using contD [OF sh kn k(2)] by simp
  from dirs_okD(3) [OF cohD(3) [OF c] _ k(1), of a] pk k(4) obtain l where l: "cont n s a = Some l" by fastforce
  from lookup_any [OF order_refl sh lv a0, of ?req "IsGet ?t"] obtain A where
    A: "ao_lookup (arrayOps (cfg n)) a ?req (IsGet ?t) (c_array (caches s ! n)) = Inr (Some l, A)" "contents n A = cont n s"
      "quiet s (set_array n A s)"
    using l by (auto simp: succeeds_iff)
  let ?s1 = "set_array n A s"
  note sa = set_array_simps [OF sh order_refl, where A = A]
  have c1: "coh ?s1" by (rule coh_set_array [OF c order_refl A(2)])
  have l1': "cont n ?s1 a = Some l" using l by (simp add: sa A(2))
  have k1: "cont k ?s1 a = Some lk" "bstate k lk ?s1 = st" using k by (simp_all add: sa)
  have p1: "pst j ?s1 b = pst j s b" for j b by (rule pst_set_array [OF sh order_refl A(2)])
  have d: "dir_ok n (entry n l ?s1) (bstate n l ?s1) (\<lambda>j. pst j ?s1 a)" by (rule dirs_okD(2) [OF cohD(3) [OF c1] l1'])
  have q: "bstate n l ?s1 \<noteq> I" "st = M \<Longrightarrow> bstate n l ?s1 \<in> {E, M}"
    using dir_okD(3,4) [OF d k(1)] p1 pk k(4) by auto
  define s2 where "s2 = (if st = M \<and> bstate n l ?s1 = E then set_bstate n l M ?s1 else ?s1)"
  have bcc: "bcc_processAccess (cfg n) up n a l ?t (cyc + accLat (cfg n)) src 0 ?s1 = Inr (cyc + accLat (cfg n), s2)"
    using q by (auto simp: bcc_processAccess_def put_of_def Let_def s2_def)
  have l2n: "l < numLines (cfg n)" using contD [OF sh order_refl l] by simp
  have s2: "coh s2" "quiet ?s1 s2"
    using c1 quiet_refl [OF cohD(1) [OF c1]] quiet_set_l2 [OF cohD(1) [OF c1] l2n] coh_set_l2 [OF c1 l1', of M]
    by (auto simp: s2_def)
  have arr2: "c_array (caches s2 ! j) = c_array (caches ?s1 ! j)" for j by (simp add: s2_def)
  have k2: "cont k s2 a = Some lk" "cont n s2 a = Some l" using k1 l1' by (simp_all add: arr2)
  have b2: "bstate k lk s2 = st"
    using k1(2) bstate_set [OF cohD(1) [OF c1] order_refl l2n, of k lk M] k(1) by (auto simp: s2_def)
  have p2: "pst j s2 b = pst j s b" if "j < n" for j b
    using that p1 pst_set_other [OF cohD(1) [OF c1] order_refl l2n, of j M b] by (auto simp: s2_def)
  have rec2: "recorders s2 = recorders s" by (simp add: s2_def)
  let ?s3 = "set_bstate k lk I (upd_entry n l (drop_sharer k) s2)"
  have b2': "bstate k lk s2 \<noteq> I" and t2: "?t = put_of (bstate k lk s2)" using b2 k(4) by simp_all
  note put = tcc_put [OF s2(1) k2(2) k(1) k2(1) b2' t2]
  have mesi: "mesi_processAccess (cfg n) up dn n ?req (Line k lk) (Some l) (cyc + accLat (cfg n)) ?s1 = Inr (cyc + accLat (cfg n), ?s3)"
    using bcc put(1) q(1) by (simp add: mesi_processAccess_def Let_def)
  have "cache_access (cfg n) up dn n ?req (Line k lk) s = Inr (cyc + accLat (cfg n), ?s3)"
    using A(1) k(3) mesi e(3) l2(1)
    by (simp add: cache_access_def cc_startAccess_def CheckForMESIRace_def cc_processAccess_def Let_def)
  then show ?thesis
    using put(2,5) p2 calm_trans [OF quiet_calm [OF quiet_trans [OF A(3) s2(2)]] put(3)]
      fkeep_trans [OF quiet_keep [OF quiet_trans [OF A(3) s2(2)]] put(4)] by simp
qed

text \<open>A first-level cache asks for the line \<open>a\<close>, which the shared cache holds by now.\<close>

definition asks :: "AccessType \<Rightarrow> MESIState \<Rightarrow> bool" where
  "asks t st \<longleftrightarrow> t = GETS \<and> st = I \<or> t = GETX \<and> st \<in> {I, S}"

definition gets_state :: "AccessType \<Rightarrow> MESIState \<Rightarrow> bool" where
  "gets_state t st \<longleftrightarrow> (if t = GETS then st \<in> {S, E} else st = M)"

lemma tcc_get:
  assumes "coh s" "cont n s a = Some l" "k < n" "cont k s a = Some lk" "asks t (bstate k lk s)"
    "bstate n l s \<noteq> I" "t = GETX \<Longrightarrow> bstate n l s = M" "\<forall>j<n. live j s"
  shows "succeeds (tcc_processAccess (cfg n) (invalidate_at (Suc h) cfg) n a l t k (bstate n l s \<in> {E, M}) (Line k lk) False cyc src fl s)
    (\<lambda>(resp, wb, s'). cyc \<le> resp \<and> coh s' \<and> quiet s s' \<and> gets_state t (pst k s' a) \<and> (wb \<longrightarrow> bstate n l s' \<in> {E, M}))"
proof (cases "t = GETS")
  case True
  then show ?thesis using tcc_gets [OF assms(1-4) _ assms(6,8)] assms(5) by (simp add: asks_def gets_state_def)
next
  case False
  then have t: "t = GETX" using assms(5) by (simp add: asks_def)
  then show ?thesis using tcc_getx [OF assms(1-4) _ assms(7,8)] assms(5,7) by (simp add: asks_def gets_state_def)
qed

lemma writeback_ok:
  assumes "coh s" "cont n s a = Some l" "bstate n l s \<in> {E, M}" "k < n"
  shows "succeeds (bcc_processWritebackOnAccess n l s) (\<lambda>s'. coh s' \<and> quiet s s' \<and> pst k s' a = pst k s a)"
proof -
  note sh = cohD(1) [OF assms(1)]
  have l: "l < numLines (cfg n)" using contD [OF sh order_refl assms(2)] by simp
  show ?thesis
    using assms quiet_refl [OF sh] quiet_set_l2 [OF sh l] coh_set_l2 [OF assms(1,2), of M]
      pst_set_other [OF sh order_refl l, of k M a]
    by (auto simp: bcc_processWritebackOnAccess_def)
qed

lemma l2_process_get:
  assumes c: "coh s" and lv: "\<forall>j<n. live j s" and e: "env s" "srcId req < nsrc" "slot_free (recorders s ! srcId req)"
    and l: "lineAddr req = a" "cont n s a = Some l" and k: "childId req = k" "k < n" "cont k s a = Some lk"
    and t: "req_type req = t" "asks t (bstate k lk s)" and f: "\<not> is_flag (flags req) PREFETCH" and up: "up MemNode = mem_access mo"
  shows "succeeds (mesi_processAccess (cfg n) up (invalidate_at (Suc h) cfg) n req (Line k lk) (Some l) cyc s)
    (\<lambda>(resp, s'). cyc \<le> resp \<and> coh s' \<and> below s s' \<and> (ainv n (c_array (caches s ! n)) \<longrightarrow> ainv n (c_array (caches s' ! n))) \<and>
      env s' \<and> slot_ok (srcId req) cyc s' \<and> others_same (srcId req) s s' \<and> gets_state t (pst k s' a))"
proof -
  let ?src = "srcId req" and ?fl = "clear_flag PREFETCH (flags req)"
  note sh = cohD(1) [OF c]
  have ln: "l < numLines (cfg n)" using contD [OF sh order_refl l(2)] by simp
  have t': "t \<in> {GETS, GETX}" using t(2) by (auto simp: asks_def)
  from l2_bottom_get [where up = up, OF sh ln e t' up, of a cyc ?fl] obtain resp s1 v where
    r1: "bcc_processAccess (cfg n) up n a l t cyc ?src ?fl s = Inr (resp, s1)" "cyc \<le> resp"
      "caches s1 = caches (set_bstate n l v s)" "bstate n l s \<in> {E, M} \<Longrightarrow> v \<in> {E, M}" "v \<noteq> I" "t = GETX \<Longrightarrow> v = M"
      "env s1" "slot_ok ?src cyc s1" "others_same ?src s s1" by (auto simp: succeeds_iff)
  note cc = caches_cong [OF r1(3)]
  have c1: "coh s1" using coh_set_l2 [OF c l(2)] r1(4,5) by (simp add: cc)
  have arr1: "c_array (caches s1 ! j) = c_array (caches s ! j)" for j by (simp add: r1(3))
  have q1: "cont n s1 a = Some l" "cont k s1 a = Some lk" "\<forall>j<n. live j s1" using l k lv by (simp_all add: arr1 live_def)
  have b1: "bstate n l s1 = v" "bstate k lk s1 = bstate k lk s"
    using bstate_set [OF sh order_refl ln] k(2) by (simp_all add: cc)
  have bl: "below s s1" by (rule below_caches [OF r1(3) quiet_below [OF quiet_set_l2 [OF sh ln]]])
  from tcc_get [OF c1 q1(1) k(2) q1(2) _ _ _ q1(3), of t h resp ?src ?fl] t(2) r1(5,6) obtain resp2 wb s2 where
    r2: "tcc_processAccess (cfg n) (invalidate_at (Suc h) cfg) n a l t k (bstate n l s1 \<in> {E, M}) (Line k lk) False resp ?src ?fl s1 =
        Inr (resp2, wb, s2)" "resp \<le> resp2" "coh s2" "quiet s1 s2" "gets_state t (pst k s2 a)" "wb \<Longrightarrow> bstate n l s2 \<in> {E, M}"
    by (auto simp: succeeds_iff b1)
  have cn2: "cont n s2 a = Some l" using quiet_cont [OF r2(4) order_refl] q1(1) by simp
  have "succeeds (if wb then bindR (bcc_processWritebackOnAccess n l s2) (\<lambda>s3. Inr (resp2, s3)) else Inr (resp2, s2))
      (\<lambda>(r, s3). r = resp2 \<and> coh s3 \<and> quiet s1 s3 \<and> pst k s3 a = pst k s2 a)"
    using writeback_ok [OF r2(3) cn2 r2(6) k(2)] r2(3,4) quiet_trans [OF r2(4)] by (auto elim!: succeeds_mono)
  then obtain s3 where
    r3: "(if wb then bindR (bcc_processWritebackOnAccess n l s2) (\<lambda>s3. Inr (resp2, s3)) else Inr (resp2, s2)) = Inr (resp2, s3)"
      "coh s3" "quiet s1 s3" "pst k s3 a = pst k s2 a" by (auto simp: succeeds_iff)
  have "\<not> IsPut t" using t' by auto
  then have run: "mesi_processAccess (cfg n) up (invalidate_at (Suc h) cfg) n req (Line k lk) (Some l) cyc s = Inr (resp2, s3)"
    using r1(1) r2(1) r3(1) f l(1) t(1) k(1) by (simp add: mesi_processAccess_def Let_def)
  have "slot_ok ?src cyc s3" using r1(8) r3(3) by (simp add: slot_ok_def quiet_def)
  moreover have "others_same ?src s s3" using others_same_trans [OF r1(9) others_same_quiet [OF r1(7) r3(3)]] .
  moreover have "ainv n (c_array (caches s ! n)) \<longrightarrow> ainv n (c_array (caches s3 ! n))" using r3(3) by (simp add: quiet_def arr1)
  ultimately show ?thesis
    unfolding run using r1(2) r2(2,5) r3 below_trans [OF bl quiet_below [OF r3(3)]] env_quiet [OF r3(3) r1(7)] by simp
qed

lemma l2_access_get:
  assumes c: "coh s" and ai: "ainv n (c_array (caches s ! n))" and lv: "\<forall>j<n. live j s"
    and e: "env s" "srcId req < nsrc" "slot_free (recorders s ! srcId req)"
    and a: "lineAddr req = a" and k: "childId req = k" "k < n" "cont k s a = Some lk"
    and t: "req_type req = t" "asks t (bstate k lk s)" "initialState req = bstate k lk s"
    and f: "\<not> is_flag (flags req) PREFETCH" "\<not> is_flag (flags req) PREFETCH_NOREC" and up: "up MemNode = mem_access mo"
    and lat: "0 < accLat (cfg n)"
  shows "succeeds (cache_access (cfg n) up (invalidate_at (Suc h) cfg) n req (Line k lk) s)
    (\<lambda>(resp, s'). cycle req \<le> resp \<and> coh s' \<and> below s s' \<and> ainv n (c_array (caches s' ! n)) \<and>
      env s' \<and> slot_ok (srcId req) (cycle req) s' \<and> others_same (srcId req) s s' \<and> gets_state t (pst k s' a))"
proof -
  let ?src = "srcId req" and ?cyc = "cycle req + accLat (cfg n)"
  note sh = cohD(1) [OF c] and kn = less_imp_le [OF k(2)]
  have a0: "a \<noteq> 0" using contD [OF sh kn k(3)] by simp
  have get: "IsGet t" using t(2) by (auto simp: asks_def)
  have liv: "live n s" using ai by (simp add: live_def)
  from lookup_any [OF order_refl sh liv a0, of req True] obtain A where
    A: "ao_lookup (arrayOps (cfg n)) a req True (c_array (caches s ! n)) = Inr (cont n s a, A)" "contents n A = cont n s"
      "quiet s (set_array n A s)" by (auto simp: succeeds_iff)
  let ?s1 = "set_array n A s"
  note sa = set_array_simps [OF sh order_refl, where A = A]
  have c1: "coh ?s1" by (rule coh_set_array [OF c order_refl A(2)])
  have e1: "env ?s1" "slot_free (recorders ?s1 ! ?src)" using e by (simp_all add: env_def)
  have ai1: "ainv n (c_array (caches ?s1 ! n))" using A(3) ai by (simp add: quiet_def)
  have lv1: "\<forall>j<n. live j ?s1" using lv by (simp add: live_def sa)
  have k1: "cont k ?s1 a = Some lk" "bstate k lk ?s1 = bstate k lk s" using k by (simp_all add: sa)
  let ?fill = "case cont n s a of Some l \<Rightarrow> Inr (Some l, ?s1)
    | None \<Rightarrow> bindR (cache_fill (cfg n) up (invalidate_at (Suc h) cfg) n req ?cyc ?s1) (\<lambda>(l, s2). Inr (Some l, s2))"
  have "succeeds ?fill (\<lambda>(r, s2). \<exists>l. r = Some l \<and> coh s2 \<and> cont n s2 a = Some l \<and> ainv n (c_array (caches s2 ! n)) \<and>
      below ?s1 s2 \<and> env s2 \<and> slot_ok ?src ?cyc s2 \<and> others_same ?src ?s1 s2 \<and> bstate k lk s2 = bstate k lk s)"
  proof (cases "cont n s a")
    case (Some l)
    then show ?thesis
      using c1 ai1 e1 k1 others_same_refl [OF e1(1)] slot_ok_free [OF e1(2)] by (simp add: sa A(2) below_def)
  next
    case None
    have cn1: "cont n ?s1 a = None" using None by (simp add: sa A(2))
    have z: "bstate k lk s = I" using dirs_okD(3) [OF cohD(3) [OF c] None k(2)] k(3) by (simp add: pst_def)
    have "succeeds (cache_fill (cfg n) up (invalidate_at (Suc h) cfg) n req ?cyc ?s1) (\<lambda>(l, s2). coh s2 \<and> cont n s2 a = Some l \<and>
      ainv n (c_array (caches s2 ! n)) \<and> below ?s1 s2 \<and> env s2 \<and> slot_ok ?src ?cyc s2 \<and> others_same ?src ?s1 s2 \<and>
      (\<forall>k<n. pst k s2 a = I))"
      by (rule l2_fill [where up = up, OF c1 ai1 lv1 e1(1) e(2) e1(2) a a0 cn1 up])
    then show ?thesis using None z k(2) k1(1) by (auto simp: below_def pst_def elim!: succeeds_mono)
  qed
  then obtain l s2 where r2: "?fill = Inr (Some l, s2)" "coh s2" "cont n s2 a = Some l" "ainv n (c_array (caches s2 ! n))"
    "below ?s1 s2" "env s2" "slot_ok ?src ?cyc s2" "others_same ?src ?s1 s2" "bstate k lk s2 = bstate k lk s"
    by (auto simp: succeeds_iff)
  obtain wb s3 where r3: "take_record ?src s2 = (wb, s3)" "caches s3 = caches s2" "env s3" "slot_free (recorders s3 ! ?src)"
    "others_same ?src s2 s3" "wb \<noteq> None \<Longrightarrow> recorders s3 ! ?src \<noteq> None" "\<And>r. wb = Some r \<Longrightarrow> good_record (weave s3) ?cyc r"
    by (rule take_record_ok [OF r2(7,6) e(2)]) (use r2(6) others_same_refl in auto)
  note cc = caches_cong [OF r3(2)]
  have c3: "coh s3" "cont n s3 a = Some l" "cont k s3 a = Some lk" "asks t (bstate k lk s3)"
    using r2(2,3,5,9) k(2) k1(1) t(2) by (simp_all add: cc r3(2) below_def)
  have bl2: "below s s2" by (rule below_trans [OF below_set_array [OF sh] r2(5)])
  have lv3: "\<forall>j<n. live j s3" using below_live [OF bl2] lv by (simp add: cc)
  from l2_process_get [where up = up, OF c3(1) lv3 r3(3) e(2) r3(4) a c3(2) k(1,2) c3(3) t(1) c3(4) f(1) up, of h ?cyc]
  obtain resp s4 where r4: "mesi_processAccess (cfg n) up (invalidate_at (Suc h) cfg) n req (Line k lk) (Some l) ?cyc s3 = Inr (resp, s4)"
    "?cyc \<le> resp" "coh s4" "below s3 s4" "ainv n (c_array (caches s3 ! n)) \<longrightarrow> ainv n (c_array (caches s4 ! n))" "env s4"
    "slot_ok ?src ?cyc s4" "others_same ?src s3 s4" "gets_state t (pst k s4 a)"
    by (auto simp: succeeds_iff)
  have wb4: "wb \<noteq> None \<Longrightarrow> recorders s4 ! ?src \<noteq> None" "\<And>r. wb = Some r \<Longrightarrow> good_record (weave s4) ?cyc r"
    using r3(6,7) r4(8) good_record_extends by (auto simp: others_same_def)
  have lt: "cycle req < ?cyc" using lat by simp
  from stitch_ok [OF r4(6) e(2) f(2) r4(7) lt wb4] obtain s5 where
    r5: "stitch_records req wb s4 = Inr s5" "caches s5 = caches s4" "env s5" "slot_ok ?src (cycle req) s5" "others_same ?src s4 s5"
    by (auto simp: succeeds_iff)
  have run: "cache_access (cfg n) up (invalidate_at (Suc h) cfg) n req (Line k lk) s = Inr (resp, s5)"
  proof -
    have st: "cc_startAccess (cfg n) req (bstate k lk s) = Inr (False, t)"
      using t(1,3) l2(1) by (simp add: cc_startAccess_def CheckForMESIRace_def)
    have al: "cc_shouldAllocate (cfg n) req = Inr True" using get t(1) by (simp add: cc_shouldAllocate_def)
    have rq: "req\<lparr>req_type := t\<rparr> = req" using t(1) by simp
    have fl: "(case cont n s a of None \<Rightarrow> bindR (cc_shouldAllocate (cfg n) req) (\<lambda>alloc.
        if alloc then bindR (cache_fill (cfg n) up (invalidate_at (Suc h) cfg) n req ?cyc ?s1) (\<lambda>(l, s2). Inr (Some l, s2)) else Inr (None, ?s1))
        | Some l \<Rightarrow> Inr (Some l, ?s1)) = Inr (Some l, s2)"
      using r2(1) by (simp add: al split: option.splits)
    show ?thesis
      using st A(1) get a fl r3(1) r4(1,2) r5(1) l2(1) rq
      by (simp add: cache_access_def cc_processAccess_def Let_def cong: option.case_cong if_cong)
  qed
  note c5 = caches_cong [OF r5(2)]
  have "others_same ?src s ?s1" using others_same_quiet [OF e(1) A(3)] .
  then have "others_same ?src s s5"
    using others_same_trans r2(8) r3(5) r4(8) r5(5) by blast
  moreover have "below s s5"
    using below_trans [OF below_caches [OF r3(2) bl2] r4(4)] below_caches [OF r5(2)] by blast
  moreover have "ainv n (c_array (caches s5 ! n))" using r4(5) r2(4) by (simp add: r5(2) r3(2))
  moreover have "cycle req \<le> resp" using r4(2) by simp
  ultimately show ?thesis unfolding run using r4(3,9) r5(3,4) by (simp add: c5)
qed

section \<open>Accesses of the first level\<close>

definition arrays_ok :: "('a, 'm) MemSys \<Rightarrow> bool" where
  "arrays_ok s \<longleftrightarrow> (\<forall>c\<le>n. ainv c (c_array (caches s ! c)))"

lemma parent_l1: "k < n \<Longrightarrow> parent_of (cfg k) a = CacheNode n"
  using l1 by (simp add: parent_of_def getParentId_def)

text \<open>A line that may hold an address gives it back, whatever its state.\<close>

lemma l1_evict:
  assumes c: "coh s" and k: "k < n" "l < numLines (cfg k)" and lv: "live n s"
    and b: "\<And>x. cont k s x = Some l \<longleftrightarrow> x = b \<and> b \<noteq> 0"
    and e: "env s" "src < nsrc" "slot_free (recorders s ! src)" and Y: "b \<noteq> 0 \<Longrightarrow> (k, filter_index (cfg k) b) \<in> Y"
    and up: "up (CacheNode n) = cache_access (cfg n) upn dn n"
  shows "succeeds (bcc_processEviction (cfg k) up k b l False cyc src s) (\<lambda>(r, s'). coh s' \<and> calm s s' \<and> fkeep Y s s' \<and> bstate k l s' = I \<and>
    (\<forall>a. a \<noteq> b \<longrightarrow> pst k s' a = pst k s a))"
proof (cases "bstate k l s = I")
  case True
  then show ?thesis using c calm_refl [OF cohD(1) [OF c]] by (simp add: bcc_processEviction_def)
next
  case False
  have kn: "k \<le> n" using k(1) by simp
  have cb: "cont k s b = Some l"
  proof (rule ccontr)
    assume "cont k s b \<noteq> Some l"
    then have "\<forall>x. cont k s x \<noteq> Some l" using b by auto
    then show False using cohD(2) [OF c kn] k(2) False by (auto simp: free_ok_def)
  qed
  let ?st = "bstate k l s"
  from l2_access_put [OF c lv e k(1) cb refl False, of upn dn cyc] obtain r s' where
    r: "cache_access (cfg n) upn dn n \<lparr>lineAddr = b, req_type = put_of ?st, childId = k, cycle = cyc, initialState = ?st,
          srcId = src, flags = 0\<rparr> (Line k l) s = Inr (r, s')" "coh s'" "calm s s'" "fkeep {(k, filter_index (cfg k) b)} s s'"
      "\<And>j x. j < n \<Longrightarrow> pst j s' x = (if j = k \<and> x = b then I else pst j s x)" by (auto simp: succeeds_iff)
  have "cont k s' b = Some l" using calm_cont [OF r(3) kn] cb by simp
  then have b0: "bstate k l s' = I" using r(5) [OF k(1), of b] by (simp add: pst_def)
  have "bcc_processEviction (cfg k) up k b l False cyc src s = Inr (r, s')"
    using False l1 [OF k(1)] r(1) b0 by (cases ?st) (simp_all add: bcc_processEviction_def parent_l1 [OF k(1)] up put_of_def)
  moreover have "{(k, filter_index (cfg k) b)} \<subseteq> Y" using Y contD [OF cohD(1) [OF c] kn cb] by simp
  ultimately show ?thesis using r b0 k(1) fkeep_mono [OF r(4)] by simp
qed

lemma l1_fill:
  assumes c: "coh s" and ai: "arrays_ok s" and k: "k < n"
    and e: "env s" "srcId req < nsrc" "slot_free (recorders s ! srcId req)"
    and a: "lineAddr req = a" "a \<noteq> 0" "cont k s a = None" and up: "up (CacheNode n) = cache_access (cfg n) upn dn n"
  shows "succeeds (cache_fill (cfg k) up dn' k req cyc s) (\<lambda>(l, s'). coh s' \<and> cont k s' a = Some l \<and> arrays_ok s' \<and>
    bstate k l s' = I \<and> mem s' = mem s \<and> recorders s' = recorders s \<and> weave s' = weave s \<and>
    fkeep {(k, filter_index (cfg k) a)} s s')"
proof -
  have kn: "k \<le> n" using k by simp
  note arr = arrays [OF kn] and sh = cohD(1) [OF c]
  have aik: "ainv k (c_array (caches s ! k))" using ai kn by (simp add: arrays_ok_def)
  from cache_array.preinsert_ok [OF arr aik a(2), of "view_of (cfg k) k s" req] a(3) obtain l b A where
    pre: "ao_preinsert (arrayOps (cfg k)) (view_of (cfg k) k s) a req (c_array (caches s ! k)) = Some (Inr (l, b, A))"
    "l < numLines (cfg k)" "apend k a l A" "contents k A = cont k s" "\<forall>x. cont k s x = Some l \<longleftrightarrow> x = b \<and> b \<noteq> 0" by blast
  let ?s1 = "set_array k A s" and ?src = "srcId req"
  have c1: "coh ?s1" by (rule coh_set_array [OF c kn pre(4)])
  note sa = set_array_simps [OF sh kn, where A = A]
  have ct1: "cont k ?s1 = cont k s" by (simp add: sa pre(4))
  have lv1: "live n ?s1" using ai k by (simp add: live_def sa arrays_ok_def)
  have b1: "cont k ?s1 x = Some l \<longleftrightarrow> x = b \<and> b \<noteq> 0" for x using pre(5) by (simp add: ct1)
  have e1: "env ?s1" "slot_free (recorders ?s1 ! ?src)" using e by (simp_all add: env_def)
  have Y: "b \<noteq> 0 \<Longrightarrow> (k, filter_index (cfg k) b) \<in> {(k, filter_index (cfg k) a)}"
    using victim_set [OF k aik a(2,3) pre(1)] by simp
  from l1_evict [where up = up, OF c1 k pre(2) lv1 b1 e1(1) e(2) e1(2) Y up, of cyc] obtain r s2 where
    r2: "bcc_processEviction (cfg k) up k b l False cyc ?src ?s1 = Inr (r, s2)" "coh s2" "calm ?s1 s2" "bstate k l s2 = I"
    "fkeep {(k, filter_index (cfg k) a)} ?s1 s2"
    by (auto simp: succeeds_iff)
  have ct2: "cont k s2 = cont k s" using calm_cont [OF r2(3) kn] ct1 by simp
  have pe2: "apend k a l (c_array (caches s2 ! k))" using r2(3) pre(3) kn by (simp add: calm_def sa)
  from cache_array.postinsert_ok [OF arr pe2, of req] obtain A1 where
    post: "ao_postinsert (arrayOps (cfg k)) a req l (c_array (caches s2 ! k)) = Inr A1" "ainv k A1"
    "\<And>x. contents k A1 x = (if x = a then Some l else if cont k s2 x = Some l then None else cont k s2 x)"
    by (auto simp: succeeds_iff)
  have cn2: "cont k s2 a = None" using a(3) by (simp add: ct2)
  note ins = install [OF r2(2) kn pre(2) r2(4) cn2 a(2) post(3)]
  note sa2 = set_array_simps [OF cohD(1) [OF r2(2)] kn, where A = A1]
  have run: "cache_fill (cfg k) up dn' k req cyc s = Inr (l, set_array k A1 s2)"
    using r2(1) post(1) l1 [OF k] by (simp add: cache_fill_def a(1) pre(1) cc_processEviction_def)
  have "ainv j (c_array (caches (set_array k A1 s2) ! j))" if "j \<le> n" for j
    using post(2) r2(3) ai that by (simp add: sa2 calm_def arrays_ok_def sa)
  moreover have "cont k (set_array k A1 s2) a = Some l" by (simp add: sa2 post(3))
  moreover have "fkeep {(k, filter_index (cfg k) a)} s (set_array k A1 s2)"
  proof -
    have "fkeep Y s ?s1" for Y using pst_set_array [OF sh kn pre(4)] by (intro filters_cong(2)) simp_all
    moreover have "fkeep Y s2 (set_array k A1 s2)" for Y using ins(2) by (intro filters_cong(2)) simp_all
    ultimately show ?thesis using r2(5) fkeep_trans by blast
  qed
  ultimately show ?thesis
    unfolding run using ins(1) r2(3,4) by (simp add: arrays_ok_def sa2 calm_def)
qed

text \<open>A first-level cache writes to a line that it holds alone.\<close>

lemma coh_set_l1:
  assumes c: "coh s" and k: "k < n" "cont k s a = Some lk" "bstate k lk s \<in> {E, M}"
  shows "coh (set_bstate k lk M s)" "quiet s (set_bstate k lk M s)" "pst k (set_bstate k lk M s) a = M"
proof -
  note sh = cohD(1) [OF c] and kn = less_imp_le [OF k(1)]
  have pk: "pst k s a = bstate k lk s" by (rule pstI) fact
  have lk: "lk < numLines (cfg k)" using contD [OF sh kn k(2)] by simp
  from dirs_okD(3) [OF cohD(3) [OF c] _ k(1), of a] pk k(3) obtain l where l: "cont n s a = Some l" by fastforce
  note d = dirs_okD(2) [OF cohD(3) [OF c] l]
  have ps: "pst j (set_bstate k lk M s) b = (if j = k \<and> b = a then M else pst j s b)" if "j \<le> n" for j b
    using pst_set [OF sh kn k(2) that, of M b] by simp
  show "pst k (set_bstate k lk M s) a = M" using ps [of k a] kn by simp
  show q: "quiet s (set_bstate k lk M s)" by (rule quiet_set_l1 [OF sh k(1,2)]) simp
  have bs: "bstate n i (set_bstate k lk M s) = bstate n i s" for i using bstate_set [OF sh kn lk] k(1) by simp
  show "coh (set_bstate k lk M s)"
  proof (rule coh_step [OF c quiet_calm [OF q] l])
    have x: "pst k s a \<noteq> I" "pst k s a \<in> {E, M}" using pk k(3) by auto
    have n1: "{j. j < n \<and> ((\<lambda>j. pst j s a)(k := M)) j \<noteq> I} = {j. j < n \<and> pst j s a \<noteq> I}" using x by auto
    have "dir_ok n (entry n l s) (bstate n l s) ((\<lambda>j. pst j s a)(k := M))"
      unfolding dir_ok_def n1 using d x k(1) by (auto simp: dir_ok_def)
    then show "dir_ok n (entry n l (set_bstate k lk M s)) (bstate n l (set_bstate k lk M s)) (\<lambda>j. pst j (set_bstate k lk M s) a)"
      by (subst dir_ok_cong [where p' = "(\<lambda>j. pst j s a)(k := M)"]) (simp_all add: ps bs)
  qed (simp_all add: ps bs)
qed

definition permits :: "AccessType \<Rightarrow> MESIState \<Rightarrow> bool" where
  "permits t st \<longleftrightarrow> (if t = GETS then st \<noteq> I else st = M)"

text \<open>The state between two accesses.\<close>

definition system_ok :: "('a, 'm) MemSys \<Rightarrow> bool" where
  "system_ok s \<longleftrightarrow> coh s \<and> arrays_ok s \<and> env s"

definition access_effect :: "nat \<Rightarrow> addr \<Rightarrow> AccessType \<Rightarrow> nat \<Rightarrow> nat \<Rightarrow> ('a, 'm) MemSys \<Rightarrow> nat \<times> ('a, 'm) MemSys \<Rightarrow> bool" where
  "access_effect k a t cyc src s res \<longleftrightarrow> (case res of (resp, s') \<Rightarrow>
     cyc \<le> resp \<and> system_ok s' \<and> slot_ok src cyc s' \<and> others_same src s s' \<and> permits t (pst k s' a) \<and>
     fkeep {(k, filter_index (cfg k) a)} s s')"

lemma system_ok_quiet: "system_ok s \<Longrightarrow> quiet s s' \<Longrightarrow> coh s' \<Longrightarrow> system_ok s'"
  by (auto simp: system_ok_def arrays_ok_def quiet_def env_def)

lemma l1_process:
  assumes s: "system_ok s" and k: "k < n" and e: "src < nsrc" "slot_free (recorders s ! src)"
    and l: "cont k s a = Some l" and t: "t \<in> {GETS, GETX}" and f: "\<not> is_flag fl PREFETCH" "\<not> is_flag fl PREFETCH_NOREC"
    and up: "up (CacheNode n) = cache_access (cfg n) upn (invalidate_at (Suc h) cfg) n" "upn MemNode = mem_access mo"
    and lat: "0 < accLat (cfg n)"
  shows "succeeds (bcc_processAccess (cfg k) up k a l t cyc src fl s) (access_effect k a t cyc src s)"
proof -
  have c: "coh s" and ai: "arrays_ok s" and en: "env s" using s by (simp_all add: system_ok_def)
  note sh = cohD(1) [OF c]
  have pk: "pst k s a = bstate k l s" by (rule pstI) fact
  have hit: "slot_ok src cyc s" "others_same src s s" using others_same_refl [OF en] slot_ok_free [OF e(2)] by simp_all
  show ?thesis
  proof (cases "asks t (bstate k l s)")
    case False
    show ?thesis
    proof (cases "t = GETS")
      case True
      then have "bstate k l s \<noteq> I" using False by (simp add: asks_def)
      then show ?thesis using True s hit pk by (simp add: bcc_processAccess_def Let_def access_effect_def permits_def)
    next
      case F: False
      then have t': "t = GETX" using t by simp
      then have em: "bstate k l s \<in> {E, M}" using False by (cases "bstate k l s") (auto simp: asks_def)
      note g = coh_set_l1 [OF c k l em]
      let ?s = "if bstate k l s = E then set_bstate k l M s else s"
      have s': "system_ok ?s" "quiet s ?s" "pst k ?s a = M"
        using s system_ok_quiet [OF s g(2,1)] g(2,3) quiet_refl [OF sh] em pk by auto
      have "cont k ?s a = Some l" using l by simp
      then have "bstate k l ?s = M" using s'(3) pstI by metis
      then have "bcc_processAccess (cfg k) up k a l t cyc src fl s = Inr (cyc, ?s)"
        using em t' by (auto simp: bcc_processAccess_def Let_def)
      moreover have "slot_ok src cyc ?s" using e(2) by (simp add: slot_ok_def)
      ultimately show ?thesis
        using s' t' others_same_quiet [OF en s'(2)] quiet_keep [OF s'(2)] by (simp add: access_effect_def permits_def)
    qed
  next
    case True
    have lv: "\<forall>j<n. live j s" and ain: "ainv n (c_array (caches s ! n))" using ai by (auto simp: live_def arrays_ok_def)
    let ?req = "\<lparr>lineAddr = a, req_type = t, childId = k, cycle = cyc, initialState = bstate k l s, srcId = src, flags = fl\<rparr>"
    from l2_access_get [OF c ain lv en, of ?req a k l t upn h] e k l f True up(2) lat obtain resp s' where
      r: "cache_access (cfg n) upn (invalidate_at (Suc h) cfg) n ?req (Line k l) s = Inr (resp, s')" "cyc \<le> resp" "coh s'"
        "below s s'" "ainv n (c_array (caches s' ! n))" "env s'" "slot_ok src cyc s'" "others_same src s s'"
        "gets_state t (pst k s' a)" by (auto simp: succeeds_iff)
    have "cont k s' a = Some l" using r(4) k l by (simp add: below_def)
    then have b: "bstate k l s' = pst k s' a" by (simp add: pst_def)
    have miss: "\<exists>d. bcc_miss (cfg k) up k a l t cyc src fl s = Inr (cyc + d, s')"
      using r(1) l1 [OF k] by (simp add: bcc_miss_def parent_l1 [OF k] up(1) Let_def)
    then obtain d where d: "bcc_miss (cfg k) up k a l t cyc src fl s = Inr (cyc + d, s')" by blast
    have run: "bcc_processAccess (cfg k) up k a l t cyc src fl s = Inr (cyc + d, s')"
      using True d r(9) f by (auto simp: bcc_processAccess_def Let_def asks_def gets_state_def b)
    have "arrays_ok s'" unfolding arrays_ok_def
    proof (intro allI impI)
      fix j assume "j \<le> n"
      then show "ainv j (c_array (caches s' ! j))" using r(4,5) ai by (cases "j = n") (auto simp: below_def arrays_ok_def)
    qed
    moreover have "permits t (pst k s' a)" using r(9) by (auto simp: permits_def gets_state_def split: if_splits)
    ultimately show ?thesis unfolding run using r below_keep [OF r(4)] by (simp add: access_effect_def system_ok_def)
  qed
qed

lemma l1_access:
  assumes s: "system_ok s" and k: "k < n" and e: "srcId req < nsrc" "slot_free (recorders s ! srcId req)"
    and a: "lineAddr req = a" "a \<noteq> 0" and t: "req_type req = t" "t \<in> {GETS, GETX}"
    and st: "initialState req = I" "dummyState s = I"
    and f: "\<not> is_flag (flags req) PREFETCH" "\<not> is_flag (flags req) PREFETCH_NOREC"
    and up: "up (CacheNode n) = cache_access (cfg n) upn (invalidate_at (Suc h) cfg) n" "upn MemNode = mem_access mo"
    and lat: "0 < accLat (cfg n)"
  shows "succeeds (cache_access (cfg k) up dn k req Dummy s) (access_effect k a t (cycle req) (srcId req) s)"
proof -
  let ?src = "srcId req" and ?cyc = "cycle req + accLat (cfg k)"
  have c: "coh s" and ai: "arrays_ok s" and en: "env s" using s by (simp_all add: system_ok_def)
  note sh = cohD(1) [OF c] and kn = less_imp_le [OF k]
  have get: "IsGet t" using t(2) by auto
  have liv: "live k s" using ai kn by (simp add: live_def arrays_ok_def)
  from lookup_any [OF kn sh liv a(2), of req True] obtain A where
    A: "ao_lookup (arrayOps (cfg k)) a req True (c_array (caches s ! k)) = Inr (cont k s a, A)" "contents k A = cont k s"
      "quiet s (set_array k A s)" by (auto simp: succeeds_iff)
  let ?s1 = "set_array k A s"
  note sa = set_array_simps [OF sh kn, where A = A]
  have c1: "coh ?s1" by (rule coh_set_array [OF c kn A(2)])
  have s1: "system_ok ?s1" by (rule system_ok_quiet [OF s A(3) c1])
  let ?fill = "case cont k s a of Some l \<Rightarrow> Inr (Some l, ?s1)
    | None \<Rightarrow> bindR (cache_fill (cfg k) up dn k req ?cyc ?s1) (\<lambda>(l, s2). Inr (Some l, s2))"
  have "succeeds ?fill (\<lambda>(r, s2). \<exists>l. r = Some l \<and> system_ok s2 \<and> cont k s2 a = Some l \<and>
      recorders s2 = recorders s \<and> weave s2 = weave s \<and> fkeep {(k, filter_index (cfg k) a)} s s2)"
  proof (cases "cont k s a")
    case (Some l)
    then show ?thesis using s1 quiet_keep [OF A(3)] by (simp add: sa A(2))
  next
    case None
    have cn1: "cont k ?s1 a = None" using None by (simp add: sa A(2))
    have e1: "env ?s1" "slot_free (recorders ?s1 ! ?src)" "arrays_ok ?s1" using s1 e by (simp_all add: system_ok_def)
    from l1_fill [where up = up, OF c1 e1(3) k e1(1) e(1) e1(2) a cn1 up(1), of dn ?cyc] obtain l s2 where
      "cache_fill (cfg k) up dn k req ?cyc ?s1 = Inr (l, s2)" "coh s2" "cont k s2 a = Some l" "arrays_ok s2" "mem s2 = mem s"
      "recorders s2 = recorders s" "weave s2 = weave s" "fkeep {(k, filter_index (cfg k) a)} ?s1 s2" by (auto simp: succeeds_iff)
    then show ?thesis using None en fkeep_trans [OF quiet_keep [OF A(3)]] by (simp add: system_ok_def env_def)
  qed
  then obtain l s2 where r2: "?fill = Inr (Some l, s2)" "system_ok s2" "cont k s2 a = Some l" "recorders s2 = recorders s"
    "weave s2 = weave s" "fkeep {(k, filter_index (cfg k) a)} s s2" by (auto simp: succeeds_iff)
  have tk: "take_record ?src s2 = (None, s2)" using e(2) by (simp add: r2(4))
  have fr: "slot_free (recorders s2 ! ?src)" using e(2) by (simp add: r2(4))
  from l1_process [where up = up, OF r2(2) k e(1) fr r2(3) t(2) f up lat, of ?cyc] obtain resp s3 where
    r3: "bcc_processAccess (cfg k) up k a l t ?cyc ?src (flags req) s2 = Inr (resp, s3)" "access_effect k a t ?cyc ?src s2 (resp, s3)"
    by (auto simp: succeeds_iff)
  note ef = r3(2) [unfolded access_effect_def prod.case]
  have ter: "terminal (cfg k)" using l1 [OF k] by simp
  have run: "cache_access (cfg k) up dn k req Dummy s = Inr (resp, s3)"
  proof -
    have sta: "cc_startAccess (cfg k) req I = Inr (False, t)"
      using t(1) st(1) get ter by (simp add: cc_startAccess_def CheckForMESIRace_def)
    have al: "cc_shouldAllocate (cfg k) req = Inr True" using ter by (simp add: cc_shouldAllocate_def)
    have rq: "req\<lparr>req_type := t\<rparr> = req" using t(1) by simp
    have fl: "(case cont k s a of None \<Rightarrow> bindR (cc_shouldAllocate (cfg k) req) (\<lambda>alloc.
        if alloc then bindR (cache_fill (cfg k) up dn k req ?cyc ?s1) (\<lambda>(l, s2). Inr (Some l, s2)) else Inr (None, ?s1))
        | Some l \<Rightarrow> Inr (Some l, ?s1)) = Inr (Some l, s2)"
      using r2(1) by (simp add: al split: option.splits)
    have pr: "cc_processAccess (cfg k) up dn k req Dummy (Some l) ?cyc s2 = Inr (resp, s3)"
      using r3(1) a(1) t(1) ter by (simp add: cc_processAccess_def term_processAccess_def)
    show ?thesis
      using sta A(1) get a(1) fl tk pr ef st(2) rq
      by (simp add: cache_access_def Let_def cong: option.case_cong if_cong)
  qed
  have oth: "others_same ?src s s3" using ef r2(4,5) by (simp add: others_same_def)
  have "slot_ok ?src (cycle req) s3" using slot_ok_weaken [of ?src ?cyc s3 "cycle req"] ef by simp
  moreover have "fkeep {(k, filter_index (cfg k) a)} s s3" using fkeep_trans [OF r2(6)] ef by blast
  ultimately show ?thesis unfolding run using ef oth by (simp add: access_effect_def)
qed

lemma access_at_ok:
  assumes "system_ok s" "k < n" "srcId req < nsrc" "slot_free (recorders s ! srcId req)" "lineAddr req \<noteq> 0"
    "req_type req \<in> {GETS, GETX}" "initialState req = I" "dummyState s = I"
    "\<not> is_flag (flags req) PREFETCH" "\<not> is_flag (flags req) PREFETCH_NOREC" "0 < accLat (cfg n)"
  shows "succeeds (access_at (Suc (Suc d)) (Suc h) cfg mo k req Dummy s)
    (access_effect k (lineAddr req) (req_type req) (cycle req) (srcId req) s)"
  unfolding access_at.simps
  by (rule l1_access [where h = h and upn = "\<lambda>node. case node of CacheNode p \<Rightarrow> access_at d (Suc h) cfg mo p | MemNode \<Rightarrow> mem_access mo",
        OF assms(1-4) refl assms(5) refl assms(6-10) _ _ assms(11)]) simp_all

text \<open>Changes of a filter.\<close>

lemma system_ok_filter: "system_ok s \<Longrightarrow> c \<le> n \<Longrightarrow> system_ok (upd_filter c g s)"
  by (simp add: system_ok_def coh_def arrays_ok_def env_def upd_filter_shape free_ok_def dirs_ok_def)

lemma filters_ok_mono: "filters_ok X s \<Longrightarrow> X \<subseteq> Y \<Longrightarrow> filters_ok Y s"
  by (auto simp: filters_ok_def)

lemma filters_ok_set:
  assumes "shape s" "c < n" "filters_ok {(c, i)} s" "fentry_ok c i s e"
  shows "filters_ok {} (upd_filter c (\<lambda>fs. fs[i := e]) s)"
proof -
  have c: "c \<le> n" using assms(2) by simp
  have "fentry_ok k j (upd_filter c g s) x = fentry_ok k j s x" for k j x g by (simp add: fentry_ok_def)
  then show ?thesis using assms(3,4) by (auto simp: filters_ok_def filter_upd [OF assms(1) c] nth_upd)
qed

end

end
