(* ===== verification/Filter_Cache.thy ===== *)
theory Filter_Cache
  imports Coherence
begin

text \<open>
  The first-level cache as its core calls it (\<open>filter_cache.h\<close>): loads and stores that hit the
  filter are answered at once, the others access the cache. The invalidation of a filter cache is in
  \<open>Coherence\<close>, where the shared cache calls it.
\<close>

section \<open>Loads and stores\<close>

text \<open>
  \<open>replace\<close>, for the line \<open>v\<close> at the index \<open>idx\<close>; \<open>d\<close> is the number of levels below the cache. The
  filter is read after the access, which may have emptied the entry.
\<close>

definition filter_req :: "'a CacheCfg \<Rightarrow> addr \<Rightarrow> bool \<Rightarrow> nat \<Rightarrow> MemReq" where
  "filter_req cfg v isLoad cyc =
     \<lparr>lineAddr = procMask cfg OR v, req_type = (if isLoad then GETS else GETX), childId = 0, cycle = cyc,
      initialState = I, srcId = filterSrc cfg, flags = filterFlags cfg\<rparr>"

definition filter_entry :: "bool \<Rightarrow> addr \<Rightarrow> nat \<Rightarrow> FilterEntry \<Rightarrow> FilterEntry" where
  "filter_entry isLoad v respCycle e =
     (let e1 = e\<lparr>wrAddr := (if isLoad then - 1 else v), rdAddr := v\<rparr>
      in if rdAddr e \<noteq> v then e1\<lparr>availCycle := respCycle\<rparr> else e1)"

definition filter_replace ::
  "nat \<Rightarrow> (nat \<Rightarrow> 'a CacheCfg) \<Rightarrow> 'm mem_obj \<Rightarrow> nat \<Rightarrow> addr \<Rightarrow> nat \<Rightarrow> bool \<Rightarrow> nat \<Rightarrow> ('a, 'm) MemSys
     \<Rightarrow> (nat \<times> ('a, 'm) MemSys) res" where
  "filter_replace d cfg mo c v idx isLoad cyc s =
     bindR (access_at (Suc d) d cfg mo c (filter_req (cfg c) v isLoad cyc) Dummy (s\<lparr>dummyState := I\<rparr>))
       (\<lambda>(respCycle, s1).
          Inr (respCycle, upd_filter c (\<lambda>fs. fs[idx := filter_entry isLoad v respCycle (fs ! idx)]) s1))"

definition filter_load ::
  "nat \<Rightarrow> nat \<Rightarrow> (nat \<Rightarrow> 'a CacheCfg) \<Rightarrow> 'm mem_obj \<Rightarrow> nat \<Rightarrow> addr \<Rightarrow> nat \<Rightarrow> ('a, 'm) MemSys
     \<Rightarrow> (nat \<times> ('a, 'm) MemSys) res" where
  "filter_load lineBits d cfg mo c vAddr cyc s =
     (let v = drop_bit lineBits vAddr; idx = filter_index (cfg c) v; e = filter_of c s ! idx
      in if v = rdAddr e then Inr (max cyc (availCycle e), s)
         else filter_replace d cfg mo c v idx True cyc s)"

definition filter_store ::
  "nat \<Rightarrow> nat \<Rightarrow> (nat \<Rightarrow> 'a CacheCfg) \<Rightarrow> 'm mem_obj \<Rightarrow> nat \<Rightarrow> addr \<Rightarrow> nat \<Rightarrow> ('a, 'm) MemSys
     \<Rightarrow> (nat \<times> ('a, 'm) MemSys) res" where
  "filter_store lineBits d cfg mo c vAddr cyc s =
     (let v = drop_bit lineBits vAddr; idx = filter_index (cfg c) v; e = filter_of c s ! idx
      in if v = wrAddr e then Inr (max cyc (availCycle e), s)
         else filter_replace d cfg mo c v idx False cyc s)"

definition filter_contextSwitch :: "nat \<Rightarrow> ('a, 'm) MemSys \<Rightarrow> ('a, 'm) MemSys" where
  "filter_contextSwitch c = upd_filter c (map clear_filter)"

end
