(* ===== verification/Coherent_Run.thy ===== *)
theory Coherent_Run
  imports Coherent_Access Filter_Cache Dramsim3_Ctrl
begin

text \<open>
  A whole system: first-level caches with LRU replacement, a shared inclusive cache below which
  they sit, and the DRAMsim3 memory controller behind it, built as \<open>init.cpp\<close> builds them and
  driven by the accesses of the cores. The locales of \<open>Coherent_System\<close> are interpreted on it.
\<close>

section \<open>The memory controller in the hierarchy\<close>

text \<open>
  \<open>DRAMsim3Memory::access\<close> with the recorder of the requesting core: the event of the access is
  allocated and its record pushed.
\<close>

definition dramsim3_mem :: "nat \<Rightarrow> int \<Rightarrow> 'b MemCtrl mem_obj" where
  "dramsim3_mem lineBits domn req m rs w =
     bindR (dramsim3_access lineBits (rs ! srcId req \<noteq> None) req m) (\<lambda>(resp, st, tr, m1).
       case (tr, rs ! srcId req) of
         (Some t, Some slot) \<Rightarrow>
           (let (e, w1) = alloc (new_event QueuedEv 0 0 domn) w;
                w2 = setMinStartCycle e (minStartCycle (tr_event t)) w1
            in bindR (pushRecord \<lparr>rc_addr = tr_addr t, rc_reqCycle = tr_reqCycle t, rc_respCycle = tr_respCycle t,
                        rc_type = tr_type t, rc_startEvent = Some e, rc_endEvent = Some e\<rparr> slot)
                 (\<lambda>slot1. Inr (resp, st, m1, rs[srcId req := Some slot1], w2)))
       | _ \<Rightarrow> Inr (resp, st, m1, rs, w))"

lemma set_min_extends:
  assumes "wv_inv {#} w"
  shows "extends w (setMinStartCycle (length (events w)) c (snd (alloc (new_event k pre post d) w)))"
    "te_state (events (setMinStartCycle (length (events w)) c (snd (alloc (new_event k pre post d) w))) ! length (events w)) = EV_NONE"
proof -
  let ?w = "snd (alloc (new_event k pre post d) w)"
  have "wv_inv {#} ?w" by (rule alloc_new_inv [OF assms])
  then have "wv_inv {#} (setMinStartCycle (length (events w)) c ?w)" by (rule set_min_inv) (simp add: alloc_def)
  then show "extends w (setMinStartCycle (length (events w)) c ?w)"
    by (simp add: extends_def setMinStartCycle_def alloc_def nth_upd_event nth_append)
  show "te_state (events (setMinStartCycle (length (events w)) c ?w) ! length (events w)) = EV_NONE"
    by (simp add: setMinStartCycle_def alloc_def nth_upd_event new_event_def)
qed

interpretation dramsim3: memory_object nsrc "\<lambda>m. length (estimators m) = nsrc" "dramsim3_mem lineBits domn"
  for nsrc lineBits domn
proof
  fix m :: "'b MemCtrl" and w :: Weave and rs :: "Recorded option list" and req :: MemReq
  assume a: "length (estimators m) = nsrc" "wv_inv {#} w" "length rs = nsrc" "srcId req < nsrc" "slot_free (rs ! srcId req)"
  have est: "length (estimators (start_bound_phase m)) = nsrc" using a(1) by (simp add: start_bound_phase_def)
  show "succeeds (dramsim3_mem lineBits domn req m rs w) (\<lambda>(resp, st, m', rs', w'). cycle req \<le> resp \<and>
    st = granted_state req \<and> length (estimators m') = nsrc \<and> slot_step (srcId req) (cycle req) rs w rs' w')"
  proof (cases "req_type req = PUTS \<or> rs ! srcId req = None")
    case True
    then show ?thesis using a est
      by (auto simp: dramsim3_mem_def dramsim3_access_def record_access_def Let_def slot_step_def extends_def)
  next
    case False
    then obtain slot where s: "rs ! srcId req = Some slot" "\<not> rc_valid slot" using a(5) by (auto simp: slot_free_def)
    have c: "cycle req \<le> sub64 (cycle req) 1 + 1" by (simp add: sub64_def)
    show ?thesis using False a est s c set_min_extends [OF a(2)]
      by (auto simp: dramsim3_mem_def dramsim3_access_def record_access_def Let_def slot_step_def alloc_def
          good_record_def pushRecord_def rc_valid_def setMinStartCycle_def split: prod.splits)
  qed
qed

section \<open>The caches\<close>

text \<open>
  The configuration of a cache bank, and that of the system: the first-level caches
  \<open>0, ..., sp_cores - 1\<close> and the shared cache with the index \<open>sp_cores\<close>. The hash is \<open>None\<close> when the
  lines index the sets directly.
\<close>

record CacheParams =
  cp_size :: nat
  cp_ways :: nat
  cp_hash :: "(nat \<Rightarrow> u64 \<Rightarrow> u64) option"
  cp_latency :: nat
  cp_isLLC :: bool
  cp_numMems :: nat
  cp_rttUp :: "(nat \<Rightarrow> nat) option"
  cp_rttDown :: "(nat \<Rightarrow> nat) option"
  cp_srcId :: nat
  cp_reqFlags :: u32

record SysParams =
  sp_cores :: nat
  sp_lineBits :: nat
  sp_procMask :: addr
  sp_cache :: "nat \<Rightarrow> CacheParams"

type_synonym 'm sys = "(LRU SetAssocArray, 'm) MemSys"

definition bank_lines :: "SysParams \<Rightarrow> nat \<Rightarrow> nat" where
  "bank_lines sp c = cp_size (sp_cache sp c) div 2 ^ sp_lineBits sp"

definition bank_hash :: "SysParams \<Rightarrow> nat \<Rightarrow> nat \<Rightarrow> u64 \<Rightarrow> u64" where
  "bank_hash sp c = (if c < sp_cores sp then id_hash else case cp_hash (sp_cache sp c) of None \<Rightarrow> id_hash | Some h \<Rightarrow> h)"

definition lru_array_ops :: "bool \<Rightarrow> (nat \<Rightarrow> u64 \<Rightarrow> u64) \<Rightarrow> LRU SetAssocArray array_ops" where
  "lru_array_ops sharersAware hash =
     \<lparr>ao_lookup = sa_lookup (lru_ops sharersAware) hash,
      ao_preinsert = (\<lambda>cc a req A. Some (sa_preinsert (lru_ops sharersAware) hash cc a req A)),
      ao_postinsert = sa_postinsert (lru_ops sharersAware)\<rparr>"

text \<open>
  \<open>BuildCacheBank\<close>: a terminal cache has no access latency, since the pipeline of its core hides it,
  and a filter with an entry for every set; the policy of a cache with children looks at sharers.
\<close>

definition sys_cfg :: "SysParams \<Rightarrow> nat \<Rightarrow> LRU SetAssocArray CacheCfg" where
  "sys_cfg sp c =
     (let p = sp_cache sp c; isTerminal = c < sp_cores sp
      in \<lparr>terminal = isTerminal, nonInclusiveHack = False, numLines = bank_lines sp c,
          selfId = (if isTerminal then c else 0),
          parents = (if isTerminal then [CacheNode (sp_cores sp)] else [MemNode]),
          children = (if isTerminal then [] else [0..<sp_cores sp]),
          accLat = (if isTerminal then 0 else cp_latency p), invLat = cp_latency p, isLLC = cp_isLLC p,
          numMems = cp_numMems p, rttUp = cp_rttUp p, rttDown = cp_rttDown p,
          arrayOps = lru_array_ops (\<not> isTerminal) (bank_hash sp c),
          filterSets = (if isTerminal then bank_lines sp c div cp_ways p else 0),
          filterSrc = cp_srcId p, filterFlags = cp_reqFlags p, procMask = sp_procMask sp\<rparr>)"

definition empty_entry :: DirEntry where
  "empty_entry = clear_entry \<lparr>numSharers = 0, sharers = \<lambda>_. False, exclusive = False\<rparr>"

definition empty_filter :: FilterEntry where
  "empty_filter = clear_filter \<lparr>rdAddr = 0, wrAddr = 0, availCycle = 0\<rparr>"

definition new_cache :: "SysParams \<Rightarrow> nat \<Rightarrow> LRU SetAssocArray CacheObj res" where
  "new_cache sp c =
     (let p = sp_cache sp c; isTerminal = c < sp_cores sp; lines = bank_lines sp c
      in require (cp_size p mod 2 ^ sp_lineBits sp = 0) (Panicked ''Bank size must be a multiple of line size'')
          (require (isTerminal \<longrightarrow> cp_hash p = None) (Panicked ''Invalid FilterCache config'')
            (bindR (sa_new lines (cp_ways p) (lru_new lines)) (\<lambda>A.
               Inr \<lparr>c_array = A, c_bcc = replicate lines I,
                    c_tcc = (if isTerminal then [] else replicate lines empty_entry),
                    c_filter = (if isTerminal then replicate (lines div cp_ways p) empty_filter else [])\<rparr>))))"

fun mapR :: "('a \<Rightarrow> 'b res) \<Rightarrow> 'a list \<Rightarrow> 'b list res" where
  "mapR f [] = Inr []"
| "mapR f (x # xs) = bindR (f x) (\<lambda>y. bindR (mapR f xs) (\<lambda>ys. Inr (y # ys)))"

text \<open>The directory of the shared cache holds at most \<open>MAX_CACHE_CHILDREN\<close> children.\<close>

definition new_system :: "SysParams \<Rightarrow> 'm \<Rightarrow> Recorded option list \<Rightarrow> 'm sys res" where
  "new_system sp m rs =
     require (sp_cores sp \<le> 256) (Panicked ''Children size > MAX_CACHE_CHILDREN'')
       (bindR (mapR (new_cache sp) [0..<Suc (sp_cores sp)]) (\<lambda>cs.
          Inr \<lparr>caches = cs, mem = m, recorders = rs, weave = \<lparr>events = [], queued = [], finished = []\<rparr>, dummyState = I\<rparr>))"

lemma mapR_ok: "mapR f xs = Inr ys \<Longrightarrow> length ys = length xs \<and> (\<forall>i<length xs. f (xs ! i) = Inr (ys ! i))"
proof (induction xs arbitrary: ys)
  case (Cons x xs)
  then show ?case by (auto simp: bindR_eq_Inr_iff nth_Cons split: nat.split)
qed simp

section \<open>The cores\<close>

text \<open>
  What the cores do: loads and stores, after which the recorder of the core takes the record of the
  access (\<open>CoreRecorder::record\<close>), and context switches.
\<close>

datatype CoreOp = LoadOp nat addr nat | StoreOp nat addr nat | SwitchOp nat

definition record_op :: "nat \<Rightarrow> nat \<times> 'm sys \<Rightarrow> nat \<times> 'm sys" where
  "record_op src r = (fst r, snd (take_record src (snd r)))"

fun core_op :: "SysParams \<Rightarrow> 'm mem_obj \<Rightarrow> CoreOp \<Rightarrow> 'm sys \<Rightarrow> (nat \<times> 'm sys) res" where
  "core_op sp mo (LoadOp c a cyc) s =
     bindR (filter_load (sp_lineBits sp) 1 (sys_cfg sp) mo c a cyc s) (\<lambda>r. Inr (record_op (cp_srcId (sp_cache sp c)) r))"
| "core_op sp mo (StoreOp c a cyc) s =
     bindR (filter_store (sp_lineBits sp) 1 (sys_cfg sp) mo c a cyc s) (\<lambda>r. Inr (record_op (cp_srcId (sp_cache sp c)) r))"
| "core_op sp mo (SwitchOp c) s = Inr (0, filter_contextSwitch c s)"

fun core_run :: "SysParams \<Rightarrow> 'm mem_obj \<Rightarrow> CoreOp list \<Rightarrow> 'm sys \<Rightarrow> 'm sys res" where
  "core_run sp mo [] s = Inr s"
| "core_run sp mo (x # xs) s = bindR (core_op sp mo x s) (\<lambda>(resp, s1). core_run sp mo xs s1)"

text \<open>A core accesses its own cache, and no address in line 0.\<close>

definition line_of :: "SysParams \<Rightarrow> addr \<Rightarrow> addr" where
  "line_of sp a = drop_bit (sp_lineBits sp) a"

fun core_op_ok :: "SysParams \<Rightarrow> CoreOp \<Rightarrow> bool" where
  "core_op_ok sp (LoadOp c a cyc) \<longleftrightarrow> c < sp_cores sp \<and> line_of sp a \<noteq> 0"
| "core_op_ok sp (StoreOp c a cyc) \<longleftrightarrow> c < sp_cores sp \<and> line_of sp a \<noteq> 0"
| "core_op_ok sp (SwitchOp c) \<longleftrightarrow> c < sp_cores sp"

section \<open>Coherence\<close>

text \<open>The state that a cache holds an address in.\<close>

definition line_state :: "nat \<Rightarrow> 'm sys \<Rightarrow> addr \<Rightarrow> MESIState" where
  "line_state c s a = (case sa_contents (c_array (caches s ! c)) a of None \<Rightarrow> I | Some l \<Rightarrow> bstate c l s)"

text \<open>One writer or many readers.\<close>

definition swmr :: "SysParams \<Rightarrow> 'm sys \<Rightarrow> bool" where
  "swmr sp s \<longleftrightarrow> (\<forall>a i j. i < sp_cores sp \<longrightarrow> j < sp_cores sp \<longrightarrow> i \<noteq> j \<longrightarrow>
     line_state i s a \<in> {E, M} \<longrightarrow> line_state j s a = I)"

definition inclusive :: "SysParams \<Rightarrow> 'm sys \<Rightarrow> bool" where
  "inclusive sp s \<longleftrightarrow> (\<forall>a i. i < sp_cores sp \<longrightarrow> line_state i s a \<noteq> I \<longrightarrow> line_state (sp_cores sp) s a \<noteq> I) \<and>
     (\<forall>a i. i < sp_cores sp \<longrightarrow> line_state i s a \<in> {E, M} \<longrightarrow> line_state (sp_cores sp) s a \<in> {E, M})"

definition directory_exact :: "SysParams \<Rightarrow> 'm sys \<Rightarrow> bool" where
  "directory_exact sp s \<longleftrightarrow> (\<forall>a l. sa_contents (c_array (caches s ! sp_cores sp)) a = Some l \<longrightarrow>
     (\<forall>k. sharers (entry (sp_cores sp) l s) k \<longleftrightarrow> k < sp_cores sp \<and> line_state k s a \<noteq> I) \<and>
     numSharers (entry (sp_cores sp) l s) = card {k. k < sp_cores sp \<and> line_state k s a \<noteq> I} \<and>
     (isExclusive (entry (sp_cores sp) l s) \<longleftrightarrow> (\<exists>k < sp_cores sp. line_state k s a \<in> {E, M})))"

text \<open>The filters let through only what the caches behind them permit.\<close>

definition filters_coherent :: "SysParams \<Rightarrow> 'm sys \<Rightarrow> bool" where
  "filters_coherent sp s \<longleftrightarrow> (\<forall>k < sp_cores sp. \<forall>e\<in>set (filter_of k s).
     (rdAddr e \<notin> {0, - 1} \<longrightarrow> line_state k s (rdAddr e OR sp_procMask sp) \<noteq> I) \<and>
     (wrAddr e \<notin> {0, - 1} \<longrightarrow> line_state k s (wrAddr e OR sp_procMask sp) = M))"

section \<open>The locale on the system\<close>

abbreviation sys_ainv :: "SysParams \<Rightarrow> nat \<Rightarrow> LRU SetAssocArray \<Rightarrow> bool" where
  "sys_ainv sp c \<equiv> sa_inv (bank_hash sp c) (bank_lines sp c) (cp_ways (sp_cache sp c)) (\<lambda>p. length (lru_array p) = bank_lines sp c)"

abbreviation sys_apend :: "SysParams \<Rightarrow> nat \<Rightarrow> addr \<Rightarrow> nat \<Rightarrow> LRU SetAssocArray \<Rightarrow> bool" where
  "sys_apend sp c \<equiv> sa_pending (bank_hash sp c) (bank_lines sp c) (cp_ways (sp_cache sp c)) (\<lambda>p. length (lru_array p) = bank_lines sp c)"

text \<open>The filter of a cache has the sets of its array.\<close>

lemma filter_index_set:
  assumes "sys_ainv sp c A" "c < sp_cores sp"
  shows "filter_index (sys_cfg sp c) a = set_index (bank_hash sp c) 0 (sa_setMask A) a"
proof -
  from assms(1) obtain k where k: "k < 32" "sa_numSets A = 2 ^ k" "sa_numSets A = bank_lines sp c div cp_ways (sp_cache sp c)"
    "sa_setMask A = of_nat (sa_numSets A) - 1" by (auto simp: sa_inv_def sa_ok_def)
  have "(ucast (of_nat (2 ^ k) - 1 :: u32) :: u64) = of_nat (2 ^ k - 1)"
  proof -
    have "(of_nat (2 ^ k) - 1 :: u32) = mask k" by (simp add: mask_eq_exp_minus_1)
    moreover have "(ucast (mask k :: u32) :: u64) = mask k" using k(1) by (auto intro!: bit_eqI simp: bit_simps)
    moreover have "(of_nat (2 ^ k - 1) :: u64) = mask k" by (simp add: mask_eq_exp_minus_1 of_nat_diff)
    ultimately show ?thesis by simp
  qed
  then show ?thesis
    using k assms(2) by (simp add: filter_index_def set_index_def sys_cfg_def Let_def bank_hash_def id_hash_def)
qed

lemma filter_index_less:
  assumes "sys_ainv sp c A" "c < sp_cores sp"
  shows "filter_index (sys_cfg sp c) a < filterSets (sys_cfg sp c)"
proof -
  from assms(1) obtain k where k: "k < 32" "sa_numSets A = 2 ^ k" "sa_numSets A = bank_lines sp c div cp_ways (sp_cache sp c)"
    "sa_setMask A = of_nat (sa_numSets A) - 1" by (auto simp: sa_inv_def sa_ok_def)
  have "filterSets (sys_cfg sp c) = sa_numSets A" using k(3) assms(2) by (simp add: sys_cfg_def Let_def)
  then show ?thesis using set_index_less [OF k(2,1), of "bank_hash sp c" 0 a] filter_index_set [OF assms] k(4) by simp
qed

interpretation sys: coherent_system nsrc "\<lambda>m. length (estimators m) = nsrc" "dramsim3_mem lineBits domn"
    "sp_cores sp" "sys_cfg sp" "sys_ainv sp" "sys_apend sp" "\<lambda>c. sa_contents"
  for nsrc lineBits domn sp
proof (intro coherent_system.intro coherent_system_axioms.intro dramsim3.memory_object_axioms)
  fix c
  show "cache_array (numLines (sys_cfg sp c)) (sys_ainv sp c) (sys_apend sp c) sa_contents (ao_lookup (arrayOps (sys_cfg sp c)))
     (ao_preinsert (arrayOps (sys_cfg sp c))) (ao_postinsert (arrayOps (sys_cfg sp c)))"
    using sa_lru.sa.cache_array_axioms by (simp add: sys_cfg_def lru_array_ops_def Let_def)
next
  fix c A a v req l b A'
  assume a: "c < sp_cores sp" "sys_ainv sp c A"
    "ao_preinsert (arrayOps (sys_cfg sp c)) v a req A = Some (Inr (l, b, A'))" "b \<noteq> 0"
  from a(3) have "sa_preinsert (lru_ops (\<not> c < sp_cores sp)) (bank_hash sp c) v a req A = Inr (l, b, A')"
    by (simp add: sys_cfg_def lru_array_ops_def Let_def)
  from sa_lru.sa_victim_set [OF a(2) this a(4)] show "filter_index (sys_cfg sp c) b = filter_index (sys_cfg sp c) a"
    using filter_index_set [OF a(2,1)] by simp
qed (simp_all add: sys_cfg_def Let_def)

section \<open>Runs\<close>

definition slots_free :: "'m sys \<Rightarrow> bool" where
  "slots_free s \<longleftrightarrow> (\<forall>i<length (recorders s). slot_free (recorders s ! i))"

lemma line_state_pst: "line_state c s a = sys.pst c s a"
  by (simp add: line_state_def sys.pst_def)

lemma coherent_facts:
  assumes c: "sys.coh sp s"
  shows "swmr sp s" "inclusive sp s" "directory_exact sp s"
proof -
  note l = line_state_pst
  note d = sys.dirs_okD [OF sys.cohD(3) [OF c]]
  have gone: "line_state k s a = I" if "sa_contents (c_array (caches s ! sp_cores sp)) a = None" "k < sp_cores sp" for a k
    using d(3) that by (simp add: l)
  have dir: "dir_ok (sp_cores sp) (entry (sp_cores sp) x s) (line_state (sp_cores sp) s a) (\<lambda>k. line_state k s a)"
    if "sa_contents (c_array (caches s ! sp_cores sp)) a = Some x" for a x
    using d(2) [OF that] sys.pstI [OF that] by (simp add: l)
  show "swmr sp s"
    unfolding swmr_def
  proof (intro allI impI)
    fix a i j assume a: "i < sp_cores sp" "j < sp_cores sp" "i \<noteq> j" "line_state i s a \<in> {E, M}"
    then obtain x where "sa_contents (c_array (caches s ! sp_cores sp)) a = Some x" using gone [of a i] by fastforce
    from dir_ok_swmr [OF dir [OF this] a(1,4,2)] a(3) show "line_state j s a = I" by simp
  qed
  show "inclusive sp s"
    unfolding inclusive_def
  proof (intro conjI allI impI)
    fix a i assume a: "i < sp_cores sp" "line_state i s a \<noteq> I"
    then obtain x where "sa_contents (c_array (caches s ! sp_cores sp)) a = Some x" using gone [of a i] by fastforce
    from dir_okD(3) [OF dir [OF this] a] show "line_state (sp_cores sp) s a \<noteq> I" .
  next
    fix a i assume a: "i < sp_cores sp" "line_state i s a \<in> {E, M}"
    then obtain x where "sa_contents (c_array (caches s ! sp_cores sp)) a = Some x" using gone [of a i] by fastforce
    from dir_okD(4) [OF dir [OF this] a] show "line_state (sp_cores sp) s a \<in> {E, M}" by simp
  qed
  show "directory_exact sp s"
    unfolding directory_exact_def
  proof (intro allI impI)
    fix a x assume a: "sa_contents (c_array (caches s ! sp_cores sp)) a = Some x"
    note dd = dir [OF this]
    have "\<exists>k < sp_cores sp. line_state k s a \<in> {E, M}" if e: "isExclusive (entry (sp_cores sp) x s)"
    proof -
      have "card {k. k < sp_cores sp \<and> line_state k s a \<noteq> I} = 1"
        using e dir_okD(2) [OF dd] by (simp add: isExclusive_def)
      then have "{k. k < sp_cores sp \<and> line_state k s a \<noteq> I} \<noteq> {}" by (intro notI) simp
      then obtain k where "k < sp_cores sp" "line_state k s a \<noteq> I" by blast
      with dir_okD(5) [OF dd e this] show ?thesis by blast
    qed
    then show "(\<forall>k. sharers (entry (sp_cores sp) x s) k \<longleftrightarrow> k < sp_cores sp \<and> line_state k s a \<noteq> I) \<and>
     numSharers (entry (sp_cores sp) x s) = card {k. k < sp_cores sp \<and> line_state k s a \<noteq> I} \<and>
     (isExclusive (entry (sp_cores sp) x s) \<longleftrightarrow> (\<exists>k < sp_cores sp. line_state k s a \<in> {E, M}))"
      using dir_okD(1,2,4) [OF dd] by blast
  qed
qed

lemma system_facts:
  assumes "sys.system_ok nsrc sp s"
  shows "swmr sp s" "inclusive sp s" "directory_exact sp s"
  using coherent_facts [of sp s] assms by (simp_all add: sys.system_ok_def)

lemma filters_facts:
  assumes "sys.filters_ok sp {} s"
  shows "filters_coherent sp s"
  unfolding filters_coherent_def
proof (intro allI impI ballI)
  fix k e assume k: "k < sp_cores sp" "e \<in> set (filter_of k s)"
  note l = line_state_pst
  from k assms have "\<exists>i. sys.fentry_ok sp k i s e" by (auto simp: sys.filters_ok_def in_set_conv_nth)
  then show "(rdAddr e \<notin> {0, - 1} \<longrightarrow> line_state k s (rdAddr e OR sp_procMask sp) \<noteq> I) \<and>
     (wrAddr e \<notin> {0, - 1} \<longrightarrow> line_state k s (wrAddr e OR sp_procMask sp) = M)"
    by (auto simp: sys.fentry_ok_def l sys_cfg_def Let_def)
qed

text \<open>The state between two operations, and a fresh system.\<close>

definition run_ok :: "nat \<Rightarrow> SysParams \<Rightarrow> ('b MemCtrl) sys \<Rightarrow> bool" where
  "run_ok nsrc sp s \<longleftrightarrow> sys.system_ok nsrc sp s \<and> sys.filters_ok sp {} s \<and> slots_free s"

text \<open>
  A configuration of \<open>nsrc\<close> cores: the shared cache takes time, the process mask is above the
  set indices, and cores do not prefetch.
\<close>

definition config_ok :: "nat \<Rightarrow> SysParams \<Rightarrow> bool" where
  "config_ok nsrc sp \<longleftrightarrow> (\<forall>c \<le> sp_cores sp. bank_lines sp c < 2 ^ 32) \<and> 0 < cp_latency (sp_cache sp (sp_cores sp)) \<and>
     0 < sp_lineBits sp \<and> take_bit 32 (sp_procMask sp) = 0 \<and>
     (\<forall>c < sp_cores sp. cp_srcId (sp_cache sp c) < nsrc \<and> \<not> is_flag (cp_reqFlags (sp_cache sp c)) PREFETCH \<and>
        \<not> is_flag (cp_reqFlags (sp_cache sp c)) PREFETCH_NOREC)"

definition boot_ok :: "SysParams \<Rightarrow> 'b MemCtrl \<Rightarrow> Recorded option list \<Rightarrow> bool" where
  "boot_ok sp m rs \<longleftrightarrow> config_ok (length rs) sp \<and> length (estimators m) = length rs \<and> (\<forall>r\<in>set rs. slot_free r)"

lemma new_caches:
  assumes "new_system sp m rs = Inr s"
  obtains A where "\<And>c. c \<le> sp_cores sp \<Longrightarrow> sa_new (bank_lines sp c) (cp_ways (sp_cache sp c)) (lru_new (bank_lines sp c)) = Inr (A c)"
    "\<And>c. c \<le> sp_cores sp \<Longrightarrow> caches s ! c = \<lparr>c_array = A c, c_bcc = replicate (bank_lines sp c) I,
       c_tcc = (if c < sp_cores sp then [] else replicate (bank_lines sp c) empty_entry),
       c_filter = (if c < sp_cores sp then replicate (bank_lines sp c div cp_ways (sp_cache sp c)) empty_filter else [])\<rparr>"
    "length (caches s) = Suc (sp_cores sp)" "mem s = m" "recorders s = rs"
    "weave s = \<lparr>events = [], queued = [], finished = []\<rparr>"
proof -
  let ?n = "sp_cores sp"
  from assms(1) obtain cs where cs: "mapR (new_cache sp) [0..<Suc ?n] = Inr cs" and s: "s = \<lparr>caches = cs, mem = m, recorders = rs,
      weave = \<lparr>events = [], queued = [], finished = []\<rparr>, dummyState = I\<rparr>"
    by (auto simp: new_system_def require_eq_Inr_iff bindR_eq_Inr_iff)
  have "\<exists>A. sa_new (bank_lines sp c) (cp_ways (sp_cache sp c)) (lru_new (bank_lines sp c)) = Inr A \<and>
     cs ! c = \<lparr>c_array = A, c_bcc = replicate (bank_lines sp c) I,
       c_tcc = (if c < ?n then [] else replicate (bank_lines sp c) empty_entry),
       c_filter = (if c < ?n then replicate (bank_lines sp c div cp_ways (sp_cache sp c)) empty_filter else [])\<rparr>" if "c \<le> ?n" for c
  proof -
    have i: "c < length [0..<Suc ?n]" "[0..<Suc ?n] ! c = c" using that by (simp_all del: upt_Suc)
    have "new_cache sp ([0..<Suc ?n] ! c) = Inr (cs ! c)" using mapR_ok [OF cs] i(1) by blast
    then have "new_cache sp c = Inr (cs ! c)" unfolding i(2) .
    then show ?thesis by (auto simp: new_cache_def Let_def bindR_eq_Inr_iff require_eq_Inr_iff)
  qed
  then obtain A where "\<And>c. c \<le> ?n \<Longrightarrow> sa_new (bank_lines sp c) (cp_ways (sp_cache sp c)) (lru_new (bank_lines sp c)) = Inr (A c)"
    "\<And>c. c \<le> ?n \<Longrightarrow> cs ! c = \<lparr>c_array = A c, c_bcc = replicate (bank_lines sp c) I,
       c_tcc = (if c < ?n then [] else replicate (bank_lines sp c) empty_entry),
       c_filter = (if c < ?n then replicate (bank_lines sp c div cp_ways (sp_cache sp c)) empty_filter else [])\<rparr>"
    by metis
  then show ?thesis using that [of A] mapR_ok [OF cs] by (simp add: s)
qed

lemma boot:
  assumes "boot_ok sp m rs" "new_system sp m rs = Inr s"
  shows "run_ok (length rs) sp s"
proof -
  let ?n = "sp_cores sp" and ?L = "bank_lines sp"
  from new_caches [OF assms(2)] obtain A where
    A: "\<And>c. c \<le> ?n \<Longrightarrow> sa_new (?L c) (cp_ways (sp_cache sp c)) (lru_new (?L c)) = Inr (A c)"
    and cs: "\<And>c. c \<le> ?n \<Longrightarrow> caches s ! c = \<lparr>c_array = A c, c_bcc = replicate (?L c) I,
       c_tcc = (if c < ?n then [] else replicate (?L c) empty_entry),
       c_filter = (if c < ?n then replicate (?L c div cp_ways (sp_cache sp c)) empty_filter else [])\<rparr>"
    and s: "length (caches s) = Suc ?n" "mem s = m" "recorders s = rs" "weave s = \<lparr>events = [], queued = [], finished = []\<rparr>"
    by blast
  have emp: "sa_contents (A c) a = None" "sys_ainv sp c (A c)" if "c \<le> ?n" for c a
    using sa_new_ok [OF A [OF that], where pinv = "\<lambda>p. length (lru_array p) = ?L c"] assms(1) that
    by (simp_all add: lru_new_def boot_ok_def config_ok_def)
  have nl: "numLines (sys_cfg sp c) = ?L c" for c by (simp add: sys_cfg_def Let_def)
  have arr: "c_array (caches s ! c) = A c" if "c \<le> ?n" for c using cs [OF that] by simp
  have sh: "sys.shape sp s" unfolding sys.shape_def nl using cs emp(1) arr by (auto simp: s)
  have fr: "sys.free_ok sp c s" if "c \<le> ?n" for c
    unfolding sys.free_ok_def nl using cs [OF that] by (simp add: bstate_def)
  have "sys.dirs_ok sp s"
    unfolding sys.dirs_ok_def sys.pst_def nl using cs [OF order_refl] arr emp(1)
    by (auto simp: entry_def dir_ok_free empty_entry_def clear_entry_def)
  then have "sys.coh sp s" using sh fr by (simp add: sys.coh_def)
  moreover have "sys.arrays_ok sp s" unfolding sys.arrays_ok_def using arr emp(2) by simp
  moreover have "sys.env (length rs) s"
    unfolding sys.env_def using assms(1) by (simp add: s wv_inv_def live_edges_def contrib_def boot_ok_def)
  moreover have "sys.filters_ok sp {} s"
    unfolding sys.filters_ok_def using cs
    by (auto simp: filter_of_def sys_cfg_def Let_def sys.fentry_ok_def empty_filter_def clear_filter_def)
  moreover have "slots_free s" using assms(1) by (simp add: slots_free_def boot_ok_def s)
  ultimately show ?thesis by (simp add: run_ok_def sys.system_ok_def)
qed

section \<open>One operation\<close>

text \<open>The permission that an operation leaves.\<close>

definition granted :: "SysParams \<Rightarrow> nat \<Rightarrow> addr \<Rightarrow> bool \<Rightarrow> 'm sys \<Rightarrow> bool" where
  "granted sp c v isLoad s \<longleftrightarrow>
     (let st = line_state c s (sp_procMask sp OR v) in if isLoad then st \<noteq> I else st = M)"

lemma line_not_minus_one:
  assumes "config_ok nsrc sp" shows "line_of sp a \<noteq> - 1"
proof
  assume "line_of sp a = - 1"
  then have "bit (line_of sp a) 63" by simp
  then show False using assms by (auto simp: line_of_def config_ok_def bit_simps dest: bit_imp_le_length)
qed

lemma filter_index_mask:
  assumes "config_ok nsrc sp" "c < sp_cores sp"
  shows "filter_index (sys_cfg sp c) (sp_procMask sp OR v) = filter_index (sys_cfg sp c) v"
proof -
  let ?m = "filterSets (sys_cfg sp c) - 1"
  have "bank_lines sp c < 2 ^ 32" using assms by (simp add: config_ok_def)
  then have "?m < 2 ^ 32" using assms(2) le_trans [OF div_le_dividend [of "bank_lines sp c" "cp_ways (sp_cache sp c)"]]
    by (auto simp: sys_cfg_def Let_def intro: le_less_trans [OF diff_le_self] le_less_trans [OF div_le_dividend])
  then have "take_bit 32 ?m = ?m" by (simp only: take_bit_nat_eq_self)
  then have m: "(of_nat ?m :: u64) = take_bit 32 (of_nat ?m)" by (metis of_nat_take_bit)
  have "sp_procMask sp AND of_nat ?m = take_bit 32 (sp_procMask sp) AND (of_nat ?m :: u64)"
    by (subst m, rule bit_eqI) (auto simp: bit_simps)
  then have "sp_procMask sp AND of_nat ?m = 0" using assms(1) by (simp add: config_ok_def)
  then show ?thesis by (simp add: filter_index_def bit.conj_disj_distrib2)
qed

lemma replace_ok:
  assumes cfg: "config_ok nsrc sp" and s: "run_ok nsrc sp s" and c: "c < sp_cores sp" and v: "v \<noteq> 0" "idx = filter_index (sys_cfg sp c) v"
  shows "succeeds (filter_replace 1 (sys_cfg sp) (dramsim3_mem lineBits domn) c v idx isLoad cyc s) (\<lambda>(resp, s').
    cyc \<le> resp \<and> run_ok nsrc sp (snd (take_record (cp_srcId (sp_cache sp c)) s')) \<and> granted sp c v isLoad s')"
proof -
  let ?s = "s\<lparr>dummyState := I\<rparr>" and ?src = "cp_srcId (sp_cache sp c)" and ?pm = "sp_procMask sp"
  let ?req = "filter_req (sys_cfg sp c) v isLoad cyc" and ?a = "?pm OR v"
  have cc: "caches ?s = caches s" by simp
  note cong = sys.caches_cong [OF cc]
  have req: "lineAddr ?req = ?a" "req_type ?req = (if isLoad then GETS else GETX)" "srcId ?req = ?src" "cycle ?req = cyc"
    "initialState ?req = I" "flags ?req = cp_reqFlags (sp_cache sp c)"
    by (simp_all add: filter_req_def sys_cfg_def Let_def)
  have s': "sys.system_ok nsrc sp ?s" "sys.filters_ok sp {} ?s"
    using s sys.filters_cong(1) [of sp ?s s "{}"] by (simp_all add: run_ok_def sys.system_ok_def sys.arrays_ok_def sys.env_def cong filter_of_def)
  have src: "?src < nsrc" and len: "length (recorders s) = nsrc"
    using cfg s c by (simp_all add: config_ok_def run_ok_def sys.system_ok_def sys.env_def)
  have fr: "slot_free (recorders ?s ! ?src)" using s src len by (simp add: run_ok_def slots_free_def)
  have lat: "0 < accLat (sys_cfg sp (sp_cores sp))" using cfg by (simp add: sys_cfg_def config_ok_def Let_def)
  have a0: "?a \<noteq> 0" using v(1) by (simp add: or_eq_0_iff)
  have "succeeds (access_at (Suc (Suc 0)) (Suc 0) (sys_cfg sp) (dramsim3_mem lineBits domn) c ?req Dummy ?s)
    (sys.access_effect nsrc sp c (lineAddr ?req) (req_type ?req) (cycle ?req) (srcId ?req) ?s)"
    by (rule sys.access_at_ok) (use s'(1) c src fr a0 lat cfg in \<open>simp_all add: req config_ok_def\<close>)
  then obtain resp s1 where r: "access_at (Suc 1) 1 (sys_cfg sp) (dramsim3_mem lineBits domn) c ?req Dummy ?s = Inr (resp, s1)"
    "cyc \<le> resp" "sys.system_ok nsrc sp s1" "sys.slot_ok ?src cyc s1" "sys.others_same ?src ?s s1"
    "sys.permits (req_type ?req) (sys.pst c s1 ?a)" "sys.fkeep sp {(c, filter_index (sys_cfg sp c) ?a)} ?s s1"
    by (auto simp: succeeds_iff sys.access_effect_def req)
  define e where "e = filter_entry isLoad v resp (filter_of c s1 ! idx)"
  let ?s2 = "upd_filter c (\<lambda>fs. fs[idx := e]) s1"
  have fa: "filter_index (sys_cfg sp c) ?a = idx" using filter_index_mask [OF cfg c] v(2) by simp
  have "sys.filters_ok sp {(c, idx)} ?s" using sys.filters_ok_mono [OF s'(2)] by simp
  then have f1: "sys.filters_ok sp {(c, idx)} s1" using r(7) unfolding fa sys.fkeep_def by blast
  have sh1: "sys.shape sp s1" using sys.cohD(1) r(3) by (auto simp: sys.system_ok_def)
  have pm: "procMask (sys_cfg sp c) = ?pm" by (simp add: sys_cfg_def Let_def)
  have "sys.fentry_ok sp c idx s1 e"
    using r(6) fa unfolding sys.fentry_ok_def pm e_def
    by (auto simp: filter_entry_def Let_def req(2) sys.permits_def or.commute)
  then have f2: "sys.filters_ok sp {} ?s2" by (rule sys.filters_ok_set [OF sh1 c f1])
  have ok2: "sys.system_ok nsrc sp ?s2" by (rule sys.system_ok_filter [OF r(3)]) (use c in simp)
  have e2: "sys.env nsrc ?s2" and sl2: "sys.slot_ok ?src cyc ?s2" using ok2 r(4) by (simp_all add: sys.system_ok_def sys.slot_ok_def)
  let ?s3 = "snd (take_record ?src ?s2)"
  have s3: "caches ?s3 = caches ?s2" "sys.env nsrc ?s3" "slot_free (recorders ?s3 ! ?src)" "sys.others_same ?src ?s2 ?s3"
    using sys.take_record_ok [OF sl2 e2 src] sys.others_same_refl [OF e2] e2 by (metis snd_conv)+
  note cong3 = sys.caches_cong [OF s3(1)]
  have "slot_free (recorders ?s3 ! i)" if i: "i < length (recorders ?s3)" for i
  proof (cases "i = ?src")
    case False
    then have "recorders ?s3 ! i = recorders s ! i" using r(5) s3(4) by (simp add: sys.others_same_def)
    then show ?thesis using s i s3(2) len by (simp add: slots_free_def sys.env_def run_ok_def)
  qed (use s3(3) in simp)
  moreover have "sys.filters_ok sp {} ?s3" using f2 sys.filters_cong(1) [of sp ?s3 ?s2 "{}"] by (simp add: cong3 filter_of_def s3(1))
  ultimately have "run_ok nsrc sp ?s3"
    using ok2 s3(2) by (simp add: run_ok_def slots_free_def sys.system_ok_def sys.arrays_ok_def cong3 s3(1))
  moreover have "line_state c ?s2 ?a = sys.pst c s1 ?a" by (simp add: line_state_pst)
  then have "granted sp c v isLoad ?s2" using r(6) by (auto simp: granted_def sys.permits_def req(2) Let_def split: if_splits)
  moreover have "upd_filter c (\<lambda>fs. fs[idx := filter_entry isLoad v resp (fs ! idx)]) s1 = ?s2"
    by (simp add: upd_filter_def upd_cache_def e_def filter_of_def)
  ultimately show ?thesis using r(1,2) by (simp add: filter_replace_def)
qed

lemma record_same: "slots_free s \<Longrightarrow> src < length (recorders s) \<Longrightarrow> snd (take_record src s) = s"
  by (simp add: slots_free_def)

text \<open>A hit in the filter changes nothing, and the line is there.\<close>

lemma hit_granted:
  assumes "run_ok nsrc sp s" "config_ok nsrc sp" "c < sp_cores sp" "v \<noteq> 0" "v \<noteq> - 1" "idx = filter_index (sys_cfg sp c) v"
    and "v = (if isLoad then rdAddr else wrAddr) (filter_of c s ! idx)"
  shows "granted sp c v isLoad s"
proof -
  have l: "length (filter_of c s) = filterSets (sys_cfg sp c)"
    and ok: "\<And>i. i < filterSets (sys_cfg sp c) \<Longrightarrow> sys.fentry_ok sp c i s (filter_of c s ! i)"
    using assms(1,3) by (auto simp: run_ok_def sys.filters_ok_def)
  have "sys_ainv sp c (c_array (caches s ! c))" using assms(1,3) by (simp add: run_ok_def sys.system_ok_def sys.arrays_ok_def)
  then have "idx < filterSets (sys_cfg sp c)" using filter_index_less assms(3,6) by simp
  from ok [OF this] assms(4,5,7) show ?thesis
    by (auto simp: sys.fentry_ok_def granted_def line_state_pst Let_def sys_cfg_def or.commute split: if_splits)
qed

text \<open>What an operation leaves: the invariant, and the permission it is for.\<close>

fun op_granted :: "SysParams \<Rightarrow> CoreOp \<Rightarrow> nat \<times> 'm sys \<Rightarrow> bool" where
  "op_granted sp (LoadOp c a cyc) (resp, s) \<longleftrightarrow> cyc \<le> resp \<and> granted sp c (line_of sp a) True s"
| "op_granted sp (StoreOp c a cyc) (resp, s) \<longleftrightarrow> cyc \<le> resp \<and> granted sp c (line_of sp a) False s"
| "op_granted sp (SwitchOp c) (resp, s) \<longleftrightarrow> (\<forall>e\<in>set (filter_of c s). rdAddr e = 0 \<and> wrAddr e = 0)"

lemma granted_take [simp]: "granted sp c v isLoad (snd (take_record src s)) = granted sp c v isLoad s"
  by (auto simp: granted_def take_record_def set_recorder_def line_state_def bstate_def split: option.splits)

lemma access_granted:
  assumes cfg: "config_ok nsrc sp" and s: "run_ok nsrc sp s" and c: "c < sp_cores sp" and a: "line_of sp a \<noteq> 0"
    and f: "f = (if isLoad then filter_load else filter_store)"
  shows "succeeds (f (sp_lineBits sp) 1 (sys_cfg sp) (dramsim3_mem lineBits domn) c a cyc s) (\<lambda>r.
    run_ok nsrc sp (snd (record_op (cp_srcId (sp_cache sp c)) r)) \<and> cyc \<le> fst r \<and>
    granted sp c (line_of sp a) isLoad (snd (record_op (cp_srcId (sp_cache sp c)) r)))"
proof -
  let ?v = "line_of sp a"
  let ?idx = "filter_index (sys_cfg sp c) ?v"
  let ?e = "filter_of c s ! ?idx"
  have load: "f (sp_lineBits sp) 1 (sys_cfg sp) (dramsim3_mem lineBits domn) c a cyc s =
      (if ?v = (if isLoad then rdAddr else wrAddr) ?e then Inr (max cyc (availCycle ?e), s)
       else filter_replace 1 (sys_cfg sp) (dramsim3_mem lineBits domn) c ?v ?idx isLoad cyc s)"
    by (simp add: f filter_load_def filter_store_def Let_def line_of_def)
  show ?thesis
  proof (cases "?v = (if isLoad then rdAddr else wrAddr) ?e")
    case True
    have "cp_srcId (sp_cache sp c) < length (recorders s)"
      using cfg s c by (simp add: config_ok_def run_ok_def sys.system_ok_def sys.env_def)
    then have "snd (take_record (cp_srcId (sp_cache sp c)) s) = s" using record_same [of s] s by (simp add: run_ok_def)
    then show ?thesis
      using hit_granted [OF s cfg c a line_not_minus_one [OF cfg] refl True] s
      unfolding load if_P [OF True] by (simp add: record_op_def)
  next
    case False
    show ?thesis unfolding load if_not_P [OF False]
      by (rule succeeds_mono [OF replace_ok [OF cfg s c a refl]]) (auto simp: record_op_def)
  qed
qed

lemma switch_ok:
  assumes "run_ok nsrc sp s" "c < sp_cores sp"
  shows "run_ok nsrc sp (filter_contextSwitch c s)" "\<forall>e\<in>set (filter_of c (filter_contextSwitch c s)). rdAddr e = 0 \<and> wrAddr e = 0"
proof -
  have sh: "sys.shape sp s" using assms(1) sys.cohD(1) by (auto simp: run_ok_def sys.system_ok_def)
  have c: "c \<le> sp_cores sp" using assms(2) by simp
  note fu = sys.filter_upd [OF sh c, of _ "map clear_filter"]
  have "sys.fentry_ok sp k i (upd_filter c (map clear_filter) s) e = sys.fentry_ok sp k i s e" for k i e
    by (simp add: sys.fentry_ok_def)
  moreover have "sys.fentry_ok sp k i s (clear_filter e)" for k i e by (simp add: sys.fentry_ok_def clear_filter_def)
  ultimately have "sys.filters_ok sp {} (upd_filter c (map clear_filter) s)"
    using assms(1) by (auto simp: run_ok_def sys.filters_ok_def fu)
  then show "run_ok nsrc sp (filter_contextSwitch c s)"
    using assms(1) sys.system_ok_filter [OF _ c, of nsrc s "map clear_filter"] by (simp add: run_ok_def filter_contextSwitch_def slots_free_def)
  show "\<forall>e\<in>set (filter_of c (filter_contextSwitch c s)). rdAddr e = 0 \<and> wrAddr e = 0"
    by (simp add: filter_contextSwitch_def fu clear_filter_def)
qed

lemma core_op_step:
  assumes "config_ok nsrc sp" "run_ok nsrc sp s" "core_op_ok sp x"
  shows "succeeds (core_op sp (dramsim3_mem lineBits domn) x s) (\<lambda>r. run_ok nsrc sp (snd r) \<and> op_granted sp x r)"
proof (cases x)
  case (LoadOp c a cyc)
  have "succeeds (filter_load (sp_lineBits sp) 1 (sys_cfg sp) (dramsim3_mem lineBits domn) c a cyc s) (\<lambda>r.
    run_ok nsrc sp (snd (record_op (cp_srcId (sp_cache sp c)) r)) \<and> cyc \<le> fst r \<and>
    granted sp c (line_of sp a) True (snd (record_op (cp_srcId (sp_cache sp c)) r)))"
    by (rule access_granted [OF assms(1,2)]) (use assms(3) LoadOp in simp_all)
  then show ?thesis unfolding LoadOp by (auto simp: record_op_def elim!: succeeds_mono)
next
  case (StoreOp c a cyc)
  have "succeeds (filter_store (sp_lineBits sp) 1 (sys_cfg sp) (dramsim3_mem lineBits domn) c a cyc s) (\<lambda>r.
    run_ok nsrc sp (snd (record_op (cp_srcId (sp_cache sp c)) r)) \<and> cyc \<le> fst r \<and>
    granted sp c (line_of sp a) False (snd (record_op (cp_srcId (sp_cache sp c)) r)))"
    by (rule access_granted [OF assms(1,2)]) (use assms(3) StoreOp in simp_all)
  then show ?thesis unfolding StoreOp by (auto simp: record_op_def elim!: succeeds_mono)
next
  case (SwitchOp c)
  then show ?thesis using switch_ok [OF assms(2)] assms(3) by simp
qed

lemma core_run_ok:
  assumes "config_ok nsrc sp" "run_ok nsrc sp s" "\<forall>x\<in>set xs. core_op_ok sp x"
  shows "succeeds (core_run sp (dramsim3_mem lineBits domn) xs s) (run_ok nsrc sp)"
  using assms(2,3)
proof (induction xs arbitrary: s)
  case (Cons x xs)
  from core_op_step [OF assms(1) Cons.prems(1), of x lineBits domn] Cons.prems(2) obtain r where
    "core_op sp (dramsim3_mem lineBits domn) x s = Inr r" "run_ok nsrc sp (snd r)" by (auto simp: succeeds_iff)
  with Cons.IH [of "snd r"] Cons.prems(2) show ?case by (simp add: case_prod_beta)
qed simp

section \<open>A small system\<close>

text \<open>Two cores with first-level caches of four lines, a shared cache of eight, and a controller with fixed estimates.\<close>

definition tiny_cache :: "nat \<Rightarrow> CacheParams" where
  "tiny_cache c = \<lparr>cp_size = (if c < 2 then 256 else 512), cp_ways = (if c < 2 then 2 else 4), cp_hash = None,
     cp_latency = (if c < 2 then 4 else 8), cp_isLLC = (c = 2), cp_numMems = 1, cp_rttUp = None, cp_rttDown = None,
     cp_srcId = c, cp_reqFlags = 0\<rparr>"

definition tiny :: SysParams where
  "tiny = \<lparr>sp_cores = 2, sp_lineBits = 6, sp_procMask = 0, sp_cache = tiny_cache\<rparr>"

definition tiny_mem :: "unit MemCtrl" where
  "tiny_mem = \<lparr>estimators = [new_est Fixed 100, new_est Fixed 100], wrapper = (), inflightRequests = [], notQueuedRequests = [],
     clock = new_clock 1 2, is_bound_phase = False, mstats = zero_stats, lstFinished = 0, coreTracker = new_tracker,
     completions = []\<rparr>"

definition tiny_slots :: "Recorded option list" where
  "tiny_slots = replicate 2 (Some \<lparr>rc_addr = 0, rc_reqCycle = 0, rc_respCycle = 0, rc_type = GETS, rc_startEvent = None, rc_endEvent = None\<rparr>)"

lemma tiny_boot: "boot_ok tiny tiny_mem tiny_slots"
  by (auto simp: boot_ok_def config_ok_def tiny_def tiny_cache_def tiny_mem_def tiny_slots_def bank_lines_def slot_free_def rc_valid_def
      is_flag_def)

lemma tiny_new: "\<exists>s. new_system tiny tiny_mem tiny_slots = Inr s"
  by (simp add: new_system_def tiny_def tiny_cache_def new_cache_def bank_lines_def sa_new_def isPow2_def Let_def upt_rec)

section \<open>Properties\<close>

text \<open>
  C1: the cache hierarchy is coherent. Cores behind filter caches, which share an inclusive cache in front of
  the DRAMsim3 controller, load, store and switch contexts in any order: no access fails an
  assertion or panics, and after them no line has a writer beside another holder, the shared
  cache holds every line of the first level with at least its permission, the directory counts
  exactly the holders, and the filters let through only what their caches permit.
\<close>

theorem hierarchy_coherent:
  assumes "boot_ok sp m rs" "new_system sp m rs = Inr s" "\<forall>x\<in>set xs. core_op_ok sp x"
  shows "succeeds (core_run sp (dramsim3_mem lineBits domn) xs s)
    (\<lambda>s'. swmr sp s' \<and> inclusive sp s' \<and> directory_exact sp s' \<and> filters_coherent sp s')"
proof -
  have "config_ok (length rs) sp" using assms(1) by (simp add: boot_ok_def)
  from core_run_ok [OF this boot [OF assms(1,2)] assms(3), of lineBits domn] show ?thesis
  proof (rule succeeds_mono)
    fix t assume "run_ok (length rs) sp t"
    then have "sys.system_ok (length rs) sp t" "sys.filters_ok sp {} t" by (simp_all add: run_ok_def)
    then show "swmr sp t \<and> inclusive sp t \<and> directory_exact sp t \<and> filters_coherent sp t"
      using system_facts filters_facts by blast
  qed
qed

theorem hierarchy_coherent_witness:
  "\<exists>s s'. new_system tiny tiny_mem tiny_slots = Inr s \<and>
     core_run tiny (dramsim3_mem 6 0) [StoreOp 0 0x1000 5, LoadOp 1 0x1008 9, SwitchOp 0, StoreOp 1 0x1010 200] s = Inr s' \<and>
     swmr tiny s' \<and> inclusive tiny s' \<and> directory_exact tiny s' \<and> filters_coherent tiny s'"
proof -
  obtain s where s: "new_system tiny tiny_mem tiny_slots = Inr s" using tiny_new by blast
  have "succeeds (core_run tiny (dramsim3_mem 6 0) [StoreOp 0 0x1000 5, LoadOp 1 0x1008 9, SwitchOp 0, StoreOp 1 0x1010 200] s)
    (\<lambda>s'. swmr tiny s' \<and> inclusive tiny s' \<and> directory_exact tiny s' \<and> filters_coherent tiny s')"
    by (rule hierarchy_coherent [OF tiny_boot s]) (simp add: tiny_def line_of_def)
  with s show ?thesis by (auto simp: succeeds_iff)
qed

text \<open>
  C7: an access leaves the permission it is for, whether it hits the filter or not and whatever
  happened before: after a load the line is valid in the core's cache, after a store it is modified
  there and no other first-level cache holds it, and the answer is not earlier than the request.
\<close>

theorem access_gets_permission:
  assumes "boot_ok sp m rs" "new_system sp m rs = Inr s" "\<forall>x\<in>set xs. core_op_ok sp x"
    and "core_run sp (dramsim3_mem lineBits domn) xs s = Inr s1" "c < sp_cores sp" "line_of sp a \<noteq> 0"
  shows "succeeds (core_op sp (dramsim3_mem lineBits domn) (LoadOp c a cyc) s1) (\<lambda>(resp, s2). cyc \<le> resp \<and>
      line_state c s2 (sp_procMask sp OR line_of sp a) \<noteq> I) \<and>
    succeeds (core_op sp (dramsim3_mem lineBits domn) (StoreOp c a cyc) s1) (\<lambda>(resp, s2). cyc \<le> resp \<and>
      line_state c s2 (sp_procMask sp OR line_of sp a) = M \<and>
      (\<forall>j < sp_cores sp. j \<noteq> c \<longrightarrow> line_state j s2 (sp_procMask sp OR line_of sp a) = I))"
proof -
  have cfg: "config_ok (length rs) sp" using assms(1) by (simp add: boot_ok_def)
  have ok: "run_ok (length rs) sp s1"
    using core_run_ok [OF cfg boot [OF assms(1,2)] assms(3), of lineBits domn] assms(4) by simp
  have step: "succeeds (core_op sp (dramsim3_mem lineBits domn) x s1) (\<lambda>r. run_ok (length rs) sp (snd r) \<and> op_granted sp x r)"
    if "core_op_ok sp x" for x by (rule core_op_step [OF cfg ok that])
  have alone: "\<forall>j < sp_cores sp. j \<noteq> c \<longrightarrow> line_state j t b = I" if "run_ok (length rs) sp t" "line_state c t b = M"
    for t :: "'a MemCtrl sys" and b
  proof -
    have "swmr sp t" using that(1) by (intro system_facts(1) [of "length rs"]) (simp add: run_ok_def)
    then show ?thesis using that(2) assms(5) unfolding swmr_def by blast
  qed
  show ?thesis
    using step [of "LoadOp c a cyc"] step [of "StoreOp c a cyc"] assms(5,6) alone
    by (auto simp del: core_op.simps simp: granted_def elim!: succeeds_mono)
qed

theorem access_gets_permission_witness:
  "\<exists>s s1 s2 resp. new_system tiny tiny_mem tiny_slots = Inr s \<and> core_run tiny (dramsim3_mem 6 0) [LoadOp 1 0x1000 5] s = Inr s1 \<and>
     core_op tiny (dramsim3_mem 6 0) (StoreOp 0 0x1000 9) s1 = Inr (resp, s2) \<and>
     line_state 0 s2 0x40 = M \<and> line_state 1 s2 0x40 = I"
proof -
  obtain s where s: "new_system tiny tiny_mem tiny_slots = Inr s" using tiny_new by blast
  have x: "\<forall>x\<in>set [LoadOp 1 0x1000 5]. core_op_ok tiny x" by (simp add: tiny_def line_of_def)
  have c: "0 < sp_cores tiny" "line_of tiny 0x1000 = 0x40" "sp_procMask tiny = 0" by (simp_all add: tiny_def line_of_def)
  have "config_ok (length tiny_slots) tiny" using tiny_boot by (simp add: boot_ok_def)
  from core_run_ok [OF this boot [OF tiny_boot s] x, of 6 0] obtain s1 where
    s1: "core_run tiny (dramsim3_mem 6 0) [LoadOp 1 0x1000 5] s = Inr s1" by (auto simp: succeeds_iff)
  from access_gets_permission [OF tiny_boot s x s1 c(1), of "0x1000" 9] obtain resp s2 where
    "core_op tiny (dramsim3_mem 6 0) (StoreOp 0 0x1000 9) s1 = Inr (resp, s2)" "line_state 0 s2 0x40 = M"
    "\<forall>j < sp_cores tiny. j \<noteq> 0 \<longrightarrow> line_state j s2 0x40 = I" unfolding c(2,3) by (auto simp: succeeds_iff simp del: core_op.simps)
  then show ?thesis using s s1 by (auto simp: tiny_def)
qed

end
