(* ===== verification/Event_Paths.thy ===== *)
theory Event_Paths
  imports Timing_Events
begin

text \<open>
  Paths in the event graph. An acyclic graph has a ranking no deeper than its events, so every link
  that closes no cycle keeps the invariant. In a simulation where no event ends before the time it
  takes without contention, the delay that contention has added never shrinks along a path.
\<close>

section \<open>Edges\<close>

definition edges :: "Weave \<Rightarrow> (nat \<times> nat) set" where
  "edges w = {(p, c). p < length (events w) \<and> c \<in> set (visit (events w ! p))}"

lemma edges_iff: "(p, c) \<in> edges w \<longleftrightarrow> p < length (events w) \<and> c \<in> set (visit (events w ! p))"
  by (simp add: edges_def)

lemma edges_same: "same_graph w w' \<Longrightarrow> edges w' = edges w"
  by (auto simp: edges_def same_graphD)

lemma edges_range: "wv_inv pend w \<Longrightarrow> edges w \<subseteq> {..<length (events w)} \<times> {..<length (events w)}"
  using wv_invD(1) by (fastforce simp: edges_def)

lemma edges_queued [simp]: "edges (w\<lparr>queued := q\<rparr>) = edges w"
  by (simp add: edges_def)

lemma edges_upd [simp]: "(\<And>e. visit (f e) = visit e) \<Longrightarrow> edges (upd_event i f w) = edges w"
  by (auto simp: edges_def upd_event_def nth_upd split: if_splits)

lemma edges_alloc: "visit e = [] \<Longrightarrow> edges (snd (alloc e w)) = edges w"
  by (auto simp: edges_def alloc_def nth_append less_Suc_eq)

text \<open>The number of ancestors of an event ranks an acyclic graph.\<close>

definition depth :: "Weave \<Rightarrow> nat \<Rightarrow> nat" where
  "depth w c = card {p. (p, c) \<in> (edges w)\<^sup>+}"

lemma ancestors_range:
  assumes "edges w \<subseteq> {..<n} \<times> {..<n}"
  shows "{p. (p, c) \<in> (edges w)\<^sup>+} \<subseteq> {..<n}"
proof -
  have "p < n" if "(p, c) \<in> (edges w)\<^sup>+" for p
    using tranclD [OF that] assms by auto
  then show ?thesis by auto
qed

lemma acyclic_ranked:
  assumes "acyclic (edges w)" "edges w \<subseteq> {..<length (events w)} \<times> {..<length (events w)}"
  shows "ranked (depth w) w" "\<forall>p<length (events w). depth w p < length (events w)"
proof -
  let ?A = "\<lambda>c. {p. (p, c) \<in> (edges w)\<^sup>+}"
  have fin: "finite (?A c)" for c
    using ancestors_range [OF assms(2)] finite_subset by blast
  show "ranked (depth w) w"
    unfolding ranked_def depth_def
  proof (intro allI impI ballI psubset_card_mono [OF fin])
    fix p c assume "p < length (events w)" "c \<in> set (visit (events w ! p))"
    then have e: "(p, c) \<in> edges w" by (simp add: edges_iff)
    moreover have "(p, p) \<notin> (edges w)\<^sup>+" using assms(1) by (simp add: acyclic_def)
    ultimately show "?A p \<subset> ?A c" by (auto intro: trancl_into_trancl)
  qed
  show "\<forall>p<length (events w). depth w p < length (events w)"
  proof (intro allI impI)
    fix p assume p: "p < length (events w)"
    have "?A p \<subseteq> {..<length (events w)} - {p}"
      using ancestors_range [OF assms(2)] assms(1) by (auto simp: acyclic_def)
    then have "card (?A p) \<le> card ({..<length (events w)} - {p})" by (intro card_mono) simp_all
    then show "depth w p < length (events w)" using p by (simp add: depth_def)
  qed
qed

section \<open>Links\<close>

definition linked :: "nat \<Rightarrow> nat \<Rightarrow> Weave \<Rightarrow> Weave" where
  "linked p c w = upd_event c (te_numParents_update Suc) (upd_event p (push_child c) w)"

lemma length_linked [simp]: "length (events (linked p c w)) = length (events w)"
  by (simp add: linked_def)

lemma edges_linked:
  assumes "p < length (events w)"
  shows "edges (linked p c w) = insert (p, c) (edges w)"
proof -
  have "edges (linked p c w) = edges (upd_event p (push_child c) w)"
    unfolding linked_def by (rule edges_upd) simp
  also have "\<dots> = insert (p, c) (edges w)"
    using assms by (auto simp: edges_def nth_upd_event split: if_splits)
  finally show ?thesis .
qed

text \<open>A link between two events of the graph that closes no cycle succeeds.\<close>

lemma addChild_links:
  assumes inv: "wv_inv pend w" and pc: "p < length (events w)" "c < length (events w)"
    and st: "te_state (events w ! p) \<in> {EV_NONE, EV_QUEUED}" "te_state (events w ! c) = EV_NONE"
    and ac: "acyclic (insert (p, c) (edges w))"
  shows "succeeds (addChild p c w) (\<lambda>(r, w'). r = c \<and> wv_inv pend w' \<and> (\<exists>d. domains_set d (linked p c w) w'))"
proof -
  let ?w1 = "upd_event p (push_child c) w"
  note iv = wv_invD [OF inv]
  have n: "events ?w1 ! j = (if j = p then push_child c (events w ! p) else events w ! j)" for j
    using pc(1) by (simp add: nth_upd_event)
  have e1: "edges ?w1 = insert (p, c) (edges w)"
    using pc(1) by (auto simp: edges_def nth_upd_event split: if_splits)
  have r1: "edges ?w1 \<subseteq> {..<length (events ?w1)} \<times> {..<length (events ?w1)}"
    unfolding e1 using edges_range [OF inv] pc by auto
  note rk = acyclic_ranked [OF ac [folded e1] r1]
  have v1: "\<forall>q<length (events ?w1). set (visit (events ?w1 ! q)) \<subseteq> {..<length (events ?w1)}"
    using iv(1) pc by (auto simp: n)
  let ?r = "if te_domain (events ?w1 ! p) \<noteq> - 1 \<and> te_domain (events ?w1 ! c) = - 1
    then propagateDomain (Suc (length (events ?w1))) (te_domain (events ?w1 ! p)) c ?w1 else Inr ?w1"
  have "succeeds ?r (domains_set (te_domain (events ?w1 ! p)) ?w1)"
    using propagateDomain_ok [OF rk(1) v1, of c "length (events w)" "Suc (length (events w))"] pc rk(2) by simp
  then obtain w2 where w2: "?r = Inr w2" "domains_set (te_domain (events ?w1 ! p)) ?w1 w2"
    by (auto simp: succeeds_iff simp del: if_splits)
  let ?w3 = "upd_event c (te_numParents_update Suc) w2"
  have d: "domains_set (te_domain (events ?w1 ! p)) (linked p c w) ?w3"
    using w2(2) pc by (auto simp: linked_def domains_set_def upd_event_def nth_list_update)
  have "wv_inv pend (linked p c w)"
    unfolding linked_def by (rule link_inv [OF inv pc]) (use st in auto)
  then have "wv_inv pend ?w3" using d by (rule inv_domains)
  moreover have "addChild p c w = Inr (c, ?w3)" using st w2(1) by (auto simp: addChild_def Let_def)
  ultimately show ?thesis using d by auto
qed

section \<open>Ancestors of an event that runs\<close>

text \<open>An event with no parents left has only finished ancestors.\<close>

lemma parents_done:
  assumes "wv_inv {#} w" "(p, c) \<in> edges w" "te_numParents (events w ! c) = 0"
  shows "te_state (events w ! p) = EV_DONE"
proof -
  have c: "c < length (events w)" using edges_range [OF assms(1)] assms(2) by auto
  show ?thesis
    using waiting_iff [OF assms(1) c] assms(2,3) by (auto simp: edges_iff)
qed

lemma done_zero: "wv_inv pend w \<Longrightarrow> c < length (events w) \<Longrightarrow> te_state (events w ! c) \<noteq> EV_NONE \<Longrightarrow>
    te_numParents (events w ! c) = 0"
  using wv_invD(3) by (metis neq0_conv)

lemma ancestors_done:
  assumes inv: "wv_inv {#} w" and "(p, c) \<in> (edges w)\<^sup>+" "te_numParents (events w ! c) = 0"
  shows "te_state (events w ! p) = EV_DONE"
  using assms(2,3)
proof (induction rule: converse_trancl_induct)
  case (base p)
  then show ?case by (rule parents_done [OF inv])
next
  case (step p q)
  have "q < length (events w)" using edges_range [OF inv] step.hyps(1) by auto
  then have "te_numParents (events w ! q) = 0" using done_zero [OF inv] step.IH step.prems by simp
  then show ?case by (rule parents_done [OF inv step.hyps(1)])
qed

section \<open>Zero-load time\<close>

text \<open>
  \<open>lat\<close> is the least number of cycles between the moment an event is ready and its end; a delay event
  ends at once. \<open>timely\<close> says that no finished event was faster.
\<close>

definition ready :: "Weave \<Rightarrow> nat \<Rightarrow> nat" where
  "ready w i = te_cycle (events w ! i) + te_preDelay (events w ! i)"

definition timely :: "(nat \<Rightarrow> nat) \<Rightarrow> Weave \<Rightarrow> bool" where
  "timely lat w \<longleftrightarrow> (\<forall>p<length (events w). te_kind (events w ! p) = DelayEv \<longrightarrow> lat p = 0) \<and>
     (\<forall>(p, f)\<in>set (finished w). ready w p + lat p \<le> f)"

text \<open>
  A zero-load schedule gives every event a start that its parents allow when nothing is contended.
\<close>

definition zero_load :: "(nat \<Rightarrow> int) \<Rightarrow> (nat \<Rightarrow> nat) \<Rightarrow> Weave \<Rightarrow> bool" where
  "zero_load st lat w \<longleftrightarrow> (\<forall>(p, c)\<in>edges w.
     st c \<le> st p + int (lat p + te_postDelay (events w ! p) + te_preDelay (events w ! c)))"

lemma zero_loadD: "zero_load st lat w \<Longrightarrow> (p, c) \<in> edges w \<Longrightarrow>
    st c \<le> st p + int (lat p + te_postDelay (events w ! p) + te_preDelay (events w ! c))"
  by (auto simp: zero_load_def)

lemma edge_slack:
  assumes inv: "wv_inv {#} w" and z: "zero_load st lat w" and e: "(p, c) \<in> edges w" and f: "(p, f) \<in> set (finished w)"
  shows "int f - int (lat p) - st p \<le> int (ready w c) - st c"
proof -
  have c: "c < length (events w)" using edges_range [OF inv] e by auto
  have "f + te_postDelay (events w ! p) \<in> contrib w c" using e f by (auto simp: contrib_def edges_iff)
  then have "f + te_postDelay (events w ! p) \<le> te_cycle (events w ! c)" using wv_invD(7) [OF inv c] by simp
  with zero_loadD [OF z e] show ?thesis by (simp add: ready_def)
qed

text \<open>Along a path to an event that is ready, contention never becomes less.\<close>

lemma path_slack:
  assumes inv: "wv_inv {#} w" and z: "zero_load st lat w" and t: "timely lat w"
    and "(p, c) \<in> (edges w)\<^sup>+" "te_numParents (events w ! c) = 0" "(p, f) \<in> set (finished w)"
  shows "int f - int (lat p) - st p \<le> int (ready w c) - st c"
  using assms(4-6)
proof (induction arbitrary: f rule: converse_trancl_induct)
  case (base p)
  then show ?case by (intro edge_slack [OF inv z])
next
  case (step p q)
  have "q < length (events w)" using edges_range [OF inv] step.hyps(1) by auto
  moreover have "te_state (events w ! q) = EV_DONE"
    by (rule ancestors_done [OF inv step.hyps(2) step.prems(1)])
  ultimately have "q \<in> fst ` set (finished w)" by (simp add: wv_invD(5) [OF inv])
  then obtain g where g: "(q, g) \<in> set (finished w)" by force
  have "ready w q + lat q \<le> g" using t g by (auto simp: timely_def)
  moreover have "int f - int (lat p) - st p \<le> int (ready w q) - st q"
    by (rule edge_slack [OF inv z step.hyps(1) step.prems(2)])
  ultimately show ?case using step.IH [OF step.prems(1) g] by simp
qed

section \<open>The graph between two steps\<close>

text \<open>
  Every entry of the queue belongs to an event in state \<open>EV_QUEUED\<close>, once, and not before the event is
  ready.
\<close>

definition queue_ok :: "Weave \<Rightarrow> bool" where
  "queue_ok w \<longleftrightarrow> distinct (map fst (queued w)) \<and>
     (\<forall>(i, c)\<in>set (queued w). i < length (events w) \<and> te_state (events w ! i) = EV_QUEUED \<and> ready w i \<le> c)"

definition flow_ok :: "(nat \<Rightarrow> int) \<Rightarrow> (nat \<Rightarrow> nat) \<Rightarrow> Weave \<Rightarrow> bool" where
  "flow_ok st lat w \<longleftrightarrow> wv_inv {#} w \<and> acyclic (edges w) \<and> queue_ok w \<and> timely lat w \<and> zero_load st lat w"

lemma flow_okD:
  assumes "flow_ok st lat w"
  shows "wv_inv {#} w" "acyclic (edges w)" "queue_ok w" "timely lat w" "zero_load st lat w"
  using assms by (simp_all add: flow_ok_def)

lemma queue_okD: "queue_ok w \<Longrightarrow> (i, c) \<in> set (queued w) \<Longrightarrow>
    i < length (events w) \<and> te_state (events w ! i) = EV_QUEUED \<and> ready w i \<le> c"
  by (auto simp: queue_ok_def)

text \<open>
  What the end of an event \<open>i\<close> at \<open>t\<close> leaves as it was: the graph, the queue but for new entries, and
  every other queued event, unless it is waiting and becomes queued.
\<close>

definition moves :: "Weave \<Rightarrow> Weave \<Rightarrow> bool" where
  "moves w w' \<longleftrightarrow> same_graph w w' \<and> set (queued w) \<subseteq> set (queued w') \<and> set (finished w) \<subseteq> set (finished w')"

definition waits_or_stays :: "nat \<Rightarrow> Weave \<Rightarrow> Weave \<Rightarrow> bool" where
  "waits_or_stays i w w' \<longleftrightarrow> (\<forall>x<length (events w). x \<noteq> i \<and> te_kind (events w ! x) = QueuedEv \<longrightarrow>
     te_state (events w' ! x) = te_state (events w ! x) \<or>
     te_state (events w ! x) = EV_NONE \<and> te_state (events w' ! x) = EV_QUEUED)"

definition ends_only :: "nat \<Rightarrow> nat \<Rightarrow> Weave \<Rightarrow> Weave \<Rightarrow> bool" where
  "ends_only i t w w' \<longleftrightarrow> te_state (events w' ! i) = EV_DONE \<and> (i, t) \<in> set (finished w') \<and>
     (\<forall>(x, f)\<in>set (finished w'). te_kind (events w ! x) = QueuedEv \<longrightarrow> (x, f) = (i, t) \<or> (x, f) \<in> set (finished w))"

lemma ready_same: "same_graph w w' \<Longrightarrow> x < length (events w) \<Longrightarrow> te_cycle (events w' ! x) = te_cycle (events w ! x) \<Longrightarrow>
    ready w' x = ready w x"
  by (simp add: ready_def same_graphD)

lemma zero_load_same:
  assumes "same_graph w w'" "wv_inv pend w"
  shows "zero_load st lat w' = zero_load st lat w"
proof -
  have "(p, c) \<in> edges w \<Longrightarrow> te_postDelay (events w' ! p) = te_postDelay (events w ! p) \<and>
      te_preDelay (events w' ! c) = te_preDelay (events w ! c)" for p c
    using edges_range [OF assms(2)] same_graphD(4,5) [OF assms(1)] by auto
  then show ?thesis by (auto simp: zero_load_def edges_same [OF assms(1)])
qed

lemma done_flow:
  assumes fl: "flow_ok st lat w" and i: "i < length (events w)" and st: "te_state (events w ! i) = EV_RUNNING"
    and t: "ready w i + lat i \<le> t"
  shows "succeeds (ev_done (length (events w)) i t w) (\<lambda>w'. flow_ok st lat w' \<and> moves w w' \<and>
     waits_or_stays i w w' \<and> ends_only i t w w')"
proof -
  note F = flow_okD [OF fl]
  note rk = acyclic_ranked [OF F(2) edges_range [OF F(1)]]
  have "succeeds (ev_done (length (events w)) i t w) (step_ok {(i, t)} {#} t w)"
    using rk by (intro ev_done_ok [OF F(1) rk(1) i st, where K = "length (events w)"]) auto
  then show ?thesis
  proof (rule succeeds_mono)
    fix w' assume u: "step_ok {(i, t)} {#} t w w'"
    note U = step_okD [OF u]
    obtain new where new: "queued w' = queued w @ new" "distinct (map fst new)"
      "\<And>q. q \<in> set new \<Longrightarrow> woken w w' (fst q) \<and> fired w' q \<and> t \<le> snd q"
      "\<And>x. woken w w' x \<Longrightarrow> if te_kind (events w ! x) = QueuedEv then x \<in> fst ` set new else te_state (events w' ! x) = EV_DONE"
      by (rule step_ok_new [OF u]) blast
    have len: "length (events w') = length (events w)" by (rule same_graphD(1) [OF U(2)])
    have ei: "events w' ! i = (events w ! i)\<lparr>te_state := EV_DONE\<rparr>" using U(5) i by simp
    have unch: "x < length (events w) \<Longrightarrow> x \<noteq> i \<Longrightarrow> te_numParents (events w ! x) = 0 \<Longrightarrow> events w' ! x = events w ! x" for x
      using U(4) by simp
    have cyc: "te_cycle (events w' ! x) = te_cycle (events w ! x)" if "x < length (events w)" "te_numParents (events w ! x) = 0" for x
      using unch [OF that(1) _ that(2)] ei by (cases "x = i") simp_all
    have en: "set (finished w) \<subseteq> set (finished w')" "(i, t) \<in> set (finished w')"
      "q \<in> set (finished w') \<Longrightarrow> q \<in> set (finished w) \<or> q = (i, t) \<or> ready_end w' q" for q
      using U(3) by (auto simp: ends_def)
    have "queue_ok w'"
      unfolding queue_ok_def
    proof (intro conjI ballI)
      have "fst q \<notin> fst ` set (queued w)" if "q \<in> set new" for q
      proof
        assume "fst q \<in> fst ` set (queued w)"
        then have "te_state (events w ! fst q) = EV_QUEUED" using F(3) by (force simp: queue_ok_def)
        moreover have "0 < te_numParents (events w ! fst q)" "fst q < length (events w)"
          using new(3) [OF that] by (simp_all add: woken_def)
        ultimately show False using wv_invD(3) [OF F(1)] by simp
      qed
      then have "\<forall>x\<in>fst ` set new. x \<notin> fst ` set (queued w)" by (metis imageE)
      then have "fst ` set (queued w) \<inter> fst ` set new = {}" by (metis disjoint_iff)
      then show "distinct (map fst (queued w'))"
        using new(1,2) F(3) by (simp add: queue_ok_def)
      fix q assume q: "q \<in> set (queued w')"
      obtain x c where qx: "q = (x, c)" by (cases q)
      show "case q of (x, c) \<Rightarrow> x < length (events w') \<and> te_state (events w' ! x) = EV_QUEUED \<and> ready w' x \<le> c"
      proof (cases "q \<in> set new")
        case True
        from new(3) [OF True] show ?thesis by (auto simp: qx woken_def fired_def ready_def len)
      next
        case False
        with q new(1) have o: "x < length (events w)" "te_state (events w ! x) = EV_QUEUED" "ready w x \<le> c"
          using queue_okD [OF F(3), of x c] by (simp_all add: qx)
        moreover from o have "te_numParents (events w ! x) = 0" using done_zero [OF F(1)] by simp
        ultimately have "events w' ! x = events w ! x" using unch [of x] st by (cases "x = i") simp_all
        with o show ?thesis by (simp add: qx len ready_def)
      qed
    qed
    moreover have "timely lat w'"
      unfolding timely_def
    proof (intro conjI ballI allI impI)
      fix q assume q: "q \<in> set (finished w')"
      obtain x f where qx: "q = (x, f)" by (cases q)
      from en(3) [OF q] show "case q of (x, f) \<Rightarrow> ready w' x + lat x \<le> f"
      proof (elim disjE)
        assume "q \<in> set (finished w)"
        then have m: "(x, f) \<in> set (finished w)" by (simp add: qx)
        note z = finished_zero [OF F(1) m]
        from F(4) m have "ready w x + lat x \<le> f" by (auto simp: timely_def)
        then show ?thesis by (simp add: qx ready_same [OF U(2) z(1)] cyc [OF z])
      next
        assume "q = (i, t)"
        then show ?thesis using t ready_same [OF U(2) i] ei by simp
      next
        assume e: "ready_end w' q"
        have x: "x < length (events w)"
          using finished_zero(1) [OF U(1), of x f] q by (simp add: qx len)
        have "lat x = 0" using F(4) e x same_graphD(3) [OF U(2) x] by (simp add: timely_def ready_end_def qx)
        then show ?thesis using e by (simp add: qx ready_end_def ready_def)
      qed
    qed (use F(4) same_graphD(3) [OF U(2)] len in \<open>simp add: timely_def\<close>)
    ultimately have "flow_ok st lat w'"
      using U(1,2) F(2,5) zero_load_same [OF U(2) F(1)] edges_same [OF U(2)] by (simp add: flow_ok_def)
    moreover have "moves w w'" using U(2) new(1) en(1) by (simp add: moves_def)
    moreover have "waits_or_stays i w w'"
      unfolding waits_or_stays_def
    proof (intro allI impI)
      fix x assume x: "x < length (events w)" "x \<noteq> i \<and> te_kind (events w ! x) = QueuedEv"
      show "te_state (events w' ! x) = te_state (events w ! x) \<or>
          te_state (events w ! x) = EV_NONE \<and> te_state (events w' ! x) = EV_QUEUED"
      proof (cases "te_numParents (events w ! x) = 0")
        case True
        with x unch [of x] show ?thesis by simp
      next
        case False
        then have n: "te_state (events w ! x) = EV_NONE" using wv_invD(3) [OF F(1) x(1)] by simp
        show ?thesis
        proof (cases "te_numParents (events w' ! x) = 0")
          case True
          then have "woken w w' x" using False x(1) by (simp add: woken_def)
          then obtain q where "q \<in> set new" "fst q = x" using new(4) [of x] x(2) by auto
          then show ?thesis using new(3) [of q] n by (simp add: fired_def)
        next
          case False
          then show ?thesis using wv_invD(3) [OF U(1), of x] x(1) len n by simp
        qed
      qed
    qed
    moreover have "ends_only i t w w'"
    proof -
      have "te_kind (events w ! x) \<noteq> QueuedEv" if "(x, f) \<in> set (finished w')" "ready_end w' (x, f)" for x f
        using that finished_zero(1) [OF U(1) that(1)] same_graphD(3) [OF U(2), of x] len by (simp add: ready_end_def)
      then have "(x, f) = (i, t) \<or> (x, f) \<in> set (finished w)"
        if "(x, f) \<in> set (finished w')" "te_kind (events w ! x) = QueuedEv" for x f
        using en(3) [OF that(1)] that by blast
      then show ?thesis using en(2) ei by (auto simp: ends_only_def simp del: prod.inject)
    qed
    ultimately show "flow_ok st lat w' \<and> moves w w' \<and> waits_or_stays i w w' \<and> ends_only i t w w'" by simp
  qed
qed

text \<open>State changes of an event without parents that do not end it.\<close>

lemma upd_state_flow:
  assumes fl: "flow_ok st lat w" and i: "i < length (events w)" and np: "te_numParents (events w ! i) = 0"
    and s: "te_state (events w ! i) \<noteq> EV_DONE" "s \<noteq> EV_DONE"
    and q: "distinct (map fst qs)" "\<And>x c. (x, c) \<in> set qs \<Longrightarrow> x = i \<and> s = EV_QUEUED \<and> ready w i \<le> c \<or>
      x \<noteq> i \<and> (x, c) \<in> set (queued w)"
  shows "flow_ok st lat ((upd_event i (te_state_update (\<lambda>_. s)) w)\<lparr>queued := qs\<rparr>)"
proof -
  note F = flow_okD [OF fl]
  let ?w = "upd_event i (te_state_update (\<lambda>_. s)) w"
  have sg: "same_graph w ?w" by (rule same_graph_upd [OF i]) (simp add: static_def)
  have n: "events ?w ! x = (if x = i then (events w ! i)\<lparr>te_state := s\<rparr> else events w ! x)" for x
    using i by (simp add: nth_upd_event)
  have r: "ready ?w x = ready w x" for x by (simp add: ready_def n)
  have "wv_inv {#} ?w" by (rule state_inv [OF F(1) i np s])
  moreover have "timely lat ?w" using F(4) i by (auto simp: timely_def r n)
  moreover have "queue_ok (?w\<lparr>queued := qs\<rparr>)"
    unfolding queue_ok_def
  proof (intro conjI ballI)
    fix y assume y: "y \<in> set (queued (?w\<lparr>queued := qs\<rparr>))"
    obtain x c where xc: "y = (x, c)" by (cases y)
    show "case y of (x, c) \<Rightarrow> x < length (events (?w\<lparr>queued := qs\<rparr>)) \<and>
        te_state (events (?w\<lparr>queued := qs\<rparr>) ! x) = EV_QUEUED \<and> ready (?w\<lparr>queued := qs\<rparr>) x \<le> c"
      using q(2) [of x c] y queue_okD [OF F(3), of x c] i r [of x] by (auto simp: xc n ready_def)
  qed (use q(1) in simp)
  ultimately show ?thesis
    using F(2,5) zero_load_same [OF sg F(1)] edges_same [OF sg]
    by (simp add: flow_ok_def timely_def zero_load_def ready_def)
qed

section \<open>The graph grows\<close>

text \<open>What an event is apart from its children and its domain.\<close>

definition sig :: "TimingEvent \<Rightarrow> EvKind \<times> EventState \<times> nat \<times> nat \<times> nat \<times> nat" where
  "sig e = (te_kind e, te_state e, te_cycle e, te_minStart e, te_preDelay e, te_postDelay e)"

lemma sigD:
  assumes "sig e' = sig e"
  shows "te_kind e' = te_kind e" "te_state e' = te_state e" "te_cycle e' = te_cycle e"
    "te_minStart e' = te_minStart e" "te_preDelay e' = te_preDelay e" "te_postDelay e' = te_postDelay e"
  using assms by (simp_all add: sig_def)

definition grown :: "Weave \<Rightarrow> Weave \<Rightarrow> bool" where
  "grown w w' \<longleftrightarrow> length (events w) \<le> length (events w') \<and> queued w' = queued w \<and> finished w' = finished w \<and>
     edges w \<subseteq> edges w' \<and> (\<forall>i<length (events w). sig (events w' ! i) = sig (events w ! i))"

lemma grownD:
  assumes "grown w w'"
  shows "length (events w) \<le> length (events w')" "queued w' = queued w" "finished w' = finished w" "edges w \<subseteq> edges w'"
    and "i < length (events w) \<Longrightarrow> sig (events w' ! i) = sig (events w ! i)"
  using assms by (simp_all add: grown_def)

lemma grown_refl [simp]: "grown w w"
  by (simp add: grown_def)

lemma grown_trans: "grown u v \<Longrightarrow> grown v w \<Longrightarrow> grown u w"
  unfolding grown_def by (metis order_trans less_le_trans)

lemma grown_trancl: "grown w w' \<Longrightarrow> (p, c) \<in> (edges w)\<^sup>+ \<Longrightarrow> (p, c) \<in> (edges w')\<^sup>+"
  using trancl_mono grownD(4) by blast

lemma grown_rtrancl: "grown w w' \<Longrightarrow> (p, c) \<in> (edges w)\<^sup>* \<Longrightarrow> (p, c) \<in> (edges w')\<^sup>*"
  using rtrancl_mono grownD(4) by blast

lemma alloc_flow:
  assumes fl: "flow_ok st lat w" and e: "visit e = []" "te_numParents e = 0" "te_cycle e = 0" "te_state e = EV_NONE"
    and l: "te_kind e = DelayEv \<Longrightarrow> lat (length (events w)) = 0"
  shows "flow_ok st lat (snd (alloc e w))" "grown w (snd (alloc e w))"
    "events (snd (alloc e w)) ! length (events w) = e" "fst (alloc e w) = length (events w)"
    "edges (snd (alloc e w)) = edges w" "length (events (snd (alloc e w))) = Suc (length (events w))"
proof -
  note F = flow_okD [OF fl]
  let ?w = "snd (alloc e w)"
  have n: "events ?w = events w @ [e]" "queued ?w = queued w" "finished ?w = finished w" by (simp_all add: alloc_def)
  have ed: "edges ?w = edges w" by (rule edges_alloc [OF e(1)])
  have r: "x < length (events w) \<Longrightarrow> events ?w ! x = events w ! x" for x by (simp add: n nth_append)
  have lt: "(p, f) \<in> set (finished w) \<Longrightarrow> p < length (events w)" for p f by (rule finished_zero(1) [OF F(1)])
  have "wv_inv {#} ?w" by (rule alloc_inv [OF F(1) e(1-3)]) (simp add: e(4))
  moreover have "queue_ok ?w"
    unfolding queue_ok_def n(2) using F(3) r by (auto simp: queue_ok_def n(1) ready_def nth_append)
  moreover have "timely lat ?w"
    unfolding timely_def n(3) using F(4) lt l by (auto simp: timely_def n(1) ready_def nth_append less_Suc_eq)
  moreover have "zero_load st lat ?w"
    unfolding zero_load_def ed
  proof (clarify)
    fix p c assume pc: "(p, c) \<in> edges w"
    then have "p < length (events w)" "c < length (events w)" using edges_range [OF F(1)] by auto
    then show "st c \<le> st p + int (lat p + te_postDelay (events ?w ! p) + te_preDelay (events ?w ! c))"
      using zero_loadD [OF F(5) pc] by (simp add: r)
  qed
  ultimately show "flow_ok st lat ?w" using F(2) by (simp add: flow_ok_def ed)
  show "grown w ?w" by (simp add: grown_def n nth_append ed)
  show "events ?w ! length (events w) = e" "fst (alloc e w) = length (events w)" "edges ?w = edges w"
    "length (events ?w) = Suc (length (events w))"
    using ed by (simp_all add: n alloc_def)
qed

lemma set_min_flow:
  assumes "flow_ok st lat w" "i < length (events w)"
  shows "flow_ok st lat (setMinStartCycle i c w)" "edges (setMinStartCycle i c w) = edges w"
proof -
  let ?w = "setMinStartCycle i c w"
  note F = flow_okD [OF assms(1)]
  have n: "events ?w ! x = (if x = i then (events w ! i)\<lparr>te_minStart := c\<rparr> else events w ! x)" for x
    using assms(2) by (simp add: setMinStartCycle_def nth_upd_event)
  have l: "length (events ?w) = length (events w)" "queued ?w = queued w" "finished ?w = finished w"
    by (simp_all add: setMinStartCycle_def)
  show ed: "edges ?w = edges w" by (simp add: setMinStartCycle_def)
  have f: "te_kind (events ?w ! x) = te_kind (events w ! x)" "te_state (events ?w ! x) = te_state (events w ! x)"
    "te_postDelay (events ?w ! x) = te_postDelay (events w ! x)" "te_preDelay (events ?w ! x) = te_preDelay (events w ! x)"
    "ready ?w x = ready w x" for x by (simp_all add: n ready_def)
  have "wv_inv {#} ?w" by (rule set_min_inv [OF F(1) assms(2)])
  then show "flow_ok st lat ?w"
    using F(2-5) by (simp add: flow_ok_def ed queue_ok_def timely_def zero_load_def l f)
qed

text \<open>A new event with its least start, and the link to it.\<close>

definition put_event :: "TimingEvent \<Rightarrow> nat \<Rightarrow> Weave \<Rightarrow> Weave" where
  "put_event e minc w = setMinStartCycle (length (events w)) minc (snd (alloc e w))"

lemma put_event_flow:
  assumes fl: "flow_ok st lat w" and e: "visit e = []" "te_numParents e = 0" "te_cycle e = 0" "te_state e = EV_NONE"
    and l: "te_kind e = DelayEv \<Longrightarrow> lat (length (events w)) = 0"
  shows "flow_ok st lat (put_event e minc w)" "grown w (put_event e minc w)"
    "events (put_event e minc w) ! length (events w) = e\<lparr>te_minStart := minc\<rparr>"
    "edges (put_event e minc w) = edges w" "length (events (put_event e minc w)) = Suc (length (events w))"
proof -
  note A = alloc_flow [OF fl e l]
  have n: "length (events w) < length (events (snd (alloc e w)))" by (simp add: A)
  note M = set_min_flow [OF A(1) n, of minc]
  show "flow_ok st lat (put_event e minc w)" unfolding put_event_def by (rule M(1))
  show ed: "edges (put_event e minc w) = edges w" unfolding put_event_def by (simp add: M(2) A(5))
  show "grown w (put_event e minc w)"
    by (simp add: grown_def ed) (simp add: put_event_def setMinStartCycle_def alloc_def nth_upd_event nth_append)
  show "events (put_event e minc w) ! length (events w) = e\<lparr>te_minStart := minc\<rparr>"
    "length (events (put_event e minc w)) = Suc (length (events w))"
    using n by (simp_all add: put_event_def setMinStartCycle_def alloc_def nth_upd_event)
qed

lemma link_flow:
  assumes fl: "flow_ok st lat w" and pc: "p < length (events w)" "c < length (events w)"
    and s: "te_state (events w ! p) \<in> {EV_NONE, EV_QUEUED}" "te_state (events w ! c) = EV_NONE"
    and ac: "acyclic (insert (p, c) (edges w))"
    and z: "st c \<le> st p + int (lat p + te_postDelay (events w ! p) + te_preDelay (events w ! c))"
  shows "succeeds (addChild p c w) (\<lambda>(r, w'). flow_ok st lat w' \<and> grown w w' \<and> edges w' = insert (p, c) (edges w) \<and>
    length (events w') = length (events w))"
proof -
  note F = flow_okD [OF fl]
  from addChild_links [OF F(1) pc s ac] show ?thesis
  proof (rule succeeds_mono)
    fix x :: "nat \<times> Weave"
    obtain r w' where x: "x = (r, w')" by (cases x)
    assume "case x of (r, w') \<Rightarrow> r = c \<and> wv_inv {#} w' \<and> (\<exists>d. domains_set d (linked p c w) w')"
    then obtain d where w': "wv_inv {#} w'" and d: "domains_set d (linked p c w) w'" by (auto simp: x)
    have l: "length (events w') = length (events w)" "queued w' = queued w" "finished w' = finished w"
      using d by (simp_all add: domains_set_def linked_def)
    have e: "i < length (events w) \<Longrightarrow> events w' ! i = events (linked p c w) ! i \<or>
        events w' ! i = (events (linked p c w) ! i)\<lparr>te_domain := d\<rparr>" for i
      using d by (auto simp: domains_set_def)
    have lk: "sig (events (linked p c w) ! i) = sig (events w ! i)" for i
      using pc by (simp add: linked_def nth_upd_event sig_def)
    have sg: "sig (events w' ! i) = sig (events w ! i)" if "i < length (events w)" for i
      using e [OF that] lk [of i] by (auto simp: sig_def)
    have vs: "i < length (events w) \<Longrightarrow> visit (events w' ! i) = visit (events (linked p c w) ! i)" for i
      using e [of i] by auto
    have "edges w' = edges (linked p c w)" using vs by (auto simp: edges_def l)
    then have ed: "edges w' = insert (p, c) (edges w)" by (simp add: edges_linked [OF pc(1)])
    note S = sigD [OF sg]
    have r: "i < length (events w) \<Longrightarrow> ready w' i = ready w i" for i by (simp add: ready_def S)
    have lt: "(q, f) \<in> set (finished w) \<Longrightarrow> q < length (events w)" for q f by (rule finished_zero(1) [OF F(1)])
    have "queue_ok w'"
      unfolding queue_ok_def l
    proof (intro conjI ballI, goal_cases)
      case (2 q)
      obtain x c where q: "q = (x, c)" by (cases q)
      show ?case using queue_okD [OF F(3), of x c] 2 by (simp add: q S r)
    qed (use F(3) in \<open>simp add: queue_ok_def\<close>)
    moreover have "timely lat w'"
      unfolding timely_def l
    proof (intro conjI ballI, goal_cases)
      case (2 q)
      obtain x f where q: "q = (x, f)" by (cases q)
      show ?case using F(4) 2 lt [of x f] by (auto simp: q r timely_def)
    qed (use F(4) in \<open>simp add: timely_def S\<close>)
    moreover have "zero_load st lat w'"
      unfolding zero_load_def ed
    proof (clarify)
      fix q x assume qx: "(q, x) \<in> insert (p, c) (edges w)"
      then have "q < length (events w)" "x < length (events w)" using edges_range [OF F(1)] pc by auto
      then show "st x \<le> st q + int (lat q + te_postDelay (events w' ! q) + te_preDelay (events w' ! x))"
        using z zero_loadD [OF F(5), of q x] qx by (auto simp: S)
    qed
    ultimately have "flow_ok st lat w'" using w' ac by (simp add: flow_ok_def ed)
    moreover have "grown w w'" using sg by (auto simp: grown_def l ed)
    ultimately show "case x of (r, w') \<Rightarrow> flow_ok st lat w' \<and> grown w w' \<and> edges w' = insert (p, c) (edges w) \<and>
        length (events w') = length (events w)"
      using ed l(1) by (simp add: x)
  qed
qed

lemma flow_labels:
  assumes "flow_ok st lat w" "\<And>i. i < length (events w) \<Longrightarrow> st' i = st i \<and> lat' i = lat i"
  shows "flow_ok st' lat' w"
proof -
  note F = flow_okD [OF assms(1)]
  have "timely lat' w"
    unfolding timely_def
  proof (intro conjI ballI, goal_cases)
    case (2 q)
    obtain x f where q: "q = (x, f)" by (cases q)
    show ?case using F(4) 2 finished_zero(1) [OF F(1), of x f] assms(2) by (auto simp: q timely_def)
  qed (use F(4) assms(2) in \<open>simp add: timely_def\<close>)
  moreover have "zero_load st' lat' w"
    unfolding zero_load_def
  proof (clarify)
    fix p c assume pc: "(p, c) \<in> edges w"
    then have "p < length (events w)" "c < length (events w)" using edges_range [OF F(1)] by auto
    then show "st' c \<le> st' p + int (lat' p + te_postDelay (events w ! p) + te_preDelay (events w ! c))"
      using zero_loadD [OF F(5) pc] assms(2) by simp
  qed
  ultimately show ?thesis using F(1-3) by (simp add: flow_ok_def)
qed

end
