(* ===== verification/Core_Recorder.thy ===== *)
theory Core_Recorder
  imports Event_Paths
begin

text \<open>
  The recorder of a timing core (\<open>core_recorder.h\<close>, \<open>core_recorder.cpp\<close>): in the bound phase it
  chains the accesses of the core into the event graph, between the phases it moves the clock of the
  core by what contention has added. The events of the core are in the graph of the weave phase;
  the field \<open>origStartCycle\<close> that their class adds is a map from events.
\<close>

section \<open>State\<close>

datatype CrState = HALTED | RUNNING | DRAINING

record CoreRecorder =
  cr_state :: CrState
  gapCycles :: nat
  cr_slot :: Recorded
  lastGapCycles :: nat
  lastStartSlack :: nat
  prevRespCycle :: nat
  prevRespEvent :: "nat option"
  lastStartCycle :: nat
  lastOrigStartCycle :: nat
  totalGapCycles :: nat
  totalHaltedCycles :: nat
  lastUnhaltedCycle :: nat
  cr_domain :: int
  origStart :: "nat \<Rightarrow> nat option"

text \<open>
  The constructor leaves \<open>prevRespCycle\<close> and the fields of the last simulated event uninitialised; here
  they are the arguments.
\<close>

definition new_CoreRecorder :: "int \<Rightarrow> Recorded \<Rightarrow> nat \<Rightarrow> nat \<Rightarrow> nat \<Rightarrow> CoreRecorder" where
  "new_CoreRecorder domn slot prc lsc losc =
     \<lparr>cr_state = HALTED, gapCycles = 0, cr_slot = rc_clear slot, lastGapCycles = 0, lastStartSlack = 0,
      prevRespCycle = prc, prevRespEvent = None, lastStartCycle = lsc, lastOrigStartCycle = losc,
      totalGapCycles = 0, totalHaltedCycles = 0, lastUnhaltedCycle = 0, cr_domain = domn, origStart = (\<lambda>_. None)\<rparr>"

definition set_gap :: "nat \<Rightarrow> CoreRecorder \<Rightarrow> CoreRecorder" where
  "set_gap g r = r\<lparr>gapCycles := g, lastGapCycles := g\<rparr>"

text \<open>A new \<open>TimingCoreEvent\<close>.\<close>

definition new_core_event :: "nat \<Rightarrow> nat \<Rightarrow> int \<Rightarrow> nat \<Rightarrow> CoreRecorder \<Rightarrow> Weave \<Rightarrow> nat \<times> CoreRecorder \<times> Weave" where
  "new_core_event delay orig domn minc r w =
     (let (e, w1) = alloc (new_event QueuedEv 0 delay domn) w
      in (e, r\<lparr>origStart := (origStart r)(e \<mapsto> orig)\<rparr>, setMinStartCycle e minc w1))"

section \<open>Bound phase\<close>

text \<open>\<open>glob\<close> is \<open>zinfo->globPhaseCycles\<close>, the first cycle of the phase.\<close>

definition notifyJoin :: "nat \<Rightarrow> nat \<Rightarrow> CoreRecorder \<Rightarrow> Weave \<Rightarrow> (nat \<times> CoreRecorder \<times> Weave) res" where
  "notifyJoin glob cur r w =
     (case cr_state r of
        HALTED \<Rightarrow>
          require (prevRespEvent r = None) (AssertFail ''!prevRespEvent'')
            (require (lastUnhaltedCycle r \<le> glob) (AssertFail ''lastUnhaltedCycle <= curCycle'')
              (let r1 = set_gap 0 (r\<lparr>totalGapCycles := totalGapCycles r + gapCycles r\<rparr>);
                   r2 = r1\<lparr>totalHaltedCycles := totalHaltedCycles r1 + (glob - lastUnhaltedCycle r1)\<rparr>;
                   (e, r3, w1) = new_core_event 0 glob (cr_domain r2) glob r2 w
               in bindR (te_queue e glob w1) (\<lambda>w2.
                    Inr (glob, r3\<lparr>prevRespEvent := Some e, prevRespCycle := glob, lastStartSlack := 0, cr_state := RUNNING\<rparr>, w2))))
      | DRAINING \<Rightarrow> require (glob \<le> cur) (AssertFail ''curCycle >= globPhaseCycles'') (Inr (cur, r\<lparr>cr_state := RUNNING\<rparr>, w))
      | RUNNING \<Rightarrow> Inl (Panicked ''Invalid state on join()''))"

text \<open>
  An event that ends \<open>delay\<close> cycles after \<open>prevRespEvent\<close> becomes its child; its start is kept in zero-load
  cycles.
\<close>

definition append_event :: "nat \<Rightarrow> CoreRecorder \<Rightarrow> Weave \<Rightarrow> (nat \<times> CoreRecorder \<times> Weave) res" where
  "append_event delay r w =
     (case prevRespEvent r of
        None \<Rightarrow> Inl (Undefined ''prevRespEvent'')
      | Some p \<Rightarrow>
          (let (e, r1, w1) = new_core_event delay (sub64 (prevRespCycle r) (gapCycles r)) (- 1) (prevRespCycle r) r w
           in bindR (addChild p e w1) (\<lambda>(_, w2). Inr (e, r1, w2))))"

text \<open>\<open>prevRespEvent\<close> moves on to the new event.\<close>

definition chain_event :: "nat \<Rightarrow> CoreRecorder \<Rightarrow> Weave \<Rightarrow> (CoreRecorder \<times> Weave) res" where
  "chain_event delay r w =
     bindR (append_event delay r w) (\<lambda>(e, r1, w1). Inr (r1\<lparr>prevRespEvent := Some e\<rparr>, w1))"

definition notifyLeave :: "nat \<Rightarrow> CoreRecorder \<Rightarrow> Weave \<Rightarrow> (CoreRecorder \<times> Weave) res" where
  "notifyLeave cur r w =
     require (cr_state r = RUNNING) (AssertFail ''state == RUNNING'')
       (require (prevRespEvent r \<noteq> None) (AssertFail ''prevRespEvent'')
         (bindR (chain_event (sub64 cur (prevRespCycle r)) (r\<lparr>cr_state := DRAINING\<rparr>) w) (\<lambda>(r1, w1).
            chain_event 0 (r1\<lparr>prevRespCycle := cur\<rparr>) w1)))"

text \<open>The first event of a record becomes a child of event \<open>p\<close>.\<close>

definition link_start :: "nat \<Rightarrow> Recorded \<Rightarrow> Weave \<Rightarrow> (nat \<times> Weave) res" where
  "link_start p tr w =
     (case rc_startEvent tr of None \<Rightarrow> Inl (Undefined ''startEvent'') | Some c \<Rightarrow> addChild p c w)"

definition recordAccess :: "nat \<Rightarrow> CoreRecorder \<Rightarrow> Weave \<Rightarrow> (CoreRecorder \<times> Weave) res" where
  "recordAccess startCycle r w =
     require (rc_valid (cr_slot r)) (AssertFail ''eventRecorder.hasRecord()'')
       (let (tr, slot) = popRecord (cr_slot r); r0 = r\<lparr>cr_slot := slot\<rparr>
        in require (prevRespCycle r \<le> startCycle) (AssertFail ''startCycle >= prevRespCycle'')
          (require (startCycle \<le> rc_reqCycle tr) (AssertFail ''tr.reqCycle >= startCycle'')
            (if IsGet (rc_type tr) then
               bindR (append_event (rc_reqCycle tr - prevRespCycle r) r0 w) (\<lambda>(e, r1, w1).
               bindR (link_start e tr w1) (\<lambda>(_, w2).
               require (rc_endEvent tr \<noteq> None) (AssertFail ''prevRespEvent'')
                 (Inr (r1\<lparr>prevRespEvent := rc_endEvent tr, prevRespCycle := rc_respCycle tr\<rparr>, w2))))
             else
               require (IsPut (rc_type tr)) (AssertFail ''IsPut(tr.type)'')
                 (case prevRespEvent r0 of
                    None \<Rightarrow> Inl (Undefined ''prevRespEvent'')
                  | Some p \<Rightarrow>
                      (let (d, w1) = alloc (new_DelayEvent (rc_reqCycle tr - prevRespCycle r)) w;
                           w2 = setMinStartCycle d (prevRespCycle r) w1
                       in bindR (addChild p d w2) (\<lambda>(_, w3).
                          bindR (link_start d tr w3) (\<lambda>(_, w4). Inr (r0, w4))))))))"

text \<open>\<open>record\<close>, called after every access.\<close>

definition cr_record :: "nat \<Rightarrow> CoreRecorder \<Rightarrow> Weave \<Rightarrow> (CoreRecorder \<times> Weave) res" where
  "cr_record startCycle r w =
     (if rc_valid (cr_slot r) then recordAccess startCycle r w else Inr (r, w))"

section \<open>Between the phases\<close>

definition cSimStart :: "nat \<Rightarrow> nat \<Rightarrow> CoreRecorder \<Rightarrow> Weave \<Rightarrow> (nat \<times> CoreRecorder \<times> Weave) res" where
  "cSimStart nextPhase cur r w =
     (case cr_state r of
        HALTED \<Rightarrow> Inr (cur, r, w)
      | RUNNING \<Rightarrow>
          require (nextPhase \<le> cur) (AssertFail ''curCycle >= nextPhaseCycle'')
            (bindR (if prevRespCycle r < cur
                    then bindR (chain_event (cur - prevRespCycle r) r w) (\<lambda>(r1, w1). Inr (r1\<lparr>prevRespCycle := cur\<rparr>, w1))
                    else Inr (r, w)) (\<lambda>(r1, w1).
             bindR (chain_event 0 r1 w1) (\<lambda>(r2, w2). Inr (cur, r2, w2))))
      | DRAINING \<Rightarrow> Inr (max cur nextPhase, r, w))"

definition cSimEnd :: "nat \<Rightarrow> CoreRecorder \<Rightarrow> (nat \<times> CoreRecorder) res" where
  "cSimEnd cur r =
     (if cr_state r = HALTED then Inr (cur, r)
      else
        (let lec1 = lastOrigStartCycle r + gapCycles r; lec2 = lastStartCycle r
         in require (lec1 \<le> cur) (AssertFail ''lastEvCycle1 <= curCycle'')
           (require (lec2 \<le> cur) (AssertFail ''lastEvCycle2 <= curCycle'')
             (require (lec1 \<le> lec2) (Panicked ''Contention simulation introduced a negative skew'')
               (let skew = lec2 - lec1;
                    r1 = set_gap (gapCycles r + skew) (r\<lparr>prevRespCycle := prevRespCycle r + skew\<rparr>)
                in if prevRespEvent r1 = None
                   then require (cr_state r1 = DRAINING) (AssertFail ''state == DRAINING'')
                     (Inr (cur + skew, r1\<lparr>lastUnhaltedCycle := lastStartCycle r1, cr_state := HALTED\<rparr>))
                   else Inr (cur + skew, r1))))))"

section \<open>Weave phase\<close>

definition reportEventSimulated :: "nat \<Rightarrow> nat \<Rightarrow> nat \<Rightarrow> CoreRecorder \<Rightarrow> CoreRecorder res" where
  "reportEventSimulated e orig startCycle r =
     (let r1 = r\<lparr>lastStartCycle := startCycle, lastOrigStartCycle := orig\<rparr> in
      bindR (if Some e = prevRespEvent r1
             then require (cr_state r1 = DRAINING) (AssertFail ''state == DRAINING'') (Inr (r1\<lparr>prevRespEvent := None\<rparr>))
             else Inr r1) (\<lambda>r2.
      Inr (r2\<lparr>lastStartSlack := sub64 startCycle orig\<rparr>)))"

text \<open>The method \<open>simulate\<close> of a \<open>TimingCoreEvent\<close>.\<close>

definition core_simulate :: "nat \<Rightarrow> nat \<Rightarrow> nat \<Rightarrow> CoreRecorder \<Rightarrow> Weave \<Rightarrow> (CoreRecorder \<times> Weave) res" where
  "core_simulate e orig startCycle r w =
     bindR (reportEventSimulated e orig startCycle r) (\<lambda>r1.
     bindR (ev_done (length (events w)) e startCycle w) (\<lambda>w1. Inr (r1, w1)))"

section \<open>Statistics\<close>

definition getUnhaltedCycles :: "nat \<Rightarrow> nat \<Rightarrow> CoreRecorder \<Rightarrow> nat" where
  "getUnhaltedCycles glob cur r =
     (let cycle = max cur glob;
          halted = totalHaltedCycles r + (if cr_state r = HALTED then sub64 cycle (lastUnhaltedCycle r) else 0)
      in sub64 cycle halted)"

definition getContentionCycles :: "CoreRecorder \<Rightarrow> nat" where
  "getContentionCycles r = totalGapCycles r + gapCycles r"

section \<open>A core with its memory\<close>

text \<open>
  The core, its clock, the event graph and the first cycle of the phase. The core runs instructions and
  joins and leaves the simulation in the bound phase. An access leaves in the recorder's slot what the
  memory system puts there: new events of the graph, whose least delays are \<open>latency\<close>. In the weave phase
  events of the queue run; an event of the memory system is held and ends later.
\<close>

record CoreSim =
  cs_rec :: CoreRecorder
  cs_weave :: Weave
  latency :: "nat \<Rightarrow> nat"
  cs_cycle :: nat
  globPhase :: nat
  in_weave :: bool

datatype RecOp =
    RJoin
  | RLeave
  | RExec nat
  | RAccess Weave "nat \<Rightarrow> nat" Recorded nat
  | RPhaseEnd
  | RRun nat nat
  | RDone nat nat
  | RPhaseStart

definition run_event :: "nat \<Rightarrow> nat \<Rightarrow> CoreRecorder \<Rightarrow> Weave \<Rightarrow> (CoreRecorder \<times> Weave) res" where
  "run_event i t r w =
     bindR (te_run (\<lambda>_ _ w. Inr w) i t w) (\<lambda>w1.
       if t < te_minStart (events w ! i) then Inr (r, w1)
       else case origStart r i of
              Some orig \<Rightarrow> core_simulate i orig t r w1
            | None \<Rightarrow> bindR (te_hold i w1) (\<lambda>w2. Inr (r, w2)))"

definition rec_op :: "nat \<Rightarrow> RecOp \<Rightarrow> CoreSim \<Rightarrow> CoreSim res" where
  "rec_op L oper s =
     (case oper of
        RJoin \<Rightarrow> bindR (notifyJoin (globPhase s) (cs_cycle s) (cs_rec s) (cs_weave s)) (\<lambda>(c, r, w).
          Inr (s\<lparr>cs_rec := r, cs_weave := w, cs_cycle := c\<rparr>))
      | RLeave \<Rightarrow> bindR (notifyLeave (cs_cycle s) (cs_rec s) (cs_weave s)) (\<lambda>(r, w).
          Inr (s\<lparr>cs_rec := r, cs_weave := w\<rparr>))
      | RExec k \<Rightarrow> Inr (s\<lparr>cs_cycle := cs_cycle s + k\<rparr>)
      | RAccess w1 lat1 tr resp \<Rightarrow> bindR (cr_record (cs_cycle s) ((cs_rec s)\<lparr>cr_slot := tr\<rparr>) w1) (\<lambda>(r, w).
          Inr (s\<lparr>cs_rec := r, cs_weave := w, latency := lat1, cs_cycle := resp\<rparr>))
      | RPhaseEnd \<Rightarrow> bindR (cSimStart (globPhase s + L) (cs_cycle s) (cs_rec s) (cs_weave s)) (\<lambda>(c, r, w).
          Inr (s\<lparr>cs_rec := r, cs_weave := w, cs_cycle := c, in_weave := True\<rparr>))
      | RRun i t \<Rightarrow> bindR (run_event i t (cs_rec s) ((cs_weave s)\<lparr>queued := remove1 (i, t) (queued (cs_weave s))\<rparr>)) (\<lambda>(r, w).
          Inr (s\<lparr>cs_rec := r, cs_weave := w\<rparr>))
      | RDone i t \<Rightarrow> bindR (te_release i (cs_weave s)) (\<lambda>w1. bindR (ev_done (length (events w1)) i t w1) (\<lambda>w.
          Inr (s\<lparr>cs_weave := w\<rparr>)))
      | RPhaseStart \<Rightarrow> bindR (cSimEnd (cs_cycle s) (cs_rec s)) (\<lambda>(c, r).
          Inr (s\<lparr>cs_rec := r, cs_cycle := c, globPhase := globPhase s + L, in_weave := False\<rparr>)))"

primrec rec_run :: "nat \<Rightarrow> RecOp list \<Rightarrow> CoreSim \<Rightarrow> CoreSim res" where
  "rec_run L [] s = Inr s"
| "rec_run L (oper # ops) s = bindR (rec_op L oper s) (rec_run L ops)"

definition new_CoreSim :: "CoreRecorder \<Rightarrow> CoreSim" where
  "new_CoreSim r = \<lparr>cs_rec = r, cs_weave = \<lparr>events = [], queued = [], finished = []\<rparr>, latency = (\<lambda>_. 0),
     cs_cycle = 0, globPhase = 0, in_weave = False\<rparr>"
end
