(* ===== verification/Core_Clock.thy ===== *)
theory Core_Clock
  imports Core_Recorder
begin

text \<open>
  The two clocks of a timing core: the bound phase clock and the zero-load clock, which is the first
  without the cycles that contention has added. The events of a core form a path of the graph, and
  contention never shrinks along it, so the correction between the phases is never negative.
\<close>

section \<open>The chain of core events\<close>

text \<open>
  \<open>cs\<close> are the core events since the core last joined from the halted state, in order, and \<open>st\<close> is a
  zero-load schedule that agrees with the starts the recorder has noted.
\<close>

definition events_ok :: "nat list \<Rightarrow> (nat \<Rightarrow> int) \<Rightarrow> (nat \<Rightarrow> nat) \<Rightarrow> CoreRecorder \<Rightarrow> Weave \<Rightarrow> bool" where
  "events_ok cs st lat r w \<longleftrightarrow>
     (\<forall>e orig. origStart r e = Some orig \<longrightarrow> e < length (events w) \<and> te_kind (events w ! e) = QueuedEv \<and>
        te_preDelay (events w ! e) = 0 \<and> lat e = 0 \<and> st e = int orig \<and>
        te_state (events w ! e) \<in> {EV_NONE, EV_QUEUED, EV_DONE} \<and> (\<forall>f. (e, f) \<in> set (finished w) \<longrightarrow> orig \<le> f) \<and>
        (e \<in> set cs \<or> te_state (events w ! e) = EV_DONE)) \<and>
     set cs \<subseteq> dom (origStart r) \<and> sorted_wrt (\<lambda>a b. (a, b) \<in> (edges w)\<^sup>+) cs"

definition prev_ok :: "nat list \<Rightarrow> (nat \<Rightarrow> int) \<Rightarrow> (nat \<Rightarrow> nat) \<Rightarrow> CoreRecorder \<Rightarrow> Weave \<Rightarrow> bool" where
  "prev_ok cs st lat r w \<longleftrightarrow>
     (case prevRespEvent r of
        None \<Rightarrow> \<forall>e\<in>set cs. te_state (events w ! e) = EV_DONE
      | Some p \<Rightarrow> p < length (events w) \<and> te_state (events w ! p) \<in> {EV_NONE, EV_QUEUED} \<and>
          (\<forall>x\<in>set cs. (x, p) \<in> (edges w)\<^sup>*) \<and>
          int (prevRespCycle r) - int (gapCycles r) \<le> st p + int (lat p + te_postDelay (events w ! p)))"

definition chain_ok :: "nat list \<Rightarrow> (nat \<Rightarrow> int) \<Rightarrow> (nat \<Rightarrow> nat) \<Rightarrow> CoreRecorder \<Rightarrow> Weave \<Rightarrow> bool" where
  "chain_ok cs st lat r w \<longleftrightarrow> flow_ok st lat w \<and> (\<forall>i\<ge>length (events w). lat i = 0) \<and> events_ok cs st lat r w \<and> prev_ok cs st lat r w"

text \<open>Until its first event has run, the clock of a core that has joined is exact.\<close>

definition first_ok :: "nat list \<Rightarrow> nat \<Rightarrow> nat \<Rightarrow> CoreRecorder \<Rightarrow> Weave \<Rightarrow> bool" where
  "first_ok cs glob limit r w \<longleftrightarrow>
     (if te_state (events w ! hd cs) = EV_DONE
      then (\<exists>e\<in>set cs. origStart r e = Some (lastOrigStartCycle r) \<and> (e, lastStartCycle r) \<in> set (finished w)) \<and>
           lastOrigStartCycle r + gapCycles r \<le> lastStartCycle r \<and> lastStartCycle r < limit
      else gapCycles r = 0 \<and> (hd cs, glob) \<in> set (queued w) \<and> te_minStart (events w ! hd cs) = glob \<and>
           origStart r (hd cs) = Some glob)"

lemma events_okD:
  assumes "events_ok cs st lat r w" "origStart r e = Some orig"
  shows "e < length (events w)" "te_kind (events w ! e) = QueuedEv" "te_preDelay (events w ! e) = 0" "lat e = 0"
    "st e = int orig" "te_state (events w ! e) \<in> {EV_NONE, EV_QUEUED, EV_DONE}"
    "(e, f) \<in> set (finished w) \<Longrightarrow> orig \<le> f" "e \<in> set cs \<or> te_state (events w ! e) = EV_DONE"
  using assms unfolding events_ok_def by blast+

lemma chain_event_range: "events_ok cs st lat r w \<Longrightarrow> e \<in> set cs \<Longrightarrow> e < length (events w) \<and> (\<exists>orig. origStart r e = Some orig)"
  unfolding events_ok_def by blast

lemma fresh_event: "events_ok cs st lat r w \<Longrightarrow> length (events w) \<le> i \<Longrightarrow> origStart r i = None"
  using events_okD(1) [of cs st lat r w i] by (cases "origStart r i") auto

lemma events_ok_grown:
  assumes "events_ok cs st lat r w" "grown w w'" "\<And>i. i < length (events w) \<Longrightarrow> st' i = st i \<and> lat' i = lat i"
    and "origStart r' = origStart r"
  shows "events_ok cs st' lat' r' w'"
proof -
  note G = grownD [OF assms(2)]
  note S = sigD [OF G(5)]
  have "sorted_wrt (\<lambda>a b. (a, b) \<in> (edges w')\<^sup>+) cs"
    by (rule sorted_wrt_mono_rel [of _ "\<lambda>a b. (a, b) \<in> (edges w)\<^sup>+"])
      (use assms(1) in \<open>auto simp: events_ok_def intro: grown_trancl [OF assms(2)]\<close>)
  moreover have "e < length (events w') \<and> te_kind (events w' ! e) = QueuedEv \<and>
        te_preDelay (events w' ! e) = 0 \<and> lat' e = 0 \<and> st' e = int orig \<and>
        te_state (events w' ! e) \<in> {EV_NONE, EV_QUEUED, EV_DONE} \<and> (\<forall>f. (e, f) \<in> set (finished w') \<longrightarrow> orig \<le> f) \<and>
        (e \<in> set cs \<or> te_state (events w' ! e) = EV_DONE)" if "origStart r e = Some orig" for e orig
  proof -
    note E = events_okD [OF assms(1) that]
    show ?thesis using E S [OF E(1)] G(1,3) assms(3) [OF E(1)] by (metis less_le_trans)
  qed
  moreover have "set cs \<subseteq> dom (origStart r)" using assms(1) by (simp add: events_ok_def)
  ultimately show ?thesis by (simp add: events_ok_def assms(4))
qed

lemma first_ok_grown:
  assumes "first_ok cs glob limit r w" "grown w w'" "cs \<noteq> []" "events_ok cs st lat r w"
    and "origStart r \<subseteq>\<^sub>m origStart r'" "gapCycles r' = gapCycles r" "lastStartCycle r' = lastStartCycle r"
      "lastOrigStartCycle r' = lastOrigStartCycle r"
  shows "first_ok (cs @ ds) glob limit r' w'"
proof -
  have h: "hd cs < length (events w)" using chain_event_range [OF assms(4), of "hd cs"] assms(3) by simp
  have m: "origStart r e = Some v \<Longrightarrow> origStart r' e = Some v" for e v
    using assms(5) by (auto simp: map_le_def dom_def)
  show ?thesis
    using assms(1,3,6-8) grownD(2,3) [OF assms(2)] sigD [OF grownD(5) [OF assms(2) h]] m
    by (auto simp: first_ok_def split: if_splits)
qed

section \<open>Appending an event\<close>

lemma new_core_event_eq: "new_core_event delay orig domn minc r w =
    (length (events w), r\<lparr>origStart := (origStart r)(length (events w) \<mapsto> orig)\<rparr>, put_event (new_event QueuedEv 0 delay domn) minc w)"
  by (simp add: new_core_event_def put_event_def alloc_def Let_def)

lemma core_event_sig: "delay < 2 ^ 32 \<Longrightarrow>
    sig ((new_event QueuedEv 0 delay domn)\<lparr>te_minStart := minc\<rparr>) = (QueuedEv, EV_NONE, 0, minc, 0, delay)"
  by (simp add: sig_def new_event_def)

lemma new_event_fresh [simp]: "visit (new_event k a b d) = []" "te_numParents (new_event k a b d) = 0"
  "te_cycle (new_event k a b d) = 0" "te_state (new_event k a b d) = EV_NONE" "te_kind (new_event k a b d) = k"
  by (simp_all add: new_event_def visit_def)

lemma acyclic_fresh:
  assumes "acyclic R" "R \<subseteq> {..<n} \<times> {..<n}" "p < (n :: nat)"
  shows "acyclic (insert (p, n) R)"
proof -
  have "(n, p) \<notin> R\<^sup>*" 
  proof
    assume "(n, p) \<in> R\<^sup>*"
    then show False by (cases rule: converse_rtranclE) (use assms(2,3) in auto)
  qed
  then show ?thesis using assms(1) by (simp add: acyclic_insert)
qed

text \<open>A fresh event behind an event of the graph.\<close>

lemma put_link_flow:
  assumes fl: "flow_ok st lat w" and p: "p < length (events w)" "te_state (events w ! p) \<in> {EV_NONE, EV_QUEUED}"
    and e: "visit e = []" "te_numParents e = 0" "te_cycle e = 0" "te_state e = EV_NONE"
    and l: "lat (length (events w)) = 0"
    and z: "v \<le> st p + int (lat p + te_postDelay (events w ! p) + te_preDelay e)"
  shows "succeeds (addChild p (length (events w)) (put_event e minc w)) (\<lambda>(x, w').
    flow_ok (st(length (events w) := v)) lat w' \<and> grown w w' \<and> edges w' = insert (p, length (events w)) (edges w) \<and>
    length (events w') = Suc (length (events w)) \<and> sig (events w' ! length (events w)) = sig (e\<lparr>te_minStart := minc\<rparr>))"
proof -
  let ?n = "length (events w)"
  have fl': "flow_ok (st(?n := v)) lat w" by (rule flow_labels [OF fl]) simp
  note P = put_event_flow [OF fl' e l, of minc]
  note G = grownD(5) [OF P(2) p(1)]
  have "succeeds (addChild p ?n (put_event e minc w)) (\<lambda>(r, w'). flow_ok (st(?n := v)) lat w' \<and> grown (put_event e minc w) w' \<and>
    edges w' = insert (p, ?n) (edges (put_event e minc w)) \<and> length (events w') = length (events (put_event e minc w)))"
  proof (rule link_flow [OF P(1)])
    show "acyclic (insert (p, ?n) (edges (put_event e minc w)))"
      unfolding P(4) using flow_okD(2) [OF fl] edges_range [OF flow_okD(1) [OF fl]] p(1) by (rule acyclic_fresh)
  qed (use p e z sigD [OF G] in \<open>simp_all add: P\<close>)
  then show ?thesis
    by (rule succeeds_mono) (use P(3) in \<open>auto simp: P(4,5) intro: grown_trans [OF P(2)] dest: grownD(5) [where i = ?n]\<close>)
qed

lemma sub64_diff [simp]: "b \<le> a \<Longrightarrow> sub64 a b = a - b"
  by (simp add: sub64_def)

lemma append_event_ok:
  assumes ch: "chain_ok cs st lat r w" and p: "prevRespEvent r = Some p" and g: "gapCycles r \<le> prevRespCycle r" and d: "delay < 2 ^ 32"
    and n: "n = length (events w)" and v: "v = prevRespCycle r - gapCycles r"
  shows "succeeds (append_event delay r w) (\<lambda>(e, r', w'). e = n \<and> r' = r\<lparr>origStart := (origStart r)(n \<mapsto> v)\<rparr> \<and>
    flow_ok (st(n := int v)) lat w' \<and> grown w w' \<and> edges w' = insert (p, n) (edges w) \<and>
    length (events w') = Suc n \<and> sig (events w' ! n) = (QueuedEv, EV_NONE, 0, prevRespCycle r, 0, delay) \<and>
    events_ok (cs @ [n]) (st(n := int v)) lat r' w')"
proof -
  let ?r = "r\<lparr>origStart := (origStart r)(n \<mapsto> v)\<rparr>" and ?st = "st(n := int v)"
  from ch have fl: "flow_ok st lat w" and l: "lat n = 0" and ev: "events_ok cs st lat r w" and pv: "prev_ok cs st lat r w"
    by (simp_all add: chain_ok_def n)
  from pv p have P: "p < length (events w)" "te_state (events w ! p) \<in> {EV_NONE, EV_QUEUED}"
    "\<And>x. x \<in> set cs \<Longrightarrow> (x, p) \<in> (edges w)\<^sup>*" "int v \<le> st p + int (lat p + te_postDelay (events w ! p))"
    using g by (auto simp: prev_ok_def v)
  have "succeeds (addChild p n (put_event (new_event QueuedEv 0 delay (- 1)) (prevRespCycle r) w)) (\<lambda>(x, w').
    flow_ok ?st lat w' \<and> grown w w' \<and> edges w' = insert (p, n) (edges w) \<and>
    length (events w') = Suc n \<and> sig (events w' ! n) = sig ((new_event QueuedEv 0 delay (- 1))\<lparr>te_minStart := prevRespCycle r\<rparr>))"
    unfolding n by (rule put_link_flow [OF fl P(1,2)]) (use P(4) l n in auto)
  then obtain y w' where w': "addChild p n (put_event (new_event QueuedEv 0 delay (- 1)) (prevRespCycle r) w) = Inr (y, w')"
    "flow_ok ?st lat w'" "grown w w'" "edges w' = insert (p, n) (edges w)" "length (events w') = Suc n"
    "sig (events w' ! n) = (QueuedEv, EV_NONE, 0, prevRespCycle r, 0, delay)"
    by (auto simp: succeeds_iff core_event_sig [OF d])
  have S: "te_kind (events w' ! n) = QueuedEv" "te_state (events w' ! n) = EV_NONE" "te_preDelay (events w' ! n) = 0"
    using w'(6) by (simp_all add: sig_def)
  have old: "events_ok cs ?st lat r w'" by (rule events_ok_grown [OF ev w'(3)]) (simp_all add: n)
  have nf: "(n, f) \<notin> set (finished w')" for f
    using finished_zero(1) [OF flow_okD(1) [OF fl], of n f] grownD(3) [OF w'(3)] by (auto simp: n)
  have path: "(x, n) \<in> (edges w')\<^sup>+" if "x \<in> set cs" for x
    using grown_rtrancl [OF w'(3) P(3) [OF that]] by (rule rtrancl_into_trancl1) (simp add: w'(4))
  have "events_ok (cs @ [n]) ?st lat ?r w'"
    unfolding events_ok_def
  proof (intro conjI allI impI)
    fix e orig assume e: "origStart ?r e = Some orig"
    have "e = n \<or> e \<noteq> n \<and> origStart r e = Some orig" using e by (simp split: if_splits)
    then have "e < length (events w') \<and> te_kind (events w' ! e) = QueuedEv \<and>
        te_preDelay (events w' ! e) = 0 \<and> lat e = 0 \<and> ?st e = int orig \<and>
        te_state (events w' ! e) \<in> {EV_NONE, EV_QUEUED, EV_DONE} \<and> (\<forall>f. (e, f) \<in> set (finished w') \<longrightarrow> orig \<le> f) \<and>
        (e \<in> set (cs @ [n]) \<or> te_state (events w' ! e) = EV_DONE)"
    proof (elim disjE conjE)
      assume "e = n" then show ?thesis using e l S nf w'(5) by simp
    next
      assume "origStart r e = Some orig"
      from events_okD [OF old this] show ?thesis by auto
    qed
    then show "e < length (events w')" "te_kind (events w' ! e) = QueuedEv" "te_preDelay (events w' ! e) = 0" "lat e = 0"
      "?st e = int orig" "te_state (events w' ! e) \<in> {EV_NONE, EV_QUEUED, EV_DONE}"
      "e \<in> set (cs @ [n]) \<or> te_state (events w' ! e) = EV_DONE" "\<And>f. (e, f) \<in> set (finished w') \<Longrightarrow> orig \<le> f" by simp_all
  qed (use old path in \<open>auto simp: events_ok_def sorted_wrt_append\<close>)
  then show ?thesis using w' g p by (simp add: append_event_def new_core_event_eq n v)
qed

lemma chain_ok_fields [simp]:
  "chain_ok cs st lat (r\<lparr>cr_state := x\<rparr>) w = chain_ok cs st lat r w"
  "chain_ok cs st lat (r\<lparr>cr_slot := y\<rparr>) w = chain_ok cs st lat r w"
  "chain_ok cs st lat (r\<lparr>lastStartSlack := k\<rparr>) w = chain_ok cs st lat r w"
  by (simp_all add: chain_ok_def events_ok_def prev_ok_def cong: option.case_cong)

lemma chain_event_ok:
  assumes ch: "chain_ok cs st lat r w" and p: "prevRespEvent r = Some p" and g: "gapCycles r \<le> prevRespCycle r" and d: "delay < 2 ^ 32"
    and n: "n = length (events w)" and v: "v = prevRespCycle r - gapCycles r"
  shows "succeeds (chain_event delay r w) (\<lambda>(r', w').
    r' = r\<lparr>origStart := (origStart r)(n \<mapsto> v), prevRespEvent := Some n\<rparr> \<and> grown w w' \<and> length (events w') = Suc n \<and>
    te_minStart (events w' ! n) = prevRespCycle r \<and>
    chain_ok (cs @ [n]) (st(n := int v)) lat (r'\<lparr>prevRespCycle := prevRespCycle r + delay\<rparr>) w')"
  unfolding chain_event_def succeeds_bindR
proof (rule succeeds_mono [OF append_event_ok [OF ch p g d n v]], clarsimp)
  fix w'
  assume a: "flow_ok (st(n := int v)) lat w'" "grown w w'" "edges w' = insert (p, n) (edges w)" "length (events w') = Suc n"
    "sig (events w' ! n) = (QueuedEv, EV_NONE, 0, prevRespCycle r, 0, delay)"
    "events_ok (cs @ [n]) (st(n := int v)) lat (r\<lparr>origStart := (origStart r)(n \<mapsto> v)\<rparr>) w'"
  let ?r = "r\<lparr>origStart := (origStart r)(n \<mapsto> v), prevRespEvent := Some n, prevRespCycle := prevRespCycle r + delay\<rparr>"
  have S: "te_state (events w' ! n) = EV_NONE" "te_minStart (events w' ! n) = prevRespCycle r" "te_postDelay (events w' ! n) = delay"
    using a(5) by (simp_all add: sig_def)
  have "(x, n) \<in> (edges w')\<^sup>*" if "x \<in> set (cs @ [n])" for x
    using that a(6) by (auto simp: events_ok_def sorted_wrt_append intro: trancl_into_rtrancl)
  then have "prev_ok (cs @ [n]) (st(n := int v)) lat ?r w'"
    using S g a(4) by (simp add: prev_ok_def v)
  moreover have "events_ok (cs @ [n]) (st(n := int v)) lat ?r w'"
    using a(6) by (simp add: events_ok_def)
  ultimately show "te_minStart (events w' ! n) = prevRespCycle r \<and> chain_ok (cs @ [n]) (st(n := int v)) lat ?r w'"
    using a(1,4) ch S by (simp add: chain_ok_def n)
qed

section \<open>The invariant\<close>

definition rec_ok :: "nat \<Rightarrow> CoreSim \<Rightarrow> nat list \<Rightarrow> (nat \<Rightarrow> int) \<Rightarrow> bool" where
  "rec_ok L s cs st \<longleftrightarrow> (let r = cs_rec s; w = cs_weave s; glob = globPhase s in
     chain_ok cs st (latency s) r w \<and> lastUnhaltedCycle r \<le> glob \<and>
     (cr_state r = HALTED \<longrightarrow> cs = [] \<and> prevRespEvent r = None) \<and>
     (cr_state r \<noteq> HALTED \<longrightarrow> cs \<noteq> [] \<and> gapCycles r \<le> prevRespCycle r \<and> prevRespCycle r \<le> cs_cycle s \<and>
        (if in_weave s then glob + L else glob) \<le> cs_cycle s \<and>
        first_ok cs glob (if in_weave s then glob + L else glob) r w) \<and>
     (prevRespEvent r = None \<longrightarrow> cr_state r = HALTED \<or> cr_state r = DRAINING \<and> in_weave s) \<and>
     (\<forall>p. prevRespEvent r = Some p \<and> (cr_state r = DRAINING \<or> in_weave s) \<longrightarrow> origStart r p \<noteq> None) \<and>
     (\<forall>p. prevRespEvent r = Some p \<and> in_weave s \<and> cr_state r = RUNNING \<longrightarrow> glob + L \<le> te_minStart (events w ! p)))"

text \<open>
  What an access may leave: new events that nothing before points to, a record of them, and a zero-load
  schedule in which the record's response is no earlier than it says.
\<close>

definition mem_ok :: "CoreSim \<Rightarrow> Weave \<Rightarrow> (nat \<Rightarrow> nat) \<Rightarrow> (nat \<Rightarrow> int) \<Rightarrow> bool" where
  "mem_ok s w1 lat1 st \<longleftrightarrow> (let w = cs_weave s; n = length (events w) in
     n \<le> length (events w1) \<and> (\<forall>i<n. events w1 ! i = events w ! i \<and> lat1 i = latency s i) \<and>
     queued w1 = queued w \<and> finished w1 = finished w \<and> wv_inv {#} w1 \<and> acyclic (edges w1) \<and>
     (\<forall>i\<ge>length (events w1). lat1 i = 0) \<and>
     (\<forall>i. n \<le> i \<and> i < length (events w1) \<longrightarrow> te_state (events w1 ! i) = EV_NONE \<and>
        (te_kind (events w1 ! i) = DelayEv \<longrightarrow> lat1 i = 0)) \<and>
     (\<forall>(p, c)\<in>edges w1. n \<le> p \<longrightarrow> n \<le> c \<and>
        st c \<le> st p + int (lat1 p + te_postDelay (events w1 ! p) + te_preDelay (events w1 ! c))))"

definition record_ok :: "CoreSim \<Rightarrow> Weave \<Rightarrow> (nat \<Rightarrow> nat) \<Rightarrow> Recorded \<Rightarrow> nat \<Rightarrow> (nat \<Rightarrow> int) \<Rightarrow> bool" where
  "record_ok s w1 lat1 tr resp st \<longleftrightarrow> (let n = length (events (cs_weave s)) in
     cs_cycle s \<le> rc_reqCycle tr \<and> rc_reqCycle tr - prevRespCycle (cs_rec s) < 2 ^ 32 \<and>
     (\<exists>a. rc_startEvent tr = Some a \<and> n \<le> a \<and> a < length (events w1) \<and> st a \<le> int (rc_reqCycle tr) + int (te_preDelay (events w1 ! a)) \<and>
        (IsGet (rc_type tr) \<longrightarrow> rc_reqCycle tr \<le> rc_respCycle tr \<and> rc_respCycle tr \<le> resp \<and>
          (\<exists>b. rc_endEvent tr = Some b \<and> n \<le> b \<and> b < length (events w1) \<and> (a, b) \<in> (edges w1)\<^sup>* \<and>
             int (rc_respCycle tr) \<le> st b + int (lat1 b + te_postDelay (events w1 ! b))))))"

definition rec_enabled :: "nat \<Rightarrow> RecOp \<Rightarrow> CoreSim \<Rightarrow> bool" where
  "rec_enabled L oper s \<longleftrightarrow> (let r = cs_rec s; w = cs_weave s in
     case oper of
       RJoin \<Rightarrow> \<not> in_weave s \<and> cr_state r \<noteq> RUNNING
     | RLeave \<Rightarrow> \<not> in_weave s \<and> cr_state r = RUNNING \<and> cs_cycle s - prevRespCycle r < 2 ^ 32
     | RExec k \<Rightarrow> \<not> in_weave s \<and> cr_state r = RUNNING
     | RAccess w1 lat1 tr resp \<Rightarrow> \<not> in_weave s \<and> cr_state r = RUNNING \<and> cs_cycle s \<le> resp \<and>
         (\<exists>st. mem_ok s w1 lat1 st \<and> (rc_valid tr \<longrightarrow> record_ok s w1 lat1 tr resp st))
     | RPhaseEnd \<Rightarrow> \<not> in_weave s \<and> (cr_state r = RUNNING \<longrightarrow> globPhase s + L \<le> cs_cycle s \<and> cs_cycle s - prevRespCycle r < 2 ^ 32)
     | RRun i t \<Rightarrow> in_weave s \<and> (i, t) \<in> set (queued w) \<and> t < globPhase s + L
     | RDone i t \<Rightarrow> in_weave s \<and> i < length (events w) \<and> te_state (events w ! i) = EV_HELD \<and> ready w i + latency s i \<le> t
     | RPhaseStart \<Rightarrow> in_weave s \<and> (\<forall>(i, t)\<in>set (queued w). globPhase s + L \<le> t))"

lemma rec_okD:
  assumes "rec_ok L s cs st"
  shows "chain_ok cs st (latency s) (cs_rec s) (cs_weave s)" "lastUnhaltedCycle (cs_rec s) \<le> globPhase s"
    "cr_state (cs_rec s) = HALTED \<Longrightarrow> cs = [] \<and> prevRespEvent (cs_rec s) = None"
    "cr_state (cs_rec s) \<noteq> HALTED \<Longrightarrow> cs \<noteq> [] \<and> gapCycles (cs_rec s) \<le> prevRespCycle (cs_rec s) \<and> prevRespCycle (cs_rec s) \<le> cs_cycle s \<and>
        (if in_weave s then globPhase s + L else globPhase s) \<le> cs_cycle s \<and>
        first_ok cs (globPhase s) (if in_weave s then globPhase s + L else globPhase s) (cs_rec s) (cs_weave s)"
    "prevRespEvent (cs_rec s) = None \<Longrightarrow> cr_state (cs_rec s) = HALTED \<or> cr_state (cs_rec s) = DRAINING \<and> in_weave s"
    "prevRespEvent (cs_rec s) = Some p \<Longrightarrow> cr_state (cs_rec s) = DRAINING \<or> in_weave s \<Longrightarrow> origStart (cs_rec s) p \<noteq> None"
    "prevRespEvent (cs_rec s) = Some p \<Longrightarrow> in_weave s \<Longrightarrow> cr_state (cs_rec s) = RUNNING \<Longrightarrow>
        globPhase s + L \<le> te_minStart (events (cs_weave s) ! p)"
  using assms unfolding rec_ok_def Let_def by blast+

lemma chain_okD:
  assumes "chain_ok cs st lat r w"
  shows "flow_ok st lat w" "length (events w) \<le> i \<Longrightarrow> lat i = 0" "events_ok cs st lat r w" "prev_ok cs st lat r w"
  using assms by (simp_all add: chain_ok_def)

section \<open>Bound phase\<close>

lemma rec_exec: "rec_ok L s cs st \<Longrightarrow> rec_ok L (s\<lparr>cs_cycle := cs_cycle s + k\<rparr>) cs st"
  by (auto simp: rec_ok_def Let_def)

lemma rec_join:
  assumes ok: "rec_ok L s cs st" and en: "rec_enabled L RJoin s"
  shows "succeeds (rec_op L RJoin s) (\<lambda>s'. \<exists>cs st. rec_ok L s' cs st)"
proof (cases "cr_state (cs_rec s)")
  case RUNNING
  then show ?thesis using en by (simp add: rec_enabled_def)
next
  case DRAINING
  have "\<not> in_weave s" using en by (simp add: rec_enabled_def)
  then have "rec_ok L (s\<lparr>cs_rec := (cs_rec s)\<lparr>cr_state := RUNNING\<rparr>\<rparr>) cs st \<and> globPhase s \<le> cs_cycle s"
    using ok DRAINING by (auto simp: rec_ok_def Let_def first_ok_def)
  then show ?thesis using DRAINING by (auto simp: rec_op_def notifyJoin_def)
next
  case HALTED
  let ?r = "cs_rec s" and ?w = "cs_weave s" and ?g = "globPhase s"
  let ?n = "length (events ?w)" let ?e = "new_event QueuedEv 0 0 (cr_domain ?r)"
  let ?w1 = "put_event ?e ?g ?w" let ?st = "st(?n := int ?g)"
  let ?w2 = "(upd_event ?n (te_state_update (\<lambda>_. EV_QUEUED)) ?w1)\<lparr>queued := queued ?w1 @ [(?n, ?g)]\<rparr>"
  have nw: "\<not> in_weave s" using en by (simp add: rec_enabled_def)
  note K = rec_okD [OF ok] note C = chain_okD [OF K(1)]
  have h: "cs = []" "prevRespEvent ?r = None" using K(3) [OF HALTED] by simp_all
  have fl: "flow_ok ?st (latency s) ?w" by (rule flow_labels [OF C(1)]) simp
  have l0: "latency s ?n = 0" by (rule C(2)) simp
  note P = put_event_flow [OF fl, of ?e ?g, simplified]
  have nQ: "?n \<notin> fst ` set (queued ?w1)"
    using queue_okD [OF flow_okD(3) [OF C(1)]] grownD(2) [OF P(2)] by fastforce
  have fl2: "flow_ok ?st (latency s) ?w2"
  proof (rule upd_state_flow [OF P(1)])
    show "distinct (map fst (queued ?w1 @ [(?n, ?g)]))"
      using nQ flow_okD(3) [OF P(1)] by (simp add: queue_ok_def)
    fix x c assume "(x, c) \<in> set (queued ?w1 @ [(?n, ?g)])"
    then show "x = ?n \<and> EV_QUEUED = EV_QUEUED \<and> ready ?w1 ?n \<le> c \<or> x \<noteq> ?n \<and> (x, c) \<in> set (queued ?w1)"
    proof (cases "(x, c) \<in> set (queued ?w1)")
      case True
      then have "x \<noteq> ?n" using nQ by force
      with True show ?thesis by simp
    next
      case False
      with \<open>(x, c) \<in> _\<close> show ?thesis by (simp add: ready_def P(3)) (simp add: new_event_def)
    qed
  qed (simp_all add: P)
  have ev: "events (upd_event ?n (te_state_update (\<lambda>_. EV_QUEUED)) ?w1) ! x = (if x = ?n then (?e\<lparr>te_minStart := ?g\<rparr>)\<lparr>te_state := EV_QUEUED\<rparr> else events ?w1 ! x)" for x
    by (simp add: nth_upd_event P)
  have old: "sig (events ?w2 ! x) = sig (events ?w ! x)" if "x < ?n" for x
    using that grownD(5) [OF P(2) that] by (simp add: ev)
  have fin: "finished ?w2 = finished ?w" by (simp add: grownD(3) [OF P(2)])
  have nf: "(?n, f) \<notin> set (finished ?w)" for f
    using finished_zero(1) [OF flow_okD(1) [OF C(1)], of ?n f] by auto
  define r' where "r' = (set_gap 0 (?r\<lparr>totalGapCycles := totalGapCycles ?r + gapCycles ?r\<rparr>))\<lparr>
    totalHaltedCycles := totalHaltedCycles ?r + (?g - lastUnhaltedCycle ?r), origStart := (origStart ?r)(?n \<mapsto> ?g),
    prevRespEvent := Some ?n, prevRespCycle := ?g, lastStartSlack := 0, cr_state := RUNNING\<rparr>"
  have rf: "origStart r' = (origStart ?r)(?n \<mapsto> ?g)" "prevRespEvent r' = Some ?n" "prevRespCycle r' = ?g" "cr_state r' = RUNNING"
    "gapCycles r' = 0" "lastUnhaltedCycle r' = lastUnhaltedCycle ?r"
    by (simp_all add: r'_def set_gap_def)
  have oe: "events_ok [?n] ?st (latency s) r' ?w2"
    unfolding events_ok_def
  proof (intro conjI allI impI)
    fix e orig assume "origStart r' e = Some orig"
    then have "e = ?n \<and> orig = ?g \<or> e \<noteq> ?n \<and> origStart ?r e = Some orig" by (auto simp: rf split: if_splits)
    then have "e < length (events ?w2) \<and> te_kind (events ?w2 ! e) = QueuedEv \<and>
        te_preDelay (events ?w2 ! e) = 0 \<and> latency s e = 0 \<and> ?st e = int orig \<and>
        te_state (events ?w2 ! e) \<in> {EV_NONE, EV_QUEUED, EV_DONE} \<and> (\<forall>f. (e, f) \<in> set (finished ?w2) \<longrightarrow> orig \<le> f) \<and>
        (e \<in> set [?n] \<or> te_state (events ?w2 ! e) = EV_DONE)"
    proof (elim disjE conjE)
      assume "e = ?n" "orig = ?g" then show ?thesis by (simp add: ev fin nf l0 P(5)) (simp add: new_event_def)
    next
      assume "e \<noteq> ?n" "origStart ?r e = Some orig"
      from events_okD [OF C(3) this(2)] this(1) show ?thesis
        using sigD [OF old [of e]] h(1) by (simp add: fin P(5))
    qed
    then show "e < length (events ?w2)" "te_kind (events ?w2 ! e) = QueuedEv" "te_preDelay (events ?w2 ! e) = 0" "latency s e = 0"
      "?st e = int orig" "te_state (events ?w2 ! e) \<in> {EV_NONE, EV_QUEUED, EV_DONE}"
      "e \<in> set [?n] \<or> te_state (events ?w2 ! e) = EV_DONE" "\<And>f. (e, f) \<in> set (finished ?w2) \<Longrightarrow> orig \<le> f" by simp_all
  qed (auto simp: rf)
  have "rec_ok L (s\<lparr>cs_rec := r', cs_weave := ?w2, cs_cycle := ?g\<rparr>) [?n] ?st"
    using oe fl2 C(2) K(2) nw
    by (simp add: rec_ok_def chain_ok_def rf prev_ok_def first_ok_def P(5) ev l0)
  moreover have "te_queue ?n ?g ?w1 = Inr ?w2" by (simp add: te_queue_def P(3))
  ultimately show ?thesis
    using HALTED h K(2)
    by (auto simp: rec_op_def notifyJoin_def new_core_event_eq Let_def r'_def set_gap_def)
qed

lemma rec_leave:
  assumes ok: "rec_ok L s cs st" and en: "rec_enabled L RLeave s"
  shows "succeeds (rec_op L RLeave s) (\<lambda>s'. \<exists>cs st. rec_ok L s' cs st)"
proof -
  let ?r = "(cs_rec s)\<lparr>cr_state := DRAINING\<rparr>" and ?w = "cs_weave s"
  let ?d = "cs_cycle s - prevRespCycle ?r" and ?n = "length (events (cs_weave s))" and ?v = "prevRespCycle ?r - gapCycles ?r"
  note K = rec_okD [OF ok]
  from en have run: "cr_state (cs_rec s) = RUNNING" "\<not> in_weave s" "?d < 2 ^ 32" by (simp_all add: rec_enabled_def Let_def)
  have k4: "cs \<noteq> []" "gapCycles ?r \<le> prevRespCycle ?r" "prevRespCycle ?r \<le> cs_cycle s" "globPhase s \<le> cs_cycle s"
    "first_ok cs (globPhase s) (globPhase s) (cs_rec s) ?w"
    using K(4) run by simp_all
  obtain p where p: "prevRespEvent ?r = Some p" using K(5) run by (cases "prevRespEvent ?r") auto
  have "chain_ok cs st (latency s) ?r ?w" using K(1) by simp
  from chain_event_ok [OF this p k4(2) run(3) refl refl] obtain r1 w1 where
    a: "chain_event ?d ?r ?w = Inr (r1, w1)" "grown ?w w1"
      "r1 = ?r\<lparr>origStart := (origStart ?r)(?n \<mapsto> ?v), prevRespEvent := Some ?n\<rparr>"
      "chain_ok (cs @ [?n]) (st(?n := int ?v)) (latency s) (r1\<lparr>prevRespCycle := cs_cycle s\<rparr>) w1" "length (events w1) = Suc ?n"
    using k4(3) by (auto simp: succeeds_iff)
  let ?r1 = "r1\<lparr>prevRespCycle := cs_cycle s\<rparr>" and ?u = "cs_cycle s - gapCycles ?r"
  have p1: "prevRespEvent ?r1 = Some ?n" "gapCycles ?r1 \<le> prevRespCycle ?r1" using k4 by (simp_all add: a(3))
  have u: "?u = prevRespCycle ?r1 - gapCycles ?r1" by (simp add: a(3))
  from chain_event_ok [OF a(4) p1, of 0, OF _ refl u] obtain r2 w2 where
    b: "chain_event 0 ?r1 w1 = Inr (r2, w2)" "grown w1 w2"
      "r2 = ?r1\<lparr>origStart := (origStart ?r1)(Suc ?n \<mapsto> ?u), prevRespEvent := Some (Suc ?n)\<rparr>"
      "chain_ok ((cs @ [?n]) @ [Suc ?n]) ((st(?n := int ?v))(Suc ?n := int ?u)) (latency s) (r2\<lparr>prevRespCycle := cs_cycle s\<rparr>) w2"
    by (auto simp: succeeds_iff a(5))
  have r2: "r2\<lparr>prevRespCycle := cs_cycle s\<rparr> = r2" by (simp add: b(3))
  have "first_ok (cs @ [?n, Suc ?n]) (globPhase s) (globPhase s) r2 w2"
  proof (rule first_ok_grown [OF k4(5) grown_trans [OF a(2) b(2)] k4(1) chain_okD(3) [OF K(1)]])
    have "origStart (cs_rec s) ?n = None" "origStart (cs_rec s) (Suc ?n) = None"
      by (simp_all add: fresh_event [OF chain_okD(3) [OF K(1)]])
    then show "origStart (cs_rec s) \<subseteq>\<^sub>m origStart r2" by (auto simp: b(3) a(3) map_le_def dom_def)
  qed (simp_all add: b(3) a(3))
  then have "rec_ok L (s\<lparr>cs_rec := r2, cs_weave := w2\<rparr>) (cs @ [?n, Suc ?n]) ((st(?n := int ?v))(Suc ?n := int ?u))"
    using b(4) k4 run K(2) unfolding r2 by (simp add: rec_ok_def) (simp add: b(3) a(3))
  then show ?thesis
    using a(1) b(1) run p k4(3) by (auto simp: rec_op_def notifyLeave_def)
qed

section \<open>Accesses\<close>

lemma prev_ok_grown:
  assumes "prev_ok cs st lat r w" "grown w w'" "\<And>i. i < length (events w) \<Longrightarrow> st' i = st i \<and> lat' i = lat i"
    and "events_ok cs st lat r w"
    and "prevRespEvent r' = prevRespEvent r" "prevRespCycle r' = prevRespCycle r" "gapCycles r' = gapCycles r"
  shows "prev_ok cs st' lat' r' w'"
proof (cases "prevRespEvent r")
  case None
  have "te_state (events w' ! e) = EV_DONE" if "e \<in> set cs" for e
    using chain_event_range [OF assms(4) that] assms(1) that sigD(2) [OF grownD(5) [OF assms(2), of e]]
    by (auto simp: prev_ok_def None)
  then show ?thesis by (simp add: prev_ok_def assms(5) None)
next
  case (Some p)
  with assms(1) have "p < length (events w)" by (simp add: prev_ok_def)
  then show ?thesis
    using assms(1,3,5-7) Some sigD [OF grownD(5) [OF assms(2), of p]] grownD(1) [OF assms(2)] grown_rtrancl [OF assms(2)]
    by (auto simp: prev_ok_def)
qed

lemma mem_grown:
  assumes m: "mem_ok s w1 lat1 st1" and ok: "flow_ok st (latency s) (cs_weave s)"
  shows "grown (cs_weave s) w1" "flow_ok (\<lambda>i. if i < length (events (cs_weave s)) then st i else st1 i - g) lat1 w1"
    "edges w1 \<inter> {..<length (events (cs_weave s))} \<times> UNIV = edges (cs_weave s)"
proof -
  let ?w = "cs_weave s" let ?n = "length (events ?w)"
  let ?st = "\<lambda>i. if i < ?n then st i else st1 i - g"
  note F = flow_okD [OF ok]
  from m have M: "?n \<le> length (events w1)" "queued w1 = queued ?w" "finished w1 = finished ?w" "wv_inv {#} w1" "acyclic (edges w1)"
    by (simp_all add: mem_ok_def Let_def)
  from m have old: "i < ?n \<Longrightarrow> events w1 ! i = events ?w ! i \<and> lat1 i = latency s i" for i
    by (simp add: mem_ok_def Let_def)
  from m have new: "?n \<le> i \<Longrightarrow> i < length (events w1) \<Longrightarrow> te_kind (events w1 ! i) = DelayEv \<Longrightarrow> lat1 i = 0" for i
    by (simp add: mem_ok_def Let_def)
  from m have ne: "(p, c) \<in> edges w1 \<Longrightarrow> ?n \<le> p \<Longrightarrow> ?n \<le> c \<and>
      st1 c \<le> st1 p + int (lat1 p + te_postDelay (events w1 ! p) + te_preDelay (events w1 ! c))" for p c
    by (auto simp: mem_ok_def Let_def)
  show ed: "edges w1 \<inter> {..<?n} \<times> UNIV = edges ?w"
    using old M(1) by (auto simp: edges_def)
  then show "grown ?w w1" using M old by (auto simp: grown_def)
  have lt: "(q, f) \<in> set (finished ?w) \<Longrightarrow> q < ?n" for q f by (rule finished_zero(1) [OF F(1)])
  have "queue_ok w1"
    unfolding queue_ok_def M(2)
  proof (intro conjI ballI, goal_cases)
    case (2 q)
    obtain x c where q: "q = (x, c)" by (cases q)
    show ?case using queue_okD [OF F(3), of x c] 2 M(1) by (simp add: q old ready_def)
  qed (use F(3) in \<open>simp add: queue_ok_def\<close>)
  moreover have "timely lat1 w1"
    unfolding timely_def M(3)
  proof (intro conjI ballI allI impI, goal_cases)
    case (1 x)
    then show ?case using F(4) new [of x] old [of x] by (cases "x < ?n") (simp_all add: timely_def)
  next
    case (2 q)
    obtain x f where q: "q = (x, f)" by (cases q)
    show ?case using F(4) 2 lt [of x f] old [of x] by (auto simp: q timely_def ready_def)
  qed
  moreover have "zero_load ?st lat1 w1"
    unfolding zero_load_def
  proof (clarify)
    fix p c assume pc: "(p, c) \<in> edges w1"
    show "?st c \<le> ?st p + int (lat1 p + te_postDelay (events w1 ! p) + te_preDelay (events w1 ! c))"
    proof (cases "p < ?n")
      case True
      then have e: "(p, c) \<in> edges ?w" using pc ed by auto
      then have "c < ?n" using edges_range [OF F(1)] by auto
      then show ?thesis using zero_loadD [OF F(5) e] True old by simp
    qed (use ne [OF pc] in auto)
  qed
  ultimately show "flow_ok ?st lat1 w1" using M by (simp add: flow_ok_def)
qed

lemma mem_closed:
  assumes m: "mem_ok s w1 lat1 st1" and a: "length (events (cs_weave s)) \<le> a" "a < length (events w1)" and p: "p < length (events (cs_weave s))"
  shows "(a, length (events w1)) \<notin> (insert (p, length (events w1)) (edges w1))\<^sup>*"
proof
  let ?F = "{length (events (cs_weave s))..<length (events w1)}" and ?R = "insert (p, length (events w1)) (edges w1)"
  assume r: "(a, length (events w1)) \<in> ?R\<^sup>*"
  have "wv_inv {#} w1" using m by (simp add: mem_ok_def Let_def)
  then have "?R `` ?F \<subseteq> ?F" using m p edges_range [where pend = "{#}" and w = w1] by (auto simp: mem_ok_def Let_def)
  then have "?R\<^sup>* `` ?F = ?F" by (rule Image_closed_trancl)
  moreover have "length (events w1) \<in> ?R\<^sup>* `` ?F" by (rule ImageI [OF r]) (use a in simp)
  ultimately show False by simp
qed

text \<open>The access of a get: a new core event, then the memory events behind it.\<close>

lemma link_behind:
  assumes fl: "flow_ok st lat w" and ed: "edges w = insert (p, n) R" and n: "n < length (events w)" "te_state (events w ! n) = EV_NONE"
    and a: "a < length (events w)" "te_state (events w ! a) = EV_NONE" "(a, n) \<notin> (insert (p, n) R)\<^sup>*"
    and z: "st a \<le> st n + int (lat n + te_postDelay (events w ! n) + te_preDelay (events w ! a))"
  shows "succeeds (addChild n a w) (\<lambda>(x, w'). flow_ok st lat w' \<and> grown w w' \<and> edges w' = insert (n, a) (edges w) \<and>
    length (events w') = length (events w))"
proof (rule link_flow [OF fl n(1) a(1) _ a(2) _ z])
  show "acyclic (insert (n, a) (edges w))"
    using flow_okD(2) [OF fl] a(3) unfolding ed acyclic_insert [of n a] by blast
qed (simp add: n(2))

lemma record_get:
  assumes ch: "chain_ok cs st lat r w" and p: "prevRespEvent r = Some p" and g: "gapCycles r \<le> prevRespCycle r"
    and req: "prevRespCycle r \<le> req" "req - prevRespCycle r < 2 ^ 32"
    and a: "a < length (events w)" "te_state (events w ! a) = EV_NONE" "(a, length (events w)) \<notin> (insert (p, length (events w)) (edges w))\<^sup>*"
      "st a \<le> int req - int (gapCycles r) + int (te_preDelay (events w ! a))"
    and b: "b < length (events w)" "te_state (events w ! b) = EV_NONE" "(a, b) \<in> (edges w)\<^sup>*"
      "int resp - int (gapCycles r) \<le> st b + int (lat b + te_postDelay (events w ! b))"
    and n: "n = length (events w)" and v: "v = prevRespCycle r - gapCycles r"
  shows "succeeds (bindR (append_event (req - prevRespCycle r) r w) (\<lambda>(e, r1, w1). bindR (addChild e a w1) (\<lambda>(x, w2).
      Inr (r1\<lparr>prevRespEvent := Some b, prevRespCycle := resp\<rparr>, w2))))
    (\<lambda>(r', w'). r' = r\<lparr>origStart := (origStart r)(n \<mapsto> v), prevRespEvent := Some b, prevRespCycle := resp\<rparr> \<and> grown w w' \<and>
       chain_ok (cs @ [n]) (st(n := int v)) lat r' w')"
proof -
  let ?st = "st(n := int v)" and ?r1 = "r\<lparr>origStart := (origStart r)(n \<mapsto> v)\<rparr>"
  from append_event_ok [OF ch p g req(2) n v] obtain w1 where
    A: "append_event (req - prevRespCycle r) r w = Inr (n, ?r1, w1)" "flow_ok ?st lat w1" "grown w w1"
      "edges w1 = insert (p, n) (edges w)" "length (events w1) = Suc n"
      "sig (events w1 ! n) = (QueuedEv, EV_NONE, 0, prevRespCycle r, 0, req - prevRespCycle r)"
      "events_ok (cs @ [n]) ?st lat ?r1 w1"
    by (auto simp: succeeds_iff)
  have N: "te_state (events w1 ! n) = EV_NONE" "te_postDelay (events w1 ! n) = req - prevRespCycle r"
    using A(6) by (simp_all add: sig_def)
  note SA = sigD [OF grownD(5) [OF A(3) a(1)]]
  have ne: "a \<noteq> n" "b \<noteq> n" using a(1) b(1) n by simp_all
  have ln: "lat n = 0" using ch by (simp add: chain_ok_def n)
  have "succeeds (addChild n a w1) (\<lambda>(x, w'). flow_ok ?st lat w' \<and> grown w1 w' \<and> edges w' = insert (n, a) (edges w1) \<and>
    length (events w') = length (events w1))"
    by (rule link_behind [OF A(2,4)]) (use a ne N SA A(5) n g req(1) ln in \<open>simp_all add: v\<close>)
  then obtain x w2 where B: "addChild n a w1 = Inr (x, w2)" "flow_ok ?st lat w2" "grown w1 w2" "edges w2 = insert (n, a) (edges w1)"
    "length (events w2) = Suc n" by (auto simp: succeeds_iff A(5))
  have gr: "grown w w2" by (rule grown_trans [OF A(3) B(3)])
  have ev: "events_ok (cs @ [n]) ?st lat (?r1\<lparr>prevRespEvent := Some b, prevRespCycle := resp\<rparr>) w2"
    by (rule events_ok_grown [OF A(7) B(3)]) simp_all
  have ab: "(n, b) \<in> (edges w2)\<^sup>*"
    using grown_rtrancl [OF gr b(3)] by (rule converse_rtrancl_into_rtrancl [rotated]) (simp add: B(4))
  have "(x, b) \<in> (edges w2)\<^sup>*" if "x \<in> set (cs @ [n])" for x
  proof (cases "x = n")
    case False
    then have "(x, n) \<in> (edges w2)\<^sup>+" using that ev by (auto simp: events_ok_def sorted_wrt_append)
    then show ?thesis using ab by simp
  qed (simp add: ab)
  then have "prev_ok (cs @ [n]) ?st lat (?r1\<lparr>prevRespEvent := Some b, prevRespCycle := resp\<rparr>) w2"
    using b(1,2,4) ne sigD [OF grownD(5) [OF gr b(1)]] B(5) n by (simp add: prev_ok_def)
  then show ?thesis
    using A(1) B(1,2,5) gr ev ch n by (simp add: chain_ok_def)
qed

text \<open>The access of a put: a delay, and the core goes on from where it was.\<close>

lemma record_put:
  assumes ch: "chain_ok cs st lat r w" and p: "prevRespEvent r = Some p" and g: "gapCycles r \<le> prevRespCycle r"
    and req: "prevRespCycle r \<le> req" "req - prevRespCycle r < 2 ^ 32"
    and a: "a < length (events w)" "te_state (events w ! a) = EV_NONE" "(a, length (events w)) \<notin> (insert (p, length (events w)) (edges w))\<^sup>*"
      "st a \<le> int req - int (gapCycles r) + int (te_preDelay (events w ! a))"
    and n: "n = length (events w)"
  shows "succeeds (bindR (addChild p n (put_event (new_DelayEvent (req - prevRespCycle r)) minc w)) (\<lambda>(x, w1).
      bindR (addChild n a w1) (\<lambda>(y, w2). Inr (r, w2))))
    (\<lambda>(r', w'). r' = r \<and> grown w w' \<and> (\<exists>st'. chain_ok cs st' lat r w'))"
proof -
  let ?e = "new_DelayEvent (req - prevRespCycle r)" and ?v = "int req - int (gapCycles r)"
  let ?st = "st(n := ?v)"
  note C = chain_okD [OF ch]
  from C(4) p have P: "p < length (events w)" "te_state (events w ! p) \<in> {EV_NONE, EV_QUEUED}"
    "int (prevRespCycle r) - int (gapCycles r) \<le> st p + int (lat p + te_postDelay (events w ! p))" by (auto simp: prev_ok_def)
  have e: "visit ?e = []" "te_numParents ?e = 0" "te_cycle ?e = 0" "te_state ?e = EV_NONE" "te_preDelay ?e = req - prevRespCycle r"
    using req(2) by (simp_all add: new_DelayEvent_def) (simp add: new_event_def)
  have ln: "lat n = 0" using C(2) by (simp add: n)
  from put_link_flow [OF C(1) P(1,2) e(1-4), of ?v minc] ln P(3) req(1) e(5)
  obtain x w1 where A: "addChild p n (put_event ?e minc w) = Inr (x, w1)" "flow_ok ?st lat w1" "grown w w1" "edges w1 = insert (p, n) (edges w)"
    "length (events w1) = Suc n" "sig (events w1 ! n) = sig (?e\<lparr>te_minStart := minc\<rparr>)"
    by (auto simp: succeeds_iff n)
  have N: "te_state (events w1 ! n) = EV_NONE" using A(6) e by (simp add: sig_def)
  have post: "te_postDelay (events w1 ! n) = 0" using A(6) by (simp add: sig_def new_DelayEvent_def new_event_def)
  note SA = sigD [OF grownD(5) [OF A(3) a(1)]]
  have ne: "a \<noteq> n" using a(1) n by simp
  have "succeeds (addChild n a w1) (\<lambda>(x, w'). flow_ok ?st lat w' \<and> grown w1 w' \<and> edges w' = insert (n, a) (edges w1) \<and>
    length (events w') = length (events w1))"
    by (rule link_behind [OF A(2,4)]) (use a ne N post SA A(5) n ln in simp_all)
  then obtain y w2 where B: "addChild n a w1 = Inr (y, w2)" "flow_ok ?st lat w2" "grown w1 w2" "length (events w2) = Suc n"
    by (auto simp: succeeds_iff A(5))
  have gr: "grown w w2" by (rule grown_trans [OF A(3) B(3)])
  have "events_ok cs ?st lat r w2" by (rule events_ok_grown [OF C(3) gr]) (simp_all add: n)
  moreover have "prev_ok cs ?st lat r w2" by (rule prev_ok_grown [OF C(4) gr _ C(3)]) (simp_all add: n)
  ultimately have "chain_ok cs ?st lat r w2" using B(2,4) C(2) n by (simp add: chain_ok_def)
  then show ?thesis using A(1) B(1) gr by auto
qed

lemma rec_access:
  assumes ok: "rec_ok L s cs st" and en: "rec_enabled L (RAccess w1 lat1 tr resp) s"
  shows "succeeds (rec_op L (RAccess w1 lat1 tr resp) s) (\<lambda>s'. \<exists>cs st. rec_ok L s' cs st)"
proof -
  let ?w = "cs_weave s" let ?n = "length (events ?w)" and ?m = "length (events w1)"
  define r where "r = (cs_rec s)\<lparr>cr_slot := tr\<rparr>"
  define g where "g = gapCycles r"
  from en obtain st1 where run: "cr_state (cs_rec s) = RUNNING" "\<not> in_weave s" "cs_cycle s \<le> resp"
    and m: "mem_ok s w1 lat1 st1" and rec: "rc_valid tr \<Longrightarrow> record_ok s w1 lat1 tr resp st1"
    by (auto simp: rec_enabled_def Let_def)
  note K = rec_okD [OF ok] note C = chain_okD [OF K(1)]
  have k4: "cs \<noteq> []" "g \<le> prevRespCycle r" "prevRespCycle r \<le> cs_cycle s" "globPhase s \<le> cs_cycle s"
    "first_ok cs (globPhase s) (globPhase s) (cs_rec s) ?w"
    using K(4) run by (simp_all add: r_def g_def)
  obtain p where p: "prevRespEvent r = Some p" using K(5) run by (cases "prevRespEvent r") (auto simp: r_def)
  have pn: "p < ?n" using C(4) p by (simp add: prev_ok_def r_def)
  define st' where "st' = (\<lambda>i. if i < ?n then st i else st1 i - int g)"
  note G = mem_grown(1) [OF m C(1)] mem_grown(2) [OF m C(1), of "int g", folded st'_def]
  have old: "i < ?n \<Longrightarrow> st' i = st i \<and> lat1 i = latency s i" for i using m by (simp add: st'_def mem_ok_def Let_def)
  have l0: "?m \<le> i \<Longrightarrow> lat1 i = 0" for i using m by (simp add: mem_ok_def Let_def)
  have state0: "?n \<le> i \<Longrightarrow> i < ?m \<Longrightarrow> te_state (events w1 ! i) = EV_NONE" for i using m by (simp add: mem_ok_def Let_def)
  have ev1: "events_ok cs st' lat1 r w1" by (rule events_ok_grown [OF C(3) G(1) old]) (simp_all add: r_def)
  have pv1: "prev_ok cs st' lat1 r w1" by (rule prev_ok_grown [OF C(4) G(1) old C(3)]) (simp_all add: r_def)
  have ch: "chain_ok cs st' lat1 r w1" using G(2) l0 ev1 pv1 by (simp add: chain_ok_def)
  show ?thesis
  proof (cases "rc_valid tr")
    case False
    have "first_ok (cs @ []) (globPhase s) (globPhase s) r w1"
      by (rule first_ok_grown [OF k4(5) G(1) k4(1) C(3)]) (simp_all add: r_def)
    then have "rec_ok L (s\<lparr>cs_rec := r, cs_weave := w1, latency := lat1, cs_cycle := resp\<rparr>) cs st'"
      using ch k4 K(2) run p by (simp add: rec_ok_def g_def) (simp add: r_def)
    then show ?thesis using False by (auto simp: rec_op_def cr_record_def r_def)
  next
    case True
    let ?r0 = "r\<lparr>cr_slot := rc_clear tr\<rparr>" and ?v = "prevRespCycle r - g"
    have ch0: "chain_ok cs st' lat1 ?r0 w1" using ch by simp
    from rec [OF True] obtain a where R: "cs_cycle s \<le> rc_reqCycle tr" "rc_reqCycle tr - prevRespCycle r < 2 ^ 32"
      and a: "rc_startEvent tr = Some a" "?n \<le> a" "a < ?m" "st1 a \<le> int (rc_reqCycle tr) + int (te_preDelay (events w1 ! a))"
      and get: "IsGet (rc_type tr) \<Longrightarrow> rc_reqCycle tr \<le> rc_respCycle tr \<and> rc_respCycle tr \<le> resp \<and>
          (\<exists>b. rc_endEvent tr = Some b \<and> ?n \<le> b \<and> b < ?m \<and> (a, b) \<in> (edges w1)\<^sup>* \<and>
             int (rc_respCycle tr) \<le> st1 b + int (lat1 b + te_postDelay (events w1 ! b)))"
      by (auto simp: record_ok_def Let_def r_def)
    have req: "prevRespCycle r \<le> rc_reqCycle tr" using R(1) k4(3) by simp
    have A: "te_state (events w1 ! a) = EV_NONE" "(a, ?m) \<notin> (insert (p, ?m) (edges w1))\<^sup>*"
      "st' a \<le> int (rc_reqCycle tr) - int (gapCycles ?r0) + int (te_preDelay (events w1 ! a))"
      using state0 [OF a(2,3)] mem_closed [OF m a(2,3) pn] a(2,4) by (simp_all add: st'_def g_def)
    have p0: "prevRespEvent ?r0 = Some p" "gapCycles ?r0 \<le> prevRespCycle ?r0" using p k4(2) by (simp_all add: g_def)
    show ?thesis
    proof (cases "IsGet (rc_type tr)")
      case True
      with get obtain b where b: "rc_endEvent tr = Some b" "?n \<le> b" "b < ?m" "(a, b) \<in> (edges w1)\<^sup>*"
        "int (rc_respCycle tr) \<le> st1 b + int (lat1 b + te_postDelay (events w1 ! b))"
        "rc_reqCycle tr \<le> rc_respCycle tr" "rc_respCycle tr \<le> resp" by auto
      have B: "int (rc_respCycle tr) - int (gapCycles ?r0) \<le> st' b + int (lat1 b + te_postDelay (events w1 ! b))"
        using b(2,5) by (simp add: st'_def g_def)
      from record_get [OF ch0 p0 _ _ a(3) A b(3) state0 [OF b(2,3)] b(4) B refl refl] req R(2)
      obtain r' w' where o: "bindR (append_event (rc_reqCycle tr - prevRespCycle ?r0) ?r0 w1) (\<lambda>(e, r1, w1). bindR (addChild e a w1) (\<lambda>(x, w2).
            Inr (r1\<lparr>prevRespEvent := Some b, prevRespCycle := rc_respCycle tr\<rparr>, w2))) = Inr (r', w')"
        and r': "r' = ?r0\<lparr>origStart := (origStart ?r0)(?m \<mapsto> ?v), prevRespEvent := Some b, prevRespCycle := rc_respCycle tr\<rparr>"
        and w': "grown w1 w'" "chain_ok (cs @ [?m]) (st'(?m := int ?v)) lat1 r' w'"
        by (auto simp: succeeds_iff g_def)
      have "first_ok (cs @ [?m]) (globPhase s) (globPhase s) r' w'"
      proof (rule first_ok_grown [OF k4(5) grown_trans [OF G(1) w'(1)] k4(1) C(3)])
        have "origStart (cs_rec s) ?m = None" using fresh_event [OF ev1, of ?m] by (simp add: r_def)
        then show "origStart (cs_rec s) \<subseteq>\<^sub>m origStart r'" by (auto simp: r' r_def map_le_def dom_def)
      qed (simp_all add: r' r_def)
      then have "rec_ok L (s\<lparr>cs_rec := r', cs_weave := w', latency := lat1, cs_cycle := resp\<rparr>) (cs @ [?m]) (st'(?m := int ?v))"
        using w'(2) k4 K(2) run b(6,7) R req by (simp add: rec_ok_def) (simp add: r' r_def g_def)
      moreover have "rec_op L (RAccess w1 lat1 tr resp) s = Inr (s\<lparr>cs_rec := r', cs_weave := w', latency := lat1, cs_cycle := resp\<rparr>)"
        using o True \<open>rc_valid tr\<close> req R(1) k4(3) a(1) b(1)
        by (simp add: rec_op_def cr_record_def recordAccess_def popRecord_def link_start_def r_def bindR_eq_Inr_iff Let_def split: prod.splits) fastforce
      ultimately show ?thesis by auto
    next
      case False
      then have put: "IsPut (rc_type tr)" by (cases "rc_type tr") (simp_all add: IsGet_def IsPut_def)
      from record_put [OF ch0 p0 _ _ a(3) A refl, of "prevRespCycle r"] req R(2)
      obtain w' st2 where o: "bindR (addChild p ?m (put_event (new_DelayEvent (rc_reqCycle tr - prevRespCycle ?r0)) (prevRespCycle r) w1)) (\<lambda>(x, w1).
          bindR (addChild ?m a w1) (\<lambda>(y, w2). Inr (?r0, w2))) = Inr (?r0, w')"
        and w': "grown w1 w'" "chain_ok cs st2 lat1 ?r0 w'" by (auto simp: succeeds_iff)
      have "first_ok (cs @ []) (globPhase s) (globPhase s) ?r0 w'"
        by (rule first_ok_grown [OF k4(5) grown_trans [OF G(1) w'(1)] k4(1) C(3)]) (simp_all add: r_def)
      then have "rec_ok L (s\<lparr>cs_rec := ?r0, cs_weave := w', latency := lat1, cs_cycle := resp\<rparr>) cs st2"
        using w'(2) k4 K(2) run p by (simp add: rec_ok_def g_def) (simp add: r_def)
      moreover have "rec_op L (RAccess w1 lat1 tr resp) s = Inr (s\<lparr>cs_rec := ?r0, cs_weave := w', latency := lat1, cs_cycle := resp\<rparr>)"
        using o False put \<open>rc_valid tr\<close> req R(1) k4(3) a(1) p
        by (simp add: rec_op_def cr_record_def recordAccess_def popRecord_def link_start_def r_def put_event_def alloc_def bindR_eq_Inr_iff Let_def split: prod.splits) fastforce
      ultimately show ?thesis by auto
    qed
  qed
qed

section \<open>Between the phases\<close>

lemma first_ok_limit: "first_ok cs glob l r w \<Longrightarrow> l \<le> l' \<Longrightarrow> first_ok cs glob l' r w"
  by (auto simp: first_ok_def)

lemma first_ok_fields:
  assumes "first_ok cs glob l r w" "gapCycles r' = gapCycles r" "lastStartCycle r' = lastStartCycle r"
    "lastOrigStartCycle r' = lastOrigStartCycle r" "origStart r' = origStart r"
  shows "first_ok cs glob l r' w"
  using assms by (simp add: first_ok_def)

lemma fresh_map_le: "events_ok cs st lat r w \<Longrightarrow> length (events w) \<le> i \<Longrightarrow> origStart r \<subseteq>\<^sub>m (origStart r)(i \<mapsto> v)"
  using fresh_event [of cs st lat r w i] by (auto simp: map_le_def dom_def)

text \<open>The taper of a phase: an event up to the current cycle when the core has moved on, and one at it.\<close>

lemma taper_ok:
  assumes ch: "chain_ok cs st lat r w" and p: "prevRespEvent r = Some p" and g: "gapCycles r \<le> prevRespCycle r"
    and c: "prevRespCycle r \<le> cur" "cur - prevRespCycle r < 2 ^ 32"
    and f: "first_ok cs glob l r w" "cs \<noteq> []"
  shows "succeeds (bindR (if prevRespCycle r < cur
                    then bindR (chain_event (cur - prevRespCycle r) r w) (\<lambda>(r1, w1). Inr (r1\<lparr>prevRespCycle := cur\<rparr>, w1))
                    else Inr (r, w)) (\<lambda>(r1, w1). bindR (chain_event 0 r1 w1) (\<lambda>(r2, w2). Inr (cur, r2, w2))))
    (\<lambda>(c', r', w'). c' = cur \<and> (\<exists>ds st' n v om. n < length (events w') \<and> te_minStart (events w' ! n) = cur \<and>
       r' = r\<lparr>prevRespCycle := cur, prevRespEvent := Some n, origStart := om(n \<mapsto> v)\<rparr> \<and>
       chain_ok (cs @ ds) st' lat r' w' \<and> first_ok (cs @ ds) glob l r' w'))"
proof -
  let ?n = "length (events w)" and ?v = "prevRespCycle r - gapCycles r"
  obtain r1 w1 ds st1 m where
    a: "(if prevRespCycle r < cur
         then bindR (chain_event (cur - prevRespCycle r) r w) (\<lambda>(r1, w1). Inr (r1\<lparr>prevRespCycle := cur\<rparr>, w1))
         else Inr (r, w)) = Inr (r1, w1)" "chain_ok (cs @ ds) st1 lat r1 w1" "grown w w1"
      "prevRespEvent r1 = Some m" "prevRespCycle r1 = cur" "gapCycles r1 = gapCycles r"
      "r1 = r\<lparr>prevRespCycle := cur, prevRespEvent := Some m, origStart := origStart r1\<rparr>" "origStart r \<subseteq>\<^sub>m origStart r1"
  proof (cases "prevRespCycle r < cur")
    case False
    with c(1) have e: "prevRespCycle r = cur" by simp
    show ?thesis by (rule that [of r w "[]" st p]) (use False ch p e in auto)
  next
    case True
    from chain_event_ok [OF ch p g c(2) refl refl] c(1) obtain r1 w1 where
      b: "chain_event (cur - prevRespCycle r) r w = Inr (r1, w1)" "grown w w1"
        "r1 = r\<lparr>origStart := (origStart r)(?n \<mapsto> ?v), prevRespEvent := Some ?n\<rparr>"
        "chain_ok (cs @ [?n]) (st(?n := int ?v)) lat (r1\<lparr>prevRespCycle := cur\<rparr>) w1"
      by (auto simp: succeeds_iff)
    show ?thesis
      by (rule that [of "r1\<lparr>prevRespCycle := cur\<rparr>" w1 "[?n]" "st(?n := int ?v)" ?n])
        (use True b fresh_map_le [OF chain_okD(3) [OF ch], of ?n] in simp_all)
  qed
  let ?m = "length (events w1)" and ?u = "prevRespCycle r1 - gapCycles r1"
  have g1: "gapCycles r1 \<le> prevRespCycle r1" using g c(1) a(5,6) by simp
  from chain_event_ok [OF a(2,4) g1, of 0, OF _ refl refl] obtain r2 w2 where
    b: "chain_event 0 r1 w1 = Inr (r2, w2)" "grown w1 w2" "length (events w2) = Suc ?m" "te_minStart (events w2 ! ?m) = cur"
      "r2 = r1\<lparr>origStart := (origStart r1)(?m \<mapsto> ?u), prevRespEvent := Some ?m\<rparr>"
      "chain_ok ((cs @ ds) @ [?m]) (st1(?m := int ?u)) lat (r2\<lparr>prevRespCycle := prevRespCycle r1\<rparr>) w2"
    by (auto simp: succeeds_iff a(5))
  have r2: "r2\<lparr>prevRespCycle := prevRespCycle r1\<rparr> = r2" by (simp add: b(5))
  have r2': "r2 = r\<lparr>prevRespCycle := cur, prevRespEvent := Some ?m, origStart := (origStart r1)(?m \<mapsto> ?u)\<rparr>"
    unfolding b(5) by (subst a(7)) simp
  have "origStart r \<subseteq>\<^sub>m origStart r2"
    unfolding b(5) using map_le_trans [OF a(8) fresh_map_le [OF chain_okD(3) [OF a(2)], of ?m ?u]] by simp
  then have "first_ok (cs @ ds @ [?m]) glob l r2 w2"
    by (rule first_ok_grown [OF f(1) grown_trans [OF a(3) b(2)] f(2) chain_okD(3) [OF ch]]) (simp_all add: r2')
  moreover have "chain_ok (cs @ ds @ [?m]) (st1(?m := int ?u)) lat r2 w2" using b(6) by (simp add: r2)
  ultimately have "\<exists>ds st' n v om. n < length (events w2) \<and> te_minStart (events w2 ! n) = cur \<and>
       r2 = r\<lparr>prevRespCycle := cur, prevRespEvent := Some n, origStart := om(n \<mapsto> v)\<rparr> \<and>
       chain_ok (cs @ ds) st' lat r2 w2 \<and> first_ok (cs @ ds) glob l r2 w2"
    using b(3,4) r2' by (intro exI [of _ "ds @ [?m]"] exI [of _ "st1(?m := int ?u)"] exI [of _ ?m] exI [of _ ?u]
      exI [of _ "origStart r1"]) simp
  then show ?thesis unfolding a(1) using b(1) by simp
qed

lemma rec_phase_end:
  assumes ok: "rec_ok L s cs st" and en: "rec_enabled L RPhaseEnd s"
  shows "succeeds (rec_op L RPhaseEnd s) (\<lambda>s'. \<exists>cs st. rec_ok L s' cs st)"
proof (cases "cr_state (cs_rec s)")
  case HALTED
  then have "rec_ok L (s\<lparr>in_weave := True\<rparr>) cs st" using ok by (auto simp: rec_ok_def Let_def)
  then show ?thesis using HALTED by (auto simp: rec_op_def cSimStart_def)
next
  case DRAINING
  have nw: "\<not> in_weave s" using en by (simp add: rec_enabled_def Let_def)
  then have "rec_ok L (s\<lparr>cs_cycle := max (cs_cycle s) (globPhase s + L), in_weave := True\<rparr>) cs st"
    using ok DRAINING first_ok_limit [of cs "globPhase s" "globPhase s" "cs_rec s" "cs_weave s" "globPhase s + L"]
    by (auto simp: rec_ok_def Let_def)
  then show ?thesis using DRAINING by (auto simp: rec_op_def cSimStart_def)
next
  case RUNNING
  let ?r = "cs_rec s" and ?w = "cs_weave s"
  note K = rec_okD [OF ok]
  from en have nw: "\<not> in_weave s" "globPhase s + L \<le> cs_cycle s" "cs_cycle s - prevRespCycle ?r < 2 ^ 32"
    using RUNNING by (simp_all add: rec_enabled_def Let_def)
  have k4: "cs \<noteq> []" "gapCycles ?r \<le> prevRespCycle ?r" "prevRespCycle ?r \<le> cs_cycle s"
    "first_ok cs (globPhase s) (globPhase s) ?r ?w"
    using K(4) RUNNING nw(1) by simp_all
  obtain p where p: "prevRespEvent ?r = Some p" using K(5) RUNNING by (cases "prevRespEvent ?r") auto
  from taper_ok [OF K(1) p k4(2,3) nw(3) k4(4,1)] obtain r' w' ds st' n v om where
    t: "bindR (if prevRespCycle ?r < cs_cycle s
                    then bindR (chain_event (cs_cycle s - prevRespCycle ?r) ?r ?w) (\<lambda>(r1, w1). Inr (r1\<lparr>prevRespCycle := cs_cycle s\<rparr>, w1))
                    else Inr (?r, ?w)) (\<lambda>(r1, w1). bindR (chain_event 0 r1 w1) (\<lambda>(r2, w2). Inr (cs_cycle s, r2, w2))) = Inr (cs_cycle s, r', w')"
      "te_minStart (events w' ! n) = cs_cycle s"
      "r' = ?r\<lparr>prevRespCycle := cs_cycle s, prevRespEvent := Some n, origStart := om(n \<mapsto> v)\<rparr>"
      "chain_ok (cs @ ds) st' (latency s) r' w'" "first_ok (cs @ ds) (globPhase s) (globPhase s) r' w'"
    by (auto simp: succeeds_iff)
  have "first_ok (cs @ ds) (globPhase s) (globPhase s + L) r' w'" by (rule first_ok_limit [OF t(5)]) simp
  then have "rec_ok L (s\<lparr>cs_rec := r', cs_weave := w', cs_cycle := cs_cycle s, in_weave := True\<rparr>) (cs @ ds) st'"
    using t(2,4) k4 K(2) RUNNING nw by (simp add: rec_ok_def) (simp add: t(3))
  moreover have "rec_op L RPhaseEnd s = Inr (s\<lparr>cs_rec := r', cs_weave := w', cs_cycle := cs_cycle s, in_weave := True\<rparr>)"
    using t(1) RUNNING nw(2) by (simp add: rec_op_def cSimStart_def)
  ultimately show ?thesis by (metis succeeds_Inr)
qed

lemma events_ok_ended:
  assumes "events_ok cs st lat r w" "\<forall>e\<in>set cs. te_state (events w ! e) = EV_DONE" "origStart r' = origStart r"
  shows "events_ok [] st lat r' w"
proof -
  have "te_state (events w ! e) = EV_DONE" if "origStart r e = Some orig" for e orig
    using events_okD(8) [OF assms(1) that] assms(2) by blast
  then show ?thesis using events_okD [OF assms(1)] by (simp add: events_ok_def assms(3))
qed

lemma rec_phase_start:
  assumes ok: "rec_ok L s cs st" and en: "rec_enabled L RPhaseStart s" and len: "0 < L"
  shows "succeeds (rec_op L RPhaseStart s) (\<lambda>s'. \<exists>cs st. rec_ok L s' cs st)"
proof (cases "cr_state (cs_rec s) = HALTED")
  case True
  then have "rec_ok L (s\<lparr>globPhase := globPhase s + L, in_weave := False\<rparr>) cs st" using ok by (auto simp: rec_ok_def Let_def)
  then show ?thesis using True by (auto simp: rec_op_def cSimEnd_def)
next
  case False
  let ?r = "cs_rec s" and ?w = "cs_weave s"
  note K = rec_okD [OF ok] note C = chain_okD [OF K(1)]
  from en have iw: "in_weave s" "\<forall>(i, t)\<in>set (queued ?w). globPhase s + L \<le> t" by (simp_all add: rec_enabled_def Let_def)
  have k4: "cs \<noteq> []" "gapCycles ?r \<le> prevRespCycle ?r" "prevRespCycle ?r \<le> cs_cycle s" "globPhase s + L \<le> cs_cycle s"
    "first_ok cs (globPhase s) (globPhase s + L) ?r ?w"
    using K(4) False iw(1) by simp_all
  have ended: "te_state (events ?w ! hd cs) = EV_DONE"
    using k4(5) iw(2) len by (auto simp: first_ok_def split: if_splits)
  with k4(5) have last: "\<exists>e\<in>set cs. origStart ?r e = Some (lastOrigStartCycle ?r) \<and> (e, lastStartCycle ?r) \<in> set (finished ?w)"
    "lastOrigStartCycle ?r + gapCycles ?r \<le> lastStartCycle ?r" "lastStartCycle ?r < globPhase s + L"
    by (simp_all add: first_ok_def)
  define skew where "skew = lastStartCycle ?r - (lastOrigStartCycle ?r + gapCycles ?r)"
  define r1 where "r1 = set_gap (gapCycles ?r + skew) (?r\<lparr>prevRespCycle := prevRespCycle ?r + skew\<rparr>)"
  have f: "gapCycles r1 = gapCycles ?r + skew" "prevRespCycle r1 = prevRespCycle ?r + skew" "prevRespEvent r1 = prevRespEvent ?r"
    "origStart r1 = origStart ?r" "cr_state r1 = cr_state ?r" "lastUnhaltedCycle r1 = lastUnhaltedCycle ?r"
    "lastStartCycle r1 = lastStartCycle ?r" "lastOrigStartCycle r1 = lastOrigStartCycle ?r"
    by (simp_all add: r1_def set_gap_def)
  have ch: "chain_ok cs st (latency s) r1 ?w"
    using K(1) by (simp add: chain_ok_def events_ok_def prev_ok_def f cong: option.case_cong)
  have op: "rec_op L RPhaseStart s = (if prevRespEvent ?r = None
      then require (cr_state ?r = DRAINING) (AssertFail ''state == DRAINING'')
        (Inr (s\<lparr>cs_rec := r1\<lparr>lastUnhaltedCycle := lastStartCycle ?r, cr_state := HALTED\<rparr>, cs_cycle := cs_cycle s + skew,
          globPhase := globPhase s + L, in_weave := False\<rparr>))
      else Inr (s\<lparr>cs_rec := r1, cs_cycle := cs_cycle s + skew, globPhase := globPhase s + L, in_weave := False\<rparr>))"
    using last k4(4) False
    by (simp add: rec_op_def cSimEnd_def Let_def skew_def [symmetric] r1_def [symmetric] f require_def)
  show ?thesis
  proof (cases "prevRespEvent ?r")
    case None
    then have "cr_state ?r = DRAINING" using K(5) False by simp
    moreover have "chain_ok [] st (latency s) (r1\<lparr>lastUnhaltedCycle := lastStartCycle ?r, cr_state := HALTED\<rparr>) ?w"
    proof -
      have d: "\<forall>e\<in>set cs. te_state (events ?w ! e) = EV_DONE" using C(4) None by (simp add: prev_ok_def)
      have "events_ok [] st (latency s) (r1\<lparr>lastUnhaltedCycle := lastStartCycle ?r, cr_state := HALTED\<rparr>) ?w"
        by (rule events_ok_ended [OF C(3) d]) (simp add: f)
      then show ?thesis using C(1,2) None by (simp add: chain_ok_def prev_ok_def f)
    qed
    then have "rec_ok L (s\<lparr>cs_rec := r1\<lparr>lastUnhaltedCycle := lastStartCycle ?r, cr_state := HALTED\<rparr>, cs_cycle := cs_cycle s + skew,
          globPhase := globPhase s + L, in_weave := False\<rparr>) [] st"
      using last None by (simp add: rec_ok_def f)
    ultimately show ?thesis using op None by auto
  next
    case (Some p)
    have "first_ok cs (globPhase s + L) (globPhase s + L) r1 ?w"
      using ended last by (simp add: first_ok_def f skew_def)
    then have "rec_ok L (s\<lparr>cs_rec := r1, cs_cycle := cs_cycle s + skew, globPhase := globPhase s + L, in_weave := False\<rparr>) cs st"
      using ch K(2,5-7) k4 Some iw(1) False by (simp add: rec_ok_def f)
    then show ?thesis using op Some by auto
  qed
qed

section \<open>Weave phase\<close>

text \<open>A step of the weave phase as the chain sees it.\<close>

definition core_step :: "nat \<Rightarrow> CoreRecorder \<Rightarrow> Weave \<Rightarrow> Weave \<Rightarrow> bool" where
  "core_step t r w w' \<longleftrightarrow> same_graph w w' \<and> set (finished w) \<subseteq> set (finished w') \<and>
     (\<forall>e orig. origStart r e = Some orig \<longrightarrow>
        (te_state (events w' ! e) = te_state (events w ! e) \<or>
         te_state (events w ! e) = EV_NONE \<and> te_state (events w' ! e) = EV_QUEUED \<or>
         te_state (events w ! e) = EV_QUEUED \<and> te_state (events w' ! e) = EV_DONE \<and> (e, t) \<in> set (finished w') \<and> orig \<le> t) \<and>
        (\<forall>f. (e, f) \<in> set (finished w') \<longrightarrow> (e, f) \<in> set (finished w) \<or> orig \<le> f))"

lemma core_stepD:
  assumes "core_step t r w w'"
  shows "same_graph w w'" "set (finished w) \<subseteq> set (finished w')"
    and "origStart r e = Some orig \<Longrightarrow> te_state (events w' ! e) = te_state (events w ! e) \<or>
         te_state (events w ! e) = EV_NONE \<and> te_state (events w' ! e) = EV_QUEUED \<or>
         te_state (events w ! e) = EV_QUEUED \<and> te_state (events w' ! e) = EV_DONE \<and> (e, t) \<in> set (finished w') \<and> orig \<le> t"
    and "origStart r e = Some orig \<Longrightarrow> (e, f) \<in> set (finished w') \<Longrightarrow> (e, f) \<in> set (finished w) \<or> orig \<le> f"
  using assms unfolding core_step_def by blast+

lemma core_step_done: "core_step t r w w' \<Longrightarrow> origStart r e = Some orig \<Longrightarrow> te_state (events w ! e) = EV_DONE \<Longrightarrow>
    te_state (events w' ! e) = EV_DONE"
  using core_stepD(3) by fastforce

lemma events_ok_step:
  assumes ev: "events_ok cs st lat r w" and st: "core_step t r w w'"
  shows "events_ok cs st lat r w'"
proof -
  note D = core_stepD [OF st] note g = same_graphD [OF D(1)]
  show ?thesis
    unfolding events_ok_def
  proof (intro conjI allI impI)
    fix e orig assume o: "origStart r e = Some orig"
    note X = events_okD [OF ev o]
    show "e < length (events w')" "te_kind (events w' ! e) = QueuedEv" "te_preDelay (events w' ! e) = 0" "lat e = 0" "st e = int orig"
      using X(1-5) g(1) g(3,4) [OF X(1)] by simp_all
    show "te_state (events w' ! e) \<in> {EV_NONE, EV_QUEUED, EV_DONE}" using X(6) D(3) [OF o] by auto
    show "\<And>f. (e, f) \<in> set (finished w') \<Longrightarrow> orig \<le> f" using X(7) D(4) [OF o] by blast
    show "e \<in> set cs \<or> te_state (events w' ! e) = EV_DONE" using X(8) core_step_done [OF st o] by blast
  qed (use ev edges_same [OF D(1)] in \<open>simp_all add: events_ok_def\<close>)
qed

lemma prev_ok_step:
  assumes pv: "prev_ok cs st lat r w" and st: "core_step t r w w'" and ev: "events_ok cs st lat r w"
    and p: "\<And>p. prevRespEvent r = Some p \<Longrightarrow> origStart r p \<noteq> None \<and> te_state (events w' ! p) \<noteq> EV_DONE"
  shows "prev_ok cs st lat r w'"
proof (cases "prevRespEvent r")
  case None
  then show ?thesis
    using pv core_step_done [OF st] chain_event_range [OF ev] by (fastforce simp: prev_ok_def)
next
  case (Some q)
  from p [OF Some] obtain orig where o: "origStart r q = Some orig" "te_state (events w' ! q) \<noteq> EV_DONE" by auto
  note D = core_stepD [OF st] note g = same_graphD [OF D(1)]
  from pv Some have Q: "q < length (events w)" "te_state (events w ! q) \<in> {EV_NONE, EV_QUEUED}" by (simp_all add: prev_ok_def)
  then have "te_state (events w' ! q) \<in> {EV_NONE, EV_QUEUED}" using D(3) [OF o(1)] o(2) by auto
  then show ?thesis using pv Some Q g(1) g(5) [OF Q(1)] edges_same [OF D(1)] by (simp add: prev_ok_def)
qed

lemma first_ok_step:
  assumes f: "first_ok cs glob l r w" and st: "core_step t r w w'" and ev: "events_ok cs st' lat r w" and cs: "cs \<noteq> []"
    and h: "te_state (events w ! hd cs) \<noteq> EV_DONE \<Longrightarrow> te_state (events w' ! hd cs) \<noteq> EV_DONE \<and> (hd cs, glob) \<in> set (queued w')"
  shows "first_ok cs glob l r w'"
proof -
  note D = core_stepD [OF st]
  obtain orig where o: "hd cs < length (events w)" "origStart r (hd cs) = Some orig"
    using chain_event_range [OF ev, of "hd cs"] cs by auto
  have m: "te_minStart (events w' ! hd cs) = te_minStart (events w ! hd cs)"
    using D(1) o(1) by (simp add: same_graph_def static_def)
  show ?thesis
  proof (cases "te_state (events w ! hd cs) = EV_DONE")
    case True
    then show ?thesis using f core_step_done [OF st o(2)] D(2) by (auto simp: first_ok_def)
  next
    case False
    then show ?thesis using f h [OF False] m by (simp add: first_ok_def)
  qed
qed

lemma head_first:
  assumes inv: "wv_inv {#} w" and ev: "events_ok cs st lat r w" and i: "i \<in> set cs" "te_numParents (events w ! i) = 0"
  shows "hd cs = i \<or> te_state (events w ! hd cs) = EV_DONE"
proof (rule disjCI)
  assume d: "te_state (events w ! hd cs) \<noteq> EV_DONE"
  show "hd cs = i"
  proof (rule ccontr)
    assume ne: "hd cs \<noteq> i"
    obtain c cs' where cs: "cs = c # cs'" using i(1) by (cases cs) auto
    then have "(hd cs, i) \<in> (edges w)\<^sup>+" using ev i(1) ne by (auto simp: events_ok_def)
    then show False using ancestors_done [OF inv _ i(2)] d by blast
  qed
qed

text \<open>
  The next event of the chain that runs is later than its zero-load start by at least what contention had
  added before.
\<close>

lemma no_negative_skew:
  assumes fl: "flow_ok st lat w" and ev: "events_ok cs st lat r w" and f: "first_ok cs glob l r w"
    and i: "origStart r i = Some orig" "te_state (events w ! i) = EV_QUEUED" "ready w i \<le> t" "te_minStart (events w ! i) \<le> t"
  shows "orig + gapCycles r \<le> t"
proof -
  note F = flow_okD [OF fl] note X = events_okD [OF ev i(1)]
  have ics: "i \<in> set cs" using X(8) i(2) by simp
  have zi: "te_numParents (events w ! i) = 0" using done_zero [OF F(1) X(1)] i(2) by simp
  have ord: "a = b \<or> (a, b) \<in> (edges w)\<^sup>+ \<or> (b, a) \<in> (edges w)\<^sup>+" if "a \<in> set cs" "b \<in> set cs" for a b
  proof -
    from that obtain j k where jk: "j < length cs" "k < length cs" "a = cs ! j" "b = cs ! k" by (auto simp: in_set_conv_nth)
    have "sorted_wrt (\<lambda>a b. (a, b) \<in> (edges w)\<^sup>+) cs" using ev by (simp add: events_ok_def)
    then show ?thesis using jk sorted_wrt_nth_less [of _ cs j k] sorted_wrt_nth_less [of _ cs k j] by (cases j k rule: linorder_cases) auto
  qed
  show ?thesis
  proof (cases "te_state (events w ! hd cs) = EV_DONE")
    case False
    then have g: "gapCycles r = 0" "te_minStart (events w ! hd cs) = glob" "origStart r (hd cs) = Some glob"
      using f by (simp_all add: first_ok_def)
    have "hd cs = i" using head_first [OF F(1) ev ics zi] False by blast
    then show ?thesis using g i(1,4) by simp
  next
    case True
    then obtain e where e: "e \<in> set cs" "origStart r e = Some (lastOrigStartCycle r)" "(e, lastStartCycle r) \<in> set (finished w)"
      "lastOrigStartCycle r + gapCycles r \<le> lastStartCycle r"
      using f by (auto simp: first_ok_def)
    note E = events_okD [OF ev e(2)]
    have "e \<in> fst ` set (finished w)" using e(3) by force
    then have ed: "te_state (events w ! e) = EV_DONE" by (simp add: wv_invD(5) [OF F(1)])
    have "te_numParents (events w ! e) = 0" using done_zero [OF F(1) E(1)] ed by simp
    then have "(i, e) \<notin> (edges w)\<^sup>+" using ancestors_done [OF F(1)] i(2) by fastforce
    then have "(e, i) \<in> (edges w)\<^sup>+" using ord [OF e(1) ics] ed i(2) by auto
    from path_slack [OF F(1,5,4) this zi e(3)] show ?thesis
      using E(4,5) X(5) e(4) i(3) by simp
  qed
qed

lemma ended_core_step:
  assumes ev: "events_ok cs st lat r w" and i: "i < length (events w)"
    and w1: "w1 = (upd_event i (te_state_update (\<lambda>_. EV_RUNNING)) w)\<lparr>queued := qs\<rparr>"
    and m: "moves w1 w'" "waits_or_stays i w1 w'" "ends_only i t w1 w'"
    and core: "\<And>orig. origStart r i = Some orig \<Longrightarrow> te_state (events w ! i) = EV_QUEUED \<and> orig \<le> t"
  shows "core_step t r w w'"
proof -
  have sg: "same_graph w w1" unfolding w1 by (simp add: same_graph_upd [OF i] static_def)
  have n: "events w1 ! x = (if x = i then (events w ! i)\<lparr>te_state := EV_RUNNING\<rparr> else events w ! x)" for x
    unfolding w1 using i by (simp add: nth_upd_event)
  have fin: "finished w1 = finished w" by (simp add: w1)
  have len: "length (events w1) = length (events w)" by (simp add: w1)
  show ?thesis
    unfolding core_step_def
  proof (intro conjI allI impI)
    show "same_graph w w'" using sg m(1) by (auto simp: moves_def intro: same_graph_trans)
    show "set (finished w) \<subseteq> set (finished w')" using m(1) by (simp add: moves_def fin)
  next
    fix e orig assume o: "origStart r e = Some orig"
    note X = events_okD [OF ev o]
    show "te_state (events w' ! e) = te_state (events w ! e) \<or>
         te_state (events w ! e) = EV_NONE \<and> te_state (events w' ! e) = EV_QUEUED \<or>
         te_state (events w ! e) = EV_QUEUED \<and> te_state (events w' ! e) = EV_DONE \<and> (e, t) \<in> set (finished w') \<and> orig \<le> t"
    proof (cases "e = i")
      case True
      then show ?thesis using core o m(3) by (simp add: ends_only_def)
    next
      case False
      then have "te_state (events w' ! e) = te_state (events w ! e) \<or>
         te_state (events w ! e) = EV_NONE \<and> te_state (events w' ! e) = EV_QUEUED"
        using m(2) [unfolded waits_or_stays_def, rule_format, of e] X(1,2) by (simp add: len n)
      then show ?thesis by blast
    qed
    fix f assume "(e, f) \<in> set (finished w')"
    moreover have "te_kind (events w1 ! e) = QueuedEv" using X(2) by (cases "e = i") (simp_all add: n)
    ultimately have "(e, f) = (i, t) \<or> (e, f) \<in> set (finished w)" using m(3) fin by (auto simp: ends_only_def)
    then show "(e, f) \<in> set (finished w) \<or> orig \<le> f" using core o by auto
  qed
qed

lemma remove_entry:
  assumes "queue_ok w" "(i, t) \<in> set (queued w)" "(x, c) \<in> set (remove1 (i, t) (queued w))"
  shows "x \<noteq> i \<and> (x, c) \<in> set (queued w)"
proof -
  have d: "distinct (map fst (queued w))" using assms(1) by (simp add: queue_ok_def)
  then have "distinct (queued w)" by (simp add: distinct_map)
  then have m: "(x, c) \<in> set (queued w)" "(x, c) \<noteq> (i, t)" using assms(3) by auto
  moreover have "x \<noteq> i" using d assms(2) m by (auto dest: eq_key_imp_eq_value)
  ultimately show ?thesis by simp
qed

lemma distinct_remove1_map: "distinct (map fst xs) \<Longrightarrow> distinct (map fst (remove1 y xs))"
  by (induction xs) (auto simp: image_iff dest: subsetD [OF set_remove1_subset])

lemma upd_state_twice: "upd_event i (te_state_update (\<lambda>_. a)) (upd_event i (te_state_update (\<lambda>_. b)) w) =
    upd_event i (te_state_update (\<lambda>_. a)) w"
  by (cases "i < length (events w)") (simp_all add: upd_event_def list_update_beyond)

lemma upd_state_queued: "upd_event i f (w\<lparr>queued := q\<rparr>) = (upd_event i f w)\<lparr>queued := q\<rparr>"
  by (simp add: upd_event_def)

lemma upd_core_step:
  assumes i: "i < length (events w)" and s: "origStart r i = None \<or> s = te_state (events w ! i)"
  shows "core_step t r w ((upd_event i (te_state_update (\<lambda>_. s)) w)\<lparr>queued := qs\<rparr>)"
proof -
  have "same_graph w (upd_event i (te_state_update (\<lambda>_. s)) w)" by (simp add: same_graph_upd [OF i] static_def)
  then show ?thesis using i s by (auto simp: core_step_def nth_upd_event)
qed

text \<open>The invariant after a step that leaves the recorder as it is.\<close>

lemma rec_ok_step:
  assumes ok: "rec_ok L s cs st" and st: "core_step t (cs_rec s) (cs_weave s) w'" and iw: "in_weave s"
    and fl: "flow_ok st (latency s) w'"
    and no_end: "\<And>e orig. origStart (cs_rec s) e = Some orig \<Longrightarrow> te_state (events (cs_weave s) ! e) \<noteq> EV_DONE \<Longrightarrow> te_state (events w' ! e) \<noteq> EV_DONE"
    and h: "\<And>e. origStart (cs_rec s) e = Some (globPhase s) \<Longrightarrow> te_minStart (events (cs_weave s) ! e) = globPhase s \<Longrightarrow>
      (e, globPhase s) \<in> set (queued (cs_weave s)) \<Longrightarrow> (e, globPhase s) \<in> set (queued w')"
  shows "rec_ok L (s\<lparr>cs_weave := w'\<rparr>) cs st"
proof -
  note K = rec_okD [OF ok] note C = chain_okD [OF K(1)]
  note D = core_stepD [OF st] note g = same_graphD [OF D(1)]
  have "prev_ok cs st (latency s) (cs_rec s) w'"
  proof (rule prev_ok_step [OF C(4) st C(3)])
    fix p assume p: "prevRespEvent (cs_rec s) = Some p"
    then have "te_state (events (cs_weave s) ! p) \<noteq> EV_DONE" using C(4) by (auto simp: prev_ok_def)
    then show "origStart (cs_rec s) p \<noteq> None \<and> te_state (events w' ! p) \<noteq> EV_DONE"
      using K(6) [OF p] iw no_end by auto
  qed
  then have ch: "chain_ok cs st (latency s) (cs_rec s) w'"
    using fl C(2) events_ok_step [OF C(3) st] g(1) by (simp add: chain_ok_def)
  have fo: "first_ok cs (globPhase s) (globPhase s + L) (cs_rec s) w'" if "cr_state (cs_rec s) \<noteq> HALTED"
  proof -
    have f: "cs \<noteq> []" "first_ok cs (globPhase s) (globPhase s + L) (cs_rec s) (cs_weave s)" using K(4) [OF that] iw by simp_all
    show ?thesis
    proof (rule first_ok_step [OF f(2) st C(3) f(1)])
      assume "te_state (events (cs_weave s) ! hd cs) \<noteq> EV_DONE"
      moreover from this f(2) have "origStart (cs_rec s) (hd cs) = Some (globPhase s)"
        "te_minStart (events (cs_weave s) ! hd cs) = globPhase s" "(hd cs, globPhase s) \<in> set (queued (cs_weave s))"
        by (simp_all add: first_ok_def)
      ultimately show "te_state (events w' ! hd cs) \<noteq> EV_DONE \<and> (hd cs, globPhase s) \<in> set (queued w')"
        using no_end h by blast
    qed
  qed
  have ms: "te_minStart (events w' ! p) = te_minStart (events (cs_weave s) ! p)" if "prevRespEvent (cs_rec s) = Some p" for p
    using C(4) that D(1) by (auto simp: prev_ok_def same_graph_def static_def)
  show ?thesis
    using ch fo K(2-7) iw ms by (simp add: rec_ok_def)
qed

lemma rec_done:
  assumes ok: "rec_ok L s cs st" and en: "rec_enabled L (RDone i t) s"
  shows "succeeds (rec_op L (RDone i t) s) (\<lambda>s'. \<exists>cs st. rec_ok L s' cs st)"
proof -
  let ?w = "cs_weave s"
  note K = rec_okD [OF ok] note C = chain_okD [OF K(1)] note F = flow_okD [OF C(1)]
  from en have E: "in_weave s" "i < length (events ?w)" "te_state (events ?w ! i) = EV_HELD" "ready ?w i + latency s i \<le> t"
    by (simp_all add: rec_enabled_def Let_def)
  have nc: "origStart (cs_rec s) i = None"
    using events_okD(6) [OF C(3), of i] E(3) by (cases "origStart (cs_rec s) i") auto
  define w1 where "w1 = (upd_event i (te_state_update (\<lambda>_. EV_RUNNING)) ?w)\<lparr>queued := queued ?w\<rparr>"
  have w1': "w1 = upd_event i (te_state_update (\<lambda>_. EV_RUNNING)) ?w" by (simp add: w1_def upd_event_def)
  have fl1: "flow_ok st (latency s) w1"
    unfolding w1_def
  proof (rule upd_state_flow [OF C(1) E(2)])
    show "te_numParents (events ?w ! i) = 0" by (rule done_zero [OF F(1) E(2)]) (simp add: E(3))
    show "distinct (map fst (queued ?w))" using F(3) by (simp add: queue_ok_def)
    fix x c assume "(x, c) \<in> set (queued ?w)"
    then show "x = i \<and> EV_RUNNING = EV_QUEUED \<and> ready ?w i \<le> c \<or> x \<noteq> i \<and> (x, c) \<in> set (queued ?w)"
      using queue_okD [OF F(3), of x c] E(3) by auto
  qed (simp_all add: E(3))
  have r1: "te_state (events w1 ! i) = EV_RUNNING" "ready w1 i = ready ?w i" "i < length (events w1)"
    using E(2) by (simp_all add: w1_def nth_upd_event ready_def)
  have "ready w1 i + latency s i \<le> t" using E(4) r1(2) by simp
  from done_flow [OF fl1 r1(3,1) this] obtain w' where
    o: "ev_done (length (events w1)) i t w1 = Inr w'" and w': "flow_ok st (latency s) w'" "moves w1 w'" "waits_or_stays i w1 w'" "ends_only i t w1 w'"
    by (auto simp: succeeds_iff)
  have cs: "core_step t (cs_rec s) ?w w'"
    by (rule ended_core_step [OF C(3) E(2) w1_def w'(2-4)]) (simp add: nc)
  have "rec_ok L (s\<lparr>cs_weave := w'\<rparr>) cs st"
  proof (rule rec_ok_step [OF ok cs E(1) w'(1)])
    fix e orig assume e: "origStart (cs_rec s) e = Some orig" "te_state (events ?w ! e) \<noteq> EV_DONE"
    then have "e \<noteq> i" using nc by auto
    then show "te_state (events w' ! e) \<noteq> EV_DONE"
      using w'(3) events_okD(1,2) [OF C(3) e(1)] e(2) E(2) by (auto simp: waits_or_stays_def w1_def nth_upd_event)
  next
    fix e assume "(e, globPhase s) \<in> set (queued ?w)"
    then show "(e, globPhase s) \<in> set (queued w')" using w'(2) by (auto simp: moves_def w1_def)
  qed
  moreover have "rec_op L (RDone i t) s = Inr (s\<lparr>cs_weave := w'\<rparr>)"
    using o E(3) by (simp add: rec_op_def te_release_def w1' [symmetric])
  ultimately show ?thesis by auto
qed

text \<open>A core event runs.\<close>

lemma core_simulate_ok:
  assumes ok: "rec_ok L s cs st" and iw: "in_weave s" and q: "(i, t) \<in> set (queued (cs_weave s))" "t < globPhase s + L"
    and o: "origStart (cs_rec s) i = Some orig" and ms: "te_minStart (events (cs_weave s) ! i) \<le> t"
    and w1: "w1 = (upd_event i (te_state_update (\<lambda>_. EV_RUNNING)) (cs_weave s))\<lparr>queued := remove1 (i, t) (queued (cs_weave s))\<rparr>"
  shows "succeeds (core_simulate i orig t (cs_rec s) w1) (\<lambda>(r', w'). rec_ok L (s\<lparr>cs_rec := r', cs_weave := w'\<rparr>) cs st)"
proof -
  let ?w = "cs_weave s" and ?r = "cs_rec s"
  note K = rec_okD [OF ok] note C = chain_okD [OF K(1)] note F = flow_okD [OF C(1)]
  note X = events_okD [OF C(3) o] note Q = queue_okD [OF F(3) q(1)]
  have zi: "te_numParents (events ?w ! i) = 0" by (rule done_zero [OF F(1) X(1)]) (simp add: Q)
  have ics: "i \<in> set cs" using X(8) Q by auto
  then have nh: "cr_state ?r \<noteq> HALTED" using K(3) by auto
  have k4: "cs \<noteq> []" "gapCycles ?r \<le> prevRespCycle ?r" "prevRespCycle ?r \<le> cs_cycle s" "globPhase s + L \<le> cs_cycle s"
    "first_ok cs (globPhase s) (globPhase s + L) ?r ?w"
    using K(4) nh iw by simp_all
  have skew: "orig + gapCycles ?r \<le> t"
    by (rule no_negative_skew [OF C(1,3) k4(5) o]) (use Q ms in auto)
  have drain: "cr_state ?r = DRAINING" if "prevRespEvent ?r = Some i"
    using K(7) [OF that iw] nh ms q(2) by (cases "cr_state ?r") auto
  have n1: "te_state (events w1 ! i) = EV_RUNNING" "ready w1 i = ready ?w i" "length (events w1) = length (events ?w)"
    using X(1) by (simp_all add: w1 nth_upd_event ready_def)
  have fl1: "flow_ok st (latency s) w1"
    unfolding w1
  proof (rule upd_state_flow [OF C(1) X(1) zi])
    show "distinct (map fst (remove1 (i, t) (queued ?w)))" using F(3) by (simp add: queue_ok_def distinct_remove1_map)
    fix x c assume "(x, c) \<in> set (remove1 (i, t) (queued ?w))"
    then show "x = i \<and> EV_RUNNING = EV_QUEUED \<and> ready ?w i \<le> c \<or> x \<noteq> i \<and> (x, c) \<in> set (queued ?w)"
      using remove_entry [OF F(3) q(1)] by blast
  qed (simp_all add: Q)
  have i1: "i < length (events w1)" using X(1) n1(3) by simp
  have rd: "ready w1 i + latency s i \<le> t" using n1(2) X(4) Q by simp
  from done_flow [OF fl1 i1 n1(1) rd] obtain w' where
    d: "ev_done (length (events w1)) i t w1 = Inr w'" and w': "flow_ok st (latency s) w'" "moves w1 w'" "waits_or_stays i w1 w'" "ends_only i t w1 w'"
    by (auto simp: succeeds_iff)
  have step: "core_step t ?r ?w w'"
    by (rule ended_core_step [OF C(3) X(1) w1 w'(2-4)]) (use o Q skew in auto)
  define r' where "r' = (if prevRespEvent ?r = Some i then ?r\<lparr>lastStartCycle := t, lastOrigStartCycle := orig, prevRespEvent := None, lastStartSlack := sub64 t orig\<rparr>
    else ?r\<lparr>lastStartCycle := t, lastOrigStartCycle := orig, lastStartSlack := sub64 t orig\<rparr>)"
  have f: "origStart r' = origStart ?r" "gapCycles r' = gapCycles ?r" "prevRespCycle r' = prevRespCycle ?r" "cr_state r' = cr_state ?r"
    "lastStartCycle r' = t" "lastOrigStartCycle r' = orig" "lastUnhaltedCycle r' = lastUnhaltedCycle ?r"
    "prevRespEvent r' = (if prevRespEvent ?r = Some i then None else prevRespEvent ?r)"
    by (simp_all add: r'_def)
  have ended: "te_state (events w' ! i) = EV_DONE" "(i, t) \<in> set (finished w')" using w'(4) by (simp_all add: ends_only_def)
  have pv: "prev_ok cs st (latency s) r' w'"
  proof (cases "prevRespEvent ?r = Some i")
    case True
    have "te_state (events w' ! x) = EV_DONE" if x: "x \<in> set cs" for x
    proof (cases "x = i")
      case False
      have "(x, i) \<in> (edges ?w)\<^sup>*" using C(4) True x by (simp add: prev_ok_def)
      then have "(x, i) \<in> (edges ?w)\<^sup>+" using False by (simp add: rtrancl_eq_or_trancl)
      then have "te_state (events ?w ! x) = EV_DONE" by (rule ancestors_done [OF F(1) _ zi])
      then show ?thesis using core_step_done [OF step] chain_event_range [OF C(3) x] by blast
    qed (simp add: ended)
    then show ?thesis by (simp add: prev_ok_def f True)
  next
    case False
    have "prev_ok cs st (latency s) ?r w'"
    proof (rule prev_ok_step [OF C(4) step C(3)])
      fix p assume p: "prevRespEvent ?r = Some p"
      then obtain u where u: "origStart ?r p = Some u" using K(6) iw by auto
      have "te_state (events ?w ! p) \<noteq> EV_DONE" using C(4) p by (auto simp: prev_ok_def)
      moreover have "p \<noteq> i" using False p by simp
      ultimately show "origStart ?r p \<noteq> None \<and> te_state (events w' ! p) \<noteq> EV_DONE"
        using u w'(3) events_okD(1,2) [OF C(3) u] X(1) by (auto simp: waits_or_stays_def w1 nth_upd_event)
    qed
    then show ?thesis using False by (simp add: prev_ok_def f cong: option.case_cong)
  qed
  have ch: "chain_ok cs st (latency s) r' w'"
    using w'(1) C(2) pv events_ok_step [OF C(3) step] same_graphD(1) [OF core_stepD(1) [OF step]]
    by (simp add: chain_ok_def events_ok_def f)
  have "te_state (events w' ! hd cs) = EV_DONE"
    using head_first [OF F(1) C(3) ics zi] ended(1) core_step_done [OF step] chain_event_range [OF C(3), of "hd cs"] k4(1) by auto
  then have fo: "first_ok cs (globPhase s) (globPhase s + L) r' w'"
    using ics o ended(2) skew q(2) by (auto simp: first_ok_def f)
  have ms': "te_minStart (events w' ! p) = te_minStart (events ?w ! p)" if "prevRespEvent ?r = Some p" for p
    using C(4) that core_stepD(1) [OF step] by (auto simp: prev_ok_def same_graph_def static_def)
  have "rec_ok L (s\<lparr>cs_rec := r', cs_weave := w'\<rparr>) cs st"
    using ch fo K(2,5-7) k4(1-4) nh iw ms' drain by (auto simp: rec_ok_def Let_def f)
  moreover have "core_simulate i orig t ?r w1 = Inr (r', w')"
    using d drain by (simp add: core_simulate_def reportEventSimulated_def Let_def r'_def)
  ultimately show ?thesis by simp
qed

lemma rec_run_step:
  assumes ok: "rec_ok L s cs st" and en: "rec_enabled L (RRun i t) s"
  shows "succeeds (rec_op L (RRun i t) s) (\<lambda>s'. \<exists>cs st. rec_ok L s' cs st)"
proof -
  let ?w = "cs_weave s" and ?r = "cs_rec s" let ?qs = "remove1 (i, t) (queued ?w)"
  let ?upd = "\<lambda>x q. (upd_event i (te_state_update (\<lambda>_. x)) ?w)\<lparr>queued := q\<rparr>"
  note K = rec_okD [OF ok] note C = chain_okD [OF K(1)] note F = flow_okD [OF C(1)]
  from en have E: "in_weave s" "(i, t) \<in> set (queued ?w)" "t < globPhase s + L" by (simp_all add: rec_enabled_def Let_def)
  note Q = queue_okD [OF F(3) E(2)] note R = remove_entry [OF F(3) E(2)]
  have zi: "te_numParents (events ?w ! i) = 0" by (rule done_zero [OF F(1)]) (use Q in auto)
  have dq: "distinct (map fst ?qs)" using F(3) by (simp add: queue_ok_def distinct_remove1_map)
  have run: "te_run (\<lambda>_ _ w. Inr w) i t (?w\<lparr>queued := ?qs\<rparr>) =
      (if t < te_minStart (events ?w ! i) then Inr (?upd EV_QUEUED (?qs @ [(i, te_minStart (events ?w ! i))])) else Inr (?upd EV_RUNNING ?qs))"
    using Q zi by (simp add: te_run_def te_requeue_def upd_state_queued upd_state_twice nth_upd_event)
  have iq: "i \<notin> fst ` set ?qs"
  proof
    assume "i \<in> fst ` set ?qs"
    then obtain c where "(i, c) \<in> set ?qs" by force
    then show False using R [of i c] by simp
  qed
  have keep: "(e, c) \<in> set ?qs" if "(e, c) \<in> set (queued ?w)" "e \<noteq> i" for e c using that by simp
  show ?thesis
  proof (cases "t < te_minStart (events ?w ! i)")
    case True
    let ?w' = "?upd EV_QUEUED (?qs @ [(i, te_minStart (events ?w ! i))])"
    have "rec_ok L (s\<lparr>cs_weave := ?w'\<rparr>) cs st"
    proof (rule rec_ok_step [OF ok _ E(1)])
      show "core_step t ?r ?w ?w'" by (rule upd_core_step) (use Q in auto)
      show "flow_ok st (latency s) ?w'"
      proof (rule upd_state_flow [OF C(1)])
        show "distinct (map fst (?qs @ [(i, te_minStart (events ?w ! i))]))" using dq iq by simp
        fix x c assume "(x, c) \<in> set (?qs @ [(i, te_minStart (events ?w ! i))])"
        then have "(x, c) \<in> set ?qs \<or> x = i \<and> c = te_minStart (events ?w ! i)" by auto
        then show "x = i \<and> EV_QUEUED = EV_QUEUED \<and> ready ?w i \<le> c \<or> x \<noteq> i \<and> (x, c) \<in> set (queued ?w)"
          using R [of x c] Q True by (elim disjE) simp_all
      qed (simp_all add: Q zi)
      fix e assume "te_minStart (events ?w ! e) = globPhase s" "(e, globPhase s) \<in> set (queued ?w)"
      moreover have "c = t" if "(i, c) \<in> set (queued ?w)" for c
        using F(3) that E(2) by (auto simp: queue_ok_def dest: eq_key_imp_eq_value)
      ultimately show "(e, globPhase s) \<in> set (queued ?w')" using True keep [of e "globPhase s"] by (cases "e = i") auto
    qed (use Q in \<open>auto simp: nth_upd_event\<close>)
    moreover have "rec_op L (RRun i t) s = Inr (s\<lparr>cs_rec := ?r, cs_weave := ?w'\<rparr>)"
      using True by (simp add: rec_op_def run_event_def run)
    ultimately show ?thesis by auto
  next
    case False
    show ?thesis
    proof (cases "origStart ?r i")
      case None
      let ?w' = "?upd EV_HELD ?qs"
      have "rec_ok L (s\<lparr>cs_weave := ?w'\<rparr>) cs st"
      proof (rule rec_ok_step [OF ok _ E(1)])
        show "core_step t ?r ?w ?w'" by (rule upd_core_step) (use Q None in auto)
        show "flow_ok st (latency s) ?w'"
        proof (rule upd_state_flow [OF C(1) _ zi _ _ dq])
          fix x c assume "(x, c) \<in> set ?qs"
          then show "x = i \<and> EV_HELD = EV_QUEUED \<and> ready ?w i \<le> c \<or> x \<noteq> i \<and> (x, c) \<in> set (queued ?w)" using R by blast
        qed (simp_all add: Q)
        fix e assume "origStart ?r e = Some (globPhase s)" "(e, globPhase s) \<in> set (queued ?w)"
        then show "(e, globPhase s) \<in> set (queued ?w')" using None keep [of e "globPhase s"] by (cases "e = i") auto
      qed (use Q in \<open>auto simp: nth_upd_event\<close>)
      moreover have "te_hold i (?upd EV_RUNNING ?qs) = Inr ?w'"
        using Q by (simp add: te_hold_def upd_state_queued upd_state_twice nth_upd_event)
      then have "rec_op L (RRun i t) s = Inr (s\<lparr>cs_rec := ?r, cs_weave := ?w'\<rparr>)"
        using False None by (simp add: rec_op_def run_event_def run)
      ultimately show ?thesis by auto
    next
      case (Some orig)
      from core_simulate_ok [OF ok E(1-3) Some _ refl] False obtain r' w' where
        "core_simulate i orig t ?r (?upd EV_RUNNING ?qs) = Inr (r', w')" "rec_ok L (s\<lparr>cs_rec := r', cs_weave := w'\<rparr>) cs st"
        by (auto simp: succeeds_iff)
      then show ?thesis using False Some by (auto simp: rec_op_def run_event_def run)
    qed
  qed
qed

section \<open>Runs\<close>

lemma rec_step:
  assumes "rec_ok L s cs st" "rec_enabled L oper s" "0 < L"
  shows "succeeds (rec_op L oper s) (\<lambda>s'. \<exists>cs st. rec_ok L s' cs st)"
proof (cases oper)
  case RJoin with assms show ?thesis using rec_join by blast
next
  case RLeave with assms show ?thesis using rec_leave by blast
next
  case (RExec k)
  then show ?thesis using rec_exec [OF assms(1)] by (auto simp: rec_op_def)
next
  case RAccess with assms show ?thesis using rec_access by blast
next
  case RPhaseEnd with assms show ?thesis using rec_phase_end by blast
next
  case RRun with assms show ?thesis using rec_run_step by blast
next
  case RDone with assms show ?thesis using rec_done by blast
next
  case RPhaseStart with assms show ?thesis using rec_phase_start by blast
qed

text \<open>A run in which every operation comes when its caller may issue it.\<close>

primrec rec_allowed :: "nat \<Rightarrow> RecOp list \<Rightarrow> CoreSim \<Rightarrow> bool" where
  "rec_allowed L [] s \<longleftrightarrow> True"
| "rec_allowed L (oper # ops) s \<longleftrightarrow> rec_enabled L oper s \<and>
     (case rec_op L oper s of Inl e \<Rightarrow> True | Inr s' \<Rightarrow> rec_allowed L ops s')"

lemma rec_run_ok:
  assumes "0 < L" "rec_ok L s cs st" "rec_allowed L ops s"
  shows "succeeds (rec_run L ops s) (\<lambda>s'. \<exists>cs st. rec_ok L s' cs st)"
  using assms(2,3)
proof (induction ops arbitrary: s cs st)
  case Nil
  then show ?case by auto
next
  case (Cons oper ops)
  from rec_step [OF Cons.prems(1) _ assms(1), of oper] Cons.prems(2) obtain s' cs' st' where
    s': "rec_op L oper s = Inr s'" "rec_ok L s' cs' st'" by (auto simp: succeeds_iff)
  with Cons.prems(2) have "rec_allowed L ops s'" by simp
  from Cons.IH [OF s'(2) this] show ?case by (simp add: s'(1))
qed

lemma new_rec_ok: "rec_ok L (new_CoreSim (new_CoreRecorder d slot a b c)) [] (\<lambda>_. 0)"
  by (simp add: rec_ok_def new_CoreSim_def new_CoreRecorder_def chain_ok_def flow_ok_def wv_inv_def edges_def acyclic_def
      queue_ok_def timely_def zero_load_def events_ok_def prev_ok_def contrib_def)

lemma allowed_append: "rec_allowed L (xs @ ys) s \<longleftrightarrow> rec_allowed L xs s \<and>
    (case rec_run L xs s of Inl e \<Rightarrow> True | Inr s' \<Rightarrow> rec_allowed L ys s')"
  by (induction xs arbitrary: s) (auto split: sum.splits)

lemma run_append: "rec_run L (xs @ ys) s = bindR (rec_run L xs s) (rec_run L ys)"
  by (induction xs arbitrary: s) (auto simp: bindR_def split: sum.splits)

section \<open>A run with contention\<close>

text \<open>
  A core joins, runs 10 cycles and reads a line; without contention the memory would answer one cycle
  after the request at 12, but it answers at 63.
\<close>

definition busy_weave :: Weave where
  "busy_weave = \<lparr>events = [(new_event QueuedEv 0 0 0)\<lparr>te_minStart := 0, te_state := EV_QUEUED\<rparr>,
     (new_event QueuedEv 0 0 0)\<lparr>te_minStart := 12\<rparr>], queued = [(0, 0)], finished = []\<rparr>"

definition busy_record :: Recorded where
  "busy_record = \<lparr>rc_addr = 5, rc_reqCycle = 12, rc_respCycle = 13, rc_type = GETS, rc_startEvent = Some 1, rc_endEvent = Some 1\<rparr>"

definition busy_start :: CoreSim where
  "busy_start = new_CoreSim (new_CoreRecorder 0 busy_record 0 0 0)"

definition busy_bound :: "RecOp list" where
  "busy_bound = [RJoin, RExec 10, RAccess busy_weave (\<lambda>i. if i = 1 then 1 else 0) busy_record 120, RPhaseEnd]"

definition busy_wv :: "RecOp list" where
  "busy_wv = [RRun 0 0, RRun 2 0, RRun 1 12, RDone 1 63, RRun 3 63]"

lemmas busy_defs = busy_weave_def busy_record_def busy_start_def busy_bound_def busy_wv_def

lemma busy_weave_facts: "wv_inv {#} busy_weave" "edges busy_weave = {}"
  by (simp_all add: wv_inv_def busy_weave_def new_event_def visit_def live_edges_def contrib_def edges_def
      numeral_2_eq_2 all_less_Suc_iff less_Suc_eq lessThan_Suc) (auto simp: nth_Cons')

lemmas rec_defs = rec_op_def notifyJoin_def set_gap_def new_core_event_def append_event_def chain_event_def link_start_def recordAccess_def
  cr_record_def cSimStart_def cSimEnd_def reportEventSimulated_def core_simulate_def run_event_def te_queue_def te_run_def
  te_hold_def te_release_def te_requeue_def alloc_def setMinStartCycle_def upd_event_def new_event_def addChild_def push_child_def
  numChildren_def visit_def parentDone_def popRecord_def rc_valid_def rc_clear_def Let_def

definition busy_joined :: CoreSim where
  "busy_joined = \<lparr>cs_rec = (new_CoreRecorder 0 busy_record 0 0 0)\<lparr>prevRespEvent := Some 0, cr_state := RUNNING, origStart := [0 \<mapsto> 0]\<rparr>,
     cs_weave = \<lparr>events = [events busy_weave ! 0], queued = [(0, 0)], finished = []\<rparr>, latency = (\<lambda>_. 0), cs_cycle = 10,
     globPhase = 0, in_weave = False\<rparr>"

definition busy_rest :: "RecOp list" where
  "busy_rest = [RPhaseEnd, RRun 0 0, RRun 2 0, RRun 1 12, RDone 1 63, RRun 3 63]"

abbreviation "busy_access \<equiv> RAccess busy_weave (\<lambda>i. if i = 1 then 1 else 0) busy_record 120"

definition busy_ops :: "RecOp list" where
  "busy_ops = [RJoin, RExec 10] @ busy_access # busy_rest"

lemma busy_join: "rec_run 100 [RJoin, RExec 10] busy_start = Inr busy_joined" "rec_allowed 100 [RJoin, RExec 10] busy_start"
  by (simp_all add: busy_defs busy_joined_def rec_defs new_CoreSim_def new_CoreRecorder_def rec_enabled_def fun_upd_def cong: if_cong)

lemma busy_access_enabled: "rec_enabled 100 busy_access busy_joined"
proof -
  have "mem_ok busy_joined busy_weave (\<lambda>i. if i = 1 then 1 else 0) (\<lambda>i. if i = 1 then 12 else 0)"
    using busy_weave_facts
    by (simp add: mem_ok_def acyclic_def less_Suc_eq) (auto simp: busy_joined_def busy_weave_def new_event_def less_Suc_eq nth_Cons')
  then show ?thesis
    by (auto simp: rec_enabled_def record_ok_def Let_def intro!: exI [of _ "\<lambda>i. if i = 1 then 12 else 0"])
      (simp_all add: busy_joined_def busy_record_def busy_weave_def new_CoreRecorder_def new_event_def)
qed

lemma busy_rest_run: "\<exists>s. rec_run 100 (busy_access # busy_rest) busy_joined = Inr s \<and> cr_state (cs_rec s) = RUNNING \<and>
    gapCycles (cs_rec s) = 0 \<and> lastOrigStartCycle (cs_rec s) = 13 \<and> lastStartCycle (cs_rec s) = 63 \<and> in_weave s \<and>
    queued (cs_weave s) = [(4, 170)] \<and> globPhase s = 0 \<and> cs_cycle s = 120"
  by (simp add: busy_defs busy_rest_def busy_joined_def rec_defs new_CoreSim_def new_CoreRecorder_def)

lemma busy_rest_allowed: "\<exists>s. rec_op 100 busy_access busy_joined = Inr s \<and> rec_allowed 100 busy_rest s"
  by (simp add: busy_defs busy_rest_def busy_joined_def rec_defs new_CoreSim_def new_CoreRecorder_def rec_enabled_def ready_def)

lemma busy_allowed: "rec_allowed 100 (busy_ops @ [RPhaseStart]) busy_start"
proof -
  from busy_rest_allowed obtain s1 where s1: "rec_op 100 busy_access busy_joined = Inr s1" "rec_allowed 100 busy_rest s1" by blast
  from busy_rest_run obtain s where s: "rec_run 100 (busy_access # busy_rest) busy_joined = Inr s"
    "queued (cs_weave s) = [(4, 170)]" "globPhase s = 0" "in_weave s" by blast
  have "rec_run 100 busy_rest s1 = Inr s" using s(1) by (simp only: rec_run.simps s1(1) bindR_Inr)
  moreover have "rec_enabled 100 RPhaseStart s" using s(2-4) by (simp add: rec_enabled_def)
  ultimately have "rec_allowed 100 (busy_rest @ [RPhaseStart]) s1"
    using s1(2) by (simp add: allowed_append split: sum.splits)
  then have "rec_allowed 100 (busy_access # busy_rest @ [RPhaseStart]) busy_joined"
    by (simp only: rec_allowed.simps s1(1) busy_access_enabled sum.case simp_thms)
  then have "rec_allowed 100 ([RJoin, RExec 10] @ (busy_access # busy_rest @ [RPhaseStart])) busy_start"
    by (subst allowed_append) (simp only: busy_join sum.case simp_thms)
  moreover have "busy_ops @ [RPhaseStart] = [RJoin, RExec 10] @ (busy_access # busy_rest @ [RPhaseStart])"
    by (simp add: busy_ops_def)
  ultimately show ?thesis by (simp only:)
qed

lemma busy_run: "\<exists>s. rec_run 100 busy_ops busy_start = Inr s \<and> cr_state (cs_rec s) = RUNNING \<and> gapCycles (cs_rec s) = 0 \<and>
    lastOrigStartCycle (cs_rec s) = 13 \<and> cs_cycle s = 120"
  using busy_rest_run unfolding busy_ops_def by (simp only: run_append busy_join bindR_Inr) blast

section \<open>Properties\<close>

text \<open>
  C3: the bound phase and the weave phase of a timing core never get out of step. For any order of joining,
  leaving, executing, accessing memory and running events, in any number of phases, with a memory
  that is no faster than the records it left say, no assertion of the recorder or of the event graph fails, in
  particular contention never introduces a negative skew; no core event starts before its zero-load
  cycle, and every cycle of contention is part of the core's clock.
\<close>

theorem recorder_keeps_time:
  assumes "0 < L" "rec_allowed L ops (new_CoreSim (new_CoreRecorder d slot a b c))"
  shows "succeeds (rec_run L ops (new_CoreSim (new_CoreRecorder d slot a b c))) (\<lambda>s.
    (\<forall>e orig f. origStart (cs_rec s) e = Some orig \<and> (e, f) \<in> set (finished (cs_weave s)) \<longrightarrow> orig \<le> f) \<and>
    (cr_state (cs_rec s) \<noteq> HALTED \<longrightarrow> gapCycles (cs_rec s) \<le> prevRespCycle (cs_rec s) \<and>
       prevRespCycle (cs_rec s) \<le> cs_cycle s \<and> globPhase s \<le> cs_cycle s))"
proof (rule succeeds_mono [OF rec_run_ok [OF assms(1) new_rec_ok assms(2)]])
  fix s assume "\<exists>cs st. rec_ok L s cs st"
  then obtain cs st where ok: "rec_ok L s cs st" by blast
  note K = rec_okD [OF ok]
  show "(\<forall>e orig f. origStart (cs_rec s) e = Some orig \<and> (e, f) \<in> set (finished (cs_weave s)) \<longrightarrow> orig \<le> f) \<and>
    (cr_state (cs_rec s) \<noteq> HALTED \<longrightarrow> gapCycles (cs_rec s) \<le> prevRespCycle (cs_rec s) \<and>
       prevRespCycle (cs_rec s) \<le> cs_cycle s \<and> globPhase s \<le> cs_cycle s)"
    using events_okD(7) [OF chain_okD(3) [OF K(1)]] K(4) by (auto split: if_splits)
qed

theorem recorder_keeps_time_witness:
  "\<exists>s. rec_run 100 (busy_ops @ [RPhaseStart]) busy_start = Inr s \<and>
     (cr_state (cs_rec s) \<noteq> HALTED \<longrightarrow> gapCycles (cs_rec s) \<le> prevRespCycle (cs_rec s) \<and> prevRespCycle (cs_rec s) \<le> cs_cycle s)"
  using recorder_keeps_time [OF _ busy_allowed [unfolded busy_start_def], folded busy_start_def]
  by (auto simp: succeeds_iff)





end
