(* ===== verification/Prefetcher.thy ===== *)
theory Prefetcher
  imports Core_Recorder Coherence
begin

text \<open>
  The stream prefetcher (\<open>prefetcher.h\<close>, \<open>prefetcher.cpp\<close>), which sits between two cache levels and
  fetches ahead of the strides it detects, with the operation of the out-of-order core's recorder
  that it calls (\<open>OOOCoreRecorder::recordPrefetch\<close>). It holds sixteen entries of one page of 64
  lines each. Positions in a page and strides are 32-bit words, as the code computes with them.
\<close>

section \<open>State\<close>

text \<open>\<open>SatCounter<3, 2, 1>\<close>.\<close>

definition sat_reset :: int where "sat_reset = 1"

definition sat_dec :: "int \<Rightarrow> int" where "sat_dec c = max (c - 1) 0"

definition sat_inc :: "int \<Rightarrow> int" where "sat_inc c = min (c + 1) 3"

definition sat_pred :: "int \<Rightarrow> bool" where "sat_pred c \<longleftrightarrow> c \<ge> 2"

text \<open>An entry; \<open>pe_times\<close> holds the start and response cycle of the prefetch of a line.\<close>

record PfEntry =
  pe_stride :: u32
  pe_conf :: int
  pe_times :: "(nat \<times> nat) list"
  pe_valid :: "bool list"
  pe_lastPos :: u32
  pe_lastLastPos :: u32
  pe_lastPrefetchPos :: u32
  pe_lastCycle :: nat
  pe_ts :: nat

definition entry_alloc :: "nat \<Rightarrow> PfEntry \<Rightarrow> PfEntry" where
  "entry_alloc cur e = e\<lparr>pe_stride := 1, pe_lastPos := 0, pe_lastLastPos := 0, pe_lastPrefetchPos := 0,
     pe_conf := sat_reset, pe_valid := replicate 64 False, pe_lastCycle := cur\<rparr>"

record PfStats =
  ps_accesses :: nat
  ps_prefetches :: nat
  ps_pageHits :: nat
  ps_hits :: nat
  ps_shortHits :: nat
  ps_strideSwitches :: nat
  ps_lowConfAccs :: nat
  ps_attached :: nat
  ps_bypassed :: nat
  ps_leadCycles :: nat
  ps_leadSamples :: nat
  ps_runLengthTotal :: nat
  ps_runCount :: nat

record StreamPrefetcher =
  pf_timestamp :: nat
  pf_tag :: "addr list"
  pf_array :: "PfEntry list"
  pf_stats :: PfStats
  pf_parents :: nat
  pf_childId :: nat
  pf_lastPage :: addr
  pf_hasLastPage :: bool
  pf_runLength :: nat

text \<open>
  The constructor initialises neither the tags nor, apart from their counters, the entries: both are
  arguments. \<open>setParents\<close> adds the number of banks above.
\<close>

definition new_StreamPrefetcher :: "addr list \<Rightarrow> PfEntry list \<Rightarrow> StreamPrefetcher" where
  "new_StreamPrefetcher tags es =
     \<lparr>pf_timestamp = 0, pf_tag = tags, pf_array = map (\<lambda>e. e\<lparr>pe_conf := sat_reset\<rparr>) es,
      pf_stats = \<lparr>ps_accesses = 0, ps_prefetches = 0, ps_pageHits = 0, ps_hits = 0, ps_shortHits = 0,
        ps_strideSwitches = 0, ps_lowConfAccs = 0, ps_attached = 0, ps_bypassed = 0, ps_leadCycles = 0,
        ps_leadSamples = 0, ps_runLengthTotal = 0, ps_runCount = 0\<rparr>,
      pf_parents = 0, pf_childId = 0, pf_lastPage = 0, pf_hasLastPage = False, pf_runLength = 0\<rparr>"

definition setParents :: "nat \<Rightarrow> nat \<Rightarrow> StreamPrefetcher \<Rightarrow> StreamPrefetcher res" where
  "setParents child n pf = require (n \<noteq> 0) (Panicked ''Must have at least one parent'')
     (Inr (pf\<lparr>pf_childId := child, pf_parents := n\<rparr>))"

text \<open>The one object below, to which invalidations are passed on.\<close>

definition setChildren :: "nat list \<Rightarrow> nat res" where
  "setChildren cs = require (length cs = 1) (Panicked ''Must have one children'') (Inr (cs ! 0))"

abbreviation upd_entry_at :: "nat \<Rightarrow> (PfEntry \<Rightarrow> PfEntry) \<Rightarrow> StreamPrefetcher \<Rightarrow> StreamPrefetcher" where
  "upd_entry_at i f pf \<equiv> pf\<lparr>pf_array := (pf_array pf)[i := f (pf_array pf ! i)]\<rparr>"

section \<open>Lookups\<close>

definition selectParent :: "addr \<Rightarrow> StreamPrefetcher \<Rightarrow> nat res" where
  "selectParent a pf = require (pf_parents pf \<noteq> 0) (AssertFail ''parents.size()'')
     (Inr (if pf_parents pf = 1 then 0 else getParentId (pf_parents pf) a))"

definition page_of :: "addr \<Rightarrow> addr" where
  "page_of a = drop_bit 6 a"

definition pos_of :: "addr \<Rightarrow> u32" where
  "pos_of a = ucast (a AND 63)"

text \<open>The indices of the entries.\<close>

definition slots :: "nat list" where "slots = [0..<16]"

text \<open>The unrolled search takes the last entry of the page, an invalidation the first.\<close>

definition find_entry :: "addr \<Rightarrow> addr list \<Rightarrow> nat option" where
  "find_entry page tags = fold (\<lambda>i idx. if page = tags ! i then Some i else idx) slots None"

definition invalidateLine :: "addr \<Rightarrow> StreamPrefetcher \<Rightarrow> StreamPrefetcher" where
  "invalidateLine a pf =
     (case find (\<lambda>i. pf_tag pf ! i = page_of a) slots of
        None \<Rightarrow> pf
      | Some i \<Rightarrow> upd_entry_at i (\<lambda>e. e\<lparr>pe_valid := (pe_valid e)[unat (pos_of a) := False]\<rparr>) pf)"

text \<open>\<open>invalidate\<close> forgets the line for the two types that take it away, and passes the request on.\<close>

definition pf_invalidate ::
  "('a, 'm) down \<Rightarrow> nat \<Rightarrow> InvReq \<Rightarrow> bool \<Rightarrow> ('a, 'm) MemSys \<Rightarrow> StreamPrefetcher
     \<Rightarrow> (nat \<times> bool \<times> StreamPrefetcher \<times> ('a, 'm) MemSys) res" where
  "pf_invalidate down child ireq wb s pf =
     (let pf1 = (if i_type ireq = INV \<or> i_type ireq = INVX then invalidateLine (i_lineAddr ireq) pf else pf)
      in bindR (down child ireq wb s) (\<lambda>(resp, wb1, s1). Inr (resp, wb1, pf1, s1)))"

text \<open>The least recently used entry that no recent prefetch keeps warm.\<close>

definition victim_entry :: "nat \<Rightarrow> PfEntry list \<Rightarrow> nat option" where
  "victim_entry reqCycle es =
     fst (fold (\<lambda>i (cand, score).
            if pe_lastCycle (es ! i) > reqCycle + 500 then (cand, score)
            else if pe_ts (es ! i) < score then (Some i, pe_ts (es ! i)) else (cand, score))
          slots (None, 2 ^ 64 - 1))"

section \<open>The parts of an access\<close>

text \<open>The statistics on runs of accesses to one page.\<close>

definition note_page :: "addr \<Rightarrow> StreamPrefetcher \<Rightarrow> StreamPrefetcher" where
  "note_page page pf =
     (let st = (pf_stats pf)\<lparr>ps_accesses := ps_accesses (pf_stats pf) + 1\<rparr> in
      if \<not> pf_hasLastPage pf then pf\<lparr>pf_stats := st, pf_hasLastPage := True, pf_lastPage := page, pf_runLength := 1\<rparr>
      else if page = pf_lastPage pf then pf\<lparr>pf_stats := st, pf_runLength := pf_runLength pf + 1\<rparr>
      else pf\<lparr>pf_stats := st\<lparr>ps_runLengthTotal := ps_runLengthTotal st + pf_runLength pf, ps_runCount := ps_runCount st + 1\<rparr>,
              pf_lastPage := page, pf_runLength := 1\<rparr>)"

text \<open>A page without an entry gets the victim, if there is one.\<close>

definition page_miss :: "addr \<Rightarrow> u32 \<Rightarrow> nat \<Rightarrow> StreamPrefetcher \<Rightarrow> StreamPrefetcher" where
  "page_miss page pos reqCycle pf =
     (case victim_entry reqCycle (pf_array pf) of
        None \<Rightarrow> pf
      | Some i \<Rightarrow>
          (upd_entry_at i (\<lambda>e. (entry_alloc reqCycle e)\<lparr>pe_lastPos := pos, pe_ts := pf_timestamp pf\<rparr>) pf)
            \<lparr>pf_timestamp := pf_timestamp pf + 1, pf_tag := (pf_tag pf)[i := page]\<rparr>)"

text \<open>
  A demand access to a prefetched line waits for the prefetch. The flag says that the prefetch was
  late.
\<close>

definition demand_hit :: "u32 \<Rightarrow> nat \<Rightarrow> nat \<Rightarrow> PfEntry \<Rightarrow> PfStats \<Rightarrow> nat \<times> bool \<times> PfEntry \<times> PfStats" where
  "demand_hit pos reqCycle respCycle e st =
     (if pe_valid e ! unat pos then
        (let (issueCycle, pfRespCycle) = pe_times e ! unat pos;
             short = pfRespCycle > respCycle;
             resp = max pfRespCycle respCycle;
             st1 = st\<lparr>ps_hits := ps_hits st + 1\<rparr>;
             st2 = (if reqCycle \<ge> issueCycle then st1\<lparr>ps_leadSamples := ps_leadSamples st1 + 1,
                       ps_leadCycles := ps_leadCycles st1 + (reqCycle - issueCycle)\<rparr> else st1);
             st3 = (if short then st2\<lparr>ps_shortHits := ps_shortHits st2 + 1\<rparr> else st2)
         in (resp, short, e\<lparr>pe_valid := (pe_valid e)[unat pos := False], pe_lastCycle := max resp (pe_lastCycle e)\<rparr>, st3))
      else (respCycle, False, e, st))"

text \<open>
  The predictor: the position to prefetch, if any. The depth is a quotient of unsigned words, which
  is then read as a signed one.
\<close>

definition predict :: "u32 \<Rightarrow> PfEntry \<Rightarrow> PfStats \<Rightarrow> (u32 option \<times> PfEntry \<times> PfStats) res" where
  "predict pos e st =
     (let stride = pos - pe_lastPos e in
      if pe_stride e = stride then
        (let e1 = e\<lparr>pe_conf := sat_inc (pe_conf e)\<rparr> in
         if sat_pred (pe_conf e1) then
           require (stride \<noteq> 0) (Undefined ''division by zero'')
             (let fetchDepth = (pe_lastPrefetchPos e1 - pe_lastPos e1) div stride;
                  prefetchPos = (if sint fetchDepth < 1 then pos + stride else pe_lastPrefetchPos e1 + stride)
              in Inr (if prefetchPos < 64 \<and> \<not> pe_valid e1 ! unat prefetchPos then Some prefetchPos else None, e1, st))
         else Inr (None, e1, st\<lparr>ps_lowConfAccs := ps_lowConfAccs st + 1\<rparr>))
      else
        (let e1 = e\<lparr>pe_conf := sat_dec (pe_conf e)\<rparr>;
             switch = \<not> sat_pred (pe_conf e1) \<and> stride \<noteq> 0 \<and> stride = pe_lastPos e1 - pe_lastLastPos e1;
             e2 = (if switch then e1\<lparr>pe_conf := sat_reset, pe_stride := stride\<rparr> else e1);
             st2 = (if switch then st\<lparr>ps_strideSwitches := ps_strideSwitches st + 1\<rparr> else st)
         in Inr (None, e2\<lparr>pe_lastPrefetchPos := pos\<rparr>, st2)))"

text \<open>An issued prefetch is noted in the entry; the start cycle is cut to 32 bits.\<close>

definition entry_fill :: "u32 \<Rightarrow> nat \<Rightarrow> nat \<Rightarrow> PfEntry \<Rightarrow> PfEntry" where
  "entry_fill p reqCycle pfRespCycle e =
     e\<lparr>pe_valid := (pe_valid e)[unat p := True], pe_times := (pe_times e)[unat p := (reqCycle mod 2 ^ 32, pfRespCycle)],
       pe_lastPrefetchPos := p\<rparr>"

definition entry_move :: "u32 \<Rightarrow> PfEntry \<Rightarrow> PfEntry" where
  "entry_move pos e = e\<lparr>pe_lastLastPos := pe_lastPos e, pe_lastPos := pos\<rparr>"

section \<open>The recorder of an out-of-order core\<close>

text \<open>
  What \<open>recordPrefetch\<close> reads of the recorder: \<open>oor_last\<close> is \<open>lastEvProduced\<close>, an issue event with its
  start in zero-load cycles. There is one domain, so no crossings are produced.
\<close>

record OOORecorder =
  oor_state :: CrState
  oor_gap :: nat
  oor_last :: "(nat \<times> nat) option"

definition recordPrefetch :: "OOORecorder \<Rightarrow> Recorded \<Rightarrow> Weave \<Rightarrow> (bool \<times> Weave) res" where
  "recordPrefetch ooo tr w =
     (case oor_last ooo of
        None \<Rightarrow> Inr (False, w)
      | Some (p, lastZll) \<Rightarrow>
          if oor_state ooo \<noteq> RUNNING then Inr (False, w)
          else
            (let zllCycle = sub64 (rc_reqCycle tr) (oor_gap ooo) in
             if (zllCycle + oor_gap ooo) mod 2 ^ 64 < te_minStart (events w ! p) then Inr (False, w)
             else
               (let issueDelay = (if zllCycle > lastZll then zllCycle - lastZll else 0) mod 2 ^ 32;
                    (d, w1) = alloc (new_DelayEvent issueDelay) w;
                    w2 = setMinStartCycle d (te_minStart (events w1 ! p)) w1
                in bindR (addChild p d w2) (\<lambda>(anchor, w3).
                   bindR (link_start anchor tr w3) (\<lambda>(e, w4). Inr (True, w4))))))"

section \<open>Accesses\<close>

text \<open>
  The parents above: the bank, the request, the pointer to the state of the requester. During the
  access a parent may invalidate lines below the prefetcher, which pass through it; their
  addresses are in the answer.
\<close>

type_synonym ('a, 'm) banks =
  "nat \<Rightarrow> MemReq \<Rightarrow> StatePtr \<Rightarrow> ('a, 'm) MemSys \<Rightarrow> (nat \<times> addr list \<times> ('a, 'm) MemSys) res"

definition can_record :: "(nat \<Rightarrow> OOORecorder option) \<Rightarrow> nat \<Rightarrow> ('a, 'm) MemSys \<Rightarrow> bool" where
  "can_record ooo src s \<longleftrightarrow> src < length (recorders s) \<and> ooo src \<noteq> None \<and> recorders s ! src \<noteq> None"

definition prefetch_flags :: "bool \<Rightarrow> u32" where
  "prefetch_flags can = (let fl = flag_bit PREFETCH OR flag_bit PREFETCH_HINT
                         in if can then fl else fl OR flag_bit PREFETCH_NOREC)"

definition prefetch_req :: "addr \<Rightarrow> nat \<Rightarrow> nat \<Rightarrow> nat \<Rightarrow> bool \<Rightarrow> MemReq" where
  "prefetch_req a child cyc src can =
     \<lparr>lineAddr = a, req_type = GETS, childId = child, cycle = cyc, initialState = I, srcId = src, flags = prefetch_flags can\<rparr>"

text \<open>The record that a prefetch leaves goes to the core; one that the core refuses is queued.\<close>

definition attach_record :: "OOORecorder \<Rightarrow> nat \<Rightarrow> ('a, 'm) MemSys \<Rightarrow> (bool \<times> ('a, 'm) MemSys) res" where
  "attach_record ooo src s =
     (case take_record src s of
        (None, s1) \<Rightarrow> Inr (False, s1)
      | (Some r, s1) \<Rightarrow>
          bindR (recordPrefetch ooo r (weave s1)) (\<lambda>(recorded, w).
            case rc_startEvent r of
              Some e \<Rightarrow>
                if recorded then Inr (recorded, s1\<lparr>weave := w\<rparr>)
                else bindR (te_queue e (rc_reqCycle r) w) (\<lambda>w1. Inr (recorded, s1\<lparr>weave := w1\<rparr>))
            | None \<Rightarrow> Inr (recorded, s1\<lparr>weave := w\<rparr>)))"

text \<open>
  \<open>issuePrefetch\<close>: the record of the demand access is set aside, and the state that the prefetch is
  granted is a local variable.
\<close>

definition issuePrefetch ::
  "(nat \<Rightarrow> OOORecorder option) \<Rightarrow> ('a, 'm) banks \<Rightarrow> nat \<Rightarrow> addr \<Rightarrow> nat \<Rightarrow> nat \<Rightarrow> nat \<Rightarrow> ('a, 'm) MemSys
     \<Rightarrow> (nat \<times> addr list \<times> bool \<times> ('a, 'm) MemSys) res" where
  "issuePrefetch ooo up p a child cyc src s =
     (let can = can_record ooo src s;
          (saved, s1) = (if can then take_record src s else (None, s))
      in bindR (up p (prefetch_req a child cyc src can) Dummy (s1\<lparr>dummyState := I\<rparr>)) (\<lambda>(resp, invs, s2).
         bindR (if can then attach_record (the (ooo src)) src s2 else Inr (False, s2)) (\<lambda>(recorded, s3).
         bindR (case saved of None \<Rightarrow> Inr s3 | Some r \<Rightarrow> push_rec src r s3) (\<lambda>s4.
         require (dummyState s4 = I) (AssertFail ''state == I'') (Inr (resp, invs, recorded, s4))))))"

definition count_recorded :: "bool \<Rightarrow> PfStats \<Rightarrow> PfStats" where
  "count_recorded recorded st =
     (if recorded then st\<lparr>ps_attached := ps_attached st + 1\<rparr> else st\<lparr>ps_bypassed := ps_bypassed st + 1\<rparr>)"

text \<open>The rest of an access whose page has the entry \<open>i\<close>; \<open>resp\<close> is the answer of the parent.\<close>

definition page_hit ::
  "(nat \<Rightarrow> OOORecorder option) \<Rightarrow> ('a, 'm) banks \<Rightarrow> MemReq \<Rightarrow> nat \<Rightarrow> nat \<Rightarrow> ('a, 'm) MemSys \<Rightarrow> StreamPrefetcher
     \<Rightarrow> (nat \<times> StreamPrefetcher \<times> ('a, 'm) MemSys) res" where
  "page_hit ooo up req i resp s pf =
     (let pos = pos_of (lineAddr req);
          st = (pf_stats pf)\<lparr>ps_pageHits := ps_pageHits (pf_stats pf) + 1\<rparr>;
          e = (pf_array pf ! i)\<lparr>pe_ts := pf_timestamp pf\<rparr>;
          (resp1, short, e1, st1) = demand_hit pos (cycle req) resp e st
      in bindR (predict pos e1 st1) (\<lambda>(target, e2, st2).
           let pf1 = pf\<lparr>pf_timestamp := pf_timestamp pf + 1, pf_stats := st2, pf_array := (pf_array pf)[i := e2]\<rparr> in
           bindR (case target of
                    None \<Rightarrow> Inr (pf1, s)
                  | Some q \<Rightarrow>
                      (let a = lineAddr req + ucast q - ucast pos in
                       bindR (selectParent a pf1) (\<lambda>p.
                       bindR (issuePrefetch ooo up p a (childId req) (cycle req) (srcId req) s) (\<lambda>(pfResp, invs, recorded, s1).
                         let pf2 = fold invalidateLine invs pf1;
                             st3 = count_recorded recorded (pf_stats pf2)
                         in Inr ((upd_entry_at i (entry_fill q (cycle req) pfResp) pf2)
                                   \<lparr>pf_stats := st3\<lparr>ps_prefetches := ps_prefetches st3 + 1\<rparr>\<rparr>, s1)))))
             (\<lambda>(pf3, s3). Inr (resp1, upd_entry_at i (entry_move pos) pf3, s3))))"

definition pf_access ::
  "(nat \<Rightarrow> OOORecorder option) \<Rightarrow> ('a, 'm) banks \<Rightarrow> MemReq \<Rightarrow> StatePtr \<Rightarrow> ('a, 'm) MemSys \<Rightarrow> StreamPrefetcher
     \<Rightarrow> (nat \<times> StreamPrefetcher \<times> ('a, 'm) MemSys) res" where
  "pf_access ooo up req0 ptr s pf =
     (let req = req0\<lparr>childId := pf_childId pf\<rparr> in
      if req_type req \<noteq> GETS then
        bindR (selectParent (lineAddr req) pf) (\<lambda>p.
        bindR (up p req ptr s) (\<lambda>(resp, invs, s1). Inr (resp, fold invalidateLine invs pf, s1)))
      else
        (let page = page_of (lineAddr req);
             pf1 = note_page page pf;
             idx = find_entry page (pf_tag pf1)
         in bindR (selectParent (lineAddr req) pf1) (\<lambda>p.
            bindR (up p req ptr s) (\<lambda>(resp, invs, s1).
              let pf2 = fold invalidateLine invs pf1 in
              case idx of
                None \<Rightarrow> Inr (resp, page_miss page (pos_of (lineAddr req)) (cycle req) pf2, s1)
              | Some i \<Rightarrow> page_hit ooo up req i resp s1 pf2))))"

section \<open>Statistics\<close>

definition accuracy_pct_x100 :: "StreamPrefetcher \<Rightarrow> nat" where
  "accuracy_pct_x100 pf = (let st = pf_stats pf in
     if ps_prefetches st = 0 then 0 else ps_hits st * 10000 div ps_prefetches st)"

definition coverage_pct_x100 :: "StreamPrefetcher \<Rightarrow> nat" where
  "coverage_pct_x100 pf = (let st = pf_stats pf in
     if ps_accesses st = 0 then 0 else ps_hits st * 10000 div ps_accesses st)"

definition pfLead_avg_cycles :: "StreamPrefetcher \<Rightarrow> nat" where
  "pfLead_avg_cycles pf = (let st = pf_stats pf in
     if ps_leadSamples st = 0 then 0 else ps_leadCycles st div ps_leadSamples st)"

definition avgPageRunLen_x100 :: "StreamPrefetcher \<Rightarrow> nat" where
  "avgPageRunLen_x100 pf = (let st = pf_stats pf;
       open_run = pf_hasLastPage pf \<and> pf_runLength pf \<noteq> 0;
       total = ps_runLengthTotal st + (if open_run then pf_runLength pf else 0);
       runs = ps_runCount st + (if open_run then 1 else 0)
     in if runs = 0 then 0 else total * 100 div runs)"

end
