(* ===== verification/Prefetch_Stream.thy ===== *)
theory Prefetch_Stream
  imports Prefetcher
begin

text \<open>
  What the stream prefetcher does for the levels around it: the invariant of its table, what the
  parents see of an access, the streams it covers, and one that a conversion of integers makes it miss.
\<close>

section \<open>Addresses\<close>

lemma unat_low6: "unat (a AND 63 :: u64) = unat a mod 64"
proof -
  have "a AND 63 = take_bit 6 a" by (simp add: take_bit_eq_mask mask_eq_exp_minus_1)
  then show ?thesis by (simp add: take_bit_eq_mod unat_mod)
qed

lemma unat_pos_of: "unat (pos_of a) = unat a mod 64"
proof -
  have "unat (a AND 63) < 2 ^ 32" using unat_low6 [of a] by (simp add: less_trans [OF mod_less_divisor])
  then show ?thesis by (simp add: pos_of_def unsigned_ucast_eq unat_low6 [symmetric] take_bit_nat_eq_self)
qed

lemma unat_page_of: "unat (page_of a) = unat a div 64"
  by (simp add: page_of_def drop_bit_eq_div unat_div)

lemma pos_less: "pos_of a < 64"
  by (simp add: word_less_nat_alt unat_pos_of)

text \<open>A prefetch for a position of the page is in the page.\<close>

lemma page_of_shift:
  assumes "q < 64"
  shows "page_of (a + ucast q - ucast (pos_of a)) = page_of a" "pos_of (a + ucast q - ucast (pos_of a)) = q"
proof -
  let ?l = "ucast (pos_of a) :: u64" and ?q = "ucast q :: u64"
  have up: "unat (ucast x :: u64) = unat x" for x :: u32
    using unsigned_less [of x, where 'a = nat] by (simp add: unsigned_ucast_eq take_bit_nat_eq_self)
  have q: "unat ?q = unat q" "unat q < 64" using assms by (simp_all add: up word_less_nat_alt)
  have l: "unat ?l = unat a mod 64" by (simp add: up unat_pos_of)
  then have le: "?l \<le> a" by (simp add: word_le_nat_alt)
  have d: "unat (a - ?l) = 64 * (unat a div 64)"
    using unat_sub [OF le] l by (simp add: minus_mod_eq_mult_div)
  have "64 * (unat a div 64) + 63 < 2 ^ 64"
  proof -
    have "unat a div 64 < 2 ^ 58" using unsigned_less [of a, where 'a = nat] by (simp add: less_mult_imp_div_less)
    then show ?thesis by simp
  qed
  then have "unat ((a - ?l) + ?q) = 64 * (unat a div 64) + unat q"
    using q d by (subst unat_add_lem [THEN iffD1]) simp_all
  moreover have "a + ?q - ?l = (a - ?l) + ?q" by (simp add: algebra_simps)
  ultimately have u: "unat (a + ?q - ?l) = 64 * (unat a div 64) + unat q" by (simp only:)
  have "unat (page_of (a + ?q - ?l)) = unat (page_of a)" using q(2) by (simp add: unat_page_of u)
  then show "page_of (a + ?q - ?l) = page_of a" by (rule unsigned_word_eqI)
  have "unat (pos_of (a + ?q - ?l)) = unat q" using q(2) by (simp add: unat_pos_of u)
  then show "pos_of (a + ?q - ?l) = q" by (rule unsigned_word_eqI)
qed

section \<open>The table\<close>

text \<open>\<open>T\<close> are the tags that the constructor found in memory.\<close>

definition entry_ok :: "PfEntry \<Rightarrow> bool" where
  "entry_ok e \<longleftrightarrow> length (pe_valid e) = 64 \<and> length (pe_times e) = 64"

definition pf_ok :: "addr set \<Rightarrow> StreamPrefetcher \<Rightarrow> bool" where
  "pf_ok T pf \<longleftrightarrow> pf_parents pf \<noteq> 0 \<and> length (pf_tag pf) = 16 \<and> length (pf_array pf) = 16 \<and>
     (\<forall>i<16. entry_ok (pf_array pf ! i) \<and> (pf_tag pf ! i \<in> T \<or> pe_stride (pf_array pf ! i) \<noteq> 0)) \<and>
     (\<forall>i<16. \<forall>j<16. pf_tag pf ! i = pf_tag pf ! j \<longrightarrow> pf_tag pf ! i \<in> T \<or> i = j)"

lemma pf_okD:
  assumes "pf_ok T pf"
  shows "pf_parents pf \<noteq> 0" "length (pf_tag pf) = 16" "length (pf_array pf) = 16"
    "i < 16 \<Longrightarrow> entry_ok (pf_array pf ! i)" "i < 16 \<Longrightarrow> pf_tag pf ! i \<notin> T \<Longrightarrow> pe_stride (pf_array pf ! i) \<noteq> 0"
    "i < 16 \<Longrightarrow> j < 16 \<Longrightarrow> pf_tag pf ! i = pf_tag pf ! j \<Longrightarrow> pf_tag pf ! i \<notin> T \<Longrightarrow> i = j"
  using assms by (auto simp: pf_ok_def)

lemma last_match: "fold (\<lambda>i idx. if P i then Some i else idx) xs d = (case find P (rev xs) of Some i \<Rightarrow> Some i | None \<Rightarrow> d)"
  by (induction xs arbitrary: d) (auto simp: find_append split: option.splits)

lemma find_SomeD: "find P xs = Some i \<Longrightarrow> i \<in> set xs \<and> P i"
  by (induction xs) (auto split: if_splits)

lemma sixteen: "i \<in> set slots \<longleftrightarrow> i < 16"
  by (simp only: slots_def set_upt atLeastLessThan_iff) simp

lemma find_entry_find: "find_entry page tags = find (\<lambda>i. page = tags ! i) (rev slots)"
  unfolding find_entry_def last_match by (cases "find (\<lambda>i. page = tags ! i) (rev slots)") simp_all

lemma find_entry_Some: "find_entry page tags = Some i \<Longrightarrow> i < 16 \<and> tags ! i = page"
  unfolding find_entry_find by (drule find_SomeD) (simp add: sixteen)

lemma find_entry_None: "find_entry page tags = None \<longleftrightarrow> (\<forall>i<16. tags ! i \<noteq> page)"
proof -
  have "find_entry page tags = None \<longleftrightarrow> \<not> (\<exists>i. i \<in> set (rev slots) \<and> page = tags ! i)"
    unfolding find_entry_find find_None_iff ..
  then show ?thesis by (metis set_rev sixteen)
qed

lemma find_entry_unique: "i < 16 \<Longrightarrow> tags ! i = page \<Longrightarrow> (\<And>j. j < 16 \<Longrightarrow> tags ! j = page \<Longrightarrow> j = i) \<Longrightarrow> find_entry page tags = Some i"
  using find_entry_None [of page tags] find_entry_Some [of page tags] by (cases "find_entry page tags") blast+

text \<open>For a page that is not left over from memory, the two searches find the same entry.\<close>

lemma invalidate_search:
  assumes "pf_ok T pf" "page \<notin> T"
  shows "find (\<lambda>i. pf_tag pf ! i = page) slots = find_entry page (pf_tag pf)"
proof (cases "find (\<lambda>i. pf_tag pf ! i = page) slots")
  case None
  then have "find_entry page (pf_tag pf) = None" unfolding find_entry_None find_None_iff sixteen by blast
  then show ?thesis using None by simp
next
  case (Some i)
  from find_SomeD [OF Some] have i: "i < 16" "pf_tag pf ! i = page" by (simp_all add: sixteen)
  have "find_entry page (pf_tag pf) = Some i"
  proof (rule find_entry_unique [OF i])
    fix j assume j: "j < 16" "pf_tag pf ! j = page"
    show "j = i" by (rule pf_okD(6) [OF assms(1) j(1) i(1)]) (simp_all add: i(2) j(2) assms(2))
  qed
  then show ?thesis using Some by simp
qed

lemma victim_less: "victim_entry c es = Some i \<Longrightarrow> i < 16"
proof -
  have "fst (fold (\<lambda>i (cand, score).
            if pe_lastCycle (es ! i) > c + 500 then (cand, score)
            else if pe_ts (es ! i) < score then (Some i, pe_ts (es ! i)) else (cand, score)) xs r) = Some i \<Longrightarrow>
        i \<in> set xs \<or> fst r = Some i" for xs :: "nat list" and r
    by (induction xs arbitrary: r) (fastforce split: if_splits)+
  from this [of slots "(None, 2 ^ 64 - 1)"] show "victim_entry c es = Some i \<Longrightarrow> i < 16"
    unfolding victim_entry_def sixteen by simp
qed

text \<open>An entry changes, and keeps its size and that its stride is not zero.\<close>

lemma pf_ok_entry:
  assumes ok: "pf_ok T pf" and i: "i < 16" and e: "entry_ok e" "pe_stride (pf_array pf ! i) \<noteq> 0 \<Longrightarrow> pe_stride e \<noteq> 0"
    and f: "pf_tag pf' = pf_tag pf" "pf_parents pf' = pf_parents pf" "pf_array pf' = (pf_array pf)[i := e]"
  shows "pf_ok T pf'"
  using ok e i unfolding pf_ok_def f by (auto simp: nth_list_update)

lemma entry_ok_simps [simp]:
  "entry_ok (e\<lparr>pe_ts := t\<rparr>) = entry_ok e" "entry_ok (e\<lparr>pe_conf := c\<rparr>) = entry_ok e" "entry_ok (e\<lparr>pe_stride := st\<rparr>) = entry_ok e"
  "entry_ok (e\<lparr>pe_lastPos := p\<rparr>) = entry_ok e" "entry_ok (e\<lparr>pe_lastLastPos := p\<rparr>) = entry_ok e"
  "entry_ok (e\<lparr>pe_lastPrefetchPos := p\<rparr>) = entry_ok e" "entry_ok (e\<lparr>pe_lastCycle := t\<rparr>) = entry_ok e"
  "entry_ok e \<Longrightarrow> entry_ok (entry_fill p t r e)" "entry_ok (entry_move p e) = entry_ok e"
  "entry_ok e \<Longrightarrow> entry_ok (e\<lparr>pe_valid := (pe_valid e)[n := b]\<rparr>)"
  "length (pe_times e) = 64 \<Longrightarrow> entry_ok (entry_alloc t e)"
  by (simp_all add: entry_ok_def entry_fill_def entry_move_def entry_alloc_def)

lemma entry_stride_simps [simp]:
  "pe_stride (entry_fill p t r e) = pe_stride e" "pe_stride (entry_move p e) = pe_stride e" "pe_stride (entry_alloc t e) = 1"
  by (simp_all add: entry_fill_def entry_move_def entry_alloc_def)

lemma invalidate_frame [simp]:
  "pf_tag (invalidateLine a pf) = pf_tag pf" "pf_parents (invalidateLine a pf) = pf_parents pf"
  "pf_stats (invalidateLine a pf) = pf_stats pf" "pf_timestamp (invalidateLine a pf) = pf_timestamp pf"
  "length (pf_array (invalidateLine a pf)) = length (pf_array pf)" "pf_childId (invalidateLine a pf) = pf_childId pf"
  by (simp_all add: invalidateLine_def split: option.splits)

lemma invalidates_frame [simp]:
  "pf_tag (fold invalidateLine as pf) = pf_tag pf" "pf_parents (fold invalidateLine as pf) = pf_parents pf"
  "pf_stats (fold invalidateLine as pf) = pf_stats pf" "pf_timestamp (fold invalidateLine as pf) = pf_timestamp pf"
  "length (pf_array (fold invalidateLine as pf)) = length (pf_array pf)" "pf_childId (fold invalidateLine as pf) = pf_childId pf"
  by (induction as arbitrary: pf) simp_all

lemma invalidate_ok: "pf_ok T pf \<Longrightarrow> pf_ok T (invalidateLine a pf)"
proof (cases "find (\<lambda>i. pf_tag pf ! i = page_of a) slots")
  case None
  assume "pf_ok T pf"
  then show ?thesis by (simp add: invalidateLine_def None)
next
  case (Some i)
  assume ok: "pf_ok T pf"
  have i: "i < 16" using find_SomeD [OF Some] by (simp add: sixteen)
  show ?thesis
    by (rule pf_ok_entry [OF ok i, where e = "(pf_array pf ! i)\<lparr>pe_valid := (pe_valid (pf_array pf ! i))[unat (pos_of a) := False]\<rparr>"])
      (simp_all add: invalidateLine_def Some pf_okD(4) [OF ok i])
qed

lemma invalidates_ok: "pf_ok T pf \<Longrightarrow> pf_ok T (fold invalidateLine as pf)"
  by (induction as arbitrary: pf) (simp_all add: invalidate_ok)

lemma note_page_frame [simp]:
  "pf_tag (note_page page pf) = pf_tag pf" "pf_parents (note_page page pf) = pf_parents pf"
  "pf_array (note_page page pf) = pf_array pf" "pf_childId (note_page page pf) = pf_childId pf"
  "pf_timestamp (note_page page pf) = pf_timestamp pf" "ps_hits (pf_stats (note_page page pf)) = ps_hits (pf_stats pf)"
  "ps_prefetches (pf_stats (note_page page pf)) = ps_prefetches (pf_stats pf)"
  by (simp_all add: note_page_def Let_def)

lemma note_page_ok: "pf_ok T pf \<Longrightarrow> pf_ok T (note_page page pf)"
  by (simp add: pf_ok_def)

lemma page_miss_ok:
  assumes ok: "pf_ok T pf" and n: "find_entry page (pf_tag pf) = None"
  shows "pf_ok T (page_miss page pos c pf)"
proof (cases "victim_entry c (pf_array pf)")
  case None
  then show ?thesis using ok by (simp add: page_miss_def)
next
  case (Some i)
  have i: "i < 16" by (rule victim_less [OF Some])
  have t: "pf_tag pf ! j \<noteq> page" if "j < 16" for j using n that by (simp add: find_entry_None)
  note d = pf_okD [OF ok]
  have "length (pe_times (pf_array pf ! i)) = 64" using d(4) [OF i] by (simp add: entry_ok_def)
  then show ?thesis
    using ok i t by (auto simp: page_miss_def Some pf_ok_def nth_list_update)
qed

section \<open>The predictor\<close>

lemma demand_hit_frame:
  assumes "demand_hit pos c r e st = (r', short, e', st')"
  shows "r \<le> r'" "entry_ok e \<Longrightarrow> entry_ok e'" "pe_stride e' = pe_stride e" "pe_conf e' = pe_conf e" "pe_lastPos e' = pe_lastPos e"
    "pe_lastLastPos e' = pe_lastLastPos e" "pe_lastPrefetchPos e' = pe_lastPrefetchPos e"
    "pe_valid e' = (pe_valid e)[unat pos := False]" "pe_ts e' = pe_ts e"
    "ps_hits st' = ps_hits st + (if pe_valid e ! unat pos then 1 else 0)" "ps_prefetches st' = ps_prefetches st"
proof -
  have "(pe_valid e)[unat pos := False] = pe_valid e" if "\<not> pe_valid e ! unat pos"
    using that by (metis list_update_id)
  then show "r \<le> r'" "entry_ok e \<Longrightarrow> entry_ok e'" "pe_stride e' = pe_stride e" "pe_conf e' = pe_conf e" "pe_lastPos e' = pe_lastPos e"
    "pe_lastLastPos e' = pe_lastLastPos e" "pe_lastPrefetchPos e' = pe_lastPrefetchPos e"
    "pe_valid e' = (pe_valid e)[unat pos := False]" "pe_ts e' = pe_ts e"
    "ps_hits st' = ps_hits st + (if pe_valid e ! unat pos then 1 else 0)" "ps_prefetches st' = ps_prefetches st"
    using assms by (auto simp: demand_hit_def Let_def split: if_splits prod.splits)
qed

lemma predict_ok:
  assumes "pe_stride e \<noteq> 0"
  shows "succeeds (predict pos e st) (\<lambda>(target, e', st'). (entry_ok e \<longrightarrow> entry_ok e') \<and> pe_stride e' \<noteq> 0 \<and>
    (\<forall>q. target = Some q \<longrightarrow> q < 64) \<and> pe_lastPos e' = pe_lastPos e \<and> pe_valid e' = pe_valid e \<and>
    ps_hits st' = ps_hits st \<and> ps_prefetches st' = ps_prefetches st)"
  using assms by (auto simp: predict_def Let_def)

section \<open>What an access asks of the parents\<close>

text \<open>
  The interface to the levels around the prefetcher. A parent answers a demand access, no earlier than
  asked, and keeps the invariant of the system; after the demand a prefetch of the same page can be issued.
\<close>

locale prefetch_parent =
  fixes ooo :: "nat \<Rightarrow> OOORecorder option"
    and up :: "('a, 'm) banks"
    and sinv :: "('a, 'm) MemSys \<Rightarrow> bool"
    and demand :: "MemReq \<Rightarrow> StatePtr \<Rightarrow> ('a, 'm) MemSys \<Rightarrow> bool"
    and np :: nat
  assumes demand_ok: "p < np \<Longrightarrow> sinv s \<Longrightarrow> demand req ptr s \<Longrightarrow>
      succeeds (up p req ptr s) (\<lambda>(resp, invs, s'). cycle req \<le> resp \<and> sinv s')"
    and side_ok: "p < np \<Longrightarrow> q < np \<Longrightarrow> sinv s \<Longrightarrow> demand req ptr s \<Longrightarrow> up p req ptr s = Inr (resp, invs, s1) \<Longrightarrow>
      req_type req = GETS \<Longrightarrow> page_of a = page_of (lineAddr req) \<Longrightarrow>
      succeeds (issuePrefetch ooo up q a (childId req) (cycle req) (srcId req) s1) (\<lambda>(resp, invs, recorded, s'). sinv s')"

text \<open>The effect of the prefetcher on the parents beside the demand access.\<close>

definition one_prefetch ::
  "(nat \<Rightarrow> OOORecorder option) \<Rightarrow> ('a, 'm) banks \<Rightarrow> MemReq \<Rightarrow> ('a, 'm) MemSys \<Rightarrow> ('a, 'm) MemSys \<Rightarrow> bool" where
  "one_prefetch ooo up req s1 s2 \<longleftrightarrow> s2 = s1 \<or> req_type req = GETS \<and>
     (\<exists>p a resp invs recorded. page_of a = page_of (lineAddr req) \<and>
        issuePrefetch ooo up p a (childId req) (cycle req) (srcId req) s1 = Inr (resp, invs, recorded, s2))"

lemma selectParent_less: "pf_parents pf \<noteq> 0 \<Longrightarrow> succeeds (selectParent a pf) (\<lambda>p. p < pf_parents pf)"
  by (simp add: selectParent_def getParentId_def)

text \<open>One access to a page with an entry, as a relation between the states of the entry and the counters.\<close>

definition entry_steps :: "u32 \<Rightarrow> nat \<Rightarrow> nat \<times> nat \<times> PfEntry \<Rightarrow> nat \<times> nat \<times> PfEntry \<Rightarrow> bool" where
  "entry_steps pos c = (\<lambda>(h, n, e) (h', n', e'). \<exists>t resp r st resp1 short e1 st1 target e2 st2.
     demand_hit pos c resp (e\<lparr>pe_ts := t\<rparr>) st = (resp1, short, e1, st1) \<and> predict pos e1 st1 = Inr (target, e2, st2) \<and>
     e' = entry_move pos (case target of None \<Rightarrow> e2 | Some q \<Rightarrow> entry_fill q c r e2) \<and>
     ps_hits st = h \<and> ps_hits st2 = h' \<and> n' = n + (case target of None \<Rightarrow> 0 | Some q \<Rightarrow> 1))"

definition counts_at :: "nat \<Rightarrow> StreamPrefetcher \<Rightarrow> nat \<times> nat \<times> PfEntry" where
  "counts_at i pf = (ps_hits (pf_stats pf), ps_prefetches (pf_stats pf), pf_array pf ! i)"

lemma invalidate_other: "page_of a \<noteq> pf_tag pf ! i \<Longrightarrow> pf_array (invalidateLine a pf) ! i = pf_array pf ! i"
  by (auto simp: invalidateLine_def nth_upd split: option.splits dest!: find_SomeD)

lemma invalidates_other: "pf_tag pf ! i \<notin> page_of ` set as \<Longrightarrow> pf_array (fold invalidateLine as pf) ! i = pf_array pf ! i"
  by (induction as arbitrary: pf) (auto simp: invalidate_other)

lemma issuePrefetch_up:
  assumes "issuePrefetch ooo up p a child c src s = Inr (resp, invs, recorded, s')"
  shows "\<exists>req ptr s1 s2. up p req ptr s1 = Inr (resp, invs, s2)"
  using assms by (auto simp: issuePrefetch_def Let_def bindR_eq_Inr_iff require_eq_Inr_iff split: prod.splits if_splits)

text \<open>No parent takes a line of the page away.\<close>

definition calm_page :: "('a, 'm) banks \<Rightarrow> addr \<Rightarrow> bool" where
  "calm_page up page \<longleftrightarrow> (\<forall>p req ptr s resp invs s'. up p req ptr s = Inr (resp, invs, s') \<longrightarrow> page \<notin> page_of ` set invs)"

context prefetch_parent
begin

lemma page_hit_ok:
  assumes pf: "pf_ok T pf" "pf_parents pf = np" "i < 16" "pf_tag pf ! i \<notin> T"
    and s: "p < np" "sinv s" "demand req ptr s" "up p req ptr s = Inr (resp, invs, s1)" "sinv s1" and req: "req_type req = GETS"
  shows "succeeds (page_hit ooo up req i resp s1 pf) (\<lambda>(resp', pf', s'). resp \<le> resp' \<and> pf_ok T pf' \<and> pf_parents pf' = np \<and>
    pf_childId pf' = pf_childId pf \<and> pf_tag pf' = pf_tag pf \<and> sinv s' \<and> one_prefetch ooo up req s1 s' \<and>
    (calm_page up (pf_tag pf ! i) \<longrightarrow> entry_steps (pos_of (lineAddr req)) (cycle req) (counts_at i pf) (counts_at i pf')))"
proof -
  let ?pos = "pos_of (lineAddr req)"
  let ?st = "(pf_stats pf)\<lparr>ps_pageHits := ps_pageHits (pf_stats pf) + 1\<rparr>" and ?e = "(pf_array pf ! i)\<lparr>pe_ts := pf_timestamp pf\<rparr>"
  note d = pf_okD [OF pf(1)]
  obtain resp1 short e1 st1 where h: "demand_hit ?pos (cycle req) resp ?e ?st = (resp1, short, e1, st1)" by (metis surj_pair)
  note hf = demand_hit_frame [OF h]
  have e1: "entry_ok e1" "pe_stride e1 \<noteq> 0" using hf(2,3) d(4,5) [OF pf(3)] pf(4) by simp_all
  from predict_ok [OF e1(2), of ?pos st1] obtain target e2 st2 where
    p: "predict ?pos e1 st1 = Inr (target, e2, st2)" "entry_ok e2" "pe_stride e2 \<noteq> 0" "\<And>q. target = Some q \<Longrightarrow> q < 64"
      "ps_hits st2 = ps_hits st1" "ps_prefetches st2 = ps_prefetches st1" using e1(1) by (auto simp: succeeds_iff)
  define pf1 where "pf1 = pf\<lparr>pf_timestamp := pf_timestamp pf + 1, pf_stats := st2, pf_array := (pf_array pf)[i := e2]\<rparr>"
  have i: "i < length (pf_array pf)" using pf(3) d(3) by simp
  have ok1: "pf_ok T pf1" by (rule pf_ok_entry [OF pf(1,3) p(2)]) (simp_all add: pf1_def p(3))
  have par1: "pf_parents pf1 = np" "pf_tag pf1 = pf_tag pf" "pf_childId pf1 = pf_childId pf" "pf_array pf1 ! i = e2" "pf_stats pf1 = st2"
    using i by (simp_all add: pf1_def pf(2))
  show ?thesis
  proof (cases target)
    case None
    let ?pf = "upd_entry_at i (entry_move ?pos) pf1"
    have run: "page_hit ooo up req i resp s1 pf = Inr (resp1, ?pf, s1)"
      unfolding page_hit_def Let_def h prod.case p(1) bindR_Inr None option.case pf1_def [symmetric] ..
    have "pf_ok T ?pf" by (rule pf_ok_entry [OF ok1 pf(3), of "entry_move ?pos e2"]) (simp_all add: p(2,3) par1)
    moreover have "entry_steps ?pos (cycle req) (counts_at i pf) (counts_at i ?pf)"
      using h p(1) hf(11) p(6) i unfolding entry_steps_def counts_at_def
      by (simp add: par1) (fastforce simp: None pf1_def)
    ultimately show ?thesis unfolding run using hf(1) s(5) par1 by (simp add: one_prefetch_def)
  next
    case (Some q)
    have q: "q < 64" by (rule p(4) [OF Some])
    define a where "a = lineAddr req + ucast q - ucast ?pos"
    have pa: "page_of a = page_of (lineAddr req)" unfolding a_def by (rule page_of_shift(1) [OF q])
    from selectParent_less [of pf1 a] ok1 obtain b where b: "selectParent a pf1 = Inr b" "b < np"
      by (auto simp: succeeds_iff par1 pf_ok_def)
    from side_ok [OF s(1) b(2) s(2-4) req pa] obtain r invs' rec s2 where
      iss: "issuePrefetch ooo up b a (childId req) (cycle req) (srcId req) s1 = Inr (r, invs', rec, s2)" "sinv s2"
      by (auto simp: succeeds_iff)
    define pf2 where "pf2 = fold invalidateLine invs' pf1"
    have ok2: "pf_ok T pf2" unfolding pf2_def by (rule invalidates_ok [OF ok1])
    let ?st3 = "count_recorded rec (pf_stats pf2)"
    let ?pf3 = "(upd_entry_at i (entry_fill q (cycle req) r) pf2)\<lparr>pf_stats := ?st3\<lparr>ps_prefetches := ps_prefetches ?st3 + 1\<rparr>\<rparr>"
    let ?pf = "upd_entry_at i (entry_move ?pos) ?pf3"
    have run: "page_hit ooo up req i resp s1 pf = Inr (resp1, ?pf, s2)"
      unfolding page_hit_def Let_def h prod.case p(1) bindR_Inr Some option.case pf1_def [symmetric] a_def [symmetric]
        b(1) iss(1) pf2_def [symmetric] ..
    have i2: "i < length (pf_array pf2)" using i by (simp add: pf2_def pf1_def)
    have "pf_ok T ?pf"
      by (rule pf_ok_entry [OF ok2 pf(3), of "entry_move ?pos (entry_fill q (cycle req) r (pf_array pf2 ! i))"])
        (use pf_okD(4) [OF ok2 pf(3)] i2 in simp_all)
    moreover have "entry_steps ?pos (cycle req) (counts_at i pf) (counts_at i ?pf)" if "calm_page up (pf_tag pf ! i)"
    proof -
      from issuePrefetch_up [OF iss(1)] that have "pf_tag pf1 ! i \<notin> page_of ` set invs'"
        unfolding calm_page_def par1(2) by metis
      from invalidates_other [OF this] have e2: "pf_array pf2 ! i = e2" by (simp add: pf2_def par1)
      have st: "pf_stats pf2 = st2" by (simp add: pf2_def par1)
      show ?thesis
        using h p(1) hf(11) p(6) i2 unfolding entry_steps_def counts_at_def
        by (simp add: st e2 count_recorded_def) (fastforce simp: Some e2)
    qed
    moreover have "one_prefetch ooo up req s1 s2" using pa iss(1) req by (auto simp: one_prefetch_def)
    ultimately show ?thesis unfolding run using hf(1) iss(2) par1 by (simp add: pf2_def)
  qed
qed

lemma access_ok:
  assumes pf: "pf_ok T pf" "pf_parents pf = np" "page_of (lineAddr req) \<notin> T"
    and s: "sinv s" "demand (req\<lparr>childId := pf_childId pf\<rparr>) ptr s"
  shows "succeeds (pf_access ooo up req ptr s pf) (\<lambda>(resp, pf', s'). pf_ok T pf' \<and> pf_parents pf' = np \<and>
    pf_childId pf' = pf_childId pf \<and> sinv s' \<and>
    (\<exists>p resp1 invs s1. up p (req\<lparr>childId := pf_childId pf\<rparr>) ptr s = Inr (resp1, invs, s1) \<and> cycle req \<le> resp1 \<and> resp1 \<le> resp \<and>
       one_prefetch ooo up (req\<lparr>childId := pf_childId pf\<rparr>) s1 s') \<and>
    (req_type req = GETS \<longrightarrow> (\<forall>i. find_entry (page_of (lineAddr req)) (pf_tag pf) = Some i \<longrightarrow> calm_page up (page_of (lineAddr req)) \<longrightarrow>
       pf_tag pf' = pf_tag pf \<and> entry_steps (pos_of (lineAddr req)) (cycle req) (counts_at i pf) (counts_at i pf'))) \<and>
    (req_type req = GETS \<longrightarrow> find_entry (page_of (lineAddr req)) (pf_tag pf) = None \<longrightarrow>
       (\<exists>as pf0. pf0 = fold invalidateLine as (note_page (page_of (lineAddr req)) pf) \<and>
          pf' = page_miss (page_of (lineAddr req)) (pos_of (lineAddr req)) (cycle req) pf0)))"
proof -
  let ?req = "req\<lparr>childId := pf_childId pf\<rparr>" and ?page = "page_of (lineAddr req)"
  define pf1 where "pf1 = (if req_type req \<noteq> GETS then pf else note_page ?page pf)"
  have f1: "pf_ok T pf1" "pf_parents pf1 = np" "pf_childId pf1 = pf_childId pf" "pf_tag pf1 = pf_tag pf" "pf_array pf1 = pf_array pf"
    "ps_hits (pf_stats pf1) = ps_hits (pf_stats pf)" "ps_prefetches (pf_stats pf1) = ps_prefetches (pf_stats pf)"
    using pf by (simp_all add: pf1_def note_page_ok)
  have "pf_parents pf1 \<noteq> 0" using f1(1) by (simp add: pf_ok_def)
  from selectParent_less [OF this, of "lineAddr req"] obtain p where p: "selectParent (lineAddr req) pf1 = Inr p" "p < np"
    by (auto simp: succeeds_iff f1(2))
  from demand_ok [OF p(2) s] obtain resp invs s1 where u: "up p ?req ptr s = Inr (resp, invs, s1)" "cycle req \<le> resp" "sinv s1"
    by (auto simp: succeeds_iff)
  define pf2 where "pf2 = fold invalidateLine invs pf1"
  have f2: "pf_ok T pf2" "pf_parents pf2 = np" "pf_childId pf2 = pf_childId pf" "pf_tag pf2 = pf_tag pf"
    using f1 by (simp_all add: pf2_def invalidates_ok)
  show ?thesis
  proof (cases "req_type req = GETS")
    case False
    then have pf1: "pf1 = pf" by (simp add: pf1_def)
    have run: "pf_access ooo up req ptr s pf = Inr (resp, pf2, s1)"
      using False p(1) u(1) by (simp add: pf_access_def Let_def pf1 pf2_def)
    show ?thesis unfolding run using u f2 False by (auto simp: one_prefetch_def)
  next
    case True
    then have pf1: "pf1 = note_page ?page pf" by (simp add: pf1_def)
    show ?thesis
    proof (cases "find_entry ?page (pf_tag pf)")
      case None
      have run: "pf_access ooo up req ptr s pf = Inr (resp, page_miss ?page (pos_of (lineAddr req)) (cycle req) pf2, s1)"
        using True p(1) u(1) None by (simp add: pf_access_def Let_def pf1 pf2_def)
      have "find_entry ?page (pf_tag pf2) = None" using None by (simp add: f2)
      from page_miss_ok [OF f2(1) this] have "pf_ok T (page_miss ?page (pos_of (lineAddr req)) (cycle req) pf2)" .
      moreover have "pf_parents (page_miss ?page x c pf2) = np" "pf_childId (page_miss ?page x c pf2) = pf_childId pf" for x c
        using f2 by (simp_all add: page_miss_def split: option.splits)
      ultimately show ?thesis unfolding run using u None by (auto simp: one_prefetch_def pf2_def pf1)
    next
      case (Some i)
      from find_entry_Some [OF Some] have i: "i < 16" "pf_tag pf ! i = ?page" by simp_all
      have run: "pf_access ooo up req ptr s pf = page_hit ooo up ?req i resp s1 pf2"
        using True p(1) u(1) Some by (simp add: pf_access_def Let_def pf1 pf2_def)
      have t: "pf_tag pf2 ! i \<notin> T" using i(2) pf(3) f2(4) by simp
      have "counts_at i pf2 = counts_at i pf" if "calm_page up ?page"
      proof -
        have "pf_tag pf1 ! i \<notin> page_of ` set invs" using that u(1) unfolding calm_page_def f1(4) i(2) by blast
        from invalidates_other [OF this] show ?thesis by (simp add: counts_at_def pf2_def f1)
      qed
      moreover have "req_type ?req = GETS" using True by simp
      note page_hit_ok [OF f2(1,2) i(1) t p(2) s u(1,3) this]
      ultimately show ?thesis
        unfolding run using u Some True i(2) f2(3,4) by (elim succeeds_mono) fastforce
    qed
  qed
qed

end

section \<open>Streams\<close>

lemma predict_frame:
  assumes "predict pos e st = Inr (target, e', st')"
  shows "ps_hits st' = ps_hits st" "ps_prefetches st' = ps_prefetches st" "pe_lastPos e' = pe_lastPos e" "pe_valid e' = pe_valid e"
    "target = Some q \<Longrightarrow> q < 64 \<and> \<not> pe_valid e ! unat q" "entry_ok e \<Longrightarrow> entry_ok e'"
  using assms by (auto simp: predict_def Let_def require_eq_Inr_iff split: if_splits)

lemma entry_stepsE:
  assumes "entry_steps pos c (h, n, e) (h', n', e')"
  obtains r e1 st1 target e2 st2 where "predict pos e1 st1 = Inr (target, e2, st2)"
    "e' = entry_move pos (case target of None \<Rightarrow> e2 | Some q \<Rightarrow> entry_fill q c r e2)"
    "h' = h + (if pe_valid e ! unat pos then 1 else 0)" "n' = n + (if target = None then 0 else 1)"
    "pe_stride e1 = pe_stride e" "pe_conf e1 = pe_conf e" "pe_lastPos e1 = pe_lastPos e" "pe_lastLastPos e1 = pe_lastLastPos e"
    "pe_lastPrefetchPos e1 = pe_lastPrefetchPos e" "entry_ok e \<Longrightarrow> entry_ok e'"
    "\<And>j. pe_valid e1 ! j \<Longrightarrow> pe_valid e ! j" "entry_ok e \<Longrightarrow> unat pos < 64 \<Longrightarrow> \<not> pe_valid e1 ! unat pos"
    "entry_ok e \<Longrightarrow> length (pe_valid e1) = 64"
proof -
  from assms obtain t resp r st resp1 short e1 st1 target e2 st2 where
    x: "demand_hit pos c resp (e\<lparr>pe_ts := t\<rparr>) st = (resp1, short, e1, st1)" "predict pos e1 st1 = Inr (target, e2, st2)"
      "e' = entry_move pos (case target of None \<Rightarrow> e2 | Some q \<Rightarrow> entry_fill q c r e2)"
      "ps_hits st = h" "ps_hits st2 = h'" "n' = n + (case target of None \<Rightarrow> 0 | Some q \<Rightarrow> 1)"
    by (auto simp: entry_steps_def)
  note f = demand_hit_frame [OF x(1)]
  have ok: "entry_ok e1" if "entry_ok e" using f(2) that by simp
  have v: "pe_valid e1 = (pe_valid e)[unat pos := False]" using f(8) by simp
  show ?thesis
  proof (rule that [OF x(2,3)])
    show "h' = h + (if pe_valid e ! unat pos then 1 else 0)" "n' = n + (if target = None then 0 else 1)"
      using f(10) x(4-6) predict_frame(1) [OF x(2)] by (auto split: option.splits)
    show "pe_stride e1 = pe_stride e" "pe_conf e1 = pe_conf e" "pe_lastPos e1 = pe_lastPos e" "pe_lastLastPos e1 = pe_lastLastPos e"
      "pe_lastPrefetchPos e1 = pe_lastPrefetchPos e" using f by simp_all
    show "entry_ok e'" if "entry_ok e" using predict_frame(6) [OF x(2) ok [OF that]] by (simp add: x(3) split: option.splits)
    show "pe_valid e ! j" if "pe_valid e1 ! j" for j using that by (auto simp: v nth_upd split: if_splits)
    show "\<not> pe_valid e1 ! unat pos" if "entry_ok e" "unat pos < 64" using that by (simp add: v entry_ok_def)
    show "length (pe_valid e1) = 64" if "entry_ok e" using ok [OF that] by (simp add: entry_ok_def)
  qed
qed

lemma upd_simps [simp]:
  "pe_stride (entry_move pos e) = pe_stride e" "pe_conf (entry_move pos e) = pe_conf e" "pe_lastPos (entry_move pos e) = pos"
  "pe_lastLastPos (entry_move pos e) = pe_lastPos e" "pe_lastPrefetchPos (entry_move pos e) = pe_lastPrefetchPos e"
  "pe_valid (entry_move pos e) = pe_valid e" "pe_conf (entry_fill q c r e) = pe_conf e" "pe_lastPos (entry_fill q c r e) = pe_lastPos e"
  "pe_lastLastPos (entry_fill q c r e) = pe_lastLastPos e" "pe_lastPrefetchPos (entry_fill q c r e) = q"
  "pe_valid (entry_fill q c r e) = (pe_valid e)[unat q := True]"
  by (simp_all add: entry_move_def entry_fill_def)

text \<open>
  The states of the entry of a page during a stream with the step \<open>d\<close>, after the access to \<open>q\<close>: a new
  entry, one that has seen a step, one that has taken over the stride, and one that prefetches.
\<close>

definition none_valid :: "PfEntry \<Rightarrow> bool" where
  "none_valid e \<longleftrightarrow> (\<forall>j<64. \<not> pe_valid e ! j)"

definition fresh_at :: "u32 \<Rightarrow> PfEntry \<Rightarrow> bool" where
  "fresh_at q e \<longleftrightarrow> pe_stride e = 1 \<and> pe_conf e = 1 \<and> pe_lastPos e = q \<and> pe_lastLastPos e = 0 \<and> pe_lastPrefetchPos e = 0 \<and> none_valid e"

definition seen_at :: "u32 \<Rightarrow> u32 \<Rightarrow> PfEntry \<Rightarrow> bool" where
  "seen_at d q e \<longleftrightarrow> d \<noteq> 1 \<and> pe_stride e = 1 \<and> pe_conf e = 0 \<and> pe_lastPos e = q \<and> q - pe_lastLastPos e = d \<and> none_valid e"

definition ready_at :: "u32 \<Rightarrow> u32 \<Rightarrow> PfEntry \<Rightarrow> bool" where
  "ready_at d q e \<longleftrightarrow> pe_stride e = d \<and> pe_conf e = 1 \<and> pe_lastPos e = q \<and> pe_lastPrefetchPos e = q \<and> none_valid e"

definition ahead_at :: "u32 \<Rightarrow> u32 \<Rightarrow> PfEntry \<Rightarrow> bool" where
  "ahead_at d q e \<longleftrightarrow> pe_stride e = d \<and> pe_conf e \<ge> 2 \<and> pe_lastPos e = q \<and>
     (q + d < 64 \<longrightarrow> pe_lastPrefetchPos e = q + d \<and> pe_valid e ! unat (q + d) \<and> (\<forall>j<64. pe_valid e ! j \<longrightarrow> j = unat (q + d)))"

definition covered :: "u32 \<Rightarrow> u32 \<Rightarrow> nat \<Rightarrow> nat \<times> nat \<times> PfEntry \<Rightarrow> bool" where
  "covered d q k = (\<lambda>(h, n, e). entry_ok e \<and>
     (fresh_at q e \<and> k \<le> h + 1 \<or> seen_at d q e \<and> k \<le> h + 2 \<or> ready_at d q e \<and> k \<le> h + 3 \<or> ahead_at d q e \<and> k \<le> h + 4))"

lemma word_div_self: "d \<noteq> 0 \<Longrightarrow> d div d = (1 :: u32)"
  by (simp add: word_unat_eq_iff unat_div)

lemma sint_minus_small: "q < 64 \<Longrightarrow> sint (- q :: u32) < 1"
proof -
  assume "q < 64"
  then obtain u where u: "uint q = u" "0 \<le> u" "u < 64" by (simp add: word_less_def)
  have m: "word_of_int (- uint q) = - q" by simp
  have "sint (word_of_int k :: u32) = signed_take_bit 31 k" for k by (simp add: signed_of_int)
  from this [of "- uint q"] have "sint (- q) = signed_take_bit 31 (- u)" by (simp only: m) (simp only: u(1))
  also have "\<dots> = - u" using u(2,3) by (intro signed_take_bit_int_eq_self) simp_all
  finally show ?thesis using u(2) by simp
qed

lemma unat_less_64: "q < (64 :: u32) \<Longrightarrow> unat q < 64"
  by (simp add: word_less_nat_alt)

text \<open>A position that the predictor finds, in an entry without prefetched lines ahead.\<close>

lemma fills_ahead:
  assumes "predict pos e1 st1 = Inr (target, e2, st2)" "e' = entry_move pos (case target of None \<Rightarrow> e2 | Some q \<Rightarrow> entry_fill q c r e2)"
    and "\<And>j. j < 64 \<Longrightarrow> \<not> pe_valid e1 ! j" "length (pe_valid e1) = 64" "pe_stride e1 = d" "pos - pe_lastPos e1 = d" "d \<noteq> 0"
    and "1 \<le> pe_conf e1" "sint ((pe_lastPrefetchPos e1 - pe_lastPos e1) div d) < 1 \<or> pe_lastPrefetchPos e1 = pos"
  shows "ahead_at d pos e'"
proof -
  have c: "sat_pred (sat_inc (pe_conf e1))" "sat_inc (pe_conf e1) \<ge> 2" using assms(8) by (simp_all add: sat_pred_def sat_inc_def)
  have t: "target = (if pos + d < 64 then Some (pos + d) else None)" "e2 = e1\<lparr>pe_conf := sat_inc (pe_conf e1)\<rparr>"
    using assms(1,3,5-7,9) c by (auto simp: predict_def Let_def add.commute unat_less_64 split: if_splits)
  show ?thesis
  proof (cases "pos + d < 64")
    case True
    then show ?thesis using assms(2-5) c unat_less_64 [OF True] by (auto simp: ahead_at_def t nth_list_update)
  next
    case False
    then show ?thesis using assms(2,5) c by (simp add: ahead_at_def t)
  qed
qed

lemma step_fresh:
  assumes e: "entry_ok e" "fresh_at q e" and st: "entry_steps (q + d) c (h, n, e) (h', n', e')" and q: "q < 64" "q + d < 64" "d \<noteq> 0"
  shows "entry_ok e' \<and> h' = h \<and> (seen_at d (q + d) e' \<or> ready_at d (q + d) e' \<or> ahead_at d (q + d) e')"
  using st
proof (rule entry_stepsE)
  fix r e1 st1 target e2 st2
  assume x: "predict (q + d) e1 st1 = Inr (target, e2, st2)"
    "e' = entry_move (q + d) (case target of None \<Rightarrow> e2 | Some q \<Rightarrow> entry_fill q c r e2)"
    "h' = h + (if pe_valid e ! unat (q + d) then 1 else 0)"
    "pe_stride e1 = pe_stride e" "pe_conf e1 = pe_conf e" "pe_lastPos e1 = pe_lastPos e" "pe_lastLastPos e1 = pe_lastLastPos e"
    "pe_lastPrefetchPos e1 = pe_lastPrefetchPos e" "entry_ok e \<Longrightarrow> entry_ok e'" "\<And>j. pe_valid e1 ! j \<Longrightarrow> pe_valid e ! j"
    "entry_ok e \<Longrightarrow> length (pe_valid e1) = 64"
  note f = e(2) [unfolded fresh_at_def none_valid_def]
  have nv: "\<not> pe_valid e1 ! j" if "j < 64" for j using x(10) f that by blast
  have h: "h' = h" using f unat_less_64 [OF q(2)] x(3) by simp
  show ?thesis
  proof (cases "d = 1")
    case True
    have "ahead_at d (q + d) e'"
      by (rule fills_ahead [OF x(1,2) nv x(11) [OF e(1)]])
        (use f sint_minus_small [OF q(1)] q(3) in \<open>simp_all add: x True word_div_no\<close>)
    then show ?thesis using h x(9) e(1) by simp
  next
    case False
    have t: "target = None" "pe_valid e2 = pe_valid e1" "pe_lastPos e2 = q"
      "(pe_stride e2 = d \<and> pe_conf e2 = 1 \<or> pe_stride e2 = 1 \<and> pe_conf e2 = 0) \<and> pe_lastPrefetchPos e2 = q + d"
      using x(1) f False q(3) by (auto simp: predict_def Let_def x(4-8) sat_dec_def sat_pred_def sat_reset_def split: if_splits)
    then show ?thesis using h x(9) e(1) nv False
      by (auto simp: x(2) seen_at_def ready_at_def none_valid_def)
  qed
qed

lemma step_seen:
  assumes e: "entry_ok e" "seen_at d q e" and st: "entry_steps (q + d) c (h, n, e) (h', n', e')" and q: "q < 64" "q + d < 64" "d \<noteq> 0"
  shows "entry_ok e' \<and> h' = h \<and> ready_at d (q + d) e'"
  using st
proof (rule entry_stepsE)
  fix r e1 st1 target e2 st2
  assume x: "predict (q + d) e1 st1 = Inr (target, e2, st2)"
    "e' = entry_move (q + d) (case target of None \<Rightarrow> e2 | Some q \<Rightarrow> entry_fill q c r e2)"
    "h' = h + (if pe_valid e ! unat (q + d) then 1 else 0)"
    "pe_stride e1 = pe_stride e" "pe_conf e1 = pe_conf e" "pe_lastPos e1 = pe_lastPos e" "pe_lastLastPos e1 = pe_lastLastPos e"
    "entry_ok e \<Longrightarrow> entry_ok e'" "\<And>j. pe_valid e1 ! j \<Longrightarrow> pe_valid e ! j"
  note f = e(2) [unfolded seen_at_def none_valid_def]
  have h: "h' = h" using f unat_less_64 [OF q(2)] x(3) by simp
  have t: "target = None" "pe_valid e2 = pe_valid e1" "pe_stride e2 = d" "pe_conf e2 = 1" "pe_lastPrefetchPos e2 = q + d"
    using x(1) f q(3) by (auto simp: predict_def Let_def x(4-7) sat_dec_def sat_pred_def sat_reset_def split: if_splits)
  then show ?thesis using h x(8,9) e(1) f by (auto simp: x(2) ready_at_def none_valid_def)
qed

lemma step_ready:
  assumes e: "entry_ok e" "ready_at d q e" and st: "entry_steps (q + d) c (h, n, e) (h', n', e')" and q: "q < 64" "q + d < 64" "d \<noteq> 0"
  shows "entry_ok e' \<and> h' = h \<and> ahead_at d (q + d) e'"
  using st
proof (rule entry_stepsE)
  fix r e1 st1 target e2 st2
  assume x: "predict (q + d) e1 st1 = Inr (target, e2, st2)"
    "e' = entry_move (q + d) (case target of None \<Rightarrow> e2 | Some q \<Rightarrow> entry_fill q c r e2)"
    "h' = h + (if pe_valid e ! unat (q + d) then 1 else 0)"
    "pe_stride e1 = pe_stride e" "pe_conf e1 = pe_conf e" "pe_lastPos e1 = pe_lastPos e" "pe_lastPrefetchPos e1 = pe_lastPrefetchPos e"
    "entry_ok e \<Longrightarrow> entry_ok e'" "\<And>j. pe_valid e1 ! j \<Longrightarrow> pe_valid e ! j" "entry_ok e \<Longrightarrow> length (pe_valid e1) = 64"
  note f = e(2) [unfolded ready_at_def none_valid_def]
  have nv: "\<not> pe_valid e1 ! j" if "j < 64" for j using x(9) f that by blast
  have h: "h' = h" using f unat_less_64 [OF q(2)] x(3) by simp
  have "ahead_at d (q + d) e'"
    by (rule fills_ahead [OF x(1,2) nv x(10) [OF e(1)]]) (use f q(3) in \<open>simp_all add: x\<close>)
  then show ?thesis using h x(8) e(1) by simp
qed

lemma step_ahead:
  assumes e: "entry_ok e" "ahead_at d q e" and st: "entry_steps (q + d) c (h, n, e) (h', n', e')" and q: "q < 64" "q + d < 64" "d \<noteq> 0"
  shows "entry_ok e' \<and> h' = h + 1 \<and> ahead_at d (q + d) e'"
  using st
proof (rule entry_stepsE)
  fix r e1 st1 target e2 st2
  assume x: "predict (q + d) e1 st1 = Inr (target, e2, st2)"
    "e' = entry_move (q + d) (case target of None \<Rightarrow> e2 | Some q \<Rightarrow> entry_fill q c r e2)"
    "h' = h + (if pe_valid e ! unat (q + d) then 1 else 0)"
    "pe_stride e1 = pe_stride e" "pe_conf e1 = pe_conf e" "pe_lastPos e1 = pe_lastPos e" "pe_lastPrefetchPos e1 = pe_lastPrefetchPos e"
    "entry_ok e \<Longrightarrow> entry_ok e'" "\<And>j. pe_valid e1 ! j \<Longrightarrow> pe_valid e ! j"
    "entry_ok e \<Longrightarrow> unat (q + d) < 64 \<Longrightarrow> \<not> pe_valid e1 ! unat (q + d)" "entry_ok e \<Longrightarrow> length (pe_valid e1) = 64"
  note f = e(2) [unfolded ahead_at_def]
  have nv: "\<not> pe_valid e1 ! j" if "j < 64" for j
    using x(9) x(10) [OF e(1) unat_less_64 [OF q(2)]] f that q(2) by blast
  have h: "h' = h + 1" using f q(2) x(3) by simp
  have "ahead_at d (q + d) e'"
    by (rule fills_ahead [OF x(1,2) nv x(11) [OF e(1)]]) (use f q in \<open>simp_all add: x\<close>)
  then show ?thesis using h x(8) e(1) by simp
qed

lemma step_covered:
  assumes "covered d q k (h, n, e)" "entry_steps (q + d) c (h, n, e) (h', n', e')" "q < 64" "q + d < 64" "d \<noteq> 0"
  shows "covered d (q + d) (Suc k) (h', n', e')"
  using assms step_fresh [of e q d c h n h' n' e'] step_seen [of e d q c h n h' n' e'] step_ready [of e d q c h n h' n' e']
    step_ahead [of e d q c h n h' n' e']
  by (auto simp: covered_def)

text \<open>
  The accesses of a sequence, with the state of the rest of the system at each of them: between two
  accesses it may change in any way.
\<close>

primrec pf_seq ::
  "(nat \<Rightarrow> OOORecorder option) \<Rightarrow> ('a, 'm) banks \<Rightarrow> (MemReq \<times> StatePtr \<times> ('a, 'm) MemSys) list
     \<Rightarrow> StreamPrefetcher \<Rightarrow> StreamPrefetcher res" where
  "pf_seq ooo up [] pf = Inr pf"
| "pf_seq ooo up (x # xs) pf =
     bindR (case x of (req, ptr, s) \<Rightarrow> pf_access ooo up req ptr s pf) (\<lambda>(resp, pf', s'). pf_seq ooo up xs pf')"

text \<open>The requests of a stream in one page: the positions \<open>q\<close>, \<open>q + d\<close>, \<open>q + 2 d\<close> and so on, none of which leaves it.\<close>

definition in_page :: "addr \<Rightarrow> u32 \<Rightarrow> MemReq \<Rightarrow> bool" where
  "in_page page q req \<longleftrightarrow> req_type req = GETS \<and> page_of (lineAddr req) = page \<and> pos_of (lineAddr req) = q"

primrec stream :: "addr \<Rightarrow> u32 \<Rightarrow> u32 \<Rightarrow> MemReq list \<Rightarrow> bool" where
  "stream page d q [] \<longleftrightarrow> True"
| "stream page d q (req # reqs) \<longleftrightarrow> in_page page q req \<and> stream page d (q + d) reqs"

lemma in_page_less: "in_page page q req \<Longrightarrow> q < 64"
  using pos_less by (auto simp: in_page_def)

text \<open>An array whose memory was zero: the tags and all fields but the confidence.\<close>

definition zero_entry :: PfEntry where
  "zero_entry = \<lparr>pe_stride = 0, pe_conf = 0, pe_times = replicate 64 (0, 0), pe_valid = replicate 64 False, pe_lastPos = 0,
     pe_lastLastPos = 0, pe_lastPrefetchPos = 0, pe_lastCycle = 0, pe_ts = 0\<rparr>"

definition zeroed_prefetcher :: "nat \<Rightarrow> nat \<Rightarrow> StreamPrefetcher res" where
  "zeroed_prefetcher child n = setParents child n (new_StreamPrefetcher (replicate 16 0) (replicate 16 zero_entry))"

lemma zeroed_ok:
  assumes "zeroed_prefetcher child n = Inr pf"
  shows "pf_ok {0} pf" "pf_parents pf = n" "pf_childId pf = child" "pf_array pf = replicate 16 (zero_entry\<lparr>pe_conf := 1\<rparr>)"
    "pf_tag pf = replicate 16 0" "ps_hits (pf_stats pf) = 0" "ps_prefetches (pf_stats pf) = 0" "pf_timestamp pf = 0" "n \<noteq> 0"
proof -
  have c: "pf = (new_StreamPrefetcher (replicate 16 0) (replicate 16 zero_entry))\<lparr>pf_childId := child, pf_parents := n\<rparr>" "n \<noteq> 0"
    using assms by (auto simp: zeroed_prefetcher_def setParents_def require_eq_Inr_iff)
  show "pf_parents pf = n" "pf_childId pf = child" "pf_tag pf = replicate 16 0" "ps_hits (pf_stats pf) = 0"
    "ps_prefetches (pf_stats pf) = 0" "pf_timestamp pf = 0" "n \<noteq> 0"
    by (simp_all add: c new_StreamPrefetcher_def)
  show a: "pf_array pf = replicate 16 (zero_entry\<lparr>pe_conf := 1\<rparr>)"
    by (simp only: c(1)) (simp add: new_StreamPrefetcher_def sat_reset_def)
  show "pf_ok {0} pf"
    using c(2) unfolding pf_ok_def a
    by (simp add: c(1) new_StreamPrefetcher_def zero_entry_def entry_ok_def)
qed

lemma victim_zero:
  assumes "\<forall>i<16. pe_lastCycle (es ! i) = 0 \<and> pe_ts (es ! i) = 0"
  shows "victim_entry c es \<noteq> None"
proof -
  let ?F = "\<lambda>i (cand, score).
            if pe_lastCycle (es ! i) > c + 500 then (cand, score)
            else if pe_ts (es ! i) < score then (Some i, pe_ts (es ! i)) else (cand, score)"
  have some: "fst (fold ?F xs (Some j, m)) \<noteq> None" for xs :: "nat list" and j m
    by (induction xs arbitrary: j m) simp_all
  have "fst (fold ?F xs (None, m)) \<noteq> None" if "xs \<noteq> []" "\<forall>i\<in>set xs. pe_lastCycle (es ! i) = 0 \<and> pe_ts (es ! i) = 0" "0 < m" for xs m
    using that some by (cases xs) auto
  from this [of slots] show ?thesis unfolding victim_entry_def
    using assms sixteen by (simp add: slots_def)
qed

lemma invalidate_idle:
  "pe_lastCycle (pf_array (fold invalidateLine as pf) ! i) = pe_lastCycle (pf_array pf ! i) \<and>
   pe_ts (pf_array (fold invalidateLine as pf) ! i) = pe_ts (pf_array pf ! i)"
proof (induction as arbitrary: pf)
  case (Cons a as)
  have "pe_lastCycle (pf_array (invalidateLine a pf) ! i) = pe_lastCycle (pf_array pf ! i) \<and>
      pe_ts (pf_array (invalidateLine a pf) ! i) = pe_ts (pf_array pf ! i)"
    by (auto simp: invalidateLine_def nth_upd split: option.splits)
  then show ?case using Cons.IH [of "invalidateLine a pf"] by simp
qed simp

text \<open>The first access to a page finds a free entry in a prefetcher that has not been used.\<close>

lemma page_miss_fresh:
  assumes ok: "pf_ok {0} pf" "pf_tag pf = replicate 16 0" "page \<noteq> 0" and h: "ps_hits (pf_stats pf) = 0"
    and idle: "\<forall>i<16. pe_lastCycle (pf_array pf ! i) = 0 \<and> pe_ts (pf_array pf ! i) = 0"
  shows "\<exists>i e. find_entry page (pf_tag (page_miss page q c pf)) = Some i \<and> entry_ok e \<and> fresh_at q e \<and>
    counts_at i (page_miss page q c pf) = (0, ps_prefetches (pf_stats pf), e)"
proof -
  from victim_zero [OF idle, of c] obtain i where i: "victim_entry c (pf_array pf) = Some i" by auto
  have i16: "i < 16" by (rule victim_less [OF i])
  note l = pf_okD(2,3) [OF ok(1)]
  let ?pf = "page_miss page q c pf"
  have "find_entry page (pf_tag ?pf) = Some i"
    by (rule find_entry_unique [OF i16]) (use i16 l ok(2,3) in \<open>auto simp: page_miss_def i nth_list_update split: if_splits\<close>)
  moreover have "length (pe_times (pf_array pf ! i)) = 64" using pf_okD(4) [OF ok(1) i16] by (simp add: entry_ok_def)
  then have "\<exists>e. entry_ok e \<and> fresh_at q e \<and> counts_at i ?pf = (0, ps_prefetches (pf_stats pf), e)"
    using i16 l h by (simp add: page_miss_def i counts_at_def fresh_at_def entry_alloc_def entry_ok_def none_valid_def sat_reset_def)
  ultimately show ?thesis by blast
qed

text \<open>A prefetcher that has an entry for a page.\<close>

definition holds_page :: "nat \<Rightarrow> nat \<Rightarrow> addr \<Rightarrow> nat \<Rightarrow> StreamPrefetcher \<Rightarrow> bool" where
  "holds_page child np page i pf \<longleftrightarrow> pf_ok {0} pf \<and> pf_parents pf = np \<and> pf_childId pf = child \<and> find_entry page (pf_tag pf) = Some i"

context prefetch_parent
begin

abbreviation asked :: "nat \<Rightarrow> MemReq \<times> StatePtr \<times> ('a, 'm) MemSys \<Rightarrow> bool" where
  "asked child \<equiv> \<lambda>(req, ptr, s). sinv s \<and> demand (req\<lparr>childId := child\<rparr>) ptr s"

lemma access_page:
  assumes "calm_page up page" "page \<noteq> 0" "holds_page child np page i pf" "in_page page q (fst x)" "asked child x"
  shows "\<exists>pf'. holds_page child np page i pf' \<and> entry_steps q (cycle (fst x)) (counts_at i pf) (counts_at i pf') \<and>
    (\<forall>xs. pf_seq ooo up (x # xs) pf = pf_seq ooo up xs pf')"
proof -
  obtain req ptr s where x: "x = (req, ptr, s)" by (metis prod_cases3)
  have pf: "pf_ok {0} pf" "pf_parents pf = np" "pf_childId pf = child" "find_entry page (pf_tag pf) = Some i"
    using assms(3) by (simp_all add: holds_page_def)
  have pg: "page_of (lineAddr req) = page" "pos_of (lineAddr req) = q" "req_type req = GETS" using assms(4) by (simp_all add: in_page_def x)
  have "page_of (lineAddr req) \<notin> {0}" "sinv s" "demand (req\<lparr>childId := pf_childId pf\<rparr>) ptr s" using assms(2,5) by (simp_all add: pg x pf)
  from access_ok [OF pf(1,2) this] obtain resp pf' s' where
    "pf_access ooo up req ptr s pf = Inr (resp, pf', s')" "pf_ok {0} pf'" "pf_parents pf' = np" "pf_childId pf' = child"
      "pf_tag pf' = pf_tag pf" "entry_steps q (cycle req) (counts_at i pf) (counts_at i pf')"
    using pf(3,4) assms(1) by (fastforce simp: succeeds_iff pg)
  then show ?thesis using pf(4) by (auto simp: x holds_page_def)
qed

lemma first_access:
  assumes "page \<noteq> 0" "zeroed_prefetcher child np = Inr pf" "in_page page q (fst x)" "asked child x"
  shows "\<exists>pf' i e. holds_page child np page i pf' \<and> entry_ok e \<and> fresh_at q e \<and> counts_at i pf' = (0, 0, e) \<and>
    (\<forall>xs. pf_seq ooo up (x # xs) pf = pf_seq ooo up xs pf')"
proof -
  note z = zeroed_ok [OF assms(2)]
  obtain req ptr s where x: "x = (req, ptr, s)" by (metis prod_cases3)
  have pg: "page_of (lineAddr req) = page" "pos_of (lineAddr req) = q" "req_type req = GETS" using assms(3) by (simp_all add: in_page_def x)
  have en: "sinv s" "demand (req\<lparr>childId := pf_childId pf\<rparr>) ptr s" using assms(4) by (simp_all add: x z(3))
  have none: "find_entry (page_of (lineAddr req)) (pf_tag pf) = None" using assms(1) by (simp add: find_entry_None z(5) pg)
  have "page_of (lineAddr req) \<notin> {0}" using assms(1) by (simp add: pg)
  from access_ok [OF z(1,2) this en] none obtain resp pf' s' as where
    a: "pf_access ooo up req ptr s pf = Inr (resp, pf', s')" "pf_ok {0} pf'" "pf_parents pf' = np" "pf_childId pf' = child"
      "pf' = page_miss page q (cycle req) (fold invalidateLine as (note_page page pf))"
    by (auto simp: succeeds_iff pg z(3))
  let ?pf0 = "fold invalidateLine as (note_page page pf)"
  have p0: "ps_prefetches (pf_stats ?pf0) = 0" using z(7) by simp
  have "\<exists>i e. find_entry page (pf_tag pf') = Some i \<and> entry_ok e \<and> fresh_at q e \<and> counts_at i pf' = (0, ps_prefetches (pf_stats ?pf0), e)"
    unfolding a(5)
    by (rule page_miss_fresh) (use z assms(1) invalidates_ok note_page_ok invalidate_idle in \<open>simp_all add: zero_entry_def\<close>)
  then obtain i e where "find_entry page (pf_tag pf') = Some i" "entry_ok e" "fresh_at q e" "counts_at i pf' = (0, 0, e)"
    unfolding p0 by blast
  moreover have "pf_seq ooo up (x # xs) pf = pf_seq ooo up xs pf'" for xs using a(1) by (simp add: x)
  ultimately show ?thesis using a(2-4) unfolding holds_page_def by blast
qed

lemma stream_seq:
  assumes "calm_page up page" "page \<noteq> 0" "d \<noteq> 0"
    and "holds_page child np page i pf" "covered d q k (counts_at i pf)" "q < 64" "stream page d (q + d) (map fst xs)"
    and "\<forall>x\<in>set xs. asked child x"
  shows "succeeds (pf_seq ooo up xs pf) (\<lambda>pf'. k + length xs \<le> ps_hits (pf_stats pf') + 4)"
  using assms(4-)
proof (induction xs arbitrary: pf q k)
  case Nil
  then show ?case by (auto simp: covered_def counts_at_def)
next
  case (Cons x xs)
  from Cons.prems(4) have str: "in_page page (q + d) (fst x)" "stream page d (q + d + d) (map fst xs)" by simp_all
  have q: "q + d < 64" by (rule in_page_less [OF str(1)])
  have "asked child x" using Cons.prems(5) by simp
  from access_page [OF assms(1,2) Cons.prems(1) str(1) this] obtain pf' where
    a: "holds_page child np page i pf'" "entry_steps (q + d) (cycle (fst x)) (counts_at i pf) (counts_at i pf')"
      "pf_seq ooo up (x # xs) pf = pf_seq ooo up xs pf'" by blast
  obtain h n e h' n' e' where c: "counts_at i pf = (h, n, e)" "counts_at i pf' = (h', n', e')" by (metis prod_cases3)
  have cov: "covered d (q + d) (Suc k) (counts_at i pf')"
    unfolding c by (rule step_covered [OF Cons.prems(2) [unfolded c] a(2) [unfolded c] Cons.prems(3) q assms(3)])
  have "succeeds (pf_seq ooo up xs pf') (\<lambda>pf'. Suc k + length xs \<le> ps_hits (pf_stats pf') + 4)"
    by (rule Cons.IH [OF a(1) cov q str(2)]) (use Cons.prems(5) in auto)
  then show ?case unfolding a(3) by simp
qed

lemma zeroed_stream:
  assumes "calm_page up page" "page \<noteq> 0" "d \<noteq> 0" "zeroed_prefetcher child np = Inr pf" "stream page d q (map fst xs)"
    and "\<forall>x\<in>set xs. asked child x"
  shows "succeeds (pf_seq ooo up xs pf) (\<lambda>pf'. length xs \<le> ps_hits (pf_stats pf') + 4)"
proof (cases xs)
  case (Cons x ys)
  have str: "in_page page q (fst x)" "stream page d (q + d) (map fst ys)" and en: "asked child x" using assms(5,6) by (simp_all add: Cons)
  from first_access [OF assms(2,4) str(1) en] obtain pf' i e where
    f: "holds_page child np page i pf'" "entry_ok e" "fresh_at q e" "counts_at i pf' = (0, 0, e)"
      "pf_seq ooo up (x # ys) pf = pf_seq ooo up ys pf'" by blast
  have "covered d q 1 (counts_at i pf')" using f(2-4) by (simp add: covered_def)
  from stream_seq [OF assms(1-3) f(1) this in_page_less [OF str(1)] str(2)] assms(6) show ?thesis
    unfolding Cons f(5) by simp
qed simp

end

section \<open>A stream that falls behind\<close>

text \<open>
  The quotient for the depth is that of unsigned words. When the last prefetch is behind the
  stream, the difference wraps around, and for a step of at least two the depth comes out large and positive:
  the predictor goes on behind the stream.
\<close>

definition pausing_at :: "u32 \<Rightarrow> u32 \<Rightarrow> PfEntry \<Rightarrow> bool" where
  "pausing_at d q e \<longleftrightarrow> pe_stride e = d \<and> pe_conf e = 0 \<and> pe_lastPos e = q \<and> pe_lastPrefetchPos e = q \<and> none_valid e"

definition behind_at :: "u32 \<Rightarrow> u32 \<Rightarrow> PfEntry \<Rightarrow> bool" where
  "behind_at d q e \<longleftrightarrow> pe_stride e = d \<and> pe_conf e \<ge> 1 \<and> pe_lastPos e = q \<and> pe_lastPrefetchPos e = q - d \<and>
     (\<forall>j<64. pe_valid e ! j \<longrightarrow> j < unat q)"

lemma wrapped_depth:
  assumes "2 \<le> unat d" "unat d < 64"
  shows "\<not> sint ((- d) div d :: u32) < 1"
proof -
  have d: "d \<noteq> 0" using assms(1) by auto
  have u: "unat (- d) = 2 ^ 32 - unat d"
  proof -
    define k where "k = unat d"
    have k: "unat d = k" "uint d = int k" "2 \<le> k" "k < 64" using assms by (simp_all add: k_def)
    have "uint (- d) = (- int k) mod 2 ^ 32" unfolding k(2) [symmetric] by (simp add: uint_word_ariths)
    also have "\<dots> = int (2 ^ 32 - k)" using k(3,4) by (simp add: zmod_zminus1_eq_if)
    finally show ?thesis unfolding unat_eq_nat_uint [of "- d"] k(1) by (simp only: nat_int)
  qed
  have v: "unat ((- d) div d) = (2 ^ 32 - unat d) div unat d" by (simp add: unat_div u)
  have b: "1 \<le> unat ((- d) div d)" "unat ((- d) div d) < 2 ^ 31"
  proof -
    have "unat d div unat d \<le> (2 ^ 32 - unat d) div unat d" using assms by (intro div_le_mono) simp
    then show "1 \<le> unat ((- d) div d)" using assms(1) by (simp add: v)
    have "(2 ^ 32 - unat d) div unat d \<le> (2 ^ 32 - unat d) div 2" using assms(1) by (intro div_le_mono2) simp_all
    moreover have "(2 ^ 32 - unat d) div 2 < 2 ^ 31" using assms by simp
    ultimately show "unat ((- d) div d) < 2 ^ 31" by (simp add: v)
  qed
  define k where "k = unat ((- d) div d)"
  have k: "uint ((- d) div d) = int k" "1 \<le> k" "k < 2 ^ 31" using b by (simp_all only: k_def uint_nat)
  have "sint ((- d) div d) = signed_take_bit 31 (int k)" using k(1) by (simp add: sint_uint)
  also have "\<dots> = int k" using k(3) by (intro signed_take_bit_int_eq_self) simp_all
  finally show ?thesis using k(2) by simp
qed

lemma step_second:
  assumes e: "entry_ok e" "fresh_at d e" and st: "entry_steps (d + d) c (h, n, e) (h', n', e')" and q: "d + d < 64" "d \<noteq> 0" "d \<noteq> 1"
  shows "entry_ok e' \<and> h' = h \<and> n' = n \<and> ready_at d (d + d) e' \<and> pe_lastLastPos e' = d"
  using st
proof (rule entry_stepsE)
  fix r e1 st1 target e2 st2
  assume x: "predict (d + d) e1 st1 = Inr (target, e2, st2)"
    "e' = entry_move (d + d) (case target of None \<Rightarrow> e2 | Some q \<Rightarrow> entry_fill q c r e2)"
    "h' = h + (if pe_valid e ! unat (d + d) then 1 else 0)" "n' = n + (if target = None then 0 else 1)"
    "pe_stride e1 = pe_stride e" "pe_conf e1 = pe_conf e" "pe_lastPos e1 = pe_lastPos e" "pe_lastLastPos e1 = pe_lastLastPos e"
    "entry_ok e \<Longrightarrow> entry_ok e'" "\<And>j. pe_valid e1 ! j \<Longrightarrow> pe_valid e ! j"
  note f = e(2) [unfolded fresh_at_def none_valid_def]
  have h: "h' = h" using f unat_less_64 [OF q(1)] x(3) by simp
  have t: "target = None" "pe_valid e2 = pe_valid e1" "pe_stride e2 = d" "pe_conf e2 = 1" "pe_lastPrefetchPos e2 = d + d"
      "pe_lastPos e2 = d"
    using x(1) f q(2,3) by (auto simp: predict_def Let_def x(5-8) sat_dec_def sat_pred_def sat_reset_def split: if_splits)
  then show ?thesis using h x(4,9,10) e(1) f by (auto simp: x(2) ready_at_def none_valid_def)
qed

lemma step_pause:
  assumes e: "entry_ok e" "ready_at d q e" "pe_lastLastPos e = q - d" and st: "entry_steps (q + x) c (h, n, e) (h', n', e')"
    and q: "q + x < 64" "x \<noteq> d"
  shows "entry_ok e' \<and> h' = h \<and> n' = n \<and> pausing_at d (q + x) e'"
  using st
proof (rule entry_stepsE)
  fix r e1 st1 target e2 st2
  assume x: "predict (q + x) e1 st1 = Inr (target, e2, st2)"
    "e' = entry_move (q + x) (case target of None \<Rightarrow> e2 | Some q \<Rightarrow> entry_fill q c r e2)"
    "h' = h + (if pe_valid e ! unat (q + x) then 1 else 0)" "n' = n + (if target = None then 0 else 1)"
    "pe_stride e1 = pe_stride e" "pe_conf e1 = pe_conf e" "pe_lastPos e1 = pe_lastPos e" "pe_lastLastPos e1 = pe_lastLastPos e"
    "entry_ok e \<Longrightarrow> entry_ok e'" "\<And>j. pe_valid e1 ! j \<Longrightarrow> pe_valid e ! j"
  note f = e(2) [unfolded ready_at_def none_valid_def]
  have h: "h' = h" using f unat_less_64 [OF q(1)] x(3) by simp
  have t: "target = None" "pe_valid e2 = pe_valid e1" "pe_stride e2 = d" "pe_conf e2 = 0" "pe_lastPrefetchPos e2 = q + x"
    using x(1) f q(2) e(3) by (auto simp: predict_def Let_def x(5-8) sat_dec_def sat_pred_def sat_reset_def split: if_splits)
  then show ?thesis using h x(4,9,10) e(1) f by (auto simp: x(2) pausing_at_def none_valid_def)
qed

lemma step_resume:
  assumes e: "entry_ok e" "pausing_at d q e" and st: "entry_steps (q + d) c (h, n, e) (h', n', e')" and q: "q + d < 64"
  shows "entry_ok e' \<and> h' = h \<and> n' = n \<and> behind_at d (q + d) e'"
  using st
proof (rule entry_stepsE)
  fix r e1 st1 target e2 st2
  assume x: "predict (q + d) e1 st1 = Inr (target, e2, st2)"
    "e' = entry_move (q + d) (case target of None \<Rightarrow> e2 | Some q \<Rightarrow> entry_fill q c r e2)"
    "h' = h + (if pe_valid e ! unat (q + d) then 1 else 0)" "n' = n + (if target = None then 0 else 1)"
    "pe_stride e1 = pe_stride e" "pe_conf e1 = pe_conf e" "pe_lastPos e1 = pe_lastPos e"
    "pe_lastPrefetchPos e1 = pe_lastPrefetchPos e" "entry_ok e \<Longrightarrow> entry_ok e'" "\<And>j. pe_valid e1 ! j \<Longrightarrow> pe_valid e ! j"
  note f = e(2) [unfolded pausing_at_def none_valid_def]
  have h: "h' = h" using f unat_less_64 [OF q] x(3) by simp
  have t: "target = None" "pe_valid e2 = pe_valid e1" "pe_stride e2 = d" "pe_conf e2 = 1" "pe_lastPrefetchPos e2 = q"
    using x(1) f by (auto simp: predict_def Let_def x(5-8) sat_inc_def sat_pred_def split: if_splits)
  then show ?thesis using h x(4,9,10) e(1) f by (auto simp: x(2) behind_at_def)
qed

lemma step_behind:
  assumes e: "entry_ok e" "behind_at d q e" and st: "entry_steps (q + d) c (h, n, e) (h', n', e')"
    and q: "q < 64" "q + d < 64" "2 \<le> unat d" "unat d < 64"
  shows "entry_ok e' \<and> h' = h \<and> n' = Suc n \<and> behind_at d (q + d) e'"
  using st
proof (rule entry_stepsE)
  fix r e1 st1 target e2 st2
  assume x: "predict (q + d) e1 st1 = Inr (target, e2, st2)"
    "e' = entry_move (q + d) (case target of None \<Rightarrow> e2 | Some q \<Rightarrow> entry_fill q c r e2)"
    "h' = h + (if pe_valid e ! unat (q + d) then 1 else 0)" "n' = n + (if target = None then 0 else 1)"
    "pe_stride e1 = pe_stride e" "pe_conf e1 = pe_conf e" "pe_lastPos e1 = pe_lastPos e"
    "pe_lastPrefetchPos e1 = pe_lastPrefetchPos e" "entry_ok e \<Longrightarrow> entry_ok e'" "\<And>j. pe_valid e1 ! j \<Longrightarrow> pe_valid e ! j"
    "entry_ok e \<Longrightarrow> length (pe_valid e1) = 64"
  note f = e(2) [unfolded behind_at_def]
  have d: "d \<noteq> 0" using q(3) by auto
  have u: "unat (q + d) = unat q + unat d"
    using unat_less_64 [OF q(1)] q(4) by (intro unat_add_lem [THEN iffD1]) simp
  have h: "h' = h" using f unat_less_64 [OF q(2)] x(3) u by auto
  have v: "\<not> pe_valid e1 ! unat q" using f unat_less_64 [OF q(1)] x(10) by blast
  have c: "sat_pred (sat_inc (pe_conf e1))" "1 \<le> sat_inc (pe_conf e1)" using f x(6) by (simp_all add: sat_pred_def sat_inc_def)
  have t: "target = Some q" "e2 = e1\<lparr>pe_conf := sat_inc (pe_conf e1)\<rparr>"
    using x(1) f c v d q(1) wrapped_depth [OF q(3,4)] by (auto simp: predict_def Let_def x(5-8) split: if_splits)
  have "\<forall>j<64. (pe_valid e1)[unat q := True] ! j \<longrightarrow> j < unat (q + d)"
    using f x(10) q(3) by (auto simp: u nth_upd split: if_splits)
  then have "behind_at d (q + d) e'" using f c by (simp add: x(2) t behind_at_def x(5))
  then show ?thesis using h x(4,9) e(1) t(1) by simp
qed

context prefetch_parent
begin

lemma behind_seq:
  assumes "calm_page up page" "page \<noteq> 0" "2 \<le> unat d" "unat d < 64"
    and "holds_page child np page i pf" "counts_at i pf = (h, n, e)" "entry_ok e" "behind_at d q e" "q < 64"
    and "stream page d (q + d) (map fst xs)" "\<forall>x\<in>set xs. asked child x"
  shows "succeeds (pf_seq ooo up xs pf) (\<lambda>pf'. ps_hits (pf_stats pf') = h \<and> ps_prefetches (pf_stats pf') = n + length xs)"
  using assms(5-)
proof (induction xs arbitrary: pf q n e)
  case Nil
  then show ?case by (simp add: counts_at_def)
next
  case (Cons x xs)
  from Cons.prems(6) have str: "in_page page (q + d) (fst x)" "stream page d (q + d + d) (map fst xs)" by simp_all
  have q: "q + d < 64" by (rule in_page_less [OF str(1)])
  have "asked child x" using Cons.prems(7) by simp
  from access_page [OF assms(1,2) Cons.prems(1) str(1) this] obtain pf' where
    a: "holds_page child np page i pf'" "entry_steps (q + d) (cycle (fst x)) (counts_at i pf) (counts_at i pf')"
      "pf_seq ooo up (x # xs) pf = pf_seq ooo up xs pf'" by blast
  obtain h' n' e' where c: "counts_at i pf' = (h', n', e')" by (metis prod_cases3)
  from step_behind [OF Cons.prems(3,4) a(2) [unfolded c Cons.prems(2)] Cons.prems(5) q assms(3,4)]
  have s: "entry_ok e'" "h' = h" "n' = Suc n" "behind_at d (q + d) e'" by simp_all
  have "succeeds (pf_seq ooo up xs pf') (\<lambda>pf'. ps_hits (pf_stats pf') = h \<and> ps_prefetches (pf_stats pf') = Suc n + length xs)"
    by (rule Cons.IH [OF a(1) c [unfolded s(2,3)] s(1,4) q str(2)]) (use Cons.prems(7) in auto)
  then show ?case unfolding a(3) by simp
qed

text \<open>The positions \<open>d\<close>, \<open>2 d\<close>, \<open>2 d + j\<close>, and from there on a stream with the step \<open>d\<close>.\<close>

lemma zeroed_behind:
  assumes "calm_page up page" "page \<noteq> 0" "zeroed_prefetcher child np = Inr pf" "2 \<le> unat d" "unat d < 64" "j \<noteq> d"
    and "in_page page d (fst x1)" "in_page page (d + d) (fst x2)" "in_page page (d + d + j) (fst x3)" "in_page page (d + d + j + d) (fst x4)"
    and "stream page d (d + d + j + d + d) (map fst xs)" "\<forall>x\<in>set (x1 # x2 # x3 # x4 # xs). asked child x"
  shows "succeeds (pf_seq ooo up (x1 # x2 # x3 # x4 # xs) pf) (\<lambda>pf'. ps_hits (pf_stats pf') = 0 \<and> ps_prefetches (pf_stats pf') = length xs)"
proof -
  have d: "d \<noteq> 0" "d \<noteq> 1" using assms(4) by auto
  note q = assms(7-10) [THEN in_page_less]
  have en: "asked child x1" "asked child x2" "asked child x3" "asked child x4" using assms(12) by simp_all
  from first_access [OF assms(2,3,7) en(1)] obtain pf1 i e1 where
    f: "holds_page child np page i pf1" "entry_ok e1" "fresh_at d e1" "counts_at i pf1 = (0, 0, e1)"
      "\<And>xs. pf_seq ooo up (x1 # xs) pf = pf_seq ooo up xs pf1" by blast
  obtain pf2 where p2: "holds_page child np page i pf2" "entry_steps (d + d) (cycle (fst x2)) (counts_at i pf1) (counts_at i pf2)"
    "\<And>xs. pf_seq ooo up (x2 # xs) pf1 = pf_seq ooo up xs pf2" using access_page [OF assms(1,2) f(1) assms(8) en(2)] by blast
  obtain h2 n2 e2 where c2: "counts_at i pf2 = (h2, n2, e2)" by (metis prod_cases3)
  note s2 = step_second [OF f(2,3) p2(2) [unfolded c2 f(4)] q(2) d]
  obtain pf3 where p3: "holds_page child np page i pf3" "entry_steps (d + d + j) (cycle (fst x3)) (counts_at i pf2) (counts_at i pf3)"
    "\<And>xs. pf_seq ooo up (x3 # xs) pf2 = pf_seq ooo up xs pf3" using access_page [OF assms(1,2) p2(1) assms(9) en(3)] by blast
  obtain h3 n3 e3 where c3: "counts_at i pf3 = (h3, n3, e3)" by (metis prod_cases3)
  have "pe_lastLastPos e2 = d + d - d" using s2 by simp
  note s3 = step_pause [OF conjunct1 [OF s2] _ this p3(2) [unfolded c2 c3] q(3) assms(6)]
  obtain pf4 where p4: "holds_page child np page i pf4" "entry_steps (d + d + j + d) (cycle (fst x4)) (counts_at i pf3) (counts_at i pf4)"
    "\<And>xs. pf_seq ooo up (x4 # xs) pf3 = pf_seq ooo up xs pf4" using access_page [OF assms(1,2) p3(1) assms(10) en(4)] by blast
  obtain h4 n4 e4 where c4: "counts_at i pf4 = (h4, n4, e4)" by (metis prod_cases3)
  have s3': "entry_ok e3" "h3 = 0" "n3 = 0" "pausing_at d (d + d + j) e3" using s2 s3 by simp_all
  note s4 = step_resume [OF s3'(1,4) p4(2) [unfolded c3 c4] q(4)]
  have s4': "entry_ok e4" "h4 = 0" "n4 = 0" "behind_at d (d + d + j + d) e4" using s4 s3' by simp_all
  have "succeeds (pf_seq ooo up xs pf4) (\<lambda>pf'. ps_hits (pf_stats pf') = 0 \<and> ps_prefetches (pf_stats pf') = 0 + length xs)"
    by (rule behind_seq [OF assms(1,2,4,5) p4(1) c4 [unfolded s4'(2,3)] s4'(1,4) q(4) assms(11)]) (use assms(12) in auto)
  then show ?thesis unfolding f(5) p2(3) p3(3) p4(3) by simp
qed

end

end
