(* ===== verification/Prefetch_System.thy ===== *)
theory Prefetch_System
  imports Prefetch_Stream Coherent_Run
begin

text \<open>
  The prefetcher in front of the shared cache of the coherent system: the interface \<open>prefetch_parent\<close>
  is interpreted on the hierarchy of \<open>Coherent_Run\<close>, for cores without event recorders.
\<close>

section \<open>What the caches leave alone\<close>

text \<open>
  Properties \<open>Q\<close> of the system that do not speak of the caches, such as the value of a local variable
  that a request points to: the caches write through pointers to their own lines only, so an operation
  keeps \<open>Q\<close> if its calls of other objects do.
\<close>

definition off_caches :: "(('a, 'm) MemSys \<Rightarrow> bool) \<Rightarrow> bool" where
  "off_caches Q \<longleftrightarrow> (\<forall>s cs. Q (s\<lparr>caches := cs\<rparr>) = Q s)"

lemma off_caches_upd:
  assumes "off_caches Q"
  shows "Q (set_bstate c l st s) = Q s" "Q (upd_entry c l f s) = Q s" "Q (set_array c A s) = Q s" "Q (upd_filter c g s) = Q s"
  using assms by (simp_all add: off_caches_def set_bstate_def upd_entry_def set_array_def upd_filter_def upd_cache_def)

definition down_keeps :: "(('a, 'm) MemSys \<Rightarrow> bool) \<Rightarrow> ('a, 'm) down \<Rightarrow> bool" where
  "down_keeps Q down \<longleftrightarrow> (\<forall>c ireq wb s r wb' s'. down c ireq wb s = Inr (r, wb', s') \<longrightarrow> Q s \<longrightarrow> Q s')"

definition up_keeps :: "nat \<Rightarrow> (('a, 'm) MemSys \<Rightarrow> bool) \<Rightarrow> ('a, 'm) up \<Rightarrow> bool" where
  "up_keeps src Q up \<longleftrightarrow>
     (\<forall>node req c l s r s'. srcId req = src \<longrightarrow> up node req (Line c l) s = Inr (r, s') \<longrightarrow> Q s \<longrightarrow> Q s')"

lemma inv_loop_keeps:
  assumes q: "off_caches Q" and k: "down_keeps Q down"
  shows "inv_loop cfg down c l ireq k cs m si wb s = Inr (m', si', wb', s') \<Longrightarrow> Q s \<Longrightarrow> Q s'"
proof (induction cs arbitrary: k m si wb s)
  case (Cons ch cs)
  show ?case
  proof (cases "sharers (entry c l s) k")
    case True
    with Cons.prems(1) obtain r wb1 s1 where d: "down ch ireq wb s = Inr (r, wb1, s1)"
      "inv_loop cfg down c l ireq (Suc k) cs (max (r + (case rttDown cfg of None \<Rightarrow> 0 | Some rtt \<Rightarrow> rtt k)) m) (si + 1) wb1
        (if i_type ireq = INV then upd_entry c l (\<lambda>e. e\<lparr>sharers := (sharers e)(k := False)\<rparr>) s1 else s1) = Inr (m', si', wb', s')"
      by (auto simp: bindR_eq_Inr_iff Let_def)
    have "Q s1" using k d(1) Cons.prems(2) unfolding down_keeps_def by blast
    with Cons.IH [OF d(2)] show ?thesis by (simp add: off_caches_upd [OF q])
  next
    case False
    with Cons show ?thesis by simp
  qed
qed simp

lemma sendInvalidates_keeps:
  assumes q: "off_caches Q" and k: "down_keeps Q down" and r: "tcc_sendInvalidates cfg down c la l t wb cyc src s = Inr (r, wb', s')" "Q s"
  shows "Q s'"
  using r by (auto simp: tcc_sendInvalidates_def bindR_eq_Inr_iff require_eq_Inr_iff off_caches_upd [OF q] split: if_splits
      dest!: inv_loop_keeps [OF q k])

lemma processInval_keeps: "off_caches Q \<Longrightarrow> bcc_processInval c l t wb s = Inr (wb', s') \<Longrightarrow> Q s \<Longrightarrow> Q s'"
  by (auto simp: bcc_processInval_def Let_def require_eq_Inr_iff off_caches_upd split: InvType.splits)

lemma processInv_keeps:
  assumes q: "off_caches Q" and k: "down_keeps Q down" and r: "cc_processInv cfg down c ireq l cyc wb s = Inr (r, wb', s')" "Q s"
  shows "Q s'"
  using r by (auto simp: cc_processInv_def tcc_processInval_def bindR_eq_Inr_iff require_eq_Inr_iff split: if_splits
      dest!: sendInvalidates_keeps [OF q k] processInval_keeps [OF q])

lemma obj_invalidate_keeps:
  assumes q: "off_caches Q" and k: "down_keeps Q down"
  shows "down_keeps Q (obj_invalidate cfg down)"
  unfolding down_keeps_def
  by (auto simp: obj_invalidate_def cache_invalidate_def bindR_eq_Inr_iff off_caches_upd [OF q] split: if_splits option.splits
      dest!: processInv_keeps [OF q k])

lemma invalidate_at_keeps:
  assumes q: "off_caches Q"
  shows "down_keeps Q (invalidate_at h cfg)"
proof (induction h)
  case (Suc h)
  have "invalidate_at (Suc h) cfg c = obj_invalidate (cfg c) (invalidate_at h cfg) c" for c by (intro ext) simp
  then show ?case using obj_invalidate_keeps [OF q Suc] unfolding down_keeps_def by metis
qed (simp add: down_keeps_def)

lemma processEviction_keeps:
  assumes q: "off_caches Q" and k: "up_keeps src Q up" and r: "bcc_processEviction cfg up c b l wb cyc src s = Inr (r, s')" "Q s"
  shows "Q s'"
proof -
  have up: "Q s2" if "up node req (Line c l) s1 = Inr (r, s2)" "srcId req = src" "Q s1" for node req s1 r s2
    using k that unfolding up_keeps_def by blast
  show ?thesis
    using r by (auto simp: bcc_processEviction_def Let_def bindR_eq_Inr_iff require_eq_Inr_iff off_caches_upd [OF q]
        split: if_splits MESIState.splits dest!: up)
qed

lemma fill_keeps:
  assumes q: "off_caches Q" and k: "down_keeps Q down" "up_keeps (srcId req) Q up"
    and r: "cache_fill cfg up down c req cyc s = Inr (l, s')" "Q s"
  shows "Q s'"
  using r
  by (auto simp: cache_fill_def cc_processEviction_def tcc_processEviction_def bindR_eq_Inr_iff off_caches_upd [OF q]
      split: option.splits if_splits dest!: processEviction_keeps [OF q k(2)] sendInvalidates_keeps [OF q k(1)])

lemma processAccess_keeps:
  assumes k: "up_keeps src Q up" and r: "bcc_processAccess cfg up c la l GETS cyc src fl s = Inr (r, s')" "Q s"
  shows "Q s'"
proof -
  have up: "Q s2" if "up node req (Line c l) s1 = Inr (r, s2)" "srcId req = src" "Q s1" for node req s1 r s2
    using k that unfolding up_keeps_def by blast
  show ?thesis
    using r by (auto simp: bcc_processAccess_def bcc_miss_def Let_def bindR_eq_Inr_iff require_eq_Inr_iff split: if_splits dest!: up)
qed

lemma dummy_off [simp]: "off_caches (\<lambda>s. dummyState s = v)"
  by (simp add: off_caches_def)

lemma mem_access_dummy: "mem_access mo req (Line c l) s = Inr (r, s') \<Longrightarrow> dummyState s = v \<Longrightarrow> dummyState s' = v"
  by (auto simp: mem_access_def bindR_eq_Inr_iff set_bstate_def)

section \<open>A prefetch in the shared cache\<close>

context coherent_system
begin

lemma calm_live: "calm s s' \<Longrightarrow> j \<le> n \<Longrightarrow> live j s \<Longrightarrow> live j s'"
  by (auto simp: calm_def live_def)

lemma l2_access_prefetch:
  assumes c: "coh s" and ai: "ainv n (c_array (caches s ! n))" and lv: "\<forall>j<n. live j s"
    and e: "env s" "srcId req < nsrc" "recorders s ! srcId req = None"
    and a: "lineAddr req = a" "a \<noteq> 0" and t: "req_type req = GETS" "initialState req = I" "dummyState s = I"
    and f: "is_flag (flags req) PREFETCH" and up: "up MemNode = mem_access mo" "\<And>src. up_keeps src (\<lambda>s. dummyState s = I) up"
  shows "succeeds (cache_access (cfg n) up (invalidate_at (Suc h) cfg) n req Dummy s)
    (\<lambda>(resp, s'). cycle req \<le> resp \<and> coh s' \<and> below s s' \<and> ainv n (c_array (caches s' ! n)) \<and>
      env s' \<and> others_same (srcId req) s s' \<and> dummyState s' = I)"
proof -
  let ?src = "srcId req" and ?cyc = "cycle req + accLat (cfg n)" and ?down = "invalidate_at (Suc h) cfg"
  note sh = cohD(1) [OF c]
  have liv: "live n s" using ai by (simp add: live_def)
  from lookup_any [OF order_refl sh liv a(2), of req True] obtain A where
    A: "ao_lookup (arrayOps (cfg n)) a req True (c_array (caches s ! n)) = Inr (cont n s a, A)" "contents n A = cont n s"
      "quiet s (set_array n A s)" by (auto simp: succeeds_iff)
  let ?s1 = "set_array n A s"
  note sa = set_array_simps [OF sh order_refl, where A = A]
  have c1: "coh ?s1" by (rule coh_set_array [OF c order_refl A(2)])
  have e1: "env ?s1" "slot_free (recorders ?s1 ! ?src)" using e by (simp_all add: env_def slot_free_def)
  have ai1: "ainv n (c_array (caches ?s1 ! n))" using A(3) ai by (simp add: quiet_def)
  have lv1: "\<forall>j<n. live j ?s1" using lv by (simp add: live_def sa)
  let ?fill = "case cont n s a of Some l \<Rightarrow> Inr (Some l, ?s1)
    | None \<Rightarrow> bindR (cache_fill (cfg n) up ?down n req ?cyc ?s1) (\<lambda>(l, s2). Inr (Some l, s2))"
  have "succeeds ?fill (\<lambda>(r, s2). \<exists>l. r = Some l \<and> coh s2 \<and> cont n s2 a = Some l \<and> ainv n (c_array (caches s2 ! n)) \<and>
      below ?s1 s2 \<and> env s2 \<and> others_same ?src ?s1 s2 \<and> dummyState s2 = I)"
  proof (cases "cont n s a")
    case (Some l)
    then show ?thesis using c1 ai1 e1 others_same_refl [OF e1(1)] t(3) off_caches_upd(3) [OF dummy_off, of n A s]
      by (simp add: sa A(2) below_def)
  next
    case None
    have cn1: "cont n ?s1 a = None" using None by (simp add: sa A(2))
    from l2_fill [where up = up and h = h and cyc = ?cyc, OF c1 ai1 lv1 e1(1) e(2) e1(2) a cn1 up(1)] obtain l s2 where
      r: "cache_fill (cfg n) up ?down n req ?cyc ?s1 = Inr (l, s2)" "coh s2" "cont n s2 a = Some l" "ainv n (c_array (caches s2 ! n))"
        "below ?s1 s2" "env s2" "others_same ?src ?s1 s2" by (auto simp: succeeds_iff)
    have "dummyState s2 = I" using fill_keeps [OF dummy_off invalidate_at_keeps [OF dummy_off] up(2) r(1)] t(3) by (simp add: off_caches_upd [OF dummy_off])
    then show ?thesis using None r by simp
  qed
  then obtain l s2 where r2: "?fill = Inr (Some l, s2)" "coh s2" "cont n s2 a = Some l" "ainv n (c_array (caches s2 ! n))"
    "below ?s1 s2" "env s2" "others_same ?src ?s1 s2" "dummyState s2 = I"
    by (auto simp: succeeds_iff)
  have none2: "recorders s2 ! ?src = None" using r2(7) e(3) by (simp add: others_same_def)
  have tk: "take_record ?src s2 = (None, s2)" by (simp add: take_record_def none2)
  have ln: "l < numLines (cfg n)" using contD [OF cohD(1) [OF r2(2)] order_refl r2(3)] by simp
  have fr2: "slot_free (recorders s2 ! ?src)" by (simp add: none2 slot_free_def)
  let ?fl = "clear_flag PREFETCH (flags req)"
  from l2_bottom_get [where up = up and t = GETS and cyc = ?cyc and fl = ?fl and a = a, OF cohD(1) [OF r2(2)] ln r2(6) e(2) fr2 _ up(1)]
  obtain resp s3 v where r3: "bcc_processAccess (cfg n) up n a l GETS ?cyc ?src ?fl s2 = Inr (resp, s3)" "?cyc \<le> resp"
    "caches s3 = caches (set_bstate n l v s2)" "bstate n l s2 \<in> {E, M} \<Longrightarrow> v \<in> {E, M}" "v \<noteq> I" "env s3" "others_same ?src s2 s3"
    by (auto simp: succeeds_iff)
  note cc = caches_cong [OF r3(3)]
  have c3: "coh s3" using coh_set_l2 [OF r2(2,3)] r3(4,5) by (simp add: cc)
  have d3: "dummyState s3 = I" by (rule processAccess_keeps [OF up(2) r3(1) r2(8)])
  have bl: "below s s3"
    using below_trans [OF below_trans [OF below_set_array [OF sh] r2(5)]
        below_caches [OF r3(3) quiet_below [OF quiet_set_l2 [OF cohD(1) [OF r2(2)] ln]]]] .
  have ai3: "ainv n (c_array (caches s3 ! n))" using r2(4) shape_index [OF cohD(1) [OF r2(2)] order_refl]
    by (simp add: r3(3) set_bstate_def caches_upd_cache)
  have run: "cache_access (cfg n) up ?down n req Dummy s = Inr (resp, s3)"
  proof -
    have st: "cc_startAccess (cfg n) req (get_ptr Dummy s) = Inr (False, GETS)"
      using t l2(1) by (simp add: cc_startAccess_def CheckForMESIRace_def)
    have al: "cc_shouldAllocate (cfg n) req = Inr True" using t(1) by (simp add: cc_shouldAllocate_def)
    have rq: "req\<lparr>req_type := GETS\<rparr> = req" using t(1) by simp
    have fl: "(case cont n s a of None \<Rightarrow> bindR (cc_shouldAllocate (cfg n) req) (\<lambda>alloc.
        if alloc then bindR (cache_fill (cfg n) up ?down n req ?cyc ?s1) (\<lambda>(l, s2). Inr (Some l, s2)) else Inr (None, ?s1))
        | Some l \<Rightarrow> Inr (Some l, ?s1)) = Inr (Some l, s2)"
      using r2(1) by (simp add: al split: option.splits)
    have pr: "mesi_processAccess (cfg n) up ?down n req Dummy (Some l) ?cyc s2 = Inr (resp, s3)"
      using r3(1) f t(1) a(1) by (simp add: mesi_processAccess_def Let_def)
    show ?thesis
      using st A(1) a fl tk pr r3(2) l2(1)
      by (simp add: cache_access_def cc_processAccess_def stitch_records_def Let_def rq cong: option.case_cong if_cong)
  qed
  have "others_same ?src s ?s1" using others_same_quiet [OF e(1) A(3)] .
  then have "others_same ?src s s3" using others_same_trans r2(7) r3(7) by blast
  then show ?thesis unfolding run using r3(2,6) c3 bl ai3 d3 by simp
qed

text \<open>
  A prefetch for a core that cannot record it, of a line that the cache holds: the cache takes the record
  in the core's slot for one of its own evictions, and does not put it back.
\<close>

lemma l2_norec_hit:
  assumes c: "coh s" and ai: "ainv n (c_array (caches s ! n))" and a: "lineAddr req = a" "a \<noteq> 0" "cont n s a = Some l" "bstate n l s \<noteq> I"
    and t: "req_type req = GETS" "initialState req = get_ptr ptr s" "get_ptr ptr s = I"
    and f: "is_flag (flags req) PREFETCH" "is_flag (flags req) PREFETCH_NOREC"
    and r: "srcId req < length (recorders s)" "recorders s ! srcId req = Some r" "rc_startEvent r = Some e"
      "te_queue e (te_minStart (events (weave s) ! e)) (weave s) = Inr w" "te_domain (events (weave s) ! e) \<noteq> - 1"
  shows "\<exists>A. cache_access (cfg n) up dn n req ptr s =
    Inr (cycle req + accLat (cfg n), set_recorder (srcId req) (Some (rc_clear r)) (set_array n A s)\<lparr>weave := w\<rparr>)"
proof -
  let ?src = "srcId req" and ?cyc = "cycle req + accLat (cfg n)"
  note sh = cohD(1) [OF c]
  have liv: "live n s" using ai by (simp add: live_def)
  from lookup_any [OF order_refl sh liv a(2), of req True] obtain A where
    A: "ao_lookup (arrayOps (cfg n)) a req True (c_array (caches s ! n)) = Inr (cont n s a, A)" "contents n A = cont n s"
    by (auto simp: succeeds_iff)
  let ?s1 = "set_array n A s" and ?s2 = "set_recorder ?src (Some (rc_clear r)) (set_array n A s)"
  have b1: "bstate n l ?s2 = bstate n l s"
    using set_array_simps [OF sh order_refl, where A = A] by (simp add: bstate_def set_recorder_def)
  have st: "cc_startAccess (cfg n) req (get_ptr ptr s) = Inr (False, GETS)"
    using t l2(1) by (simp add: cc_startAccess_def CheckForMESIRace_def)
  have rq: "req\<lparr>req_type := GETS\<rparr> = req" using t(1) by simp
  have tk: "take_record ?src ?s1 = (Some r, ?s2)" using r(2,3) by (simp add: take_record_def rc_valid_def)
  have no: "take_record ?src ?s2 = (None, ?s2)" using r(1) by (simp add: take_record_def set_recorder_def rc_valid_def rc_clear_def)
  have pr: "mesi_processAccess (cfg n) up dn n req ptr (Some l) ?cyc ?s2 = Inr (?cyc, ?s2)"
    using f t(1) a(1,4) b1 by (simp add: mesi_processAccess_def Let_def bcc_processAccess_def)
  have sr: "stitch_records req (Some r) ?s2 = Inr (?s2\<lparr>weave := w\<rparr>)"
    using no f(2) r(3-5) by (simp add: stitch_records_def Let_def set_recorder_def)
  have "cache_access (cfg n) up dn n req ptr s = Inr (?cyc, ?s2\<lparr>weave := w\<rparr>)"
    using st A(1) a tk pr sr l2(1)
    by (simp add: cache_access_def cc_processAccess_def Let_def rq cong: option.case_cong if_cong)
  then show ?thesis by blast
qed

end

section \<open>The shared cache as a parent\<close>

text \<open>
  One bank, the shared cache of the system. Which lines an access takes away from the first level is
  not part of the state: the function \<open>lost\<close> reports them, and everything below holds whatever it says.
\<close>

definition shared_bank ::
  "SysParams \<Rightarrow> nat \<Rightarrow> int \<Rightarrow> (MemReq \<Rightarrow> ('b MemCtrl) sys \<Rightarrow> ('b MemCtrl) sys \<Rightarrow> addr list) \<Rightarrow> (LRU SetAssocArray, 'b MemCtrl) banks" where
  "shared_bank sp lineBits domn lost p req ptr s =
     bindR (access_at (Suc 0) (Suc 0) (sys_cfg sp) (dramsim3_mem lineBits domn) (sp_cores sp) req ptr s) (\<lambda>(resp, s').
       Inr (resp, lost req s s', s'))"

text \<open>The system while a first-level cache waits for an answer, and one in which no core has an event recorder.\<close>

definition waiting_ok :: "nat \<Rightarrow> SysParams \<Rightarrow> ('b MemCtrl) sys \<Rightarrow> bool" where
  "waiting_ok nsrc sp s \<longleftrightarrow> config_ok nsrc sp \<and> sys.coh sp s \<and> sys_ainv sp (sp_cores sp) (c_array (caches s ! sp_cores sp)) \<and>
     (\<forall>j < sp_cores sp. sys.live sp j s) \<and> sys.env nsrc s"

definition shared_ok :: "nat \<Rightarrow> SysParams \<Rightarrow> ('b MemCtrl) sys \<Rightarrow> bool" where
  "shared_ok nsrc sp s \<longleftrightarrow> waiting_ok nsrc sp s \<and> (\<forall>i<nsrc. recorders s ! i = None)"

text \<open>What a first-level cache asks for: a line that it has made room for, or one that it gives back.\<close>

definition child_asks :: "nat \<Rightarrow> SysParams \<Rightarrow> MemReq \<Rightarrow> StatePtr \<Rightarrow> 'm sys \<Rightarrow> bool" where
  "child_asks nsrc sp req ptr s \<longleftrightarrow> childId req < sp_cores sp \<and> srcId req < nsrc \<and> page_of (lineAddr req) \<noteq> 0 \<and>
     (\<exists>lk. ptr = Line (childId req) lk \<and> sa_contents (c_array (caches s ! childId req)) (lineAddr req) = Some lk \<and>
        (let st = bstate (childId req) lk s in initialState req = st \<and>
           (req_type req = GETS \<and> st = I \<or> req_type req = GETX \<and> st \<in> {I, S} \<or>
            req_type req = sys.put_of st \<and> st \<noteq> I \<and> flags req = 0))) \<and>
     \<not> is_flag (flags req) PREFETCH \<and> \<not> is_flag (flags req) PREFETCH_NOREC"

lemma shared_ok_dummy: "shared_ok nsrc sp (s\<lparr>dummyState := v\<rparr>) = shared_ok nsrc sp s"
  using sys.caches_cong [of "s\<lparr>dummyState := v\<rparr>" s] by (simp add: shared_ok_def waiting_ok_def sys.live_def sys.env_def)

lemma shared_ok_step:
  assumes "shared_ok nsrc sp s" "sys.coh sp s'" "sys.below sp s s'" "sys_ainv sp (sp_cores sp) (c_array (caches s' ! sp_cores sp))"
    "sys.env nsrc s'" "sys.others_same src s s'" "src < nsrc"
  shows "shared_ok nsrc sp s'"
proof -
  have "recorders s' ! i = None" if "i < nsrc" for i
    using assms(1,6) that by (cases "i = src") (simp_all add: shared_ok_def waiting_ok_def sys.others_same_def)
  moreover have "sys.live sp j s'" if "j < sp_cores sp" for j
    using assms(1) sys.below_live [OF assms(3) that] that by (simp add: shared_ok_def waiting_ok_def)
  ultimately show ?thesis using assms(1,2,4,5) by (simp add: shared_ok_def waiting_ok_def)
qed

lemma shared_demand:
  assumes s: "shared_ok nsrc sp s" and d: "child_asks nsrc sp req ptr s"
  shows "succeeds (shared_bank sp lineBits domn lost p req ptr s) (\<lambda>(resp, invs, s'). cycle req \<le> resp \<and> shared_ok nsrc sp s')"
proof -
  let ?n = "sp_cores sp" and ?k = "childId req" and ?mo = "dramsim3_mem lineBits domn"
  let ?up = "\<lambda>node. case node of CacheNode p \<Rightarrow> access_at 0 (Suc 0) (sys_cfg sp) ?mo p | MemNode \<Rightarrow> mem_access ?mo"
  have up: "?up MemNode = mem_access ?mo" by simp
  note S = s [unfolded shared_ok_def waiting_ok_def]
  from d obtain lk where k: "?k < ?n" "srcId req < nsrc" "ptr = Line ?k lk"
    "sa_contents (c_array (caches s ! ?k)) (lineAddr req) = Some lk" "initialState req = bstate ?k lk s"
    "req_type req = GETS \<and> bstate ?k lk s = I \<or> req_type req = GETX \<and> bstate ?k lk s \<in> {I, S} \<or>
      req_type req = sys.put_of (bstate ?k lk s) \<and> bstate ?k lk s \<noteq> I \<and> flags req = 0"
    and f: "\<not> is_flag (flags req) PREFETCH" "\<not> is_flag (flags req) PREFETCH_NOREC"
    by (auto simp: child_asks_def Let_def)
  have fr: "slot_free (recorders s ! srcId req)" using S k(2) by (simp add: slot_free_def)
  have lat: "0 < accLat (sys_cfg sp ?n)" using S by (simp add: sys_cfg_def config_ok_def Let_def)
  have acc: "shared_bank sp lineBits domn lost p req ptr s =
      bindR (cache_access (sys_cfg sp ?n) ?up (invalidate_at (Suc 0) (sys_cfg sp)) ?n req (Line ?k lk) s) (\<lambda>(resp, s'). Inr (resp, lost req s s', s'))"
    by (simp add: shared_bank_def k(3) del: invalidate_at.simps)
  show ?thesis
  proof (cases "sys.asks (req_type req) (bstate ?k lk s)")
    case True
    from sys.l2_access_get [where up = ?up and h = 0, OF _ _ _ _ k(2) fr refl refl k(1,4) refl True k(5) f up lat] S
    obtain resp s' where r: "cache_access (sys_cfg sp ?n) ?up (invalidate_at (Suc 0) (sys_cfg sp)) ?n req (Line ?k lk) s = Inr (resp, s')"
      "cycle req \<le> resp" "sys.coh sp s'" "sys.below sp s s'" "sys_ainv sp ?n (c_array (caches s' ! ?n))"
      "sys.env nsrc s'" "sys.others_same (srcId req) s s'" by (auto simp: succeeds_iff)
    show ?thesis unfolding acc r(1) using r(2) shared_ok_step [OF s r(3-7) k(2)] by simp
  next
    case False
    let ?st = "bstate ?k lk s"
    have p: "req_type req = sys.put_of ?st" "?st \<noteq> I" "flags req = 0" using False k(6) by (auto simp: sys.asks_def)
    have req: "req = \<lparr>lineAddr = lineAddr req, req_type = sys.put_of ?st, childId = ?k, cycle = cycle req, initialState = ?st,
        srcId = srcId req, flags = 0\<rparr>" using k(5) p by (cases req) simp
    have lv: "sys.live sp ?n s" using S by (simp add: sys.live_def)
    from sys.l2_access_put [where up = ?up and dn = "invalidate_at (Suc 0) (sys_cfg sp)" and cyc = "cycle req",
        OF _ lv _ k(2) fr k(1,4) refl p(2)] S
    obtain resp s' where r: "cache_access (sys_cfg sp ?n) ?up (invalidate_at (Suc 0) (sys_cfg sp)) ?n req (Line ?k lk) s = Inr (resp, s')"
      "cycle req \<le> resp" "sys.coh sp s'" "sys.calm sp s s'" unfolding req [symmetric] by (auto simp: succeeds_iff)
    have "sys.live sp j s'" if "j < ?n" for j using sys.calm_live [OF r(4), of j] that S by simp
    then have "shared_ok nsrc sp s'" using S r(3,4) by (simp add: shared_ok_def waiting_ok_def sys.calm_def sys.env_def)
    then show ?thesis unfolding acc r(1) using r(2) by simp
  qed
qed

lemma prefetch_flag: "is_flag (prefetch_flags can) PREFETCH"
  by (simp add: prefetch_flags_def is_flag_def Let_def bit_eq_iff) (auto simp: bit_simps intro!: exI [of _ 5])

lemma norec_flag: "is_flag (prefetch_flags False) PREFETCH_NOREC"
  by (simp add: prefetch_flags_def is_flag_def Let_def bit_eq_iff) (auto simp: bit_simps intro!: exI [of _ 6])

lemma shared_side:
  assumes s: "shared_ok nsrc sp s" and a: "a \<noteq> 0" "src < nsrc"
  shows "succeeds (issuePrefetch (\<lambda>_. None) (shared_bank sp lineBits domn lost) p a child cyc src s)
    (\<lambda>(resp, invs, recorded, s'). shared_ok nsrc sp s')"
proof -
  let ?n = "sp_cores sp" and ?mo = "dramsim3_mem lineBits domn" and ?req = "prefetch_req a child cyc src False" and ?s = "s\<lparr>dummyState := I\<rparr>"
  let ?up = "\<lambda>node. case node of CacheNode p \<Rightarrow> access_at 0 (Suc 0) (sys_cfg sp) ?mo p | MemNode \<Rightarrow> mem_access ?mo"
  have up: "?up MemNode = mem_access ?mo" "\<And>src. up_keeps src (\<lambda>s. dummyState s = I) ?up"
    by (auto simp: up_keeps_def split: Node.splits dest: mem_access_dummy)
  have s': "shared_ok nsrc sp ?s" using s by (simp add: shared_ok_dummy)
  note S = s' [unfolded shared_ok_def waiting_ok_def]
  have req: "lineAddr ?req = a" "req_type ?req = GETS" "initialState ?req = I" "srcId ?req = src" "is_flag (flags ?req) PREFETCH"
    by (simp_all add: prefetch_req_def prefetch_flag)
  have none: "recorders ?s ! src = None" using S a(2) by simp
  have "succeeds (cache_access (sys_cfg sp ?n) ?up (invalidate_at (Suc 0) (sys_cfg sp)) ?n ?req Dummy ?s) (\<lambda>(resp, s2).
      shared_ok nsrc sp s2 \<and> dummyState s2 = I)"
    by (rule succeeds_mono [OF sys.l2_access_prefetch [where up = ?up and h = 0, OF _ _ _ _ _ _ req(1) a(1) req(2,3) _ req(5) up]])
      (use S none a(2) shared_ok_step [OF s' _ _ _ _ _ a(2)] in \<open>auto simp: req(4)\<close>)
  then obtain resp s2 where r: "cache_access (sys_cfg sp ?n) ?up (invalidate_at (Suc 0) (sys_cfg sp)) ?n ?req Dummy ?s = Inr (resp, s2)"
    "shared_ok nsrc sp s2" "dummyState s2 = I" by (auto simp: succeeds_iff)
  have "shared_bank sp lineBits domn lost p ?req Dummy ?s = Inr (resp, lost ?req ?s s2, s2)"
    using r(1) by (simp add: shared_bank_def del: invalidate_at.simps)
  then show ?thesis using r(2,3) by (simp add: issuePrefetch_def can_record_def Let_def)
qed

interpretation pf: prefetch_parent "\<lambda>_. None" "shared_bank sp lineBits domn lost" "shared_ok nsrc sp" "child_asks nsrc sp" 1
  for nsrc sp lineBits domn lost
proof
  fix p q s req ptr resp invs s1 a
  assume d: "shared_ok nsrc sp s" "child_asks nsrc sp req ptr s" "shared_bank sp lineBits domn lost p req ptr s = Inr (resp, invs, s1)"
    "page_of a = page_of (lineAddr req)"
  have "shared_ok nsrc sp s1" using shared_demand [OF d(1,2), of lineBits domn lost p] d(3) by simp
  moreover have "a \<noteq> 0" using d(2,4) by (auto simp: child_asks_def page_of_def)
  moreover have "srcId req < nsrc" using d(2) by (simp add: child_asks_def)
  ultimately show "succeeds (issuePrefetch (\<lambda>_. None) (shared_bank sp lineBits domn lost) q a (childId req) (cycle req) (srcId req) s1)
      (\<lambda>(resp, invs, recorded, s'). shared_ok nsrc sp s')" by (rule shared_side)
qed (rule shared_demand)

text \<open>The shared cache takes no line of the page away.\<close>

definition keeps_page :: "(MemReq \<Rightarrow> 'm sys \<Rightarrow> 'm sys \<Rightarrow> addr list) \<Rightarrow> addr \<Rightarrow> bool" where
  "keeps_page lost page \<longleftrightarrow> (\<forall>req s s'. page \<notin> page_of ` set (lost req s s'))"

lemma calm_shared: "keeps_page lost page \<Longrightarrow> calm_page (shared_bank sp lineBits domn lost) page"
  by (auto simp: calm_page_def keeps_page_def shared_bank_def bindR_eq_Inr_iff)

section \<open>A first-level cache that waits\<close>

text \<open>A booted system without event recorders, after a first-level cache has made room for a line.\<close>

lemma boot_empty:
  assumes "boot_ok sp m rs" "new_system sp m rs = Inr s" "k < sp_cores sp"
  shows "sa_contents (c_array (caches s ! k)) a = None"
proof -
  obtain A where A: "sa_new (bank_lines sp k) (cp_ways (sp_cache sp k)) (lru_new (bank_lines sp k)) = Inr A" "c_array (caches s ! k) = A"
    using new_caches [OF assms(2)] less_imp_le [OF assms(3)] by (metis CacheObj.select_convs(1))
  show ?thesis
    using sa_new_ok [OF A(1), of "\<lambda>p. length (lru_array p) = bank_lines sp k"] A(2) assms(1,3)
    by (simp add: lru_new_def boot_ok_def config_ok_def)
qed

lemma waiting_boot:
  fixes s :: "('b MemCtrl) sys"
  assumes "boot_ok sp m rs" "\<forall>r\<in>set rs. r = None" "new_system sp m rs = Inr s" "k < sp_cores sp" "page_of a \<noteq> 0" "src < length rs"
  shows "\<exists>(s1 :: ('b MemCtrl) sys) lk. shared_ok (length rs) sp s1 \<and>
    child_asks (length rs) sp \<lparr>lineAddr = a, req_type = GETS, childId = k, cycle = c, initialState = I, srcId = src, flags = 0\<rparr> (Line k lk) s1"
proof -
  let ?req = "\<lparr>lineAddr = a, req_type = GETS, childId = k, cycle = c, initialState = I, srcId = src, flags = 0\<rparr>"
  let ?n = "sp_cores sp" and ?dn = "invalidate_at 0 (sys_cfg sp)"
  let ?stop = "\<lambda>_ _ _ _. Inl (Undefined ''stop'')"
  let ?up = "\<lambda>node. case node of CacheNode p \<Rightarrow> cache_access (sys_cfg sp p) ?stop ?dn p | MemNode \<Rightarrow> \<lambda>_ _ _. Inl (Undefined ''stop'')"
  from boot [OF assms(1,3)] have b: "sys.coh sp s" "sys.arrays_ok sp s" "sys.env (length rs) s"
    by (simp_all add: run_ok_def sys.system_ok_def)
  have cl: "length (recorders s) = length rs" "recorders s = rs" using new_caches [OF assms(3)] by metis+
  have emp: "sa_contents (c_array (caches s ! k)) a = None" by (rule boot_empty [OF assms(1,3,4)])
  have a0: "a \<noteq> 0" using assms(5) by (auto simp: page_of_def)
  have "rs ! src = None" using assms(2,6) by simp
  then have fr: "slot_free (recorders s ! srcId ?req)" "srcId ?req < length rs" using assms(6) cl by (simp_all add: slot_free_def)
  have up: "?up (CacheNode ?n) = cache_access (sys_cfg sp ?n) ?stop ?dn ?n" by simp
  have la: "lineAddr ?req = a" by simp
  from sys.l1_fill [where up = ?up and dn' = ?dn and cyc = c, OF b(1,2) assms(4) b(3) fr(2,1) la a0 emp up]
  obtain l s1 where f: "sys.coh sp s1" "sa_contents (c_array (caches s1 ! k)) a = Some l" "sys.arrays_ok sp s1" "bstate k l s1 = I"
      "mem s1 = mem s" "recorders s1 = recorders s" "weave s1 = weave s" unfolding succeeds_iff by blast
  have "config_ok (length rs) sp" using assms(1) by (simp add: boot_ok_def)
  then have "shared_ok (length rs) sp s1"
    using f b(3) assms(2) cl by (simp add: shared_ok_def waiting_ok_def sys.arrays_ok_def sys.live_def sys.env_def)
  moreover have "child_asks (length rs) sp ?req (Line k l) s1"
    using f(2,4) assms(4-6) by (auto simp: child_asks_def is_flag_def)
  ultimately show ?thesis by blast
qed

section \<open>A small system\<close>

definition no_slots :: "Recorded option list" where
  "no_slots = [None, None]"

definition ask :: "addr \<Rightarrow> MemReq" where
  "ask a = \<lparr>lineAddr = a, req_type = GETS, childId = 0, cycle = 5, initialState = I, srcId = 0, flags = 0\<rparr>"

lemma tiny_waiting:
  assumes "page_of a \<noteq> 0"
  shows "\<exists>(s :: (unit MemCtrl) sys) lk. shared_ok 2 tiny s \<and> child_asks 2 tiny (ask a) (Line 0 lk) s"
proof -
  have b: "boot_ok tiny tiny_mem no_slots"
    by (auto simp: boot_ok_def config_ok_def tiny_def tiny_cache_def tiny_mem_def no_slots_def bank_lines_def slot_free_def is_flag_def)
  obtain s where s: "new_system tiny tiny_mem no_slots = Inr s"
    by (simp add: new_system_def tiny_def tiny_cache_def new_cache_def bank_lines_def sa_new_def isPow2_def Let_def upt_rec)
  have l: "length no_slots = 2" "\<forall>r\<in>set no_slots. r = None" "0 < sp_cores tiny" "0 < length no_slots" by (simp_all add: no_slots_def tiny_def)
  show ?thesis using waiting_boot [OF b l(2) s l(3) assms l(4), of 5] unfolding l(1) ask_def .
qed

lemma tiny_table: "\<exists>pf. zeroed_prefetcher 0 1 = Inr pf"
  by (simp add: zeroed_prefetcher_def setParents_def)

text \<open>A state of the small system for each address.\<close>

lemma tiny_states:
  "\<exists>(f :: addr \<Rightarrow> (unit MemCtrl) sys) g. \<forall>a. page_of a \<noteq> 0 \<longrightarrow> shared_ok 2 tiny (f a) \<and> child_asks 2 tiny (ask a) (Line 0 (g a)) (f a)"
  using tiny_waiting by metis

section \<open>Properties\<close>

lemma shared_bank_any:
  "shared_bank sp lineBits domn lost p = shared_bank sp lineBits domn lost 0"
  "issuePrefetch ooo (shared_bank sp lineBits domn lost) p = issuePrefetch ooo (shared_bank sp lineBits domn lost) 0"
proof -
  show p: "shared_bank sp lineBits domn lost p = shared_bank sp lineBits domn lost 0"
    by (intro ext) (simp add: shared_bank_def)
  show "issuePrefetch ooo (shared_bank sp lineBits domn lost) p = issuePrefetch ooo (shared_bank sp lineBits domn lost) 0"
    by (intro ext) (simp add: issuePrefetch_def p cong: if_cong)
qed









text \<open>A run of the small system that leaves a line in the shared cache, and the record of a later access in a slot.\<close>

definition slot_rec :: "nat \<Rightarrow> Recorded" where
  "slot_rec e = \<lparr>rc_addr = 0x40, rc_reqCycle = 9, rc_respCycle = 109, rc_type = GETS, rc_startEvent = Some e, rc_endEvent = Some e\<rparr>"

lemma tiny_recorded:
  "\<exists>(s :: (unit MemCtrl) sys) e. waiting_ok 2 tiny s \<and> line_state 2 s 0x40 \<noteq> I \<and> recorders s ! 0 = Some (slot_rec e) \<and>
     te_state (events (weave s) ! e) = EV_NONE \<and> te_numParents (events (weave s) ! e) = 0 \<and> te_domain (events (weave s) ! e) = 0"
proof -
  obtain s0 where s0: "new_system tiny tiny_mem tiny_slots = Inr s0" using tiny_new by blast
  have cfg: "config_ok 2 tiny" using tiny_boot by (simp add: boot_ok_def tiny_slots_def)
  have ok0: "run_ok 2 tiny s0" using boot [OF tiny_boot s0] by (simp add: tiny_slots_def)
  have x: "core_op_ok tiny (LoadOp 1 0x1000 5)" by (simp add: tiny_def line_of_def)
  from core_op_step [OF cfg ok0 x, of 6 0] obtain r1 :: "nat \<times> (unit MemCtrl) sys" where
    r: "run_ok 2 tiny (snd r1)" "op_granted tiny (LoadOp 1 0x1000 5) r1"
    unfolding succeeds_iff by blast
  define s1 where "s1 = snd r1"
  have g: "line_state 1 s1 0x40 \<noteq> I" using r(2) by (cases r1) (simp add: s1_def granted_def line_of_def tiny_def)
  have so: "sys.coh tiny s1" "sys.arrays_ok tiny s1" "sys.env 2 s1" using r(1) by (simp_all add: s1_def run_ok_def sys.system_ok_def)
  have "inclusive tiny s1" by (rule coherent_facts(2) [OF so(1)])
  then have "line_state i s1 a \<noteq> I \<Longrightarrow> i < 2 \<Longrightarrow> line_state 2 s1 a \<noteq> I" for i a unfolding inclusive_def by (simp add: tiny_def)
  from this [OF g] have l2: "line_state 2 s1 0x40 \<noteq> I" by simp
  define e where "e = length (events (weave s1))"
  define w where "w = snd (alloc (new_event QueuedEv 0 0 0) (weave s1))"
  let ?s = "s1\<lparr>recorders := (recorders s1)[0 := Some (slot_rec e)], weave := w\<rparr>"
  have ev: "events w ! e = new_event QueuedEv 0 0 0" by (simp add: w_def e_def alloc_def)
  have wv: "wv_inv {#} w" unfolding w_def using so(3) by (intro alloc_new_inv) (simp add: sys.env_def)
  have cc: "sys.coh tiny ?s = sys.coh tiny s1" by (rule sys.caches_cong(7)) simp
  have lv: "line_state 2 ?s 0x40 = line_state 2 s1 0x40" by (simp add: line_state_def bstate_def cong: option.case_cong)
  have "waiting_ok 2 tiny ?s"
    using cfg so wv cc by (simp add: waiting_ok_def sys.env_def sys.arrays_ok_def sys.live_def)
  moreover have "recorders ?s ! 0 = Some (slot_rec e)" using so(3) by (simp add: sys.env_def)
  ultimately show ?thesis using l2 lv ev by (intro exI [of _ ?s] exI [of _ e]) (simp add: new_event_def)
qed

text \<open>
  C39: a prefetch for a core that is not an out-of-order core loses the timing record of the
  demand access. The record is still in the core's slot when the prefetch is issued; the shared cache, which holds the
  prefetched line, takes it for the record of a writeback of its own, and does not put it back because the
  prefetch is marked as one that records nothing. The prefetch returns, and the slot is empty: the
  event of the demand access starts on its own, and the core never learns of it.
\<close>

theorem unrecorded_prefetch_drops_record:
  assumes "waiting_ok nsrc sp s" "a \<noteq> 0" "line_state (sp_cores sp) s a \<noteq> I" "src < nsrc" "ooo src = None"
    and "recorders s ! src = Some r" "rc_startEvent r = Some e" "te_state (events (weave s) ! e) = EV_NONE"
    and "te_numParents (events (weave s) ! e) = 0" "te_domain (events (weave s) ! e) \<noteq> - 1"
  shows "succeeds (issuePrefetch ooo (shared_bank sp lineBits domn lost) p a child cyc src s) (\<lambda>(resp, invs, recorded, s').
    \<not> recorded \<and> recorders s' ! src = Some (rc_clear r) \<and> \<not> rc_valid (rc_clear r) \<and>
    queued (weave s') = queued (weave s) @ [(e, te_minStart (events (weave s) ! e))])"
proof -
  let ?n = "sp_cores sp" and ?mo = "dramsim3_mem lineBits domn" and ?req = "prefetch_req a child cyc src False" and ?s = "s\<lparr>dummyState := I\<rparr>"
  let ?up = "\<lambda>node. case node of CacheNode p \<Rightarrow> access_at 0 (Suc 0) (sys_cfg sp) ?mo p | MemNode \<Rightarrow> mem_access ?mo"
  let ?w = "(upd_event e (te_state_update (\<lambda>_. EV_QUEUED)) (weave s))\<lparr>queued := queued (weave s) @ [(e, te_minStart (events (weave s) ! e))]\<rparr>"
  note S = assms(1) [unfolded waiting_ok_def]
  have c: "sys.coh sp ?s" using S sys.caches_cong(7) [of ?s s] by simp
  from assms(3) obtain l where l: "sa_contents (c_array (caches s ! ?n)) a = Some l" "bstate ?n l s \<noteq> I"
    by (auto simp: line_state_def split: option.splits)
  have req: "lineAddr ?req = a" "req_type ?req = GETS" "initialState ?req = I" "srcId ?req = src" "cycle ?req = cyc"
      "is_flag (flags ?req) PREFETCH" "is_flag (flags ?req) PREFETCH_NOREC"
    using prefetch_flag norec_flag by (simp_all add: prefetch_req_def)
  have q: "te_queue e (te_minStart (events (weave ?s) ! e)) (weave ?s) = Inr ?w" using assms(8,9) by (simp add: te_queue_def)
  obtain A resp where run: "cache_access (sys_cfg sp ?n) ?up (invalidate_at (Suc 0) (sys_cfg sp)) ?n ?req Dummy ?s =
      Inr (resp, set_recorder src (Some (rc_clear r)) (set_array ?n A ?s)\<lparr>weave := ?w\<rparr>)"
    using sys.l2_norec_hit [where up = ?up and dn = "invalidate_at (Suc 0) (sys_cfg sp)" and req = ?req and ptr = Dummy and s = ?s
        and w = ?w and r = r and e = e and l = l, OF c _ req(1) assms(2)] S l assms(4,6,7,10) req q
    by (fastforce simp: sys.env_def bstate_def)
  have up: "shared_bank sp lineBits domn lost p ?req Dummy ?s = Inr (resp, lost ?req ?s (set_recorder src (Some (rc_clear r)) (set_array ?n A ?s)\<lparr>weave := ?w\<rparr>),
      set_recorder src (Some (rc_clear r)) (set_array ?n A ?s)\<lparr>weave := ?w\<rparr>)"
    using run by (simp add: shared_bank_def del: invalidate_at.simps)
  have "src < length (recorders s)" using S assms(4) by (simp add: sys.env_def)
  then show ?thesis
    using up assms(5) off_caches_upd(3) [OF dummy_off, of ?n A ?s]
    by (simp add: issuePrefetch_def can_record_def Let_def set_recorder_def rc_clear_def rc_valid_def)
qed

theorem unrecorded_prefetch_drops_record_witness:
  "\<exists>(s :: (unit MemCtrl) sys) e resp invs s'. recorders s ! 0 = Some (slot_rec e) \<and>
     issuePrefetch (\<lambda>_. None) (shared_bank tiny 6 0 (\<lambda>_ _ _. [])) 0 0x40 0 9 0 s = Inr (resp, invs, False, s') \<and>
     recorders s' ! 0 = Some (rc_clear (slot_rec e))"
proof -
  obtain s :: "(unit MemCtrl) sys" and e where s: "waiting_ok 2 tiny s" "line_state 2 s 0x40 \<noteq> I" "recorders s ! 0 = Some (slot_rec e)"
     "te_state (events (weave s) ! e) = EV_NONE" "te_numParents (events (weave s) ! e) = 0" "te_domain (events (weave s) ! e) = 0"
    using tiny_recorded by blast
  have "line_state (sp_cores tiny) s 0x40 \<noteq> I" "te_domain (events (weave s) ! e) \<noteq> - 1" using s by (simp_all add: tiny_def)
  from unrecorded_prefetch_drops_record [OF s(1) _ this(1) _ _ s(3) _ s(4,5) this(2), of "\<lambda>_. None" 6 0 "\<lambda>_ _ _. []" 0 0 9] s(3)
  show ?thesis by (fastforce simp: succeeds_iff slot_rec_def)
qed

end
