(* ===== verification/Ramulator2_System.thy ===== *)
theory Ramulator2_System
  imports Complex_Main Mem_Ctrl
begin

text \<open>
  The memory system of Ramulator 2 as the shipped configuration builds it
  (\<open>ramulator2_config.yaml\<close>): \<open>GenericDRAMSystem\<close>, \<open>GenericDRAMController\<close>, the \<open>FRFCFS\<close> scheduler,
  \<open>AllBankRefresh\<close>, and the wrapper the simulator calls. \<open>OpenRowPolicy\<close> does nothing and there are no
  plugins. The DRAM device, a tree of state machines behind six functions, is an argument, and so is
  the address mapping: what is proved holds for all devices.
\<close>

section \<open>Requests\<close>

text \<open>
  Types are 0 for a read, 1 for a write, and others for maintenance. \<open>q_callback\<close> says whether a
  callback is set, \<open>q_prefetch\<close> is the first word of the scratchpad.
\<close>

record R2Request =
  q_addr :: addr
  q_addr_vec :: "int list"
  q_type :: int
  q_source :: int
  q_command :: int
  q_final :: int
  q_stat_updated :: bool
  q_arrive :: int
  q_depart :: int
  q_prefetch :: bool
  q_callback :: bool

definition r2_request :: "addr \<Rightarrow> int \<Rightarrow> int \<Rightarrow> R2Request" where
  "r2_request a t src =
     \<lparr>q_addr = a, q_addr_vec = [], q_type = t, q_source = src, q_command = - 1, q_final = - 1, q_stat_updated = False,
      q_arrive = - 1, q_depart = - 1, q_prefetch = False, q_callback = True\<rparr>"

definition r2_maintenance :: "int list \<Rightarrow> int \<Rightarrow> R2Request" where
  "r2_maintenance av t =
     \<lparr>q_addr = - 1, q_addr_vec = av, q_type = t, q_source = - 1, q_command = - 1, q_final = - 1, q_stat_updated = False,
      q_arrive = - 1, q_depart = - 1, q_prefetch = False, q_callback = False\<rparr>"

text \<open>The buffers take one request more than their size.\<close>

definition rb_enqueue :: "nat \<Rightarrow> R2Request \<Rightarrow> R2Request list \<Rightarrow> R2Request list option" where
  "rb_enqueue max_size q buf = (if length buf \<le> max_size then Some (buf @ [q]) else None)"

definition rb_remove :: "nat \<Rightarrow> R2Request list \<Rightarrow> R2Request list" where
  "rb_remove i buf = take i buf @ drop (Suc i) buf"

section \<open>The device\<close>

record 'd R2Device =
  get_preq_command :: "int \<Rightarrow> int list \<Rightarrow> 'd \<Rightarrow> int"
  check_ready :: "int \<Rightarrow> int list \<Rightarrow> 'd \<Rightarrow> bool"
  check_rowbuffer_hit :: "int \<Rightarrow> int list \<Rightarrow> 'd \<Rightarrow> bool"
  check_node_open :: "int \<Rightarrow> int list \<Rightarrow> 'd \<Rightarrow> bool"
  issue_command :: "int \<Rightarrow> int list \<Rightarrow> 'd \<Rightarrow> 'd"
  device_tick :: "'d \<Rightarrow> 'd"
  is_opening :: "int \<Rightarrow> bool"
  is_closing :: "int \<Rightarrow> bool"
  request_translations :: "int \<Rightarrow> int"
  read_latency :: int
  bank_level :: nat
  org_levels :: nat
  nREFI :: int
  num_ranks :: nat
  all_bank_refresh :: int

section \<open>The state of a controller\<close>

record R2Stats =
  s_row_hits :: nat
  s_row_misses :: nat
  s_row_conflicts :: nat
  s_read_row_hits :: nat
  s_read_row_misses :: nat
  s_read_row_conflicts :: nat
  s_write_row_hits :: nat
  s_write_row_misses :: nat
  s_write_row_conflicts :: nat
  s_read_row_hits_per_core :: "nat list"
  s_read_row_misses_per_core :: "nat list"
  s_read_row_conflicts_per_core :: "nat list"
  s_num_read_reqs :: nat
  s_num_write_reqs :: nat
  s_num_other_reqs :: nat
  s_queue_len :: nat
  s_read_queue_len :: nat
  s_write_queue_len :: nat
  s_priority_queue_len :: nat
  s_read_latency :: int

record R2Controller =
  r2_clk :: int
  r2_pending :: "R2Request list"
  r2_active :: "R2Request list"
  r2_priority :: "R2Request list"
  r2_read :: "R2Request list"
  r2_write :: "R2Request list"
  r2_write_mode :: bool
  r2_channel :: int
  ref_clk :: int
  ref_next :: int
  r2_stats :: R2Stats

text \<open>The watermarks of the write mode, 0.2 and 0.8 by default.\<close>

record R2Params =
  wr_low_watermark :: rat
  wr_high_watermark :: rat

definition r2_new_stats :: "nat \<Rightarrow> R2Stats" where
  "r2_new_stats cores =
     \<lparr>s_row_hits = 0, s_row_misses = 0, s_row_conflicts = 0, s_read_row_hits = 0, s_read_row_misses = 0, s_read_row_conflicts = 0,
      s_write_row_hits = 0, s_write_row_misses = 0, s_write_row_conflicts = 0, s_read_row_hits_per_core = replicate cores 0,
      s_read_row_misses_per_core = replicate cores 0, s_read_row_conflicts_per_core = replicate cores 0, s_num_read_reqs = 0,
      s_num_write_reqs = 0, s_num_other_reqs = 0, s_queue_len = 0, s_read_queue_len = 0, s_write_queue_len = 0,
      s_priority_queue_len = 0, s_read_latency = 0\<rparr>"

definition r2_new_controller :: "'d R2Device \<Rightarrow> nat \<Rightarrow> int \<Rightarrow> R2Controller" where
  "r2_new_controller dev cores channel =
     \<lparr>r2_clk = 0, r2_pending = [], r2_active = [], r2_priority = [], r2_read = [], r2_write = [], r2_write_mode = False,
      r2_channel = channel, ref_clk = 0, ref_next = nREFI dev, r2_stats = r2_new_stats cores\<rparr>"

definition buffer_size :: nat where "buffer_size = 32"

definition priority_size :: nat where "priority_size = 512 * 3 + 32"

section \<open>Sending\<close>

definition count_send :: "int \<Rightarrow> R2Stats \<Rightarrow> R2Stats" where
  "count_send t s =
     (if t = 0 then s\<lparr>s_num_read_reqs := s_num_read_reqs s + 1\<rparr>
      else if t = 1 then s\<lparr>s_num_write_reqs := s_num_write_reqs s + 1\<rparr>
      else s\<lparr>s_num_other_reqs := s_num_other_reqs s + 1\<rparr>)"

definition r2_send :: "'d R2Device \<Rightarrow> R2Request \<Rightarrow> R2Controller \<Rightarrow> (bool \<times> R2Controller) res" where
  "r2_send dev q0 c0 =
     (let q = q0\<lparr>q_final := request_translations dev (q_type q0)\<rparr>;
          c = c0\<lparr>r2_stats := count_send (q_type q) (r2_stats c0)\<rparr>
      in if q_type q = 0 \<and> (\<exists>w\<in>set (r2_write c). q_addr w = q_addr q) then
           Inr (True, c\<lparr>r2_pending := r2_pending c @ [q\<lparr>q_depart := r2_clk c + 1\<rparr>]\<rparr>)
         else
           (let q1 = q\<lparr>q_arrive := r2_clk c\<rparr> in
            if q_type q = 0 then
              (case rb_enqueue buffer_size q1 (r2_read c) of None \<Rightarrow> Inr (False, c) | Some b \<Rightarrow> Inr (True, c\<lparr>r2_read := b\<rparr>))
            else if q_type q = 1 then
              (case rb_enqueue buffer_size q1 (r2_write c) of None \<Rightarrow> Inr (False, c) | Some b \<Rightarrow> Inr (True, c\<lparr>r2_write := b\<rparr>))
            else Inl (Panicked ''Invalid request type!'')))"

definition priority_send :: "'d R2Device \<Rightarrow> R2Request \<Rightarrow> R2Controller \<Rightarrow> bool \<times> R2Controller" where
  "priority_send dev q0 c =
     (let q = q0\<lparr>q_final := request_translations dev (q_type q0)\<rparr>
      in case rb_enqueue priority_size q (r2_priority c) of
           None \<Rightarrow> (False, c)
         | Some b \<Rightarrow> (True, c\<lparr>r2_priority := b\<rparr>))"

section \<open>Refresh\<close>

definition refresh_vec :: "'d R2Device \<Rightarrow> int \<Rightarrow> nat \<Rightarrow> int list" where
  "refresh_vec dev channel r = (replicate (org_levels dev) (- 1))[0 := channel, 1 := int r]"

definition refresh_failed :: zerr where "refresh_failed = Panicked ''Failed to send refresh!''"

fun send_refreshes :: "'d R2Device \<Rightarrow> nat list \<Rightarrow> R2Controller \<Rightarrow> R2Controller res" where
  "send_refreshes dev [] c = Inr c"
| "send_refreshes dev (r # rs) c =
     (case priority_send dev (r2_maintenance (refresh_vec dev (r2_channel c) r) (all_bank_refresh dev)) c of
        (ok, c1) \<Rightarrow> require ok refresh_failed (send_refreshes dev rs c1))"

definition refresh_tick :: "'d R2Device \<Rightarrow> R2Controller \<Rightarrow> R2Controller res" where
  "refresh_tick dev c0 =
     (let c = c0\<lparr>ref_clk := ref_clk c0 + 1\<rparr> in
      if ref_clk c = ref_next c then send_refreshes dev [0..<num_ranks dev] (c\<lparr>ref_next := ref_next c + nREFI dev\<rparr>)
      else Inr c)"

section \<open>Scheduling\<close>

text \<open>First ready, first come: the commands of the whole buffer are brought up to date first.\<close>

definition frfcfs_compare :: "'d R2Device \<Rightarrow> 'd \<Rightarrow> R2Request list \<Rightarrow> nat \<Rightarrow> nat \<Rightarrow> nat" where
  "frfcfs_compare dev d buf i j =
     (let ready1 = check_ready dev (q_command (buf ! i)) (q_addr_vec (buf ! i)) d;
          ready2 = check_ready dev (q_command (buf ! j)) (q_addr_vec (buf ! j)) d
      in if ready1 \<noteq> ready2 then (if ready1 then i else j)
         else if q_arrive (buf ! i) \<le> q_arrive (buf ! j) then i else j)"

definition set_command :: "'d R2Device \<Rightarrow> 'd \<Rightarrow> R2Request \<Rightarrow> R2Request" where
  "set_command dev d q = q\<lparr>q_command := get_preq_command dev (q_final q) (q_addr_vec q) d\<rparr>"

definition get_best_request :: "'d R2Device \<Rightarrow> 'd \<Rightarrow> R2Request list \<Rightarrow> nat option \<times> R2Request list" where
  "get_best_request dev d buf =
     (let buf1 = map (set_command dev d) buf
      in if buf = [] then (None, buf)
         else (Some (foldl (frfcfs_compare dev d buf1) 0 [1..<length buf1]), buf1))"

definition set_write_mode :: "R2Params \<Rightarrow> R2Controller \<Rightarrow> R2Controller" where
  "set_write_mode p c =
     (if \<not> r2_write_mode c then
        (if of_nat (length (r2_write c)) > wr_high_watermark p * of_nat buffer_size \<or> r2_read c = []
         then c\<lparr>r2_write_mode := True\<rparr> else c)
      else
        (if of_nat (length (r2_write c)) < wr_low_watermark p * of_nat buffer_size \<and> r2_read c \<noteq> []
         then c\<lparr>r2_write_mode := False\<rparr> else c))"

datatype R2Buf = BActive | BPriority | BRead | BWrite

primrec get_buf :: "R2Buf \<Rightarrow> R2Controller \<Rightarrow> R2Request list" where
  "get_buf BActive c = r2_active c"
| "get_buf BPriority c = r2_priority c"
| "get_buf BRead c = r2_read c"
| "get_buf BWrite c = r2_write c"

primrec set_buf :: "R2Buf \<Rightarrow> R2Request list \<Rightarrow> R2Controller \<Rightarrow> R2Controller" where
  "set_buf BActive b c = c\<lparr>r2_active := b\<rparr>"
| "set_buf BPriority b c = c\<lparr>r2_priority := b\<rparr>"
| "set_buf BRead b c = c\<lparr>r2_read := b\<rparr>"
| "set_buf BWrite b c = c\<lparr>r2_write := b\<rparr>"

text \<open>The best request of a buffer, if it is ready.\<close>

definition try_buffer :: "'d R2Device \<Rightarrow> 'd \<Rightarrow> R2Buf \<Rightarrow> R2Controller \<Rightarrow> (R2Buf \<times> nat) option \<times> R2Controller" where
  "try_buffer dev d b c =
     (let (best, buf) = get_best_request dev d (get_buf b c); c1 = set_buf b buf c
      in case best of
           None \<Rightarrow> (None, c1)
         | Some i \<Rightarrow> (if check_ready dev (q_command (buf ! i)) (q_addr_vec (buf ! i)) d then Some (b, i) else None, c1))"

text \<open>Whether a request would close a row that a request of the active buffer has opened.\<close>

definition same_rows :: "'d R2Device \<Rightarrow> int list \<Rightarrow> int list \<Rightarrow> bool" where
  "same_rows dev u v \<longleftrightarrow> (\<forall>i\<in>set [0..<bank_level dev + 1]. u ! i = v ! i \<or> u ! i = - 1 \<or> v ! i = - 1)"

definition schedule_request :: "R2Params \<Rightarrow> 'd R2Device \<Rightarrow> 'd \<Rightarrow> R2Controller \<Rightarrow> (R2Buf \<times> nat) option \<times> R2Controller" where
  "schedule_request p dev d c =
     (let (found, c1) = try_buffer dev d BActive c;
          (found2, c2) =
            (if found \<noteq> None then (found, c1)
             else if r2_priority c1 \<noteq> [] then
               (let q = set_command dev d (hd (r2_priority c1)); c2 = c1\<lparr>r2_priority := (r2_priority c1)[0 := q]\<rparr>
                in (if check_ready dev (q_command q) (q_addr_vec q) d then Some (BPriority, 0) else None, c2))
             else (let c2 = set_write_mode p c1 in try_buffer dev d (if r2_write_mode c2 then BWrite else BRead) c2))
      in case found2 of
           None \<Rightarrow> (None, c2)
         | Some (b, i) \<Rightarrow>
             (let q = get_buf b c2 ! i in
              (if is_closing dev (q_command q) \<and> (\<exists>r\<in>set (r2_active c2). same_rows dev (q_addr_vec r) (q_addr_vec q))
               then None else Some (b, i), c2)))"

section \<open>Statistics\<close>

definition count_at :: "int \<Rightarrow> nat list \<Rightarrow> nat list" where
  "count_at src xs = (if src \<noteq> - 1 then xs[nat src := xs ! nat src + 1] else xs)"

definition update_request_stats :: "'d R2Device \<Rightarrow> 'd \<Rightarrow> R2Request \<Rightarrow> R2Stats \<Rightarrow> R2Stats res" where
  "update_request_stats dev d q s =
     (let hit = check_rowbuffer_hit dev (q_final q) (q_addr_vec q) d;
          opened = check_node_open dev (q_final q) (q_addr_vec q) d;
          src = q_source q
      in if q_type q = 0 then
           require (src = - 1 \<or> 0 \<le> src \<and> nat src < length (s_read_row_hits_per_core s)) (Undefined ''source_id'')
             (Inr (if hit then s\<lparr>s_read_row_hits := s_read_row_hits s + 1, s_row_hits := s_row_hits s + 1,
                        s_read_row_hits_per_core := count_at src (s_read_row_hits_per_core s)\<rparr>
                   else if opened then s\<lparr>s_read_row_conflicts := s_read_row_conflicts s + 1, s_row_conflicts := s_row_conflicts s + 1,
                        s_read_row_conflicts_per_core := count_at src (s_read_row_conflicts_per_core s)\<rparr>
                   else s\<lparr>s_read_row_misses := s_read_row_misses s + 1, s_row_misses := s_row_misses s + 1,
                        s_read_row_misses_per_core := count_at src (s_read_row_misses_per_core s)\<rparr>))
         else if q_type q = 1 then
           Inr (if hit then s\<lparr>s_write_row_hits := s_write_row_hits s + 1, s_row_hits := s_row_hits s + 1\<rparr>
                else if opened then s\<lparr>s_write_row_conflicts := s_write_row_conflicts s + 1, s_row_conflicts := s_row_conflicts s + 1\<rparr>
                else s\<lparr>s_write_row_misses := s_write_row_misses s + 1, s_row_misses := s_row_misses s + 1\<rparr>)
         else Inr s)"

definition count_queues :: "R2Controller \<Rightarrow> R2Stats" where
  "count_queues c =
     (let s = r2_stats c in
      s\<lparr>s_queue_len := s_queue_len s + (length (r2_read c) + length (r2_write c) + length (r2_priority c) + length (r2_pending c)),
        s_read_queue_len := s_read_queue_len s + (length (r2_read c) + length (r2_pending c)),
        s_write_queue_len := s_write_queue_len s + length (r2_write c),
        s_priority_queue_len := s_priority_queue_len s + length (r2_priority c)\<rparr>)"

section \<open>A tick\<close>

text \<open>The first pending read, if its data have arrived; the result lists the request that is called back.\<close>

definition serve_completed_reads :: "R2Controller \<Rightarrow> R2Request list \<times> R2Controller" where
  "serve_completed_reads c =
     (case r2_pending c of
        [] \<Rightarrow> ([], c)
      | q # qs \<Rightarrow>
          if q_depart q \<le> r2_clk c then
            (let s = r2_stats c;
                 s1 = (if q_depart q - q_arrive q > 1 then s\<lparr>s_read_latency := s_read_latency s + (q_depart q - q_arrive q)\<rparr> else s)
             in (if q_callback q then [q] else [], c\<lparr>r2_pending := qs, r2_stats := s1\<rparr>))
          else ([], c))"

text \<open>A scheduled request issues its command, and leaves its buffer or waits in the active one.\<close>

definition r2_issue :: "'d R2Device \<Rightarrow> R2Buf \<Rightarrow> nat \<Rightarrow> R2Controller \<Rightarrow> 'd \<Rightarrow> (R2Controller \<times> 'd) res" where
  "r2_issue dev b i c d =
     (let q = get_buf b c ! i in
      bindR (if q_stat_updated q then Inr (r2_stats c) else update_request_stats dev d q (r2_stats c)) (\<lambda>s.
        let q1 = q\<lparr>q_stat_updated := True\<rparr>;
            c1 = set_buf b ((get_buf b c)[i := q1]) (c\<lparr>r2_stats := s\<rparr>);
            d1 = issue_command dev (q_command q1) (q_addr_vec q1) d
        in if q_command q1 = q_final q1 then
             (let c2 = (if q_type q1 = 0 then c1\<lparr>r2_pending := r2_pending c1 @ [q1\<lparr>q_depart := r2_clk c1 + read_latency dev\<rparr>]\<rparr> else c1)
              in Inr (set_buf b (rb_remove i (get_buf b c2)) c2, d1))
           else if is_opening dev (q_command q1) then
             (case rb_enqueue buffer_size q1 (r2_active c1) of
                None \<Rightarrow> Inr (c1, d1)
              | Some a \<Rightarrow> (let c2 = c1\<lparr>r2_active := a\<rparr> in Inr (set_buf b (rb_remove i (get_buf b c2)) c2, d1)))
           else Inr (c1, d1)))"

definition r2_tick :: "R2Params \<Rightarrow> 'd R2Device \<Rightarrow> R2Controller \<Rightarrow> 'd \<Rightarrow> (R2Request list \<times> R2Controller \<times> 'd) res" where
  "r2_tick p dev c d =
     (let c1 = c\<lparr>r2_clk := r2_clk c + 1\<rparr>;
          c2 = c1\<lparr>r2_stats := count_queues c1\<rparr>;
          (called, c3) = serve_completed_reads c2
      in bindR (refresh_tick dev c3) (\<lambda>c4.
           case schedule_request p dev d c4 of
             (None, c5) \<Rightarrow> Inr (called, c5, d)
           | (Some (b, i), c5) \<Rightarrow> bindR (r2_issue dev b i c5 d) (\<lambda>(c6, d1). Inr (called, c6, d1))))"

section \<open>The memory system and its wrapper\<close>

record 'd R2System =
  m_clk :: nat
  m_dram :: 'd
  m_controllers :: "R2Controller list"
  s_num_read_requests :: nat
  s_num_write_requests :: nat
  s_num_other_requests :: nat
  current_tick :: nat

definition r2_new_system :: "'d R2Device \<Rightarrow> nat \<Rightarrow> nat \<Rightarrow> 'd \<Rightarrow> 'd R2System" where
  "r2_new_system dev cores channels d =
     \<lparr>m_clk = 0, m_dram = d, m_controllers = map (\<lambda>i. r2_new_controller dev cores (int i)) [0..<channels],
      s_num_read_requests = 0, s_num_write_requests = 0, s_num_other_requests = 0, current_tick = 0\<rparr>"

definition system_send :: "'d R2Device \<Rightarrow> (addr \<Rightarrow> int list) \<Rightarrow> R2Request \<Rightarrow> 'd R2System \<Rightarrow> (bool \<times> 'd R2System) res" where
  "system_send dev mapper q s =
     (let q1 = q\<lparr>q_addr_vec := mapper (q_addr q)\<rparr>; ch = q_addr_vec q1 ! 0 in
      require (0 \<le> ch \<and> nat ch < length (m_controllers s)) (Undefined ''m_controllers'')
        (bindR (r2_send dev q1 (m_controllers s ! nat ch)) (\<lambda>(ok, c).
           let s1 = s\<lparr>m_controllers := (m_controllers s)[nat ch := c]\<rparr>
           in Inr (ok,
             if \<not> ok then s1
             else if q_type q = 0 then s1\<lparr>s_num_read_requests := s_num_read_requests s1 + 1\<rparr>
             else if q_type q = 1 then s1\<lparr>s_num_write_requests := s_num_write_requests s1 + 1\<rparr>
             else s1\<lparr>s_num_other_requests := s_num_other_requests s1 + 1\<rparr>))))"

fun tick_controllers ::
  "R2Params \<Rightarrow> 'd R2Device \<Rightarrow> R2Controller list \<Rightarrow> 'd \<Rightarrow> (R2Request list \<times> R2Controller list \<times> 'd) res" where
  "tick_controllers p dev [] d = Inr ([], [], d)"
| "tick_controllers p dev (c # cs) d =
     bindR (r2_tick p dev c d) (\<lambda>(called, c1, d1).
     bindR (tick_controllers p dev cs d1) (\<lambda>(called2, cs1, d2). Inr (called @ called2, c1 # cs1, d2)))"

definition system_tick :: "R2Params \<Rightarrow> 'd R2Device \<Rightarrow> 'd R2System \<Rightarrow> (R2Request list \<times> 'd R2System) res" where
  "system_tick p dev s =
     bindR (tick_controllers p dev (m_controllers s) (device_tick dev (m_dram s))) (\<lambda>(called, cs, d).
       Inr (called, s\<lparr>m_clk := m_clk s + 1, m_dram := d, m_controllers := cs\<rparr>))"

definition wrapper_tick :: "R2Params \<Rightarrow> 'd R2Device \<Rightarrow> 'd R2System \<Rightarrow> (R2Request list \<times> 'd R2System) res" where
  "wrapper_tick p dev s = system_tick p dev (s\<lparr>current_tick := current_tick s + 1\<rparr>)"

end
