(* ===== verification/Ramulator2_Ctrl.thy ===== *)
theory Ramulator2_Ctrl
  imports Dramsim3_Ctrl
begin

text \<open>
  \<open>Ramulator2\<close> (\<open>ramulator2_mem_ctrl.cpp\<close>): the controller that feeds the accesses of the weave
  phase to Ramulator 2. Its state is the one of \<open>Mem_Ctrl\<close>; reads are in flight until the simulator
  calls back, writes are complete once they are sent. The attached simulator is the argument \<open>be\<close>.
\<close>

section \<open>The attached simulator\<close>

text \<open>
  The calls on the wrapper: \<open>r2ops_send\<close> takes the address, whether it is a write, the core, and the
  prefetch mark, and tells whether the request is taken; a tick returns the address and the core of
  the reads that are called back.
\<close>

record 'b r2_ops =
  r2ops_send :: "addr \<Rightarrow> bool \<Rightarrow> nat \<Rightarrow> bool \<Rightarrow> 'b \<Rightarrow> (bool \<times> 'b) res"
  r2ops_tick :: "'b \<Rightarrow> ((addr \<times> nat) list \<times> 'b) res"

text \<open>A call that may fail in one way, \<open>e\<close>, and only if \<open>B\<close>.\<close>

definition unless_refused :: "zerr \<Rightarrow> bool \<Rightarrow> 'a res \<Rightarrow> ('a \<Rightarrow> bool) \<Rightarrow> bool" where
  "unless_refused e B r Q \<longleftrightarrow> (case r of Inl e' \<Rightarrow> B \<and> e' = e | Inr x \<Rightarrow> Q x)"

lemma unless_refused_simps [simp]:
  "unless_refused e B (Inr x) Q = Q x" "unless_refused e B (Inl e') Q = (B \<and> e' = e)"
  "unless_refused e B (bindR r f) Q = unless_refused e B r (\<lambda>x. unless_refused e B (f x) Q)"
  by (auto simp: unless_refused_def bindR_def split: sum.splits)

lemma unless_refused_mono:
  "unless_refused e B r P \<Longrightarrow> (B \<Longrightarrow> B') \<Longrightarrow> (\<And>x. P x \<Longrightarrow> Q x) \<Longrightarrow> unless_refused e B' r Q"
  by (auto simp: unless_refused_def split: sum.splits)

lemma unless_refused_succeeds: "succeeds r Q \<Longrightarrow> unless_refused e B r Q"
  by (auto simp: succeeds_iff)

lemma unless_refused_cases:
  assumes "unless_refused e B r Q"
  obtains "r = Inl e" B | x where "r = Inr x" "Q x"
  using assms by (cases r) auto

text \<open>
  What the controller relies on: a read that is sent is owed, sending never fails, and a tick calls
  back owed reads only and once for each. The simulator may give up in a tick, but not in the next
  \<open>k\<close> ones when \<open>binv k\<close>.
\<close>

locale callback_backend =
  fixes be :: "'b r2_ops"
    and binv :: "nat \<Rightarrow> 'b \<Rightarrow> bool"
    and owed :: "'b \<Rightarrow> (addr \<times> nat) multiset"
    and n :: nat
    and err :: zerr
  assumes send_ok: "binv k b \<Longrightarrow> c < n \<Longrightarrow> succeeds (r2ops_send be a w c p b) (\<lambda>(ok, b'). binv k b' \<and>
      owed b' = owed b + (if ok \<and> \<not> w then {#(a, c)#} else {#}))"
    and tick_ok: "binv k b \<Longrightarrow> unless_refused err (k = 0) (r2ops_tick be b) (\<lambda>(called, b').
      binv (k - 1) b' \<and> owed b = mset called + owed b')"
    and fewer: "binv k b \<Longrightarrow> binv (k - 1) b"

section \<open>Bound phase\<close>

text \<open>The fields that this controller does not have stay at their first values.\<close>

definition Ramulator2_new ::
  "MemLatencyEstimator list \<Rightarrow> nat list \<Rightarrow> nat \<Rightarrow> nat \<Rightarrow> nat \<Rightarrow> 'b \<Rightarrow> 'b MemCtrl res" where
  "Ramulator2_new ests trackedCores numCpus cpuPsClk dramPsClk b =
     require (cpuPsClk < dramPsClk) (AssertFail ''cpuPsPerClk < dramPsPerClk'')
       (Inr \<lparr>estimators = ests, wrapper = b, inflightRequests = [], notQueuedRequests = [],
             clock = new_clock cpuPsClk dramPsClk, is_bound_phase = False, mstats = zero_stats,
             lstFinished = 0, coreTracker = configure trackedCores numCpus new_tracker,
             completions = []\<rparr>)"

definition ramulator2_access ::
  "nat \<Rightarrow> bool \<Rightarrow> MemReq \<Rightarrow> 'b MemCtrl \<Rightarrow> (nat \<times> MESIState \<times> TimingRecord option \<times> 'b MemCtrl) res" where
  "ramulator2_access lineBits hasRec req m =
     (let m1 = start_bound_phase m in
      bindR (record_access lineBits hasRec req m1) (\<lambda>(respCycle, tr). Inr (respCycle, granted_state req, tr, m1)))"

section \<open>Weave phase\<close>

text \<open>The address of a request, without the sign bit.\<close>

definition r2_addr :: "AccEvent \<Rightarrow> addr" where
  "r2_addr e = ae_addr e AND 0x7fffffffffffffff"

text \<open>
  What \<open>enqueue\<close> and \<open>pushInFlights\<close> both do with an event whose request was taken: a read goes in
  flight, a write is released and done.
\<close>

definition r2_issued :: "AccEvent \<Rightarrow> 'b MemCtrl \<Rightarrow> 'b MemCtrl res" where
  "r2_issued e m =
     (let k = clock m;
          e1 = e\<lparr>issueCycle := curCycle k, dramIssueCycle := dramCycle k\<rparr>;
          m1 = m\<lparr>coreTracker := recordIssue (ae_coreid e1) (issueCycle e1) (sCycle e1) (ae_write e1) (coreTracker m)\<rparr>
      in if \<not> ae_write e1 then
           Inr (m1\<lparr>inflightRequests := mm_insert (r2_addr e1) e1 (inflightRequests m1)\<rparr>)
         else
           require (ev_state e1 = EV_HELD) (AssertFail ''release'')
             (Inr (m1\<lparr>mstats := (mstats m1)\<lparr>profWrites := profWrites (mstats m1) + 1\<rparr>,
                coreTracker := recordComplete (ae_coreid e1) (sub64 (curCycle k + 1) (sCycle e1))
                  (sub64 (curCycle k + 1) (issueCycle e1)) True (coreTracker m1),
                completions := completions m1 @ [(e1\<lparr>ev_state := EV_DONE\<rparr>, curCycle k + 1)]\<rparr>)))"

definition ramulator2_enqueue :: "'b r2_ops \<Rightarrow> AccEvent \<Rightarrow> 'b MemCtrl \<Rightarrow> 'b MemCtrl res" where
  "ramulator2_enqueue be e0 m =
     require (ev_state e0 = EV_RUNNING) (AssertFail ''hold'')
       (let e = e0\<lparr>ev_state := EV_HELD\<rparr>;
            m0 = (if is_bound_phase m then m\<lparr>is_bound_phase := False\<rparr> else m)
        in bindR (r2ops_send be (r2_addr e) (ae_write e) (ae_coreid e) (ae_prefetch e) (wrapper m0)) (\<lambda>(ok, b).
             let m1 = m0\<lparr>wrapper := b\<rparr> in
             if \<not> ok then
               Inr (m1\<lparr>notQueuedRequests := notQueuedRequests m1 @ [e],
                       mstats := (mstats m1)\<lparr>reissuedAccesses := reissuedAccesses (mstats m1) + 1\<rparr>\<rparr>)
             else r2_issued e m1))"

definition ramulator2_simulate ::
  "'b r2_ops \<Rightarrow> nat \<Rightarrow> AccEvent \<Rightarrow> 'b MemCtrl \<Rightarrow> 'b MemCtrl res" where
  "ramulator2_simulate be startCycle e m =
     ramulator2_enqueue be (e\<lparr>sCycle := startCycle, issueCycle := startCycle\<rparr>) m"

text \<open>The search of \<open>onReadComplete\<close>: the first event of the address and core, or else the end of the range of the address.\<close>

definition range_end :: "'k::linorder \<Rightarrow> ('k, 'v) multimap \<Rightarrow> nat" where
  "range_end a q = length (takeWhile (\<lambda>p. fst p \<le> a) q)"

definition find_read :: "addr \<Rightarrow> nat \<Rightarrow> (addr, AccEvent) multimap \<Rightarrow> nat" where
  "find_read a c q =
     (case find (\<lambda>i. fst (q ! i) = a \<and> ae_coreid (snd (q ! i)) = c) [0..<length q] of
        Some i \<Rightarrow> i | None \<Rightarrow> range_end a q)"

text \<open>The error of the estimate in percent, on 32 bits.\<close>

definition abs_err32 :: "u32 \<Rightarrow> u32 \<Rightarrow> u32" where
  "abs_err32 lat bound = (100 * (if lat > bound then lat - bound else bound - lat)) div lat"

definition count_read :: "u32 \<Rightarrow> u32 \<Rightarrow> MemStats \<Rightarrow> MemStats" where
  "count_read lat bound s =
     s\<lparr>profReads := profReads s + 1, profTotalRdLat := profTotalRdLat s + unat lat,
       profTotalRdLatBound := profTotalRdLatBound s + unat bound,
       profTotalAbsError := profTotalAbsError s + unat (abs_err32 lat bound),
       profTotalAbsErrorCounter := profTotalAbsErrorCounter s + 1\<rparr>"

definition ramulator2_onReadComplete :: "addr \<times> nat \<Rightarrow> 'b MemCtrl \<Rightarrow> 'b MemCtrl res" where
  "ramulator2_onReadComplete ac m =
     (let (a, c) = ac; i = find_read a c (inflightRequests m) in
      require (i < length (inflightRequests m)) (Panicked ''unexpected request'')
        (let e = snd (inflightRequests m ! i);
             cur = curCycle (clock m);
             lat = of_nat (sub64 (cur + 1) (sCycle e)) :: u32
         in require (lat \<noteq> 0) (Undefined ''absErr /= lat'')
           (require (c < length (estimators m)) (Undefined ''estimators'')
             (require (ev_state e = EV_HELD) (AssertFail ''release'')
               (Inr (m\<lparr>mstats := count_read lat (boundLatency e) (mstats m),
                       estimators := learn c lat (estimators m),
                       coreTracker := recordComplete (ae_coreid e) (unat lat)
                         (sub64 (cur + 1) (issueCycle e)) False (coreTracker m),
                       completions := completions m @ [(e\<lparr>ev_state := EV_DONE\<rparr>, cur + 1)],
                       inflightRequests := mm_erase i (inflightRequests m)\<rparr>))))))"

fun r2_callbacks :: "(addr \<times> nat) list \<Rightarrow> 'b MemCtrl \<Rightarrow> 'b MemCtrl res" where
  "r2_callbacks [] m = Inr m"
| "r2_callbacks (a # as) m = bindR (ramulator2_onReadComplete a m) (r2_callbacks as)"

text \<open>
  The loop of \<open>pushInFlights\<close>: events of a later cycle are passed over and are no tries.
\<close>

fun r2_push_loop ::
  "'b r2_ops \<Rightarrow> nat \<Rightarrow> AccEvent list \<Rightarrow> 'b MemCtrl \<Rightarrow> (AccEvent list \<times> 'b MemCtrl) res" where
  "r2_push_loop be tries [] m = Inr ([], m)"
| "r2_push_loop be tries (e # es) m =
     (if sCycle e > curCycle (clock m) then
        bindR (r2_push_loop be tries es m) (\<lambda>(r, m'). Inr (e # r, m'))
      else if tries = 8 then Inr (e # es, m)
      else bindR (r2ops_send be (r2_addr e) (ae_write e) (ae_coreid e) (ae_prefetch e) (wrapper m)) (\<lambda>(ok, b).
        let m1 = m\<lparr>wrapper := b\<rparr> in
        if ok then
          bindR (r2_issued e
                  (if \<not> ae_write e then m1\<lparr>mstats := (mstats m1)\<lparr>profTotalSkewLat :=
                      profTotalSkewLat (mstats m1) + sub64 (curCycle (clock m1)) (sCycle e)\<rparr>\<rparr> else m1))
            (r2_push_loop be (tries + 1) es)
        else bindR (r2_push_loop be (tries + 1) es m1) (\<lambda>(r, m'). Inr (e # r, m'))))"

definition r2_pushInFlights :: "'b r2_ops \<Rightarrow> 'b MemCtrl \<Rightarrow> 'b MemCtrl res" where
  "r2_pushInFlights be m =
     bindR (r2_push_loop be 0 (notQueuedRequests m) m) (\<lambda>(r, m'). Inr (m'\<lparr>notQueuedRequests := r\<rparr>))"

definition ramulator2_tick :: "'b r2_ops \<Rightarrow> nat \<Rightarrow> 'b MemCtrl \<Rightarrow> (nat \<times> 'b MemCtrl) res" where
  "ramulator2_tick be procIdx m =
     (if procIdx \<noteq> 0 then Inr (1, m)
      else bindR (r2_pushInFlights be m) (\<lambda>m1.
        (let m2 = m1\<lparr>clock := cpu_step (clock m1)\<rparr> in
         bindR (if mem_behind (clock m2) then
                  bindR (r2ops_tick be (wrapper m2)) (\<lambda>(called, b).
                    bindR (r2_callbacks called (m2\<lparr>wrapper := b\<rparr>)) (\<lambda>m3.
                      Inr (m3\<lparr>clock := dram_step (clock m3)\<rparr>)))
                else Inr m2)
           (\<lambda>m4. Inr (1, m4\<lparr>clock := clock_reset (clock m4)\<rparr>)))))"

fun r2_ctrl_op :: "'b r2_ops \<Rightarrow> nat \<Rightarrow> CtrlOp \<Rightarrow> 'b MemCtrl \<Rightarrow> 'b MemCtrl res" where
  "r2_ctrl_op be lineBits (Access req hasRec) m =
     bindR (ramulator2_access lineBits hasRec req m) (\<lambda>(resp, st, tr, m'). Inr m')"
| "r2_ctrl_op be lineBits (Simulate e startCycle) m = ramulator2_simulate be startCycle e m"
| "r2_ctrl_op be lineBits Tick m = bindR (ramulator2_tick be 0 m) (\<lambda>(d, m'). Inr m')"

fun r2_ctrl_run :: "'b r2_ops \<Rightarrow> nat \<Rightarrow> CtrlOp list \<Rightarrow> 'b MemCtrl \<Rightarrow> 'b MemCtrl res" where
  "r2_ctrl_run be lineBits [] m = Inr m"
| "r2_ctrl_run be lineBits (x # xs) m = bindR (r2_ctrl_op be lineBits x m) (r2_ctrl_run be lineBits xs)"

section \<open>The invariant\<close>

text \<open>The latency of a write is not counted: it is complete when it is sent.\<close>

definition r2_stats_ok :: "(AccEvent \<times> nat) list \<Rightarrow> MemStats \<Rightarrow> bool" where
  "r2_stats_ok cs s \<longleftrightarrow> profReads s = length (reads_of cs) \<and> profWrites s = length (writes_of cs) \<and>
     profTotalRdLat s = total_lat (reads_of cs) \<and> profTotalWrLat s = 0 \<and>
     profTotalRdLatBound s = sum_list (map (\<lambda>p. unat (boundLatency (fst p))) (reads_of cs)) \<and>
     profTotalAbsErrorCounter s = profReads s"

definition read_key :: "addr \<times> AccEvent \<Rightarrow> addr \<times> nat" where
  "read_key p = (fst p, ae_coreid (snd p))"

definition read_flying :: "nat \<Rightarrow> nat \<Rightarrow> addr \<times> AccEvent \<Rightarrow> bool" where
  "read_flying n now p \<longleftrightarrow> fst p = r2_addr (snd p) \<and> \<not> ae_write (snd p) \<and> waiting_ok n now (snd p) \<and>
     sCycle (snd p) \<le> issueCycle (snd p) \<and> issueCycle (snd p) \<le> now"

text \<open>The part of the invariant apart from the simulator, given what that owes.\<close>

definition fly_inv :: "(addr \<times> nat) multiset \<Rightarrow> nat \<Rightarrow> nat \<Rightarrow> 'b MemCtrl \<Rightarrow> bool" where
  "fly_inv ow n now m \<longleftrightarrow> ow = mset (map read_key (inflightRequests m)) \<and>
     list_all (read_flying n now) (inflightRequests m) \<and> list_all (done_ok now) (completions m) \<and>
     r2_stats_ok (completions m) (mstats m) \<and> length (estimators m) = n"

definition r2_ctrl_inv ::
  "(nat \<Rightarrow> 'b \<Rightarrow> bool) \<Rightarrow> ('b \<Rightarrow> (addr \<times> nat) multiset) \<Rightarrow> nat \<Rightarrow> nat \<Rightarrow> 'b MemCtrl \<Rightarrow> bool" where
  "r2_ctrl_inv binv owed n k m \<longleftrightarrow> binv k (wrapper m) \<and> fly_inv (owed (wrapper m)) n (curCycle (clock m)) m \<and>
     list_all (waiting_ok n (curCycle (clock m))) (notQueuedRequests m) \<and> clock_ok (clock m)"

lemma fly_inv_later: "fly_inv ow n now m \<Longrightarrow> now \<le> now' \<Longrightarrow> fly_inv ow n now' m"
  unfolding fly_inv_def by (auto simp: list_all_iff read_flying_def intro: done_ok_mono waiting_ok_mono)

lemma fly_inv_frame [simp]:
  "fly_inv ow n now (m\<lparr>wrapper := b\<rparr>) = fly_inv ow n now m"
  "fly_inv ow n now (m\<lparr>clock := c\<rparr>) = fly_inv ow n now m"
  "fly_inv ow n now (m\<lparr>is_bound_phase := p\<rparr>) = fly_inv ow n now m"
  "fly_inv ow n now (m\<lparr>notQueuedRequests := r\<rparr>) = fly_inv ow n now m"
  "fly_inv ow n now (m\<lparr>coreTracker := t\<rparr>) = fly_inv ow n now m"
  "fly_inv ow n now (m\<lparr>mstats := (mstats m)\<lparr>profTotalSkewLat := x\<rparr>\<rparr>) = fly_inv ow n now m"
  "fly_inv ow n now (m\<lparr>mstats := (mstats m)\<lparr>reissuedAccesses := x\<rparr>\<rparr>) = fly_inv ow n now m"
  by (simp_all add: fly_inv_def r2_stats_ok_def)

lemma flying_keys_frame [simp]:
  "flying_keys (m\<lparr>wrapper := b\<rparr>) = flying_keys m" "flying_keys (m\<lparr>clock := c\<rparr>) = flying_keys m"
  "flying_keys (m\<lparr>is_bound_phase := p\<rparr>) = flying_keys m" "flying_keys (m\<lparr>notQueuedRequests := r\<rparr>) = flying_keys m"
  "flying_keys (m\<lparr>coreTracker := t\<rparr>) = flying_keys m" "flying_keys (m\<lparr>mstats := s\<rparr>) = flying_keys m"
  by (simp_all add: flying_keys_def)

lemma r2_addr_frame [simp]: "r2_addr (e\<lparr>issueCycle := x\<rparr>) = r2_addr e" "r2_addr (e\<lparr>dramIssueCycle := x\<rparr>) = r2_addr e"
  "r2_addr (e\<lparr>ev_state := s\<rparr>) = r2_addr e"
  by (simp_all add: r2_addr_def)

lemma stats_frame [simp]: "r2_stats_ok (cs @ [p]) s \<longleftrightarrow>
   (if ae_write (fst p) then 0 < profWrites s \<and> r2_stats_ok cs (s\<lparr>profWrites := profWrites s - 1\<rparr>)
    else 0 < profReads s \<and> 0 < profTotalAbsErrorCounter s \<and> snd p - sCycle (fst p) \<le> profTotalRdLat s \<and>
      unat (boundLatency (fst p)) \<le> profTotalRdLatBound s \<and>
      r2_stats_ok cs (s\<lparr>profReads := profReads s - 1, profTotalRdLat := profTotalRdLat s - (snd p - sCycle (fst p)),
        profTotalRdLatBound := profTotalRdLatBound s - unat (boundLatency (fst p)),
        profTotalAbsErrorCounter := profTotalAbsErrorCounter s - 1\<rparr>))"
  by (auto simp: r2_stats_ok_def reads_of_def writes_of_def total_lat_def)

lemma issued_ok:
  assumes "fly_inv ow n (curCycle (clock m)) m" "waiting_ok n (curCycle (clock m)) e"
  shows "succeeds (r2_issued e m) (\<lambda>m'.
    fly_inv (ow + (if ae_write e then {#} else {#(r2_addr e, ae_coreid e)#})) n (curCycle (clock m)) m' \<and>
    clock m' = clock m \<and> wrapper m' = wrapper m \<and> notQueuedRequests m' = notQueuedRequests m \<and>
    flying_keys m' = add_mset (ev_key e) (flying_keys m))"
proof (cases "ae_write e")
  case False
  then show ?thesis using assms
    by (simp add: r2_issued_def Let_def fly_inv_def read_flying_def waiting_ok_def read_key_def flying_keys_def)
next
  case True
  then show ?thesis using assms
    by (simp add: r2_issued_def Let_def fly_inv_def waiting_ok_def flying_keys_def done_ok_def)
qed

text \<open>A callback finds its event.\<close>

lemma find_read_ok:
  assumes "(a, c) \<in> set (map read_key q)"
  shows "find_read a c q < length q" "read_key (q ! find_read a c q) = (a, c)"
proof -
  let ?P = "\<lambda>i. fst (q ! i) = a \<and> ae_coreid (snd (q ! i)) = c"
  have "find ?P [0..<length q] \<noteq> None"
    using assms by (auto simp: find_None_iff in_set_conv_nth read_key_def) (metis fst_conv snd_conv)
  then obtain i where i: "find ?P [0..<length q] = Some i" by blast
  then have "i < length q" "?P i" unfolding find_Some_iff by auto
  with i show "find_read a c q < length q" "read_key (q ! find_read a c q) = (a, c)"
    by (simp_all add: find_read_def read_key_def)
qed

lemma read_complete_ok:
  assumes "fly_inv ow n (curCycle (clock m)) m" "ac \<in># ow" "curCycle (clock m) + 1 < 2 ^ 32"
  shows "succeeds (ramulator2_onReadComplete ac m) (\<lambda>m'.
    fly_inv (ow - {#ac#}) n (curCycle (clock m)) m' \<and> clock m' = clock m \<and> wrapper m' = wrapper m \<and>
    notQueuedRequests m' = notQueuedRequests m \<and> flying_keys m' = flying_keys m)"
proof -
  let ?now = "curCycle (clock m)" and ?q = "inflightRequests m"
  obtain a c where ac: "ac = (a, c)" by force
  have "(a, c) \<in> set (map read_key ?q)" using assms(1,2) unfolding ac fly_inv_def by auto
  note f = find_read_ok [OF this]
  define i where "i = find_read a c ?q"
  define e where "e = snd (?q ! i)"
  have i: "i < length ?q" "?q ! i = (a, e)" "ae_coreid e = c"
    using f by (auto simp: i_def e_def read_key_def prod_eq_iff)
  have "read_flying n ?now (a, e)" using assms(1) i(1,2) by (metis fly_inv_def list_all_length)
  then have e: "ev_state e = EV_HELD" "c < n" "sCycle e \<le> ?now" "sCycle e \<le> issueCycle e" "issueCycle e \<le> ?now"
    "\<not> ae_write e" using i(3) by (auto simp: read_flying_def waiting_ok_def)
  let ?l = "?now + 1 - sCycle e"
  have l: "sub64 (?now + 1) (sCycle e) = ?l" "unat (of_nat ?l :: u32) = ?l" "(of_nat ?l :: u32) \<noteq> 0"
  proof -
    show "sub64 (?now + 1) (sCycle e) = ?l" using e(3) by simp
    show u: "unat (of_nat ?l :: u32) = ?l" using assms(3) by (simp add: unat_of_nat take_bit_nat_eq_self)
    show "(of_nat ?l :: u32) \<noteq> 0" using u e(3) by (metis Suc_eq_plus1 Suc_le_lessD diff_is_0_eq le_imp_less_Suc not_less unsigned_0)
  qed
  define m' where "m' = m\<lparr>mstats := count_read (of_nat ?l) (boundLatency e) (mstats m),
     estimators := learn c (of_nat ?l) (estimators m),
     coreTracker := recordComplete (ae_coreid e) ?l (sub64 (?now + 1) (issueCycle e)) False (coreTracker m),
     completions := completions m @ [(e\<lparr>ev_state := EV_DONE\<rparr>, ?now + 1)],
     inflightRequests := mm_erase i ?q\<rparr>"
  have len: "length (estimators m) = n" using assms(1) by (simp add: fly_inv_def)
  have eq: "ramulator2_onReadComplete ac m = Inr m'"
    unfolding ramulator2_onReadComplete_def ac prod.case i_def [symmetric] Let_def e_def [symmetric] l(1)
    using i(1) l(2,3) e(1,2) len by (simp add: m'_def)
  have q: "mset ?q = add_mset (a, e) (mset (mm_erase i ?q))" using mset_mm_erase [OF i(1)] i(2) by simp
  then have sub: "set (mm_erase i ?q) \<subseteq> set ?q" by (metis set_mset_add_mset_insert set_mset_mset subset_insertI)
  have k: "mset (map read_key ?q) = add_mset ac (mset (map read_key (mm_erase i ?q)))"
    "mset (map (ev_key \<circ> snd) ?q) = add_mset (ev_key e) (mset (map (ev_key \<circ> snd) (mm_erase i ?q)))"
    using q i(3) by (simp_all only: mset_map image_mset_add_mset read_key_def fst_conv snd_conv comp_apply ac)
  have st: "r2_stats_ok (completions m') (mstats m')"
    using assms(1) e(3,6) l(2) by (simp add: m'_def fly_inv_def count_read_def) (simp add: r2_stats_ok_def)
  have "done_ok ?now (e\<lparr>ev_state := EV_DONE\<rparr>, ?now + 1)" using e by (simp add: done_ok_def)
  then have "fly_inv (ow - {#ac#}) n ?now m'"
    using assms(1) sub st k(1) by (auto simp: m'_def fly_inv_def list_all_iff learn_def)
  moreover have "flying_keys m' = flying_keys m" using k(2) by (simp add: m'_def flying_keys_def)
  ultimately show ?thesis unfolding eq by (simp add: m'_def)
qed

lemma r2_callbacks_ok:
  assumes "fly_inv (mset as + ow) n (curCycle (clock m)) m" "curCycle (clock m) + 1 < 2 ^ 32"
  shows "succeeds (r2_callbacks as m) (\<lambda>m'. fly_inv ow n (curCycle (clock m)) m' \<and> clock m' = clock m \<and>
    wrapper m' = wrapper m \<and> notQueuedRequests m' = notQueuedRequests m \<and> flying_keys m' = flying_keys m)"
  using assms
proof (induction as arbitrary: m)
  case (Cons a as)
  from read_complete_ok [OF Cons.prems(1) _ Cons.prems(2), of a] obtain m1 where m1: "ramulator2_onReadComplete a m = Inr m1"
    "fly_inv (mset as + ow) n (curCycle (clock m)) m1" "clock m1 = clock m" "wrapper m1 = wrapper m"
    "notQueuedRequests m1 = notQueuedRequests m" "flying_keys m1 = flying_keys m"
    unfolding succeeds_iff by auto
  from Cons.IH [of m1] m1 Cons.prems(2) show ?case by simp
qed simp

section \<open>Histories\<close>

context callback_backend
begin

lemma push_ok:
  assumes "binv k (wrapper m)" "fly_inv (owed (wrapper m)) n (curCycle (clock m)) m"
    and "list_all (waiting_ok n (curCycle (clock m))) es"
  shows "succeeds (r2_push_loop be tries es m) (\<lambda>(r, m'). binv k (wrapper m') \<and>
    fly_inv (owed (wrapper m')) n (curCycle (clock m)) m' \<and> list_all (waiting_ok n (curCycle (clock m))) r \<and>
    clock m' = clock m \<and> flying_keys m' + mset (map ev_key r) = flying_keys m + mset (map ev_key es))"
  using assms
proof (induction es arbitrary: tries m)
  case (Cons e es)
  let ?now = "curCycle (clock m)"
  from Cons.prems(3) have e: "waiting_ok n ?now e" and es: "list_all (waiting_ok n ?now) es" by simp_all
  consider "sCycle e > ?now" | "\<not> sCycle e > ?now" "tries = 8" | "\<not> sCycle e > ?now" "tries \<noteq> 8" by blast
  then show ?case
  proof cases
    case 1
    with Cons.IH [OF Cons.prems(1,2) es, of tries] e show ?thesis by (auto elim!: succeeds_mono)
  next
    case 2
    with Cons.prems show ?thesis by simp
  next
    case 3
    from e have "ae_coreid e < n" by (simp add: waiting_ok_def)
    from send_ok [OF Cons.prems(1) this, of "r2_addr e" "ae_write e" "ae_prefetch e"] obtain ok b where
      b: "r2ops_send be (r2_addr e) (ae_write e) (ae_coreid e) (ae_prefetch e) (wrapper m) = Inr (ok, b)" "binv k b"
      "owed b = owed (wrapper m) + (if ok \<and> \<not> ae_write e then {#(r2_addr e, ae_coreid e)#} else {#})"
      by (auto simp: succeeds_iff)
    let ?m1 = "m\<lparr>wrapper := b\<rparr>"
    show ?thesis
    proof (cases ok)
      case False
      with b(2,3) Cons.prems(2) es have "binv k (wrapper ?m1)" "fly_inv (owed (wrapper ?m1)) n (curCycle (clock ?m1)) ?m1"
        "list_all (waiting_ok n (curCycle (clock ?m1))) es" by simp_all
      from Cons.IH [OF this, of "tries + 1"] 3 False b(1) e show ?thesis by (auto elim!: succeeds_mono)
    next
      case True
      define m2 where "m2 = (if \<not> ae_write e then ?m1\<lparr>mstats := (mstats ?m1)\<lparr>profTotalSkewLat :=
        profTotalSkewLat (mstats ?m1) + sub64 (curCycle (clock ?m1)) (sCycle e)\<rparr>\<rparr> else ?m1)"
      have m2: "clock m2 = clock m" "wrapper m2 = b" "fly_inv (owed (wrapper m)) n ?now m2" "flying_keys m2 = flying_keys m"
        using Cons.prems(2) by (auto simp: m2_def fly_inv_def r2_stats_ok_def)
      from issued_ok [of "owed (wrapper m)" n m2 e] m2 e obtain m3 where
        m3: "r2_issued e m2 = Inr m3" "clock m3 = clock m" "wrapper m3 = b" "fly_inv (owed b) n ?now m3"
        "flying_keys m3 = add_mset (ev_key e) (flying_keys m)"
        unfolding succeeds_iff using b(3) True by (auto split: if_splits)
      have "r2_push_loop be tries (e # es) m = r2_push_loop be (tries + 1) es m3"
        using 3 b(1) True m3(1) by (simp add: m2_def [symmetric] del: One_nat_def)
      moreover have "succeeds (r2_push_loop be (tries + 1) es m3) (\<lambda>(r, m'). binv k (wrapper m') \<and>
        fly_inv (owed (wrapper m')) n ?now m' \<and> list_all (waiting_ok n ?now) r \<and>
        clock m' = clock m \<and> flying_keys m' + mset (map ev_key r) = flying_keys m3 + mset (map ev_key es))"
        using Cons.IH [of m3 "tries + 1"] m3 b(2) es by (simp del: One_nat_def)
      ultimately show ?thesis using m3(5) by (auto elim!: succeeds_mono)
    qed
  qed
qed simp

lemma pushInFlights_ok:
  assumes "r2_ctrl_inv binv owed n k m"
  shows "succeeds (r2_pushInFlights be m) (\<lambda>m'. r2_ctrl_inv binv owed n k m' \<and> all_keys m' = all_keys m \<and> clock m' = clock m)"
  using push_ok [of k m "notQueuedRequests m" 0] assms unfolding r2_pushInFlights_def
  by (auto simp: r2_ctrl_inv_def all_keys_def elim!: succeeds_mono)

lemma enqueue_ok:
  assumes "r2_ctrl_inv binv owed n k m" "ev_state e = EV_RUNNING" "ae_coreid e < n" "sCycle e \<le> curCycle (clock m)"
  shows "succeeds (ramulator2_enqueue be e m) (\<lambda>m'. r2_ctrl_inv binv owed n k m' \<and>
    all_keys m' = add_mset (ev_key e) (all_keys m) \<and> clock m' = clock m)"
proof -
  let ?e = "e\<lparr>ev_state := EV_HELD\<rparr>" and ?now = "curCycle (clock m)"
  define m0 where "m0 = (if is_bound_phase m then m\<lparr>is_bound_phase := False\<rparr> else m)"
  have m0: "binv k (wrapper m0)" "fly_inv (owed (wrapper m0)) n ?now m0" "list_all (waiting_ok n ?now) (notQueuedRequests m0)"
    "clock_ok (clock m0)" "clock m0 = clock m" "all_keys m0 = all_keys m"
    using assms(1) by (auto simp: m0_def r2_ctrl_inv_def all_keys_def)
  have w: "waiting_ok n ?now ?e" using assms(3,4) by (simp add: waiting_ok_def)
  from send_ok [OF m0(1) assms(3), of "r2_addr e" "ae_write e" "ae_prefetch e"] obtain ok b where
    b: "r2ops_send be (r2_addr e) (ae_write e) (ae_coreid e) (ae_prefetch e) (wrapper m0) = Inr (ok, b)" "binv k b"
    "owed b = owed (wrapper m0) + (if ok \<and> \<not> ae_write e then {#(r2_addr e, ae_coreid e)#} else {#})"
    by (auto simp: succeeds_iff)
  let ?m1 = "m0\<lparr>wrapper := b\<rparr>"
  show ?thesis
  proof (cases ok)
    case False
    have "ramulator2_enqueue be e m = Inr (?m1\<lparr>notQueuedRequests := notQueuedRequests ?m1 @ [?e],
        mstats := (mstats ?m1)\<lparr>reissuedAccesses := reissuedAccesses (mstats ?m1) + 1\<rparr>\<rparr>)"
      using False b(1) assms(2) by (simp add: ramulator2_enqueue_def Let_def m0_def [symmetric])
    with m0 w b(2,3) False show ?thesis by (simp add: r2_ctrl_inv_def fly_inv_def r2_stats_ok_def all_keys_def flying_keys_def)
  next
    case True
    have "fly_inv (owed (wrapper m0)) n (curCycle (clock ?m1)) ?m1" "waiting_ok n (curCycle (clock ?m1)) ?e"
      using m0(2,5) w by simp_all
    from issued_ok [OF this] obtain m3 where
      m3: "r2_issued ?e ?m1 = Inr m3" "clock m3 = clock m" "wrapper m3 = b" "fly_inv (owed b) n ?now m3"
      "notQueuedRequests m3 = notQueuedRequests m0" "flying_keys m3 = add_mset (ev_key e) (flying_keys m0)"
      unfolding succeeds_iff using b(3) True m0(5) by (auto split: if_splits)
    have "ramulator2_enqueue be e m = Inr m3"
      using True b(1) assms(2) m3(1) by (simp add: ramulator2_enqueue_def Let_def m0_def [symmetric])
    with m0 m3 b(2) show ?thesis by (simp add: r2_ctrl_inv_def all_keys_def)
  qed
qed

lemma r2_tick_ok:
  assumes "r2_ctrl_inv binv owed n k m" "curCycle (clock m) + 2 < 2 ^ 32"
  shows "unless_refused err (k = 0) (ramulator2_tick be 0 m) (\<lambda>(d, m'). r2_ctrl_inv binv owed n (k - 1) m' \<and>
    all_keys m' = all_keys m \<and> clock m' = clock_tick (clock m))"
proof -
  let ?k = "cpu_step (clock m)" and ?now = "Suc (curCycle (clock m))"
  from pushInFlights_ok [OF assms(1)] obtain m1 where m1: "r2_pushInFlights be m = Inr m1"
    "r2_ctrl_inv binv owed n k m1" "all_keys m1 = all_keys m" "clock m1 = clock m" by (auto simp: succeeds_iff)
  have k: "curCycle ?k = ?now" by (simp add: cpu_step_def)
  define m2 where "m2 = m1\<lparr>clock := ?k\<rparr>"
  have m2: "binv k (wrapper m2)" "fly_inv (owed (wrapper m2)) n ?now m2" "list_all (waiting_ok n ?now) (notQueuedRequests m1)"
    "clock_ok (clock m)"
    using m1(2,4) fly_inv_later [of "owed (wrapper m1)" n "curCycle (clock m)" m1 ?now]
    by (auto simp: m2_def r2_ctrl_inv_def list_all_iff intro: waiting_ok_mono)
  show ?thesis
  proof (cases "mem_behind ?k")
    case False
    have "ramulator2_tick be 0 m = Inr (1, m1\<lparr>clock := clock_tick (clock m)\<rparr>)"
      using False m1(1,4) by (simp add: ramulator2_tick_def Let_def clock_tick_def)
    moreover have "binv (k - 1) (wrapper m2)" by (rule fewer [OF m2(1)])
    ultimately show ?thesis using m2 clock_tick_ok [OF m2(4)] m1(3) by (simp add: r2_ctrl_inv_def m2_def all_keys_def)
  next
    case True
    from tick_ok [OF m2(1)] show ?thesis
    proof (cases rule: unless_refused_cases)
      case 1
      then show ?thesis using True m1(1,4) by (simp add: ramulator2_tick_def Let_def m2_def)
    next
      case (2 p)
      obtain called b where p: "p = (called, b)" by force
      let ?m = "m2\<lparr>wrapper := b\<rparr>"
      have t: "r2ops_tick be (wrapper m2) = Inr (called, b)" "binv (k - 1) b" "owed (wrapper m2) = mset called + owed b"
        using 2 p by simp_all
      have "fly_inv (mset called + owed b) n (curCycle (clock ?m)) ?m" "curCycle (clock ?m) + 1 < 2 ^ 32"
        using m2(2) t(3) k assms(2) by (simp_all add: m2_def)
      from r2_callbacks_ok [OF this] obtain m3 where m3: "r2_callbacks called ?m = Inr m3" "fly_inv (owed b) n ?now m3"
        "clock m3 = ?k" "wrapper m3 = b" "notQueuedRequests m3 = notQueuedRequests m1" "flying_keys m3 = flying_keys m1"
        unfolding succeeds_iff using k by (auto simp: m2_def)
      let ?r = "m3\<lparr>clock := clock_tick (clock m)\<rparr>"
      have "ramulator2_tick be 0 m = Inr (1, ?r)"
        using True m1(1,4) t(1) m3(1,3) by (simp add: ramulator2_tick_def Let_def clock_tick_def m2_def)
      moreover have "all_keys ?r = all_keys m" using m3(5,6) m1(3) by (simp add: all_keys_def)
      ultimately show ?thesis using m3(2,4,5) t(2) m2(3) clock_tick_ok [OF m2(4)] by (simp add: r2_ctrl_inv_def)
    qed
  qed
qed

lemma r2_access_ok:
  assumes "r2_ctrl_inv binv owed n k m" "srcId req < n"
  shows "succeeds (ramulator2_access lineBits hasRec req m) (\<lambda>(resp, st, tr, m').
    r2_ctrl_inv binv owed n k m' \<and> all_keys m' = all_keys m \<and> clock m' = clock m)"
  using assms unfolding ramulator2_access_def
  by (simp add: Let_def record_access_def start_bound_phase_def r2_ctrl_inv_def fly_inv_def all_keys_def flying_keys_def)

lemma r2_run_ok:
  assumes "r2_ctrl_inv binv owed n k m" "ops_ok n (curCycle (clock m)) xs" "curCycle (clock m) + ticks xs + 1 < 2 ^ 32"
  shows "unless_refused err (k < ticks xs) (r2_ctrl_run be lineBits xs m) (\<lambda>m'. r2_ctrl_inv binv owed n (k - ticks xs) m' \<and>
    all_keys m' = all_keys m + op_keys xs \<and> curCycle (clock m') = curCycle (clock m) + ticks xs)"
  using assms
proof (induction xs arbitrary: k m)
  case (Cons x xs)
  show ?case
  proof (cases x)
    case (Access req hasRec)
    with Cons.prems r2_access_ok [of k m req lineBits hasRec] show ?thesis
      by (auto simp: succeeds_iff intro!: Cons.IH [THEN unless_refused_mono])
  next
    case (Simulate e c)
    have "succeeds (ramulator2_simulate be c e m) (\<lambda>m'. r2_ctrl_inv binv owed n k m' \<and>
      all_keys m' = add_mset (ev_key (e\<lparr>sCycle := c\<rparr>)) (all_keys m) \<and> clock m' = clock m)"
      unfolding ramulator2_simulate_def using enqueue_ok [of k m "e\<lparr>sCycle := c, issueCycle := c\<rparr>"] Cons.prems Simulate by auto
    then show ?thesis using Cons.prems unfolding Simulate succeeds_iff
      by (auto intro!: Cons.IH [THEN unless_refused_mono])
  next
    case Tick
    have "curCycle (clock m) + 2 < 2 ^ 32" using Cons.prems(3) Tick by simp
    from r2_tick_ok [OF Cons.prems(1) this] have
      "unless_refused err (k < ticks (x # xs)) (r2_ctrl_op be lineBits x m) (\<lambda>m'. r2_ctrl_inv binv owed n (k - 1) m' \<and>
       all_keys m' = all_keys m \<and> clock m' = clock_tick (clock m))"
      unfolding Tick by (auto elim!: unless_refused_mono)
    then show ?thesis unfolding r2_ctrl_run.simps unless_refused_simps
    proof (rule unless_refused_mono)
      fix m1 assume m1: "r2_ctrl_inv binv owed n (k - 1) m1 \<and> all_keys m1 = all_keys m \<and> clock m1 = clock_tick (clock m)"
      have "unless_refused err (k - 1 < ticks xs) (r2_ctrl_run be lineBits xs m1) (\<lambda>m'.
        r2_ctrl_inv binv owed n (k - 1 - ticks xs) m' \<and> all_keys m' = all_keys m1 + op_keys xs \<and>
        curCycle (clock m') = curCycle (clock m1) + ticks xs)"
        using m1 Cons.prems Tick by (intro Cons.IH) auto
      then show "unless_refused err (k < ticks (x # xs)) (r2_ctrl_run be lineBits xs m1) (\<lambda>m'.
        r2_ctrl_inv binv owed n (k - ticks (x # xs)) m' \<and> all_keys m' = all_keys m + op_keys (x # xs) \<and>
        curCycle (clock m') = curCycle (clock m) + ticks (x # xs))"
        using m1 Tick by (elim unless_refused_mono) auto
    qed simp
  qed
qed simp

lemma r2_new_inv:
  assumes "c < d" "binv k b" "owed b = {#}" "Ramulator2_new ests trackedCores n c d b = Inr m" "length ests = n"
  shows "r2_ctrl_inv binv owed n k m" "all_keys m = {#}" "clock m = new_clock c d"
  using assms clock_ok_new [OF assms(1)]
  by (auto simp: Ramulator2_new_def r2_ctrl_inv_def fly_inv_def r2_stats_ok_def zero_stats_def reads_of_def
      writes_of_def total_lat_def all_keys_def flying_keys_def)

end

end
