(* ===== verification/Ramulator2_Conservation.thy ===== *)
theory Ramulator2_Conservation
  imports Ramulator2_System Ramulator2_Ctrl
begin

text \<open>
  No read is lost or invented by the memory system of Ramulator 2, whatever the device, and nothing fails
  but a refresh request that finds its buffer full: the number of cycles before that can happen has a
  lower bound that needs nothing of the device.
\<close>

section \<open>Reads\<close>

definition r2_key :: "R2Request \<Rightarrow> addr \<times> nat" where
  "r2_key q = (q_addr q, nat (q_source q))"

text \<open>The reads among some requests, as a multiset.\<close>

definition owed_reads :: "R2Request list \<Rightarrow> (addr \<times> nat) multiset" where
  "owed_reads qs = mset (map r2_key (filter (\<lambda>q. q_type q = 0) qs))"

definition read_ok :: "nat \<Rightarrow> R2Request \<Rightarrow> bool" where
  "read_ok n q \<longleftrightarrow> (q_type q = 0 \<longrightarrow> q_callback q \<and> 0 \<le> q_source q \<and> nat (q_source q) < n)"

definition same_request :: "R2Request \<Rightarrow> R2Request \<Rightarrow> bool" where
  "same_request q r \<longleftrightarrow> q_addr q = q_addr r \<and> q_type q = q_type r \<and> q_source q = q_source r \<and> q_callback q = q_callback r"

lemma same_requestD:
  assumes "same_request q r"
  shows "r2_key q = r2_key r" "q_type q = q_type r" "read_ok n q = read_ok n r"
  using assms by (simp_all add: same_request_def r2_key_def read_ok_def)

lemma same_request_upd [simp]:
  "same_request (q\<lparr>q_command := x\<rparr>) q" "same_request (q\<lparr>q_final := x\<rparr>) q" "same_request (q\<lparr>q_stat_updated := u\<rparr>) q"
  "same_request (q\<lparr>q_arrive := y\<rparr>) q" "same_request (q\<lparr>q_depart := y\<rparr>) q" "same_request (q\<lparr>q_addr_vec := v\<rparr>) q"
  "same_request (set_command dev d q) q" "same_request q q"
  by (simp_all add: same_request_def set_command_def)

lemma owed_simps [simp]:
  "owed_reads [] = {#}" "owed_reads (qs @ rs) = owed_reads qs + owed_reads rs"
  "owed_reads (q # qs) = (if q_type q = 0 then {#r2_key q#} else {#}) + owed_reads qs"
  by (simp_all add: owed_reads_def)

text \<open>A request that is replaced by one with the same reader, and one that is taken out.\<close>

lemma owed_map:
  assumes "\<And>q. same_request (f q) q"
  shows "owed_reads (map f qs) = owed_reads qs"
proof -
  have "r2_key (f q) = r2_key q" "q_type (f q) = q_type q" for q using same_requestD [OF assms] by simp_all
  then show ?thesis by (induction qs) simp_all
qed

lemma owed_remove:
  assumes "i < length qs"
  shows "owed_reads (rb_remove i qs) + owed_reads [qs ! i] = owed_reads qs"
proof -
  have "qs = take i qs @ [qs ! i] @ drop (Suc i) qs" using id_take_nth_drop [OF assms] by simp
  from arg_cong [OF this, of owed_reads] show ?thesis by (simp add: rb_remove_def ac_simps)
qed

lemma owed_update:
  assumes "i < length qs" "same_request q (qs ! i)"
  shows "owed_reads (qs[i := q]) = owed_reads qs"
proof -
  have "owed_reads [q] = owed_reads [qs ! i]" using same_requestD(1,2) [OF assms(2)] by simp
  moreover have "qs = take i qs @ [qs ! i] @ drop (Suc i) qs" using id_take_nth_drop [OF assms(1)] by simp
  ultimately show ?thesis
    using upd_conv_take_nth_drop [OF assms(1), of q] arg_cong [of qs _ owed_reads] by (metis append_Cons append_Nil owed_simps(2))
qed

lemma remove_subset: "set (rb_remove i qs) \<subseteq> set qs"
  by (auto simp: rb_remove_def dest: in_set_takeD in_set_dropD)

lemma remove_length: "i < length qs \<Longrightarrow> length (rb_remove i qs) = length qs - 1"
  by (simp add: rb_remove_def)

section \<open>The invariant\<close>

definition stats_sized :: "nat \<Rightarrow> R2Stats \<Rightarrow> bool" where
  "stats_sized n s \<longleftrightarrow> n \<le> length (s_read_row_hits_per_core s) \<and> n \<le> length (s_read_row_misses_per_core s) \<and>
     n \<le> length (s_read_row_conflicts_per_core s) \<and> length (s_read_row_misses_per_core s) = length (s_read_row_hits_per_core s) \<and>
     length (s_read_row_conflicts_per_core s) = length (s_read_row_hits_per_core s)"

definition ctl2_ok :: "nat \<Rightarrow> R2Controller \<Rightarrow> bool" where
  "ctl2_ok n c \<longleftrightarrow> (\<forall>q\<in>set (r2_pending c). q_type q = 0 \<and> read_ok n q) \<and> (\<forall>b. \<forall>q\<in>set (get_buf b c). read_ok n q) \<and>
     stats_sized n (r2_stats c)"

definition ctl2_owed :: "R2Controller \<Rightarrow> (addr \<times> nat) multiset" where
  "ctl2_owed c = owed_reads (r2_pending c) + owed_reads (r2_active c) + owed_reads (r2_priority c) + owed_reads (r2_read c) +
     owed_reads (r2_write c)"

text \<open>What the steps of a tick other than the refresh keep: the refresh clock, and the room in the priority buffer.\<close>

definition ref_kept :: "R2Controller \<Rightarrow> R2Controller \<Rightarrow> bool" where
  "ref_kept c c' \<longleftrightarrow> ref_clk c' = ref_clk c \<and> ref_next c' = ref_next c \<and> length (r2_priority c') \<le> length (r2_priority c)"

definition keeps_reads :: "nat \<Rightarrow> R2Controller \<Rightarrow> R2Controller \<Rightarrow> bool" where
  "keeps_reads n c c' \<longleftrightarrow> (ctl2_ok n c \<longrightarrow> ctl2_ok n c') \<and> ctl2_owed c' = ctl2_owed c \<and> ref_kept c c'"

lemma keeps_reads_trans: "keeps_reads n c c1 \<Longrightarrow> keeps_reads n c1 c2 \<Longrightarrow> keeps_reads n c c2"
  by (auto simp: keeps_reads_def ref_kept_def)

lemma keeps_reads_refl [simp]: "keeps_reads n c c"
  by (simp add: keeps_reads_def ref_kept_def)

lemma get_set_buf [simp]: "get_buf b (set_buf b' qs c) = (if b = b' then qs else get_buf b c)"
  by (cases b; cases b') simp_all

lemma set_buf_frame [simp]:
  "r2_pending (set_buf b qs c) = r2_pending c" "r2_stats (set_buf b qs c) = r2_stats c" "ref_clk (set_buf b qs c) = ref_clk c"
  "ref_next (set_buf b qs c) = ref_next c" "r2_clk (set_buf b qs c) = r2_clk c"
  by (cases b; simp)+

lemma get_buf_frame [simp]:
  "get_buf b (c\<lparr>r2_stats := s\<rparr>) = get_buf b c" "get_buf b (c\<lparr>r2_pending := p\<rparr>) = get_buf b c"
  "get_buf b (c\<lparr>r2_clk := t\<rparr>) = get_buf b c" "get_buf b (c\<lparr>r2_write_mode := u\<rparr>) = get_buf b c"
  "get_buf b (c\<lparr>ref_clk := t\<rparr>) = get_buf b c" "get_buf b (c\<lparr>ref_next := t\<rparr>) = get_buf b c"
  by (cases b; simp)+

lemma owed_set_buf: "ctl2_owed (set_buf b qs c) + owed_reads (get_buf b c) = ctl2_owed c + owed_reads qs"
  by (cases b) (simp_all add: ctl2_owed_def ac_simps)

lemma ok_set_buf: "ctl2_ok n c \<Longrightarrow> \<forall>q\<in>set qs. read_ok n q \<Longrightarrow> ctl2_ok n (set_buf b qs c)"
  by (auto simp: ctl2_ok_def)

text \<open>A buffer is rewritten without a change of its reads.\<close>

lemma keeps_set_buf:
  assumes "owed_reads qs = owed_reads (get_buf b c)" "ctl2_ok n c \<Longrightarrow> \<forall>q\<in>set qs. read_ok n q" "length qs \<le> length (get_buf b c)"
  shows "keeps_reads n c (set_buf b qs c)"
proof -
  have "ctl2_owed (set_buf b qs c) = ctl2_owed c" using owed_set_buf [of b qs c] assms(1) by simp
  moreover have "length (r2_priority (set_buf b qs c)) \<le> length (r2_priority c)" using assms(3) by (cases b) simp_all
  ultimately show ?thesis using ok_set_buf assms(2) by (simp add: keeps_reads_def ref_kept_def)
qed

section \<open>Scheduling\<close>

lemma foldl_in: "foldl (frfcfs_compare dev d buf) i js \<in> insert i (set js)"
proof (induction js arbitrary: i)
  case (Cons j js)
  have "frfcfs_compare dev d buf i j \<in> {i, j}" by (simp add: frfcfs_compare_def Let_def)
  with Cons.IH [of "frfcfs_compare dev d buf i j"] show ?case by auto
qed simp

lemma get_best_ok:
  assumes "get_best_request dev d buf = (best, buf')"
  shows "owed_reads buf' = owed_reads buf" "length buf' = length buf" "\<And>i. best = Some i \<Longrightarrow> i < length buf'"
    "\<forall>q\<in>set buf. read_ok n q \<Longrightarrow> \<forall>q\<in>set buf'. read_ok n q"
proof -
  have m: "buf' = (if buf = [] then buf else map (set_command dev d) buf)" using assms by (auto simp: get_best_request_def Let_def)
  have k: "read_ok n (set_command dev d q) = read_ok n q" for q using same_requestD(3) [of "set_command dev d q" q] by simp
  show "owed_reads buf' = owed_reads buf" using owed_map [of "set_command dev d" buf] by (simp add: m)
  show "length buf' = length buf" by (simp add: m)
  show "\<forall>q\<in>set buf. read_ok n q \<Longrightarrow> \<forall>q\<in>set buf'. read_ok n q" by (auto simp: m k)
  show "i < length buf'" if "best = Some i" for i
  proof -
    from assms that have "buf \<noteq> []" "i = foldl (frfcfs_compare dev d buf') 0 [1..<length buf']"
      by (auto simp: get_best_request_def Let_def split: if_splits)
    then show ?thesis using foldl_in [of dev d buf' 0 "[1..<length buf']"] by (auto simp: m)
  qed
qed

text \<open>What the scheduler prefers: ready requests, and among these the earliest.\<close>

definition served_before :: "'d R2Device \<Rightarrow> 'd \<Rightarrow> R2Request \<Rightarrow> R2Request \<Rightarrow> bool" where
  "served_before dev d q r \<longleftrightarrow>
     (let rq = check_ready dev (q_command q) (q_addr_vec q) d; rr = check_ready dev (q_command r) (q_addr_vec r) d
      in rq \<and> \<not> rr \<or> rq = rr \<and> q_arrive q < q_arrive r)"

lemma compare_eq:
  "frfcfs_compare dev d buf i j = (if served_before dev d (buf ! j) (buf ! i) then j else i)"
  by (auto simp: frfcfs_compare_def served_before_def Let_def)

lemma before_order: "\<not> served_before dev d q q"
  "served_before dev d q r \<Longrightarrow> \<not> served_before dev d r q"
  "served_before dev d q r \<Longrightarrow> \<not> served_before dev d s r \<Longrightarrow> served_before dev d q s"
  "\<not> served_before dev d r q \<Longrightarrow> \<not> served_before dev d s r \<Longrightarrow> \<not> served_before dev d s q"
  by (auto simp: served_before_def Let_def)

lemma best_of:
  assumes "0 < m" "r = foldl (frfcfs_compare dev d buf) 0 [1..<m]"
  shows "r < m \<and> (\<forall>j<m. \<not> served_before dev d (buf ! j) (buf ! r)) \<and> (\<forall>j<r. served_before dev d (buf ! r) (buf ! j))"
  using assms(1) unfolding assms(2)
proof (induction m rule: nat_induct_non_zero)
  case 1
  then show ?case by (simp add: before_order(1))
next
  case (Suc m)
  let ?r = "foldl (frfcfs_compare dev d buf) 0 [1..<m]"
  have e: "foldl (frfcfs_compare dev d buf) 0 [1..<Suc m] = (if served_before dev d (buf ! m) (buf ! ?r) then m else ?r)"
    using Suc.hyps by (simp add: compare_eq)
  show ?case
  proof (cases "served_before dev d (buf ! m) (buf ! ?r)")
    case True
    have "served_before dev d (buf ! m) (buf ! j)" if "j < m" for j
      using before_order(3) [OF True] Suc.IH that by blast
    then show ?thesis unfolding e using True by (auto simp: less_Suc_eq before_order(1) dest: before_order(2))
  next
    case False
    then show ?thesis unfolding e using Suc.IH by (auto simp: less_Suc_eq)
  qed
qed

definition in_buffer :: "(R2Buf \<times> nat) option \<Rightarrow> R2Controller \<Rightarrow> bool" where
  "in_buffer loc c \<longleftrightarrow> (\<forall>b i. loc = Some (b, i) \<longrightarrow> i < length (get_buf b c))"

lemma try_buffer_ok:
  assumes "try_buffer dev d b c = (loc, c')"
  shows "keeps_reads n c c'" "in_buffer loc c'"
proof -
  obtain best buf where g: "get_best_request dev d (get_buf b c) = (best, buf)" by force
  note k = get_best_ok [OF g]
  have c': "c' = set_buf b buf c" using assms g by (auto simp: try_buffer_def Let_def split: option.splits)
  show "keeps_reads n c c'" unfolding c'
    by (rule keeps_set_buf) (use k in \<open>auto simp: ctl2_ok_def\<close>)
  show "in_buffer loc c'" using assms g k(3) by (auto simp: in_buffer_def try_buffer_def Let_def split: option.splits if_splits)
qed

lemma set_write_mode_keeps: "keeps_reads n c (set_write_mode p c)"
  by (auto simp: set_write_mode_def keeps_reads_def ref_kept_def ctl2_ok_def ctl2_owed_def)

lemma schedule_ok:
  assumes "schedule_request p dev d c = (loc, c')"
  shows "keeps_reads n c c'" "in_buffer loc c'"
proof -
  obtain found c1 where t1: "try_buffer dev d BActive c = (found, c1)" by force
  define r where "r = (if found \<noteq> None then (found, c1)
     else if r2_priority c1 \<noteq> [] then
       (let q = set_command dev d (hd (r2_priority c1)); c2 = c1\<lparr>r2_priority := (r2_priority c1)[0 := q]\<rparr>
        in (if check_ready dev (q_command q) (q_addr_vec q) d then Some (BPriority, 0) else None, c2))
     else (let c2 = set_write_mode p c1 in try_buffer dev d (if r2_write_mode c2 then BWrite else BRead) c2))"
  obtain found2 c2 where r: "r = (found2, c2)" by force
  note k1 = try_buffer_ok [OF t1]
  have "keeps_reads n c1 c2 \<and> in_buffer found2 c2"
  proof (cases "found \<noteq> None")
    case True
    then show ?thesis using r k1(2) by (simp add: r_def)
  next
    case f: False
    show ?thesis
    proof (cases "r2_priority c1 \<noteq> []")
      case True
      let ?q = "set_command dev d (hd (r2_priority c1))"
      have q: "same_request ?q (r2_priority c1 ! 0)" using True by (simp add: hd_conv_nth)
      have c2: "c2 = set_buf BPriority ((r2_priority c1)[0 := ?q]) c1" using f True r by (simp add: r_def Let_def)
      have "keeps_reads n c1 c2" unfolding c2
      proof (rule keeps_set_buf)
        show "owed_reads ((r2_priority c1)[0 := ?q]) = owed_reads (get_buf BPriority c1)"
          using owed_update [of 0 "r2_priority c1" ?q] True q by simp
        assume "ctl2_ok n c1"
        then have "\<forall>x\<in>set (get_buf BPriority c1). read_ok n x" unfolding ctl2_ok_def by blast
        then have "\<forall>x\<in>set (r2_priority c1). read_ok n x" by simp
        moreover have "read_ok n ?q = read_ok n (r2_priority c1 ! 0)" by (rule same_requestD(3) [OF q])
        ultimately show "\<forall>x\<in>set ((r2_priority c1)[0 := ?q]). read_ok n x"
          using set_update_subset_insert [of "r2_priority c1" 0 ?q] True by auto
      qed simp
      moreover have "in_buffer found2 c2" using f True r by (auto simp: r_def in_buffer_def Let_def split: if_splits)
      ultimately show ?thesis by simp
    next
      case False
      let ?b = "if r2_write_mode (set_write_mode p c1) then BWrite else BRead"
      have t2: "try_buffer dev d ?b (set_write_mode p c1) = (found2, c2)" using f False r by (simp add: r_def Let_def)
      show ?thesis using try_buffer_ok(1) [OF t2, of n] try_buffer_ok(2) [OF t2] set_write_mode_keeps [of n c1 p] keeps_reads_trans by blast
    qed
  qed
  moreover have "c' = c2" "loc = found2 \<or> loc = None"
    using assms t1 r unfolding schedule_request_def r_def by (auto simp: Let_def split: option.splits if_splits)
  ultimately show "keeps_reads n c c'" "in_buffer loc c'"
    using k1(1) [of n] keeps_reads_trans [of n c c1 c2] by (auto simp: in_buffer_def)
qed

section \<open>Issuing\<close>

lemma update_stats_ok:
  assumes "read_ok n q" "stats_sized n s"
  shows "succeeds (update_request_stats dev d q s) (stats_sized n)"
  using assms by (auto simp: update_request_stats_def Let_def read_ok_def stats_sized_def count_at_def)

lemma keeps_stats: "stats_sized n s \<Longrightarrow> keeps_reads n c (c\<lparr>r2_stats := s\<rparr>)"
  by (auto simp: keeps_reads_def ref_kept_def ctl2_ok_def ctl2_owed_def)

lemma buf_read: "ctl2_ok n c \<Longrightarrow> i < length (get_buf b c) \<Longrightarrow> read_ok n (get_buf b c ! i)"
  unfolding ctl2_ok_def using nth_mem by blast

lemma keeps_at:
  assumes "i < length (get_buf b c)" "same_request q (get_buf b c ! i)"
  shows "keeps_reads n c (set_buf b ((get_buf b c)[i := q]) c)"
proof (rule keeps_set_buf)
  show "owed_reads ((get_buf b c)[i := q]) = owed_reads (get_buf b c)" by (rule owed_update [OF assms])
  assume ok: "ctl2_ok n c"
  then have "read_ok n q" using same_requestD(3) [OF assms(2)] buf_read [OF ok assms(1)] by simp
  then show "\<forall>x\<in>set ((get_buf b c)[i := q]). read_ok n x"
    using set_update_subset_insert [of "get_buf b c" i q] ok by (auto simp: ctl2_ok_def)
qed simp

text \<open>A request leaves its buffer, for the pending reads or for the active buffer.\<close>

lemma leave_buffer:
  assumes i: "i < length (get_buf b c)" and q: "same_request q (get_buf b c ! i)" and ok: "ctl2_ok n c"
  shows "q_type q = 0 \<Longrightarrow> keeps_reads n c (set_buf b (rb_remove i (get_buf b c)) (c\<lparr>r2_pending := r2_pending c @ [q]\<rparr>))"
    and "q_type q \<noteq> 0 \<Longrightarrow> keeps_reads n c (set_buf b (rb_remove i (get_buf b c)) c)"
proof -
  let ?r = "rb_remove i (get_buf b c)"
  have "owed_reads [q] = owed_reads [get_buf b c ! i]" using same_requestD(1,2) [OF q] by simp
  then have rem: "owed_reads ?r + owed_reads [q] = owed_reads (get_buf b c)" using owed_remove [OF i] by (simp only:)
  have sub: "\<forall>x\<in>set ?r. read_ok n x" using ok remove_subset [of i "get_buf b c"] by (auto simp: ctl2_ok_def)
  have rq: "read_ok n q" using same_requestD(3) [OF q] buf_read [OF ok i] by simp
  have len: "length (r2_priority (set_buf b ?r c')) \<le> length (r2_priority c)"
    if "get_buf b c' = get_buf b c" "r2_priority c' = r2_priority c" for c'
    using that remove_length [OF i] by (cases b) auto
  have o: "ctl2_owed (set_buf b ?r c') + owed_reads [q] = ctl2_owed c'" if "get_buf b c' = get_buf b c" for c'
  proof -
    have "ctl2_owed (set_buf b ?r c') + owed_reads [q] + owed_reads ?r = ctl2_owed c' + owed_reads ?r"
      using owed_set_buf [of b ?r c'] rem that by (metis add.assoc add.commute)
    then show ?thesis by simp
  qed
  show "keeps_reads n c (set_buf b ?r c)" if "q_type q \<noteq> 0"
    using o [of c] that ok_set_buf [OF ok sub] len [of c] by (simp add: keeps_reads_def ref_kept_def)
  show "keeps_reads n c (set_buf b ?r (c\<lparr>r2_pending := r2_pending c @ [q]\<rparr>))" if t: "q_type q = 0"
  proof -
    let ?c = "c\<lparr>r2_pending := r2_pending c @ [q]\<rparr>"
    have "ctl2_owed ?c = ctl2_owed c + owed_reads [q]" using t by (simp add: ctl2_owed_def)
    moreover have "ctl2_ok n ?c" using ok rq t by (auto simp: ctl2_ok_def)
    ultimately show ?thesis using o [of ?c] ok_set_buf [of n ?c ?r b] sub len [of ?c] by (simp add: keeps_reads_def ref_kept_def)
  qed
qed

lemma move_active:
  assumes i: "i < length (get_buf b c)" and q: "q = get_buf b c ! i" and ok: "ctl2_ok n c"
  shows "keeps_reads n c (let c2 = c\<lparr>r2_active := r2_active c @ [q]\<rparr> in set_buf b (rb_remove i (get_buf b c2)) c2)"
proof -
  let ?c2 = "c\<lparr>r2_active := r2_active c @ [q]\<rparr>"
  have i2: "i < length (get_buf b ?c2)" "get_buf b ?c2 ! i = q" using i q by (cases b; simp add: nth_append)+
  have rq: "read_ok n q" using buf_read [OF ok i] q by simp
  have bufs: "\<forall>x\<in>set (get_buf b' ?c2). read_ok n x" for b'
    using ok rq by (cases b') (auto simp: ctl2_ok_def dest: spec [of _ BActive] spec [of _ BPriority] spec [of _ BRead] spec [of _ BWrite])
  have ok2: "ctl2_ok n ?c2" using ok bufs by (simp add: ctl2_ok_def)
  have o2: "ctl2_owed ?c2 = ctl2_owed c + owed_reads [q]" by (simp add: ctl2_owed_def ac_simps)
  let ?r = "rb_remove i (get_buf b ?c2)"
  have rem: "owed_reads ?r + owed_reads [q] = owed_reads (get_buf b ?c2)" using owed_remove [OF i2(1)] i2(2) by simp
  have "ctl2_owed (set_buf b ?r ?c2) + owed_reads (get_buf b ?c2) = ctl2_owed c + owed_reads [q] + owed_reads ?r"
    using owed_set_buf [of b ?r ?c2] o2 by simp
  then have "ctl2_owed (set_buf b ?r ?c2) + owed_reads (get_buf b ?c2) = ctl2_owed c + owed_reads (get_buf b ?c2)"
    using rem by (simp add: ac_simps)
  then have "ctl2_owed (set_buf b ?r ?c2) = ctl2_owed c" by simp
  moreover have "ctl2_ok n (set_buf b ?r ?c2)"
    by (rule ok_set_buf [OF ok2]) (use bufs remove_subset [of i "get_buf b ?c2"] in blast)
  moreover have "length (r2_priority (set_buf b ?r ?c2)) \<le> length (r2_priority c)"
    using remove_length [OF i2(1)] by (cases b) auto
  ultimately show ?thesis by (simp add: Let_def keeps_reads_def ref_kept_def)
qed

lemma r2_issue_ok:
  assumes ok: "ctl2_ok n c" and i: "i < length (get_buf b c)"
  shows "succeeds (r2_issue dev b i c d) (\<lambda>(c', d'). keeps_reads n c c')"
proof -
  let ?q = "get_buf b c ! i"
  have rq: "read_ok n ?q" by (rule buf_read [OF ok i])
  have sz: "stats_sized n (r2_stats c)" using ok by (simp add: ctl2_ok_def)
  have "succeeds (if q_stat_updated ?q then Inr (r2_stats c) else update_request_stats dev d ?q (r2_stats c)) (stats_sized n)"
    using update_stats_ok [OF rq sz, of dev d] sz by simp
  then obtain s where s: "(if q_stat_updated ?q then Inr (r2_stats c) else update_request_stats dev d ?q (r2_stats c)) = Inr s"
    "stats_sized n s" by (auto simp: succeeds_iff)
  let ?q1 = "?q\<lparr>q_stat_updated := True\<rparr>"
  define c1 where "c1 = set_buf b ((get_buf b c)[i := ?q1]) (c\<lparr>r2_stats := s\<rparr>)"
  have "keeps_reads n (c\<lparr>r2_stats := s\<rparr>) c1" unfolding c1_def
    using keeps_at [of i b "c\<lparr>r2_stats := s\<rparr>" ?q1] i by simp
  with keeps_stats [OF s(2)] have k1: "keeps_reads n c c1" using keeps_reads_trans by blast
  have ok1: "ctl2_ok n c1" using k1 ok by (simp add: keeps_reads_def)
  have i1: "i < length (get_buf b c1)" "get_buf b c1 ! i = ?q1" using i by (simp_all add: c1_def)
  let ?p = "?q1\<lparr>q_depart := r2_clk c1 + read_latency dev\<rparr>"
  have sp: "same_request ?p (get_buf b c1 ! i)" "same_request ?q1 (get_buf b c1 ! i)" by (simp_all add: i1(2))
  note leave = leave_buffer [OF i1(1) sp(1) ok1] leave_buffer [OF i1(1) sp(2) ok1]
  note move = move_active [OF i1(1) i1(2) [symmetric] ok1, unfolded Let_def]
  have "succeeds (r2_issue dev b i c d) (\<lambda>(c', d'). keeps_reads n c1 c')"
    unfolding r2_issue_def Let_def s(1) bindR_Inr c1_def [symmetric]
    using leave(1,4) move by (simp add: rb_enqueue_def split: option.splits)
  then show ?thesis using keeps_reads_trans [OF k1] by (auto elim!: succeeds_mono)
qed

section \<open>Refreshes\<close>

text \<open>
  The number of ticks that a controller runs before the priority buffer can be full: what is left of the
  current refresh interval, and an interval for every round of refreshes that the buffer still takes.
\<close>

definition ref_ok :: "'d R2Device \<Rightarrow> R2Controller \<Rightarrow> bool" where
  "ref_ok dev c \<longleftrightarrow> 0 < num_ranks dev \<and> 0 < nREFI dev \<and> ref_clk c < ref_next c"

definition safe_ticks :: "'d R2Device \<Rightarrow> R2Controller \<Rightarrow> nat" where
  "safe_ticks dev c = nat (ref_next c - ref_clk c) - 1 + (priority_size + 1 - length (r2_priority c)) div num_ranks dev * nat (nREFI dev)"

lemma safe_kept: "ref_kept c c' \<Longrightarrow> safe_ticks dev c \<le> safe_ticks dev c'"
  by (auto simp: safe_ticks_def ref_kept_def intro!: mult_le_mono1 div_le_mono)

lemma send_refreshes_ok:
  assumes "all_bank_refresh dev \<noteq> 0"
  shows "unless_refused refresh_failed (length (r2_priority c) + length rs > priority_size + 1) (send_refreshes dev rs c) (\<lambda>c'.
    (ctl2_ok n c \<longrightarrow> ctl2_ok n c') \<and> ctl2_owed c' = ctl2_owed c \<and> ref_clk c' = ref_clk c \<and> ref_next c' = ref_next c \<and>
    length (r2_priority c') = length (r2_priority c) + length rs)"
proof (induction rs arbitrary: c)
  case (Cons r rs)
  let ?q = "(r2_maintenance (refresh_vec dev (r2_channel c) r) (all_bank_refresh dev))\<lparr>q_final := request_translations dev (all_bank_refresh dev)\<rparr>"
  let ?c = "c\<lparr>r2_priority := r2_priority c @ [?q]\<rparr>"
  show ?case
  proof (cases "length (r2_priority c) \<le> priority_size")
    case False
    then show ?thesis by (simp add: priority_send_def rb_enqueue_def Let_def)
  next
    case True
    have q: "q_type ?q \<noteq> 0" "read_ok n ?q" using assms by (simp_all add: r2_maintenance_def read_ok_def)
    have o: "ctl2_owed ?c = ctl2_owed c" using q(1) by (simp add: ctl2_owed_def)
    have k: "ctl2_ok n ?c" if "ctl2_ok n c"
    proof -
      have "\<forall>x\<in>set (r2_priority c). read_ok n x" using that unfolding ctl2_ok_def by (metis get_buf.simps(2))
      then have "ctl2_ok n (set_buf BPriority (r2_priority c @ [?q]) c)" using q(2) by (intro ok_set_buf [OF that]) auto
      then show ?thesis by simp
    qed
    have "send_refreshes dev (r # rs) c = send_refreshes dev rs ?c"
      using True by (simp add: priority_send_def rb_enqueue_def Let_def r2_maintenance_def)
    with Cons.IH [of ?c] show ?thesis using o k by (auto elim!: unless_refused_mono)
  qed
qed simp

lemma refresh_tick_ok:
  assumes "all_bank_refresh dev \<noteq> 0" "ref_ok dev c"
  shows "unless_refused refresh_failed (safe_ticks dev c = 0) (refresh_tick dev c) (\<lambda>c'.
    (ctl2_ok n c \<longrightarrow> ctl2_ok n c') \<and> ctl2_owed c' = ctl2_owed c \<and> ref_ok dev c' \<and> safe_ticks dev c \<le> Suc (safe_ticks dev c'))"
proof (cases "ref_clk c + 1 = ref_next c")
  case False
  then have "ref_clk c + 1 < ref_next c" using assms(2) by (simp add: ref_ok_def)
  moreover have "ctl2_ok n (c\<lparr>ref_clk := x\<rparr>) = ctl2_ok n c" "ctl2_owed (c\<lparr>ref_clk := x\<rparr>) = ctl2_owed c" for x
    by (simp_all add: ctl2_ok_def ctl2_owed_def)
  ultimately show ?thesis using False assms(2) by (simp add: refresh_tick_def Let_def ref_ok_def safe_ticks_def)
next
  case True
  let ?R = "num_ranks dev" and ?N = "nat (nREFI dev)"
  let ?c = "c\<lparr>ref_clk := ref_next c, ref_next := ref_next c + nREFI dev\<rparr>"
  let ?room = "\<lambda>l. (priority_size + 1 - l) div ?R"
  have R: "0 < ?R" "0 < nREFI dev" using assms(2) by (simp_all add: ref_ok_def)
  have fr: "ctl2_ok n ?c = ctl2_ok n c" "ctl2_owed ?c = ctl2_owed c" by (simp_all add: ctl2_ok_def ctl2_owed_def)
  have st: "safe_ticks dev c = ?room (length (r2_priority c)) * ?N" using True by (simp add: safe_ticks_def flip: True)
  have full: "safe_ticks dev c = 0" if "length (r2_priority c) + ?R > priority_size + 1"
    using that R by (simp add: st)
  have more: "safe_ticks dev c \<le> Suc (safe_ticks dev c')"
    if "ref_clk c' = ref_next c" "ref_next c' = ref_next c + nREFI dev" "length (r2_priority c') = length (r2_priority c) + ?R" for c'
  proof -
    have "?room (length (r2_priority c)) \<le> Suc (?room (length (r2_priority c) + ?R))"
    proof (cases "?R \<le> priority_size + 1 - length (r2_priority c)")
      case True
      then show ?thesis using R by (subst le_div_geq) (simp_all add: diff_diff_eq)
    qed simp
    then have "?room (length (r2_priority c)) * ?N \<le> Suc (?room (length (r2_priority c) + ?R)) * ?N" by (rule mult_le_mono1)
    moreover have "safe_ticks dev c' = ?N - 1 + ?room (length (r2_priority c) + ?R) * ?N" by (simp add: safe_ticks_def that)
    ultimately show ?thesis using R(2) by (simp add: st)
  qed
  have "refresh_tick dev c = send_refreshes dev [0..<?R] ?c" using True by (simp add: refresh_tick_def Let_def)
  moreover have "unless_refused refresh_failed (safe_ticks dev c = 0) (send_refreshes dev [0..<?R] ?c) (\<lambda>c'.
    (ctl2_ok n c \<longrightarrow> ctl2_ok n c') \<and> ctl2_owed c' = ctl2_owed c \<and> ref_ok dev c' \<and> safe_ticks dev c \<le> Suc (safe_ticks dev c'))"
    by (rule unless_refused_mono [OF send_refreshes_ok [OF assms(1), of ?c "[0..<?R]" n]])
      (use full more R fr in \<open>auto simp: ref_ok_def\<close>)
  ultimately show ?thesis by simp
qed

section \<open>A tick\<close>

lemma serve_ok:
  assumes "serve_completed_reads c = (called, c')" "ctl2_ok n c"
  shows "ctl2_ok n c'" "ctl2_owed c = mset (map r2_key called) + ctl2_owed c'" "ref_kept c c'"
    "\<forall>q\<in>set called. q_type q = 0 \<and> read_ok n q"
proof -
  have "ctl2_ok n c' \<and> ctl2_owed c = mset (map r2_key called) + ctl2_owed c' \<and> ref_kept c c' \<and> (\<forall>q\<in>set called. q_type q = 0 \<and> read_ok n q)"
  proof (cases "r2_pending c")
    case Nil
    then show ?thesis using assms by (simp add: serve_completed_reads_def ref_kept_def)
  next
    case (Cons q qs)
    then have q: "q_type q = 0" "read_ok n q" "q_callback q" using assms(2) by (auto simp: ctl2_ok_def read_ok_def)
    show ?thesis
    proof (cases "q_depart q \<le> r2_clk c")
      case False
      then show ?thesis using assms Cons by (simp add: serve_completed_reads_def ref_kept_def)
    next
      case True
      have lat: "stats_sized n (t\<lparr>s_read_latency := x\<rparr>) = stats_sized n t" for t x by (simp add: stats_sized_def)
      define s where "s = (if q_depart q - q_arrive q > 1
        then (r2_stats c)\<lparr>s_read_latency := s_read_latency (r2_stats c) + (q_depart q - q_arrive q)\<rparr> else r2_stats c)"
      have s: "c' = c\<lparr>r2_pending := qs, r2_stats := s\<rparr>" "called = [q]" "stats_sized n s"
        using assms True Cons q(3) by (simp_all add: serve_completed_reads_def Let_def s_def lat ctl2_ok_def)
      show ?thesis using assms(2) s Cons q by (auto simp: ctl2_ok_def ctl2_owed_def ref_kept_def)
    qed
  qed
  then show "ctl2_ok n c'" "ctl2_owed c = mset (map r2_key called) + ctl2_owed c'" "ref_kept c c'"
    "\<forall>q\<in>set called. q_type q = 0 \<and> read_ok n q" by simp_all
qed

lemma ref_ok_kept: "ref_kept c c' \<Longrightarrow> ref_ok dev c = ref_ok dev c'"
  by (simp add: ref_ok_def ref_kept_def)

lemma controller_tick_ok:
  assumes "all_bank_refresh dev \<noteq> 0" "ctl2_ok n c" "ref_ok dev c"
  shows "unless_refused refresh_failed (safe_ticks dev c = 0) (r2_tick p dev c d) (\<lambda>(called, c', d').
    ctl2_ok n c' \<and> ref_ok dev c' \<and> safe_ticks dev c \<le> Suc (safe_ticks dev c') \<and>
    ctl2_owed c = mset (map r2_key called) + ctl2_owed c' \<and> (\<forall>q\<in>set called. q_type q = 0 \<and> read_ok n q))"
proof -
  let ?c1 = "c\<lparr>r2_clk := r2_clk c + 1\<rparr>"
  let ?c2 = "?c1\<lparr>r2_stats := count_queues ?c1\<rparr>"
  obtain called c3 where s: "serve_completed_reads ?c2 = (called, c3)" by force
  have ok2: "ctl2_ok n ?c2" "ctl2_owed ?c2 = ctl2_owed c" "ref_kept c ?c2"
    using assms(2) by (auto simp: ctl2_ok_def ctl2_owed_def ref_kept_def stats_sized_def count_queues_def Let_def)
  note k3 = serve_ok [OF s ok2(1)]
  have kept: "ref_kept c c3" using ok2(3) k3(3) by (simp add: ref_kept_def)
  have r3: "ref_ok dev c3" using assms(3) ref_ok_kept [OF kept, of dev] by simp
  have rest: "unless_refused refresh_failed B (case schedule_request p dev d c4 of (None, c5) \<Rightarrow> Inr (called, c5, d)
       | (Some (b, i), c5) \<Rightarrow> bindR (r2_issue dev b i c5 d) (\<lambda>(c6, d1). Inr (called, c6, d1)))
     (\<lambda>(called', c', d'). called' = called \<and> keeps_reads n c4 c')" if "ctl2_ok n c4" for c4 B
  proof -
    obtain loc c5 where sch: "schedule_request p dev d c4 = (loc, c5)" by force
    note k5 = schedule_ok [OF sch]
    show ?thesis
    proof (cases loc)
      case None
      then show ?thesis using k5(1) [of n] by (simp add: sch)
    next
      case (Some bi)
      obtain b i where bi: "bi = (b, i)" by force
      have i: "i < length (get_buf b c5)" using k5(2) Some bi by (simp add: in_buffer_def)
      have "ctl2_ok n c5" using k5(1) [of n] that by (simp add: keeps_reads_def)
      from r2_issue_ok [OF this i, of dev d] obtain c6 d1 where "r2_issue dev b i c5 d = Inr (c6, d1)" "keeps_reads n c5 c6"
        by (auto simp: succeeds_iff)
      then show ?thesis using keeps_reads_trans [OF k5(1)] by (simp add: sch Some bi)
    qed
  qed
  have "unless_refused refresh_failed (safe_ticks dev c = 0) (refresh_tick dev c3) (\<lambda>c4. ctl2_ok n c4 \<and> ctl2_owed c4 = ctl2_owed c3 \<and>
      ref_ok dev c4 \<and> safe_ticks dev c \<le> Suc (safe_ticks dev c4))"
    by (rule unless_refused_mono [OF refresh_tick_ok [OF assms(1) r3]]) (use safe_kept [OF kept, of dev] k3(1) in auto)
  then have "unless_refused refresh_failed (safe_ticks dev c = 0) (refresh_tick dev c3) (\<lambda>c4.
      unless_refused refresh_failed (safe_ticks dev c = 0) (case schedule_request p dev d c4 of (None, c5) \<Rightarrow> Inr (called, c5, d)
       | (Some (b, i), c5) \<Rightarrow> bindR (r2_issue dev b i c5 d) (\<lambda>(c6, d1). Inr (called, c6, d1)))
     (\<lambda>(called', c', d'). ctl2_ok n c' \<and> ref_ok dev c' \<and> safe_ticks dev c \<le> Suc (safe_ticks dev c') \<and>
       ctl2_owed c = mset (map r2_key called') + ctl2_owed c' \<and> (\<forall>q\<in>set called'. q_type q = 0 \<and> read_ok n q)))"
  proof (rule unless_refused_mono)
    fix c4 assume a: "ctl2_ok n c4 \<and> ctl2_owed c4 = ctl2_owed c3 \<and> ref_ok dev c4 \<and> safe_ticks dev c \<le> Suc (safe_ticks dev c4)"
    have more: "safe_ticks dev c \<le> Suc (safe_ticks dev c')" "ref_ok dev c'" "ctl2_ok n c'" "ctl2_owed c' = ctl2_owed c3"
      if "keeps_reads n c4 c'" for c'
    proof -
      have r: "ref_kept c4 c'" using that by (simp add: keeps_reads_def)
      show "safe_ticks dev c \<le> Suc (safe_ticks dev c')" using a safe_kept [OF r, of dev] by linarith
      show "ref_ok dev c'" using a ref_ok_kept [OF r, of dev] by simp
      show "ctl2_ok n c'" "ctl2_owed c' = ctl2_owed c3" using a that by (simp_all add: keeps_reads_def)
    qed
    show "unless_refused refresh_failed (safe_ticks dev c = 0) (case schedule_request p dev d c4 of (None, c5) \<Rightarrow> Inr (called, c5, d)
       | (Some (b, i), c5) \<Rightarrow> bindR (r2_issue dev b i c5 d) (\<lambda>(c6, d1). Inr (called, c6, d1)))
     (\<lambda>(called', c', d'). ctl2_ok n c' \<and> ref_ok dev c' \<and> safe_ticks dev c \<le> Suc (safe_ticks dev c') \<and>
       ctl2_owed c = mset (map r2_key called') + ctl2_owed c' \<and> (\<forall>q\<in>set called'. q_type q = 0 \<and> read_ok n q))"
      by (rule unless_refused_mono [OF rest]) (use a more k3(2,4) ok2(2) in auto)
  qed
  then show ?thesis unfolding r2_tick_def Let_def s prod.case by simp
qed

end
