(* ===== verification/Ramulator2_Mapper.thy ===== *)
theory Ramulator2_Mapper
  imports Complex_Main "HOL-Library.Word"
begin

text \<open>
  The address mapping of the shipped configuration of Ramulator 2, \<open>Skylake\<close> in
  \<open>linear_mappers.cpp\<close>: the fields of an address, hashed with bits of the row and the column.
\<close>

unbundle bit_operations_syntax

section \<open>Setting up\<close>

fun calc_log2 :: "nat \<Rightarrow> nat" where
  "calc_log2 v = (if v div 2 = 0 then 0 else Suc (calc_log2 (v div 2)))"

declare calc_log2.simps [simp del]

record LinearMapper =
  m_addr_bits :: "nat list"
  m_tx_offset :: nat

definition mapper_setup :: "nat list \<Rightarrow> nat \<Rightarrow> nat \<Rightarrow> LinearMapper" where
  "mapper_setup counts prefetch_size channel_width =
     (let bits = map calc_log2 counts; col = length counts - 1
      in \<lparr>m_addr_bits = bits[col := bits ! col - calc_log2 prefetch_size],
          m_tx_offset = calc_log2 (prefetch_size * channel_width div 8)\<rparr>)"

section \<open>The mapping\<close>

text \<open>The lower bits, and the address that is left.\<close>

definition slice_lower_bits :: "int \<Rightarrow> nat \<Rightarrow> int \<times> int" where
  "slice_lower_bits a k = (a AND (push_bit k 1 - 1), drop_bit k a)"

text \<open>Bit \<open>i\<close> of a field is combined with bit \<open>j\<close> of another.\<close>

definition hash_bit :: "nat \<Rightarrow> int \<Rightarrow> nat \<Rightarrow> int \<Rightarrow> int" where
  "hash_bit i v j w =
     (let b1 = drop_bit i v AND 1; b2 = drop_bit j w AND 1; result_bit = b1 XOR b2
      in (v AND NOT (push_bit i 1)) OR push_bit i result_bit)"

definition skylake_apply :: "LinearMapper \<Rightarrow> int \<Rightarrow> int list" where
  "skylake_apply mp a =
     (let bits = m_addr_bits mp;
          (v0, a1) = slice_lower_bits (drop_bit (m_tx_offset mp) a) (bits ! 0);
          (v5, a2) = slice_lower_bits a1 (bits ! 5);
          (v3, a3) = slice_lower_bits a2 (bits ! 3);
          (v2, a4) = slice_lower_bits a3 (bits ! 2);
          (v1, a5) = slice_lower_bits a4 (bits ! 1);
          (v4, a6) = slice_lower_bits a5 (bits ! 4);
          w3 = hash_bit 0 v3 1 v5; x3 = hash_bit 1 w3 0 v4;
          w2 = hash_bit 0 v2 1 v4; x2 = hash_bit 1 w2 2 v4;
          x1 = hash_bit 0 v1 3 v4
      in [v0, x1, x2, x3, v4, v5])"

section \<open>Lemmas\<close>

lemma slice_eq: "slice_lower_bits a k = (take_bit k a, drop_bit k a)"
  by (simp add: slice_lower_bits_def take_bit_eq_mask mask_eq_exp_minus_1 push_bit_eq_mult)

text \<open>Hashing is an exclusive or, so it can be undone.\<close>

lemma hash_xor: "hash_bit i v j w = v XOR push_bit i (drop_bit j w AND 1)"
  by (rule bit_eqI) (auto simp: hash_bit_def Let_def bit_simps)

lemma hash_inject: "hash_bit i v j w = hash_bit i v' j w \<longleftrightarrow> v = v'"
  unfolding hash_xor by (metis xor_self_eq xor.right_neutral xor.assoc)

lemma hash_small:
  assumes "take_bit k v = v" "i < k"
  shows "take_bit k (hash_bit i v j w) = hash_bit i v j w"
proof -
  have "take_bit k (push_bit i (drop_bit j w AND 1)) = push_bit i (drop_bit j w AND 1)"
    using assms(2) by (cases "bit w j") (simp_all add: and_one_eq mod_2_eq_odd bit_iff_odd_drop_bit [symmetric] push_bit_of_1 take_bit_int_eq_self)
  then show ?thesis unfolding hash_xor by (simp add: assms(1))
qed

lemma take_bit_split:
  fixes a b :: int
  assumes "take_bit k a = take_bit k b" "take_bit l (drop_bit k a) = take_bit l (drop_bit k b)"
  shows "take_bit (k + l) a = take_bit (k + l) b"
proof (rule bit_eqI)
  fix i
  have "bit (take_bit k a) i = bit (take_bit k b) i" "bit (take_bit l (drop_bit k a)) (i - k) = bit (take_bit l (drop_bit k b)) (i - k)"
    using assms by simp_all
  then show "bit (take_bit (k + l) a) i = bit (take_bit (k + l) b) i" by (auto simp: bit_simps)
qed

lemma skylake_inject:
  assumes "skylake_apply mp a = skylake_apply mp b" "length (m_addr_bits mp) = 6"
  shows "take_bit (sum_list (m_addr_bits mp)) (drop_bit (m_tx_offset mp) a) =
    take_bit (sum_list (m_addr_bits mp)) (drop_bit (m_tx_offset mp) b)"
proof -
  obtain n0 n1 n2 n3 n4 n5 where bits: "m_addr_bits mp = [n0, n1, n2, n3, n4, n5]"
    using assms(2) by (auto simp: numeral_eq_Suc length_Suc_conv)
  let ?a = "drop_bit (m_tx_offset mp) a" and ?b = "drop_bit (m_tx_offset mp) b"
  have e: "take_bit n0 ?a = take_bit n0 ?b" "take_bit n5 (drop_bit n0 ?a) = take_bit n5 (drop_bit n0 ?b)"
    "take_bit n3 (drop_bit (n0 + n5) ?a) = take_bit n3 (drop_bit (n0 + n5) ?b)"
    "take_bit n2 (drop_bit (n0 + n5 + n3) ?a) = take_bit n2 (drop_bit (n0 + n5 + n3) ?b)"
    "take_bit n1 (drop_bit (n0 + n5 + n3 + n2) ?a) = take_bit n1 (drop_bit (n0 + n5 + n3 + n2) ?b)"
    "take_bit n4 (drop_bit (n0 + n5 + n3 + n2 + n1) ?a) = take_bit n4 (drop_bit (n0 + n5 + n3 + n2 + n1) ?b)"
    using assms(1) by (auto simp: skylake_apply_def slice_eq bits Let_def hash_inject ac_simps)
  from take_bit_split [OF take_bit_split [OF take_bit_split [OF take_bit_split [OF take_bit_split [OF e(1) e(2)] e(3)] e(4)] e(5)] e(6)]
  show ?thesis by (simp add: bits ac_simps)
qed

lemma skylake_range:
  assumes "length (m_addr_bits mp) = 6" "1 \<le> m_addr_bits mp ! 1" "2 \<le> m_addr_bits mp ! 2" "2 \<le> m_addr_bits mp ! 3" "i < 6"
  shows "0 \<le> skylake_apply mp a ! i" "skylake_apply mp a ! i < 2 ^ (m_addr_bits mp ! i)"
proof -
  obtain n0 n1 n2 n3 n4 n5 where bits: "m_addr_bits mp = [n0, n1, n2, n3, n4, n5]"
    using assms(1) by (auto simp: numeral_eq_Suc length_Suc_conv)
  have "i \<in> {0, 1, 2, 3, 4, 5}" using assms(5) by auto
  then have "take_bit (m_addr_bits mp ! i) (skylake_apply mp a ! i) = skylake_apply mp a ! i"
    using assms(2-4) by (auto simp: skylake_apply_def slice_eq bits Let_def numeral_eq_Suc hash_small)
  then show "0 \<le> skylake_apply mp a ! i" "skylake_apply mp a ! i < 2 ^ (m_addr_bits mp ! i)"
    by (metis take_bit_nonnegative, metis take_bit_int_less_exp)
qed

text \<open>The channel of an address is one of those that were counted.\<close>

lemma log2_le: "0 < v \<Longrightarrow> 2 ^ calc_log2 v \<le> v"
proof (induction v rule: calc_log2.induct)
  case (1 v)
  show ?case
  proof (cases "v div 2 = 0")
    case True
    then show ?thesis using "1.prems" by (simp add: calc_log2.simps [of v])
  next
    case False
    then have "2 ^ calc_log2 (v div 2) \<le> v div 2" using "1.IH" by simp
    then show ?thesis using False by (simp add: calc_log2.simps [of v])
  qed
qed

lemma skylake_channel:
  assumes "length counts = 6" "0 < counts ! 0"
  shows "0 \<le> skylake_apply (mapper_setup counts pre w) a ! 0"
    "nat (skylake_apply (mapper_setup counts pre w) a ! 0) < counts ! 0"
proof -
  let ?v = "skylake_apply (mapper_setup counts pre w) a ! 0" and ?k = "calc_log2 (counts ! 0)"
  have "\<exists>x. ?v = take_bit ?k x"
    using assms(1) by (auto simp: skylake_apply_def slice_eq mapper_setup_def Let_def nth_list_update)
  then obtain x where x: "?v = take_bit ?k x" by blast
  then have "0 \<le> ?v" "?v < 2 ^ ?k" by (simp_all add: take_bit_int_less_exp)
  moreover have "(2::nat) ^ ?k \<le> counts ! 0" by (rule log2_le [OF assms(2)])
  moreover have "(2::int) ^ ?k = int (2 ^ ?k)" by simp
  ultimately show "0 \<le> ?v" "nat ?v < counts ! 0" by linarith+
qed

end
