(* ===== verification/Ramulator2_Host.thy ===== *)
theory Ramulator2_Host
  imports Ramulator2_Conservation Ramulator2_Mapper Dram_Host
begin

text \<open>
  Ramulator 2 behind its controller: the contract of the wrapper is proved for the memory system, and
  the properties follow for the two together.
\<close>

section \<open>The wrapper\<close>

text \<open>\<open>getRequestFromAccEvent\<close> makes the request; its address is a signed one.\<close>

definition r2_wrapper_send ::
  "'d R2Device \<Rightarrow> LinearMapper \<Rightarrow> addr \<Rightarrow> bool \<Rightarrow> nat \<Rightarrow> bool \<Rightarrow> 'd R2System \<Rightarrow> (bool \<times> 'd R2System) res" where
  "r2_wrapper_send dev mp a w c pf s =
     system_send dev (\<lambda>x. skylake_apply mp (sint x)) ((r2_request a (if w then 1 else 0) (int c))\<lparr>q_prefetch := pf\<rparr>) s"

definition ramulator2_ops :: "R2Params \<Rightarrow> 'd R2Device \<Rightarrow> LinearMapper \<Rightarrow> 'd R2System r2_ops" where
  "ramulator2_ops p dev mp =
     \<lparr>r2ops_send = r2_wrapper_send dev mp,
      r2ops_tick = (\<lambda>s. bindR (wrapper_tick p dev s) (\<lambda>(called, s1). Inr (map r2_key called, s1)))\<rparr>"

definition sys_owed :: "'d R2System \<Rightarrow> (addr \<times> nat) multiset" where
  "sys_owed s = sum_list (map ctl2_owed (m_controllers s))"

definition ctls_ok :: "'d R2Device \<Rightarrow> nat \<Rightarrow> nat \<Rightarrow> R2Controller list \<Rightarrow> bool" where
  "ctls_ok dev n k cs \<longleftrightarrow> (\<forall>c\<in>set cs. ctl2_ok n c \<and> ref_ok dev c \<and> k \<le> safe_ticks dev c)"

definition sys_ok :: "'d R2Device \<Rightarrow> LinearMapper \<Rightarrow> nat \<Rightarrow> nat \<Rightarrow> 'd R2System \<Rightarrow> bool" where
  "sys_ok dev mp n k s \<longleftrightarrow> all_bank_refresh dev \<noteq> 0 \<and> ctls_ok dev n k (m_controllers s) \<and>
     (\<forall>a. 0 \<le> skylake_apply mp a ! 0 \<and> nat (skylake_apply mp a ! 0) < length (m_controllers s))"

section \<open>Sending\<close>

lemma ok_pending: "ctl2_ok n c \<Longrightarrow> q_type q = 0 \<Longrightarrow> read_ok n q \<Longrightarrow> ctl2_ok n (c\<lparr>r2_pending := r2_pending c @ [q]\<rparr>)"
  by (auto simp: ctl2_ok_def)

lemma ok_enqueue:
  assumes "ctl2_ok n c" "read_ok n q"
  shows "ctl2_ok n (c\<lparr>r2_read := r2_read c @ [q]\<rparr>)" "ctl2_ok n (c\<lparr>r2_write := r2_write c @ [q]\<rparr>)"
proof -
  have b: "\<forall>x\<in>set (get_buf b c @ [q]). read_ok n x" for b using assms by (auto simp: ctl2_ok_def)
  from ok_set_buf [OF assms(1) b [of BRead], of BRead] ok_set_buf [OF assms(1) b [of BWrite], of BWrite]
  show "ctl2_ok n (c\<lparr>r2_read := r2_read c @ [q]\<rparr>)" "ctl2_ok n (c\<lparr>r2_write := r2_write c @ [q]\<rparr>)" by simp_all
qed

lemma controller_send_ok:
  assumes "ctl2_ok n c" "q_type q = 0 \<or> q_type q = 1" "read_ok n q"
  shows "succeeds (r2_send dev q c) (\<lambda>(ok, c'). ctl2_ok n c' \<and> ref_kept c c' \<and>
    ctl2_owed c' = ctl2_owed c + (if ok \<and> q_type q = 0 then {#r2_key q#} else {#}))"
proof -
  let ?c = "c\<lparr>r2_stats := count_send (q_type q) (r2_stats c)\<rparr>"
  have "stats_sized n (count_send (q_type q) (r2_stats c))" using assms(1) by (simp add: ctl2_ok_def stats_sized_def count_send_def)
  then have c: "ctl2_ok n ?c" "ctl2_owed ?c = ctl2_owed c" "ref_kept c ?c"
    using keeps_stats [of n "count_send (q_type q) (r2_stats c)" c] assms(1) by (simp_all add: keeps_reads_def)
  have u: "r2_key (q\<lparr>q_final := x, q_depart := y\<rparr>) = r2_key q" "r2_key (q\<lparr>q_final := x, q_arrive := y\<rparr>) = r2_key q"
    "read_ok n (q\<lparr>q_final := x, q_depart := y\<rparr>) = read_ok n q" "read_ok n (q\<lparr>q_final := x, q_arrive := y\<rparr>) = read_ok n q" for x y
    by (simp_all add: r2_key_def read_ok_def)
  show ?thesis
    using assms(2,3) c ok_pending [OF c(1)] ok_enqueue [OF c(1)] unfolding r2_send_def Let_def
    by (auto simp: rb_enqueue_def u ctl2_owed_def ref_kept_def ac_simps)
qed

lemma sum_list_update_eq:
  fixes xs :: "'a multiset list"
  assumes "i < length xs"
  shows "sum_list (xs[i := y]) + xs ! i = sum_list xs + y"
proof -
  have "sum_list xs = sum_list (take i xs @ [xs ! i] @ drop (Suc i) xs)" using id_take_nth_drop [OF assms] by simp
  then show ?thesis using upd_conv_take_nth_drop [OF assms, of y] by (simp add: ac_simps)
qed

lemma wrapper_send_ok:
  assumes "sys_ok dev mp n k s" "c < n"
  shows "succeeds (r2_wrapper_send dev mp a w c pf s) (\<lambda>(ok, s'). sys_ok dev mp n k s' \<and>
    sys_owed s' = sys_owed s + (if ok \<and> \<not> w then {#(a, c)#} else {#}))"
proof -
  let ?v = "skylake_apply mp (sint a)" and ?cs = "m_controllers s"
  let ?q = "(r2_request a (if w then 1 else 0) (int c))\<lparr>q_prefetch := pf, q_addr_vec := ?v\<rparr>"
  let ?i = "nat (?v ! 0)"
  have i: "0 \<le> ?v ! 0" "?i < length ?cs" using assms(1) by (auto simp: sys_ok_def)
  have q: "q_type ?q = (if w then 1 else 0)" "r2_key ?q = (a, c)" "read_ok n ?q"
    using assms(2) by (simp_all add: r2_request_def r2_key_def read_ok_def)
  have c: "ctl2_ok n (?cs ! ?i)" "ref_ok dev (?cs ! ?i)" "k \<le> safe_ticks dev (?cs ! ?i)"
    using assms(1) i(2) by (auto simp: sys_ok_def ctls_ok_def)
  have "q_type ?q = 0 \<or> q_type ?q = 1" using q(1) by simp
  from controller_send_ok [OF c(1) this q(3), of dev, unfolded q(1,2)] obtain ok c' where c': "r2_send dev ?q (?cs ! ?i) = Inr (ok, c')"
    "ctl2_ok n c'" "ref_kept (?cs ! ?i) c'"
    "ctl2_owed c' = ctl2_owed (?cs ! ?i) + (if ok \<and> \<not> w then {#(a, c)#} else {#})"
    unfolding succeeds_iff by (auto simp: q(1) split: if_splits)
  have ref: "ref_ok dev c'" "k \<le> safe_ticks dev c'"
    using c(2,3) ref_ok_kept [OF c'(3), of dev] safe_kept [OF c'(3), of dev] by simp_all
  have ok: "ctls_ok dev n k (?cs[?i := c'])"
    using c'(2) ref assms(1) set_update_subset_insert [of ?cs ?i c'] by (auto simp: sys_ok_def ctls_ok_def)
  have owed: "sum_list ((map ctl2_owed ?cs)[?i := ctl2_owed c']) =
    sum_list (map ctl2_owed ?cs) + (if ok \<and> \<not> w then {#(a, c)#} else {#})"
    using sum_list_update_eq [of ?i "map ctl2_owed ?cs" "ctl2_owed c'"] i(2) c'(4) by simp
  have r: "r2_wrapper_send dev mp a w c pf s = Inr (ok,
      let s1 = s\<lparr>m_controllers := ?cs[?i := c']\<rparr> in
      if \<not> ok then s1 else if w then s1\<lparr>s_num_write_requests := s_num_write_requests s1 + 1\<rparr>
      else s1\<lparr>s_num_read_requests := s_num_read_requests s1 + 1\<rparr>)"
    using i c'(1) by (simp add: r2_wrapper_send_def system_send_def r2_request_def Let_def)
  show ?thesis unfolding r
    using ok owed assms(1) i(2) by (simp add: Let_def sys_ok_def sys_owed_def map_update)
qed

section \<open>A tick\<close>

lemma tick_controllers_ok:
  assumes "all_bank_refresh dev \<noteq> 0" "ctls_ok dev n k cs"
  shows "unless_refused refresh_failed (k = 0) (tick_controllers p dev cs d) (\<lambda>(called, cs', d').
    length cs' = length cs \<and> ctls_ok dev n (k - 1) cs' \<and>
    sum_list (map ctl2_owed cs) = mset (map r2_key called) + sum_list (map ctl2_owed cs'))"
  using assms(2)
proof (induction cs arbitrary: d)
  case (Cons c cs)
  have c: "ctl2_ok n c" "ref_ok dev c" "k \<le> safe_ticks dev c" "ctls_ok dev n k cs"
    using Cons.prems by (simp_all add: ctls_ok_def)
  have "unless_refused refresh_failed (k = 0) (r2_tick p dev c d) (\<lambda>(called, c', d').
    ctl2_ok n c' \<and> ref_ok dev c' \<and> k \<le> Suc (safe_ticks dev c') \<and> ctl2_owed c = mset (map r2_key called) + ctl2_owed c')"
    using controller_tick_ok [OF assms(1) c(1,2), of p d] c(3) by (elim unless_refused_mono) auto
  then show ?case
  proof (cases rule: unless_refused_cases)
    case 1
    then show ?thesis by simp
  next
    case (2 x)
    obtain called c' d' where x: "x = (called, c', d')" by (cases x)
    show ?thesis
      using Cons.IH [OF c(4), of d'] 2 x by (auto simp: ctls_ok_def ac_simps elim!: unless_refused_mono)
  qed
qed (simp add: ctls_ok_def)

lemma wrapper_tick_ok:
  assumes "sys_ok dev mp n k s"
  shows "unless_refused refresh_failed (k = 0) (r2ops_tick (ramulator2_ops p dev mp) s) (\<lambda>(called, s').
    sys_ok dev mp n (k - 1) s' \<and> sys_owed s = mset called + sys_owed s')"
proof -
  have a: "all_bank_refresh dev \<noteq> 0" "ctls_ok dev n k (m_controllers s)" using assms by (simp_all add: sys_ok_def)
  show ?thesis
    using tick_controllers_ok [OF a, of p "device_tick dev (m_dram s)"] assms
    by (auto simp: ramulator2_ops_def wrapper_tick_def system_tick_def sys_ok_def sys_owed_def elim!: unless_refused_mono)
qed

interpretation ramulator2: callback_backend "ramulator2_ops p dev mp" "sys_ok dev mp n" sys_owed n refresh_failed
  for p dev mp n
proof
  fix k s c a w pf
  assume "sys_ok dev mp n k s" "c < n"
  then show "succeeds (r2ops_send (ramulator2_ops p dev mp) a w c pf s) (\<lambda>(ok, s'). sys_ok dev mp n k s' \<and>
    sys_owed s' = sys_owed s + (if ok \<and> \<not> w then {#(a, c)#} else {#}))"
    using wrapper_send_ok by (simp add: ramulator2_ops_def)
next
  fix k s
  assume s: "sys_ok dev mp n k s"
  then show "unless_refused refresh_failed (k = 0) (r2ops_tick (ramulator2_ops p dev mp) s) (\<lambda>(called, s').
    sys_ok dev mp n (k - 1) s' \<and> sys_owed s = mset called + sys_owed s')" by (rule wrapper_tick_ok)
  show "sys_ok dev mp n (k - 1) s" using s by (auto simp: sys_ok_def ctls_ok_def intro: le_trans [OF diff_le_self])
qed

section \<open>The shipped configuration\<close>

text \<open>The counts of \<open>DDR4_4Gb_x8\<close> with two ranks, and a device to run the controller on: one whose commands are always ready.\<close>

definition ddr4_counts :: "nat list" where
  "ddr4_counts = [1, 2, 4, 4, 32768, 1024]"

definition shipped_params :: R2Params where
  "shipped_params = \<lparr>wr_low_watermark = 1 / 5, wr_high_watermark = 4 / 5\<rparr>"

definition sample_device :: "unit R2Device" where
  "sample_device = \<lparr>get_preq_command = (\<lambda>t v d. t), check_ready = (\<lambda>t v d. True), check_rowbuffer_hit = (\<lambda>t v d. False),
     check_node_open = (\<lambda>t v d. False), issue_command = (\<lambda>t v d. d), device_tick = id, is_opening = (\<lambda>t. False),
     is_closing = (\<lambda>t. False), request_translations = id, read_latency = 23, bank_level = 3, org_levels = 6,
     nREFI = 10400, num_ranks = 2, all_bank_refresh = 2\<rparr>"

lemma new_sys_ok:
  assumes "length counts = 6" "0 < counts ! 0" "all_bank_refresh dev \<noteq> 0" "0 < num_ranks dev" "0 < nREFI dev" "n \<le> cores"
  shows "sys_ok dev (mapper_setup counts pre w) n (nat (nREFI dev) - 1 + (priority_size + 1) div num_ranks dev * nat (nREFI dev))
     (r2_new_system dev cores (counts ! 0) d)"
    "sys_owed (r2_new_system dev cores (counts ! 0) d) = {#}"
proof -
  have c: "ctl2_ok n (r2_new_controller dev cores i)" "ref_ok dev (r2_new_controller dev cores i)"
    "ctl2_owed (r2_new_controller dev cores i) = {#}"
    "safe_ticks dev (r2_new_controller dev cores i) = nat (nREFI dev) - 1 + (priority_size + 1) div num_ranks dev * nat (nREFI dev)" for i
  proof -
    show "ctl2_ok n (r2_new_controller dev cores i)"
      using assms(6) unfolding ctl2_ok_def by (auto simp: r2_new_controller_def r2_new_stats_def stats_sized_def elim: R2Buf.exhaust) (case_tac b; simp)
  qed (use assms(4,5) in \<open>simp_all add: r2_new_controller_def ref_ok_def ctl2_owed_def safe_ticks_def\<close>)
  show "sys_ok dev (mapper_setup counts pre w) n (nat (nREFI dev) - 1 + (priority_size + 1) div num_ranks dev * nat (nREFI dev))
     (r2_new_system dev cores (counts ! 0) d)"
    using c skylake_channel [OF assms(1,2)] assms(3) by (auto simp: sys_ok_def ctls_ok_def r2_new_system_def)
  show "sys_owed (r2_new_system dev cores (counts ! 0) d) = {#}"
    by (simp add: sys_owed_def r2_new_system_def comp_def c(3))
qed

section \<open>Properties\<close>

text \<open>
  C6: Ramulator 2 attached to the simulator, end to end and for every DRAM device: every history of
  accesses, simulated events and ticks keeps each simulated event exactly once among the completed,
  in-flight and waiting ones, with ordered cycles and exact statistics, and the reads in flight are
  exactly what the channels of Ramulator 2 still owe; nothing can fail but the sending of a refresh,
  and that not before the buffer of the refreshes has taken as many rounds as fit in it.
\<close>

theorem attached_ramulator2_conserves:
  assumes "length counts = 6" "0 < counts ! 0" "all_bank_refresh dev \<noteq> 0" "0 < num_ranks dev" "0 < nREFI dev"
    and "n \<le> cores" "c < d" "Ramulator2_new ests tracked n c d (r2_new_system dev cores (counts ! 0) d0) = Inr m"
    and "length ests = n" "ops_ok n 0 xs" "ticks xs + 1 < 2 ^ 32"
  shows "case r2_ctrl_run (ramulator2_ops p dev (mapper_setup counts pre w)) lineBits xs m of
      Inl e \<Rightarrow> e = refresh_failed \<and> nat (nREFI dev) - 1 + (priority_size + 1) div num_ranks dev * nat (nREFI dev) < ticks xs
    | Inr m' \<Rightarrow>
        mset (map (ev_key \<circ> fst) (completions m')) + mset (map (ev_key \<circ> snd) (inflightRequests m')) +
          mset (map ev_key (notQueuedRequests m')) = op_keys xs \<and>
        (\<forall>p\<in>set (completions m'). ev_state (fst p) = EV_DONE \<and> sCycle (fst p) \<le> issueCycle (fst p) \<and>
           issueCycle (fst p) < snd p \<and> snd p \<le> ticks xs + 1) \<and>
        r2_stats_ok (completions m') (mstats m') \<and>
        mset (map read_key (inflightRequests m')) = sys_owed (wrapper m')"
proof -
  let ?k = "nat (nREFI dev) - 1 + (priority_size + 1) div num_ranks dev * nat (nREFI dev)"
  note i = ramulator2.r2_new_inv [OF assms(7) new_sys_ok(1) [OF assms(1-6), of pre w d0] new_sys_ok(2) [OF assms(1-6)] assms(8,9)]
  have "ops_ok n (curCycle (clock m)) xs" "curCycle (clock m) + ticks xs + 1 < 2 ^ 32"
    using i(3) assms(10,11) by (simp_all add: new_clock_def)
  from ramulator2.r2_run_ok [OF i(1) this, where p = p and lineBits = lineBits] show ?thesis
    using i(2,3) by (cases rule: unless_refused_cases)
      (auto simp: r2_ctrl_inv_def fly_inv_def all_keys_def flying_keys_def new_clock_def list_all_iff done_ok_def)
qed

theorem attached_ramulator2_conserves_witness:
  "\<exists>m m'. Ramulator2_new sample_ests [] 1 476 750 (r2_new_system sample_device 24 1 ()) = Inr m \<and>
     r2_ctrl_run (ramulator2_ops shipped_params sample_device (mapper_setup ddr4_counts 8 64)) 6 sample_ops m = Inr m' \<and>
     mset (map (ev_key \<circ> fst) (completions m')) + mset (map (ev_key \<circ> snd) (inflightRequests m')) +
       mset (map ev_key (notQueuedRequests m')) = {#(False, 64, 0, 0, 40, 0), (True, 4096, 0, 0, 40, 0)#}"
proof -
  obtain m where m: "Ramulator2_new sample_ests [] 1 476 750 (r2_new_system sample_device 24 1 ()) = Inr m"
    by (simp add: Ramulator2_new_def)
  let ?r = "r2_ctrl_run (ramulator2_ops shipped_params sample_device (mapper_setup ddr4_counts 8 64)) 6 sample_ops m"
  have k: "op_keys sample_ops = {#(False, 64, 0, 0, 40, 0), (True, 4096, 0, 0, 40, 0)#}" "ticks sample_ops = 3"
    by (simp_all add: sample_ops_def sample_ev_def ev_key_def)
  have "case ?r of
      Inl e \<Rightarrow> e = refresh_failed \<and> nat (nREFI sample_device) - 1 +
        (priority_size + 1) div num_ranks sample_device * nat (nREFI sample_device) < ticks sample_ops
    | Inr m' \<Rightarrow> mset (map (ev_key \<circ> fst) (completions m')) + mset (map (ev_key \<circ> snd) (inflightRequests m')) +
        mset (map ev_key (notQueuedRequests m')) = op_keys sample_ops \<and>
        (\<forall>p\<in>set (completions m'). ev_state (fst p) = EV_DONE \<and> sCycle (fst p) \<le> issueCycle (fst p) \<and>
           issueCycle (fst p) < snd p \<and> snd p \<le> ticks sample_ops + 1) \<and>
        r2_stats_ok (completions m') (mstats m') \<and>
        mset (map read_key (inflightRequests m')) = sys_owed (wrapper m')"
    by (rule attached_ramulator2_conserves [of ddr4_counts sample_device 1 24 476 750 sample_ests "[]" "()" m sample_ops shipped_params 8 64 6])
      (use m k(2) sample_ops_ok in \<open>simp_all add: ddr4_counts_def sample_device_def sample_ests_def\<close>)
  then show ?thesis using m k by (cases ?r) (auto simp: sample_device_def)
qed

text \<open>
  C16: the scheduler of Ramulator 2 is first ready, first come: with the commands brought up to
  date, no request of the buffer is ready before the chosen one or as ready and earlier, and of equals it is the first.
\<close>

theorem scheduler_first_ready_first_come:
  assumes "buf \<noteq> []"
  shows "\<exists>i<length buf. get_best_request dev d buf = (Some i, map (set_command dev d) buf) \<and>
    (\<forall>j<length buf. \<not> served_before dev d (set_command dev d (buf ! j)) (set_command dev d (buf ! i))) \<and>
    (\<forall>j<i. served_before dev d (set_command dev d (buf ! i)) (set_command dev d (buf ! j)))"
proof -
  let ?b = "map (set_command dev d) buf"
  define i where "i = foldl (frfcfs_compare dev d ?b) 0 [1..<length buf]"
  have pos: "0 < length buf" using assms by simp
  have best: "i < length buf" "\<forall>j<length buf. \<not> served_before dev d (?b ! j) (?b ! i)"
    "\<forall>j<i. served_before dev d (?b ! i) (?b ! j)"
    using best_of [OF pos i_def] by blast+
  have "get_best_request dev d buf = (Some i, ?b)" using assms by (simp add: get_best_request_def i_def Let_def)
  then show ?thesis using best by (intro exI [of _ i]) auto
qed

definition two_reads :: "R2Request list" where
  "two_reads = [(r2_request 64 0 0)\<lparr>q_arrive := 9\<rparr>, (r2_request 128 0 0)\<lparr>q_arrive := 7\<rparr>]"

theorem scheduler_first_ready_first_come_witness:
  "fst (get_best_request sample_device () two_reads) = Some 1"
proof -
  have "two_reads \<noteq> []" by (simp add: two_reads_def)
  from scheduler_first_ready_first_come [OF this, of sample_device "()"] obtain i where
    i: "i < 2" "get_best_request sample_device () two_reads = (Some i, map (set_command sample_device ()) two_reads)"
    "\<forall>j<2. \<not> served_before sample_device () (set_command sample_device () (two_reads ! j)) (set_command sample_device () (two_reads ! i))"
    by (auto simp: two_reads_def)
  have "served_before sample_device () (set_command sample_device () (two_reads ! 1)) (set_command sample_device () (two_reads ! 0))"
    by (simp add: served_before_def set_command_def two_reads_def sample_device_def)
  then have "i \<noteq> 0" using i(3) by (metis one_less_numeral_iff semiring_norm(76))
  then show ?thesis using i(1,2) by auto
qed

text \<open>
  C22: the address mapping of the shipped configuration loses nothing: two addresses that get the same
  channel, rank, bank group, bank, row and column agree in all the bits that the mapping looks at; and
  every coordinate is below the size of its level when the levels that are hashed have the bits for it.
\<close>

theorem skylake_mapping_injective:
  assumes "length (m_addr_bits mp) = 6"
  shows "(skylake_apply mp a = skylake_apply mp b \<longrightarrow>
      take_bit (sum_list (m_addr_bits mp)) (drop_bit (m_tx_offset mp) a) =
      take_bit (sum_list (m_addr_bits mp)) (drop_bit (m_tx_offset mp) b)) \<and>
    (1 \<le> m_addr_bits mp ! 1 \<and> 2 \<le> m_addr_bits mp ! 2 \<and> 2 \<le> m_addr_bits mp ! 3 \<longrightarrow>
      (\<forall>i<6. 0 \<le> skylake_apply mp a ! i \<and> skylake_apply mp a ! i < 2 ^ (m_addr_bits mp ! i)))"
  using skylake_inject [OF _ assms] skylake_range [OF assms] by blast

theorem skylake_mapping_injective_witness:
  "skylake_apply (mapper_setup ddr4_counts 8 64) 0x1234567c0 = [0, 0, 2, 0, 18641, 31] \<and>
   skylake_apply (mapper_setup ddr4_counts 8 64) 0x1234567c0 \<noteq> skylake_apply (mapper_setup ddr4_counts 8 64) 0x034567c0"
proof -
  have mp: "mapper_setup ddr4_counts 8 64 = \<lparr>m_addr_bits = [0, 1, 2, 2, 15, 7], m_tx_offset = 6\<rparr>"
    by (simp add: mapper_setup_def ddr4_counts_def calc_log2.simps Let_def)
  have "skylake_apply (mapper_setup ddr4_counts 8 64) 0x1234567c0 = [0, 0, 2, 0, 18641, 31]"
    unfolding mp by code_simp
  moreover have "take_bit 27 (drop_bit 6 (0x1234567c0 :: int)) \<noteq> take_bit 27 (drop_bit 6 0x034567c0)" by code_simp
  ultimately show ?thesis
    using skylake_mapping_injective [of "mapper_setup ddr4_counts 8 64" "0x1234567c0" "0x034567c0"] by (auto simp: mp)
qed

text \<open>
  C40: a read that Ramulator 2 forwards from its write buffer is called back in the next cycle, but
  its latency is counted from cycle -1: the statistic grows by the whole age of the controller.
\<close>

theorem forwarded_read_latency:
  assumes "0 \<le> r2_clk c" "w \<in> set (r2_write c)" "q_addr w = a" "r2_pending c = []"
  shows "\<exists>c1 q c2. r2_send dev (r2_request a 0 src) c = Inr (True, c1) \<and>
    serve_completed_reads (c1\<lparr>r2_clk := r2_clk c1 + 1\<rparr>) = ([q], c2) \<and> q_addr q = a \<and>
    s_read_latency (r2_stats c2) = s_read_latency (r2_stats c) + (r2_clk c + 2)"
  using assms by (auto simp: r2_send_def r2_request_def serve_completed_reads_def count_send_def Let_def)

definition late_controller :: R2Controller where
  "late_controller = (r2_new_controller sample_device 1 0)\<lparr>r2_clk := 1000, r2_write := [r2_request 64 1 0]\<rparr>"

theorem forwarded_read_latency_witness:
  "\<exists>c1 q c2. r2_send sample_device (r2_request 64 0 0) late_controller = Inr (True, c1) \<and>
    serve_completed_reads (c1\<lparr>r2_clk := r2_clk c1 + 1\<rparr>) = ([q], c2) \<and> s_read_latency (r2_stats c2) = 1002"
  using forwarded_read_latency [of late_controller "r2_request 64 1 0" 64 sample_device 0]
  by (fastforce simp: late_controller_def r2_new_controller_def r2_new_stats_def r2_request_def)

end
