(* ===== verification/Spec2Isabelle.thy ===== *)
theory Spec2Isabelle
  imports Contention_Sim ZCache Hash Dram_Host Coherent_Run Core_Clock Prefetch_System Ramulator2_Host
begin

text \<open>
  \<^bold>\<open>Verification library for the memory interface of ZSim\<close> (\<open>src/simulator-source\<close>).

  \<^bold>\<open>The program.\<close> ZSim simulates a multicore in two alternating phases. In the \<^emph>\<open>bound phase\<close> cores run
  ahead: a load or store goes through a filter cache, private caches and a shared cache, kept coherent
  by MESI controllers, to a memory controller, which answers at once with an estimated latency and
  leaves an event. In the \<^emph>\<open>weave phase\<close> the events of all cores run in the order of their cycles
  (the contention simulation); the memory controller hands them to a detailed DRAM simulator that
  runs on a clock of its own, and what it measures corrects the estimates of the next bound phase.
  The interface between the two clocks and the two phases is what the repository contributes; this
  library models it together with the caches above it and two DRAM simulators, DRAMsim3 and the controllers of Ramulator 2,
  below it.

  \<^bold>\<open>Conventions\<close> (\<open>Prelude\<close>). A C++ struct is a record and an enumeration a datatype. A pointer is an
  index, or the place of an object in a list; a null pointer is \<open>None\<close>. A call that may fail an
  \<open>assert\<close>, \<open>panic\<close> or abort returns \<open>zerr + 'a\<close>, and what C++ leaves undefined (an index out of range,
  a division by zero) is the error \<open>Undefined\<close>. \<open>bindR\<close> sequences such calls, \<open>require\<close> is a check, and
  \<open>succeeds r Q\<close> says that \<open>r\<close> is no error and its value satisfies \<open>Q\<close>: a property stated with it
  excludes every error. Integers whose wrap-around matters (scores of the replacement policies,
  latencies of the estimators, hashes, addresses, DRAMsim3's \<open>int\<close> fields, clock differences) are
  words or written with their modulus; cycle counts and statistics are natural numbers, so
  statements about them hold for runs shorter than \<open>2 ^ 64\<close> cycles.
\<close>

text \<open>
  \<^bold>\<open>Theories of the bound phase.\<close>

  \<^item> \<open>Memory_Hierarchy\<close> (\<open>memory_hierarchy.h/.cpp\<close>): access types, MESI states, requests and their
    flags; \<open>SplitAddrMemory\<close>, which spreads lines over several controllers.
  \<^item> \<open>Repl_Policies\<close> (\<open>repl_policies.h\<close>): the policies of the Skylake-like configuration
    (\<open>MN4LLCReplPolicy\<close>, \<open>MN4L2ReplPolicy\<close>), LRU, tree LRU, NRU, LFU, random and the violation profiler.
    The locale \<open>repl_policy\<close> is their contract with an array: after \<open>rank\<close> of non-empty candidates a
    candidate is returned and the invariant is kept. It is interpreted for LLC, L2, LRU, NRU and LFU.
  \<^item> \<open>Cache_Arrays\<close>, \<open>ZCache\<close> (\<open>cache_arrays.h/.cpp\<close>): the set-associative array and the zcache with its
    breadth-first walk and relocation, over any policy that meets the contract (\<open>sa_with_policy\<close>,
    \<open>z_with_policy\<close>); both are sublocales of \<open>cache_array\<close>, a partial map of lines to addresses that
    a replacement changes at the victim and the new line only.
  \<^item> \<open>Hash\<close> (\<open>hash.h/.cpp\<close>): H3, Sandy Bridge and identity hash; their linearity over exclusive or.
  \<^item> \<open>Coherence\<close> (\<open>coherence_ctrls.h/.cpp\<close>, \<open>cache.h/.cpp\<close>): the bottom and top controllers, the joined
    controller with its terminal variant, and \<open>Cache::access\<close>/\<open>invalidate\<close> with the timing records they
    stitch. The objects of the system are entries of a list, so a call of a parent or a child is a call with
    an index. \<open>access_at\<close> recurses two levels deep and \<open>invalidate_at\<close> one, the depth of the hierarchy.
  \<^item> \<open>Filter_Cache\<close> (\<open>filter_cache.h\<close>): the direct-mapped filter that answers hits of the core.
  \<^item> \<open>Directory\<close>, \<open>Coherent_System\<close>, \<open>Coherent_Access\<close>: the invariant of a system of first-level caches below
    an inclusive shared cache, first for one directory entry, then for every operation of an access. The
    locale \<open>coherent_system\<close> extends \<open>memory_object\<close> (what a cache asks of the memory below it) by the laws
    of the arrays.
  \<^item> \<open>Coherent_Run\<close> (parts of \<open>init.cpp\<close>, \<open>timing_core.cpp\<close>): the system as it is built at start-up with
    LRU set-associative banks and a DRAMsim3 controller, runs of loads, stores and context switches of its
    cores, and the interpretations of both locales on it: the coherence properties hold for
    every history.
  \<^item> \<open>Prefetcher\<close> (\<open>prefetcher.h/.cpp\<close>, \<open>OOOCoreRecorder::recordPrefetch\<close>): the stream prefetcher between two levels: its
    table of pages, the stride predictor, the extra access and its timing record. The levels around it are
    arguments: the banks above it, which report the lines that they take away during an access.
  \<^item> \<open>Prefetch_Stream\<close>: the invariant of the table and the phases of an entry during a stream, over the locale
    \<open>prefetch_parent\<close>: a parent answers a demand access and, after it, a prefetch of the same page.
  \<^item> \<open>Prefetch_System\<close>: the interpretation of this locale on the shared cache of \<open>Coherent_Run\<close> while a
    first-level cache waits for its line, so that coherence extends to a hierarchy with prefetchers.
  \<^item> \<open>Bound_Latency\<close> (\<open>bound_mem_latency.h\<close>): the estimators; the locale \<open>estimator\<close> states when an estimate
    is published, and is interpreted for the fixed, last, maximum and average strategies.
  \<^item> \<open>Core_Tracker\<close> (\<open>mem_core_tracker.h\<close>): per-core statistics of the controllers.
\<close>

text \<open>
  \<^bold>\<open>Theories of the weave phase.\<close>

  \<^item> \<open>Multimap\<close>, \<open>Prio_Queue\<close> (\<open>prio_queue.h\<close>): the calendar queue of a domain, with its bit masks and the far
    map; the locale \<open>event_queue\<close> says that it is a priority queue of a multiset of events.
  \<^item> \<open>Contention_Sim\<close> (\<open>contention_sim.cpp\<close>): the event loop of a phase for one domain, as a partial
    function (an event may reschedule itself forever); it terminates when events only schedule later events.
  \<^item> \<open>Timing_Events\<close> (\<open>timing_event.h/.cpp\<close>, \<open>event_recorder.h\<close>): the event graph: children, delay
    events, queueing, hold and release, and the wake-up of children. \<open>ev_done\<close> takes as fuel the depth of its
    stack, and as much as there are events is enough in an acyclic graph.
  \<^item> \<open>Event_Paths\<close>: lemmas on the graph that its users share: its edges and depth, what a linked or
    appended event keeps, and a potential over the edges, the zero-load start of an event, that bounds from
    below the cycle at which an event can run.
  \<^item> \<open>Core_Recorder\<close> (\<open>core_recorder.h/.cpp\<close>, \<open>timing_core.cpp\<close>): the recorder of a timing core: joining and
    leaving, the chain of core events that an access extends, the taper at the end of a bound phase and the
    correction of the clock after a weave phase; the runs of one core with its memory as lists of operations.
  \<^item> \<open>Core_Clock\<close>: the invariant of these runs and what follows from it: the clock of the core, its
    zero-load clock and the cycle of its last event stay in order whatever contention the memory adds.
  \<^item> \<open>Mem_Ctrl\<close>, \<open>Dramsim3_Ctrl\<close> (\<open>dramsim3_mem_ctrl.h/.cpp\<close>): the memory controller: accesses in the bound
    phase, issue, waiting queue, completion and the two clocks in the weave phase. The attached
    simulator is the locale \<open>dram_backend\<close>: a multiset of accepted and unanswered
    addresses from which every callback takes one.
  \<^item> \<open>Dram_Host\<close>: the controller with DRAMsim3 attached, its contract discharged by the models of the two
    memory systems of DRAMsim3.
\<close>

text \<open>
  \<^bold>\<open>Theories of DRAMsim3\<close> (\<open>dramsim3/DRAMsim3/src\<close>).

  \<^item> \<open>Dram_Bank\<close> (\<open>common.h/.cc\<close>, \<open>bankstate.h/.cc\<close>), \<open>Dram_Config\<close> (\<open>configuration.h/.cc\<close>): commands, the
    state machine of a bank, parameters and the address mapping.
  \<^item> \<open>Dram_Channel\<close>, \<open>Dram_Timing\<close> (\<open>channel_state.cc\<close>, \<open>timing.cc\<close>): the timing tables and the state of a
    channel; every command that is issued respects every constraint of the tables and the window
    of four activations.
  \<^item> \<open>Dram_Queue\<close>, \<open>Dram_Refresh\<close>, \<open>Dram_Controller\<close> (\<open>command_queue.cc\<close>, \<open>refresh.cc\<close>, \<open>controller.cc\<close>).
  \<^item> \<open>Dram_Conservation\<close>: no transaction is lost or invented, and no assertion fails, for every controller
    without self-refresh and without the dual-command mode of HBM. \<open>Dram_Liveness\<close>: a reachable deadlock of the
    write drain.
  \<^item> \<open>Dram_System\<close> (\<open>dram_system.cc\<close>, \<open>simple_stats.cc\<close>): the JEDEC and the ideal memory system, both
    interpretations of \<open>dram_backend\<close>.
\<close>

text \<open>
  \<^bold>\<open>Theories of Ramulator 2\<close> (\<open>ramulator2_mem_ctrl.cpp\<close>, \<open>ramulator2/src\<close>).

  \<^item> \<open>Ramulator2_Ctrl\<close> (\<open>ramulator2_mem_ctrl.h/.cpp\<close>): the controller on the side of ZSim. Its simulator is the
    locale \<open>callback_backend\<close>: what is sent may be refused, reads are owed until they are called back, and a
    tick may give up, though not in the next \<open>k\<close> ticks. \<open>unless_refused\<close> states a result with this exception.
  \<^item> \<open>Ramulator2_System\<close> (\<open>base/request.h/.cpp\<close>, \<open>generic_dram_controller.cpp\<close>, \<open>generic_scheduler.cpp\<close>,
    \<open>all_bank_refresh.cpp\<close>, \<open>generic_DRAM_system.cpp\<close>, \<open>ramulator2_wrapper.cpp\<close>): buffers, scheduling, refresh,
    statistics and ticks of the shipped configuration. The DRAM device is a record of functions, an argument.
  \<^item> \<open>Ramulator2_Mapper\<close> (\<open>linear_mappers.cpp\<close>): the address mapping of this configuration.
  \<^item> \<open>Ramulator2_Conservation\<close>: no read is lost or invented whatever the device does. Refreshes are sent
    without regard to the room in their buffer, so the number of ticks that surely pass before one is
    refused (\<open>safe_ticks\<close>) is part of the invariant; it needs no assumption on the progress of the device.
  \<^item> \<open>Ramulator2_Host\<close>: the interpretation of \<open>callback_backend\<close> on the memory system.
\<close>

text \<open>
  \<^bold>\<open>What the properties show.\<close> \<^emph>\<open>Coherence\<close>: no assertion of the controllers fails, one writer or many readers,
  inclusion, an exact directory, filters that never grant more than the cache, with or without a prefetcher below
  the shared cache. \<^emph>\<open>Prefetching\<close>: one more request at most, streams are covered after four accesses, one that
  falls behind is never covered. \<^emph>\<open>Storage\<close>: a replacement
  loses its victim and nothing else; each policy picks what it promises. \<^emph>\<open>Order\<close>: the queue sorts, the phase
  loop ends and leaves nothing before its limit, the graph runs as a dataflow. \<^emph>\<open>The interface\<close>: every event
  given to the controller is either done once or still accounted for, the memory clock runs at
  the ratio of the configured periods, estimates lie in the range observed. \<^emph>\<open>DRAM\<close>: timing,
  conservation, refresh schedule, address mapping. Some properties state what the code does
  against its intention; they are the subject of the findings in the manifest.

  \<^bold>\<open>Not modelled.\<close> Threads, locks and domain crossings (the model is that of one thread and one domain: the
  order of the operations is a list); floating point (queueing formulas, power, moving averages);
  Pin, XED, SystemC, the operating system, configuration files and output; the state machines of the
  devices of Ramulator 2; third-party simulators other than these two and alternatives that no experiment of the repository builds. The manifest lists every
  such part with its reason.
\<close>

end
